(* ===== verification/Qlog_Prelude.thy ===== *)
theory Qlog_Prelude
  imports "HOL-Library.Word"
begin

unbundle bit_operations_syntax

text \<open>
  The vocabulary every component shares: the machine integers of the C++ code, byte memory with
  the little-endian \<open>memcpy\<close> of a fixed-width integer, the arithmetic of power-of-two index masks,
  and the lemma collections \<open>ring_arith\<close> (cursor and index arithmetic) and \<open>mem_simps\<close> (reads and
  writes of byte memory).
\<close>

section \<open>Machine integers and bytes\<close>

type_synonym u8 = "8 word"
type_synonym u16 = "16 word"
type_synonym u32 = "32 word"
type_synonym u64 = "64 word"

text \<open>A byte buffer; a pointer into it is an offset, \<open>None\<close> is \<open>nullptr\<close>.\<close>

type_synonym bytes = "u8 list"
type_synonym ptr = "nat option"

named_theorems ring_arith \<open>cursor, index and block arithmetic\<close>
named_theorems mem_simps \<open>reads and writes of byte memory\<close>

lemma u32_less: "unat (x :: u32) < 4294967296"
  using unsigned_less [of x, where ?'a = nat] by simp

lemma unat_ucast_up [simp]: "unat (ucast (x :: u32) :: u64) = unat x"
proof -
  have "unat x < 2 ^ 64" using u32_less [of x] by simp
  then show ?thesis by (simp add: unsigned_ucast_eq take_bit_nat_eq_self)
qed

section \<open>Reading and writing byte memory\<close>

definition mem_read :: "bytes \<Rightarrow> nat \<Rightarrow> nat \<Rightarrow> bytes" where
  "mem_read m off n = take n (drop off m)"

text \<open>\<open>memcpy\<close> into a buffer. Every use in the components is proved to stay in range.\<close>

definition mem_write :: "bytes \<Rightarrow> nat \<Rightarrow> bytes \<Rightarrow> bytes" where
  "mem_write m off bs = take off m @ bs @ drop (off + length bs) m"

lemma length_mem_read [simp]: "off + n \<le> length m \<Longrightarrow> length (mem_read m off n) = n"
  by (simp add: mem_read_def)

lemma length_mem_write [simp]:
  "off + length bs \<le> length m \<Longrightarrow> length (mem_write m off bs) = length m"
  by (simp add: mem_write_def)

lemma nth_mem_read: "off + n \<le> length m \<Longrightarrow> i < n \<Longrightarrow> mem_read m off n ! i = m ! (off + i)"
  by (simp add: mem_read_def)

lemma nth_mem_write:
  assumes "off + length bs \<le> length m" and "i < length m"
  shows "mem_write m off bs ! i
    = (if off \<le> i \<and> i < off + length bs then bs ! (i - off) else m ! i)"
  using assms by (auto simp: mem_write_def nth_append)

lemma mem_read_write_same [mem_simps]:
  "off + length bs \<le> length m \<Longrightarrow> n = length bs \<Longrightarrow> mem_read (mem_write m off bs) off n = bs"
  by (simp add: mem_read_def mem_write_def)

text \<open>Two buffers that agree on a range read the same there.\<close>

lemma mem_read_cong:
  assumes "length m' = length m" and "off + n \<le> length m"
    and "\<And>i. off \<le> i \<Longrightarrow> i < off + n \<Longrightarrow> m' ! i = m ! i"
  shows "mem_read m' off n = mem_read m off n"
  using assms by (auto intro!: nth_equalityI simp: nth_mem_read)

lemma mem_read_write_disjoint [mem_simps]:
  assumes "off + length bs \<le> length m" and "o' + n \<le> length m"
    and "o' + n \<le> off \<or> off + length bs \<le> o'"
  shows "mem_read (mem_write m off bs) o' n = mem_read m o' n"
  using assms by (intro mem_read_cong) (auto simp: nth_mem_write)

section \<open>Little-endian integers\<close>

text \<open>
  \<open>memcpy\<close> between an integer and bytes on the little-endian hosts the library supports:
  \<open>le_bytes n w\<close> are the \<open>n\<close> low bytes of \<open>w\<close>, least significant first, \<open>le_word\<close> reads them back.
\<close>

definition le_bytes :: "nat \<Rightarrow> 'a::len word \<Rightarrow> bytes" where
  "le_bytes n w = map (\<lambda>i. ucast (drop_bit (8 * i) w)) [0..<n]"

primrec le_word :: "bytes \<Rightarrow> 'a::len word" where
  "le_word [] = 0"
| "le_word (b # bs) = ucast b OR push_bit 8 (le_word bs)"

lemma length_le_bytes [simp]: "length (le_bytes n w) = n"
  by (simp add: le_bytes_def)

lemma bit_le_word:
  "bit (le_word bs :: 'a::len word) k
    \<longleftrightarrow> k < LENGTH('a) \<and> k div 8 < length bs \<and> bit (bs ! (k div 8)) (k mod 8)"
proof (induction bs arbitrary: k)
  case Nil
  then show ?case by simp
next
  case (Cons b bs)
  show ?case
  proof (cases "k < 8")
    case True
    then show ?thesis by (auto simp: bit_simps)
  next
    case False
    then have d: "k div 8 = Suc ((k - 8) div 8)" and m: "(k - 8) mod 8 = k mod 8"
      by (auto simp: le_div_geq le_mod_geq)
    have nb: "\<not> bit b k" using False by (auto dest: bit_imp_le_length)
    show ?thesis using False Cons.IH [of "k - 8"] nb by (auto simp: bit_simps d m)
  qed
qed

lemma le_word_bytes: "LENGTH('a) \<le> 8 * n \<Longrightarrow> le_word (le_bytes n w) = (w :: 'a::len word)"
  by (rule bit_word_eqI)
     (auto simp: bit_le_word le_bytes_def bit_simps div_mult_mod_eq [of _ 8, symmetric]
       mult.commute less_mult_imp_div_less)

lemma le_word_le_bytes: "le_word (le_bytes k w) = take_bit (8 * k) (w :: u64)"
proof (rule bit_word_eqI)
  fix i :: nat assume "i < LENGTH(64)"
  moreover have "8 * (i div 8) + i mod 8 = i" "i div 8 < k \<longleftrightarrow> i < 8 * k" by auto
  ultimately show "bit (le_word (le_bytes k w) :: u64) i = bit (take_bit (8 * k) w) i"
    by (auto simp: bit_le_word bit_simps le_bytes_def)
qed

lemma le_bytes_word:
  assumes "8 * length bs \<le> LENGTH('a)"
  shows "le_bytes (length bs) (le_word bs :: 'a::len word) = bs"
proof (rule nth_equalityI)
  fix i assume "i < length (le_bytes (length bs) (le_word bs :: 'a word))"
  then have i: "i < length bs" by simp
  show "le_bytes (length bs) (le_word bs :: 'a word) ! i = bs ! i"
  proof (rule bit_word_eqI)
    fix k :: nat assume "k < LENGTH(8)"
    then have "k < 8" by simp
    then show "bit (le_bytes (length bs) (le_word bs :: 'a word) ! i) k = bit (bs ! i) k"
      using i assms by (auto simp: le_bytes_def bit_simps bit_le_word)
  qed
qed simp

section \<open>Memory cells of fixed width\<close>

definition load_u32 :: "bytes \<Rightarrow> nat \<Rightarrow> u32" where
  "load_u32 m off = le_word (mem_read m off 4)"

definition store_u32 :: "bytes \<Rightarrow> nat \<Rightarrow> u32 \<Rightarrow> bytes" where
  "store_u32 m off v = mem_write m off (le_bytes 4 v)"

lemma length_store_u32 [simp]: "off + 4 \<le> length m \<Longrightarrow> length (store_u32 m off v) = length m"
  by (simp add: store_u32_def)

lemma load_store_u32_same [mem_simps]:
  "off + 4 \<le> length m \<Longrightarrow> load_u32 (store_u32 m off v) off = v"
  by (simp add: load_u32_def store_u32_def mem_simps le_word_bytes)

lemma load_store_u32_disjoint [mem_simps]:
  "off + 4 \<le> length m \<Longrightarrow> o' + 4 \<le> length m \<Longrightarrow> o' + 4 \<le> off \<or> off + 4 \<le> o' \<Longrightarrow>
    load_u32 (store_u32 m off v) o' = load_u32 m o'"
  by (simp add: load_u32_def store_u32_def mem_simps)

lemma load_u32_cong:
  assumes "length m' = length m" and "off + 4 \<le> length m"
    and "\<And>i. off \<le> i \<Longrightarrow> i < off + 4 \<Longrightarrow> m' ! i = m ! i"
  shows "load_u32 m' off = load_u32 m off"
  using mem_read_cong [OF assms] by (simp add: load_u32_def)

lemma nth_store_u32_other:
  "off + 4 \<le> length m \<Longrightarrow> i < length m \<Longrightarrow> i < off \<or> off + 4 \<le> i \<Longrightarrow> store_u32 m off v ! i = m ! i"
  by (auto simp: store_u32_def nth_mem_write)

section \<open>Power-of-two masks\<close>

text \<open>
  Ring indices are taken with \<open>cursor & (count - 1)\<close>. For a power of two that is the remainder,
  and wrapping a 32-bit cursor does not disturb it because the count divides \<open>2 ^ 32\<close>.
\<close>

definition is_pow2 :: "'a::len word \<Rightarrow> bool" where
  "is_pow2 w \<longleftrightarrow> w \<noteq> 0 \<and> w AND (w - 1) = 0"

lemma unat_pow2:
  assumes "k < LENGTH('a)"
  shows "unat (2 ^ k :: 'a::len word) = 2 ^ k"
proof -
  have "unat (of_nat (2 ^ k) :: 'a word) = 2 ^ k mod 2 ^ LENGTH('a)" by (rule unat_of_nat)
  with assms show ?thesis by simp
qed

lemma mask_AND_mod:
  assumes "unat w = 2 ^ k" and "k < LENGTH('a)"
  shows "unat (c AND (w - 1)) = unat c mod unat (w :: 'a::len word)"
proof -
  have "w = of_nat (unat w)" by simp
  then have "w = 2 ^ k" using assms by simp
  then have "w - 1 = mask k" by (simp add: mask_eq_decr_exp)
  then have "unat (c AND (w - 1)) = take_bit k (unat c)"
    using assms by (simp add: take_bit_eq_mask [symmetric] unsigned_take_bit_eq)
  then show ?thesis using assms by (simp add: take_bit_eq_mod)
qed

lemma unat_add_mod_pow2:
  assumes "unat (w :: 'a::len word) = 2 ^ k" and "k < LENGTH('a)"
  shows "unat (c + d :: 'a word) mod unat w = (unat c + unat d) mod unat w"
proof -
  have "unat w dvd 2 ^ LENGTH('a)" using assms by (simp add: le_imp_power_dvd)
  then show ?thesis by (simp add: unat_word_ariths mod_mod_cancel)
qed

text \<open>Index windows that together hold at most \<open>n\<close> blocks do not overlap.\<close>

lemma mod_window_inj:
  assumes "(i + a) mod n = (i + b) mod n" and "a < n" and "b < (n :: nat)"
  shows "a = b"
proof (rule ccontr)
  assume "a \<noteq> b"
  moreover have "n dvd (i + b) - (i + a)" if "a < b" using assms(1) that
    by (metis add_le_cancel_left less_imp_le mod_eq_dvd_iff_nat)
  moreover have "n dvd (i + a) - (i + b)" if "b < a" using assms(1) that
    by (metis add_le_cancel_left less_imp_le mod_eq_dvd_iff_nat)
  ultimately show False using assms(2,3)
    by (metis add_diff_cancel_left dvd_imp_le less_imp_diff_less linorder_neqE_nat not_le
        zero_less_diff)
qed

end
