(* ===== verification/Qlog_Buffer_Defs.thy ===== *)
theory Qlog_Buffer_Defs
  imports Qlog_Prelude
begin

text \<open>
  The size helpers (\<open>utility.hpp\<close>, \<open>alignment.hpp\<close>, \<open>checked_size.hpp\<close>) and the vocabulary the
  ring buffers share: result codes, read and write handles and the buffer configuration with its
  checksum (\<open>log_buffer_defs.hpp\<close>, \<open>log_buffer_config.hpp\<close>, \<open>log_buffer_config.cpp\<close>).
\<close>

section \<open>Size helpers\<close>

definition round_pow_of_two :: "u32 \<Rightarrow> u32" where
  "round_pow_of_two v0 =
    (let v = v0 - 1;
         v = v OR drop_bit 1 v;
         v = v OR drop_bit 2 v;
         v = v OR drop_bit 4 v;
         v = v OR drop_bit 8 v;
         v = v OR drop_bit 16 v
     in v + 1)"

definition align_4 :: "u64 \<Rightarrow> u64" where
  "align_4 n = (n + 3) AND NOT 3"

definition align_8 :: "u64 \<Rightarrow> u64" where
  "align_8 n = (n + 7) AND NOT 7"

text \<open>\<open>false\<close> leaves the result untouched: \<open>None\<close> here.\<close>

definition checked_add :: "u64 \<Rightarrow> u64 \<Rightarrow> u64 option" where
  "checked_add lhs rhs = (if rhs > - 1 - lhs then None else Some (rhs + lhs))"

definition checked_mul :: "u64 \<Rightarrow> u64 \<Rightarrow> u64 option" where
  "checked_mul lhs rhs = (if lhs \<noteq> 0 \<and> rhs > (- 1) div lhs then None else Some (lhs * rhs))"

section \<open>Handles and result codes\<close>

datatype enum_buffer_result_code =
    success
  | err_empty_log_buffer
  | err_not_enough_space
  | err_wait_and_retry
  | err_data_not_contiguous
  | err_alloc_size_invalid
  | err_buffer_not_inited
  | err_io_failure_drop
  | result_code_count

record log_buffer_write_handle =
  wh_data_addr :: ptr
  wh_result :: enum_buffer_result_code
  low_space_flag :: bool

record log_buffer_read_handle =
  rh_data_addr :: ptr
  rh_result :: enum_buffer_result_code
  rh_data_size :: u32

text \<open>The value-initialised handles \<open>log_buffer_write_handle{}\<close> and \<open>log_buffer_read_handle{}\<close>.\<close>

definition empty_write_handle :: log_buffer_write_handle where
  "empty_write_handle =
    \<lparr>wh_data_addr = None, wh_result = err_empty_log_buffer, low_space_flag = False\<rparr>"

definition empty_read_handle :: log_buffer_read_handle where
  "empty_read_handle =
    \<lparr>rh_data_addr = None, rh_result = err_empty_log_buffer, rh_data_size = 0\<rparr>"

datatype memory_map_buffer_state = init_with_memory | recover_from_memory_map | init_with_memmap

datatype log_memory_policy = discard_when_full | block_when_full | auto_expand_when_full

datatype create_memory_map_result = failed | use_existed | new_created

section \<open>Buffer configuration\<close>

record log_buffer_config =
  log_name :: bytes
  log_categories_name :: "bytes list"
  default_buffer_size :: u32
  need_recovery :: bool
  policy :: log_memory_policy
  high_frequency_threshold_per_second :: u64

definition default_log_buffer_config :: log_buffer_config where
  "default_log_buffer_config =
    \<lparr>log_name = [], log_categories_name = [], default_buffer_size = 1024 * 64,
     need_recovery = False, policy = block_when_full,
     high_frequency_threshold_per_second = 1000\<rparr>"

text \<open>\<open>'/'\<close> is 47. \<open>char\<close> is signed, so the cast to 64 bits extends its sign.\<close>

definition calculate_check_sum :: "log_buffer_config \<Rightarrow> u64" where
  "calculate_check_sum cfg =
    (let verify_str = log_name cfg @ [47] @ concat (map (\<lambda>c. c @ [47]) (log_categories_name cfg))
     in foldl (\<lambda>check_sum ch. (check_sum * 1099511628211) XOR scast ch) 0 verify_str)"

section \<open>Rounding up to a power of two\<close>

text \<open>\<open>w\<close> is \<open>v\<close> with every set bit smeared over the \<open>m\<close> positions at and below it.\<close>

definition smeared :: "nat \<Rightarrow> 'a::len word \<Rightarrow> 'a word \<Rightarrow> bool" where
  "smeared m v w \<longleftrightarrow> (\<forall>j. bit w j \<longleftrightarrow> (\<exists>i. j \<le> i \<and> i < j + m \<and> bit v i))"

lemma smeared_1: "smeared 1 v v"
  by (auto simp: smeared_def less_Suc_eq_le dest: le_antisym)

lemma smeared_step:
  assumes "smeared m v w"
  shows "smeared (m + m) v (w OR drop_bit m w)"
proof -
  have rng: "j \<le> i \<and> i < j + (m + m)
      \<longleftrightarrow> (j \<le> i \<and> i < j + m) \<or> (m + j \<le> i \<and> i < m + j + m)" for i j :: nat
    by arith
  have "(\<exists>i. j \<le> i \<and> i < j + (m + m) \<and> bit v i)
      \<longleftrightarrow> (\<exists>i. j \<le> i \<and> i < j + m \<and> bit v i) \<or> (\<exists>i. m + j \<le> i \<and> i < m + j + m \<and> bit v i)" for j
    using rng by blast
  then show ?thesis using assms by (auto simp: smeared_def bit_simps)
qed

lemma smeared_all:
  assumes "smeared m v w" and "LENGTH('a) \<le> m"
  shows "\<exists>k. w = (mask k :: 'a::len word) \<and> k \<le> LENGTH('a) \<and> unat v < 2 ^ k
           \<and> (\<forall>k'. unat v < 2 ^ k' \<longrightarrow> k \<le> k')"
proof -
  define k where "k = (LEAST k. unat v < 2 ^ k)"
  have ex: "unat v < 2 ^ LENGTH('a)" by simp
  have k: "unat v < 2 ^ k" unfolding k_def by (rule LeastI) (rule ex)
  have least: "k \<le> k'" if "unat v < 2 ^ k'" for k'
    unfolding k_def by (rule Least_le) (rule that)
  have self: "take_bit k (unat v) = unat v" using k by (simp add: take_bit_nat_eq_self)
  have bits: "i < k" if "bit v i" for i
  proof -
    have "bit (unat v) i" using that by (simp add: bit_unsigned_iff bit_imp_possible_bit)
    then have "bit (take_bit k (unat v)) i" by (simp only: self)
    then show ?thesis by (simp add: bit_simps)
  qed
  have top: "k = 0 \<or> bit v (k - 1)"
  proof (rule ccontr)
    assume "\<not> ?thesis"
    then have "0 < k" and nb: "\<not> bit v (k - 1)" by auto
    have "unat v = take_bit (k - 1) (unat v)"
    proof (rule bit_eqI)
      fix i
      show "bit (unat v) i = bit (take_bit (k - 1) (unat v)) i"
        using bits [of i] nb \<open>0 < k\<close> by (cases "i = k - 1") (auto simp: bit_simps)
    qed
    then have "unat v < 2 ^ (k - 1)" by (metis take_bit_nat_less_exp)
    with least [of "k - 1"] \<open>0 < k\<close> show False by simp
  qed
  have "w = mask k"
  proof (rule bit_word_eqI)
    fix j :: nat assume j: "j < LENGTH('a)"
    have "(\<exists>i. j \<le> i \<and> i < j + m \<and> bit v i) \<longleftrightarrow> j < k"
    proof
      assume "j < k"
      with top have "bit v (k - 1)" and "j \<le> k - 1" by auto
      moreover have "k - 1 < j + m"
        using \<open>bit v (k - 1)\<close> assms(2) by (auto dest!: bit_imp_le_length)
      ultimately show "\<exists>i. j \<le> i \<and> i < j + m \<and> bit v i" by blast
    qed (use bits in force)
    with assms(1) j show "bit w j = bit (mask k :: 'a word) j" by (simp add: smeared_def bit_simps)
  qed
  moreover have "k \<le> LENGTH('a)" using least ex by blast
  ultimately show ?thesis using k least by blast
qed

lemma round_pow_of_two_mask:
  "\<exists>k. round_pow_of_two v = mask k + 1 \<and> k \<le> 32 \<and> unat (v - 1) < 2 ^ k
     \<and> (\<forall>k'. unat (v - 1) < 2 ^ k' \<longrightarrow> k \<le> k')"
proof -
  define w1 where "w1 = v - 1"
  define w2 where "w2 = w1 OR drop_bit 1 w1"
  define w4 where "w4 = w2 OR drop_bit 2 w2"
  define w8 where "w8 = w4 OR drop_bit 4 w4"
  define w16 where "w16 = w8 OR drop_bit 8 w8"
  define w32 where "w32 = w16 OR drop_bit 16 w16"
  have "smeared 2 w1 w2" using smeared_step [OF smeared_1, of w1] by (simp add: w2_def numeral_2_eq_2)
  then have "smeared 4 w1 w4" using smeared_step [of 2 w1 w2] by (simp add: w4_def)
  then have "smeared 8 w1 w8" using smeared_step [of 4 w1 w4] by (simp add: w8_def)
  then have "smeared 16 w1 w16" using smeared_step [of 8 w1 w8] by (simp add: w16_def)
  then have "smeared 32 w1 w32" using smeared_step [of 16 w1 w16] by (simp add: w32_def)
  from smeared_all [OF this] have "\<exists>k. w32 = mask k \<and> k \<le> 32 \<and> unat w1 < 2 ^ k
      \<and> (\<forall>k'. unat w1 < 2 ^ k' \<longrightarrow> k \<le> k')" by simp
  moreover have "round_pow_of_two v = w32 + 1"
    by (simp add: round_pow_of_two_def Let_def w1_def w2_def w4_def w8_def w16_def w32_def)
  ultimately show ?thesis by (auto simp: w1_def)
qed

lemma unat_mask_plus_1: "k < 32 \<Longrightarrow> unat (mask k + 1 :: u32) = 2 ^ k"
proof -
  assume "k < 32"
  have "(mask k + 1 :: u32) = 2 ^ k" by (simp add: mask_eq_decr_exp)
  then show ?thesis using \<open>k < 32\<close> by (simp add: unat_pow2)
qed

text \<open>Up to \<open>2^31\<close> the bit trick returns the least power of two that is not smaller than the argument.\<close>

lemma round_pow_of_two_least:
  assumes "1 \<le> v" and "unat v \<le> 2 ^ 31"
  shows "\<exists>k\<le>31. unat (round_pow_of_two v) = 2 ^ k \<and> unat v \<le> 2 ^ k
    \<and> (\<forall>j. unat v \<le> 2 ^ j \<longrightarrow> k \<le> j)"
proof -
  obtain k where k: "round_pow_of_two v = mask k + 1" "k \<le> 32" "unat (v - 1) < 2 ^ k"
      and least: "\<And>k'. unat (v - 1) < 2 ^ k' \<Longrightarrow> k \<le> k'"
    using round_pow_of_two_mask by blast
  have pos: "0 < unat v" using assms(1) by (simp add: word_le_nat_alt)
  then have sub: "unat (v - 1) = unat v - 1" using assms(1) by (simp add: unat_sub)
  have lt_iff: "unat (v - 1) < 2 ^ j \<longleftrightarrow> unat v \<le> 2 ^ j" for j
    using pos by (auto simp: sub)
  have "k \<le> 31" using least [of 31] assms(2) lt_iff by blast
  with k least lt_iff show ?thesis by (auto simp: unat_mask_plus_1)
qed

text \<open>Outside that range the result wraps to zero.\<close>

lemma round_pow_of_two_wraps:
  assumes "v = 0 \<or> 2 ^ 31 < unat v"
  shows "round_pow_of_two v = 0"
proof -
  obtain k where k: "round_pow_of_two v = mask k + 1" "k \<le> 32" "unat (v - 1) < 2 ^ k"
    using round_pow_of_two_mask by blast
  have "2 ^ 31 \<le> unat (v - 1)"
  proof (cases "v = 0")
    case False
    then have "unat (v - 1) = unat v - 1" by (simp add: unat_sub word_le_nat_alt unat_gt_0 Suc_leI)
    with assms False show ?thesis by simp
  next
    case True
    then have "v - 1 = 0xFFFFFFFF" by simp
    then show ?thesis by simp
  qed
  then have "(2 :: nat) ^ 31 < 2 ^ k" using k(3) by (rule le_less_trans)
  then have "31 < k" by (rule power_less_imp_less_exp [rotated]) simp
  with k(2) have "k = 32" by simp
  with k(1) show ?thesis by (simp add: mask_eq_decr_exp)
qed

end
