(* ===== verification/Qlog_Siso.thy ===== *)
theory Qlog_Siso
  imports Qlog_Buffer_Defs
begin

text \<open>
  The single-producer single-consumer ring buffer (\<open>siso_ring_buffer.hpp\<close>, \<open>siso_ring_buffer.cpp\<close>).
  The ring is an array of 8-byte blocks addressed by free-running 32-bit cursors. Each side keeps
  private caches of both cursors (\<open>wt_*\<close> for the writing thread, \<open>rt_*\<close> for the reading thread) and
  publishes its own cursor through an atomic. An operation that loads the other side's atomic takes
  the loaded value as an argument, so that one definition serves sequential use (the value is the
  field itself) and concurrent use (the value may be stale).
  The debug-only thread checks and assertions are not part of the model; the assertions about
  cursors and block counts are consequences of the invariant below.
\<close>

section \<open>Data\<close>

record siso_head =
  aligned_blocks_count_cache :: u32
  rt_reading_cursor_cache :: u32
  rt_writing_cursor_cache :: u32
  wt_reading_cursor_cache :: u32
  wt_writing_cursor_cache :: u32
  reading_cursor :: u32
  writing_cursor :: u32

text \<open>\<open>data_bytes\<close> is the storage behind the head; \<open>aligned_blocks_\<close> overlays it.\<close>

record siso_ring_buffer =
  head :: siso_head
  aligned_blocks_count :: u32
  is_memory_recovery :: bool
  mmap_buffer_state :: memory_map_buffer_state
  data_bytes :: bytes

record siso_buffer_batch_read_handle =
  batch_result :: enum_buffer_result_code
  start_cursor :: u32
  current_cursor :: u32
  end_cursor :: u32

text \<open>\<open>sizeof(head)\<close> is four cache lines; the offsets are the ones the header asserts.\<close>

abbreviation (input) head_size :: nat where "head_size \<equiv> 512"

definition calculate_min_size_of_memory :: "u32 \<Rightarrow> u32" where
  "calculate_min_size_of_memory expected_buffer_size =
    (let rounded = round_pow_of_two expected_buffer_size;
         total_size = (ucast rounded :: u64) + 512 + 128
     in ucast total_size)"

section \<open>Construction\<close>

definition init_cursors :: "siso_ring_buffer \<Rightarrow> siso_ring_buffer" where
  "init_cursors s = s\<lparr>head := (head s)\<lparr>rt_reading_cursor_cache := 0, rt_writing_cursor_cache := 0,
     wt_reading_cursor_cache := 0, wt_writing_cursor_cache := 0,
     reading_cursor := 0, writing_cursor := 0\<rparr>\<rparr>"

text \<open>The loop \<open>while (count <= max_blocks / 2) count *= 2\<close>, started at 1.\<close>

function grow_count :: "nat \<Rightarrow> nat \<Rightarrow> nat" where
  "grow_count max_blocks count =
    (if 0 < count \<and> count \<le> max_blocks div 2 then grow_count max_blocks (count * 2) else count)"
  by pat_completeness auto
termination
  by (relation "measure (\<lambda>(m, c). Suc m - c)") auto

declare grow_count.simps [simp del]

definition blocks_in :: "nat \<Rightarrow> nat" where
  "blocks_in buffer_size = grow_count ((buffer_size - head_size) div 8) 1"

definition siso_init_with_memory :: "bytes \<Rightarrow> bool \<Rightarrow> siso_ring_buffer" where
  "siso_init_with_memory storage recovery =
    (let count = (of_nat (blocks_in (length storage)) :: u32);
         s = \<lparr>head = \<lparr>aligned_blocks_count_cache = count, rt_reading_cursor_cache = 0,
                rt_writing_cursor_cache = 0, wt_reading_cursor_cache = 0,
                wt_writing_cursor_cache = 0, reading_cursor = 0, writing_cursor = 0\<rparr>,
              aligned_blocks_count = count, is_memory_recovery = recovery,
              mmap_buffer_state = init_with_memory, data_bytes = drop head_size storage\<rparr>
     in (init_cursors s)\<lparr>mmap_buffer_state := init_with_memory\<rparr>)"

definition siso_init_with_memory_map :: "bytes \<Rightarrow> bool \<Rightarrow> siso_ring_buffer" where
  "siso_init_with_memory_map storage recovery =
    (siso_init_with_memory storage recovery)\<lparr>mmap_buffer_state := init_with_memmap\<rparr>"

text \<open>
  The two block counts the allocation and the recovery compute in 64 bits: a payload with its
  8-byte head, and a payload alone.
\<close>

definition normal_blocks :: "u32 \<Rightarrow> u64" where
  "normal_blocks sz = drop_bit 3 (ucast sz + 8 + 7)"

definition payload_blocks :: "u32 \<Rightarrow> u64" where
  "payload_blocks sz = drop_bit 3 (ucast sz + 7)"

text \<open>The validation loop of the recovery: \<open>None\<close> is the early \<open>return false\<close>.\<close>

function recover_walk :: "bytes \<Rightarrow> u32 \<Rightarrow> u32 \<Rightarrow> u32 \<Rightarrow> u32 option" where
  "recover_walk data blockcount cursor remaining =
    (if remaining = 0 then Some cursor
     else
       let index = cursor AND (blockcount - 1);
           chunk_blocks = load_u32 data (unat index * 8);
           data_size = load_u32 data (unat index * 8 + 4)
       in if chunk_blocks = 0 \<or> chunk_blocks > remaining then None
          else
            let tail = blockcount - index;
                normal = normal_blocks data_size
            in if normal > ucast blockcount
                  \<or> (normal > ucast tail \<and> normal + ucast tail - 1 > ucast blockcount) then None
               else
                 let expected_blocks =
                       (if normal > ucast tail
                        then ucast tail + payload_blocks data_size
                        else normal)
                 in if expected_blocks \<noteq> ucast chunk_blocks then None
                    else recover_walk data blockcount (cursor + chunk_blocks)
                           (remaining - chunk_blocks))"
  by pat_completeness auto
termination
  by (relation "measure (\<lambda>(d, b, c, r). unat r)")
     (auto simp: unat_sub word_less_nat_alt word_le_nat_alt not_less unat_gt_0 intro!: diff_less)

declare recover_walk.simps [simp del]

definition try_recover_from_exist_memory_map :: "bytes \<Rightarrow> siso_ring_buffer option" where
  "try_recover_from_exist_memory_map storage =
    (let blockcount = (of_nat (blocks_in (length storage)) :: u32);
         data = drop head_size storage;
         saved_blockcount = load_u32 storage 0;
         saved_read = load_u32 storage 4;
         saved_write = load_u32 storage 132
     in if saved_blockcount \<noteq> blockcount then None
        else
          let remaining = saved_write - saved_read
          in if remaining > blockcount then None
             else case recover_walk data blockcount saved_read remaining of
               None \<Rightarrow> None
             | Some cursor \<Rightarrow>
                 if cursor \<noteq> saved_write then None
                 else Some
                   \<lparr>head = \<lparr>aligned_blocks_count_cache = blockcount,
                      rt_reading_cursor_cache = saved_read, rt_writing_cursor_cache = saved_write,
                      wt_reading_cursor_cache = saved_read, wt_writing_cursor_cache = saved_write,
                      reading_cursor = saved_read, writing_cursor = saved_write\<rparr>,
                    aligned_blocks_count = blockcount, is_memory_recovery = True,
                    mmap_buffer_state = recover_from_memory_map, data_bytes = data\<rparr>)"

definition siso_ring_buffer_new :: "bytes \<Rightarrow> bool \<Rightarrow> siso_ring_buffer" where
  "siso_ring_buffer_new storage recovery =
    (if \<not> recovery then siso_init_with_memory storage recovery
     else case try_recover_from_exist_memory_map storage of
       Some s \<Rightarrow> s
     | None \<Rightarrow> siso_init_with_memory_map storage recovery)"

definition renew :: "siso_ring_buffer \<Rightarrow> siso_ring_buffer" where
  "renew s = init_cursors s"

definition get_max_alloc_size :: "siso_ring_buffer \<Rightarrow> u32" where
  "get_max_alloc_size s = aligned_blocks_count s * 8 - 8"

section \<open>Addressing\<close>

text \<open>\<open>cursor_to_block\<close> yields the index of the block.\<close>

definition cursor_to_block :: "siso_ring_buffer \<Rightarrow> u32 \<Rightarrow> u32" where
  "cursor_to_block s cursor = cursor AND (aligned_blocks_count s - 1)"

definition get_block_data_addr :: "siso_ring_buffer \<Rightarrow> u32 \<Rightarrow> nat" where
  "get_block_data_addr s index =
    (let data_size = (ucast (load_u32 (data_bytes s) (unat index * 8 + 4)) :: u64);
         tail_bytes = (ucast (aligned_blocks_count s - index) :: u64) * 8
     in if data_size + 8 > tail_bytes then 0 else unat index * 8 + 8)"

section \<open>The writing side\<close>

definition free_blocks_of :: "siso_head \<Rightarrow> u32 \<Rightarrow> u32" where
  "free_blocks_of h block_count = wt_reading_cursor_cache h + block_count - wt_writing_cursor_cache h"

text \<open>\<open>ld1\<close> and \<open>ld2\<close> are the values of the two acquire loads of \<open>reading_cursor_\<close>.\<close>

definition alloc_write_chunk ::
  "u32 \<Rightarrow> u32 \<Rightarrow> siso_ring_buffer \<Rightarrow> u32 \<Rightarrow> log_buffer_write_handle \<times> siso_ring_buffer" where
  "alloc_write_chunk ld1 ld2 s sz =
    (let handle = empty_write_handle;
         block_count = aligned_blocks_count s;
         index = wt_writing_cursor_cache (head s) AND (block_count - 1);
         tail = block_count - index;
         normal = normal_blocks sz
     in if normal > ucast block_count \<or> normal = 0
           \<or> (normal > ucast tail \<and> normal + ucast tail - 1 > ucast block_count)
        then (handle\<lparr>wh_result := err_alloc_size_invalid\<rparr>, s)
        else
          let count64 = (if normal > ucast tail
                         then ucast tail + payload_blocks sz else normal);
              chunk_blocks = (ucast count64 :: u32);
              free_blocks = free_blocks_of (head s) block_count;
              s1 = (if free_blocks < chunk_blocks
                    then s\<lparr>head := (head s)\<lparr>wt_reading_cursor_cache := ld1\<rparr>\<rparr> else s);
              free_blocks = (if free_blocks < chunk_blocks
                             then free_blocks_of (head s1) block_count else free_blocks)
          in if free_blocks < chunk_blocks
             then (handle\<lparr>wh_result := err_not_enough_space\<rparr>, s1)
             else
               let blk = unat (cursor_to_block s1 (wt_writing_cursor_cache (head s1))) * 8;
                   s2 = s1\<lparr>data_bytes :=
                          store_u32 (store_u32 (data_bytes s1) blk chunk_blocks) (blk + 4) sz\<rparr>;
                   handle = handle\<lparr>wh_data_addr :=
                     Some (if normal > ucast tail then 0 else unat index * 8 + 8)\<rparr>;
                   used_before = block_count - free_blocks;
                   low = push_bit 1 used_before < block_count
                         \<and> push_bit 1 (used_before + chunk_blocks) \<ge> block_count;
                   s3 = (if low then s2\<lparr>head := (head s2)\<lparr>wt_reading_cursor_cache := ld2\<rparr>\<rparr> else s2);
                   low = (if low
                          then push_bit 1 (block_count - free_blocks_of (head s3) block_count
                                 + chunk_blocks) \<ge> block_count
                          else low)
               in (handle\<lparr>low_space_flag := low, wh_result := success\<rparr>, s3))"

definition commit_write_chunk ::
  "siso_ring_buffer \<Rightarrow> log_buffer_write_handle \<Rightarrow> siso_ring_buffer" where
  "commit_write_chunk s handle =
    (if wh_result handle \<noteq> success then s
     else
       let blk = unat (cursor_to_block s (wt_writing_cursor_cache (head s))) * 8;
           chunk_blocks = load_u32 (data_bytes s) blk;
           w = wt_writing_cursor_cache (head s) + chunk_blocks
       in s\<lparr>head := (head s)\<lparr>wt_writing_cursor_cache := w, writing_cursor := w\<rparr>\<rparr>)"

section \<open>The reading side\<close>

text \<open>\<open>ld\<close> is the value of the acquire load of \<open>writing_cursor_\<close>.\<close>

definition read_chunk ::
  "u32 \<Rightarrow> siso_ring_buffer \<Rightarrow> log_buffer_read_handle \<times> siso_ring_buffer" where
  "read_chunk ld s =
    (let handle = empty_read_handle;
         empty0 = rt_writing_cursor_cache (head s) - rt_reading_cursor_cache (head s) = 0;
         s1 = (if empty0 then s\<lparr>head := (head s)\<lparr>rt_writing_cursor_cache := ld\<rparr>\<rparr> else s)
     in if empty0 \<and> rt_writing_cursor_cache (head s1) - rt_reading_cursor_cache (head s1) = 0
        then (handle\<lparr>rh_result := err_empty_log_buffer\<rparr>, s1)
        else
          let blk = cursor_to_block s1 (rt_reading_cursor_cache (head s1))
          in (handle\<lparr>rh_data_size := load_u32 (data_bytes s1) (unat blk * 8 + 4),
                rh_data_addr := Some (get_block_data_addr s1 blk),
                rh_result := success\<rparr>, s1))"

definition return_read_chunk ::
  "siso_ring_buffer \<Rightarrow> log_buffer_read_handle \<Rightarrow> siso_ring_buffer" where
  "return_read_chunk s handle =
    (if rh_result handle \<noteq> success then s
     else
       let blk = unat (cursor_to_block s (rt_reading_cursor_cache (head s))) * 8;
           block_num = load_u32 (data_bytes s) blk;
           r = rt_reading_cursor_cache (head s) + block_num
       in s\<lparr>head := (head s)\<lparr>rt_reading_cursor_cache := r, reading_cursor := r\<rparr>\<rparr>)"

definition discard_read_chunk :: "log_buffer_read_handle \<Rightarrow> log_buffer_read_handle" where
  "discard_read_chunk handle = handle\<lparr>rh_result := err_empty_log_buffer\<rparr>"

definition read_an_empty_chunk :: "siso_ring_buffer \<Rightarrow> log_buffer_read_handle" where
  "read_an_empty_chunk s = empty_read_handle\<lparr>rh_result := err_empty_log_buffer\<rparr>"

definition batch_read ::
  "u32 \<Rightarrow> siso_ring_buffer \<Rightarrow> siso_buffer_batch_read_handle \<times> siso_ring_buffer" where
  "batch_read ld s =
    (let s1 = (if rt_writing_cursor_cache (head s) = rt_reading_cursor_cache (head s)
               then s\<lparr>head := (head s)\<lparr>rt_writing_cursor_cache := ld\<rparr>\<rparr> else s);
         r = rt_reading_cursor_cache (head s1);
         w = rt_writing_cursor_cache (head s1)
     in (\<lparr>batch_result = (if r = w then err_empty_log_buffer else success),
          start_cursor = r, current_cursor = r, end_cursor = w\<rparr>, s1))"

definition batch_has_next :: "siso_buffer_batch_read_handle \<Rightarrow> bool" where
  "batch_has_next bh \<longleftrightarrow> current_cursor bh \<noteq> end_cursor bh"

definition batch_next ::
  "siso_ring_buffer \<Rightarrow> siso_buffer_batch_read_handle
    \<Rightarrow> log_buffer_read_handle \<times> siso_buffer_batch_read_handle \<times> siso_ring_buffer" where
  "batch_next s bh =
    (let blk = cursor_to_block s (current_cursor bh);
         block_num = load_u32 (data_bytes s) (unat blk * 8);
         data_size = load_u32 (data_bytes s) (unat blk * 8 + 4);
         handle = empty_read_handle\<lparr>rh_result := batch_result bh,
                    rh_data_addr := Some (get_block_data_addr s blk), rh_data_size := data_size\<rparr>;
         c = current_cursor bh + block_num
     in (handle, bh\<lparr>current_cursor := c\<rparr>, s\<lparr>head := (head s)\<lparr>rt_reading_cursor_cache := c\<rparr>\<rparr>))"

definition return_batch_read_chunks ::
  "siso_ring_buffer \<Rightarrow> siso_buffer_batch_read_handle \<Rightarrow> siso_ring_buffer" where
  "return_batch_read_chunks s bh =
    (if batch_result bh \<noteq> success then s
     else s\<lparr>head := (head s)\<lparr>reading_cursor := rt_reading_cursor_cache (head s)\<rparr>\<rparr>)"

text \<open>
  \<open>data_traverse\<close> loops until the cursor meets the writing cursor; on a corrupt ring it may never do
  so, which is \<open>None\<close>. The result lists the callback's arguments in call order.
\<close>

partial_function (option) traverse_loop ::
  "u32 \<Rightarrow> siso_ring_buffer \<Rightarrow> u32 \<Rightarrow> (nat \<times> u32) list
    \<Rightarrow> ((nat \<times> u32) list \<times> siso_ring_buffer) option" where
  "traverse_loop ld s cursor acc =
    (let s1 = (if cursor = rt_writing_cursor_cache (head s)
               then s\<lparr>head := (head s)\<lparr>rt_writing_cursor_cache := ld\<rparr>\<rparr> else s)
     in if cursor = rt_writing_cursor_cache (head s) \<and> cursor = rt_writing_cursor_cache (head s1)
        then Some (acc, s1)
        else traverse_loop ld s1
               (cursor + load_u32 (data_bytes s1) (unat (cursor_to_block s1 cursor) * 8))
               (acc @ [(get_block_data_addr s1 (cursor_to_block s1 cursor),
                        load_u32 (data_bytes s1) (unat (cursor_to_block s1 cursor) * 8 + 4))]))"

definition data_traverse ::
  "u32 \<Rightarrow> siso_ring_buffer \<Rightarrow> ((nat \<times> u32) list \<times> siso_ring_buffer) option" where
  "data_traverse ld s = traverse_loop ld s (rt_reading_cursor_cache (head s)) []"

end
