(* ===== verification/Qlog_Siso_Correct.thy ===== *)
theory Qlog_Siso_Correct
  imports Qlog_Siso
begin

text \<open>
  Correctness of the single-producer single-consumer ring: the geometry of chunks in the block
  array, the ring invariant, and for every operation what it does to the queue of unread payloads.
\<close>

section \<open>Geometry of a chunk\<close>

text \<open>
  A chunk starts at block \<open>i\<close> of \<open>n\<close> with an 8-byte head. Its payload follows the head if it fits
  before the end of the array; otherwise the rest of the array is skipped and the payload is placed
  at the front. \<open>need\<close> counts the blocks the chunk occupies, the skipped ones included.
\<close>

definition wraps :: "nat \<Rightarrow> nat \<Rightarrow> nat \<Rightarrow> bool" where
  "wraps n i sz \<longleftrightarrow> (sz + 15) div 8 > n - i"

definition need :: "nat \<Rightarrow> nat \<Rightarrow> nat \<Rightarrow> nat" where
  "need n i sz = (if wraps n i sz then (n - i) + (sz + 7) div 8 else (sz + 15) div 8)"

definition fits :: "nat \<Rightarrow> nat \<Rightarrow> nat \<Rightarrow> bool" where
  "fits n i sz \<longleftrightarrow> (sz + 15) div 8 \<le> n \<and> need n i sz \<le> n"

definition payload_off :: "nat \<Rightarrow> nat \<Rightarrow> nat \<Rightarrow> nat" where
  "payload_off n i sz = (if wraps n i sz then 0 else 8 * i + 8)"

definition owned :: "nat \<Rightarrow> nat \<Rightarrow> nat \<Rightarrow> nat set" where
  "owned n i k = {(i + j) mod n | j. j < k}"

lemma need_pos [ring_arith]: "i < n \<Longrightarrow> 0 < need n i sz"
  by (auto simp: need_def wraps_def)

lemma owned_mono: "k \<le> k' \<Longrightarrow> owned n i k \<subseteq> owned n i k'"
  by (auto simp: owned_def)

lemma step_index: "((i + a) mod n + b) mod n = (i + (a + b)) mod (n :: nat)"
  by (simp only: mod_add_left_eq add.assoc)

lemma owned_append: "owned n i (k + k') = owned n i k \<union> owned n ((i + k) mod n) k'"
proof -
  have "(i + j) mod n \<in> owned n i k \<union> owned n ((i + k) mod n) k'" if "j < k + k'" for j
  proof (cases "j < k")
    case False
    then have "(i + j) mod n = ((i + k) mod n + (j - k)) mod n" and "j - k < k'"
      using that by (simp_all only: step_index) auto
    then show ?thesis unfolding owned_def by blast
  qed (auto simp: owned_def)
  moreover have "((i + k) mod n + j) mod n \<in> owned n i (k + k')" if "j < k'" for j
  proof -
    have "((i + k) mod n + j) mod n = (i + (k + j)) mod n" and "k + j < k + k'"
      using that by (simp_all only: step_index)
    then show ?thesis unfolding owned_def by blast
  qed
  ultimately show ?thesis by (auto simp: owned_def)
qed

lemma owned_disjoint:
  assumes "k + k' \<le> n"
  shows "owned n i k \<inter> owned n ((i + k) mod n) k' = {}"
proof -
  have False if "j < k" "j' < k'" "(i + j) mod n = ((i + k) mod n + j') mod n" for j j'
  proof -
    have "(i + j) mod n = (i + (k + j')) mod n"
      using that(3) by (simp only: step_index)
    then have "j = k + j'"
      by (rule mod_window_inj) (use assms that(1,2) in auto)
    with that show False by simp
  qed
  then show ?thesis by (auto simp: owned_def)
qed

lemma head_owned: "i < n \<Longrightarrow> 8 * i \<le> x \<Longrightarrow> x < 8 * i + 8 \<Longrightarrow> x div 8 \<in> owned n i (need n i sz)"
proof -
  assume "i < n" "8 * i \<le> x" "x < 8 * i + 8"
  then have "x div 8 = (i + 0) mod n" by auto
  then show ?thesis using need_pos [OF \<open>i < n\<close>] unfolding owned_def by blast
qed

lemma payload_owned:
  assumes "i < n" and "fits n i sz" and "payload_off n i sz \<le> x" and "x < payload_off n i sz + sz"
  shows "x div 8 \<in> owned n i (need n i sz)"
proof (cases "wraps n i sz")
  case True
  with assms have "x div 8 < (sz + 7) div 8" by (auto simp: payload_off_def)
  moreover from this have "x div 8 < n" using assms(2) True by (auto simp: fits_def need_def)
  ultimately have "x div 8 = (i + ((n - i) + x div 8)) mod n"
    and "(n - i) + x div 8 < need n i sz"
    using assms(1) True by (auto simp: need_def)
  then show ?thesis unfolding owned_def by blast
next
  case False
  with assms have "i \<le> x div 8" and "x div 8 - i < need n i sz" and "x div 8 < n"
    by (auto simp: payload_off_def need_def wraps_def not_less)
  then have "x div 8 = (i + (x div 8 - i)) mod n" and "x div 8 - i < need n i sz" by auto
  then show ?thesis unfolding owned_def by blast
qed

lemma payload_in_range:
  assumes "i < n" and "fits n i sz"
  shows "payload_off n i sz + sz \<le> 8 * n"
  using assms by (auto simp: payload_off_def fits_def need_def wraps_def split: if_splits)

text \<open>The payload does not overlap the chunk's own head.\<close>

lemma payload_head_disjoint:
  assumes "i < n" and "fits n i sz"
  shows "payload_off n i sz + sz \<le> 8 * i \<or> 8 * i + 8 \<le> payload_off n i sz"
  using assms by (auto simp: payload_off_def fits_def need_def wraps_def split: if_splits)

section \<open>Chunks in memory\<close>

definition chunk_at :: "bytes \<Rightarrow> nat \<Rightarrow> nat \<Rightarrow> bytes \<Rightarrow> bool" where
  "chunk_at m n i p \<longleftrightarrow> fits n i (length p) \<and> length p < 2 ^ 32
     \<and> load_u32 m (8 * i) = of_nat (need n i (length p))
     \<and> load_u32 m (8 * i + 4) = of_nat (length p)
     \<and> mem_read m (payload_off n i (length p)) (length p) = p"

primrec chunks_at :: "bytes \<Rightarrow> nat \<Rightarrow> nat \<Rightarrow> bytes list \<Rightarrow> bool" where
  "chunks_at m n i [] \<longleftrightarrow> True"
| "chunks_at m n i (p # ps) \<longleftrightarrow> chunk_at m n i p \<and> chunks_at m n ((i + need n i (length p)) mod n) ps"

primrec span :: "nat \<Rightarrow> nat \<Rightarrow> bytes list \<Rightarrow> nat" where
  "span n i [] = 0"
| "span n i (p # ps) = need n i (length p) + span n ((i + need n i (length p)) mod n) ps"

lemma span_append:
  "i < n \<Longrightarrow> span n i (ps @ qs) = span n i ps + span n ((i + span n i ps) mod n) qs"
  by (induction ps arbitrary: i) (simp_all add: step_index)

lemma chunks_at_append:
  "i < n \<Longrightarrow> chunks_at m n i (ps @ qs)
    \<longleftrightarrow> chunks_at m n i ps \<and> chunks_at m n ((i + span n i ps) mod n) qs"
  by (induction ps arbitrary: i) (simp_all add: step_index)

lemma span_pos: "i < n \<Longrightarrow> span n i ps = 0 \<longleftrightarrow> ps = []"
  using need_pos [of i n] by (cases ps) (auto simp: neq0_conv [symmetric] simp del: neq0_conv)

lemma chunk_at_cong:
  assumes "chunk_at m n i p" and "i < n" and "length m' = length m" and "8 * n \<le> length m"
    and agree: "\<And>x. x < 8 * n \<Longrightarrow> x div 8 \<in> owned n i (need n i (length p)) \<Longrightarrow> m' ! x = m ! x"
  shows "chunk_at m' n i p"
proof -
  have f: "fits n i (length p)" using assms(1) by (simp add: chunk_at_def)
  have "load_u32 m' (8 * i) = load_u32 m (8 * i)"
    using assms by (intro load_u32_cong) (auto intro!: agree head_owned)
  moreover have "load_u32 m' (8 * i + 4) = load_u32 m (8 * i + 4)"
    using assms by (intro load_u32_cong) (auto intro!: agree head_owned)
  moreover have "mem_read m' (payload_off n i (length p)) (length p)
      = mem_read m (payload_off n i (length p)) (length p)"
    using assms f payload_in_range [OF assms(2) f]
    by (intro mem_read_cong) (auto intro!: agree payload_owned)
  ultimately show ?thesis using assms(1) by (simp add: chunk_at_def)
qed

lemma chunks_at_cong:
  assumes "chunks_at m n i ps" and "i < n" and "length m' = length m" and "8 * n \<le> length m"
    and "\<And>x. x < 8 * n \<Longrightarrow> x div 8 \<in> owned n i (span n i ps) \<Longrightarrow> m' ! x = m ! x"
  shows "chunks_at m' n i ps"
  using assms
proof (induction ps arbitrary: i)
  case Nil
  then show ?case by simp
next
  case (Cons p ps)
  let ?k = "need n i (length p)"
  have sub: "owned n i ?k \<subseteq> owned n i (span n i (p # ps))"
    "owned n ((i + ?k) mod n) (span n ((i + ?k) mod n) ps) \<subseteq> owned n i (span n i (p # ps))"
    using owned_append [of n i ?k "span n ((i + ?k) mod n) ps"] by simp_all
  have "chunk_at m' n i p"
    using Cons.prems(1) by (intro chunk_at_cong [of m n i p m'] Cons.prems) (use sub(1) in auto)
  moreover have "chunks_at m' n ((i + ?k) mod n) ps"
    using Cons.prems(1,2) by (intro Cons.IH Cons.prems) (use sub(2) in auto)
  ultimately show ?case by simp
qed

section \<open>Cursor arithmetic\<close>

lemma unat_diff_chain:
  assumes "unat (b - c) + unat (a - b) < 2 ^ 32"
  shows "unat (a - c :: u32) = unat (b - c) + unat (a - b)"
proof -
  have "a - c = (b - c) + (a - b)" by simp
  then show ?thesis using assms by (simp only: unat_word_ariths) simp
qed

definition between :: "u32 \<Rightarrow> u32 \<Rightarrow> u32 \<Rightarrow> bool" where
  "between a x b \<longleftrightarrow> unat (x - a) \<le> unat (b - a)"

lemma between_split:
  assumes "between a x b"
  shows "unat (b - a) = unat (x - a) + unat (b - x)"
proof -
  have "b - x = (b - a) - (x - a)" by simp
  then have "unat (b - x) = unat (b - a) - unat (x - a)"
    using assms by (simp only: between_def unat_sub word_le_nat_alt)
  then show ?thesis using assms by (simp add: between_def)
qed

lemma between_self [simp]: "between a a b" "between a b b"
  by (simp_all add: between_def)

section \<open>The ring invariant\<close>

abbreviation cnt :: "siso_ring_buffer \<Rightarrow> nat" where
  "cnt s \<equiv> unat (aligned_blocks_count s)"

definition ridx :: "siso_ring_buffer \<Rightarrow> nat" where
  "ridx s = unat (rt_reading_cursor_cache (head s)) mod cnt s"

definition widx :: "siso_ring_buffer \<Rightarrow> nat" where
  "widx s = unat (wt_writing_cursor_cache (head s)) mod cnt s"

text \<open>The block array: a power of two of blocks, within the storage, small enough for the code's casts.\<close>

definition geometry_ok :: "siso_ring_buffer \<Rightarrow> bool" where
  "geometry_ok s \<longleftrightarrow> (\<exists>k\<le>28. cnt s = 2 ^ k) \<and> 2 \<le> cnt s \<and> 8 * cnt s \<le> length (data_bytes s)
     \<and> aligned_blocks_count_cache (head s) = aligned_blocks_count s"

text \<open>
  \<open>ps\<close> are the unread payloads the reader's cached writing cursor covers, \<open>qs\<close> the published ones
  beyond it. The cursors are ordered \<open>wt_r \<le> R \<le> rt_r \<le> rt_w \<le> W = wt_w \<le> wt_r + n\<close> up to wrapping.
\<close>

definition siso_inv :: "siso_ring_buffer \<Rightarrow> bytes list \<Rightarrow> bytes list \<Rightarrow> bool" where
  "siso_inv s ps qs \<longleftrightarrow> geometry_ok s
     \<and> chunks_at (data_bytes s) (cnt s) (ridx s) (ps @ qs)
     \<and> span (cnt s) (ridx s) ps
         = unat (rt_writing_cursor_cache (head s) - rt_reading_cursor_cache (head s))
     \<and> span (cnt s) (ridx s) (ps @ qs)
         = unat (writing_cursor (head s) - rt_reading_cursor_cache (head s))
     \<and> wt_writing_cursor_cache (head s) = writing_cursor (head s)
     \<and> unat (reading_cursor (head s) - wt_reading_cursor_cache (head s))
        + unat (rt_reading_cursor_cache (head s) - reading_cursor (head s))
        + unat (writing_cursor (head s) - rt_reading_cursor_cache (head s)) \<le> cnt s"

lemma geometry_pow2:
  assumes "geometry_ok s"
  obtains k where "cnt s = 2 ^ k" and "k < 32" and "k \<le> 28" and "0 < cnt s" and "cnt s < 2 ^ 32"
proof -
  from assms obtain k where k: "k \<le> 28" "cnt s = 2 ^ k" by (auto simp: geometry_ok_def)
  have "cnt s \<le> 2 ^ 28" unfolding k(2) using k(1) by (rule power_increasing) simp
  with k that show ?thesis by simp
qed

lemma cursor_index:
  "geometry_ok s \<Longrightarrow> unat (c AND (aligned_blocks_count s - 1)) = unat c mod cnt s"
proof -
  assume "geometry_ok s"
  then obtain k where "cnt s = 2 ^ k" and "k < 32" using geometry_pow2 by blast
  then show ?thesis using mask_AND_mod [of "aligned_blocks_count s" k c] by simp
qed

lemma cursor_to_block_nat: "geometry_ok s \<Longrightarrow> unat (cursor_to_block s c) = unat c mod cnt s"
  by (simp add: cursor_to_block_def cursor_index)

lemma cursor_advance:
  assumes "geometry_ok s" and "k \<le> cnt s"
  shows "unat (c + of_nat k :: u32) mod cnt s = (unat c mod cnt s + k) mod cnt s"
proof -
  obtain j where j: "cnt s = 2 ^ j" "j < 32" and lt: "cnt s < 2 ^ 32"
    using geometry_pow2 [OF assms(1)] by blast
  have "unat (of_nat k :: u32) = k" using assms(2) lt by (simp add: unat_of_nat)
  then show ?thesis
    using unat_add_mod_pow2 [of "aligned_blocks_count s" j c "of_nat k"] j
    by (simp add: mod_add_left_eq)
qed

lemma ridx_less: "geometry_ok s \<Longrightarrow> ridx s < cnt s"
  by (metis geometry_pow2 mod_less_divisor ridx_def)

lemma widx_less: "geometry_ok s \<Longrightarrow> widx s < cnt s"
  by (metis geometry_pow2 mod_less_divisor widx_def)

section \<open>The 64-bit block counts of the code\<close>

lemma blocks64 [ring_arith]:
  "unat (normal_blocks x) = (unat x + 15) div 8"
  "unat (payload_blocks x) = (unat x + 7) div 8"
  using u32_less [of x]
  by (simp_all add: normal_blocks_def payload_blocks_def unat_drop_bit_eq drop_bit_eq_div
      unat_word_ariths)

text \<open>The guard and the block count that the allocation and the recovery both compute.\<close>

definition count64 :: "u32 \<Rightarrow> u32 \<Rightarrow> u64" where
  "count64 tail sz = (if normal_blocks sz > ucast tail
     then ucast tail + payload_blocks sz else normal_blocks sz)"

lemma unat_count64:
  fixes n sz :: u32
  assumes "i < unat n"
  shows "unat (count64 (n - of_nat i) sz) = need (unat n) i (unat sz)"
proof -
  have i: "unat (of_nat i :: u32) = i"
    using assms u32_less [of n] by (simp add: unat_of_nat)
  have t: "unat (n - of_nat i) = unat n - i" using assms i by (simp add: unat_sub word_le_nat_alt)
  have "unat n - i + (unat sz + 7) div 8 < 2 ^ 64"
    using u32_less [of n] u32_less [of sz] by simp
  then show ?thesis
    by (auto simp: count64_def need_def wraps_def word_less_nat_alt ring_arith t unat_word_ariths)
qed

lemma alloc_guard:
  fixes n sz :: u32
  assumes "i < unat n"
  shows "(normal_blocks sz > ucast n
      \<or> (normal_blocks sz > ucast (n - of_nat i)
          \<and> normal_blocks sz + ucast (n - of_nat i) - 1 > ucast n))
    \<longleftrightarrow> \<not> fits (unat n) i (unat sz)"
proof -
  have i: "unat (of_nat i :: u32) = i"
    using assms u32_less [of n] by (simp add: unat_of_nat)
  have t: "unat (n - of_nat i) = unat n - i" using assms i by (simp add: unat_sub word_le_nat_alt)
  have "unat (normal_blocks sz + ucast (n - of_nat i))
      = (unat sz + 15) div 8 + (unat n - i)"
    using u32_less [of n] u32_less [of sz] by (simp add: unat_word_ariths ring_arith t)
  then have "unat (normal_blocks sz + ucast (n - of_nat i) - 1)
      = (unat sz + 15) div 8 + (unat n - i) - 1"
    by (subst unat_sub) (auto simp: word_le_nat_alt)
  then show ?thesis
    using assms
    by (auto simp: fits_def need_def wraps_def word_less_nat_alt ring_arith t)
qed

lemma normal_nonzero: "normal_blocks sz \<noteq> 0"
proof -
  have "0 < unat (normal_blocks sz)" by (simp only: blocks64)
  then show ?thesis by (rule iffD1 [OF unat_gt_0])
qed

section \<open>Allocation\<close>

abbreviation wtr :: "siso_ring_buffer \<Rightarrow> u32" where "wtr s \<equiv> wt_reading_cursor_cache (head s)"
abbreviation rtr :: "siso_ring_buffer \<Rightarrow> u32" where "rtr s \<equiv> rt_reading_cursor_cache (head s)"
abbreviation rtw :: "siso_ring_buffer \<Rightarrow> u32" where "rtw s \<equiv> rt_writing_cursor_cache (head s)"
abbreviation rc :: "siso_ring_buffer \<Rightarrow> u32" where "rc s \<equiv> reading_cursor (head s)"
abbreviation wc :: "siso_ring_buffer \<Rightarrow> u32" where "wc s \<equiv> writing_cursor (head s)"

lemma siso_invD:
  assumes "siso_inv s ps qs"
  shows "geometry_ok s" and "wt_writing_cursor_cache (head s) = wc s"
    and "chunks_at (data_bytes s) (cnt s) (ridx s) (ps @ qs)"
    and "span (cnt s) (ridx s) ps = unat (rtw s - rtr s)"
    and "span (cnt s) (ridx s) (ps @ qs) = unat (wc s - rtr s)"
    and "unat (rc s - wtr s) + unat (rtr s - rc s) + unat (wc s - rtr s) \<le> cnt s"
  using assms by (simp_all add: siso_inv_def)

text \<open>How full the writer believes the ring to be: everything since its cached reading cursor.\<close>

lemma inv_used:
  assumes "siso_inv s ps qs"
  shows "unat (wc s - wtr s) = unat (rc s - wtr s) + unat (rtr s - rc s) + unat (wc s - rtr s)"
    and "unat (wc s - wtr s) \<le> cnt s"
proof -
  have le: "unat (rc s - wtr s) + unat (rtr s - rc s) + unat (wc s - rtr s) \<le> cnt s"
    by (rule siso_invD [OF assms])
  then have lt: "unat (rc s - wtr s) + unat (rtr s - rc s) + unat (wc s - rtr s) < 2 ^ 32"
    using u32_less [of "aligned_blocks_count s"] by simp
  have 1: "unat (rtr s - wtr s) = unat (rc s - wtr s) + unat (rtr s - rc s)"
    by (rule unat_diff_chain) (use lt in linarith)
  have 2: "unat (wc s - wtr s) = unat (rtr s - wtr s) + unat (wc s - rtr s)"
    by (rule unat_diff_chain) (use lt 1 in linarith)
  show eq: "unat (wc s - wtr s)
      = unat (rc s - wtr s) + unat (rtr s - rc s) + unat (wc s - rtr s)"
    unfolding 2 1 by (rule refl)
  show "unat (wc s - wtr s) \<le> cnt s" using le eq by simp
qed

lemma free_blocks_nat:
  assumes "unat (wt_writing_cursor_cache h - wt_reading_cursor_cache h) \<le> unat n"
  shows "unat (free_blocks_of h n)
    = unat n - unat (wt_writing_cursor_cache h - wt_reading_cursor_cache h)"
proof -
  have "free_blocks_of h n = n - (wt_writing_cursor_cache h - wt_reading_cursor_cache h)"
    by (simp add: free_blocks_of_def)
  then show ?thesis using assms by (simp only: unat_sub word_le_nat_alt)
qed

text \<open>Refreshing the writer's cached reading cursor with a published value keeps the invariant.\<close>

lemma inv_refresh:
  assumes inv: "siso_inv s ps qs" and win: "between (wtr s) ld (rc s)"
  shows "siso_inv (s\<lparr>head := (head s)\<lparr>wt_reading_cursor_cache := ld\<rparr>\<rparr>) ps qs"
proof -
  have "unat (rc s - ld) \<le> unat (rc s - wtr s)" using between_split [OF win] by simp
  with inv show ?thesis by (auto simp: siso_inv_def geometry_ok_def ridx_def)
qed

text \<open>The writer's block is the one right after the unread chunks.\<close>

lemma inv_widx:
  assumes inv: "siso_inv s ps qs"
  shows "widx s = (ridx s + span (cnt s) (ridx s) (ps @ qs)) mod cnt s"
proof -
  note d = siso_invD [OF inv]
  have "rtr s + of_nat (span (cnt s) (ridx s) (ps @ qs)) = wc s" unfolding d(5) by simp
  moreover have "span (cnt s) (ridx s) (ps @ qs) \<le> cnt s" using d(5,6) by simp
  ultimately show ?thesis
    using cursor_advance [OF d(1), of "span (cnt s) (ridx s) (ps @ qs)" "rtr s"]
    by (simp add: ridx_def [of s] widx_def d(2))
qed

text \<open>
  Writing into blocks the writer may own, those from its cursor to its cached reading cursor plus
  the capacity, leaves every unread chunk alone.
\<close>

lemma inv_write_free:
  assumes inv: "siso_inv s ps qs" and k: "unat (wc s - wtr s) + k \<le> cnt s"
    and len: "length m' = length (data_bytes s)"
    and frame: "\<And>x. x < 8 * cnt s \<Longrightarrow> x div 8 \<notin> owned (cnt s) (widx s) k \<Longrightarrow> m' ! x = data_bytes s ! x"
  shows "siso_inv (s\<lparr>data_bytes := m'\<rparr>) ps qs"
proof -
  let ?n = "cnt s"
  note d = siso_invD [OF inv]
  note g = d(1) and sp = d(5)
  have i: "ridx s < ?n" using g by (rule ridx_less)
  have sum: "span ?n (ridx s) (ps @ qs) + k \<le> ?n" using sp inv_used [OF inv] k by simp
  note w = inv_widx [OF inv]
  have "chunks_at m' ?n (ridx s) (ps @ qs)"
  proof (rule chunks_at_cong [of "data_bytes s"])
    fix x assume x: "x < 8 * ?n" "x div 8 \<in> owned ?n (ridx s) (span ?n (ridx s) (ps @ qs))"
    then have "x div 8 \<notin> owned ?n (widx s) k" using owned_disjoint [OF sum, of "ridx s"] w by auto
    with x(1) show "m' ! x = data_bytes s ! x" by (rule frame)
  qed (use inv i len in \<open>auto simp: siso_inv_def geometry_ok_def\<close>)
  with inv len show ?thesis by (simp add: siso_inv_def geometry_ok_def ridx_def)
qed

text \<open>The allocation with its 64-bit guards and counts replaced by the geometry of the chunk.\<close>

definition store_head :: "siso_ring_buffer \<Rightarrow> u32 \<Rightarrow> siso_ring_buffer" where
  "store_head s sz = s\<lparr>data_bytes :=
     store_u32 (store_u32 (data_bytes s) (8 * widx s) (of_nat (need (cnt s) (widx s) (unat sz))))
       (8 * widx s + 4) sz\<rparr>"

abbreviation set_wtr :: "siso_ring_buffer \<Rightarrow> u32 \<Rightarrow> siso_ring_buffer" where
  "set_wtr s ld \<equiv> s\<lparr>head := (head s)\<lparr>wt_reading_cursor_cache := ld\<rparr>\<rparr>"

definition low_crossing :: "u32 \<Rightarrow> u32 \<Rightarrow> u32 \<Rightarrow> bool" where
  "low_crossing n used k \<longleftrightarrow> push_bit 1 used < n \<and> push_bit 1 (used + k) \<ge> n"

lemma need_as_count:
  assumes "i < unat n" and "need (unat n) i (unat sz) \<le> unat n"
  shows "(ucast (count64 (n - of_nat i) sz) :: u32) = of_nat (need (unat n) i (unat sz))"
    and "unat (of_nat (need (unat n) i (unat sz)) :: u32) = need (unat n) i (unat sz)"
proof -
  show "unat (of_nat (need (unat n) i (unat sz)) :: u32) = need (unat n) i (unat sz)"
    using assms(2) u32_less [of n] by (simp add: unat_of_nat)
  have "(ucast (count64 (n - of_nat i) sz) :: u32) = of_nat (unat (count64 (n - of_nat i) sz))"
    by simp
  then show "(ucast (count64 (n - of_nat i) sz) :: u32) = of_nat (need (unat n) i (unat sz))"
    by (simp only: unat_count64 [OF assms(1)])
qed

lemma alloc_unfold:
  fixes sz :: u32
  assumes g: "geometry_ok s"
  defines "n \<equiv> aligned_blocks_count s" and "k \<equiv> need (cnt s) (widx s) (unat sz)"
  shows "alloc_write_chunk ld1 ld2 s sz =
    (if \<not> fits (cnt s) (widx s) (unat sz)
     then (empty_write_handle\<lparr>wh_result := err_alloc_size_invalid\<rparr>, s)
     else let s1 = (if unat (free_blocks_of (head s) n) < k then set_wtr s ld1 else s) in
       if unat (free_blocks_of (head s1) n) < k
       then (empty_write_handle\<lparr>wh_result := err_not_enough_space\<rparr>, s1)
       else let s2 = store_head s1 sz;
                low = low_crossing n (n - free_blocks_of (head s1) n) (of_nat k);
                s3 = (if low then set_wtr s2 ld2 else s2)
            in (\<lparr>wh_data_addr = Some (payload_off (cnt s) (widx s) (unat sz)), wh_result = success,
                 low_space_flag = low \<and> push_bit 1 (n - free_blocks_of (head s3) n + of_nat k) \<ge> n\<rparr>,
                s3))"
proof -
  let ?c = "wt_writing_cursor_cache (head s)"
  have i: "widx s < unat n" using widx_less [OF g] by (simp add: n_def)
  have "unat (?c AND (n - 1)) = widx s" using cursor_index [OF g] by (simp add: n_def widx_def)
  then have "of_nat (unat (?c AND (n - 1))) = (of_nat (widx s) :: u32)" by (simp only:)
  then have idx: "?c AND (n - 1) = of_nat (widx s)" by simp
  have ui: "unat (of_nat (widx s) :: u32) = widx s" using i u32_less [of n] by (simp add: unat_of_nat)
  have wr: "(ucast (n - of_nat (widx s)) < normal_blocks sz)
      \<longleftrightarrow> wraps (cnt s) (widx s) (unat sz)"
    using i ui by (simp only: word_less_nat_alt blocks64 unat_ucast_up wraps_def n_def)
      (simp add: unat_sub word_le_nat_alt)
  have G: "(normal_blocks sz > ucast n \<or> normal_blocks sz = 0
      \<or> (normal_blocks sz > ucast (n - of_nat (widx s))
          \<and> normal_blocks sz + ucast (n - of_nat (widx s)) - 1 > ucast n))
    \<longleftrightarrow> \<not> fits (cnt s) (widx s) (unat sz)"
    using alloc_guard [OF i, of sz] normal_nonzero [of sz] by (simp only: n_def) simp
  note unfolded = alloc_write_chunk_def Let_def n_def [symmetric] idx G count64_def [symmetric]
  show ?thesis
  proof (cases "fits (cnt s) (widx s) (unat sz)")
    case False
    then show ?thesis by (simp only: unfolded) simp
  next
    case True
    then have kn: "k \<le> unat n" by (simp add: fits_def k_def n_def)
    have cb: "(ucast (count64 (n - of_nat (widx s)) sz) :: u32) = of_nat k"
      and uk: "unat (of_nat k :: u32) = k"
      using need_as_count [OF i, of sz] kn by (simp_all add: k_def n_def)
    have blk: "unat (cursor_to_block s' (wt_writing_cursor_cache (head s))) * 8 = 8 * widx s"
      if "aligned_blocks_count s' = n" for s'
      using that idx ui by (simp add: cursor_to_block_def)
    have lt: "x < of_nat k \<longleftrightarrow> unat x < k" for x :: u32
      by (simp add: word_less_nat_alt uk)
    note [simp] = store_head_def low_crossing_def empty_write_handle_def payload_off_def
    have wx: "widx (set_wtr s x) = widx s" for x by (simp add: widx_def)
    show ?thesis
    proof (cases "unat (free_blocks_of (head s) n) < k")
      case A: True
      show ?thesis
        unfolding unfolded
        by (simp only: cb wr lt True A if_True if_False simp_thms)
          (simp add: ui wx blk k_def n_def)
    next
      case B: False
      show ?thesis
        unfolding unfolded
        by (simp only: cb wr lt True B if_True if_False simp_thms)
          (simp add: ui wx blk k_def n_def)
    qed
  qed
qed

text \<open>What the writer knows after a successful allocation of \<open>sz\<close> bytes.\<close>

definition allocated :: "siso_ring_buffer \<Rightarrow> nat \<Rightarrow> bool" where
  "allocated s sz \<longleftrightarrow> fits (cnt s) (widx s) sz \<and> sz < 2 ^ 32
     \<and> unat (wc s - wtr s) + need (cnt s) (widx s) sz \<le> cnt s
     \<and> load_u32 (data_bytes s) (8 * widx s) = of_nat (need (cnt s) (widx s) sz)
     \<and> load_u32 (data_bytes s) (8 * widx s + 4) = of_nat sz"

lemma store_head_inv:
  assumes inv: "siso_inv s ps qs" and f: "fits (cnt s) (widx s) (unat sz)"
    and room: "unat (wc s - wtr s) + need (cnt s) (widx s) (unat sz) \<le> cnt s"
  shows "siso_inv (store_head s sz) ps qs" and "allocated (store_head s sz) (unat sz)"
proof -
  let ?m = "data_bytes s" and ?i = "widx s"
  let ?m1 = "store_u32 ?m (8 * ?i) (of_nat (need (cnt s) ?i (unat sz)))"
  have i: "?i < cnt s" and len: "8 * cnt s \<le> length ?m"
    using siso_invD(1) [OF inv] widx_less by (auto simp: geometry_ok_def)
  have 1: "8 * ?i + 4 \<le> length ?m" and 2: "8 * ?i + 4 + 4 \<le> length ?m" using i len by auto
  have sh: "store_head s sz = s\<lparr>data_bytes := store_u32 ?m1 (8 * ?i + 4) sz\<rparr>"
    by (simp add: store_head_def)
  show "siso_inv (store_head s sz) ps qs" unfolding sh
  proof (rule inv_write_free [OF inv room])
    fix x assume x: "x < 8 * cnt s" "x div 8 \<notin> owned (cnt s) ?i (need (cnt s) ?i (unat sz))"
    then have "x < 8 * ?i \<or> 8 * ?i + 8 \<le> x" using head_owned [OF i] by (meson not_le)
    then show "store_u32 ?m1 (8 * ?i + 4) sz ! x = ?m ! x"
      using x(1) len 1 2 by (auto simp: nth_store_u32_other)
  qed (use 1 2 in simp)
  show "allocated (store_head s sz) (unat sz)"
    using f room 1 2 u32_less [of sz] by (simp add: sh allocated_def widx_def mem_simps)
qed

lemma set_wtr_simps [simp]:
  "widx (set_wtr s x) = widx s" "store_head (set_wtr s x) sz = set_wtr (store_head s sz) x"
  by (simp_all add: widx_def store_head_def)

lemma store_head_simps [simp]:
  "head (store_head s sz) = head s" "aligned_blocks_count (store_head s sz) = aligned_blocks_count s"
  "widx (store_head s sz) = widx s"
  by (simp_all add: widx_def store_head_def)

lemma allocated_refresh:
  assumes "allocated s sz" and "siso_inv s ps qs" and "between (wtr s) ld (rc s)"
  shows "allocated (set_wtr s ld) sz"
proof -
  have "unat (wc s - ld) \<le> unat (wc s - wtr s)"
    using inv_used(1) [OF assms(2)] inv_used(1) [OF inv_refresh [OF assms(2,3)]]
      between_split [OF assms(3)] by simp
  with assms(1) show ?thesis by (auto simp: allocated_def widx_def)
qed

lemma between_trans:
  assumes "between a x b" and "between x y b"
  shows "between a y b"
proof -
  have s: "unat (b - a) = unat (x - a) + unat (b - x)" and t: "unat (b - x) = unat (y - x) + unat (b - y)"
    using assms by (auto dest: between_split)
  have "unat (y - a) = unat (x - a) + unat (y - x)"
    by (rule unat_diff_chain) (use s t u32_less [of "b - a"] in simp)
  with s t show ?thesis by (simp add: between_def)
qed

text \<open>
  The complete behaviour of an allocation: the size is refused exactly when no position could hold
  it, the allocation fails exactly when the blocks are not free even after a refresh, and otherwise
  the chunk head is written, the payload address is the one the reader will compute, and every
  unread chunk is untouched.
\<close>

lemma alloc_cases:
  assumes inv: "siso_inv s ps qs" and w1: "between (wtr s) ld1 (rc s)" and w2: "between ld1 ld2 (rc s)"
    and al: "alloc_write_chunk ld1 ld2 s sz = (h, s')"
  shows "(\<not> fits (cnt s) (widx s) (unat sz) \<and> wh_result h = err_alloc_size_invalid \<and> s' = s)
    \<or> (fits (cnt s) (widx s) (unat sz) \<and> wh_result h = err_not_enough_space
        \<and> cnt s < unat (wc s - ld1) + need (cnt s) (widx s) (unat sz)
        \<and> s' = set_wtr s ld1 \<and> siso_inv s' ps qs)
    \<or> (wh_result h = success \<and> wh_data_addr h = Some (payload_off (cnt s) (widx s) (unat sz))
        \<and> allocated s' (unat sz) \<and> siso_inv s' ps qs
        \<and> (\<exists>x. s' = set_wtr (store_head s sz) x))"
proof (cases "fits (cnt s) (widx s) (unat sz)")
  case False
  then show ?thesis using al alloc_unfold [OF siso_invD(1) [OF inv], of ld1 ld2 sz] by auto
next
  case f: True
  let ?n = "aligned_blocks_count s" and ?k = "need (cnt s) (widx s) (unat sz)"
  define s1 where "s1 = (if unat (free_blocks_of (head s) ?n) < ?k then set_wtr s ld1 else s)"
  have inv1: "siso_inv s1 ps qs" using inv inv_refresh [OF inv w1] by (simp add: s1_def)
  have w: "between (wtr s1) ld2 (rc s1)" using w1 w2 by (auto simp: s1_def intro: between_trans)
  have "s1 = set_wtr s (if unat (free_blocks_of (head s) ?n) < ?k then ld1 else wtr s)"
    by (simp add: s1_def)
  then have same: "cnt s1 = cnt s" "widx s1 = widx s" "\<exists>x. s1 = set_wtr s x"
    by (simp, simp, blast)
  have fr: "unat (free_blocks_of (head s1) ?n) = cnt s - unat (wc s1 - wtr s1)"
    using free_blocks_nat [of "head s1" ?n] inv_used(2) [OF inv1] siso_invD(2) [OF inv1] same by simp
  note al' = al [unfolded alloc_unfold [OF siso_invD(1) [OF inv]], folded s1_def, unfolded Let_def]
  show ?thesis
  proof (cases "unat (free_blocks_of (head s1) ?n) < ?k")
    case full: True
    have "s1 = set_wtr s ld1" using full by (auto simp: s1_def split: if_splits)
    moreover from this have "cnt s < unat (wc s - ld1) + ?k"
      using full fr inv_used(2) [OF inv1] by simp
    ultimately show ?thesis using full f al' inv1 by (auto simp: s1_def)
  next
    case room: False
    then have "unat (wc s1 - wtr s1) + ?k \<le> cnt s1"
      using fr inv_used(2) [OF inv1] same by simp
    then have st: "siso_inv (store_head s1 sz) ps qs" "allocated (store_head s1 sz) (unat sz)"
      using store_head_inv [OF inv1] f same by auto
    moreover have "siso_inv (set_wtr (store_head s1 sz) ld2) ps qs"
      "allocated (set_wtr (store_head s1 sz) ld2) (unat sz)"
      using inv_refresh [OF st(1)] allocated_refresh [OF st(2,1)] w by auto
    moreover have "\<exists>x. store_head s1 sz = set_wtr (store_head s sz) x"
      "\<exists>x. set_wtr (store_head s1 sz) ld2 = set_wtr (store_head s sz) x"
      using same(3) by auto
    ultimately show ?thesis using room f al' by (auto simp: s1_def split: if_splits)
  qed
qed

section \<open>Committing a chunk\<close>

text \<open>The producer's copy of the payload to the address the handle carries.\<close>

definition fill_payload :: "siso_ring_buffer \<Rightarrow> log_buffer_write_handle \<Rightarrow> bytes \<Rightarrow> siso_ring_buffer" where
  "fill_payload s h p = (case wh_data_addr h of None \<Rightarrow> s
     | Some a \<Rightarrow> s\<lparr>data_bytes := mem_write (data_bytes s) a p\<rparr>)"

lemma fill_payload_inv:
  assumes inv: "siso_inv s ps qs" and al: "allocated s (length p)"
    and addr: "wh_data_addr h = Some (payload_off (cnt s) (widx s) (length p))"
  shows "siso_inv (fill_payload s h p) ps qs" and "allocated (fill_payload s h p) (length p)"
    and "chunk_at (data_bytes (fill_payload s h p)) (cnt s) (widx s) p"
    and "head (fill_payload s h p) = head s" and "cnt (fill_payload s h p) = cnt s"
proof -
  let ?m = "data_bytes s" and ?i = "widx s" and ?o = "payload_off (cnt s) (widx s) (length p)"
  have i: "?i < cnt s" and len: "8 * cnt s \<le> length ?m"
    using siso_invD(1) [OF inv] widx_less by (auto simp: geometry_ok_def)
  have f: "fits (cnt s) ?i (length p)" and room: "unat (wc s - wtr s) + need (cnt s) ?i (length p) \<le> cnt s"
    using al by (auto simp: allocated_def)
  have rng: "?o + length p \<le> length ?m" using payload_in_range [OF i f] len by simp
  have eq: "fill_payload s h p = s\<lparr>data_bytes := mem_write ?m ?o p\<rparr>"
    by (simp add: fill_payload_def addr)
  show "siso_inv (fill_payload s h p) ps qs" unfolding eq
  proof (rule inv_write_free [OF inv room])
    fix x assume "x < 8 * cnt s" "x div 8 \<notin> owned (cnt s) ?i (need (cnt s) ?i (length p))"
    then show "mem_write ?m ?o p ! x = ?m ! x"
      using payload_owned [OF i f, of x] rng len by (auto simp: nth_mem_write)
  qed (use rng in simp)
  have ld: "load_u32 (mem_write ?m ?o p) a = load_u32 ?m a" if "8 * ?i \<le> a" "a + 4 \<le> 8 * ?i + 8" for a
    using that payload_head_disjoint [OF i f] rng i len
    by (intro load_u32_cong) (auto simp: nth_mem_write)
  show al': "allocated (fill_payload s h p) (length p)"
    using al ld [of "8 * ?i"] ld [of "8 * ?i + 4"] by (simp add: eq allocated_def widx_def)
  then show "chunk_at (data_bytes (fill_payload s h p)) (cnt s) ?i p"
    using rng by (simp add: chunk_at_def allocated_def eq widx_def mem_simps)
qed (simp_all add: fill_payload_def addr)

text \<open>Committing publishes the chunk: the payload joins the queue at its end.\<close>

lemma commit_inv:
  assumes inv: "siso_inv s ps qs" and al: "allocated s (length p)"
    and ch: "chunk_at (data_bytes s) (cnt s) (widx s) p" and ok: "wh_result h = success"
  shows "siso_inv (commit_write_chunk s h) ps (qs @ [p])"
proof -
  let ?k = "need (cnt s) (widx s) (length p)"
  note d = siso_invD [OF inv]
  have i: "ridx s < cnt s" using d(1) by (rule ridx_less)
  have "commit_write_chunk s h
      = s\<lparr>head := (head s)\<lparr>wt_writing_cursor_cache := wc s + of_nat ?k, writing_cursor := wc s + of_nat ?k\<rparr>\<rparr>"
    using ok al d(2) cursor_to_block_nat [OF d(1), of "wt_writing_cursor_cache (head s)"]
    by (simp add: commit_write_chunk_def Let_def allocated_def widx_def mult.commute)
  moreover have room: "unat (wc s - wtr s) + ?k \<le> cnt s" using al by (simp add: allocated_def)
  moreover have "unat (wc s + of_nat ?k - rtr s) = unat (wc s - rtr s) + ?k"
  proof -
    have lt: "unat (wc s - rtr s) + ?k < 2 ^ 32" and "?k < 2 ^ 32"
      using inv_used(1) [OF inv] room u32_less [of "aligned_blocks_count s"] by simp_all
    have "wc s + of_nat ?k - rtr s = (wc s - rtr s) + of_nat ?k" by simp
    then show ?thesis using lt \<open>?k < 2 ^ 32\<close> by (simp only: unat_word_ariths unat_of_nat) simp
  qed
  moreover have "chunks_at (data_bytes s) (cnt s) (ridx s) (ps @ qs @ [p])"
    "span (cnt s) (ridx s) (ps @ qs @ [p]) = span (cnt s) (ridx s) (ps @ qs) + ?k"
    using chunks_at_append [OF i, of "data_bytes s" "ps @ qs" "[p]"] span_append [OF i, of "ps @ qs" "[p]"]
      inv_widx [OF inv] d(3) ch by simp_all
  ultimately show ?thesis
    using d inv_used(1) [OF inv] by (simp add: siso_inv_def geometry_ok_def ridx_def)
qed

section \<open>Reading\<close>

lemma block_data_addr:
  assumes "geometry_ok s" and "i < cnt s" and "unat index = i"
    and "chunk_at (data_bytes s) (cnt s) i p"
  shows "get_block_data_addr s index = payload_off (cnt s) i (length p)"
    and "load_u32 (data_bytes s) (unat index * 8) = of_nat (need (cnt s) i (length p))"
    and "load_u32 (data_bytes s) (unat index * 8 + 4) = of_nat (length p)"
proof -
  have lp: "length p < 2 ^ 32" using assms(4) by (simp add: chunk_at_def)
  then have ul: "unat (of_nat (length p) :: u32) = length p" by (simp add: unat_of_nat)
  have t: "unat (aligned_blocks_count s - index) = cnt s - i"
    using assms(2,3) by (simp add: unat_sub word_le_nat_alt)
  have "cnt s - i < 2 ^ 32" using u32_less [of "aligned_blocks_count s"] by simp
  then have "((ucast (aligned_blocks_count s - index) :: u64) * 8
        < ucast (of_nat (length p) :: u32) + 8) \<longleftrightarrow> (cnt s - i) * 8 < length p + 8"
    using lp by (simp add: word_less_nat_alt unat_word_ariths t ul)
  then show "get_block_data_addr s index = payload_off (cnt s) i (length p)"
    using assms by (auto simp: get_block_data_addr_def Let_def chunk_at_def payload_off_def wraps_def
        mult.commute)
qed (use assms in \<open>simp_all add: chunk_at_def mult.commute\<close>)

text \<open>The reader refreshes its cached writing cursor only when it sees nothing to read.\<close>

lemma inv_see_all:
  "siso_inv s ps qs \<Longrightarrow> siso_inv (s\<lparr>head := (head s)\<lparr>rt_writing_cursor_cache := wc s\<rparr>\<rparr>) (ps @ qs) []"
  by (simp add: siso_inv_def geometry_ok_def ridx_def)

lemma inv_seen_iff: "siso_inv s ps qs \<Longrightarrow> rtw s = rtr s \<longleftrightarrow> ps = []"
  using span_pos [OF ridx_less, of s ps] siso_invD(1,4) [of s ps qs]
  by (metis right_minus_eq unat_eq_zero)

lemma first_payload:
  "siso_inv s (p # ps) qs
    \<Longrightarrow> mem_read (data_bytes s) (payload_off (cnt s) (ridx s) (length p)) (length p) = p"
  by (auto simp: chunk_at_def dest: siso_invD(3))

lemma read_chunk_frame:
  "read_chunk ld s = (h, s') \<Longrightarrow> s' = s \<or> s' = s\<lparr>head := (head s)\<lparr>rt_writing_cursor_cache := ld\<rparr>\<rparr>"
  by (auto simp: read_chunk_def Let_def split: if_splits)

text \<open>A load that is not current shows the reader only a part \<open>qs1\<close> of the chunks behind the ones it has seen.\<close>

lemma inv_see_some:
  assumes inv: "siso_inv s [] (qs1 @ qs2)" and ld: "ld = rtr s + of_nat (span (cnt s) (ridx s) qs1)"
  shows "siso_inv (s\<lparr>head := (head s)\<lparr>rt_writing_cursor_cache := ld\<rparr>\<rparr>) qs1 qs2"
proof -
  note d = siso_invD [OF inv]
  have "span (cnt s) (ridx s) qs1 \<le> unat (wc s - rtr s)" using d(5) span_append [OF ridx_less [OF d(1)], of qs1 qs2] by simp
  then have "span (cnt s) (ridx s) qs1 < 4294967296" using u32_less [of "wc s - rtr s"] by linarith
  then have "unat (ld - rtr s) = span (cnt s) (ridx s) qs1" by (simp add: ld unat_of_nat)
  then show ?thesis using inv by (simp add: siso_inv_def geometry_ok_def ridx_def)
qed

lemma read_chunk_seen:
  assumes inv: "siso_inv s ps (qs1 @ qs2)" and rd: "read_chunk ld s = (h, s')"
    and ld: "ps = [] \<Longrightarrow> ld = rtr s + of_nat (span (cnt s) (ridx s) qs1)"
  shows "s' = (if ps = [] then s\<lparr>head := (head s)\<lparr>rt_writing_cursor_cache := ld\<rparr>\<rparr> else s)"
    and "siso_inv s' (if ps = [] then qs1 else ps) (if ps = [] then qs2 else qs1 @ qs2)"
    and "ps = [] \<Longrightarrow> qs1 = [] \<Longrightarrow> rh_result h = err_empty_log_buffer"
    and "(if ps = [] then qs1 else ps) = p # ps' \<Longrightarrow> rh_result h = success \<and> unat (rh_data_size h) = length p
      \<and> rh_data_addr h = Some (payload_off (cnt s') (ridx s') (length p))"
proof -
  define s1 where "s1 = (if ps = [] then s\<lparr>head := (head s)\<lparr>rt_writing_cursor_cache := ld\<rparr>\<rparr> else s)"
  define ps1 qs' where "ps1 = (if ps = [] then qs1 else ps)" and "qs' = (if ps = [] then qs2 else qs1 @ qs2)"
  have inv1: "siso_inv s1 ps1 qs'" using inv inv_see_some [of s qs1 qs2 ld] ld by (auto simp: s1_def ps1_def qs'_def)
  have rtw1: "rtw s1 = rtr s1 \<longleftrightarrow> ps1 = []" by (rule inv_seen_iff [OF inv1])
  have empty0: "(rtw s - rtr s = 0) \<longleftrightarrow> ps = []" using inv_seen_iff [OF inv] by simp
  note rd' = rd [unfolded read_chunk_def Let_def, folded s1_def, unfolded empty0]
  have s': "s' = s1" using rd' by (auto simp: s1_def empty0 split: if_splits)
  then show "s' = (if ps = [] then s\<lparr>head := (head s)\<lparr>rt_writing_cursor_cache := ld\<rparr>\<rparr> else s)" by (simp add: s1_def)
  show "siso_inv s' (if ps = [] then qs1 else ps) (if ps = [] then qs2 else qs1 @ qs2)" using inv1 s' by (simp add: ps1_def qs'_def)
  show "rh_result h = err_empty_log_buffer" if "ps = []" "qs1 = []" using rd' rtw1 that by (auto simp: s1_def empty0 ps1_def)
  show "rh_result h = success \<and> unat (rh_data_size h) = length p \<and> rh_data_addr h = Some (payload_off (cnt s') (ridx s') (length p))"
    if "(if ps = [] then qs1 else ps) = p # ps'"
  proof -
    have p: "ps1 = p # ps'" using that by (simp add: ps1_def)
    let ?b = "cursor_to_block s1 (rtr s1)"
    note d = siso_invD [OF inv1]
    have ub: "unat ?b = ridx s1" using cursor_to_block_nat [OF d(1)] by (simp add: ridx_def)
    have ch: "chunk_at (data_bytes s1) (cnt s1) (ridx s1) p" using d(3) by (simp add: p)
    note ba = block_data_addr [OF d(1) ridx_less [OF d(1)] ub ch]
    have h: "h = empty_read_handle\<lparr>rh_data_size := of_nat (length p),
        rh_data_addr := Some (payload_off (cnt s1) (ridx s1) (length p)), rh_result := success\<rparr>"
      using rd' rtw1 p ba by (auto simp: s1_def empty0 split: if_splits)
    have "unat (of_nat (length p) :: u32) = length p" using ch by (simp add: chunk_at_def unat_of_nat)
    then show ?thesis using h s' by simp
  qed
qed

lemma read_chunk_cases:
  assumes inv: "siso_inv s ps qs" and rd: "read_chunk (wc s) s = (h, s')"
  shows "(ps @ qs = [] \<and> rh_result h = err_empty_log_buffer \<and> siso_inv s' [] [])
    \<or> (\<exists>p ps' qs'. ps @ qs = p # ps' @ qs' \<and> siso_inv s' (p # ps') qs' \<and> rh_result h = success
        \<and> unat (rh_data_size h) = length p
        \<and> rh_data_addr h = Some (payload_off (cnt s') (ridx s') (length p)))"
proof -
  have i: "siso_inv s ps (qs @ [])" using inv by simp
  have ld: "wc s = rtr s + of_nat (span (cnt s) (ridx s) qs)" if "ps = []" using siso_invD(5) [OF inv] that by simp
  note r = read_chunk_seen [OF i rd ld]
  show ?thesis
  proof (cases "if ps = [] then qs else ps")
    case Nil
    then show ?thesis using r(2,3) by (auto split: if_splits)
  next
    case (Cons p ps')
    then have "ps @ qs = p # ps' @ (if ps = [] then [] else qs)" by (auto split: if_splits)
    moreover have "siso_inv s' (p # ps') (if ps = [] then [] else qs)" using r(2) Cons by (auto split: if_splits)
    ultimately show ?thesis using r(4) [OF _ Cons] by blast
  qed
qed

text \<open>Moving the reader's cursor over the first chunk, and publishing that cursor.\<close>

lemma consume_inv:
  assumes inv: "siso_inv s (p # ps) qs"
  shows "siso_inv (s\<lparr>head := (head s)\<lparr>rt_reading_cursor_cache :=
      rtr s + of_nat (need (cnt s) (ridx s) (length p))\<rparr>\<rparr>) ps qs"
proof -
  let ?k = "need (cnt s) (ridx s) (length p)" and ?r = "rtr s + of_nat (need (cnt s) (ridx s) (length p))"
  note d = siso_invD [OF inv]
  have k: "?k \<le> unat (rtw s - rtr s)" and k': "?k \<le> unat (wc s - rtr s)" using d(4,5) by auto
  have kn: "?k \<le> cnt s" using d(6) k' by simp
  have uk: "unat (of_nat ?k :: u32) = ?k"
    using kn u32_less [of "aligned_blocks_count s"] by (simp add: unat_of_nat)
  have idx: "unat ?r mod cnt s = (ridx s + ?k) mod cnt s"
    using cursor_advance [OF d(1) kn, of "rtr s"] by (simp add: ridx_def)
  have diff: "unat (x - ?r) = unat (x - rtr s) - ?k" if "?k \<le> unat (x - rtr s)" for x
  proof -
    have "x - ?r = (x - rtr s) - of_nat ?k" by simp
    then show ?thesis using that uk by (simp only: unat_sub word_le_nat_alt)
  qed
  have "unat (?r - rc s) \<le> unat (rtr s - rc s) + ?k"
  proof -
    have "?r - rc s = (rtr s - rc s) + of_nat ?k" by simp
    then show ?thesis using uk by (simp only: unat_word_ariths) simp
  qed
  then have sum: "unat (rc s - wtr s) + unat (?r - rc s) + (unat (wc s - rtr s) - ?k) \<le> cnt s"
    using d(6) k' by linarith
  have ch: "chunks_at (data_bytes s) (cnt s) ((ridx s + ?k) mod cnt s) (ps @ qs)"
    and sp: "span (cnt s) ((ridx s + ?k) mod cnt s) ps = unat (rtw s - rtr s) - ?k"
    and sq: "span (cnt s) ((ridx s + ?k) mod cnt s) (ps @ qs) = unat (wc s - rtr s) - ?k"
    using d(3,4,5) by simp_all
  show ?thesis
    using d(1,2) sum ch sp sq diff [OF k] diff [OF k'] idx
    by (simp add: siso_inv_def geometry_ok_def ridx_def [of "_\<lparr>head := _\<rparr>"])
qed

lemma publish_inv:
  assumes inv: "siso_inv s ps qs"
  shows "siso_inv (s\<lparr>head := (head s)\<lparr>reading_cursor := rtr s\<rparr>\<rparr>) ps qs"
proof -
  note d = siso_invD [OF inv]
  have "unat (rtr s - wtr s) = unat (rc s - wtr s) + unat (rtr s - rc s)"
    by (rule unat_diff_chain) (use d(6) u32_less [of "aligned_blocks_count s"] in simp)
  with d show ?thesis by (simp add: siso_inv_def geometry_ok_def ridx_def)
qed

lemma first_chunk_head:
  assumes "siso_inv s (p # ps) qs"
  shows "load_u32 (data_bytes s) (unat (cursor_to_block s (rtr s)) * 8)
    = of_nat (need (cnt s) (ridx s) (length p))"
  using siso_invD(1,3) [OF assms] cursor_to_block_nat [of s "rtr s"]
  by (simp add: chunk_at_def ridx_def mult.commute)

lemma return_inv:
  assumes inv: "siso_inv s (p # ps) qs" and ok: "rh_result h = success"
  shows "siso_inv (return_read_chunk s h) ps qs"
proof -
  let ?t = "s\<lparr>head := (head s)\<lparr>rt_reading_cursor_cache :=
      rtr s + of_nat (need (cnt s) (ridx s) (length p))\<rparr>\<rparr>"
  have "return_read_chunk s h = ?t\<lparr>head := (head ?t)\<lparr>reading_cursor := rtr ?t\<rparr>\<rparr>"
    using ok first_chunk_head [OF inv] by (simp add: return_read_chunk_def Let_def)
  then show ?thesis using publish_inv [OF consume_inv [OF inv]] by simp
qed

lemma return_moves:
  assumes inv: "siso_inv s (p # ps) qs" and ok: "rh_result h = success"
  shows "rtr (return_read_chunk s h) = rtr s + of_nat (need (cnt s) (ridx s) (length p))"
    and "ridx (return_read_chunk s h) = (ridx s + need (cnt s) (ridx s) (length p)) mod cnt s"
proof -
  note d = siso_invD [OF inv]
  show r: "rtr (return_read_chunk s h) = rtr s + of_nat (need (cnt s) (ridx s) (length p))"
    using ok first_chunk_head [OF inv] by (simp add: return_read_chunk_def Let_def)
  have "need (cnt s) (ridx s) (length p) \<le> unat (wc s - rtr s)" using d(5) by simp
  then have "need (cnt s) (ridx s) (length p) \<le> cnt s" using d(6) by simp
  then show "ridx (return_read_chunk s h) = (ridx s + need (cnt s) (ridx s) (length p)) mod cnt s"
    using cursor_advance [OF d(1), of _ "rtr s"] r by (simp add: ridx_def return_read_chunk_def Let_def)
qed

lemma batch_next_inv:
  assumes inv: "siso_inv s (p # ps) qs" and cur: "current_cursor bh = rtr s"
    and ok: "batch_result bh = success" and nx: "batch_next s bh = (h, bh', s')"
  shows "siso_inv s' ps qs" and "current_cursor bh' = rtr s'" and "end_cursor bh' = end_cursor bh"
    and "batch_result bh' = success" and "rtw s' = rtw s"
    and "rh_result h = success" and "unat (rh_data_size h) = length p"
    and "\<exists>a. rh_data_addr h = Some a \<and> mem_read (data_bytes s') a (length p) = p"
proof -
  note d = siso_invD [OF inv]
  have ub: "unat (cursor_to_block s (rtr s)) = ridx s"
    using cursor_to_block_nat [OF d(1)] by (simp add: ridx_def)
  have ch: "chunk_at (data_bytes s) (cnt s) (ridx s) p" using d(3) by simp
  note ba = block_data_addr [OF d(1) ridx_less [OF d(1)] ub ch]
  have eqs: "s' = s\<lparr>head := (head s)\<lparr>rt_reading_cursor_cache :=
        rtr s + of_nat (need (cnt s) (ridx s) (length p))\<rparr>\<rparr>"
    "bh' = bh\<lparr>current_cursor := rtr s + of_nat (need (cnt s) (ridx s) (length p))\<rparr>"
    "h = empty_read_handle\<lparr>rh_result := success,
       rh_data_addr := Some (payload_off (cnt s) (ridx s) (length p)), rh_data_size := of_nat (length p)\<rparr>"
    using nx cur ok ba by (auto simp: batch_next_def Let_def)
  show "siso_inv s' ps qs" unfolding eqs(1) by (rule consume_inv [OF inv])
  have "unat (of_nat (length p) :: u32) = length p" using ch by (simp add: chunk_at_def unat_of_nat)
  then show "unat (rh_data_size h) = length p" by (simp add: eqs)
  show "\<exists>a. rh_data_addr h = Some a \<and> mem_read (data_bytes s') a (length p) = p"
    using ch by (simp add: eqs chunk_at_def)
qed (use nx cur ok in \<open>auto simp: batch_next_def Let_def\<close>)

text \<open>
  The consumer's batch loop: read chunks while the handle has a next one, then return the batch.
  One unit of fuel per chunk; the number of visible chunks is enough.
\<close>

fun batch_drain ::
  "nat \<Rightarrow> siso_ring_buffer \<Rightarrow> siso_buffer_batch_read_handle
    \<Rightarrow> (bytes list \<times> siso_buffer_batch_read_handle \<times> siso_ring_buffer) option" where
  "batch_drain fuel s bh =
    (if \<not> batch_has_next bh then Some ([], bh, s)
     else case fuel of 0 \<Rightarrow> None
     | Suc f \<Rightarrow>
       let (h, bh', s') = batch_next s bh;
           p = (case rh_data_addr h of None \<Rightarrow> []
                | Some a \<Rightarrow> mem_read (data_bytes s') a (unat (rh_data_size h)))
       in map_option (\<lambda>(out, r). (p # out, r)) (batch_drain f s' bh'))"

declare batch_drain.simps [simp del]

lemma batch_drain_all:
  assumes "siso_inv s ps qs" and "current_cursor bh = rtr s" and "end_cursor bh = rtw s"
    and "batch_result bh = success" and "length ps \<le> fuel"
  shows "\<exists>bh' s'. batch_drain fuel s bh = Some (ps, bh', s') \<and> siso_inv s' [] qs
    \<and> batch_result bh' = success"
  using assms
proof (induction ps arbitrary: s bh fuel)
  case Nil
  then have "\<not> batch_has_next bh" using inv_seen_iff [of s "[]" qs] by (simp add: batch_has_next_def)
  with Nil show ?case by (subst batch_drain.simps) auto
next
  case (Cons p ps)
  obtain f where f: "fuel = Suc f" "length ps \<le> f" using Cons.prems(5) by (cases fuel) auto
  obtain h bh1 s1 where nx: "batch_next s bh = (h, bh1, s1)" by (metis prod_cases3)
  note b = batch_next_inv [OF Cons.prems(1,2,4) nx]
  have hn: "batch_has_next bh"
    using inv_seen_iff [OF Cons.prems(1)] Cons.prems(2,3) by (auto simp: batch_has_next_def)
  obtain a where a: "rh_data_addr h = Some a" "mem_read (data_bytes s1) a (length p) = p"
    using b(8) by blast
  have "\<exists>bh' s'. batch_drain f s1 bh1 = Some (ps, bh', s') \<and> siso_inv s' [] qs \<and> batch_result bh' = success"
    using b Cons.prems(3) f(2) by (intro Cons.IH) simp_all
  then show ?case using hn nx a b(7) f(1) by (subst batch_drain.simps) (auto simp: Let_def)
qed

end
