(* ===== verification/Qlog_Siso_Recovery.thy ===== *)
theory Qlog_Siso_Recovery
  imports Qlog_Siso_Correct
begin

text \<open>
  Walking the chunks of the single-producer ring: \<open>data_traverse\<close> visits exactly the unread payloads,
  the recovery accepts exactly well-formed storage, and fresh buffers satisfy the ring invariant.
\<close>

section \<open>Traversal\<close>

primrec chunk_list :: "nat \<Rightarrow> nat \<Rightarrow> bytes list \<Rightarrow> (nat \<times> u32) list" where
  "chunk_list n i [] = []"
| "chunk_list n i (p # ps) = (payload_off n i (length p), of_nat (length p))
     # chunk_list n ((i + need n i (length p)) mod n) ps"

lemma chunk_list_reads:
  "chunks_at m n i ps \<Longrightarrow> map (\<lambda>(a, l). mem_read m a (unat l)) (chunk_list n i ps) = ps"
  by (induction ps arbitrary: i) (auto simp: chunk_at_def unat_of_nat)

abbreviation see_all :: "siso_ring_buffer \<Rightarrow> siso_ring_buffer" where
  "see_all s \<equiv> s\<lparr>head := (head s)\<lparr>rt_writing_cursor_cache := wc s\<rparr>\<rparr>"

lemma traverse_step:
  assumes "geometry_ok s" and "chunk_at (data_bytes s) (cnt s) (unat c mod cnt s) p"
    and "s1 = (if c = rtw s then see_all s else s)" and "c \<noteq> rtw s1"
  shows "traverse_loop (wc s) s c acc
    = traverse_loop (wc s) s1 (c + of_nat (need (cnt s) (unat c mod cnt s) (length p)))
        (acc @ [(payload_off (cnt s) (unat c mod cnt s) (length p), of_nat (length p))])"
proof -
  have g: "geometry_ok s1" and cn: "cnt s1 = cnt s" and dt: "data_bytes s1 = data_bytes s"
    using assms(1,3) by (auto simp: geometry_ok_def)
  have ub: "unat (cursor_to_block s1 c) = unat c mod cnt s1" by (rule cursor_to_block_nat [OF g])
  have lt: "unat c mod cnt s1 < cnt s1" by (rule mod_less_divisor) (use g in \<open>simp add: geometry_ok_def\<close>)
  note ba = block_data_addr [OF g lt ub, of p]
  have nr: "\<not> (c = rtw s \<and> c = rtw s1)" using assms(4) by simp
  show ?thesis
    using nr assms(2) ba
    by (subst traverse_loop.simps) (simp only: Let_def assms(3) [symmetric] cn dt if_False)
qed

lemma traverse_all:
  assumes "geometry_ok s" and "chunks_at (data_bytes s) (cnt s) (unat c mod cnt s) (ps @ qs)"
    and "span (cnt s) (unat c mod cnt s) ps = unat (rtw s - c)"
    and "span (cnt s) (unat c mod cnt s) (ps @ qs) = unat (wc s - c)" and "unat (wc s - c) \<le> cnt s"
  shows "\<exists>s'. traverse_loop (wc s) s c acc
    = Some (acc @ chunk_list (cnt s) (unat c mod cnt s) (ps @ qs), s')"
  using assms
proof (induction "ps @ qs" arbitrary: s c ps qs acc)
  case Nil
  then have "rtw s = c" "wc s = c" by (auto simp: unat_eq_zero)
  then show ?case using \<open>[] = ps @ qs\<close> by (subst traverse_loop.simps) (simp add: Let_def)
next
  case (Cons p xs)
  let ?i = "unat c mod cnt s" and ?k = "need (cnt s) (unat c mod cnt s) (length p)"
  define s1 where "s1 = (if c = rtw s then see_all s else s)"
  have i: "?i < cnt s" by (rule mod_less_divisor) (use Cons.prems(1) in \<open>simp add: geometry_ok_def\<close>)
  have s1: "geometry_ok s1" "cnt s1 = cnt s" "data_bytes s1 = data_bytes s" "wc s1 = wc s"
    using Cons.prems(1) by (auto simp: geometry_ok_def s1_def)
  have empty: "ps = [] \<longleftrightarrow> c = rtw s"
    using Cons.prems(3) span_pos [OF i, of ps] by (metis right_minus_eq unat_eq_zero)
  define ps1 qs1 where "ps1 = (if ps = [] then qs else ps)" and "qs1 = (if ps = [] then [] else qs)"
  have split: "ps1 @ qs1 = p # xs" and "ps1 \<noteq> []" using Cons(2) by (auto simp: ps1_def qs1_def)
  then obtain ps2 where ps2: "ps1 = p # ps2" "xs = ps2 @ qs1" by (cases ps1) auto
  have sp1: "span (cnt s) ?i ps1 = unat (rtw s1 - c)"
    using Cons.prems(3,4) empty by (auto simp: ps1_def s1_def)
  then have ne: "c \<noteq> rtw s1" using span_pos [OF i, of ps1] \<open>ps1 \<noteq> []\<close> by auto
  have "span (cnt s) ?i (p # xs) = unat (wc s - c)" using Cons.prems(4) Cons(2) by simp
  then have k: "?k \<le> unat (rtw s1 - c)" "?k \<le> unat (wc s - c)" "?k \<le> cnt s"
    using sp1 Cons.prems(5) ps2(1) by auto
  have uk: "unat (of_nat ?k :: u32) = ?k"
    using k(3) u32_less [of "aligned_blocks_count s"] by (simp add: unat_of_nat)
  have idx: "unat (c + of_nat ?k) mod cnt s = (?i + ?k) mod cnt s"
    using cursor_advance [OF Cons.prems(1) k(3), of c] by simp
  have diff: "unat (x - (c + of_nat ?k)) = unat (x - c) - ?k" if "?k \<le> unat (x - c)" for x
  proof -
    have "x - (c + of_nat ?k) = (x - c) - of_nat ?k" by simp
    then show ?thesis using that uk by (simp only: unat_sub word_le_nat_alt)
  qed
  have ch: "chunk_at (data_bytes s) (cnt s) ?i p"
    and rest: "chunks_at (data_bytes s) (cnt s) ((?i + ?k) mod cnt s) (ps2 @ qs1)"
    using Cons.prems(2) Cons(2) ps2 by (auto simp flip: Cons(2))
  have "\<exists>s'. traverse_loop (wc s1) s1 (c + of_nat ?k) (acc @ [(payload_off (cnt s) ?i (length p), of_nat (length p))])
    = Some ((acc @ [(payload_off (cnt s) ?i (length p), of_nat (length p))])
        @ chunk_list (cnt s1) (unat (c + of_nat ?k) mod cnt s1) (ps2 @ qs1), s')"
  proof (rule Cons(1))
    show "span (cnt s1) (unat (c + of_nat ?k) mod cnt s1) ps2 = unat (rtw s1 - (c + of_nat ?k))"
      using sp1 ps2 diff [OF k(1)] by (simp add: s1 idx)
    show "span (cnt s1) (unat (c + of_nat ?k) mod cnt s1) (ps2 @ qs1) = unat (wc s1 - (c + of_nat ?k))"
      using Cons.prems(4) ps2 diff [OF k(2)] by (simp add: s1 idx flip: Cons(2))
    show "unat (wc s1 - (c + of_nat ?k)) \<le> cnt s1" using diff [OF k(2)] Cons.prems(5) by (simp add: s1)
  qed (use s1 rest idx ps2 in simp_all)
  then show ?case
    using traverse_step [OF Cons.prems(1) ch s1_def ne, of acc] ps2
    by (simp add: s1 idx flip: Cons(2))
qed

text \<open>The payloads a traversal sees, in order.\<close>

definition siso_contents :: "siso_ring_buffer \<Rightarrow> bytes list" where
  "siso_contents s = (case data_traverse (wc s) s of None \<Rightarrow> []
     | Some (out, s') \<Rightarrow> map (\<lambda>(a, l). mem_read (data_bytes s) a (unat l)) out)"

lemma data_traverse_inv:
  assumes inv: "siso_inv s ps qs"
  shows "\<exists>out s'. data_traverse (wc s) s = Some (out, s')
    \<and> map (\<lambda>(a, l). mem_read (data_bytes s) a (unat l)) out = ps @ qs"
proof -
  note d = siso_invD [OF inv]
  have "\<exists>s'. traverse_loop (wc s) s (rtr s) []
      = Some ([] @ chunk_list (cnt s) (unat (rtr s) mod cnt s) (ps @ qs), s')"
    by (rule traverse_all) (use d in \<open>simp_all add: ridx_def\<close>)
  then show ?thesis
    using chunk_list_reads [OF d(3)] by (auto simp: data_traverse_def ridx_def)
qed

lemma siso_contents_inv: "siso_inv s ps qs \<Longrightarrow> siso_contents s = ps @ qs"
  using data_traverse_inv [of s ps qs] by (auto simp: siso_contents_def)

section \<open>Block count of a storage area\<close>

lemma grow_count_pow2:
  assumes "0 < c" and "c \<le> m"
  shows "\<exists>k. grow_count m c = c * 2 ^ k \<and> grow_count m c \<le> m \<and> m < 2 * grow_count m c"
  using assms
proof (induction m c rule: grow_count.induct)
  case (1 m c)
  show ?case
  proof (cases "c \<le> m div 2")
    case True
    have "\<exists>k. grow_count m (c * 2) = c * 2 * 2 ^ k \<and> grow_count m (c * 2) \<le> m \<and> m < 2 * grow_count m (c * 2)"
      using True "1.prems" by (intro "1.IH") auto
    then obtain k where k: "grow_count m (c * 2) = c * 2 * 2 ^ k"
      "grow_count m (c * 2) \<le> m" "m < 2 * grow_count m (c * 2)" by blast
    have "grow_count m c = grow_count m (c * 2)"
      using True "1.prems" by (simp add: grow_count.simps [of m c])
    with k show ?thesis by (intro exI [of _ "Suc k"]) simp
  next
    case False
    with "1.prems" show ?thesis by (intro exI [of _ 0]) (simp add: grow_count.simps [of m c])
  qed
qed

text \<open>The preconditions the constructor asserts: room for two blocks, and not too many of them.\<close>

definition storage_ok :: "bytes \<Rightarrow> bool" where
  "storage_ok st \<longleftrightarrow> head_size + 16 \<le> length st \<and> blocks_in (length st) \<le> 2147483647 div 8"

lemma storage_blocks:
  assumes "storage_ok st"
  shows "\<exists>k\<le>28. blocks_in (length st) = 2 ^ k" and "2 \<le> blocks_in (length st)"
    and "8 * blocks_in (length st) \<le> length (drop head_size st)"
    and "unat (of_nat (blocks_in (length st)) :: u32) = blocks_in (length st)"
proof -
  let ?m = "(length st - head_size) div 8"
  have "head_size + 16 \<le> length st" using assms by (simp add: storage_ok_def)
  then have m: "2 \<le> ?m" by (simp add: less_eq_div_iff_mult_less_eq)
  then obtain k where k: "blocks_in (length st) = 2 ^ k" "2 ^ k \<le> ?m" "?m < 2 * 2 ^ k"
    using grow_count_pow2 [of 1 ?m] by (auto simp: blocks_in_def)
  have b: "blocks_in (length st) < 2 ^ 28" using assms by (simp add: storage_ok_def)
  then have "(2 :: nat) ^ k < 2 ^ 28" using k(1) by simp
  then have "k < 28" by (rule power_less_imp_less_exp [rotated]) simp
  then show "\<exists>k\<le>28. blocks_in (length st) = 2 ^ k" using k(1) by (intro exI [of _ k]) simp
  show "2 \<le> blocks_in (length st)" using k m by (cases k) auto
  show "8 * blocks_in (length st) \<le> length (drop head_size st)" using k by simp
  show "unat (of_nat (blocks_in (length st)) :: u32) = blocks_in (length st)"
    using b by (simp add: unat_of_nat)
qed

lemma storage_geometry:
  assumes "storage_ok st" and "aligned_blocks_count s = of_nat (blocks_in (length st))"
    and "data_bytes s = drop head_size st" and "aligned_blocks_count_cache (head s) = aligned_blocks_count s"
  shows "geometry_ok s" and "cnt s = blocks_in (length st)"
  using storage_blocks [OF assms(1)] assms(2-4) by (simp_all add: geometry_ok_def)

lemma init_with_memory_inv:
  "storage_ok st \<Longrightarrow> siso_inv (siso_init_with_memory st r) [] []"
  "storage_ok st \<Longrightarrow> siso_inv (siso_init_with_memory_map st r) [] []"
  using storage_geometry [of st "siso_init_with_memory st r"]
    storage_geometry [of st "siso_init_with_memory_map st r"]
  by (simp_all add: siso_inv_def siso_init_with_memory_def siso_init_with_memory_map_def
      init_cursors_def Let_def)

section \<open>Recovery\<close>

text \<open>The loop in terms of the chunk geometry.\<close>

lemma recover_walk_step:
  fixes cursor remaining :: u32
  assumes g: "geometry_ok s" and r: "remaining \<noteq> 0"
  defines "i \<equiv> unat cursor mod cnt s"
  defines "cb \<equiv> load_u32 (data_bytes s) (8 * i)" and "sz \<equiv> load_u32 (data_bytes s) (8 * i + 4)"
  shows "recover_walk (data_bytes s) (aligned_blocks_count s) cursor remaining =
    (if cb = 0 \<or> cb > remaining \<or> \<not> fits (cnt s) i (unat sz) \<or> unat cb \<noteq> need (cnt s) i (unat sz) then None
     else recover_walk (data_bytes s) (aligned_blocks_count s) (cursor + cb) (remaining - cb))"
proof -
  let ?n = "aligned_blocks_count s"
  have i: "i < unat ?n" unfolding i_def by (rule mod_less_divisor) (use g in \<open>simp add: geometry_ok_def\<close>)
  have "unat (cursor AND (?n - 1)) = i" using cursor_index [OF g] by (simp add: i_def)
  then have "of_nat (unat (cursor AND (?n - 1))) = (of_nat i :: u32)" by (simp only:)
  then have idx: "cursor AND (?n - 1) = of_nat i" by simp
  have ui: "unat (of_nat i :: u32) = i" using i u32_less [of ?n] by (simp add: unat_of_nat)
  have cb: "load_u32 (data_bytes s) (i * 8) = cb" and sz: "load_u32 (data_bytes s) (i * 8 + 4) = sz"
    by (simp_all add: cb_def sz_def mult.commute)
  have G: "(ucast ?n < normal_blocks sz
      \<or> (ucast (?n - of_nat i) < normal_blocks sz
         \<and> ucast ?n < normal_blocks sz + ucast (?n - of_nat i) - 1)) \<longleftrightarrow> \<not> fits (cnt s) i (unat sz)"
    by (rule alloc_guard [OF i])
  have C: "count64 (?n - of_nat i) sz = ucast cb \<longleftrightarrow> unat cb = need (cnt s) i (unat sz)"
    using unat_count64 [OF i, of sz] by (simp add: word_unat_eq_iff) auto
  show ?thesis
    by (subst recover_walk.simps)
      (simp only: r Let_def idx ui cb sz G count64_def [symmetric] C if_False, simp)
qed

lemma recover_walk_sound:
  assumes "geometry_ok s"
    and "recover_walk (data_bytes s) (aligned_blocks_count s) cursor remaining = Some e"
    and "unat remaining \<le> cnt s"
  shows "e = cursor + remaining \<and> (\<exists>xs. chunks_at (data_bytes s) (cnt s) (unat cursor mod cnt s) xs
    \<and> span (cnt s) (unat cursor mod cnt s) xs = unat remaining)"
  using assms(2,3)
proof (induction "unat remaining" arbitrary: cursor remaining rule: less_induct)
  case less
  let ?i = "unat cursor mod cnt s"
  let ?cb = "load_u32 (data_bytes s) (8 * ?i)" and ?sz = "load_u32 (data_bytes s) (8 * ?i + 4)"
  show ?case
  proof (cases "remaining = 0")
    case True
    with less.prems(1) show ?thesis
      by (auto simp: recover_walk.simps [of _ _ cursor 0] intro!: exI [of _ "[]"])
  next
    case False
    let ?p = "mem_read (data_bytes s) (payload_off (cnt s) ?i (unat ?sz)) (unat ?sz)"
    have i: "?i < cnt s"
      by (rule mod_less_divisor) (use assms(1) in \<open>simp add: geometry_ok_def\<close>)
    from less.prems(1) have ok: "?cb \<noteq> 0" "\<not> ?cb > remaining" "fits (cnt s) ?i (unat ?sz)"
      "unat ?cb = need (cnt s) ?i (unat ?sz)"
      and rec: "recover_walk (data_bytes s) (aligned_blocks_count s) (cursor + ?cb) (remaining - ?cb) = Some e"
      unfolding recover_walk_step [OF assms(1) False] by (auto split: if_splits)
    have cr: "unat ?cb \<le> unat remaining" and sub: "unat (remaining - ?cb) = unat remaining - unat ?cb"
      using ok(2) by (auto simp: unat_sub word_le_nat_alt word_less_nat_alt)
    have "0 < unat ?cb" using ok(1) by (simp add: unat_gt_0)
    then have "unat (remaining - ?cb) < unat remaining" using cr sub by simp
    then have "e = cursor + ?cb + (remaining - ?cb)
      \<and> (\<exists>xs. chunks_at (data_bytes s) (cnt s) (unat (cursor + ?cb) mod cnt s) xs
        \<and> span (cnt s) (unat (cursor + ?cb) mod cnt s) xs = unat (remaining - ?cb))"
      using rec less.prems(2) sub by (intro less.hyps) auto
    then obtain xs where e: "e = cursor + remaining"
      and xs: "chunks_at (data_bytes s) (cnt s) (unat (cursor + ?cb) mod cnt s) xs"
        "span (cnt s) (unat (cursor + ?cb) mod cnt s) xs = unat remaining - unat ?cb"
      using sub by auto
    have idx: "unat (cursor + ?cb) mod cnt s = (?i + unat ?cb) mod cnt s"
      using cursor_advance [OF assms(1), of "unat ?cb" cursor] cr less.prems(2) by simp
    have lp: "length ?p = unat ?sz"
      using payload_in_range [OF i ok(3)] assms(1) by (simp add: geometry_ok_def)
    then have "chunk_at (data_bytes s) (cnt s) ?i ?p"
      using ok(3,4) u32_less [of ?sz] by (simp add: chunk_at_def flip: ok(4))
    then show ?thesis using e xs idx lp ok(4) cr
      by (intro conjI exI [of _ "?p # xs"]) simp_all
  qed
qed

lemma recover_walk_complete:
  assumes g: "geometry_ok s" and "chunks_at (data_bytes s) (cnt s) (unat cursor mod cnt s) xs"
    and "span (cnt s) (unat cursor mod cnt s) xs = unat remaining" and "unat remaining \<le> cnt s"
  shows "recover_walk (data_bytes s) (aligned_blocks_count s) cursor remaining = Some (cursor + remaining)"
  using assms(2-4)
proof (induction xs arbitrary: cursor remaining)
  case Nil
  then have "remaining = 0" by (simp add: unat_eq_zero)
  then show ?case by (simp add: recover_walk.simps [of _ _ cursor 0])
next
  case (Cons p xs)
  let ?i = "unat cursor mod cnt s" and ?k = "need (cnt s) (unat cursor mod cnt s) (length p)"
  have i: "?i < cnt s" by (rule mod_less_divisor) (use g in \<open>simp add: geometry_ok_def\<close>)
  have kr: "?k \<le> unat remaining" and kp: "0 < ?k" using Cons.prems(2) need_pos [OF i] by auto
  then have uk: "unat (of_nat ?k :: u32) = ?k" and r: "remaining \<noteq> 0"
    using Cons.prems(3) u32_less [of "aligned_blocks_count s"] by (auto simp: unat_of_nat)
  have sub: "unat (remaining - of_nat ?k) = unat remaining - ?k"
    using kr uk by (simp add: unat_sub word_le_nat_alt)
  have idx: "unat (cursor + of_nat ?k) mod cnt s = (?i + ?k) mod cnt s"
    using cursor_advance [OF g, of ?k cursor] kr Cons.prems(3) by simp
  have ch: "chunk_at (data_bytes s) (cnt s) ?i p" using Cons.prems(1) by simp
  have ul: "unat (of_nat (length p) :: u32) = length p" using ch by (simp add: chunk_at_def unat_of_nat)
  have "recover_walk (data_bytes s) (aligned_blocks_count s) (cursor + of_nat ?k) (remaining - of_nat ?k)
      = Some (cursor + of_nat ?k + (remaining - of_nat ?k))"
    using Cons.prems idx sub by (intro Cons.IH) auto
  moreover have "of_nat ?k \<noteq> (0 :: u32)" using kp uk by auto
  moreover have "\<not> of_nat ?k > remaining" using kr uk by (simp add: word_less_nat_alt)
  ultimately show ?case
    unfolding recover_walk_step [OF g r] using ch uk ul by (simp add: chunk_at_def)
qed

text \<open>
  The bytes a running ring leaves in its memory map: the head with the offsets its static
  assertions fix (the padding is never read), then the blocks.
\<close>

definition siso_storage :: "siso_ring_buffer \<Rightarrow> bytes" where
  "siso_storage s =
     le_bytes 4 (aligned_blocks_count_cache (head s)) @ le_bytes 4 (rtr s) @ le_bytes 4 (rtw s)
     @ replicate 116 0 @ le_bytes 4 (wtr s) @ le_bytes 4 (wt_writing_cursor_cache (head s))
     @ replicate 120 0 @ le_bytes 4 (rc s) @ replicate 124 0 @ le_bytes 4 (wc s) @ replicate 124 0
     @ data_bytes s"

lemma siso_storage_fields:
  "length (siso_storage s) = head_size + length (data_bytes s)"
  "drop head_size (siso_storage s) = data_bytes s"
  "load_u32 (siso_storage s) 0 = aligned_blocks_count_cache (head s)"
  "load_u32 (siso_storage s) 4 = rtr s"
  "load_u32 (siso_storage s) 132 = wt_writing_cursor_cache (head s)"
  by (simp_all add: siso_storage_def load_u32_def mem_read_def le_word_bytes)

lemma recover_sound:
  assumes ok: "storage_ok st" and rec: "try_recover_from_exist_memory_map st = Some s"
  shows "\<exists>ps. siso_inv s ps [] \<and> cnt s = blocks_in (length st)"
proof -
  let ?n = "of_nat (blocks_in (length st)) :: u32"
  let ?r = "load_u32 st 4" and ?w = "load_u32 st 132"
  have s: "s = \<lparr>head = \<lparr>aligned_blocks_count_cache = ?n, rt_reading_cursor_cache = ?r,
      rt_writing_cursor_cache = ?w, wt_reading_cursor_cache = ?r, wt_writing_cursor_cache = ?w,
      reading_cursor = ?r, writing_cursor = ?w\<rparr>, aligned_blocks_count = ?n,
      is_memory_recovery = True, mmap_buffer_state = recover_from_memory_map,
      data_bytes = drop head_size st\<rparr>"
    and le: "\<not> ?w - ?r > ?n" and walk: "recover_walk (drop head_size st) ?n ?r (?w - ?r) = Some ?w"
    using rec by (auto simp: try_recover_from_exist_memory_map_def Let_def split: if_splits option.splits)
  have g: "geometry_ok s" "cnt s = blocks_in (length st)"
    using storage_geometry [OF ok, of s] by (simp_all add: s)
  have rem: "unat (?w - ?r) \<le> cnt s" using le by (simp add: s word_less_nat_alt)
  have "recover_walk (data_bytes s) (aligned_blocks_count s) ?r (?w - ?r) = Some ?w"
    using walk by (simp add: s)
  from recover_walk_sound [OF g(1) this rem] obtain xs where
    "chunks_at (data_bytes s) (cnt s) (unat ?r mod cnt s) xs"
    "span (cnt s) (unat ?r mod cnt s) xs = unat (?w - ?r)" by blast
  moreover have "ridx s = unat ?r mod cnt s" by (simp add: ridx_def s)
  moreover have "rtr s = ?r" "rtw s = ?w" "wc s = ?w" "wtr s = ?r" "rc s = ?r"
    "wt_writing_cursor_cache (head s) = ?w" by (simp_all add: s)
  ultimately have "siso_inv s xs []" using g rem by (simp add: siso_inv_def)
  with g(2) show ?thesis by blast
qed

lemma recover_complete:
  assumes inv: "siso_inv s ps qs" and ok: "storage_ok (siso_storage s)"
    and n: "blocks_in (length (siso_storage s)) = cnt s"
  shows "\<exists>s'. try_recover_from_exist_memory_map (siso_storage s) = Some s' \<and> siso_inv s' (ps @ qs) []
    \<and> mmap_buffer_state s' = recover_from_memory_map"
proof -
  note d = siso_invD [OF inv] and f = siso_storage_fields [of s]
  have cc: "aligned_blocks_count_cache (head s) = aligned_blocks_count s"
    using d(1) by (simp add: geometry_ok_def)
  have nn: "(of_nat (blocks_in (length (siso_storage s))) :: u32) = aligned_blocks_count s"
    using n by simp
  have rem: "unat (wc s - rtr s) \<le> cnt s" using d(6) by simp
  have "recover_walk (data_bytes s) (aligned_blocks_count s) (rtr s) (wc s - rtr s)
      = Some (rtr s + (wc s - rtr s))"
    by (rule recover_walk_complete) (use d rem in \<open>simp_all add: ridx_def\<close>)
  then have walk: "recover_walk (data_bytes s) (aligned_blocks_count s) (rtr s) (wc s - rtr s) = Some (wc s)"
    by simp
  have nl: "\<not> wc s - rtr s > aligned_blocks_count s" using rem by (simp add: word_less_nat_alt)
  obtain s' where s': "try_recover_from_exist_memory_map (siso_storage s) = Some s'"
    and eq: "head s' = \<lparr>aligned_blocks_count_cache = aligned_blocks_count s,
      rt_reading_cursor_cache = rtr s, rt_writing_cursor_cache = wc s,
      wt_reading_cursor_cache = rtr s, wt_writing_cursor_cache = wc s,
      reading_cursor = rtr s, writing_cursor = wc s\<rparr>" "aligned_blocks_count s' = aligned_blocks_count s"
      "data_bytes s' = data_bytes s" "mmap_buffer_state s' = recover_from_memory_map"
    using nl walk by (simp add: try_recover_from_exist_memory_map_def Let_def f(2-5) nn cc d(2))
  have "siso_inv s' (ps @ qs) []"
    using d rem by (simp add: siso_inv_def geometry_ok_def eq ridx_def)
  with s' eq show ?thesis by blast
qed

end
