(* ===== verification/Qlog_Queue_Spec.thy ===== *)
theory Qlog_Queue_Spec
  imports Qlog_Prelude
begin

text \<open>
  The contract a log ring keeps with its producers and its consumer: a bounded first-in first-out
  queue of byte strings. A push may be refused, a pop may find nothing; an accepted payload is
  delivered exactly once, unchanged and in order.
\<close>

datatype queue_op = Push bytes | Pop

text \<open>A run of the operations: the accepted payloads, the delivered ones, the final state.\<close>

fun queue_run ::
  "(bytes \<Rightarrow> 's \<Rightarrow> 's option) \<Rightarrow> ('s \<Rightarrow> (bytes \<times> 's) option) \<Rightarrow> queue_op list \<Rightarrow> 's
    \<Rightarrow> bytes list \<times> bytes list \<times> 's" where
  "queue_run push pop [] s = ([], [], s)"
| "queue_run push pop (Push p # ops) s =
    (case push p s of
       None \<Rightarrow> queue_run push pop ops s
     | Some s' \<Rightarrow> (case queue_run push pop ops s' of (i, out, t) \<Rightarrow> (p # i, out, t)))"
| "queue_run push pop (Pop # ops) s =
    (case pop s of
       None \<Rightarrow> queue_run push pop ops s
     | Some (p, s') \<Rightarrow> (case queue_run push pop ops s' of (i, out, t) \<Rightarrow> (i, p # out, t)))"

locale byte_queue =
  fixes invar :: "'s \<Rightarrow> bool"
    and contents :: "'s \<Rightarrow> bytes list"
    and push :: "bytes \<Rightarrow> 's \<Rightarrow> 's option"
    and pop :: "'s \<Rightarrow> (bytes \<times> 's) option"
  assumes push_invar: "invar s \<Longrightarrow> push p s = Some s' \<Longrightarrow> invar s'"
    and push_contents: "invar s \<Longrightarrow> push p s = Some s' \<Longrightarrow> contents s' = contents s @ [p]"
    and pop_invar: "invar s \<Longrightarrow> pop s = Some (p, s') \<Longrightarrow> invar s'"
    and pop_contents: "invar s \<Longrightarrow> pop s = Some (p, s') \<Longrightarrow> contents s = p # contents s'"
    and pop_None: "invar s \<Longrightarrow> pop s = None \<longleftrightarrow> contents s = []"
begin

lemma run_fifo:
  assumes "invar s" and "queue_run push pop ops s = (i, out, t)"
  shows "invar t \<and> contents s @ i = out @ contents t"
  using assms
proof (induction ops arbitrary: s i out)
  case Nil
  then show ?case by auto
next
  case (Cons x ops)
  show ?case
  proof (cases x)
    case (Push p)
    show ?thesis
    proof (cases "push p s")
      case None
      with Push Cons.prems Cons.IH [of s i out] show ?thesis by simp
    next
      case (Some s')
      note law = push_invar [OF Cons.prems(1) Some] push_contents [OF Cons.prems(1) Some]
      obtain i' where "queue_run push pop ops s' = (i', out, t)" "i = p # i'"
        using Cons.prems(2) Push Some by (auto split: prod.splits)
      with Cons.IH [of s' i' out] law show ?thesis by simp
    qed
  next
    case Pop
    show ?thesis
    proof (cases "pop s")
      case None
      with Pop Cons.prems Cons.IH [of s i out] show ?thesis by simp
    next
      case (Some q)
      obtain p s' where q: "pop s = Some (p, s')" using Some by (cases q) simp
      note law = pop_invar [OF Cons.prems(1) q] pop_contents [OF Cons.prems(1) q]
      obtain out' where "queue_run push pop ops s' = (i, out', t)" "out = p # out'"
        using Cons.prems(2) Pop q by (auto split: prod.splits)
      with Cons.IH [of s' i out'] law show ?thesis by simp
    qed
  qed
qed

text \<open>As many pops as there are payloads empty the queue and deliver all of them.\<close>

lemma run_drain:
  "invar s \<Longrightarrow> \<exists>t. queue_run push pop (replicate (length (contents s)) Pop) s = ([], contents s, t)
     \<and> invar t \<and> contents t = []"
proof (induction "length (contents s)" arbitrary: s)
  case 0
  then show ?case by simp
next
  case (Suc n)
  then obtain p t where "pop s = Some (p, t)" using pop_None [of s] by fastforce
  then have t: "pop s = Some (p, t)" "invar t" "contents s = p # contents t"
    using Suc.prems pop_invar pop_contents by blast+
  then obtain u where "queue_run push pop (replicate (length (contents t)) Pop) t = ([], contents t, u)"
      "invar u" "contents u = []"
    using Suc.hyps by force
  with t show ?case by auto
qed

end

text \<open>
  The same contract for a ring whose operations also change its state when they refuse: a rejected
  push may leave a skipped chunk behind, an empty pop may return blocks to the producers.
\<close>

fun queue_run_st ::
  "(bytes \<Rightarrow> 's \<Rightarrow> bool \<times> 's) \<Rightarrow> ('s \<Rightarrow> bytes option \<times> 's) \<Rightarrow> queue_op list \<Rightarrow> 's
    \<Rightarrow> bytes list \<times> bytes list \<times> 's" where
  "queue_run_st push pop [] s = ([], [], s)"
| "queue_run_st push pop (Push p # ops) s =
    (case push p s of (accepted, s') \<Rightarrow>
       case queue_run_st push pop ops s' of (i, out, t) \<Rightarrow> (if accepted then p # i else i, out, t))"
| "queue_run_st push pop (Pop # ops) s =
    (case pop s of (r, s') \<Rightarrow>
       case queue_run_st push pop ops s' of (i, out, t) \<Rightarrow> (i, case r of None \<Rightarrow> out | Some p \<Rightarrow> p # out, t))"

locale byte_queue_st =
  fixes invar :: "'s \<Rightarrow> bool"
    and contents :: "'s \<Rightarrow> bytes list"
    and push :: "bytes \<Rightarrow> 's \<Rightarrow> bool \<times> 's"
    and pop :: "'s \<Rightarrow> bytes option \<times> 's"
  assumes push_law: "invar s \<Longrightarrow> push p s = (accepted, s')
      \<Longrightarrow> invar s' \<and> contents s' = (if accepted then contents s @ [p] else contents s)"
    and pop_law: "invar s \<Longrightarrow> pop s = (r, s')
      \<Longrightarrow> invar s' \<and> (case r of None \<Rightarrow> contents s = [] \<and> contents s' = [] | Some p \<Rightarrow> contents s = p # contents s')"
begin

lemma run_st_fifo:
  assumes "invar s" and "queue_run_st push pop ops s = (i, out, t)"
  shows "invar t \<and> contents s @ i = out @ contents t"
  using assms
proof (induction ops arbitrary: s i out)
  case Nil
  then show ?case by auto
next
  case (Cons x ops)
  show ?case
  proof (cases x)
    case (Push p)
    obtain a s' i' where q: "push p s = (a, s')" "queue_run_st push pop ops s' = (i', out, t)"
      "i = (if a then p # i' else i')"
      using Cons.prems(2) Push by (auto split: prod.splits)
    from push_law [OF Cons.prems(1) q(1)] Cons.IH [OF _ q(2)] q(3) show ?thesis by auto
  next
    case Pop
    obtain r s' out' where q: "pop s = (r, s')" "queue_run_st push pop ops s' = (i, out', t)"
      "out = (case r of None \<Rightarrow> out' | Some p \<Rightarrow> p # out')"
      using Cons.prems(2) Pop by (auto split: prod.splits)
    from pop_law [OF Cons.prems(1) q(1)] Cons.IH [OF _ q(2)] q(3) show ?thesis by (auto split: option.splits)
  qed
qed

lemma run_st_drain:
  "invar s \<Longrightarrow> length (contents s) \<le> n
    \<Longrightarrow> \<exists>t. queue_run_st push pop (replicate n Pop) s = ([], contents s, t) \<and> invar t \<and> contents t = []"
proof (induction n arbitrary: s)
  case (Suc n)
  obtain r s' where r: "pop s = (r, s')" by force
  note law = pop_law [OF Suc.prems(1) r]
  then have "length (contents s') \<le> n" using Suc.prems(2) by (auto split: option.splits)
  with Suc.IH [of s'] law r show ?case by (auto split: option.splits)
qed simp

end

text \<open>A queue whose refusals leave the state alone also satisfies this contract.\<close>

sublocale byte_queue \<subseteq> stateful: byte_queue_st invar contents
  "\<lambda>p s. case push p s of None \<Rightarrow> (False, s) | Some s' \<Rightarrow> (True, s')"
  "\<lambda>s. case pop s of None \<Rightarrow> (None, s) | Some (p, s') \<Rightarrow> (Some p, s')"
proof
  fix s s' :: 's and p and accepted
  assume "invar s" "(case push p s of None \<Rightarrow> (False, s) | Some s' \<Rightarrow> (True, s')) = (accepted, s')"
  then show "invar s' \<and> contents s' = (if accepted then contents s @ [p] else contents s)"
    using push_invar push_contents by (auto split: option.splits)
next
  fix s s' :: 's and r
  assume "invar s" "(case pop s of None \<Rightarrow> (None, s) | Some (p, s') \<Rightarrow> (Some p, s')) = (r, s')"
  then show "invar s' \<and> (case r of None \<Rightarrow> contents s = [] \<and> contents s' = [] | Some p \<Rightarrow> contents s = p # contents s')"
    using pop_invar pop_contents pop_None [of s] by (auto split: option.splits)
qed

end
