(* ===== verification/Qlog_Siso_Queue.thy ===== *)
theory Qlog_Siso_Queue
  imports Qlog_Siso_Recovery Qlog_Queue_Spec
begin

text \<open>
  The single-producer ring as a queue: the composite push and pop of its two clients, their
  refinement of the queue contract, the interleaving of the two threads, and the properties of the
  component.
\<close>

section \<open>Push and pop\<close>

text \<open>
  A producer allocates, copies its payload to the handle's address and commits; sizes are 32-bit.
  A consumer reads a chunk, copies it out and returns it.
\<close>

definition siso_push :: "bytes \<Rightarrow> siso_ring_buffer \<Rightarrow> siso_ring_buffer option" where
  "siso_push p s =
    (if length p < 2 ^ 32 then
       let (h, s1) = alloc_write_chunk (reading_cursor (head s)) (reading_cursor (head s)) s
                       (of_nat (length p))
       in if wh_result h = success then Some (commit_write_chunk (fill_payload s1 h p) h) else None
     else None)"

definition siso_pop :: "siso_ring_buffer \<Rightarrow> (bytes \<times> siso_ring_buffer) option" where
  "siso_pop s =
    (let (h, s1) = read_chunk (writing_cursor (head s)) s
     in if rh_result h = success
        then Some (case rh_data_addr h of None \<Rightarrow> []
                   | Some a \<Rightarrow> mem_read (data_bytes s1) a (unat (rh_data_size h)), return_read_chunk s1 h)
        else None)"

definition siso_invar :: "siso_ring_buffer \<Rightarrow> bool" where
  "siso_invar s \<longleftrightarrow> (\<exists>ps qs. siso_inv s ps qs)"

lemma push_chunk:
  assumes inv: "siso_inv s ps qs" and lp: "length p < 2 ^ 32"
    and w: "between (wtr s) ld1 (rc s)" "between ld1 ld2 (rc s)"
    and al: "alloc_write_chunk ld1 ld2 s (of_nat (length p)) = (h, s1)" and ok: "wh_result h = success"
  shows "siso_inv (commit_write_chunk (fill_payload s1 h p) h) ps (qs @ [p])"
proof -
  have ul: "unat (of_nat (length p) :: u32) = length p" using lp by (simp add: unat_of_nat)
  have s1: "siso_inv s1 ps qs" "allocated s1 (length p)"
    "wh_data_addr h = Some (payload_off (cnt s) (widx s) (length p))" "\<exists>x. s1 = set_wtr (store_head s (of_nat (length p))) x"
    using alloc_cases [OF inv w al] ok ul by auto
  then have same: "cnt s1 = cnt s" "widx s1 = widx s" by (auto simp: widx_def)
  note f = fill_payload_inv [OF s1(1,2), of h]
  have "siso_inv (fill_payload s1 h p) ps qs" "allocated (fill_payload s1 h p) (length p)"
    "chunk_at (data_bytes (fill_payload s1 h p)) (cnt (fill_payload s1 h p)) (widx (fill_payload s1 h p)) p"
    using f s1(3) same by (simp_all add: widx_def)
  then show ?thesis using ok by (intro commit_inv) auto
qed

lemma siso_push_inv:
  assumes "siso_inv s ps qs" and "siso_push p s = Some s'"
  shows "siso_inv s' ps (qs @ [p])"
  using assms push_chunk [OF assms(1), of p "rc s" "rc s"]
  by (auto simp: siso_push_def split: if_splits prod.splits)

lemma siso_pop_inv:
  assumes inv: "siso_inv s ps qs"
  shows "case siso_pop s of None \<Rightarrow> ps @ qs = []
    | Some (p, s') \<Rightarrow> \<exists>ps' qs'. ps @ qs = p # ps' @ qs' \<and> siso_inv s' ps' qs'"
proof -
  obtain h s1 where rd: "read_chunk (wc s) s = (h, s1)" by force
  from read_chunk_cases [OF inv rd] show ?thesis
    using rd by (auto simp: siso_pop_def Let_def first_payload) (blast dest: return_inv)
qed

interpretation siso_queue: byte_queue siso_invar siso_contents siso_push siso_pop
proof unfold_locales
  fix s s' p assume i: "siso_invar s" and p: "siso_push p s = Some s'"
  then obtain ps qs where inv: "siso_inv s ps qs" by (auto simp: siso_invar_def)
  note inv' = siso_push_inv [OF inv p]
  show "siso_invar s'" using inv' by (auto simp: siso_invar_def)
  show "siso_contents s' = siso_contents s @ [p]"
    using siso_contents_inv [OF inv] siso_contents_inv [OF inv'] by simp
next
  fix s s' p assume i: "siso_invar s" and p: "siso_pop s = Some (p, s')"
  then obtain ps qs where inv: "siso_inv s ps qs" by (auto simp: siso_invar_def)
  then obtain ps' qs' where inv': "ps @ qs = p # ps' @ qs'" "siso_inv s' ps' qs'"
    using siso_pop_inv [OF inv] p by auto
  show "siso_invar s'" using inv' by (auto simp: siso_invar_def)
  show "siso_contents s = p # siso_contents s'"
    using siso_contents_inv [OF inv] siso_contents_inv [OF inv'(2)] inv'(1) by simp
next
  fix s assume "siso_invar s"
  then obtain ps qs where inv: "siso_inv s ps qs" by (auto simp: siso_invar_def)
  show "siso_pop s = None \<longleftrightarrow> siso_contents s = []"
    using siso_pop_inv [OF inv] siso_contents_inv [OF inv] by (auto split: option.splits)
qed

section \<open>The two threads\<close>

text \<open>
  The system of one writing and one reading thread. Either thread may move at any time; between its
  allocation and its commit the writer holds a handle and the payload it is about to copy, between
  reading and returning a chunk the reader holds a handle. The cursors the threads load from each
  other may be stale, as long as they are not older than what the same thread loaded before: the
  writer loads any value between the cursor it cached and the one the reader published last, the
  reader any value the writer stored since the reader's last load; \<open>loadable\<close> lists those values,
  oldest first. \<open>written\<close> and \<open>consumed\<close> record the committed payloads and the ones handed to the
  consumer.
\<close>

record siso_sys =
  ring :: siso_ring_buffer
  wpend :: "(log_buffer_write_handle \<times> bytes) option"
  rpend :: "log_buffer_read_handle option"
  loadable :: "u32 list"
  written :: "bytes list"
  consumed :: "bytes list"

definition handle_payload :: "siso_ring_buffer \<Rightarrow> log_buffer_read_handle \<Rightarrow> bytes" where
  "handle_payload s h = (case rh_data_addr h of None \<Rightarrow> []
     | Some a \<Rightarrow> mem_read (data_bytes s) a (unat (rh_data_size h)))"

inductive siso_step :: "siso_sys \<Rightarrow> siso_sys \<Rightarrow> bool" where
  w_alloc: "wpend \<sigma> = None \<Longrightarrow> length p < 2 ^ 32
    \<Longrightarrow> between (wt_reading_cursor_cache (head (ring \<sigma>))) ld1 (reading_cursor (head (ring \<sigma>)))
    \<Longrightarrow> between ld1 ld2 (reading_cursor (head (ring \<sigma>)))
    \<Longrightarrow> alloc_write_chunk ld1 ld2 (ring \<sigma>) (of_nat (length p)) = (h, r)
    \<Longrightarrow> siso_step \<sigma> (\<sigma>\<lparr>ring := r, wpend := (if wh_result h = success then Some (h, p) else None)\<rparr>)"
| w_commit: "wpend \<sigma> = Some (h, p) \<Longrightarrow> r = commit_write_chunk (fill_payload (ring \<sigma>) h p) h
    \<Longrightarrow> siso_step \<sigma> (\<sigma>\<lparr>ring := r, wpend := None, loadable := loadable \<sigma> @ [writing_cursor (head r)],
          written := written \<sigma> @ [p]\<rparr>)"
| r_read: "rpend \<sigma> = None \<Longrightarrow> i < length (loadable \<sigma>) \<Longrightarrow> read_chunk (loadable \<sigma> ! i) (ring \<sigma>) = (h, r)
    \<Longrightarrow> siso_step \<sigma> (\<sigma>\<lparr>ring := r, rpend := (if rh_result h = success then Some h else None),
          loadable := (if rt_writing_cursor_cache (head (ring \<sigma>)) = rt_reading_cursor_cache (head (ring \<sigma>))
                       then drop i (loadable \<sigma>) else loadable \<sigma>)\<rparr>)"
| r_return: "rpend \<sigma> = Some h
    \<Longrightarrow> siso_step \<sigma> (\<sigma>\<lparr>ring := return_read_chunk (ring \<sigma>) h, rpend := None,
          consumed := consumed \<sigma> @ [handle_payload (ring \<sigma>) h]\<rparr>)"

inductive siso_reach :: "siso_ring_buffer \<Rightarrow> siso_sys \<Rightarrow> bool" for s0 where
  start: "siso_reach s0 \<lparr>ring = s0, wpend = None, rpend = None, loadable = [writing_cursor (head s0)],
    written = [], consumed = []\<rparr>"
| step: "siso_reach s0 \<sigma> \<Longrightarrow> siso_step \<sigma> \<tau> \<Longrightarrow> siso_reach s0 \<tau>"

inductive_cases siso_stepE [elim!]: "siso_step \<sigma> \<tau>"

definition wpend_ok :: "siso_sys \<Rightarrow> bool" where
  "wpend_ok \<sigma> \<longleftrightarrow> (\<forall>h p. wpend \<sigma> = Some (h, p) \<longrightarrow> wh_result h = success
     \<and> allocated (ring \<sigma>) (length p)
     \<and> wh_data_addr h = Some (payload_off (cnt (ring \<sigma>)) (widx (ring \<sigma>)) (length p)))"

definition rpend_ok :: "siso_sys \<Rightarrow> bytes list \<Rightarrow> bool" where
  "rpend_ok \<sigma> ps \<longleftrightarrow> (\<forall>h. rpend \<sigma> = Some h \<longrightarrow> rh_result h = success \<and> ps \<noteq> []
     \<and> unat (rh_data_size h) = length (hd ps)
     \<and> rh_data_addr h = Some (payload_off (cnt (ring \<sigma>)) (ridx (ring \<sigma>)) (length (hd ps))))"

text \<open>The values the reader may load lie at the chunk boundaries behind the chunks it has seen.\<close>

definition loadable_ok :: "siso_sys \<Rightarrow> bytes list \<Rightarrow> bytes list \<Rightarrow> bool" where
  "loadable_ok \<sigma> ps qs \<longleftrightarrow> length (loadable \<sigma>) = Suc (length qs)
     \<and> (\<forall>i \<le> length qs. loadable \<sigma> ! i
          = rtr (ring \<sigma>) + of_nat (span (cnt (ring \<sigma>)) (ridx (ring \<sigma>)) (ps @ take i qs)))"

definition sys_inv :: "siso_sys \<Rightarrow> bool" where
  "sys_inv \<sigma> \<longleftrightarrow> (\<exists>ps qs. siso_inv (ring \<sigma>) ps qs \<and> written \<sigma> = consumed \<sigma> @ ps @ qs
     \<and> wpend_ok \<sigma> \<and> rpend_ok \<sigma> ps \<and> loadable_ok \<sigma> ps qs)"

lemma sys_invI:
  "siso_inv (ring \<sigma>) ps qs \<Longrightarrow> written \<sigma> = consumed \<sigma> @ ps @ qs \<Longrightarrow> wpend_ok \<sigma> \<Longrightarrow> rpend_ok \<sigma> ps
    \<Longrightarrow> loadable_ok \<sigma> ps qs \<Longrightarrow> sys_inv \<sigma>"
  by (auto simp: sys_inv_def)

text \<open>The writer's steps do not move the reader's cursor, the reader's steps do not touch what the writer uses.\<close>

lemma writer_frame:
  "ridx (set_wtr (store_head s sz) x) = ridx s" "cnt (commit_write_chunk s h) = cnt s"
  "ridx (commit_write_chunk s h) = ridx s" "ridx (fill_payload s h p) = ridx s"
  "cnt (fill_payload s h p) = cnt s" "ridx (set_wtr s x) = ridx s" "rtr (commit_write_chunk s h) = rtr s"
  "rtr (fill_payload s h p) = rtr s" "rtr (set_wtr (store_head s sz) x) = rtr s"
  by (simp_all add: ridx_def commit_write_chunk_def Let_def fill_payload_def split: option.splits)

lemma reader_frame:
  "allocated (s\<lparr>head := (head s)\<lparr>rt_writing_cursor_cache := x\<rparr>\<rparr>) k = allocated s k"
  "allocated (return_read_chunk s h) k = allocated s k"
  "widx (s\<lparr>head := (head s)\<lparr>rt_writing_cursor_cache := x\<rparr>\<rparr>) = widx s"
  "widx (return_read_chunk s h) = widx s" "cnt (return_read_chunk s h) = cnt s"
  by (simp_all add: allocated_def widx_def return_read_chunk_def Let_def)

lemma step_alloc_inv:
  assumes inv: "sys_inv \<sigma>" and idle: "wpend \<sigma> = None" and lp: "length p < 2 ^ 32"
    and w: "between (wtr (ring \<sigma>)) ld1 (rc (ring \<sigma>))" "between ld1 ld2 (rc (ring \<sigma>))"
    and al: "alloc_write_chunk ld1 ld2 (ring \<sigma>) (of_nat (length p)) = (h, r)"
  shows "sys_inv (\<sigma>\<lparr>ring := r, wpend := (if wh_result h = success then Some (h, p) else None)\<rparr>)"
proof -
  obtain ps qs where i: "siso_inv (ring \<sigma>) ps qs" "written \<sigma> = consumed \<sigma> @ ps @ qs" "rpend_ok \<sigma> ps" "loadable_ok \<sigma> ps qs"
    using inv by (auto simp: sys_inv_def)
  have ul: "unat (of_nat (length p) :: u32) = length p" using lp by (simp add: unat_of_nat)
  from alloc_cases [OF i(1) w al] have r: "siso_inv r ps qs" "cnt r = cnt (ring \<sigma>)" "ridx r = ridx (ring \<sigma>)" "rtr r = rtr (ring \<sigma>)"
    "wh_result h = success \<longrightarrow> allocated r (length p)
       \<and> wh_data_addr h = Some (payload_off (cnt r) (widx r) (length p))"
    using i(1) ul by (auto simp: widx_def ridx_def)
  then show ?thesis using i(2-4)
    by (intro sys_invI [of _ ps qs]) (auto simp: wpend_ok_def rpend_ok_def loadable_ok_def)
qed

lemma step_commit_inv:
  assumes inv: "sys_inv \<sigma>" and pend: "wpend \<sigma> = Some (h, p)" and r: "r = commit_write_chunk (fill_payload (ring \<sigma>) h p) h"
  shows "sys_inv (\<sigma>\<lparr>ring := r, wpend := None, loadable := loadable \<sigma> @ [wc r], written := written \<sigma> @ [p]\<rparr>)"
proof -
  obtain ps qs where i: "siso_inv (ring \<sigma>) ps qs" "written \<sigma> = consumed \<sigma> @ ps @ qs" "rpend_ok \<sigma> ps" "loadable_ok \<sigma> ps qs"
    and w: "wh_result h = success" "allocated (ring \<sigma>) (length p)"
      "wh_data_addr h = Some (payload_off (cnt (ring \<sigma>)) (widx (ring \<sigma>)) (length p))"
    using inv pend by (auto simp: sys_inv_def wpend_ok_def)
  note f = fill_payload_inv [OF i(1) w(2,3)]
  have "widx (fill_payload (ring \<sigma>) h p) = widx (ring \<sigma>)" using f by (simp add: widx_def)
  then have ri: "siso_inv r ps (qs @ [p])" using f w(1) unfolding r by (intro commit_inv) simp_all
  have same: "cnt r = cnt (ring \<sigma>)" "ridx r = ridx (ring \<sigma>)" "rtr r = rtr (ring \<sigma>)" by (simp_all add: r writer_frame)
  have "wc r = rtr r + of_nat (span (cnt r) (ridx r) (ps @ qs @ [p]))" using siso_invD(5) [OF ri] by simp
  then have "loadable_ok (\<sigma>\<lparr>ring := r, wpend := None, loadable := loadable \<sigma> @ [wc r], written := x\<rparr>) ps (qs @ [p])" for x
    using i(4) by (auto simp: loadable_ok_def same nth_append le_Suc_eq)
  then show ?thesis using i(2,3) ri same
    by (intro sys_invI [of _ ps "qs @ [p]"]) (auto simp: wpend_ok_def rpend_ok_def)
qed

lemma step_read_inv:
  assumes inv: "sys_inv \<sigma>" and idle: "rpend \<sigma> = None" and j: "j < length (loadable \<sigma>)"
    and rd: "read_chunk (loadable \<sigma> ! j) (ring \<sigma>) = (h, r)"
  shows "sys_inv (\<sigma>\<lparr>ring := r, rpend := (if rh_result h = success then Some h else None),
    loadable := (if rtw (ring \<sigma>) = rtr (ring \<sigma>) then drop j (loadable \<sigma>) else loadable \<sigma>)\<rparr>)" (is "sys_inv ?t")
proof -
  obtain ps qs where i: "siso_inv (ring \<sigma>) ps qs" "written \<sigma> = consumed \<sigma> @ ps @ qs" "wpend_ok \<sigma>" "loadable_ok \<sigma> ps qs"
    using inv by (auto simp: sys_inv_def)
  let ?s = "ring \<sigma>" and ?a = "take j qs" and ?b = "drop j qs"
  have jq: "j \<le> length qs" using j i(4) by (simp add: loadable_ok_def)
  have ab: "siso_inv ?s ps (?a @ ?b)" using i(1) by simp
  have "loadable \<sigma> ! j = rtr ?s + of_nat (span (cnt ?s) (ridx ?s) ?a)" if "ps = []" using i(4) jq that by (simp add: loadable_ok_def)
  note rc = read_chunk_seen [OF ab rd this]
  have seen: "rtw ?s = rtr ?s \<longleftrightarrow> ps = []" by (rule inv_seen_iff [OF i(1)])
  have same: "cnt r = cnt ?s" "ridx r = ridx ?s" "rtr r = rtr ?s" using rc(1) by (auto simp: ridx_def)
  have w: "wpend_ok ?t" using i(3) read_chunk_frame [OF rd] by (auto simp: wpend_ok_def reader_frame)
  let ?ps = "if ps = [] then ?a else ps" and ?qs = "if ps = [] then ?b else ?a @ ?b"
  have "loadable_ok ?t ?ps ?qs" using i(4) jq by (auto simp: loadable_ok_def seen same take_add [symmetric])
  moreover have "rpend_ok ?t ?ps"
  proof (cases ?ps)
    case Nil
    then have "rh_result h = err_empty_log_buffer" using rc(3) by (auto split: if_splits)
    then show ?thesis by (simp add: rpend_ok_def)
  next
    case (Cons p ps')
    from rc(4) [OF _ this] Cons show ?thesis unfolding Cons by (simp add: rpend_ok_def)
  qed
  moreover have "?ps @ ?qs = ps @ qs" by simp
  ultimately show ?thesis using rc(2) i(2) w by (intro sys_invI [of ?t ?ps ?qs]) simp_all
qed

lemma step_return_inv:
  assumes inv: "sys_inv \<sigma>" and pend: "rpend \<sigma> = Some h"
  shows "sys_inv (\<sigma>\<lparr>ring := return_read_chunk (ring \<sigma>) h, rpend := None,
          consumed := consumed \<sigma> @ [handle_payload (ring \<sigma>) h]\<rparr>)"
proof -
  obtain p ps qs where i: "siso_inv (ring \<sigma>) (p # ps) qs" "written \<sigma> = consumed \<sigma> @ p # ps @ qs" "wpend_ok \<sigma>" "loadable_ok \<sigma> (p # ps) qs"
    and h: "rh_result h = success" "unat (rh_data_size h) = length p"
      "rh_data_addr h = Some (payload_off (cnt (ring \<sigma>)) (ridx (ring \<sigma>)) (length p))"
    using inv pend by (auto simp: sys_inv_def rpend_ok_def neq_Nil_conv)
  have "handle_payload (ring \<sigma>) h = p" using h first_payload [OF i(1)] by (simp add: handle_payload_def)
  moreover have "wpend_ok (\<sigma>\<lparr>ring := return_read_chunk (ring \<sigma>) h, rpend := None, consumed := x\<rparr>)" for x
    using i(3) by (auto simp: wpend_ok_def reader_frame)
  moreover have "loadable_ok (\<sigma>\<lparr>ring := return_read_chunk (ring \<sigma>) h, rpend := None, consumed := x\<rparr>) ps qs" for x
    using i(4) by (simp add: loadable_ok_def return_moves [OF i(1) h(1)] reader_frame)
  ultimately show ?thesis using return_inv [OF i(1) h(1)] i(2)
    by (intro sys_invI [of _ ps qs]) (auto simp: rpend_ok_def)
qed

lemma siso_reach_inv:
  assumes "siso_inv s0 [] []" and "siso_reach s0 \<sigma>"
  shows "sys_inv \<sigma>"
  using assms(2)
proof (induction rule: siso_reach.induct)
  case start
  show ?case using assms(1) siso_invD(5) [OF assms(1)]
    by (intro sys_invI [of _ "[]" "[]"]) (auto simp: wpend_ok_def rpend_ok_def loadable_ok_def unat_eq_zero)
next
  case (step \<sigma> \<tau>)
  then show ?case
    by (auto intro: step_alloc_inv step_commit_inv step_read_inv step_return_inv)
qed

section \<open>Properties\<close>

text \<open>A small ring for the witnesses: four blocks behind a zeroed head, and a three-byte payload.\<close>

definition demo_ring :: siso_ring_buffer where
  "demo_ring = siso_init_with_memory (replicate 544 0) False"

lemma demo_storage_ok: "storage_ok (replicate 544 0)"
  by (simp add: storage_ok_def blocks_in_def grow_count.simps)

lemma demo_inv: "siso_inv demo_ring [] []"
  unfolding demo_ring_def by (rule init_with_memory_inv(1) [OF demo_storage_ok])


text \<open>
  Property C1. Two threads, one writing and one reading, in any interleaving, where each may load any
  older value of the other side's cursor that it has not gone past yet: what was committed is what was consumed followed by what a traversal of the ring still
  shows. Nothing is lost, duplicated, reordered or torn.
\<close>

theorem siso_threads_fifo:
  assumes "storage_ok st" and "siso_reach (siso_init_with_memory st r) \<sigma>"
  shows "written \<sigma> = consumed \<sigma> @ siso_contents (ring \<sigma>)"
  using siso_reach_inv [OF init_with_memory_inv(1) [OF assms(1)] assms(2)]
  by (auto simp: sys_inv_def siso_contents_inv)

text \<open>
  The witness runs the writer and then the reader over one payload; the reader first loads the
  cursor from before the commit and sees nothing.
\<close>

definition demo_alloc :: siso_sys where
  "demo_alloc = \<lparr>ring = snd (alloc_write_chunk 0 0 demo_ring 3),
     wpend = Some (fst (alloc_write_chunk 0 0 demo_ring 3), [1, 2, 3]), rpend = None,
     loadable = [writing_cursor (head demo_ring)], written = [], consumed = []\<rparr>"

definition demo_written :: siso_ring_buffer where
  "demo_written = commit_write_chunk
       (fill_payload (ring demo_alloc) (fst (alloc_write_chunk 0 0 demo_ring 3)) [1, 2, 3])
       (fst (alloc_write_chunk 0 0 demo_ring 3))"

definition demo_commit :: siso_sys where
  "demo_commit = demo_alloc\<lparr>ring := demo_written, wpend := None,
     loadable := [writing_cursor (head demo_ring), writing_cursor (head demo_written)], written := [[1, 2, 3]]\<rparr>"

lemma demo_fields:
  "aligned_blocks_count demo_ring = 4" "wtr demo_ring = 0" "rc demo_ring = 0" "rtr demo_ring = 0"
  "wt_writing_cursor_cache (head demo_ring) = 0" "length (data_bytes demo_ring) = 32"
  by (simp_all add: demo_ring_def siso_init_with_memory_def init_cursors_def Let_def blocks_in_def
      grow_count.simps)

lemma demo_alloc_ok: "wh_result (fst (alloc_write_chunk 0 0 demo_ring 3)) = success"
  by (simp add: alloc_write_chunk_def Let_def demo_fields free_blocks_of_def normal_blocks_def)

lemma demo_reach: "siso_reach demo_ring demo_commit"
proof -
  let ?al = "alloc_write_chunk 0 0 demo_ring 3"
  let ?i = "\<lparr>ring = demo_ring, wpend = None, rpend = None, loadable = [wc demo_ring], written = [], consumed = []\<rparr>"
  have "siso_step ?i (?i\<lparr>ring := snd ?al, wpend := (if wh_result (fst ?al) = success
      then Some (fst ?al, [1, 2, 3]) else None)\<rparr>)"
    by (rule siso_step.w_alloc [where ?ld1.0 = 0 and ?ld2.0 = 0]) (simp_all add: demo_fields)
  then have 1: "siso_step ?i demo_alloc" using demo_alloc_ok by (simp add: demo_alloc_def)
  have "siso_step demo_alloc demo_commit"
    using siso_step.w_commit [of demo_alloc "fst ?al" "[1, 2, 3]" demo_written]
    by (simp add: demo_alloc_def demo_commit_def demo_written_def)
  with 1 show ?thesis by (meson siso_reach.intros)
qed

lemma demo_commit_ring:
  "siso_invar (ring demo_commit)" "siso_contents (ring demo_commit) = [[1, 2, 3]]"
  using siso_reach_inv [OF demo_inv demo_reach]
  by (auto simp: sys_inv_def siso_invar_def siso_contents_inv demo_commit_def demo_alloc_def)

lemma demo_commit_inv: "siso_inv (ring demo_commit) [] [[1, 2, 3]]"
proof -
  obtain ps qs where i: "siso_inv (ring demo_commit) ps qs" "ps @ qs = [[1, 2, 3]]" "loadable_ok demo_commit ps qs"
    using siso_reach_inv [OF demo_inv demo_reach] by (auto simp: sys_inv_def demo_commit_def demo_alloc_def)
  have "length qs = 1" using i(3) by (simp add: loadable_ok_def demo_commit_def demo_alloc_def)
  then have "ps = []" using i(2) by (cases ps) auto
  then show ?thesis using i(1,2) by simp
qed

lemma demo_stale_read: "siso_step demo_commit demo_commit"
proof -
  let ?s = "ring demo_commit"
  have eq: "loadable demo_commit ! 0 = rtw ?s" and seen: "rtw ?s = rtr ?s"
  proof -
    show "rtw ?s = rtr ?s" using inv_seen_iff [OF demo_commit_inv] by simp
    moreover obtain ps qs where "siso_inv ?s ps qs" "loadable_ok demo_commit ps qs"
      using siso_reach_inv [OF demo_inv demo_reach] by (auto simp: sys_inv_def)
    ultimately show "loadable demo_commit ! 0 = rtw ?s" using inv_seen_iff [of ?s ps qs] by (auto simp: loadable_ok_def)
  qed
  obtain h r where rd: "read_chunk (loadable demo_commit ! 0) ?s = (h, r)" by force
  have h: "rh_result h = err_empty_log_buffer" "r = ?s" using rd seen unfolding eq by (auto simp: read_chunk_def Let_def)
  have f: "rpend demo_commit = None" "0 < length (loadable demo_commit)" by (simp_all add: demo_commit_def demo_alloc_def)
  have "demo_commit\<lparr>ring := r, rpend := (if rh_result h = success then Some h else None),
      loadable := (if rtw ?s = rtr ?s then drop 0 (loadable demo_commit) else loadable demo_commit)\<rparr> = demo_commit"
    using h f(1) by simp
  then show ?thesis using siso_step.r_read [OF f rd] by argo
qed

lemma demo_consumes: "\<exists>\<sigma>. siso_reach demo_ring \<sigma> \<and> written \<sigma> = [[1, 2, 3]] \<and> length (consumed \<sigma>) = 1"
proof -
  let ?s = "ring demo_commit"
  obtain h r where rd: "read_chunk (loadable demo_commit ! 1) ?s = (h, r)" by force
  have w: "loadable demo_commit ! 1 = wc ?s" by (simp add: demo_commit_def demo_alloc_def)
  have ok: "rh_result h = success" using read_chunk_cases [OF demo_commit_inv rd [unfolded w]] by auto
  have f: "rpend demo_commit = None" "1 < length (loadable demo_commit)" by (simp_all add: demo_commit_def demo_alloc_def)
  obtain \<tau> where t: "siso_step demo_commit \<tau>" "rpend \<tau> = Some h" "written \<tau> = [[1, 2, 3]]" "consumed \<tau> = []"
    using siso_step.r_read [OF f rd] ok by (force simp: demo_commit_def demo_alloc_def)
  have "siso_reach demo_ring \<tau>" using demo_reach demo_stale_read t(1) by (meson siso_reach.step)
  from siso_reach.step [OF this siso_step.r_return [OF t(2)]] t(3,4) show ?thesis
    by (intro exI [of _ "\<tau>\<lparr>ring := return_read_chunk (ring \<tau>) h, rpend := None, consumed := consumed \<tau> @ [handle_payload (ring \<tau>) h]\<rparr>"]) simp
qed

theorem siso_threads_fifo_witness:
  "storage_ok (replicate 544 0) \<and> siso_step demo_commit demo_commit
    \<and> (\<exists>\<sigma>. siso_reach (siso_init_with_memory (replicate 544 0) False) \<sigma> \<and> written \<sigma> = [[1, 2, 3]]
          \<and> consumed \<sigma> = [[1, 2, 3]] \<and> siso_contents (ring \<sigma>) = [])"
proof -
  obtain \<sigma> where s: "siso_reach demo_ring \<sigma>" "written \<sigma> = [[1, 2, 3]]" "length (consumed \<sigma>) = 1" using demo_consumes by blast
  have "written \<sigma> = consumed \<sigma> @ siso_contents (ring \<sigma>)"
    by (rule siso_threads_fifo [OF demo_storage_ok s(1) [unfolded demo_ring_def]])
  then have "consumed \<sigma> = [[1, 2, 3]]" "siso_contents (ring \<sigma>) = []" using s(2,3) by (auto simp: length_Suc_conv)
  then show ?thesis using s demo_storage_ok demo_stale_read unfolding demo_ring_def by blast
qed



text \<open>
  Popping as often as there are unread payloads returns all of them and leaves the ring
  empty: the consumer always makes progress.
\<close>

theorem siso_queue_drains:
  assumes "siso_invar s"
  shows "\<exists>t. queue_run siso_push siso_pop (replicate (length (siso_contents s)) Pop) s
      = ([], siso_contents s, t) \<and> siso_contents t = []"
  using siso_queue.run_drain [OF assms] by blast

theorem siso_queue_drains_witness:
  "siso_contents (ring demo_commit) = [[1, 2, 3]]
   \<and> (\<exists>t. queue_run siso_push siso_pop [Pop] (ring demo_commit) = ([], [[1, 2, 3]], t) \<and> siso_contents t = [])"
  using siso_queue_drains [OF demo_commit_ring(1)] unfolding demo_commit_ring(2) by simp

text \<open>
  The complete behaviour of an allocation on a well-formed ring, with possibly stale
  loads of the reader's cursor: refused if no placement exists, not enough space if the blocks are
  taken, and otherwise a handle whose payload range the reader does not own. Unread data is never
  changed.
\<close>

theorem siso_alloc_behaviour:
  assumes "siso_inv s ps qs" and "between (wt_reading_cursor_cache (head s)) ld1 (reading_cursor (head s))"
    and "between ld1 ld2 (reading_cursor (head s))" and "alloc_write_chunk ld1 ld2 s sz = (h, s')"
  shows "(\<not> fits (cnt s) (widx s) (unat sz) \<and> wh_result h = err_alloc_size_invalid \<and> s' = s)
    \<or> (fits (cnt s) (widx s) (unat sz) \<and> wh_result h = err_not_enough_space
        \<and> cnt s < unat (writing_cursor (head s) - ld1) + need (cnt s) (widx s) (unat sz)
        \<and> siso_inv s' ps qs)
    \<or> (wh_result h = success \<and> wh_data_addr h = Some (payload_off (cnt s) (widx s) (unat sz))
        \<and> allocated s' (unat sz) \<and> siso_inv s' ps qs)"
  using alloc_cases [OF assms] by blast

theorem siso_alloc_behaviour_witness:
  "\<exists>h s'. alloc_write_chunk 0 0 demo_ring 3 = (h, s')
    \<and> (\<not> fits (cnt demo_ring) (widx demo_ring) (unat (3 :: u32)) \<and> wh_result h = err_alloc_size_invalid
         \<and> s' = demo_ring
       \<or> fits (cnt demo_ring) (widx demo_ring) (unat (3 :: u32)) \<and> wh_result h = err_not_enough_space
         \<and> cnt demo_ring < unat (writing_cursor (head demo_ring) - 0)
             + need (cnt demo_ring) (widx demo_ring) (unat (3 :: u32))
         \<and> siso_inv s' [] []
       \<or> wh_result h = success
         \<and> wh_data_addr h = Some (payload_off (cnt demo_ring) (widx demo_ring) (unat (3 :: u32)))
         \<and> allocated s' (unat (3 :: u32)) \<and> siso_inv s' [] [])"
proof -
  obtain h s' where al: "alloc_write_chunk 0 0 demo_ring 3 = (h, s')" by force
  have w: "between (wt_reading_cursor_cache (head demo_ring)) 0 (reading_cursor (head demo_ring))"
    "between 0 0 (reading_cursor (head demo_ring))"
    by (simp_all add: demo_ring_def siso_init_with_memory_def init_cursors_def Let_def)
  from siso_alloc_behaviour [OF demo_inv w al] al show ?thesis by blast
qed

text \<open>
  An empty ring whose reader has published its cursor accepts every payload that, with
  its head, takes at most half of the blocks and one more: whatever the position of the cursors, such
  a payload cannot be refused for ever.
\<close>

theorem siso_empty_accepts:
  assumes inv: "siso_inv s [] []" and pub: "reading_cursor (head s) = rt_reading_cursor_cache (head s)"
    and small: "2 * ((length p + 15) div 8) \<le> cnt s + 2"
  shows "\<exists>s'. siso_push p s = Some s' \<and> siso_contents s' = [p]"
proof -
  note d = siso_invD [OF inv]
  have n2: "2 \<le> cnt s" and w: "widx s < cnt s" using d(1) widx_less by (auto simp: geometry_ok_def)
  obtain k where "k \<le> 28" "cnt s = 2 ^ k" using geometry_pow2 [OF d(1)] by blast
  then have "cnt s \<le> 2 ^ 28" using power_increasing [of k 28 "2 :: nat"] by simp
  then have lp: "length p < 2 ^ 32" using small by simp
  then have ul: "unat (of_nat (length p) :: u32) = length p" by (simp add: unat_of_nat)
  have f: "fits (cnt s) (widx s) (length p)"
    using small n2 w by (auto simp: fits_def need_def wraps_def)
  have "wc s = rtr s" using d(5) by (simp add: unat_eq_zero)
  then have "unat (wc s - rc s) = 0" by (simp add: pub)
  moreover obtain h s1 where al: "alloc_write_chunk (rc s) (rc s) s (of_nat (length p)) = (h, s1)" by force
  ultimately have ok: "wh_result h = success"
    using alloc_cases [OF inv _ _ al] f ul by (auto simp: fits_def)
  then have "siso_push p s = Some (commit_write_chunk (fill_payload s1 h p) h)"
    using al lp by (simp add: siso_push_def)
  moreover from this have "siso_contents (commit_write_chunk (fill_payload s1 h p) h) = [p]"
    using siso_contents_inv [OF siso_push_inv [OF inv]] by simp
  ultimately show ?thesis by blast
qed

theorem siso_empty_accepts_witness:
  "\<exists>s'. siso_push [1, 2, 3] demo_ring = Some s' \<and> siso_contents s' = [[1, 2, 3]]"
proof (rule siso_empty_accepts [OF demo_inv])
  have n: "cnt demo_ring = 4"
    by (simp add: demo_ring_def siso_init_with_memory_def init_cursors_def Let_def blocks_in_def grow_count.simps)
  show "2 * ((length [1, 2, 3 :: u8] + 15) div 8) \<le> cnt demo_ring + 2" by (simp add: n)
  show "reading_cursor (head demo_ring) = rt_reading_cursor_cache (head demo_ring)"
    by (simp add: demo_ring_def siso_init_with_memory_def init_cursors_def Let_def)
qed

text \<open>
  Property C18. Batch reading: on a ring with unread payloads, draining the batch hands over a
  non-empty prefix of them in order, and returning the batch publishes exactly that prefix as read.
\<close>

theorem siso_batch_read_prefix:
  assumes inv: "siso_invar s" and ne: "siso_contents s \<noteq> []"
    and br: "batch_read (writing_cursor (head s)) s = (bh, s1)"
  shows "\<exists>out bh' s2. batch_drain (length (siso_contents s)) s1 bh = Some (out, bh', s2) \<and> out \<noteq> []
    \<and> siso_contents s = out @ siso_contents (return_batch_read_chunks s2 bh')
    \<and> siso_invar (return_batch_read_chunks s2 bh')
    \<and> reading_cursor (head (return_batch_read_chunks s2 bh')) = rt_reading_cursor_cache (head s2)"
proof -
  obtain ps qs where i: "siso_inv s ps qs" using inv by (auto simp: siso_invar_def)
  have c: "siso_contents s = ps @ qs" by (rule siso_contents_inv [OF i])
  define ps1 qs1 where "ps1 = (if ps = [] then qs else ps)" and "qs1 = (if ps = [] then [] else qs)"
  have split: "ps1 @ qs1 = ps @ qs" and ne1: "ps1 \<noteq> []" using ne c by (auto simp: ps1_def qs1_def)
  have seen: "rtw s = rtr s \<longleftrightarrow> ps = []" by (rule inv_seen_iff [OF i])
  have inv1: "siso_inv s1 ps1 qs1"
    using br i inv_see_all [OF i] seen by (auto simp: batch_read_def Let_def ps1_def qs1_def)
  have bh: "current_cursor bh = rtr s1" "end_cursor bh = rtw s1" "batch_result bh = success"
    using br inv_seen_iff [OF inv1] ne1 by (auto simp: batch_read_def Let_def)
  have "length ps1 \<le> length (siso_contents s)" using c split by (metis length_append le_add1)
  then obtain bh' s2 where d: "batch_drain (length (siso_contents s)) s1 bh = Some (ps1, bh', s2)"
      "siso_inv s2 [] qs1" "batch_result bh' = success"
    using batch_drain_all [OF inv1 bh] by blast
  let ?t = "return_batch_read_chunks s2 bh'"
  have t: "?t = s2\<lparr>head := (head s2)\<lparr>reading_cursor := rtr s2\<rparr>\<rparr>"
    using d(3) by (simp add: return_batch_read_chunks_def)
  have it: "siso_inv ?t [] qs1" unfolding t by (rule publish_inv [OF d(2)])
  then have "siso_contents ?t = qs1" "siso_invar ?t"
    using siso_contents_inv by (auto simp: siso_invar_def)
  then show ?thesis using d(1) ne1 c split by (auto simp: t)
qed

theorem siso_batch_read_prefix_witness:
  "siso_invar (ring demo_commit) \<and> siso_contents (ring demo_commit) \<noteq> []
   \<and> (\<exists>bh s1 out bh' s2. batch_read (writing_cursor (head (ring demo_commit))) (ring demo_commit) = (bh, s1)
      \<and> batch_drain (length (siso_contents (ring demo_commit))) s1 bh = Some (out, bh', s2) \<and> out \<noteq> [])"
proof -
  obtain bh s1 where br: "batch_read (writing_cursor (head (ring demo_commit))) (ring demo_commit) = (bh, s1)"
    by force
  have ne: "siso_contents (ring demo_commit) \<noteq> []" using demo_commit_ring by simp
  from siso_batch_read_prefix [OF demo_commit_ring(1) ne br] br demo_commit_ring(1) ne
  show ?thesis by blast
qed

text \<open>
  Property C19. Crash recovery: from the bytes a well-formed ring leaves in its memory map, the
  constructor in recovery mode restores a well-formed ring with exactly the unread payloads.
\<close>

theorem siso_recovery_roundtrip:
  assumes "siso_invar s" and "storage_ok (siso_storage s)" and "blocks_in (length (siso_storage s)) = cnt s"
  shows "siso_invar (siso_ring_buffer_new (siso_storage s) True)
    \<and> siso_contents (siso_ring_buffer_new (siso_storage s) True) = siso_contents s
    \<and> mmap_buffer_state (siso_ring_buffer_new (siso_storage s) True) = recover_from_memory_map"
proof -
  obtain ps qs where i: "siso_inv s ps qs" using assms(1) by (auto simp: siso_invar_def)
  from recover_complete [OF i assms(2,3)] obtain s' where
    "try_recover_from_exist_memory_map (siso_storage s) = Some s'" "siso_inv s' (ps @ qs) []"
    "mmap_buffer_state s' = recover_from_memory_map" by blast
  then show ?thesis
    using siso_contents_inv [OF i] siso_contents_inv [of s' "ps @ qs" "[]"]
    by (auto simp: siso_ring_buffer_new_def siso_invar_def)
qed

lemma commit_data_length:
  "length (data_bytes (commit_write_chunk s h)) = length (data_bytes s)"
  "aligned_blocks_count (commit_write_chunk s h) = aligned_blocks_count s"
  by (simp_all add: commit_write_chunk_def Let_def)

theorem siso_recovery_roundtrip_witness:
  "siso_contents (siso_ring_buffer_new (siso_storage (ring demo_commit)) True) = [[1, 2, 3]]"
proof -
  let ?al = "alloc_write_chunk 0 0 demo_ring 3"
  have w: "between (wtr demo_ring) 0 (rc demo_ring)" "between 0 0 (rc demo_ring)"
    by (simp_all add: demo_ring_def siso_init_with_memory_def init_cursors_def Let_def)
  obtain h s1 where al: "?al = (h, s1)" by force
  have ok: "wh_result h = success" using demo_alloc_ok al by simp
  have g1: "length (data_bytes s1) = 32" "aligned_blocks_count s1 = 4"
    using alloc_cases [OF demo_inv w al] demo_fields
    by (auto simp: store_head_def widx_def siso_invD)
  have "length (data_bytes (ring demo_commit)) = 32" and cn: "cnt (ring demo_commit) = 4"
  proof -
    have r: "ring demo_commit = commit_write_chunk (fill_payload s1 h [1, 2, 3]) h"
      by (simp add: demo_commit_def demo_alloc_def demo_written_def al)
    then show "cnt (ring demo_commit) = 4" using g1
      by (simp add: commit_data_length fill_payload_def split: option.splits)
    have "wh_data_addr h = Some 8 \<or> wh_data_addr h = Some 0"
      using alloc_cases [OF demo_inv w al] ok demo_fields
      by (auto simp: payload_off_def widx_def demo_ring_def siso_init_with_memory_def init_cursors_def Let_def)
    then show "length (data_bytes (ring demo_commit)) = 32" using g1
      by (auto simp: r commit_data_length fill_payload_def)
  qed
  then have len: "length (siso_storage (ring demo_commit)) = 544"
    using siso_storage_fields(1) [of "ring demo_commit"] by simp
  have "storage_ok (siso_storage (ring demo_commit))" "blocks_in (length (siso_storage (ring demo_commit))) = cnt (ring demo_commit)"
    using cn by (simp_all add: storage_ok_def len blocks_in_def grow_count.simps)
  from siso_recovery_roundtrip [OF demo_commit_ring(1) this] demo_commit_ring(2) show ?thesis by simp
qed

lemma siso_new_invar:
  assumes "storage_ok st"
  shows "siso_invar (siso_ring_buffer_new st recovery)"
proof (cases "recovery \<and> try_recover_from_exist_memory_map st \<noteq> None")
  case True
  then obtain s where "try_recover_from_exist_memory_map st = Some s" by blast
  with recover_sound [OF assms this] True show ?thesis
    by (auto simp: siso_ring_buffer_new_def siso_invar_def)
next
  case False
  then show ?thesis using init_with_memory_inv [OF assms]
    by (auto simp: siso_ring_buffer_new_def siso_invar_def split: option.splits)
qed

text \<open>
  The constructor always yields a well-formed ring, in recovery mode also from storage
  with arbitrary or corrupt contents: the recovery accepts a snapshot only if it is well-formed, and
  its validation loop always ends.
\<close>

theorem siso_constructor_wellformed:
  assumes "storage_ok st"
  shows "siso_invar (siso_ring_buffer_new st recovery)"
  by (rule siso_new_invar [OF assms])

theorem siso_constructor_wellformed_witness:
  "storage_ok (replicate 544 0) \<and> siso_invar (siso_ring_buffer_new (replicate 544 0) True)"
  using siso_constructor_wellformed [OF demo_storage_ok] demo_storage_ok by blast

text \<open>
  \<open>data_traverse\<close> terminates on a well-formed ring and calls back once for every
  payload, with its address and size, in the order a consumer would pop them.
\<close>

theorem siso_traverse_terminates:
  assumes "siso_inv s ps qs"
  shows "\<exists>out s'. data_traverse (writing_cursor (head s)) s = Some (out, s')
    \<and> map (\<lambda>(a, l). mem_read (data_bytes s) a (unat l)) out = ps @ qs"
  by (rule data_traverse_inv [OF assms])

theorem siso_traverse_terminates_witness:
  "\<exists>out s'. data_traverse (writing_cursor (head demo_ring)) demo_ring = Some (out, s')
    \<and> map (\<lambda>(a, l). mem_read (data_bytes demo_ring) a (unat l)) out = [] @ []"
  by (rule siso_traverse_terminates [OF demo_inv])

end
