(* ===== verification/Qlog_Random.thy ===== *)
theory Qlog_Random
  imports Qlog_Prelude
begin

text \<open>
  The thread-local xorshift generators of \<open>src/src/utility/random.cpp\<close>. The two thread-local
  seeds are a record; the value \<open>time(nullptr)\<close> returns is an argument.
\<close>

unbundle bit_operations_syntax

record rand_state =
  rand_seed :: u32
  rand_seed_64 :: u64

definition srand_seed :: "u32 \<Rightarrow> rand_state \<Rightarrow> rand_state" where
  "srand_seed seed st = st\<lparr>rand_seed := seed\<rparr>"

definition rand_next :: "u32 \<Rightarrow> rand_state \<Rightarrow> u32 \<times> rand_state" where
  "rand_next now st =
     (let seed = (if rand_seed st = 0 then now else rand_seed st);
          x = seed;
          x = x XOR push_bit 13 x;
          x = x XOR drop_bit 17 x;
          x = x XOR push_bit 5 x
      in (x, st\<lparr>rand_seed := x\<rparr>))"

definition srand64 :: "u64 \<Rightarrow> rand_state \<Rightarrow> rand_state" where
  "srand64 seed st = st\<lparr>rand_seed_64 := seed\<rparr>"

definition rand64 :: "u32 \<Rightarrow> rand_state \<Rightarrow> u64 \<times> rand_state" where
  "rand64 now st =
     (let st = (if rand_seed_64 st = 0
                then (case rand_next now st of (r, st') \<Rightarrow> st'\<lparr>rand_seed_64 := ucast r\<rparr>)
                else st);
          x = rand_seed_64 st;
          x = x XOR push_bit 13 x;
          x = x XOR drop_bit 7 x;
          x = x XOR push_bit 17 x
      in (x, st\<lparr>rand_seed_64 := x\<rparr>))"

subsection \<open>The shift steps are injective\<close>

text \<open>A shift by a positive distance moves the lowest (highest) set bit, so a fixed point of the
  shift is zero.\<close>

lemma push_bit_fixpoint:
  fixes x :: "'a::len word"
  assumes "push_bit n x = x" and "0 < n"
  shows "x = 0"
proof -
  have "\<not> bit x i" for i
  proof (induction i rule: less_induct)
    case (less i)
    have "bit x i \<longleftrightarrow> bit (push_bit n x) i" by (simp add: assms(1))
    also have "\<dots> \<longleftrightarrow> n \<le> i \<and> i < LENGTH('a) \<and> bit x (i - n)"
      by (auto simp: bit_push_bit_iff)
    finally show ?case using less [of "i - n"] assms(2) by auto
  qed
  then show ?thesis by (intro bit_eqI) simp
qed

lemma drop_bit_fixpoint:
  fixes x :: "'a::len word"
  assumes "drop_bit n x = x" and "0 < n"
  shows "x = 0"
proof -
  have "\<not> bit x (LENGTH('a) - i)" for i
  proof (induction i rule: less_induct)
    case (less i)
    show ?case
    proof (cases "i \<le> LENGTH('a) \<and> i > 0")
      case True
      have "bit x (LENGTH('a) - i) \<longleftrightarrow> bit x (n + (LENGTH('a) - i))"
        using assms(1) by (metis bit_drop_bit_eq comp_apply)
      moreover have "\<not> bit x (n + (LENGTH('a) - i))"
      proof (cases "n < i")
        case True
        then have "n + (LENGTH('a) - i) = LENGTH('a) - (i - n)" using \<open>i \<le> LENGTH('a) \<and> i > 0\<close> by simp
        then show ?thesis using less [of "i - n"] assms(2) True by simp
      next
        case False
        then show ?thesis using True by (auto dest!: bit_imp_le_length)
      qed
      ultimately show ?thesis by simp
    next
      case False
      then show ?thesis
      proof (cases "i = 0")
        case True
        then show ?thesis by (auto dest: bit_imp_le_length)
      next
        case f: False
        have "0 < LENGTH('a)" by simp
        from False f have "LENGTH('a) - i = LENGTH('a) - LENGTH('a)" "LENGTH('a) < i" by simp_all
        then show ?thesis using less [of "LENGTH('a)"] by simp
      qed
    qed
  qed
  from this [of "LENGTH('a) - i" for i] have "\<not> bit x i" if "i < LENGTH('a)" for i
    using that by (metis diff_diff_cancel less_imp_le)
  then show ?thesis by (intro bit_eqI) auto
qed

lemma xor_eq_zero_iff: "(x :: 'a::len word) XOR y = 0 \<longleftrightarrow> x = y"
  by (metis xor.assoc xor_self_eq xor.right_neutral xor.left_neutral)

lemma xor_push_bit_zero: "0 < n \<Longrightarrow> (x :: 'a::len word) XOR push_bit n x = 0 \<longleftrightarrow> x = 0"
  using push_bit_fixpoint [of n x] by (auto simp: xor_eq_zero_iff)

lemma xor_drop_bit_zero: "0 < n \<Longrightarrow> (x :: 'a::len word) XOR drop_bit n x = 0 \<longleftrightarrow> x = 0"
  using drop_bit_fixpoint [of n x] by (auto simp: xor_eq_zero_iff)

text \<open>
  The generators are never absorbed by the zero state: once a seed or the clock is not
  zero, \<open>rand\<close> and \<open>rand64\<close> return a non-zero value and keep it as the next seed, so the
  reseeding branch is not taken again.
\<close>

theorem rand_never_zero:
  assumes "now \<noteq> 0"
  shows "fst (rand_next now st) \<noteq> 0 \<and> rand_seed (snd (rand_next now st)) = fst (rand_next now st)
    \<and> fst (rand64 now st) \<noteq> 0 \<and> rand_seed_64 (snd (rand64 now st)) = fst (rand64 now st)"
proof -
  have ucast_zero: "(ucast (r :: u32) :: u64) = 0 \<longleftrightarrow> r = 0" for r
    using uint_up_ucast [of r, where 'b = 64] by (auto simp: is_up_def uint_0_iff)
  have r: "fst (rand_next now st) \<noteq> 0" for st :: rand_state
    using assms by (simp add: rand_next_def Let_def xor_push_bit_zero xor_drop_bit_zero
        del: push_bit_xor drop_bit_xor)
  moreover have "fst (rand64 now st) \<noteq> 0"
    using r [of st] by (auto simp: rand64_def Let_def xor_push_bit_zero xor_drop_bit_zero ucast_zero
        simp del: push_bit_xor drop_bit_xor split: prod.split)
  ultimately show ?thesis
    by (simp add: rand_next_def rand64_def Let_def)
qed

theorem rand_never_zero_witness:
  "(1 :: u32) \<noteq> 0 \<and> fst (rand_next 1 \<lparr>rand_seed = 0, rand_seed_64 = 0\<rparr>) \<noteq> 0
    \<and> fst (rand64 1 \<lparr>rand_seed = 0, rand_seed_64 = 0\<rparr>) \<noteq> 0"
  using rand_never_zero [of 1 "\<lparr>rand_seed = 0, rand_seed_64 = 0\<rparr>"] by simp

end
