(* ===== verification/Qlog_Aes.thy ===== *)
theory Qlog_Aes
  imports Qlog_Random
begin

text \<open>
  The AES implementation of \<open>src/src/encryption/aes.cpp\<close>: the class \<open>aes_core\<close> (field
  arithmetic, S-boxes, key schedule, block functions) and the class \<open>aes\<close> (key and IV generation, CBC
  encryption and decryption in place over the output buffer). A \<open>uint8_t*\<close> to a block is the list of
  its bytes; the loops over a block write their array element by element, as the code does.
\<close>

unbundle bit_operations_syntax

datatype enum_cipher_mode = AES_ECB | AES_CBC | AES_CFB | AES_OFB | AES_CTR

datatype enum_key_bits = AES_128 | AES_192 | AES_256

fun key_bits_value :: "enum_key_bits \<Rightarrow> nat" where
  "key_bits_value AES_128 = 128"
| "key_bits_value AES_192 = 192"
| "key_bits_value AES_256 = 256"

subsection \<open>\<open>aes_core\<close>\<close>

record aes_core =
  core_mode :: enum_cipher_mode
  core_nb :: nat
  core_key_size :: nat
  core_nk :: nat
  core_nr :: nat
  round_key_words :: nat
  round_key_bytes :: nat
  round_key :: bytes

definition aes_core_new :: "enum_cipher_mode \<Rightarrow> enum_key_bits \<Rightarrow> aes_core" where
  "aes_core_new mode key_bits =
     (let nb = 4; key_size = key_bits_value key_bits div 8; nk = key_size div 4; nr = nk + 6;
          words = nb * (nr + 1); rbytes = words * 4
      in \<lparr>core_mode = mode, core_nb = nb, core_key_size = key_size, core_nk = nk, core_nr = nr,
          round_key_words = words, round_key_bytes = rbytes, round_key = replicate rbytes 0\<rparr>)"

definition xtime :: "u8 \<Rightarrow> u8" where
  "xtime x = push_bit 1 x XOR (if x AND 0x80 \<noteq> 0 then 0x1b else 0)"

text \<open>The eight iterations of \<open>gf_mul\<close>, with the loop's variables as arguments.\<close>

fun gf_mul_loop :: "nat \<Rightarrow> u8 \<Rightarrow> u8 \<Rightarrow> u8 \<Rightarrow> u8" where
  "gf_mul_loop 0 a b p = p"
| "gf_mul_loop (Suc i) a b p =
     (let p = (if b AND 1 \<noteq> 0 then p XOR a else p);
          hi = a AND 0x80;
          a = push_bit 1 a;
          a = (if hi \<noteq> 0 then a XOR 0x1b else a);
          b = drop_bit 1 b
      in gf_mul_loop i a b p)"

definition gf_mul :: "u8 \<Rightarrow> u8 \<Rightarrow> u8" where
  "gf_mul a b = gf_mul_loop 8 a b 0"

text \<open>\<open>xor_block\<close> writes \<open>dst\<close>; the code calls it with \<open>dst = a\<close>, as here.\<close>

definition xor_block :: "bytes \<Rightarrow> bytes \<Rightarrow> bytes" where
  "xor_block a b = fold (\<lambda>i d. d[i := d ! i XOR b ! i]) [0..<16] a"

definition add_round_key :: "bytes \<Rightarrow> bytes \<Rightarrow> bytes" where
  "add_round_key state rk = fold (\<lambda>i s. s[i := s ! i XOR rk ! i]) [0..<16] state"

function rcon_loop :: "u8 \<Rightarrow> u8 \<Rightarrow> u8" where
  "rcon_loop i c = (if i > 1 then rcon_loop (i - 1) (xtime c) else c)"
  by pat_completeness auto
termination
  by (relation "measure (\<lambda>(i, c). unat i)")
     (auto simp: word_less_nat_alt unat_sub_if' split: if_splits)

declare rcon_loop.simps [simp del]

definition rcon :: "u8 \<Rightarrow> u8" where
  "rcon i = (if i = 0 then 0 else rcon_loop i 1)"

definition sbox :: bytes where
  "sbox =
    [0x63, 0x7c, 0x77, 0x7b, 0xf2, 0x6b, 0x6f, 0xc5, 0x30, 0x01, 0x67, 0x2b, 0xfe, 0xd7, 0xab, 0x76,
     0xca, 0x82, 0xc9, 0x7d, 0xfa, 0x59, 0x47, 0xf0, 0xad, 0xd4, 0xa2, 0xaf, 0x9c, 0xa4, 0x72, 0xc0,
     0xb7, 0xfd, 0x93, 0x26, 0x36, 0x3f, 0xf7, 0xcc, 0x34, 0xa5, 0xe5, 0xf1, 0x71, 0xd8, 0x31, 0x15,
     0x04, 0xc7, 0x23, 0xc3, 0x18, 0x96, 0x05, 0x9a, 0x07, 0x12, 0x80, 0xe2, 0xeb, 0x27, 0xb2, 0x75,
     0x09, 0x83, 0x2c, 0x1a, 0x1b, 0x6e, 0x5a, 0xa0, 0x52, 0x3b, 0xd6, 0xb3, 0x29, 0xe3, 0x2f, 0x84,
     0x53, 0xd1, 0x00, 0xed, 0x20, 0xfc, 0xb1, 0x5b, 0x6a, 0xcb, 0xbe, 0x39, 0x4a, 0x4c, 0x58, 0xcf,
     0xd0, 0xef, 0xaa, 0xfb, 0x43, 0x4d, 0x33, 0x85, 0x45, 0xf9, 0x02, 0x7f, 0x50, 0x3c, 0x9f, 0xa8,
     0x51, 0xa3, 0x40, 0x8f, 0x92, 0x9d, 0x38, 0xf5, 0xbc, 0xb6, 0xda, 0x21, 0x10, 0xff, 0xf3, 0xd2,
     0xcd, 0x0c, 0x13, 0xec, 0x5f, 0x97, 0x44, 0x17, 0xc4, 0xa7, 0x7e, 0x3d, 0x64, 0x5d, 0x19, 0x73,
     0x60, 0x81, 0x4f, 0xdc, 0x22, 0x2a, 0x90, 0x88, 0x46, 0xee, 0xb8, 0x14, 0xde, 0x5e, 0x0b, 0xdb,
     0xe0, 0x32, 0x3a, 0x0a, 0x49, 0x06, 0x24, 0x5c, 0xc2, 0xd3, 0xac, 0x62, 0x91, 0x95, 0xe4, 0x79,
     0xe7, 0xc8, 0x37, 0x6d, 0x8d, 0xd5, 0x4e, 0xa9, 0x6c, 0x56, 0xf4, 0xea, 0x65, 0x7a, 0xae, 0x08,
     0xba, 0x78, 0x25, 0x2e, 0x1c, 0xa6, 0xb4, 0xc6, 0xe8, 0xdd, 0x74, 0x1f, 0x4b, 0xbd, 0x8b, 0x8a,
     0x70, 0x3e, 0xb5, 0x66, 0x48, 0x03, 0xf6, 0x0e, 0x61, 0x35, 0x57, 0xb9, 0x86, 0xc1, 0x1d, 0x9e,
     0xe1, 0xf8, 0x98, 0x11, 0x69, 0xd9, 0x8e, 0x94, 0x9b, 0x1e, 0x87, 0xe9, 0xce, 0x55, 0x28, 0xdf,
     0x8c, 0xa1, 0x89, 0x0d, 0xbf, 0xe6, 0x42, 0x68, 0x41, 0x99, 0x2d, 0x0f, 0xb0, 0x54, 0xbb, 0x16]"

definition rsbox :: bytes where
  "rsbox =
    [0x52, 0x09, 0x6a, 0xd5, 0x30, 0x36, 0xa5, 0x38, 0xbf, 0x40, 0xa3, 0x9e, 0x81, 0xf3, 0xd7, 0xfb,
     0x7c, 0xe3, 0x39, 0x82, 0x9b, 0x2f, 0xff, 0x87, 0x34, 0x8e, 0x43, 0x44, 0xc4, 0xde, 0xe9, 0xcb,
     0x54, 0x7b, 0x94, 0x32, 0xa6, 0xc2, 0x23, 0x3d, 0xee, 0x4c, 0x95, 0x0b, 0x42, 0xfa, 0xc3, 0x4e,
     0x08, 0x2e, 0xa1, 0x66, 0x28, 0xd9, 0x24, 0xb2, 0x76, 0x5b, 0xa2, 0x49, 0x6d, 0x8b, 0xd1, 0x25,
     0x72, 0xf8, 0xf6, 0x64, 0x86, 0x68, 0x98, 0x16, 0xd4, 0xa4, 0x5c, 0xcc, 0x5d, 0x65, 0xb6, 0x92,
     0x6c, 0x70, 0x48, 0x50, 0xfd, 0xed, 0xb9, 0xda, 0x5e, 0x15, 0x46, 0x57, 0xa7, 0x8d, 0x9d, 0x84,
     0x90, 0xd8, 0xab, 0x00, 0x8c, 0xbc, 0xd3, 0x0a, 0xf7, 0xe4, 0x58, 0x05, 0xb8, 0xb3, 0x45, 0x06,
     0xd0, 0x2c, 0x1e, 0x8f, 0xca, 0x3f, 0x0f, 0x02, 0xc1, 0xaf, 0xbd, 0x03, 0x01, 0x13, 0x8a, 0x6b,
     0x3a, 0x91, 0x11, 0x41, 0x4f, 0x67, 0xdc, 0xea, 0x97, 0xf2, 0xcf, 0xce, 0xf0, 0xb4, 0xe6, 0x73,
     0x96, 0xac, 0x74, 0x22, 0xe7, 0xad, 0x35, 0x85, 0xe2, 0xf9, 0x37, 0xe8, 0x1c, 0x75, 0xdf, 0x6e,
     0x47, 0xf1, 0x1a, 0x71, 0x1d, 0x29, 0xc5, 0x89, 0x6f, 0xb7, 0x62, 0x0e, 0xaa, 0x18, 0xbe, 0x1b,
     0xfc, 0x56, 0x3e, 0x4b, 0xc6, 0xd2, 0x79, 0x20, 0x9a, 0xdb, 0xc0, 0xfe, 0x78, 0xcd, 0x5a, 0xf4,
     0x1f, 0xdd, 0xa8, 0x33, 0x88, 0x07, 0xc7, 0x31, 0xb1, 0x12, 0x10, 0x59, 0x27, 0x80, 0xec, 0x5f,
     0x60, 0x51, 0x7f, 0xa9, 0x19, 0xb5, 0x4a, 0x0d, 0x2d, 0xe5, 0x7a, 0x9f, 0x93, 0xc9, 0x9c, 0xef,
     0xa0, 0xe0, 0x3b, 0x4d, 0xae, 0x2a, 0xf5, 0xb0, 0xc8, 0xeb, 0xbb, 0x3c, 0x83, 0x53, 0x99, 0x61,
     0x17, 0x2b, 0x04, 0x7e, 0xba, 0x77, 0xd6, 0x26, 0xe1, 0x69, 0x14, 0x63, 0x55, 0x21, 0x0c, 0x7d]"

definition sbox_word :: "u8 \<times> u8 \<times> u8 \<times> u8 \<Rightarrow> u8 \<times> u8 \<times> u8 \<times> u8" where
  "sbox_word t = (case t of (t0, t1, t2, t3) \<Rightarrow>
     (sbox ! unat t0, sbox ! unat t1, sbox ! unat t2, sbox ! unat t3))"

text \<open>One iteration of each of the two loops of \<open>key_expansion\<close>, on the array \<open>round_key\<close>.\<close>

definition key_copy_word :: "bytes \<Rightarrow> nat \<Rightarrow> bytes \<Rightarrow> bytes" where
  "key_copy_word key i rk =
     rk[4 * i + 0 := key ! (4 * i + 0), 4 * i + 1 := key ! (4 * i + 1),
        4 * i + 2 := key ! (4 * i + 2), 4 * i + 3 := key ! (4 * i + 3)]"

definition key_expand_word :: "nat \<Rightarrow> nat \<Rightarrow> bytes \<Rightarrow> bytes" where
  "key_expand_word nk i rk =
     (let temp = (rk ! (4 * (i - 1) + 0), rk ! (4 * (i - 1) + 1),
                  rk ! (4 * (i - 1) + 2), rk ! (4 * (i - 1) + 3));
          temp = (if i mod nk = 0 then
                    (case temp of (t0, t1, t2, t3) \<Rightarrow>
                       case sbox_word (t1, t2, t3, t0) of (s0, s1, s2, s3) \<Rightarrow>
                         (s0 XOR rcon (of_nat (i div nk)), s1, s2, s3))
                  else if nk > 6 \<and> i mod nk = 4 then sbox_word temp
                  else temp)
      in case temp of (t0, t1, t2, t3) \<Rightarrow>
         rk[4 * i + 0 := rk ! (4 * (i - nk) + 0) XOR t0,
            4 * i + 1 := rk ! (4 * (i - nk) + 1) XOR t1,
            4 * i + 2 := rk ! (4 * (i - nk) + 2) XOR t2,
            4 * i + 3 := rk ! (4 * (i - nk) + 3) XOR t3])"

definition key_expansion :: "bytes \<Rightarrow> aes_core \<Rightarrow> aes_core" where
  "key_expansion key core =
     core\<lparr>round_key :=
       fold (key_expand_word (core_nk core)) [core_nk core..<round_key_words core]
         (fold (key_copy_word key) [0..<core_nk core] (round_key core))\<rparr>"

definition sub_bytes :: "bytes \<Rightarrow> bytes" where
  "sub_bytes s = fold (\<lambda>i s. s[i := sbox ! unat (s ! i)]) [0..<16] s"

definition inv_sub_bytes :: "bytes \<Rightarrow> bytes" where
  "inv_sub_bytes s = fold (\<lambda>i s. s[i := rsbox ! unat (s ! i)]) [0..<16] s"

definition shift_rows :: "bytes \<Rightarrow> bytes" where
  "shift_rows s =
     (let t = s ! 1; s = s[1 := s ! 5]; s = s[5 := s ! 9]; s = s[9 := s ! 13]; s = s[13 := t];
          t = s ! 2; s = s[2 := s ! 10]; s = s[10 := t];
          t = s ! 6; s = s[6 := s ! 14]; s = s[14 := t];
          t = s ! 15; s = s[15 := s ! 11]; s = s[11 := s ! 7]; s = s[7 := s ! 3]; s = s[3 := t]
      in s)"

definition inv_shift_rows :: "bytes \<Rightarrow> bytes" where
  "inv_shift_rows s =
     (let t = s ! 13; s = s[13 := s ! 9]; s = s[9 := s ! 5]; s = s[5 := s ! 1]; s = s[1 := t];
          t = s ! 2; s = s[2 := s ! 10]; s = s[10 := t];
          t = s ! 6; s = s[6 := s ! 14]; s = s[14 := t];
          t = s ! 3; s = s[3 := s ! 7]; s = s[7 := s ! 11]; s = s[11 := s ! 15]; s = s[15 := t]
      in s)"

definition mix_column :: "nat \<Rightarrow> bytes \<Rightarrow> bytes" where
  "mix_column c s =
     (let i = 4 * c; a0 = s ! (i + 0); a1 = s ! (i + 1); a2 = s ! (i + 2); a3 = s ! (i + 3);
          t = a0 XOR a1 XOR a2 XOR a3; u = a0;
          s = s[i + 0 := s ! (i + 0) XOR (t XOR xtime (a0 XOR a1))];
          s = s[i + 1 := s ! (i + 1) XOR (t XOR xtime (a1 XOR a2))];
          s = s[i + 2 := s ! (i + 2) XOR (t XOR xtime (a2 XOR a3))]
      in s[i + 3 := s ! (i + 3) XOR (t XOR xtime (a3 XOR u))])"

definition mix_columns :: "bytes \<Rightarrow> bytes" where
  "mix_columns s = fold mix_column [0..<4] s"

definition inv_mix_column :: "nat \<Rightarrow> bytes \<Rightarrow> bytes" where
  "inv_mix_column c s =
     (let i = 4 * c; a0 = s ! (i + 0); a1 = s ! (i + 1); a2 = s ! (i + 2); a3 = s ! (i + 3);
          s = s[i + 0 := gf_mul a0 0x0e XOR gf_mul a1 0x0b XOR gf_mul a2 0x0d XOR gf_mul a3 0x09];
          s = s[i + 1 := gf_mul a0 0x09 XOR gf_mul a1 0x0e XOR gf_mul a2 0x0b XOR gf_mul a3 0x0d];
          s = s[i + 2 := gf_mul a0 0x0d XOR gf_mul a1 0x09 XOR gf_mul a2 0x0e XOR gf_mul a3 0x0b]
      in s[i + 3 := gf_mul a0 0x0b XOR gf_mul a1 0x0d XOR gf_mul a2 0x09 XOR gf_mul a3 0x0e])"

definition inv_mix_columns :: "bytes \<Rightarrow> bytes" where
  "inv_mix_columns s = fold inv_mix_column [0..<4] s"

definition encrypt_round :: "aes_core \<Rightarrow> nat \<Rightarrow> bytes \<Rightarrow> bytes" where
  "encrypt_round core round state =
     add_round_key (mix_columns (shift_rows (sub_bytes state))) (drop (16 * round) (round_key core))"

definition encrypt_block :: "aes_core \<Rightarrow> bytes \<Rightarrow> bytes" where
  "encrypt_block core block =
     (let state = add_round_key block (round_key core);
          state = fold (encrypt_round core) [1..<core_nr core] state;
          state = shift_rows (sub_bytes state)
      in add_round_key state (drop (16 * core_nr core) (round_key core)))"

definition decrypt_round :: "aes_core \<Rightarrow> nat \<Rightarrow> bytes \<Rightarrow> bytes" where
  "decrypt_round core round state =
     inv_mix_columns (add_round_key (inv_sub_bytes (inv_shift_rows state))
       (drop (16 * round) (round_key core)))"

text \<open>The loop \<open>for (round = nr_; round-- > 1;)\<close> runs its body for \<open>nr_ - 1\<close> down to \<open>1\<close>.\<close>

definition decrypt_block :: "aes_core \<Rightarrow> bytes \<Rightarrow> bytes" where
  "decrypt_block core block =
     (let state = add_round_key block (drop (16 * core_nr core) (round_key core));
          state = fold (decrypt_round core) (rev [1..<core_nr core]) state;
          state = inv_sub_bytes (inv_shift_rows state)
      in add_round_key state (round_key core))"

subsection \<open>\<open>aes\<close>\<close>

record aes =
  aes_mode :: enum_cipher_mode
  aes_key_bits :: enum_key_bits
  aes_key_size :: nat
  aes_iv_size :: nat

text \<open>The constructor; \<open>None\<close> is its failed assertion.\<close>

definition aes_new :: "enum_cipher_mode \<Rightarrow> enum_key_bits \<Rightarrow> aes option" where
  "aes_new mode key_bits =
     (if mode = AES_CBC
      then Some \<lparr>aes_mode = mode, aes_key_bits = key_bits, aes_key_size = key_bits_value key_bits div 8, aes_iv_size = 16\<rparr>
      else None)"

definition is_block_aligned :: "nat \<Rightarrow> bool" where
  "is_block_aligned n \<longleftrightarrow> n mod 16 = 0"

text \<open>\<open>now_ms\<close> is the value of \<open>high_performance_epoch_ms\<close>, \<open>now\<close> that of \<open>time(nullptr)\<close>.\<close>

fun fill_random_loop :: "u32 \<Rightarrow> nat \<Rightarrow> rand_state \<Rightarrow> bytes \<times> rand_state" where
  "fill_random_loop now 0 st = ([], st)"
| "fill_random_loop now (Suc n) st =
     (let (r, st1) = rand_next now st; (rest, st2) = fill_random_loop now n st1
      in (ucast (r AND 0xff) # rest, st2))"

definition fill_random :: "u64 \<Rightarrow> u32 \<Rightarrow> nat \<Rightarrow> rand_state \<Rightarrow> bytes \<times> rand_state" where
  "fill_random now_ms now n st =
     fill_random_loop now n (srand_seed (ucast (now_ms mod 0xffffffff)) st)"

definition generate_key :: "u64 \<Rightarrow> u32 \<Rightarrow> aes \<Rightarrow> rand_state \<Rightarrow> bytes \<times> rand_state" where
  "generate_key now_ms now a st = fill_random now_ms now (aes_key_size a) st"

definition generate_iv :: "u64 \<Rightarrow> u32 \<Rightarrow> aes \<Rightarrow> rand_state \<Rightarrow> bytes \<times> rand_state" where
  "generate_iv now_ms now a st = fill_random now_ms now (aes_iv_size a) st"

text \<open>The causes for which \<open>encrypt\<close> and \<open>decrypt\<close> report an error and return \<open>false\<close>.\<close>

datatype aes_error = key_size_mismatch | iv_size_mismatch | output_buffer_too_small | text_size_mismatch

text \<open>The CBC loops over the buffer, with the block function of the keyed core as an argument.\<close>

function cbc_encrypt_loop :: "(bytes \<Rightarrow> bytes) \<Rightarrow> nat \<Rightarrow> nat \<Rightarrow> bytes \<Rightarrow> bytes \<Rightarrow> bytes" where
  "cbc_encrypt_loop enc n i chain buf =
     (if i < n then
        (let block = enc (xor_block (mem_read buf i 16) chain)
         in cbc_encrypt_loop enc n (i + 16) block (mem_write buf i block))
      else buf)"
  by pat_completeness auto
termination by (relation "measure (\<lambda>(enc, n, i, chain, buf). n - i)") auto

function cbc_decrypt_loop :: "(bytes \<Rightarrow> bytes) \<Rightarrow> nat \<Rightarrow> nat \<Rightarrow> bytes \<Rightarrow> bytes \<Rightarrow> bytes" where
  "cbc_decrypt_loop dec n i prev buf =
     (if i < n then
        (let cur = mem_read buf i 16;
             block = xor_block (dec cur) prev
         in cbc_decrypt_loop dec n (i + 16) cur (mem_write buf i block))
      else buf)"
  by pat_completeness auto
termination by (relation "measure (\<lambda>(dec, n, i, prev, buf). n - i)") auto

declare cbc_encrypt_loop.simps [simp del] cbc_decrypt_loop.simps [simp del]

definition aes_encrypt :: "aes \<Rightarrow> bytes \<Rightarrow> bytes \<Rightarrow> bytes \<Rightarrow> bytes \<Rightarrow> aes_error + bytes" where
  "aes_encrypt a key iv plaintext out_ciphertext =
     (if length key \<noteq> aes_key_size a then Inl key_size_mismatch
      else if length iv \<noteq> aes_iv_size a then Inl iv_size_mismatch
      else if length out_ciphertext < length plaintext then Inl output_buffer_too_small
      else
        let n = length plaintext
        in if \<not> is_block_aligned n then Inl text_size_mismatch
           else if n = 0 then Inr out_ciphertext
           else
             let buf = mem_write out_ciphertext 0 plaintext;
                 core = key_expansion key (aes_core_new (aes_mode a) (aes_key_bits a))
             in Inr (cbc_encrypt_loop (encrypt_block core) n 0 iv buf))"

definition aes_decrypt :: "aes \<Rightarrow> bytes \<Rightarrow> bytes \<Rightarrow> bytes \<Rightarrow> bytes \<Rightarrow> aes_error + bytes" where
  "aes_decrypt a key iv ciphertext out_plaintext =
     (if length key \<noteq> aes_key_size a then Inl key_size_mismatch
      else if length iv \<noteq> aes_iv_size a then Inl iv_size_mismatch
      else if length out_plaintext < length ciphertext then Inl output_buffer_too_small
      else
        let n = length ciphertext
        in if \<not> is_block_aligned n then Inl text_size_mismatch
           else if n = 0 then Inr out_plaintext
           else
             let buf = mem_write out_plaintext 0 ciphertext;
                 core = key_expansion key (aes_core_new (aes_mode a) (aes_key_bits a))
             in Inr (cbc_decrypt_loop (decrypt_block core) n 0 iv buf))"

text \<open>The overloads on vectors resize the output to the size of the input.\<close>

definition aes_encrypt_vec :: "aes \<Rightarrow> bytes \<Rightarrow> bytes \<Rightarrow> bytes \<Rightarrow> aes_error + bytes" where
  "aes_encrypt_vec a key iv plaintext = aes_encrypt a key iv plaintext (replicate (length plaintext) 0)"

definition aes_decrypt_vec :: "aes \<Rightarrow> bytes \<Rightarrow> bytes \<Rightarrow> bytes \<Rightarrow> aes_error + bytes" where
  "aes_decrypt_vec a key iv ciphertext = aes_decrypt a key iv ciphertext (replicate (length ciphertext) 0)"

end
