(* ===== verification/Qlog_Aes_Correct.thy ===== *)
theory Qlog_Aes_Correct
  imports Qlog_Aes
begin

text \<open>
  Correctness of the AES model: the inverse steps of a round undo the steps, so \<open>decrypt_block\<close>
  inverts \<open>encrypt_block\<close> for every key schedule; the interface of a block cipher with its CBC round
  trip, interpreted on the keyed core; and the behaviour of \<open>encrypt\<close> and \<open>decrypt\<close> on every branch.
\<close>

unbundle bit_operations_syntax

section \<open>Element-wise loops\<close>

lemma fold_update_nth:
  assumes "n \<le> length s"
  shows "fold (\<lambda>i s. s[i := f i (s ! i)]) [0..<n] s = map (\<lambda>i. f i (s ! i)) [0..<n] @ drop n s"
  using assms
proof (induction n)
  case (Suc n)
  then show ?case
    by (auto intro!: nth_equalityI simp: nth_append nth_list_update less_Suc_eq)
qed simp

lemma xor_block_map: "length a = 16 \<Longrightarrow> xor_block a b = map (\<lambda>i. a ! i XOR b ! i) [0..<16]"
  unfolding xor_block_def by (subst fold_update_nth [where f = "\<lambda>i x. x XOR b ! i"]) simp_all

lemma add_round_key_map: "length a = 16 \<Longrightarrow> add_round_key a b = map (\<lambda>i. a ! i XOR b ! i) [0..<16]"
  unfolding add_round_key_def by (subst fold_update_nth [where f = "\<lambda>i x. x XOR b ! i"]) simp_all

lemma sub_bytes_map: "length s = 16 \<Longrightarrow> sub_bytes s = map (\<lambda>x. sbox ! unat x) s"
  unfolding sub_bytes_def
  by (subst fold_update_nth [where f = "\<lambda>i x. sbox ! unat x"]) (auto intro!: nth_equalityI)

lemma inv_sub_bytes_map: "length s = 16 \<Longrightarrow> inv_sub_bytes s = map (\<lambda>x. rsbox ! unat x) s"
  unfolding inv_sub_bytes_def
  by (subst fold_update_nth [where f = "\<lambda>i x. rsbox ! unat x"]) (auto intro!: nth_equalityI)

section \<open>The steps of a round and their inverses\<close>

lemma rsbox_sbox_table: "map (\<lambda>v. rsbox ! unat v) sbox = map of_nat [0..<256]"
  by code_simp

lemma length_sbox: "length sbox = 256"
  by code_simp

lemma rsbox_sbox: "rsbox ! unat (sbox ! unat (x :: u8)) = x"
proof -
  have "unat x < 256" using unsigned_less [of x, where ?'a = nat] by simp
  then have "map (\<lambda>v. rsbox ! unat v) sbox ! unat x = x"
    unfolding rsbox_sbox_table by simp
  then show ?thesis using \<open>unat x < 256\<close> by (simp add: length_sbox)
qed

lemma and_128_bit: "(x :: u8) AND 0x80 = 0 \<longleftrightarrow> \<not> bit x 7"
  using and_exp_eq_0_iff_not_bit [of x 7] by simp

lemma xtime_xor: "xtime (x XOR y) = xtime x XOR xtime y"
  by (simp add: xtime_def and_128_bit bit_xor_iff ac_simps)

text \<open>The loop of \<open>gf_mul\<close> adds \<open>xtime\<^sup>i a\<close> for every bit \<open>i\<close> of \<open>b\<close>.\<close>

lemma gf_mul_loop_bits:
  "gf_mul_loop n a (drop_bit k b) p
    = fold (\<lambda>i p. if bit b (k + i) then p XOR (xtime ^^ i) a else p) [0..<n] p"
proof (induction n arbitrary: a k p)
  case (Suc n)
  have sh: "[0..<Suc n] = 0 # map Suc [0..<n]" by (simp add: upt_conv_Cons map_Suc_upt)
  have "drop_bit k b AND 1 \<noteq> 0 \<longleftrightarrow> bit b k"
    by (simp add: and_one_eq bit_iff_odd_drop_bit odd_iff_mod_2_eq_one)
  then have "gf_mul_loop (Suc n) a (drop_bit k b) p
      = gf_mul_loop n (xtime a) (drop_bit (Suc k) b) (if bit b k then p XOR a else p)"
    by (simp add: xtime_def)
  then show ?case unfolding sh Suc.IH
    by (simp add: fold_map comp_def funpow_swap1 del: gf_mul_loop.simps cong: if_cong)
qed simp

lemma gf_mul_bits: "gf_mul a b = fold (\<lambda>i p. if bit b i then p XOR (xtime ^^ i) a else p) [0..<8] 0"
  using gf_mul_loop_bits [of 8 a 0 b 0] by (simp add: gf_mul_def)

lemma gf_mul_consts:
  "gf_mul a 0x09 = a XOR xtime (xtime (xtime a))"
  "gf_mul a 0x0b = a XOR xtime a XOR xtime (xtime (xtime a))"
  "gf_mul a 0x0d = a XOR xtime (xtime a) XOR xtime (xtime (xtime a))"
  "gf_mul a 0x0e = xtime a XOR xtime (xtime a) XOR xtime (xtime (xtime a))"
  by (simp_all add: gf_mul_bits upt_rec numeral_eq_Suc bit_numeral_rec ac_simps)

lemma xor_cancel: "(x :: 'a::len word) XOR (x XOR y) = y"
  by (metis xor.assoc xor_self_eq xor.left_neutral)

lemma list16:
  assumes "length s = 16"
  obtains a0 a1 a2 a3 a4 a5 a6 a7 a8 a9 a10 a11 a12 a13 a14 a15
  where "s = [a0, a1, a2, a3, a4, a5, a6, a7, a8, a9, a10, a11, a12, a13, a14, a15]"
  using assms by (auto simp: eval_nat_numeral length_Suc_conv)

lemma shift_rows_inverse: "length s = 16 \<Longrightarrow> inv_shift_rows (shift_rows s) = s"
  by (elim list16) (simp add: shift_rows_def inv_shift_rows_def Let_def)

lemma length_steps [simp]:
  "length (shift_rows s) = length s" "length (inv_shift_rows s) = length s"
  "length (mix_column c s) = length s" "length (inv_mix_column c s) = length s"
  by (simp_all add: shift_rows_def inv_shift_rows_def mix_column_def inv_mix_column_def Let_def)

text \<open>The inverse of one column. The coefficients cancel as polynomials in \<open>xtime\<close>.\<close>

lemma column_inverse:
  fixes a b c d :: u8
  defines "a' \<equiv> a XOR ((a XOR b XOR c XOR d) XOR xtime (a XOR b))"
    and "b' \<equiv> b XOR ((a XOR b XOR c XOR d) XOR xtime (b XOR c))"
    and "c' \<equiv> c XOR ((a XOR b XOR c XOR d) XOR xtime (c XOR d))"
    and "d' \<equiv> d XOR ((a XOR b XOR c XOR d) XOR xtime (d XOR a))"
  shows "gf_mul a' 0x0e XOR gf_mul b' 0x0b XOR gf_mul c' 0x0d XOR gf_mul d' 0x09 = a"
    "gf_mul a' 0x09 XOR gf_mul b' 0x0e XOR gf_mul c' 0x0b XOR gf_mul d' 0x0d = b"
    "gf_mul a' 0x0d XOR gf_mul b' 0x09 XOR gf_mul c' 0x0e XOR gf_mul d' 0x0b = c"
    "gf_mul a' 0x0b XOR gf_mul b' 0x0d XOR gf_mul c' 0x09 XOR gf_mul d' 0x0e = d"
  unfolding assms gf_mul_consts xtime_xor
  by (simp_all add: xor_cancel ac_simps)

lemma upt_0_4: "[0..<4] = [0, 1, 2, 3 :: nat]"
  by (simp add: upt_rec)

lemma mix_columns_inverse: "length s = 16 \<Longrightarrow> inv_mix_columns (mix_columns s) = s"
  by (elim list16)
     (simp add: mix_columns_def inv_mix_columns_def upt_0_4 mix_column_def inv_mix_column_def Let_def
        column_inverse)

lemma sub_bytes_inverse: "length s = 16 \<Longrightarrow> inv_sub_bytes (sub_bytes s) = s"
  by (simp add: sub_bytes_map inv_sub_bytes_map rsbox_sbox comp_def)

lemma length_fold: "(\<And>x s. length (f x s) = length s) \<Longrightarrow> length (fold f xs s) = length s"
  by (induction xs arbitrary: s) simp_all

lemma length_loops [simp]:
  "length (add_round_key s k) = length s" "length (xor_block s b) = length s"
  "length (sub_bytes s) = length s" "length (inv_sub_bytes s) = length s"
  "length (mix_columns s) = length s" "length (inv_mix_columns s) = length s"
  by (simp_all add: add_round_key_def xor_block_def sub_bytes_def inv_sub_bytes_def
      mix_columns_def inv_mix_columns_def length_fold)

lemma length_rounds [simp]:
  "length (encrypt_round core r s) = length s" "length (decrypt_round core r s) = length s"
  "length (encrypt_block core s) = length s" "length (decrypt_block core s) = length s"
proof -
  show e: "length (encrypt_round core r s) = length s" and d: "length (decrypt_round core r s) = length s"
    for r s by (simp_all add: encrypt_round_def decrypt_round_def)
  show "length (encrypt_block core s) = length s" "length (decrypt_block core s) = length s"
    by (simp_all add: encrypt_block_def decrypt_block_def Let_def length_fold e d)
qed

lemma xor_block_twice: "length a = 16 \<Longrightarrow> xor_block (xor_block a b) b = a"
  by (simp add: xor_block_map) (auto intro!: nth_equalityI simp: xor.assoc)

lemma add_round_key_twice: "length a = 16 \<Longrightarrow> add_round_key (add_round_key a b) b = a"
  by (simp add: add_round_key_map) (auto intro!: nth_equalityI simp: xor.assoc)

section \<open>The block functions\<close>

text \<open>
  One round of \<open>decrypt_block\<close> undoes one round of \<open>encrypt_block\<close> up to the substitution and shift
  that the code has moved across the loop boundary.
\<close>

lemma decrypt_round_inverse:
  assumes "length s = 16"
  shows "decrypt_round core r (shift_rows (sub_bytes (encrypt_round core r s))) = shift_rows (sub_bytes s)"
  using assms by (simp add: decrypt_round_def encrypt_round_def shift_rows_inverse sub_bytes_inverse
      add_round_key_twice mix_columns_inverse)

lemma decrypt_rounds_inverse:
  assumes "length s = 16"
  shows "inv_sub_bytes (inv_shift_rows
      (fold (decrypt_round core) (rev [1..<Suc n]) (shift_rows (sub_bytes (fold (encrypt_round core) [1..<Suc n] s)))))
    = s"
  using assms
proof (induction n)
  case 0
  then show ?case by (simp add: shift_rows_inverse sub_bytes_inverse)
next
  case (Suc n)
  let ?e = "fold (encrypt_round core) [1..<Suc n] s"
  have len: "length ?e = 16" using Suc.prems by (simp add: length_fold)
  then show ?case using Suc by (simp add: decrypt_round_inverse)
qed

lemma decrypt_encrypt_block:
  assumes "length b = 16" and "0 < core_nr core"
  shows "decrypt_block core (encrypt_block core b) = b"
proof -
  obtain n where n: "core_nr core = Suc n" using assms(2) by (cases "core_nr core") simp_all
  show ?thesis
    using assms(1) decrypt_rounds_inverse [of "add_round_key b (round_key core)" core n]
    by (simp add: decrypt_block_def encrypt_block_def Let_def n add_round_key_twice length_fold
        del: upt_Suc)
qed

section \<open>Cipher block chaining\<close>

text \<open>The reference: the chaining equations of CBC on a list of blocks.\<close>

primrec cbc_enc :: "(bytes \<Rightarrow> bytes) \<Rightarrow> bytes \<Rightarrow> bytes list \<Rightarrow> bytes list" where
  "cbc_enc enc chain [] = []"
| "cbc_enc enc chain (b # bs) = (let c = enc (xor_block b chain) in c # cbc_enc enc c bs)"

primrec cbc_dec :: "(bytes \<Rightarrow> bytes) \<Rightarrow> bytes \<Rightarrow> bytes list \<Rightarrow> bytes list" where
  "cbc_dec dec prev [] = []"
| "cbc_dec dec prev (c # cs) = xor_block (dec c) prev # cbc_dec dec c cs"

function blocks16 :: "bytes \<Rightarrow> bytes list" where
  "blocks16 bs = (if length bs < 16 then [] else take 16 bs # blocks16 (drop 16 bs))"
  by pat_completeness auto
termination by (relation "measure length") auto

declare blocks16.simps [simp del]

definition blocks_ok :: "bytes list \<Rightarrow> bool" where
  "blocks_ok bs \<longleftrightarrow> list_all (\<lambda>b. length b = 16) bs"

lemma blocks_ok_simps [simp]:
  "blocks_ok []" "blocks_ok (b # bs) \<longleftrightarrow> length b = 16 \<and> blocks_ok bs"
  by (simp_all add: blocks_ok_def)

lemma blocks16_ok: "blocks_ok (blocks16 bs)"
  by (induction bs rule: blocks16.induct) (subst blocks16.simps, simp)

lemma concat_blocks16: "length bs mod 16 = 0 \<Longrightarrow> concat (blocks16 bs) = bs"
proof (induction bs rule: blocks16.induct)
  case (1 bs)
  show ?case
  proof (cases "length bs < 16")
    case True
    then show ?thesis using 1 by (subst blocks16.simps) simp
  next
    case False
    then have "length (drop 16 bs) mod 16 = 0" using 1(2) by (simp add: le_mod_geq)
    with 1(1) [OF False] show ?thesis using False by (subst blocks16.simps) simp
  qed
qed

lemma length_concat_blocks: "blocks_ok bs \<Longrightarrow> length (concat bs) = 16 * length bs"
  by (induction bs) simp_all

lemma blocks16_concat: "blocks_ok bs \<Longrightarrow> blocks16 (concat bs) = bs"
  by (induction bs) (subst blocks16.simps; simp)+

text \<open>
  The interface the chaining loops rely on: a block function and its inverse on blocks of 16 bytes.
\<close>

locale block_cipher =
  fixes enc dec :: "bytes \<Rightarrow> bytes"
  assumes enc_length: "length b = 16 \<Longrightarrow> length (enc b) = 16"
    and dec_length: "length b = 16 \<Longrightarrow> length (dec b) = 16"
    and dec_enc: "length b = 16 \<Longrightarrow> dec (enc b) = b"
begin

lemma encrypt_loop:
  assumes "blocks_ok bs"
  shows "cbc_encrypt_loop enc (length pre + 16 * length bs) (length pre) chain (pre @ concat bs @ post)
    = pre @ concat (cbc_enc enc chain bs) @ post"
  using assms
proof (induction bs arbitrary: pre chain)
  case Nil
  then show ?case by (subst cbc_encrypt_loop.simps) simp
next
  case (Cons b bs)
  let ?c = "enc (xor_block b chain)"
  have len: "length ?c = 16" using Cons.prems by (simp add: enc_length)
  have "cbc_encrypt_loop enc (length (pre @ ?c) + 16 * length bs) (length (pre @ ?c)) ?c
      ((pre @ ?c) @ concat bs @ post) = (pre @ ?c) @ concat (cbc_enc enc ?c bs) @ post"
    using Cons by (intro Cons.IH) simp
  then show ?case using Cons.prems len
    by (subst cbc_encrypt_loop.simps) (simp add: mem_read_def mem_write_def Let_def add.assoc)
qed

lemma decrypt_loop:
  assumes "blocks_ok bs"
  shows "cbc_decrypt_loop dec (length pre + 16 * length bs) (length pre) prev (pre @ concat bs @ post)
    = pre @ concat (cbc_dec dec prev bs) @ post"
  using assms
proof (induction bs arbitrary: pre prev)
  case Nil
  then show ?case by (subst cbc_decrypt_loop.simps) simp
next
  case (Cons b bs)
  let ?p = "xor_block (dec b) prev"
  have len: "length ?p = 16" using Cons.prems by (simp add: dec_length)
  have "cbc_decrypt_loop dec (length (pre @ ?p) + 16 * length bs) (length (pre @ ?p)) b
      ((pre @ ?p) @ concat bs @ post) = (pre @ ?p) @ concat (cbc_dec dec b bs) @ post"
    using Cons by (intro Cons.IH) simp
  then show ?case using Cons.prems len
    by (subst cbc_decrypt_loop.simps) (simp add: mem_read_def mem_write_def Let_def add.assoc)
qed

lemma cbc_enc_ok: "blocks_ok bs \<Longrightarrow> blocks_ok (cbc_enc enc chain bs) \<and> length (cbc_enc enc chain bs) = length bs"
  by (induction bs arbitrary: chain) (simp_all add: Let_def enc_length)

lemma cbc_dec_enc: "blocks_ok bs \<Longrightarrow> cbc_dec dec chain (cbc_enc enc chain bs) = bs"
  by (induction bs arbitrary: chain) (simp_all add: Let_def dec_enc xor_block_twice)

end

definition keyed_core :: "aes \<Rightarrow> bytes \<Rightarrow> aes_core" where
  "keyed_core a key = key_expansion key (aes_core_new (aes_mode a) (aes_key_bits a))"

lemma keyed_core_nr: "0 < core_nr (keyed_core a key)"
  by (simp add: keyed_core_def key_expansion_def aes_core_new_def Let_def)

interpretation aes_cipher: block_cipher "encrypt_block (keyed_core a key)" "decrypt_block (keyed_core a key)"
  for a key
  by unfold_locales (simp_all add: decrypt_encrypt_block keyed_core_nr)

section \<open>Properties\<close>

lemma aes_encrypt_unfold:
  assumes "length key = aes_key_size a" and "length iv = aes_iv_size a"
    and "length p \<le> length out" and "is_block_aligned (length p)"
  shows "aes_encrypt a key iv p out
    = Inr (concat (cbc_enc (encrypt_block (keyed_core a key)) iv (blocks16 p)) @ drop (length p) out)"
proof (cases "p = []")
  case True
  then show ?thesis using assms by (simp add: aes_encrypt_def Let_def blocks16.simps)
next
  case False
  let ?bs = "blocks16 p"
  have c: "concat ?bs = p" using assms(4) by (simp add: is_block_aligned_def concat_blocks16)
  have n: "16 * length ?bs = length p" using length_concat_blocks [OF blocks16_ok [of p]] c by simp
  show ?thesis
    using False assms aes_cipher.encrypt_loop [OF blocks16_ok, of a key "[]" p iv "drop (length p) out"]
    by (simp add: aes_encrypt_def Let_def keyed_core_def mem_write_def c n)
qed

lemma aes_decrypt_unfold:
  assumes "length key = aes_key_size a" and "length iv = aes_iv_size a"
    and "length c \<le> length out" and "is_block_aligned (length c)"
  shows "aes_decrypt a key iv c out
    = Inr (concat (cbc_dec (decrypt_block (keyed_core a key)) iv (blocks16 c)) @ drop (length c) out)"
proof (cases "c = []")
  case True
  then show ?thesis using assms by (simp add: aes_decrypt_def Let_def blocks16.simps)
next
  case False
  let ?bs = "blocks16 c"
  have c: "concat ?bs = c" using assms(4) by (simp add: is_block_aligned_def concat_blocks16)
  have n: "16 * length ?bs = length c" using length_concat_blocks [OF blocks16_ok [of c]] c by simp
  show ?thesis
    using False assms aes_cipher.decrypt_loop [OF blocks16_ok, of a key "[]" c iv "drop (length c) out"]
    by (simp add: aes_decrypt_def Let_def keyed_core_def mem_write_def c n)
qed

text \<open>
  Property C4. \<open>aes::decrypt\<close> inverts \<open>aes::encrypt\<close>: for every object the constructor makes, each key size and
  every key and IV of the right length, a plaintext whose length is a multiple of 16 is encrypted to a ciphertext of the same
  length, which decrypts to the plaintext.
\<close>

theorem aes_cbc_roundtrip:
  assumes "aes_new mode kb = Some a" and "length key = key_bits_value kb div 8" and "length iv = 16" and "length p mod 16 = 0"
  shows "\<exists>c. aes_encrypt_vec a key iv p = Inr c \<and> length c = length p \<and> aes_decrypt_vec a key iv c = Inr p"
proof -
  let ?a = a
  let ?bs = "cbc_enc (encrypt_block (keyed_core ?a key)) iv (blocks16 p)"
  have k: "length key = aes_key_size ?a" "length iv = aes_iv_size ?a" using assms(1-3) by (auto simp: aes_new_def split: if_splits)
  have ok: "blocks_ok ?bs" and n: "length ?bs = length (blocks16 p)"
    using aes_cipher.cbc_enc_ok [OF blocks16_ok] by blast+
  have cp: "concat (blocks16 p) = p" using assms(4) by (rule concat_blocks16)
  have len: "length (concat ?bs) = length p"
    using length_concat_blocks [OF ok] length_concat_blocks [OF blocks16_ok [of p]] n cp by simp
  have "aes_encrypt_vec ?a key iv p = Inr (concat ?bs)"
    using aes_encrypt_unfold [OF k] assms(4) by (simp add: aes_encrypt_vec_def is_block_aligned_def)
  moreover have "aes_decrypt_vec ?a key iv (concat ?bs) = Inr p"
    using aes_decrypt_unfold [OF k, of "concat ?bs"] assms(4) len ok cp
    by (simp add: aes_decrypt_vec_def is_block_aligned_def blocks16_concat aes_cipher.cbc_dec_enc [OF blocks16_ok])
  ultimately show ?thesis using len by blast
qed

theorem aes_cbc_roundtrip_witness:
  "\<exists>a c. aes_new AES_CBC AES_256 = Some a \<and> aes_encrypt_vec a (replicate 32 7) (replicate 16 9) (replicate 48 1) = Inr c
    \<and> length c = 48 \<and> aes_decrypt_vec a (replicate 32 7) (replicate 16 9) c = Inr (replicate 48 1)"
proof -
  obtain a where a: "aes_new AES_CBC AES_256 = Some a" by (simp add: aes_new_def)
  from aes_cbc_roundtrip [OF this, of "replicate 32 7" "replicate 16 9" "replicate 48 1"] a show ?thesis by simp
qed

text \<open>
  Property C20. \<open>aes::encrypt\<close> computes cipher block chaining, in place: the output buffer starts with the
  blocks \<open>C\<^sub>i = E (P\<^sub>i XOR C\<^sub>i\<^sub>-\<^sub>1)\<close>, and its bytes beyond the length of the plaintext are unchanged.
\<close>

theorem aes_encrypt_is_cbc:
  assumes "length key = aes_key_size a" and "length iv = aes_iv_size a"
    and "length p \<le> length out" and "is_block_aligned (length p)"
  shows "aes_encrypt a key iv p out
    = Inr (concat (cbc_enc (encrypt_block (key_expansion key (aes_core_new (aes_mode a) (aes_key_bits a)))) iv
             (blocks16 p)) @ drop (length p) out)"
  using aes_encrypt_unfold [OF assms] by (simp add: keyed_core_def)

theorem aes_encrypt_is_cbc_witness:
  "\<exists>a. aes_new AES_CBC AES_128 = Some a
    \<and> aes_encrypt a (replicate 16 1) (replicate 16 2) (replicate 16 3) (replicate 18 4)
      = Inr (encrypt_block (key_expansion (replicate 16 1) (aes_core_new AES_CBC AES_128))
             (xor_block (replicate 16 3) (replicate 16 2)) @ [4, 4])"
proof -
  have b: "blocks16 (replicate 16 (3 :: u8)) = [replicate 16 3]"
    by (subst blocks16.simps, simp, subst blocks16.simps, simp)
  have d: "drop 16 (replicate 18 (4 :: u8)) = [4, 4]" by (simp add: numeral_eq_Suc)
  let ?a = "\<lparr>aes_mode = AES_CBC, aes_key_bits = AES_128, aes_key_size = 16, aes_iv_size = 16\<rparr>"
  have "aes_new AES_CBC AES_128 = Some ?a" by (simp add: aes_new_def)
  moreover have "aes_encrypt ?a (replicate 16 1) (replicate 16 2) (replicate 16 3) (replicate 18 4)
      = Inr (encrypt_block (key_expansion (replicate 16 1) (aes_core_new AES_CBC AES_128))
             (xor_block (replicate 16 3) (replicate 16 2)) @ [4, 4])"
    using aes_encrypt_is_cbc [of "replicate 16 1" ?a "replicate 16 2" "replicate 16 3" "replicate 18 4"] d
    by (simp add: is_block_aligned_def b Let_def)
  ultimately show ?thesis by blast
qed

text \<open>
  For every key schedule, \<open>decrypt_block\<close> inverts \<open>encrypt_block\<close> on blocks of 16 bytes: the
  inverse tables, row shifts and column mixes undo the forward ones, round by round.
\<close>

theorem aes_block_inverse:
  assumes "length b = 16"
  shows "length (encrypt_block (key_expansion key (aes_core_new mode kb)) b) = 16
    \<and> decrypt_block (key_expansion key (aes_core_new mode kb))
        (encrypt_block (key_expansion key (aes_core_new mode kb)) b) = b"
  using assms by (auto intro!: decrypt_encrypt_block simp: key_expansion_def aes_core_new_def Let_def)

theorem aes_block_inverse_witness:
  "decrypt_block (key_expansion (replicate 24 5) (aes_core_new AES_CBC AES_192))
     (encrypt_block (key_expansion (replicate 24 5) (aes_core_new AES_CBC AES_192)) (replicate 16 0))
   = replicate 16 0"
  using aes_block_inverse [of "replicate 16 0"] by simp

section \<open>Key generation\<close>

lemma fill_random_loop_prefix:
  "m \<le> n \<Longrightarrow> rand_seed s = rand_seed t
    \<Longrightarrow> fst (fill_random_loop now m s) = take m (fst (fill_random_loop now n t))"
proof (induction m arbitrary: n s t)
  case (Suc m)
  then obtain k where n: "n = Suc k" "m \<le> k" by (cases n) auto
  have r: "fst (rand_next now s) = fst (rand_next now t)"
    "rand_seed (snd (rand_next now s)) = rand_seed (snd (rand_next now t))"
    using Suc.prems(2) by (simp_all add: rand_next_def Let_def)
  show ?case using Suc.IH [OF n(2) r(2)] r(1) by (simp add: n Let_def split_beta)
qed simp

lemma length_fill_random_loop: "length (fst (fill_random_loop now n st)) = n"
  by (induction n arbitrary: st) (simp_all add: Let_def split_beta)

text \<open>
  Property C21. \<open>fill_random\<close> reseeds the generator from the clock, so its bytes depend on nothing else: a key
  and an IV generated in the same millisecond have the sizes \<open>encrypt\<close> asks for, and the IV is the first 16
  bytes of the key, whatever the generator produced before.
\<close>

theorem aes_iv_is_key_prefix:
  assumes "aes_new mode kb = Some a"
  shows "length (fst (generate_key now_ms now a st)) = key_bits_value kb div 8
   \<and> length (fst (generate_iv now_ms now a st')) = 16
   \<and> fst (generate_iv now_ms now a st') = take 16 (fst (generate_key now_ms now a st))"
proof -
  have "16 \<le> key_bits_value kb div 8" by (cases kb) simp_all
  moreover have "aes_key_size a = key_bits_value kb div 8" "aes_iv_size a = 16" using assms by (auto simp: aes_new_def split: if_splits)
  ultimately show ?thesis
    by (auto simp: generate_key_def generate_iv_def fill_random_def length_fill_random_loop srand_seed_def intro!: fill_random_loop_prefix)
qed

theorem aes_iv_is_key_prefix_witness:
  "\<exists>a. aes_new AES_CBC AES_256 = Some a
    \<and> fst (generate_iv 1700000000000 7 a \<lparr>rand_seed = 5, rand_seed_64 = 0\<rparr>)
      = take 16 (fst (generate_key 1700000000000 7 a \<lparr>rand_seed = 1, rand_seed_64 = 2\<rparr>))"
proof -
  obtain a where a: "aes_new AES_CBC AES_256 = Some a" by (simp add: aes_new_def)
  from aes_iv_is_key_prefix [OF this] a show ?thesis by blast
qed

end
