(* ===== verification/Qlog_Vernam.thy ===== *)
theory Qlog_Vernam
  imports Qlog_Prelude
begin

text \<open>
  The Vernam (key-stream XOR) cipher of \<open>src/src/encryption/vernam.cpp\<close> in its four variants and the
  dispatcher. The buffer is the list of its bytes together with its base address \<open>addr\<close>, on which the
  head loop and the aligned vector loads depend; sizes and positions are natural numbers, with the
  code's masks written as masks. \<open>None\<close> stands for a call that does not return, \<open>Inl\<close> for one that faults on a
  misaligned vector access.
\<close>

unbundle bit_operations_syntax

text \<open>\<open>chunk_len & ~align_mask\<close> for a power of two \<open>w = align_mask + 1\<close>.\<close>

definition align_down :: "nat \<Rightarrow> nat \<Rightarrow> nat" where
  "align_down w n = n - n mod w"

text \<open>The byte loops: with the key position masked after each byte, and (in the head loops of the AVX2
  and NEON variants) without.\<close>

fun vernam_bytes :: "bytes \<Rightarrow> nat \<Rightarrow> nat \<Rightarrow> bytes \<Rightarrow> nat \<Rightarrow> nat \<Rightarrow> bytes \<times> nat" where
  "vernam_bytes key key_mask 0 buf p k = (buf, k)"
| "vernam_bytes key key_mask (Suc n) buf p k =
     vernam_bytes key key_mask n (buf[p := buf ! p XOR key ! k]) (p + 1) ((k + 1) AND key_mask)"

fun vernam_bytes_unmasked :: "bytes \<Rightarrow> nat \<Rightarrow> bytes \<Rightarrow> nat \<Rightarrow> nat \<Rightarrow> bytes \<times> nat" where
  "vernam_bytes_unmasked key 0 buf p k = (buf, k)"
| "vernam_bytes_unmasked key (Suc n) buf p k =
     vernam_bytes_unmasked key n (buf[p := buf ! p XOR key ! k]) (p + 1) (k + 1)"

datatype vernam_fault = Misaligned_access

text \<open>The inner loops: 64-bit words, and vectors of \<open>w\<close> bytes whose loads and stores of the buffer fault
  unless the address is a multiple of \<open>al\<close> (1 for the unaligned accesses of NEON).\<close>

fun vernam_u64s :: "bytes \<Rightarrow> nat \<Rightarrow> bytes \<Rightarrow> nat \<Rightarrow> nat \<Rightarrow> vernam_fault + bytes" where
  "vernam_u64s key 0 buf p k = Inr buf"
| "vernam_u64s key (Suc n) buf p k =
     (let v = (le_word (mem_read buf p 8) :: u64) XOR le_word (mem_read key k 8)
      in vernam_u64s key n (mem_write buf p (le_bytes 8 v)) (p + 8) (k + 8))"

fun vernam_vectors :: "nat \<Rightarrow> nat \<Rightarrow> nat \<Rightarrow> bytes \<Rightarrow> nat \<Rightarrow> bytes \<Rightarrow> nat \<Rightarrow> nat \<Rightarrow> vernam_fault + bytes" where
  "vernam_vectors w al addr key 0 buf p k = Inr buf"
| "vernam_vectors w al addr key (Suc n) buf p k =
     (if (addr + p) mod al \<noteq> 0 then Inl Misaligned_access
      else
        let v = map2 (XOR) (mem_read buf p w) (mem_read key k w)
        in vernam_vectors w al addr key n (mem_write buf p v) (p + w) (k + w))"

text \<open>The main \<open>while\<close> loop, common to the variants; \<open>blk\<close> is the inner loop.\<close>

partial_function (option) vernam_loop ::
  "nat \<Rightarrow> (nat \<Rightarrow> bytes \<Rightarrow> nat \<Rightarrow> nat \<Rightarrow> vernam_fault + bytes) \<Rightarrow> nat \<Rightarrow> bytes \<Rightarrow> nat \<Rightarrow> nat \<Rightarrow> nat
    \<Rightarrow> (vernam_fault + bytes \<times> nat \<times> nat \<times> nat) option" where
  "vernam_loop w blk key_size_pow2 buf p remaining k =
     (if remaining \<ge> w then
        (let contiguous_key_len = key_size_pow2 - k;
             chunk_len = (if contiguous_key_len < remaining then contiguous_key_len else remaining);
             loop_len = align_down w chunk_len;
             count = loop_len div w
         in case blk count buf p k of
              Inl e \<Rightarrow> Some (Inl e)
            | Inr buf \<Rightarrow>
                let k = k + loop_len;
                    k = (if k = key_size_pow2 then 0 else k)
                in vernam_loop w blk key_size_pow2 buf (p + loop_len) (remaining - loop_len) k)
      else Some (Inr (buf, p, remaining, k)))"

text \<open>The masked byte loop after the main loop.\<close>

definition vernam_tail :: "bytes \<Rightarrow> nat \<Rightarrow> bytes \<times> nat \<times> nat \<times> nat \<Rightarrow> bytes" where
  "vernam_tail key key_mask st = (case st of (buf, p, remaining, k) \<Rightarrow>
     fst (vernam_bytes key key_mask remaining buf p (k AND key_mask)))"

definition vernam_encrypt_scalar :: "nat \<Rightarrow> bytes \<Rightarrow> nat \<Rightarrow> bytes \<Rightarrow> nat \<Rightarrow> nat \<Rightarrow> (vernam_fault + bytes) option" where
  "vernam_encrypt_scalar addr buf len key key_size_pow2 key_stream_offset =
     (if len = 0 then Some (Inr buf)
      else
        let key_mask = key_size_pow2 - 1;
            k = key_stream_offset AND key_mask;
            align_diff = (8 - (addr AND 7)) AND 7;
            head_len = (if align_diff < len then align_diff else len);
            (buf, k) = vernam_bytes key key_mask head_len buf 0 k;
            remaining = len - head_len
        in if remaining = 0 then Some (Inr buf)
           else map_option (map_sum id (vernam_tail key key_mask))
                  (vernam_loop 8 (vernam_u64s key) key_size_pow2 buf head_len remaining k))"

definition vernam_encrypt_sse :: "nat \<Rightarrow> bytes \<Rightarrow> nat \<Rightarrow> bytes \<Rightarrow> nat \<Rightarrow> nat \<Rightarrow> (vernam_fault + bytes) option" where
  "vernam_encrypt_sse addr buf len key key_size_pow2 key_stream_offset =
     (let key_mask = key_size_pow2 - 1;
          k = key_stream_offset AND key_mask;
          align_diff = (16 - (addr AND 15)) AND 15;
          head_len = (if align_diff < len then align_diff else len);
          (buf, k) = vernam_bytes key key_mask head_len buf 0 k;
          remaining = len - head_len
      in if remaining < 16 then Some (Inr (vernam_tail key key_mask (buf, head_len, remaining, k)))
         else map_option (map_sum id (vernam_tail key key_mask))
                (vernam_loop 16 (vernam_vectors 16 16 addr key) key_size_pow2 buf head_len remaining k))"

definition vernam_encrypt_avx2 :: "nat \<Rightarrow> bytes \<Rightarrow> nat \<Rightarrow> bytes \<Rightarrow> nat \<Rightarrow> nat \<Rightarrow> (vernam_fault + bytes) option" where
  "vernam_encrypt_avx2 addr buf len key key_size_pow2 key_stream_offset =
     (let key_mask = key_size_pow2 - 1;
          k = key_stream_offset AND key_mask;
          align_diff = (32 - (addr AND 31)) AND 31;
          head_len = (if align_diff < len then align_diff else len);
          (buf, k) = vernam_bytes_unmasked key head_len buf 0 k;
          remaining = len - head_len
      in if remaining < 32 then Some (Inr (vernam_tail key key_mask (buf, head_len, remaining, k)))
         else map_option (map_sum id (vernam_tail key key_mask))
                (vernam_loop 32 (vernam_vectors 32 32 addr key) key_size_pow2 buf head_len remaining k))"

definition vernam_encrypt_neon :: "nat \<Rightarrow> bytes \<Rightarrow> nat \<Rightarrow> bytes \<Rightarrow> nat \<Rightarrow> nat \<Rightarrow> (vernam_fault + bytes) option" where
  "vernam_encrypt_neon addr buf len key key_size_pow2 key_stream_offset =
     (let key_mask = key_size_pow2 - 1;
          k = key_stream_offset AND key_mask;
          align_diff = (16 - (addr AND 15)) AND 15;
          head_len = (if align_diff < len then align_diff else len);
          (buf, k) = vernam_bytes_unmasked key head_len buf 0 k;
          remaining = len - head_len
      in map_option (map_sum id (vernam_tail key key_mask))
           (vernam_loop 16 (vernam_vectors 16 1 addr key) key_size_pow2 buf head_len remaining k))"

text \<open>The dispatcher: the architecture is fixed when the library is built, the AVX2 flag is found at run
  time, and test builds may select a variant.\<close>

datatype vernam_arch = X86 | ARM_NEON | ARM | OTHER_ARCH

datatype vernam_mode = auto_detect | scalar | sse | avx2

definition vernam_encrypt_32bytes_aligned ::
  "vernam_arch \<Rightarrow> vernam_mode option \<Rightarrow> bool \<Rightarrow> nat \<Rightarrow> bytes \<Rightarrow> nat \<Rightarrow> bytes \<Rightarrow> nat \<Rightarrow> nat \<Rightarrow> (vernam_fault + bytes) option" where
  "vernam_encrypt_32bytes_aligned arch unit_test_mode avx2_support =
     (case arch of
        X86 \<Rightarrow> if unit_test_mode = Some scalar then vernam_encrypt_scalar
               else if unit_test_mode = Some sse then vernam_encrypt_sse
               else if avx2_support then vernam_encrypt_avx2
               else vernam_encrypt_sse
      | ARM_NEON \<Rightarrow> if unit_test_mode = Some scalar then vernam_encrypt_scalar else vernam_encrypt_neon
      | ARM \<Rightarrow> vernam_encrypt_scalar
      | OTHER_ARCH \<Rightarrow> vernam_encrypt_scalar)"

section \<open>The key stream\<close>

text \<open>The reference: byte \<open>i\<close> is XORed with byte \<open>(offset + i) mod size\<close> of the key.\<close>

definition vernam_ref :: "bytes \<Rightarrow> nat \<Rightarrow> nat \<Rightarrow> nat \<Rightarrow> bytes \<Rightarrow> bytes" where
  "vernam_ref key ks off n buf = map (\<lambda>i. buf ! i XOR key ! ((off + i) mod ks)) [0..<n] @ drop n buf"

lemma length_vernam_ref [simp]: "n \<le> length buf \<Longrightarrow> length (vernam_ref key ks off n buf) = length buf"
  by (simp add: vernam_ref_def)

lemma nth_vernam_ref:
  "n \<le> length buf \<Longrightarrow> i < length buf
    \<Longrightarrow> vernam_ref key ks off n buf ! i = (if i < n then buf ! i XOR key ! ((off + i) mod ks) else buf ! i)"
  by (simp add: vernam_ref_def nth_append)

lemma vernam_ref_update:
  assumes "p < length buf"
  shows "(vernam_ref key ks off p buf)[p := vernam_ref key ks off p buf ! p XOR key ! ((off + p) mod ks)]
    = vernam_ref key ks off (Suc p) buf"
  using assms by (auto intro!: nth_equalityI simp: nth_vernam_ref nth_list_update)

lemma vernam_ref_vector:
  assumes "p + w \<le> length buf" and "k + w \<le> ks" and "ks \<le> length key" and "k mod ks = (off + p) mod ks"
  shows "mem_write (vernam_ref key ks off p buf) p
      (map2 (XOR) (mem_read (vernam_ref key ks off p buf) p w) (mem_read key k w))
    = vernam_ref key ks off (p + w) buf"
proof (rule nth_equalityI)
  have key: "key ! (k + j) = key ! ((off + p + j) mod ks)" if "j < w" for j
  proof -
    have "(off + p + j) mod ks = (k + j) mod ks" using assms(4) by (metis mod_add_left_eq)
    then show ?thesis using that assms(2) by simp
  qed
  fix i assume "i < length (mem_write (vernam_ref key ks off p buf) p
      (map2 (XOR) (mem_read (vernam_ref key ks off p buf) p w) (mem_read key k w)))"
  with assms have i: "i < length buf" by simp
  show "mem_write (vernam_ref key ks off p buf) p
      (map2 (XOR) (mem_read (vernam_ref key ks off p buf) p w) (mem_read key k w)) ! i
    = vernam_ref key ks off (p + w) buf ! i"
    using assms i key [of "i - p"]
    by (auto simp: nth_mem_write nth_mem_read nth_vernam_ref)
qed (use assms in simp)

lemma and_pow2_mask: "(x :: nat) AND (2 ^ m - Suc 0) = x mod 2 ^ m"
  using take_bit_eq_mask [of m x] by (simp add: take_bit_eq_mod mask_eq_exp_minus_1)

lemma vernam_bytes_ref:
  assumes "ks = 2 ^ m" and "p + n \<le> length buf" and "k = (off + p) mod ks"
  shows "vernam_bytes key (ks - 1) n (vernam_ref key ks off p buf) p k
    = (vernam_ref key ks off (p + n) buf, (off + p + n) mod ks)"
  using assms(2,3)
proof (induction n arbitrary: p k)
  case (Suc n)
  show ?case using Suc.prems Suc.IH [of "Suc p" "((off + p) mod ks + 1) mod ks"]
    by (simp add: vernam_ref_update and_pow2_mask mod_Suc_eq assms(1))
qed simp

lemma vernam_bytes_unmasked_ref:
  assumes "p + n \<le> length buf" and "k mod ks = (off + p) mod ks" and "k + n \<le> ks"
  shows "vernam_bytes_unmasked key n (vernam_ref key ks off p buf) p k
    = (vernam_ref key ks off (p + n) buf, k + n)"
  using assms
proof (induction n arbitrary: p k)
  case (Suc n)
  then have "k = (off + p) mod ks" "Suc k mod ks = (off + Suc p) mod ks"
    by (simp, metis add_Suc_right mod_Suc_eq)
  then show ?case using Suc.prems Suc.IH [of "Suc p" "Suc k"] by (simp add: vernam_ref_update)
qed simp

text \<open>XOR of two 64-bit words is XOR of their bytes.\<close>

lemma u64_xor_bytes:
  assumes "length a = 8" and "length b = 8"
  shows "le_bytes 8 ((le_word a :: u64) XOR le_word b) = map2 (XOR) a b"
proof (rule nth_equalityI)
  fix i assume "i < length (le_bytes 8 ((le_word a :: u64) XOR le_word b))"
  then have i: "i < 8" by (simp add: le_bytes_def)
  have "le_bytes 8 (le_word a :: u64) ! i XOR le_bytes 8 (le_word b :: u64) ! i = a ! i XOR b ! i"
    using assms le_bytes_word [of a, where 'a = 64] le_bytes_word [of b, where 'a = 64] by simp
  then show "le_bytes 8 ((le_word a :: u64) XOR le_word b) ! i = map2 (XOR) a b ! i"
    using i assms by (simp add: le_bytes_def unsigned_xor_eq)
qed (use assms in \<open>simp add: le_bytes_def\<close>)

lemma vernam_u64s_vectors:
  assumes "p + 8 * n \<le> length buf" and "k + 8 * n \<le> length key"
  shows "vernam_u64s key n buf p k = vernam_vectors 8 1 addr key n buf p k"
  using assms by (induction n arbitrary: buf p k) (simp_all add: Let_def u64_xor_bytes)

lemma vernam_vectors_ref:
  assumes "p + w * n \<le> length buf" and "k + w * n \<le> ks" and "ks \<le> length key"
    and "k mod ks = (off + p) mod ks" and "(addr + p) mod al = 0" and "al dvd w"
  shows "vernam_vectors w al addr key n (vernam_ref key ks off p buf) p k
    = Inr (vernam_ref key ks off (p + w * n) buf)"
  using assms
proof (induction n arbitrary: p k)
  case (Suc n)
  have k: "(k + w) mod ks = (off + (p + w)) mod ks" using Suc.prems(4) by (metis add.assoc mod_add_left_eq)
  have al: "(addr + (p + w)) mod al = 0"
    using Suc.prems(5,6) by (metis add.assoc dvd_add dvd_eq_mod_eq_0)
  have "mem_write (vernam_ref key ks off p buf) p
      (map2 (XOR) (mem_read (vernam_ref key ks off p buf) p w) (mem_read key k w))
    = vernam_ref key ks off (p + w) buf"
    using Suc.prems by (intro vernam_ref_vector) simp_all
  then show ?case using Suc.IH [of "p + w" "k + w"] Suc.prems k al by (simp add: Let_def add.assoc)
qed simp

text \<open>The contract of an inner loop: it encrypts \<open>w * n\<close> bytes at an aligned position.\<close>

locale vernam_inner =
  fixes w :: nat and blk :: "nat \<Rightarrow> bytes \<Rightarrow> nat \<Rightarrow> nat \<Rightarrow> vernam_fault + bytes" and addr :: nat and key :: bytes
  assumes width: "0 < w"
    and blk_ref: "p + w * n \<le> length buf \<Longrightarrow> k + w * n \<le> ks \<Longrightarrow> ks \<le> length key
      \<Longrightarrow> k mod ks = (off + p) mod ks \<Longrightarrow> (addr + p) mod w = 0
      \<Longrightarrow> blk n (vernam_ref key ks off p buf) p k = Inr (vernam_ref key ks off (p + w * n) buf)"
begin

text \<open>The main loop ends with less than a vector left. A key position at the end of the key costs one
  iteration that only resets it.\<close>

lemma loop_ref:
  assumes "p + r \<le> length buf" and "k \<le> ks" and "k mod ks = (off + p) mod ks"
    and "w dvd k" and "(addr + p) mod w = 0" and width_ks: "w dvd ks" and key_size: "ks \<le> length key" "0 < ks"
  shows "\<exists>p' r' k'. vernam_loop w blk ks (vernam_ref key ks off p buf) p r k
      = Some (Inr (vernam_ref key ks off p' buf, p', r', k')) \<and> p' + r' = p + r \<and> k' mod ks = (off + p') mod ks"
  using assms(1-5)
proof (induction "2 * r + (if k = ks then 1 else 0)" arbitrary: p r k rule: less_induct)
  case less
  show ?case
  proof (cases "w \<le> r")
    case False
    then show ?thesis using less.prems by (subst vernam_loop.simps) auto
  next
    case True
    define c where "c = (if ks - k < r then ks - k else r)"
    define l where "l = align_down w c"
    let ?k = "if k + l = ks then 0 else k + l"
    have l: "l \<le> c" "w dvd l" "l = w * (l div w)"
      by (auto simp: l_def align_down_def)
    have bounds: "k + l \<le> ks" "l \<le> r" using l(1) less.prems(2) by (auto simp: c_def split: if_splits)
    have "blk (l div w) (vernam_ref key ks off p buf) p k = Inr (vernam_ref key ks off (p + w * (l div w)) buf)"
      using less.prems bounds l(3) key_size by (intro blk_ref) simp_all
    then have step: "vernam_loop w blk ks (vernam_ref key ks off p buf) p r k
        = vernam_loop w blk ks (vernam_ref key ks off (p + l) buf) (p + l) (r - l) ?k"
      using True l(3) by (subst vernam_loop.simps) (simp add: Let_def c_def [symmetric] l_def [symmetric])
    have progress: "2 * (r - l) + (if ?k = ks then 1 else 0) < 2 * r + (if k = ks then 1 else 0 :: nat)"
    proof (cases "k = ks")
      case True
      then show ?thesis using bounds key_size(2) by auto
    next
      case False
      then have "w \<le> ks - k" using less.prems(2,4) width_ks
        by (metis diff_is_0_eq dvd_diff_nat dvd_imp_le le_antisym not_gr_zero)
      then have "w \<le> c" using True by (simp add: c_def)
      then have "0 < l" using width unfolding l_def align_down_def
        by (metis diff_diff_cancel le_less_trans mod_less_divisor mod_less_eq_dividend not_gr_zero not_le
            diff_is_0_eq)
      then show ?thesis using bounds key_size(2) by auto
    qed
    have "(k + l) mod ks = (off + (p + l)) mod ks"
      using less.prems(3) by (metis add.assoc mod_add_left_eq)
    then have kmod: "?k mod ks = (off + (p + l)) mod ks" by auto
    have "w dvd ?k" "(addr + (p + l)) mod w = 0"
      using less.prems(4,5) l(2) by (simp, metis add.assoc dvd_add dvd_eq_mod_eq_0)
    then have "\<exists>p' r' k'. vernam_loop w blk ks (vernam_ref key ks off (p + l) buf) (p + l) (r - l) ?k
      = Some (Inr (vernam_ref key ks off p' buf, p', r', k')) \<and> p' + r' = p + l + (r - l)
        \<and> k' mod ks = (off + p') mod ks"
      using progress less.prems bounds kmod key_size by (intro less.hyps) auto
    then show ?thesis unfolding step using bounds by simp
  qed
qed

lemma loop_tail_ref:
  assumes "ks = 2 ^ m" and "p + r \<le> length buf" and "k \<le> ks" and "k mod ks = (off + p) mod ks"
    and "r \<noteq> 0 \<Longrightarrow> w dvd k \<and> (addr + p) mod w = 0" and "w dvd ks" and "ks \<le> length key"
  shows "map_option (map_sum id (vernam_tail key (ks - 1))) (vernam_loop w blk ks (vernam_ref key ks off p buf) p r k)
    = Some (Inr (vernam_ref key ks off (p + r) buf))"
proof -
  have "\<exists>p' r' k'. vernam_loop w blk ks (vernam_ref key ks off p buf) p r k
      = Some (Inr (vernam_ref key ks off p' buf, p', r', k')) \<and> p' + r' = p + r \<and> k' mod ks = (off + p') mod ks"
  proof (cases "r = 0")
    case True
    then show ?thesis using width assms(4) by (subst vernam_loop.simps) simp
  next
    case False
    then show ?thesis using assms by (intro loop_ref) simp_all
  qed
  then obtain p' r' k' where l: "vernam_loop w blk ks (vernam_ref key ks off p buf) p r k
      = Some (Inr (vernam_ref key ks off p' buf, p', r', k'))" "p' + r' = p + r" "k' mod ks = (off + p') mod ks"
    by blast
  then show ?thesis
    using vernam_bytes_ref [OF assms(1), of p' r' buf "k' mod ks" off key] assms(2)
    by (simp add: vernam_tail_def and_pow2_mask assms(1))
qed

end

interpretation scalar_inner: vernam_inner 8 "vernam_u64s key" addr key for addr key
proof
  show "vernam_u64s key n (vernam_ref key ks off p buf) p k = Inr (vernam_ref key ks off (p + 8 * n) buf)"
    if "p + 8 * n \<le> length buf" "k + 8 * n \<le> ks" "ks \<le> length key" "k mod ks = (off + p) mod ks"
      "(addr + p) mod 8 = 0" for p n buf k ks off
    using that by (subst vernam_u64s_vectors [where addr = addr]) (simp_all add: vernam_vectors_ref)
qed simp

interpretation sse_inner: vernam_inner 16 "vernam_vectors 16 16 addr key" addr key for addr key
  by unfold_locales (simp_all add: vernam_vectors_ref)

interpretation avx2_inner: vernam_inner 32 "vernam_vectors 32 32 addr key" addr key for addr key
  by unfold_locales (simp_all add: vernam_vectors_ref)

interpretation neon_inner: vernam_inner 16 "vernam_vectors 16 1 addr key" addr key for addr key
  by unfold_locales (simp_all add: vernam_vectors_ref)

section \<open>Properties\<close>

text \<open>The head loop aligns the buffer, and with it the key position, unless the buffer ends before.\<close>

definition head_len_of :: "nat \<Rightarrow> nat \<Rightarrow> nat \<Rightarrow> nat" where
  "head_len_of w addr len = (let d = (w - addr mod w) mod w in if d < len then d else len)"

lemma aligned_up: "0 < w \<Longrightarrow> (addr + (w - addr mod w) mod w) mod w = (0 :: nat)"
  by (metis add.commute le_add_diff_inverse2 mod_add_left_eq mod_add_right_eq mod_le_divisor mod_less_divisor mod_self order_less_imp_le)

lemma same_offset:
  assumes "(a + d) mod n = 0" "(b + d) mod n = (0 :: nat)"
  shows "a mod n = b mod n"
proof (cases "a \<le> b")
  case True
  have "n dvd (b + d) - (a + d)" using assms by (intro dvd_diff_nat) (simp_all add: dvd_eq_mod_eq_0)
  then show ?thesis using True mod_eq_dvd_iff_nat [of a b n] by simp
next
  case False
  have "n dvd (a + d) - (b + d)" using assms by (intro dvd_diff_nat) (simp_all add: dvd_eq_mod_eq_0)
  then show ?thesis using False mod_eq_dvd_iff_nat [of b a n] by simp
qed

lemma head_len_aligned:
  fixes w addr off ks len :: nat
  assumes "0 < w" and "w dvd ks" and "0 < ks" and "addr mod w = off mod w"
  defines "h \<equiv> head_len_of w addr len"
  shows "h \<le> len" "off mod ks + h \<le> ks"
    "len - h \<noteq> 0 \<Longrightarrow> (addr + h) mod w = 0 \<and> w dvd (off mod ks + h) \<and> w dvd ((off + h) mod ks)"
proof -
  let ?d = "(w - addr mod w) mod w"
  show "h \<le> len" by (simp add: h_def head_len_of_def Let_def)
  have d: "(addr + ?d) mod w = 0" using assms(1) by (rule aligned_up)
  have k: "off mod ks mod w = addr mod w" using assms(2,4) by (simp add: mod_mod_cancel)
  have kd: "w dvd (off mod ks + ?d)" using d k by (metis dvd_eq_mod_eq_0 mod_add_left_eq)
  have hd: "h \<le> ?d" by (simp add: h_def head_len_of_def Let_def)
  have "off mod ks + ?d \<le> ks"
  proof (cases "?d = 0")
    case True
    then show ?thesis using assms(3) by (simp add: less_imp_le)
  next
    case False
    obtain q where q: "off mod ks + ?d = w * q" using kd by blast
    obtain z where z: "ks = w * z" using assms(2) by blast
    have "off mod ks < ks" "?d < w" using assms(1,3) by simp_all
    then have "w * q < w * z + w" using q z by linarith
    then have "w * q < w * Suc z" by simp
    then have "q \<le> z" using assms(1) by (metis less_Suc_eq_le nat_mult_less_cancel_disj)
    then show ?thesis using q z by simp
  qed
  with hd show "off mod ks + h \<le> ks" by linarith
  show "(addr + h) mod w = 0 \<and> w dvd (off mod ks + h) \<and> w dvd ((off + h) mod ks)" if "len - h \<noteq> 0"
  proof -
    have h: "h = ?d" using that by (auto simp: h_def head_len_of_def Let_def split: if_splits)
    have "w dvd (off + h) mod ks"
      using kd assms(2) unfolding h by (metis dvd_mod mod_add_left_eq)
    then show ?thesis using d kd h by simp
  qed
qed

lemma vernam_ref_0: "vernam_ref key ks off 0 buf = buf"
  by (simp add: vernam_ref_def)

text \<open>The precondition of the public entry point: the key size is a power of two, at least 32, and the
  buffer is aligned relative to the key stream.\<close>

definition vernam_pre :: "nat \<Rightarrow> bytes \<Rightarrow> nat \<Rightarrow> bytes \<Rightarrow> nat \<Rightarrow> nat \<Rightarrow> bool" where
  "vernam_pre addr buf len key m off \<longleftrightarrow>
     5 \<le> m \<and> 2 ^ m \<le> length key \<and> len \<le> length buf \<and> addr mod 32 = off mod 32"

lemma vernam_preD:
  assumes "vernam_pre addr buf len key m off" and "j \<le> 5"
  shows "2 ^ j dvd (2 :: nat) ^ m" "2 ^ m \<le> length key" "len \<le> length buf" "addr mod 2 ^ j = off mod 2 ^ j"
proof -
  show "2 ^ j dvd (2 :: nat) ^ m" using assms by (intro le_imp_power_dvd) (simp add: vernam_pre_def)
  have "2 ^ j dvd (32 :: nat)" using le_imp_power_dvd [OF assms(2), of "2 :: nat"] by simp
  then show "addr mod 2 ^ j = off mod 2 ^ j"
    using assms(1) mod_mod_cancel [of "2 ^ j" 32 addr] mod_mod_cancel [of "2 ^ j" 32 off]
    by (simp add: vernam_pre_def)
qed (use assms in \<open>simp_all add: vernam_pre_def\<close>)

lemma masks:
  "(x :: nat) AND 7 = x mod 8" "x AND 15 = x mod 16" "x AND 31 = x mod 32"
  using and_pow2_mask [of x 3] and_pow2_mask [of x 4] and_pow2_mask [of x 5] by simp_all

lemma vernam_tail_ref:
  assumes "p + r \<le> length buf" and "k mod 2 ^ m = (off + p) mod 2 ^ m"
  shows "vernam_tail key (2 ^ m - Suc 0) (vernam_ref key (2 ^ m) off p buf, p, r, k)
    = vernam_ref key (2 ^ m) off (p + r) buf"
  using vernam_bytes_ref [OF refl, of p r buf "k mod 2 ^ m" off m key] assms
  by (simp add: vernam_tail_def and_pow2_mask)

lemma masked_head:
  assumes "n \<le> length buf"
  shows "vernam_bytes key (2 ^ m - Suc 0) n buf 0 (off mod 2 ^ m)
    = (vernam_ref key (2 ^ m) off n buf, (off + n) mod 2 ^ m)"
  using vernam_bytes_ref [OF refl, of 0 n buf "off mod 2 ^ m" off m key] assms by (simp add: vernam_ref_0)

lemma unmasked_head:
  assumes "n \<le> length buf" and "off mod 2 ^ m + n \<le> 2 ^ m"
  shows "vernam_bytes_unmasked key n buf 0 (off mod 2 ^ m)
    = (vernam_ref key (2 ^ m) off n buf, off mod 2 ^ m + n)"
  using vernam_bytes_unmasked_ref [of 0 n buf "off mod 2 ^ m" "2 ^ m" off key] assms by (simp add: vernam_ref_0)

lemma scalar_ref:
  assumes "vernam_pre addr buf len key m off"
  shows "vernam_encrypt_scalar addr buf len key (2 ^ m) off = Some (Inr (vernam_ref key (2 ^ m) off len buf))"
proof -
  let ?h = "head_len_of 8 addr len" and ?ks = "2 ^ m :: nat"
  note pre = vernam_preD [OF assms, of 3, simplified]
  note h = head_len_aligned [OF _ pre(1) _ pre(4), of len, simplified]
  have "map_option (map_sum id (vernam_tail key (?ks - 1)))
      (vernam_loop 8 (vernam_u64s key) ?ks (vernam_ref key ?ks off ?h buf) ?h (len - ?h) ((off + ?h) mod ?ks))
    = Some (Inr (vernam_ref key ?ks off (?h + (len - ?h)) buf))"
    using pre h by (intro scalar_inner.loop_tail_ref [where addr = addr, OF refl]) (simp_all add: less_imp_le)
  then show ?thesis using h(1) pre(3)
    by (auto simp: vernam_encrypt_scalar_def Let_def masks and_pow2_mask masked_head vernam_ref_0
        head_len_of_def [unfolded Let_def, symmetric] split_beta)
qed

lemma sse_ref:
  assumes "vernam_pre addr buf len key m off"
  shows "vernam_encrypt_sse addr buf len key (2 ^ m) off = Some (Inr (vernam_ref key (2 ^ m) off len buf))"
proof -
  let ?h = "head_len_of 16 addr len" and ?ks = "2 ^ m :: nat"
  note pre = vernam_preD [OF assms, of 4, simplified]
  note h = head_len_aligned [OF _ pre(1) _ pre(4), of len, simplified]
  have "map_option (map_sum id (vernam_tail key (?ks - 1)))
      (vernam_loop 16 (vernam_vectors 16 16 addr key) ?ks (vernam_ref key ?ks off ?h buf) ?h (len - ?h)
         ((off + ?h) mod ?ks))
    = Some (Inr (vernam_ref key ?ks off (?h + (len - ?h)) buf))"
    using pre h by (intro sse_inner.loop_tail_ref [where addr = addr, OF refl]) (simp_all add: less_imp_le)
  then show ?thesis using h(1) pre(3)
    by (auto simp: vernam_encrypt_sse_def Let_def masks and_pow2_mask masked_head vernam_tail_ref
        head_len_of_def [unfolded Let_def, symmetric] split_beta)
qed

lemma avx2_ref:
  assumes "vernam_pre addr buf len key m off"
  shows "vernam_encrypt_avx2 addr buf len key (2 ^ m) off = Some (Inr (vernam_ref key (2 ^ m) off len buf))"
proof -
  let ?h = "head_len_of 32 addr len" and ?ks = "2 ^ m :: nat"
  note pre = vernam_preD [OF assms, of 5, simplified]
  note h = head_len_aligned [OF _ pre(1) _ pre(4), of len, simplified]
  have "map_option (map_sum id (vernam_tail key (?ks - 1)))
      (vernam_loop 32 (vernam_vectors 32 32 addr key) ?ks (vernam_ref key ?ks off ?h buf) ?h (len - ?h)
         (off mod ?ks + ?h))
    = Some (Inr (vernam_ref key ?ks off (?h + (len - ?h)) buf))"
    using pre h by (intro avx2_inner.loop_tail_ref [where addr = addr, OF refl]) (simp_all add: mod_add_left_eq)
  then show ?thesis using h pre(3)
    by (auto simp: vernam_encrypt_avx2_def Let_def masks and_pow2_mask unmasked_head vernam_tail_ref
        head_len_of_def [unfolded Let_def, symmetric] split_beta mod_add_left_eq)
qed

lemma neon_ref:
  assumes "vernam_pre addr buf len key m off"
  shows "vernam_encrypt_neon addr buf len key (2 ^ m) off = Some (Inr (vernam_ref key (2 ^ m) off len buf))"
proof -
  let ?h = "head_len_of 16 addr len" and ?ks = "2 ^ m :: nat"
  note pre = vernam_preD [OF assms, of 4, simplified]
  note h = head_len_aligned [OF _ pre(1) _ pre(4), of len, simplified]
  have "map_option (map_sum id (vernam_tail key (?ks - 1)))
      (vernam_loop 16 (vernam_vectors 16 1 addr key) ?ks (vernam_ref key ?ks off ?h buf) ?h (len - ?h)
         (off mod ?ks + ?h))
    = Some (Inr (vernam_ref key ?ks off (?h + (len - ?h)) buf))"
    using pre h by (intro neon_inner.loop_tail_ref [where addr = addr, OF refl]) (simp_all add: mod_add_left_eq)
  then show ?thesis using h pre(3)
    by (auto simp: vernam_encrypt_neon_def Let_def masks and_pow2_mask unmasked_head
        head_len_of_def [unfolded Let_def, symmetric] split_beta)
qed

lemmas variant_refs = scalar_ref sse_ref avx2_ref neon_ref

lemma dispatch_ref:
  assumes "vernam_pre addr buf len key m off"
  shows "vernam_encrypt_32bytes_aligned arch test_mode has_avx2 addr buf len key (2 ^ m) off
    = Some (Inr (vernam_ref key (2 ^ m) off len buf))"
  using variant_refs [OF assms] by (cases arch) (simp_all add: vernam_encrypt_32bytes_aligned_def)

text \<open>
  Property C14. When buffer and key stream have the same alignment to 32 bytes and the key has a power of two of at least
  32 bytes, on every architecture and in every variant the cipher returns, touches no misaligned
  vector, and XORs byte \<open>i\<close> of the buffer with byte \<open>(offset + i) mod size\<close> of the key, leaving the bytes
  beyond \<open>len\<close> unchanged.
\<close>

theorem vernam_is_key_stream:
  assumes "vernam_pre addr buf len key m off"
  shows "vernam_encrypt_32bytes_aligned arch test_mode has_avx2 addr buf len key (2 ^ m) off
    = Some (Inr (map (\<lambda>i. buf ! i XOR key ! ((off + i) mod 2 ^ m)) [0..<len] @ drop len buf))"
  using dispatch_ref [OF assms] by (simp add: vernam_ref_def)

theorem vernam_is_key_stream_witness:
  "vernam_pre 1030 [1, 2, 3, 4] 3 (replicate 32 7) 5 38
   \<and> vernam_encrypt_32bytes_aligned X86 None True 1030 [1, 2, 3, 4] 3 (replicate 32 7) 32 38 = Some (Inr [6, 5, 4, 4])"
proof -
  have pre: "vernam_pre 1030 [1, 2, 3, 4] 3 (replicate 32 7) 5 38" by (simp add: vernam_pre_def)
  have "[0..<3] = [0, 1, 2 :: nat]" by (simp add: upt_rec)
  then show ?thesis using vernam_is_key_stream [OF pre, of X86 None True] pre by simp
qed

text \<open>
  Decryption is the same call: what one variant encrypted, at any address, another variant at
  any other address with the same stream offset restores.
\<close>

theorem vernam_involution:
  assumes "vernam_pre addr buf len key m off" and "addr' mod 32 = off mod 32"
  shows "\<exists>c. vernam_encrypt_32bytes_aligned arch mode1 avx addr buf len key (2 ^ m) off = Some (Inr c)
    \<and> vernam_encrypt_32bytes_aligned arch' mode2 avx' addr' c len key (2 ^ m) off = Some (Inr buf)"
proof -
  have "vernam_pre addr' (vernam_ref key (2 ^ m) off len buf) len key m off"
    using assms by (simp add: vernam_pre_def)
  moreover have "vernam_ref key (2 ^ m) off len (vernam_ref key (2 ^ m) off len buf) = buf"
    using assms(1) by (auto intro!: nth_equalityI simp: nth_vernam_ref vernam_pre_def xor.assoc)
  ultimately show ?thesis using dispatch_ref assms(1) by simp
qed

theorem vernam_involution_witness:
  "\<exists>c. vernam_encrypt_32bytes_aligned X86 None True 64 (replicate 100 9) 70 (replicate 64 5) (2 ^ 6) 32 = Some (Inr c)
    \<and> vernam_encrypt_32bytes_aligned ARM_NEON None False 0 c 70 (replicate 64 5) (2 ^ 6) 32 = Some (Inr (replicate 100 9))"
  by (rule vernam_involution) (simp_all add: vernam_pre_def)

text \<open>
  Encrypting a stream in pieces is encrypting it whole: two calls on adjacent pieces, the second
  with the stream offset advanced by the length of the first, equal one call on both.
\<close>

theorem vernam_pieces:
  assumes "vernam_pre addr (a @ b) (length a + length b) key m off"
  shows "\<exists>a' b'. vernam_encrypt_32bytes_aligned arch t v addr a (length a) key (2 ^ m) off = Some (Inr a')
    \<and> vernam_encrypt_32bytes_aligned arch t v (addr + length a) b (length b) key (2 ^ m) (off + length a) = Some (Inr b')
    \<and> vernam_encrypt_32bytes_aligned arch t v addr (a @ b) (length a + length b) key (2 ^ m) off = Some (Inr (a' @ b'))"
proof -
  have "vernam_pre addr a (length a) key m off" "vernam_pre (addr + length a) b (length b) key m (off + length a)"
    using assms by (auto simp: vernam_pre_def) (metis mod_add_left_eq)
  moreover have "vernam_ref key (2 ^ m) off (length a + length b) (a @ b)
      = vernam_ref key (2 ^ m) off (length a) a @ vernam_ref key (2 ^ m) (off + length a) (length b) b"
    by (rule nth_equalityI) (auto simp: nth_vernam_ref nth_append)
  ultimately show ?thesis using dispatch_ref assms by simp
qed

theorem vernam_pieces_witness:
  "\<exists>a' b'. vernam_encrypt_32bytes_aligned X86 None False 3 [1, 2] (length [1, 2 :: u8]) (replicate 32 1) (2 ^ 5) 3 = Some (Inr a')
    \<and> vernam_encrypt_32bytes_aligned X86 None False (3 + length [1, 2 :: u8]) [3] (length [3 :: u8]) (replicate 32 1) (2 ^ 5)
        (3 + length [1, 2 :: u8]) = Some (Inr b')
    \<and> vernam_encrypt_32bytes_aligned X86 None False 3 ([1, 2] @ [3]) (length [1, 2 :: u8] + length [3 :: u8]) (replicate 32 1) (2 ^ 5) 3
      = Some (Inr (a' @ b'))"
  by (rule vernam_pieces) (simp add: vernam_pre_def)

lemma vernam_loop_stuck:
  assumes "vernam_loop w blk ks buf p r k = Some y"
  shows "(\<forall>b p k. blk 0 b p k = Inr b) \<longrightarrow> \<not> (w \<le> r \<and> k < ks \<and> ks - k < w)"
  using assms
proof (rule vernam_loop.raw_induct [rotated])
  fix f w blk ks buf p r k y
  assume hyp: "\<And>w blk ks buf p r k y. f w blk ks buf p r k = Some y
      \<Longrightarrow> (\<forall>b p k. blk 0 b p k = Inr b) \<longrightarrow> \<not> (w \<le> r \<and> k < ks \<and> ks - k < (w :: nat))"
    and step: "(if w \<le> r then
        (let contiguous_key_len = ks - k;
             chunk_len = (if contiguous_key_len < r then contiguous_key_len else r);
             loop_len = align_down w chunk_len; count = loop_len div w
         in case blk count buf p k of Inl e \<Rightarrow> Some (Inl e)
            | Inr buf \<Rightarrow> let k = k + loop_len; k = (if k = ks then 0 else k)
              in f w blk ks buf (p + loop_len) (r - loop_len) k)
      else Some (Inr (buf, p, r, k))) = Some y"
  show "(\<forall>b p k. blk 0 b p k = Inr b) \<longrightarrow> \<not> (w \<le> r \<and> k < ks \<and> ks - k < w)"
  proof (intro impI notI)
    assume z: "\<forall>b p k. blk 0 b p k = Inr b" and a: "w \<le> r \<and> k < ks \<and> ks - k < w"
    then have "align_down w (if ks - k < r then ks - k else r) = 0" by (auto simp: align_down_def)
    then have "f w blk ks buf p r k = Some y" using step z a by (simp add: Let_def)
    from hyp [OF this] z a show False by blast
  qed
qed

text \<open>The SSE loop with a key position that is not a multiple of 16: it stops before the end of the key, and is
  stuck there unless less than a vector is left.\<close>

lemma sse_loop_misaligned:
  assumes "ks = 2 ^ m" "16 dvd ks" "ks \<le> length key" "p + r \<le> length buf" "k < ks" "k mod ks = (off + p) mod ks" "k mod 16 \<noteq> 0"
    "(addr + p) mod 16 = 0" "16 \<le> r"
  shows "map_option (map_sum id (vernam_tail key (ks - 1))) (vernam_loop 16 (vernam_vectors 16 16 addr key) ks (vernam_ref key ks off p buf) p r k)
    = (if align_down 16 (ks - k) + 16 \<le> r then None else Some (Inr (vernam_ref key ks off (p + r) buf)))"
proof -
  define c l where "c = (if ks - k < r then ks - k else r)" and "l = align_down 16 c"
  let ?blk = "vernam_vectors 16 16 addr key"
  have l: "l \<le> c" "l = 16 * (l div 16)" by (auto simp: l_def align_down_def)
  have cr: "c \<le> ks - k" "c \<le> r" by (auto simp: c_def)
  have nz: "(ks - k) mod 16 \<noteq> 0"
  proof
    assume "(ks - k) mod 16 = 0"
    then have "16 dvd ks - k" by presburger
    then have "16 dvd k" using assms(2,5) by (metis dvd_diff_nat diff_diff_cancel less_imp_le)
    then show False using assms(7) by presburger
  qed
  have "l \<noteq> ks - k" using l(2) nz by (metis mod_mult_self1_is_0)
  then have kl: "k + l < ks" using l(1) cr(1) assms(5) by linarith
  have "?blk (l div 16) (vernam_ref key ks off p buf) p k = Inr (vernam_ref key ks off (p + 16 * (l div 16)) buf)"
    using assms l cr kl by (intro vernam_vectors_ref) simp_all
  then have step: "vernam_loop 16 ?blk ks (vernam_ref key ks off p buf) p r k
      = vernam_loop 16 ?blk ks (vernam_ref key ks off (p + l) buf) (p + l) (r - l) (k + l)"
    using assms(9) l(2) kl by (subst vernam_loop.simps) (simp add: Let_def c_def [symmetric] l_def [symmetric])
  show ?thesis
  proof (cases "align_down 16 (ks - k) + 16 \<le> r")
    case True
    have "(ks - k) mod 16 < 16" by simp
    then have "ks - k < r" using True by (simp add: align_down_def)
    then have c: "c = ks - k" by (simp add: c_def)
    have "16 \<le> r - l" "ks - (k + l) < 16" using True by (simp_all add: l_def c align_down_def)
    then have "vernam_loop 16 ?blk ks (vernam_ref key ks off (p + l) buf) (p + l) (r - l) (k + l) \<noteq> Some y" for y
      using vernam_loop_stuck [of 16 ?blk ks "vernam_ref key ks off (p + l) buf" "p + l" "r - l" "k + l" y] kl by auto
    then have "vernam_loop 16 ?blk ks (vernam_ref key ks off (p + l) buf) (p + l) (r - l) (k + l) = None" by (metis not_Some_eq)
    then show ?thesis unfolding step using True by simp
  next
    case False
    have rl: "r - l < 16"
    proof (cases "ks - k < r")
      case True
      then show ?thesis using False by (simp add: l_def c_def)
    next
      case f: False
      then show ?thesis by (simp add: l_def c_def align_down_def)
    qed
    then have "vernam_loop 16 ?blk ks (vernam_ref key ks off (p + l) buf) (p + l) (r - l) (k + l)
        = Some (Inr (vernam_ref key ks off (p + l) buf, p + l, r - l, k + l))" by (subst vernam_loop.simps) simp
    moreover have "(k + l) mod ks = (off + (p + l)) mod ks" using assms(6) by (metis add.assoc mod_add_left_eq)
    then have "vernam_tail key (ks - 1) (vernam_ref key ks off (p + l) buf, p + l, r - l, k + l) = vernam_ref key ks off (p + l + (r - l)) buf"
      using vernam_tail_ref [of "p + l" "r - l" buf "k + l" m off key] assms(1,4) l(1) cr(2) by simp
    moreover have "p + l + (r - l) = p + r" using l(1) cr(2) by simp
    ultimately show ?thesis unfolding step using False by simp
  qed
qed

text \<open>
  Property C22. The SSE variant, which does not assert the relative alignment of buffer and key stream, without
  it: the call never returns exactly when at least 16 bytes are left behind the last whole vector before the end
  of the key; the main loop then makes no more progress. Otherwise it returns the right result, and it never
  faults.
\<close>

theorem vernam_sse_misaligned:
  assumes "4 \<le> m" "2 ^ m \<le> length key" "len \<le> length buf" "addr mod 16 \<noteq> off mod 16"
  shows "vernam_encrypt_sse addr buf len key (2 ^ m) off =
    (let head_len = (16 - addr mod 16) mod 16; key_pos = (off + head_len) mod 2 ^ m
     in if head_len + align_down 16 (2 ^ m - key_pos) + 16 \<le> len then None
        else Some (Inr (map (\<lambda>i. buf ! i XOR key ! ((off + i) mod 2 ^ m)) [0..<len] @ drop len buf)))"
proof -
  define d h ks where "d = (16 - addr mod 16) mod 16" and "h = head_len_of 16 addr len" and "ks = (2 ^ m :: nat)"
  have dv: "16 dvd ks" using le_imp_power_dvd [OF assms(1), of "2 :: nat"] by (simp add: ks_def)
  have hd: "h = (if d < len then d else len)" by (simp add: h_def head_len_of_def Let_def d_def)
  then have hb: "h \<le> length buf" "h + (len - h) = len" using assms(3) by auto
  have unf: "vernam_encrypt_sse addr buf len key ks off =
      (if len - h < 16 then Some (Inr (vernam_tail key (ks - 1) (vernam_ref key ks off h buf, h, len - h, (off + h) mod ks)))
       else map_option (map_sum id (vernam_tail key (ks - 1)))
         (vernam_loop 16 (vernam_vectors 16 16 addr key) ks (vernam_ref key ks off h buf) h (len - h) ((off + h) mod ks)))"
    using hb(1) unfolding ks_def h_def
    by (simp add: vernam_encrypt_sse_def Let_def masks and_pow2_mask masked_head head_len_of_def [unfolded Let_def, symmetric] split_beta)
  have "vernam_encrypt_sse addr buf len key ks off =
    (if d + align_down 16 (ks - (off + d) mod ks) + 16 \<le> len then None else Some (Inr (vernam_ref key ks off len buf)))"
  proof (cases "len - h < 16")
    case True
    have "vernam_tail key (ks - 1) (vernam_ref key ks off h buf, h, len - h, (off + h) mod ks) = vernam_ref key ks off len buf"
      using vernam_tail_ref [of h "len - h" buf "(off + h) mod ks" m off key] hb assms(3) by (simp add: ks_def)
    moreover have "\<not> d + align_down 16 (ks - (off + d) mod ks) + 16 \<le> len" using True hd by (auto split: if_splits)
    ultimately show ?thesis using True unfolding unf by simp
  next
    case False
    then have h: "h = d" using hd by (auto split: if_splits)
    have al: "(addr + d) mod 16 = 0" unfolding d_def by (rule aligned_up) simp
    have "(off + d) mod 16 \<noteq> 0" using same_offset [OF al, of off] assms(4) by blast
    then have k: "(off + d) mod ks mod 16 \<noteq> 0" using dv by (simp add: mod_mod_cancel)
    have r: "d + (len - d) \<le> length buf" "16 \<le> len - d" "ks \<le> length key" "(off + d) mod ks < ks" "(off + d) mod ks mod ks = (off + d) mod ks"
      using False h hb assms(2,3) by (simp_all add: ks_def)
    note sse_loop_misaligned [OF ks_def dv r(3,1,4,5) k al r(2)]
    moreover have "align_down 16 (ks - (off + d) mod ks) + 16 \<le> len - d \<longleftrightarrow> d + align_down 16 (ks - (off + d) mod ks) + 16 \<le> len"
      using r(2) by linarith
    ultimately show ?thesis using False hb(2) unfolding unf h by simp
  qed
  then show ?thesis by (simp add: Let_def vernam_ref_def d_def ks_def)
qed

theorem vernam_sse_misaligned_witness:
  "vernam_encrypt_sse 0 (replicate 32 1) 32 (replicate 32 7) 32 24 = None
   \<and> vernam_encrypt_sse 0 (replicate 3 1) 3 (replicate 32 7) 32 24 = Some (Inr [6, 6, 6])"
proof -
  have "[0..<3] = [0, 1, 2 :: nat]" by (simp add: upt_rec)
  then show ?thesis
    using vernam_sse_misaligned [of 5 "replicate 32 7" 32 "replicate 32 1" 0 24]
      vernam_sse_misaligned [of 5 "replicate 32 7" 3 "replicate 3 1" 0 24]
    by (simp add: align_down_def Let_def)
qed

end
