(* ===== verification/Qlog_Miso.thy ===== *)
theory Qlog_Miso
  imports Qlog_Buffer_Defs
begin

text \<open>
  The multi-producer ring of \<open>src/src/buffer/miso_ring_buffer.cpp\<close>: blocks of one cache line (128 bytes),
  a chunk header of block count (3 bytes), status (1 byte) and payload size (4 bytes) in the first
  block of a chunk, payloads that never wrap (a chunk that would is marked \<open>invalid\<close> and skipped), a
  reader that returns blocks in batches, and recovery from a memory map. Each operation is one atomic
  step of its thread; the cached read cursor of a producer thread is an argument that the operation
  returns updated. \<open>None\<close> stands for a call that does not return.
\<close>

unbundle bit_operations_syntax

abbreviation (input) line :: nat where "line \<equiv> 128"

text \<open>The value of the status byte decides; other values take the \<open>default\<close> branches.\<close>

definition status_unused :: u8 where "status_unused = 0"
definition status_used :: u8 where "status_used = 1"
definition status_invalid :: u8 where "status_invalid = 2"

record miso_head =
  read_cursor_cache :: u32
  read_cursor_start_cache :: u32
  log_checksum :: u64
  mmap_misc_data :: bytes

record miso_ring_buffer =
  miso_config :: log_buffer_config
  miso_state :: memory_map_buffer_state
  write_cursor :: u32
  read_cursor :: u32
  miso_head :: miso_head
  miso_blocks :: bytes
  miso_count :: u32

record miso_tls_buffer_info =
  wt_read_cursor_cache :: u32
  is_new_created :: bool

section \<open>Chunk headers\<close>

definition miso_index :: "miso_ring_buffer \<Rightarrow> u32 \<Rightarrow> nat" where
  "miso_index s c = unat (c AND (miso_count s - 1))"

text \<open>\<open>set_block_num\<close> stores four bytes, so it also clears the status byte.\<close>

definition get_block_num :: "bytes \<Rightarrow> nat \<Rightarrow> u32" where
  "get_block_num m b = load_u32 m (line * b) AND 0xFFFFFF"

definition set_block_num :: "nat \<Rightarrow> u32 \<Rightarrow> bytes \<Rightarrow> bytes" where
  "set_block_num b num m = store_u32 m (line * b) num"

definition get_status :: "bytes \<Rightarrow> nat \<Rightarrow> u8" where
  "get_status m b = m ! (line * b + 3)"

definition set_status :: "nat \<Rightarrow> u8 \<Rightarrow> bytes \<Rightarrow> bytes" where
  "set_status b st m = m[line * b + 3 := st]"

definition get_data_size :: "bytes \<Rightarrow> nat \<Rightarrow> u32" where
  "get_data_size m b = load_u32 m (line * b + 4)"

definition set_data_size :: "nat \<Rightarrow> u32 \<Rightarrow> bytes \<Rightarrow> bytes" where
  "set_data_size b sz m = store_u32 m (line * b + 4) sz"

section \<open>Construction and recovery\<close>

definition clear_statuses :: "nat list \<Rightarrow> bytes \<Rightarrow> bytes" where
  "clear_statuses bs m = fold (\<lambda>b. set_status b status_unused) bs m"

definition miso_init_with_memory_map :: "miso_ring_buffer \<Rightarrow> miso_ring_buffer" where
  "miso_init_with_memory_map s =
     s\<lparr>miso_blocks := clear_statuses [0..<unat (miso_count s)] (miso_blocks s),
       miso_head := \<lparr>read_cursor_cache = 0, read_cursor_start_cache = 0,
         log_checksum = calculate_check_sum (miso_config s), mmap_misc_data = replicate 112 0\<rparr>,
       write_cursor := 0, read_cursor := 0, miso_state := memory_map_buffer_state.init_with_memory\<rparr>"

definition miso_init_with_memory :: "miso_ring_buffer \<Rightarrow> miso_ring_buffer" where
  "miso_init_with_memory s =
     s\<lparr>miso_blocks := clear_statuses [0..<unat (miso_count s)] (miso_blocks s),
       miso_head := \<lparr>read_cursor_cache = 0, read_cursor_start_cache = 0,
         log_checksum = 0, mmap_misc_data = replicate 112 0\<rparr>,
       write_cursor := 0, read_cursor := 0, miso_state := memory_map_buffer_state.init_with_memory\<rparr>"

text \<open>The bounds on the payload size of a \<open>used\<close> chunk. The subtractions are of 64-bit signed values
  cast to \<open>size_t\<close>.\<close>

definition recover_size_bad :: "u32 \<Rightarrow> u32 \<Rightarrow> bool" where
  "recover_size_bad block_num data_size \<longleftrightarrow>
     (ucast data_size :: u64) > ucast block_num * 128 - 8
     \<or> (ucast data_size :: u64) \<le> (if block_num = 1 then 0 else ucast block_num * 128 - 128 - 8)"

text \<open>
  The parsing loop. The outer result is \<open>None\<close> if the loop does not end, the inner one is \<open>None\<close> for
  \<open>return false\<close> and the cursor reached otherwise.
\<close>

partial_function (option) miso_recover_loop :: "miso_ring_buffer \<Rightarrow> u32 \<Rightarrow> u32 \<Rightarrow> u32 option option" where
  "miso_recover_loop s start current_cursor =
     (let n = miso_count s;
          b = miso_index s current_cursor;
          block_num = get_block_num (miso_blocks s) b;
          data_size = get_data_size (miso_blocks s) b;
          status = get_status (miso_blocks s) b;
          parsed =
            (if status = status_used then
               (if (current_cursor AND (n - 1)) + block_num > n \<or> recover_size_bad block_num data_size
                then None
                else Some (current_cursor + block_num, False))
             else if status = status_invalid then
               (let c = current_cursor + block_num
                in if (c AND (n - 1)) + block_num > n then None else Some (c, False))
             else if status = status_unused then Some (current_cursor, True)
             else None)
      in case parsed of
           None \<Rightarrow> Some None
         | Some (c, finished) \<Rightarrow>
             (let total_size_parsed = c - start
              in if total_size_parsed = n then Some (Some c)
                 else if total_size_parsed > n then Some None
                 else if finished then Some (Some c)
                 else miso_recover_loop s start c))"

text \<open>\<open>try_recover_from_exist_memory_map\<close>: \<open>(False, s)\<close> is \<open>return false\<close>, with the head already changed.\<close>

definition miso_try_recover :: "miso_ring_buffer \<Rightarrow> (bool \<times> miso_ring_buffer) option" where
  "miso_try_recover s =
     (if log_checksum (miso_head s) \<noteq> calculate_check_sum (miso_config s) then Some (False, s)
      else
        let n = miso_count s;
            rcc = read_cursor_cache (miso_head s) AND (n - 1);
            s = s\<lparr>miso_head := (miso_head s)\<lparr>read_cursor_cache := rcc, read_cursor_start_cache := rcc\<rparr>\<rparr>
        in map_option (\<lambda>r. case r of
             None \<Rightarrow> (False, s)
           | Some c \<Rightarrow>
               if c - rcc > n then (False, s)
               else (True, s\<lparr>write_cursor := c, read_cursor := rcc,
                 miso_blocks := clear_statuses (map (\<lambda>i. miso_index s (of_nat i)) [unat c..<unat (rcc + n)])
                   (miso_blocks s),
                 miso_state := recover_from_memory_map\<rparr>))
             (miso_recover_loop s rcc rcc))"

text \<open>
  The constructor. What \<open>normal_buffer\<close> provides is an argument: the result of mapping the file and the
  head and blocks found in the memory.
\<close>

definition miso_ring_buffer_new ::
  "create_memory_map_result \<Rightarrow> miso_head \<Rightarrow> bytes \<Rightarrow> log_buffer_config \<Rightarrow> miso_ring_buffer option" where
  "miso_ring_buffer_new mmap_result mapped_head blocks config =
     (let bsize = max (16 * 128) (round_pow_of_two (default_buffer_size config));
          config = config\<lparr>default_buffer_size := bsize\<rparr>;
          s = \<lparr>miso_config = config, miso_state = memory_map_buffer_state.init_with_memory,
               write_cursor = 0, read_cursor = 0, miso_head = mapped_head, miso_blocks = blocks,
               miso_count = drop_bit 7 bsize\<rparr>
      in case mmap_result of
           failed \<Rightarrow> Some (miso_init_with_memory s)
         | use_existed \<Rightarrow>
             map_option (\<lambda>(ok, s'). if ok then s' else miso_init_with_memory_map s') (miso_try_recover s)
         | new_created \<Rightarrow> Some (miso_init_with_memory_map s))"

section \<open>Producers\<close>

text \<open>
  The loop after a reservation that may exceed the ring: wait for the reader, or take the reservation
  back while it is the last one.
\<close>

partial_function (option) miso_reserve_wait ::
  "miso_ring_buffer \<Rightarrow> u32 \<Rightarrow> u32 \<Rightarrow> (bool \<times> u32 \<times> miso_ring_buffer) option" where
  "miso_reserve_wait s next_write_cursor current_write_cursor =
     (let read_cursor_ref = read_cursor s
      in if next_write_cursor - read_cursor_ref \<ge> miso_count s then
           (if write_cursor s = next_write_cursor
            then Some (False, read_cursor_ref, s\<lparr>write_cursor := current_write_cursor\<rparr>)
            else miso_reserve_wait s next_write_cursor current_write_cursor)
         else Some (True, read_cursor_ref, s))"

definition miso_full_result :: "miso_ring_buffer \<Rightarrow> u32 \<Rightarrow> enum_buffer_result_code" where
  "miso_full_result s need =
     (if push_bit 1 need > miso_count s then err_alloc_size_invalid else err_not_enough_space)"

text \<open>The reservation: \<open>fetch_add\<close> on the write cursor, and the wait if the ring may be full. The result is
  whether the reservation stands, the refreshed read cursor and the reserved position.\<close>

definition miso_reserve ::
  "u32 \<Rightarrow> u32 \<Rightarrow> miso_ring_buffer \<Rightarrow> (bool \<times> u32 \<times> u32 \<times> miso_ring_buffer) option" where
  "miso_reserve need rref s =
     (let cur = write_cursor s;
          next_cursor = cur + need;
          s = s\<lparr>write_cursor := next_cursor\<rparr>
      in map_option (\<lambda>(granted, rref, s). (granted, rref, cur, s))
           (if next_cursor - rref \<ge> miso_count s then miso_reserve_wait s next_cursor cur
            else Some (True, rref, s)))"

text \<open>The handle of a reservation that stands and does not wrap.\<close>

definition miso_grant ::
  "u32 \<Rightarrow> u32 \<Rightarrow> u32 \<Rightarrow> u32 \<Rightarrow> u32 \<Rightarrow> miso_ring_buffer \<Rightarrow> log_buffer_write_handle \<times> u32 \<times> miso_ring_buffer" where
  "miso_grant sz need used cur rref s =
     (let b = miso_index s cur;
          s = s\<lparr>miso_blocks := set_data_size b sz (miso_blocks s)\<rparr>;
          used = used + need;
          low = push_bit 1 used \<ge> miso_count s;
          rref = (if low then read_cursor s else rref);
          low = (if low then push_bit 1 (cur + need - rref) \<ge> miso_count s else low)
      in (\<lparr>wh_data_addr = Some (line * b + 8), wh_result = success, low_space_flag = low\<rparr>, rref, s))"

text \<open>The main loop of \<open>alloc_write_chunk\<close>; \<open>used\<close> is \<open>used_blocks_count\<close>, \<open>cur\<close> the current write cursor.\<close>

partial_function (option) miso_alloc_loop ::
  "u32 \<Rightarrow> u32 \<Rightarrow> u32 \<Rightarrow> u32 \<Rightarrow> u32 \<Rightarrow> miso_ring_buffer
    \<Rightarrow> (log_buffer_write_handle \<times> u32 \<times> miso_ring_buffer) option" where
  "miso_alloc_loop sz need used cur rref s =
     (let n = miso_count s;
          new_cursor = cur + need;
          full = new_cursor - rref > n;
          rref = (if full then read_cursor s else rref)
      in if full \<and> new_cursor - rref > n
         then Some (empty_write_handle\<lparr>wh_result := miso_full_result s need\<rparr>, rref, s)
         else Option.bind (miso_reserve need rref s) (\<lambda>(granted, rref, cur, s).
           if \<not> granted then Some (empty_write_handle\<lparr>wh_result := miso_full_result s need\<rparr>, rref, s)
           else
             let b = miso_index s cur;
                 s = s\<lparr>miso_blocks := set_block_num b need (miso_blocks s)\<rparr>
             in if (cur AND (n - 1)) + need > n
                then miso_alloc_loop sz need used cur rref
                       (s\<lparr>miso_blocks := set_status b status_invalid (miso_blocks s)\<rparr>)
                else Some (miso_grant sz need used cur rref s)))"

text \<open>\<open>tls\<close> is the thread's entry for this ring, \<open>None\<close> once the thread-local storage is recycled.\<close>

definition miso_need :: "u32 \<Rightarrow> u32" where
  "miso_need sz = ucast (drop_bit 7 ((ucast (sz + 8) :: u64) + 127))"

definition miso_alloc_write_chunk ::
  "miso_tls_buffer_info option \<Rightarrow> miso_ring_buffer \<Rightarrow> u32
    \<Rightarrow> (log_buffer_write_handle \<times> miso_tls_buffer_info option \<times> miso_ring_buffer) option" where
  "miso_alloc_write_chunk tls s sz =
     (let need = miso_need sz
      in if need > miso_count s \<or> need = 0 \<or> need > 0xFFFFFF
         then Some (empty_write_handle\<lparr>wh_result := err_alloc_size_invalid\<rparr>, tls, s)
         else
           let cur = write_cursor s;
               rref = (case tls of
                         Some t \<Rightarrow> if is_new_created t then read_cursor s else wt_read_cursor_cache t
                       | None \<Rightarrow> read_cursor s)
           in map_option (\<lambda>(h, rref, s').
                (h, map_option (\<lambda>t. \<lparr>wt_read_cursor_cache = rref, is_new_created = False\<rparr>) tls, s'))
                (miso_alloc_loop sz need (cur - rref) cur rref s))"

definition miso_commit_write_chunk :: "miso_ring_buffer \<Rightarrow> log_buffer_write_handle \<Rightarrow> miso_ring_buffer" where
  "miso_commit_write_chunk s h =
     (if wh_result h \<noteq> success then s
      else case wh_data_addr h of
             None \<Rightarrow> s
           | Some a \<Rightarrow> s\<lparr>miso_blocks := (miso_blocks s)[a - 8 + 3 := status_used]\<rparr>)"

section \<open>The consumer\<close>

partial_function (option) miso_read_chunk ::
  "miso_ring_buffer \<Rightarrow> (log_buffer_read_handle \<times> miso_ring_buffer) option" where
  "miso_read_chunk s =
     (let rcc = read_cursor_cache (miso_head s);
          b = miso_index s rcc;
          status = get_status (miso_blocks s) b;
          block_count = get_block_num (miso_blocks s) b
      in if status = status_invalid then
           miso_read_chunk (s\<lparr>miso_blocks := set_status b status_unused (miso_blocks s),
             miso_head := (miso_head s)\<lparr>read_cursor_cache := rcc + block_count\<rparr>\<rparr>)
         else if status = status_used then
           Some (\<lparr>rh_data_addr = Some (line * b + 8), rh_result = success,
                  rh_data_size = get_data_size (miso_blocks s) b\<rparr>, s)
         else Some (empty_read_handle, s))"

definition miso_read_an_empty_chunk :: log_buffer_read_handle where
  "miso_read_an_empty_chunk = empty_read_handle\<lparr>rh_result := err_empty_log_buffer\<rparr>"

definition miso_discard_read_chunk :: "log_buffer_read_handle \<Rightarrow> log_buffer_read_handle" where
  "miso_discard_read_chunk h = h\<lparr>rh_result := err_empty_log_buffer\<rparr>"

definition miso_return_read_chunk :: "miso_ring_buffer \<Rightarrow> log_buffer_read_handle \<Rightarrow> miso_ring_buffer" where
  "miso_return_read_chunk s h =
     (let start_cursor = read_cursor_start_cache (miso_head s);
          rcc = read_cursor_cache (miso_head s);
          rcc' = (if rh_result h = success
                  then rcc + get_block_num (miso_blocks s) (miso_index s rcc) else rcc);
          need_flush = (if rh_result h = err_empty_log_buffer then True
                        else if rh_result h = success then rcc' - start_cursor \<ge> drop_bit 2 (miso_count s)
                        else False);
          s = s\<lparr>miso_head := (miso_head s)\<lparr>read_cursor_cache := rcc'\<rparr>\<rparr>;
          block_count = rcc' - start_cursor
      in if \<not> need_flush \<or> block_count = 0 then s
         else s\<lparr>miso_blocks := clear_statuses
                  (map (\<lambda>i. miso_index s (start_cursor + of_nat i)) [0..<unat block_count]) (miso_blocks s),
                miso_head := (miso_head s)\<lparr>read_cursor_start_cache := rcc'\<rparr>,
                read_cursor := rcc'\<rparr>)"

text \<open>The callback's arguments, in order. A foreign status takes the \<open>default\<close> branch, which goes on.\<close>

partial_function (option) miso_traverse_loop ::
  "miso_ring_buffer \<Rightarrow> u32 \<Rightarrow> (nat \<times> u32) list \<Rightarrow> (nat \<times> u32) list option" where
  "miso_traverse_loop s current_read_cursor out =
     (let b = miso_index s current_read_cursor;
          status = get_status (miso_blocks s) b;
          block_count = get_block_num (miso_blocks s) b;
          out = (if status = status_used then out @ [(line * b + 8, get_data_size (miso_blocks s) b)] else out);
          c = current_read_cursor + block_count
      in if status = status_unused \<or> c - read_cursor s \<ge> miso_count s then Some out
         else miso_traverse_loop s c out)"

definition miso_data_traverse :: "miso_ring_buffer \<Rightarrow> (nat \<times> u32) list option" where
  "miso_data_traverse s = miso_traverse_loop s (read_cursor s) []"

end
