(* ===== verification/Qlog_Miso_Correct.thy ===== *)
theory Qlog_Miso_Correct
  imports Qlog_Miso
begin

text \<open>
  Correctness of the multi-producer ring: its contents as a sequence of slots (skipped, reserved or
  committed chunks), the ring invariant, and for every operation what it does to that sequence.
\<close>

unbundle bit_operations_syntax

section \<open>Blocks and their headers\<close>

abbreviation (input) mcnt :: "miso_ring_buffer \<Rightarrow> nat" where "mcnt s \<equiv> unat (miso_count s)"

definition block_eq :: "bytes \<Rightarrow> bytes \<Rightarrow> nat \<Rightarrow> bool" where
  "block_eq m m' b \<longleftrightarrow> (\<forall>j < 128. m' ! (128 * b + j) = m ! (128 * b + j))"

text \<open>A write inside block \<open>b\<close> leaves the other blocks alone.\<close>

lemma block_eq_outside:
  assumes "\<And>i. i < length m \<Longrightarrow> i div 128 \<noteq> b \<Longrightarrow> m' ! i = m ! i" and "b' \<noteq> b" and "128 * b' + 128 \<le> length m"
  shows "block_eq m m' b'"
  using assms by (auto simp: block_eq_def)

definition in_block :: "nat \<Rightarrow> bytes \<Rightarrow> bytes \<Rightarrow> bool" where
  "in_block b m m' \<longleftrightarrow> length m' = length m \<and> (\<forall>i < length m. i div 128 \<noteq> b \<longrightarrow> m' ! i = m ! i)"

lemma in_block_trans: "in_block b m m' \<Longrightarrow> in_block b m' m'' \<Longrightarrow> in_block b m m''"
  by (simp add: in_block_def)

lemma in_block_eq: "in_block b m m' \<Longrightarrow> b' \<noteq> b \<Longrightarrow> 128 * b' + 128 \<le> length m \<Longrightarrow> block_eq m m' b'"
  by (auto simp: in_block_def intro: block_eq_outside)

lemma store_u32_in_block:
  assumes "128 * b + 128 \<le> length m" and "128 * b \<le> off" and "off + 4 \<le> 128 * b + 128"
  shows "in_block b m (store_u32 m off v)"
proof -
  have "store_u32 m off v ! i = m ! i" if "i < length m" "i div 128 \<noteq> b" for i
    using assms that by (intro nth_store_u32_other) (auto simp: div_nat_eqI)
  then show ?thesis using assms by (simp add: in_block_def)
qed

lemma header_in_block:
  assumes "128 * b + 128 \<le> length m"
  shows "in_block b m (set_block_num b v m)" "in_block b m (set_data_size b v m)"
    "in_block b m (set_status b st m)"
  using assms by (auto simp: set_block_num_def set_data_size_def intro!: store_u32_in_block)
    (auto simp: in_block_def set_status_def)

text \<open>Reading a header back. The block count lives in the three low bytes, the status in the fourth.\<close>

lemma block_num_take_bit: "get_block_num m b = take_bit 24 (load_u32 m (128 * b))"
proof -
  have "(0xFFFFFF :: u32) = mask 24" by (simp add: mask_eq_exp_minus_1)
  then show ?thesis by (simp add: get_block_num_def take_bit_eq_mask)
qed

lemma get_block_num_cong:
  assumes "length m' = length m" and "128 * b + 128 \<le> length m"
    and "\<And>i. i < 3 \<Longrightarrow> m' ! (128 * b + i) = m ! (128 * b + i)"
  shows "get_block_num m' b = get_block_num m b"
proof (rule bit_word_eqI)
  fix k :: nat
  have "mem_read m' (128 * b) 4 ! (k div 8) = mem_read m (128 * b) 4 ! (k div 8)" if "k < 24"
    using assms that by (subst (1 2) nth_mem_read) (auto simp: less_mult_imp_div_less)
  then show "bit (get_block_num m' b) k = bit (get_block_num m b) k"
    using assms(1,2) by (auto simp: block_num_take_bit bit_take_bit_iff load_u32_def bit_le_word)
qed

lemma nth_store_u32_3: "off + 4 \<le> length m \<Longrightarrow> store_u32 m off v ! (off + 3) = ucast (drop_bit 24 v)"
  by (simp add: store_u32_def nth_mem_write le_bytes_def)

lemma header_after_block_num:
  assumes "128 * b + 128 \<le> length m" and "unat v < 2 ^ 24"
  shows "get_block_num (set_block_num b v m) b = v" "get_status (set_block_num b v m) b = status_unused"
    "get_data_size (set_block_num b v m) b = get_data_size m b"
proof -
  have "v < 2 ^ 24" using assms(2) by (simp add: word_less_nat_alt)
  then have "take_bit 24 v = v" "drop_bit 24 v = 0"
    using assms(2) by (simp_all add: take_bit_eq_mod drop_bit_eq_div flip: word_unat_eq_iff)
      (simp_all add: unat_mod unat_div word_unat_eq_iff)
  then show "get_block_num (set_block_num b v m) b = v" "get_status (set_block_num b v m) b = status_unused"
    using assms by (simp_all add: block_num_take_bit set_block_num_def get_status_def nth_store_u32_3
        load_store_u32_same status_unused_def)
  show "get_data_size (set_block_num b v m) b = get_data_size m b"
    using assms by (simp add: get_data_size_def set_block_num_def load_store_u32_disjoint)
qed

lemma header_after_data_size:
  assumes "128 * b + 128 \<le> length m"
  shows "get_data_size (set_data_size b v m) b = v" "get_status (set_data_size b v m) b = get_status m b"
    "get_block_num (set_data_size b v m) b = get_block_num m b"
  using assms by (auto simp: get_data_size_def set_data_size_def load_store_u32_same get_status_def
      nth_store_u32_other get_block_num_def load_store_u32_disjoint)

lemma header_after_status:
  assumes "128 * b + 128 \<le> length m"
  shows "get_status (set_status b st m) b = st" "get_data_size (set_status b st m) b = get_data_size m b"
    "get_block_num (set_status b st m) b = get_block_num m b"
proof -
  show "get_status (set_status b st m) b = st" using assms by (simp add: get_status_def set_status_def)
  show "get_data_size (set_status b st m) b = get_data_size m b"
    using assms unfolding get_data_size_def set_status_def by (intro load_u32_cong) auto
  show "get_block_num (set_status b st m) b = get_block_num m b"
    using assms unfolding set_status_def by (intro get_block_num_cong) auto
qed

lemma length_set [simp]:
  "length (set_status b st m) = length m"
  "128 * b + 128 \<le> length m \<Longrightarrow> length (set_block_num b v m) = length m"
  "128 * b + 128 \<le> length m \<Longrightarrow> length (set_data_size b v m) = length m"
  by (simp_all add: set_status_def set_block_num_def set_data_size_def)

lemma header_cong:
  assumes "block_eq m m' b" and "length m' = length m" and "128 * b + 128 \<le> length m"
  shows "get_status m' b = get_status m b" "get_data_size m' b = get_data_size m b"
    "get_block_num m' b = get_block_num m b"
proof -
  have e: "m' ! (128 * b + i) = m ! (128 * b + i)" if "i < 128" for i using assms(1) that by (simp add: block_eq_def)
  show "get_status m' b = get_status m b" using e [of 3] by (simp add: get_status_def)
  show "get_block_num m' b = get_block_num m b" using assms e by (intro get_block_num_cong) auto
  show "get_data_size m' b = get_data_size m b" unfolding get_data_size_def
  proof (rule load_u32_cong)
    fix i assume "128 * b + 4 \<le> i" "i < 128 * b + 4 + 4"
    then show "m' ! i = m ! i" using e [of "i - 128 * b"] by simp
  qed (use assms in auto)
qed

section \<open>Slots\<close>

text \<open>
  What the reader finds between its cursor and the write cursor: chunks that are skipped because they
  would wrap, chunks a producer has reserved but not committed (with their payload size), and
  committed payloads.
\<close>

datatype slot = Skip nat | Pending nat | Data bytes

definition need_blocks :: "nat \<Rightarrow> nat" where
  "need_blocks sz = (sz + 135) div 128"

fun slot_len :: "slot \<Rightarrow> nat" where
  "slot_len (Skip k) = k"
| "slot_len (Pending sz) = need_blocks sz"
| "slot_len (Data p) = need_blocks (length p)"

fun slot_at :: "bytes \<Rightarrow> nat \<Rightarrow> nat \<Rightarrow> slot \<Rightarrow> bool" where
  "slot_at m n b (Skip k) \<longleftrightarrow> 0 < k \<and> get_status m b = status_invalid \<and> unat (get_block_num m b) = k"
| "slot_at m n b (Pending sz) \<longleftrightarrow> b + need_blocks sz \<le> n \<and> get_status m b = status_unused
     \<and> unat (get_block_num m b) = need_blocks sz \<and> unat (get_data_size m b) = sz"
| "slot_at m n b (Data p) \<longleftrightarrow> b + need_blocks (length p) \<le> n \<and> get_status m b = status_used
     \<and> unat (get_block_num m b) = need_blocks (length p) \<and> unat (get_data_size m b) = length p
     \<and> mem_read m (128 * b + 8) (length p) = p"

fun slots_at :: "bytes \<Rightarrow> nat \<Rightarrow> nat \<Rightarrow> slot list \<Rightarrow> bool" where
  "slots_at m n c [] \<longleftrightarrow> True"
| "slots_at m n c (x # xs) \<longleftrightarrow> slot_at m n (c mod n) x \<and> slots_at m n (c + slot_len x) xs"

definition slots_len :: "slot list \<Rightarrow> nat" where
  "slots_len xs = sum_list (map slot_len xs)"

lemma slots_len_simps [simp]:
  "slots_len [] = 0" "slots_len (x # xs) = slot_len x + slots_len xs"
  "slots_len (xs @ ys) = slots_len xs + slots_len ys"
  by (simp_all add: slots_len_def)

lemma slots_at_append:
  "slots_at m n c (xs @ ys) \<longleftrightarrow> slots_at m n c xs \<and> slots_at m n (c + slots_len xs) ys"
  by (induction xs arbitrary: c) (simp_all add: add.assoc)

lemma need_blocks_bounds: "0 < need_blocks sz" "sz + 8 \<le> 128 * need_blocks sz" "128 * need_blocks sz < sz + 136"
  by (auto simp: need_blocks_def)

lemma slot_len_pos: "slot_at m n b x \<Longrightarrow> 0 < slot_len x"
  using need_blocks_bounds(1) by (cases x) auto

lemma slot_at_cong:
  assumes x: "slot_at m n (c mod n) x" and len: "length m' = length m" "128 * n \<le> length m" and n: "0 < n"
    and eq: "\<And>j. j < slot_len x \<Longrightarrow> block_eq m m' ((c + j) mod n)"
  shows "slot_at m' n (c mod n) x"
proof -
  have b: "c mod n < n" using n by simp
  then have in_range: "128 * (c mod n) + 128 \<le> length m" using len(2) by linarith
  have "block_eq m m' (c mod n)" using eq [of 0] slot_len_pos [OF x] by simp
  note h = header_cong [OF this len(1) in_range]
  show ?thesis
  proof (cases x)
    case (Data p)
    then have fit: "c mod n + need_blocks (length p) \<le> n" using x by simp
    have "mem_read m' (128 * (c mod n) + 8) (length p) = mem_read m (128 * (c mod n) + 8) (length p)"
    proof (rule mem_read_cong)
      show "128 * (c mod n) + 8 + length p \<le> length m"
        using fit need_blocks_bounds(2) [of "length p"] len(2) by linarith
      fix i assume i: "128 * (c mod n) + 8 \<le> i" "i < 128 * (c mod n) + 8 + length p"
      define j where "j = i div 128 - c mod n"
      have "i div 128 < c mod n + need_blocks (length p)"
        using i need_blocks_bounds(2) [of "length p"] by (simp add: less_mult_imp_div_less)
      moreover have "c mod n \<le> i div 128" using i by (simp add: less_eq_div_iff_mult_less_eq)
      ultimately have j: "j < slot_len x" "i div 128 = c mod n + j" using Data by (auto simp: j_def)
      moreover have "c mod n + j = (c + j) mod n"
        using fit j(1) Data mod_add_left_eq [of c n j] by simp
      ultimately have "block_eq m m' (i div 128)" using eq [of j] by simp
      then show "m' ! i = m ! i" unfolding block_eq_def
        by (metis mod_less_divisor mult_div_mod_eq zero_less_numeral)
    qed (use len in simp)
    then show ?thesis using x h Data by simp
  qed (use x h in auto)
qed

lemma slots_at_cong:
  assumes "slots_at m n c xs" and "length m' = length m" "128 * n \<le> length m" and "0 < n"
    and "\<And>j. j < slots_len xs \<Longrightarrow> block_eq m m' ((c + j) mod n)"
  shows "slots_at m' n c xs"
  using assms(1,5)
proof (induction xs arbitrary: c)
  case (Cons x xs)
  have "slot_at m' n (c mod n) x"
  proof (rule slot_at_cong [OF _ assms(2-4)])
    show "slot_at m n (c mod n) x" using Cons.prems(1) by simp
    show "block_eq m m' ((c + j) mod n)" if "j < slot_len x" for j using Cons.prems(2) [of j] that by simp
  qed
  moreover have "slots_at m' n (c + slot_len x) xs"
  proof (rule Cons.IH)
    show "block_eq m m' ((c + slot_len x + j) mod n)" if "j < slots_len xs" for j
      using Cons.prems(2) [of "slot_len x + j"] that by (simp add: add.assoc)
  qed (use Cons.prems in simp)
  ultimately show ?case by simp
qed simp

section \<open>The ring invariant\<close>

definition miso_geom :: "miso_ring_buffer \<Rightarrow> bool" where
  "miso_geom s \<longleftrightarrow> (\<exists>k. 4 \<le> k \<and> k \<le> 24 \<and> mcnt s = 2 ^ k) \<and> length (miso_blocks s) = 128 * mcnt s"

text \<open>
  \<open>k\<close> blocks behind the published read cursor are consumed but not yet returned; \<open>xs\<close> are the slots from
  the reader's own cursor to the write cursor; all other blocks are free and their status is unused.
\<close>

definition miso_inv :: "miso_ring_buffer \<Rightarrow> nat \<Rightarrow> slot list \<Rightarrow> bool" where
  "miso_inv s k xs \<longleftrightarrow> miso_geom s
     \<and> read_cursor_start_cache (miso_head s) = read_cursor s
     \<and> read_cursor_cache (miso_head s) = read_cursor s + of_nat k
     \<and> write_cursor s = read_cursor s + of_nat (k + slots_len xs)
     \<and> k + slots_len xs < mcnt s
     \<and> slots_at (miso_blocks s) (mcnt s) (unat (read_cursor s) + k) xs
     \<and> (\<forall>j. k + slots_len xs \<le> j \<longrightarrow> j < mcnt s
          \<longrightarrow> get_status (miso_blocks s) ((unat (read_cursor s) + j) mod mcnt s) = status_unused)"

lemma miso_geomD:
  assumes "miso_geom s"
  shows "0 < mcnt s" "16 \<le> mcnt s" "mcnt s \<le> 2 ^ 24" "length (miso_blocks s) = 128 * mcnt s"
proof -
  obtain k where k: "4 \<le> k" "k \<le> 24" "mcnt s = 2 ^ k" using assms by (auto simp: miso_geom_def)
  show "mcnt s \<le> 2 ^ 24" unfolding k(3) using k(2) by (rule power_increasing) simp
  have "(2 :: nat) ^ 4 \<le> 2 ^ k" using k(1) by (rule power_increasing) simp
  then show "0 < mcnt s" "16 \<le> mcnt s" using k(3) by simp_all
  show "length (miso_blocks s) = 128 * mcnt s" using assms by (simp add: miso_geom_def)
qed

lemma miso_index_mod: "miso_geom s \<Longrightarrow> miso_index s c = unat c mod mcnt s"
  using mask_AND_mod [of "miso_count s" _ c] by (auto simp: miso_geom_def miso_index_def)

lemma miso_index_add:
  assumes "miso_geom s" and "j < 2 ^ 32"
  shows "miso_index s (c + of_nat j) = (unat c + j) mod mcnt s"
proof -
  obtain k where "mcnt s = 2 ^ k" "k < 32" using assms(1) by (auto simp: miso_geom_def)
  then show ?thesis using assms unat_add_mod_pow2 [of "miso_count s" k c "of_nat j"]
    by (simp add: miso_index_mod unat_of_nat)
qed

lemma block_in_range:
  assumes "miso_geom s"
  shows "128 * (c mod mcnt s) + 128 \<le> length (miso_blocks s)"
proof -
  have "c mod mcnt s < mcnt s" using miso_geomD(1) [OF assms] by (rule mod_less_divisor)
  then show ?thesis unfolding miso_geomD(4) [OF assms] by linarith
qed

lemma miso_invD:
  assumes "miso_inv s k xs"
  shows "miso_geom s" "read_cursor_start_cache (miso_head s) = read_cursor s"
    "read_cursor_cache (miso_head s) = read_cursor s + of_nat k"
    "write_cursor s = read_cursor s + of_nat (k + slots_len xs)" "k + slots_len xs < mcnt s"
    "slots_at (miso_blocks s) (mcnt s) (unat (read_cursor s) + k) xs"
    "\<And>j. k + slots_len xs \<le> j \<Longrightarrow> j < mcnt s
      \<Longrightarrow> get_status (miso_blocks s) ((unat (read_cursor s) + j) mod mcnt s) = status_unused"
    "miso_index s (read_cursor_cache (miso_head s)) = (unat (read_cursor s) + k) mod mcnt s"
    "miso_index s (write_cursor s) = (unat (read_cursor s) + (k + slots_len xs)) mod mcnt s"
proof -
  show g: "miso_geom s" "read_cursor_start_cache (miso_head s) = read_cursor s"
    "read_cursor_cache (miso_head s) = read_cursor s + of_nat k"
    "write_cursor s = read_cursor s + of_nat (k + slots_len xs)" "k + slots_len xs < mcnt s"
    "slots_at (miso_blocks s) (mcnt s) (unat (read_cursor s) + k) xs"
    "\<And>j. k + slots_len xs \<le> j \<Longrightarrow> j < mcnt s
      \<Longrightarrow> get_status (miso_blocks s) ((unat (read_cursor s) + j) mod mcnt s) = status_unused"
    using assms unfolding miso_inv_def by blast+
  have "k + slots_len xs < 2 ^ 32" using g(5) miso_geomD(3) [OF g(1)] by simp
  then show "miso_index s (read_cursor_cache (miso_head s)) = (unat (read_cursor s) + k) mod mcnt s"
    "miso_index s (write_cursor s) = (unat (read_cursor s) + (k + slots_len xs)) mod mcnt s"
    unfolding g(3,4) using g(1) by (intro miso_index_add; simp)+
qed

text \<open>A new slot at the write cursor, written inside its first block.\<close>

lemma inv_append:
  assumes inv: "miso_inv s k xs" and ib: "in_block (miso_index s (write_cursor s)) (miso_blocks s) m'"
    and x: "slot_at m' (mcnt s) (miso_index s (write_cursor s)) x" and fit: "k + slots_len xs + slot_len x < mcnt s"
  shows "miso_inv (s\<lparr>write_cursor := write_cursor s + of_nat (slot_len x), miso_blocks := m'\<rparr>) k (xs @ [x])"
proof -
  note d = miso_invD [OF inv]
  let ?n = "mcnt s" and ?r = "unat (read_cursor s)"
  have len: "length m' = length (miso_blocks s)" using ib by (simp add: in_block_def)
  have other: "block_eq (miso_blocks s) m' ((?r + j) mod ?n)" if "j < ?n" "j \<noteq> k + slots_len xs" for j
    using ib block_in_range [OF d(1)] mod_window_inj [of ?r j ?n "k + slots_len xs"] that d(5)
    unfolding d(9) by (intro in_block_eq) auto
  have "slots_at m' ?n (?r + k) xs"
    using d(6) len miso_geomD(4,1) [OF d(1)] d(5)
    by (elim slots_at_cong) (auto simp: add.assoc intro!: other)
  moreover have "slot_at m' ?n ((?r + k + slots_len xs) mod ?n) x" using x d(9) by (simp add: add.assoc)
  moreover have "get_status m' ((?r + j) mod ?n) = status_unused"
    if "k + slots_len (xs @ [x]) \<le> j" "j < ?n" for j
    using that slot_len_pos [OF x] d(7) [of j]
      header_cong(1) [OF other [of j] len block_in_range [OF d(1)]] by simp
  ultimately show ?thesis unfolding miso_inv_def
    using d(1-5) fit len by (auto simp: miso_geom_def slots_at_append add.assoc)
qed

text \<open>A slot replaced by one of the same length, written inside its blocks.\<close>

lemma inv_update:
  assumes inv: "miso_inv s k (xs @ x # ys)" and len: "length m' = length (miso_blocks s)"
    and eq: "\<And>b. b < mcnt s
      \<Longrightarrow> (\<And>i. i < slot_len x \<Longrightarrow> b \<noteq> (unat (read_cursor s) + (k + slots_len xs + i)) mod mcnt s)
      \<Longrightarrow> block_eq (miso_blocks s) m' b"
    and x': "slot_at m' (mcnt s) ((unat (read_cursor s) + (k + slots_len xs)) mod mcnt s) x'"
    and sl: "slot_len x' = slot_len x"
  shows "miso_inv (s\<lparr>miso_blocks := m'\<rparr>) k (xs @ x' # ys)"
proof -
  note d = miso_invD [OF inv]
  let ?n = "mcnt s" and ?r = "unat (read_cursor s)" and ?o = "k + slots_len xs"
  have tot: "?o + slot_len x + slots_len ys < ?n" using d(5) by simp
  have other: "block_eq (miso_blocks s) m' ((?r + j) mod ?n)" if j: "j < ?n" "j < ?o \<or> ?o + slot_len x \<le> j" for j
  proof (rule eq)
    show "(?r + j) mod ?n < ?n" using miso_geomD(1) [OF d(1)] by simp
    show "(?r + j) mod ?n \<noteq> (?r + (?o + i)) mod ?n" if "i < slot_len x" for i
      using mod_window_inj [of ?r j ?n "?o + i"] j that tot by auto
  qed
  have "slots_at m' ?n (?r + k) xs"
    using d(6) len miso_geomD(4,1) [OF d(1)] tot unfolding slots_at_append
    by (elim conjE slots_at_cong) (auto simp: add.assoc intro!: other)
  moreover have "slots_at m' ?n (?r + k + slots_len xs + slot_len x) ys"
    using d(6) len miso_geomD(4,1) [OF d(1)] tot unfolding slots_at_append slots_at.simps
    by (elim conjE slots_at_cong [where c = "?r + k + slots_len xs + slot_len x"])
      (auto simp: add.assoc intro!: other)
  moreover have "get_status m' ((?r + j) mod ?n) = status_unused"
    if "k + slots_len (xs @ x # ys) \<le> j" "j < ?n" for j
    using that d(7) [of j] header_cong(1) [OF other [of j] len block_in_range [OF d(1)]] by simp
  ultimately show ?thesis unfolding miso_inv_def
    using d(1-5) len x' sl by (auto simp: miso_geom_def slots_at_append add.assoc)
qed

section \<open>Allocation\<close>

text \<open>A cursor a producer may hold: the published read cursor at some earlier time.\<close>

definition past_cursor :: "miso_ring_buffer \<Rightarrow> u32 \<Rightarrow> bool" where
  "past_cursor s r \<longleftrightarrow> unat (read_cursor s - r) \<le> 2 ^ 31"

lemma past_cursor_self: "past_cursor s (read_cursor s)"
  by (simp add: past_cursor_def)

lemma unat_from_past:
  assumes "past_cursor s r" and "j \<le> 2 ^ 30"
  shows "unat (read_cursor s + of_nat j - r) = unat (read_cursor s - r) + j"
proof -
  have j: "unat (of_nat j :: u32) = j" using assms(2) by (simp add: unat_of_nat)
  have "unat ((read_cursor s - r) + of_nat j) = unat (read_cursor s - r) + unat (of_nat j :: u32)"
    using assms j by (intro unat_add_lem [THEN iffD1]) (simp add: past_cursor_def)
  moreover have "read_cursor s + of_nat j - r = (read_cursor s - r) + of_nat j" by simp
  ultimately show ?thesis using j by metis
qed

text \<open>After an allocation the cached cursor is less than a ring behind the write cursor.\<close>

definition tight :: "miso_ring_buffer \<Rightarrow> nat \<Rightarrow> u32 \<Rightarrow> bool" where
  "tight s l r \<longleftrightarrow> unat (read_cursor s - r) + l < mcnt s"

lemma tight_past: "miso_geom s \<Longrightarrow> tight s l r \<Longrightarrow> past_cursor s r"
  using miso_geomD(3) [of s] by (simp add: tight_def past_cursor_def)

lemma tight_self: "l < mcnt s \<Longrightarrow> tight s l (read_cursor s)"
  by (simp add: tight_def)

definition same_reader :: "miso_ring_buffer \<Rightarrow> miso_ring_buffer \<Rightarrow> bool" where
  "same_reader s s' \<longleftrightarrow> miso_head s' = miso_head s \<and> read_cursor s' = read_cursor s
     \<and> miso_count s' = miso_count s \<and> miso_config s' = miso_config s \<and> miso_state s' = miso_state s"

lemma same_reader_trans: "same_reader s s' \<Longrightarrow> same_reader s' s'' \<Longrightarrow> same_reader s s''"
  by (simp add: same_reader_def)

lemma reserve_wait_last:
  "write_cursor s = nx \<Longrightarrow> miso_reserve_wait s nx cur
    = Some (if nx - read_cursor s \<ge> miso_count s then (False, read_cursor s, s\<lparr>write_cursor := cur\<rparr>)
            else (True, read_cursor s, s))"
  by (subst miso_reserve_wait.simps) simp

text \<open>Reservation, by the space that is left.\<close>

lemma reserve_cases:
  assumes inv: "miso_inv s k xs" and past: "past_cursor s rref" and nd: "unat need \<le> mcnt s"
  shows "\<exists>r'. miso_reserve need rref s
    = Some (if k + slots_len xs + unat need < mcnt s
            then (True, r', write_cursor s, s\<lparr>write_cursor := write_cursor s + need\<rparr>)
            else (False, r', write_cursor s, s))
    \<and> tight s (k + slots_len xs + (if k + slots_len xs + unat need < mcnt s then unat need else 0)) r'"
proof -
  note d = miso_invD [OF inv]
  have small: "k + slots_len xs + unat need \<le> 2 ^ 30" using d(5) nd miso_geomD(3) [OF d(1)] by simp
  have next': "write_cursor s + need = read_cursor s + of_nat (k + slots_len xs + unat need)"
    unfolding d(4) by simp
  have u: "unat (write_cursor s + need - r) = unat (read_cursor s - r) + (k + slots_len xs + unat need)"
    if "past_cursor s r" for r
    unfolding next' using unat_from_past [OF that small] .
  note u0 = u [OF past_cursor_self]
  show ?thesis
  proof (cases "miso_count s \<le> write_cursor s + need - rref")
    case True
    then show ?thesis using u0 d(5)
      by (intro exI [of _ "read_cursor s"])
        (auto simp: miso_reserve_def Let_def reserve_wait_last word_le_nat_alt tight_def)
  next
    case False
    then have "k + slots_len xs + unat need < mcnt s" "tight s (k + slots_len xs + unat need) rref"
      using u [OF past] by (simp_all add: word_le_nat_alt tight_def)
    with False show ?thesis by (auto simp: miso_reserve_def Let_def)
  qed
qed

lemma grant_fields:
  "\<exists>low r'. miso_grant sz need used cur rref s
    = (\<lparr>wh_data_addr = Some (128 * miso_index s cur + 8), wh_result = success, low_space_flag = low\<rparr>, r',
       s\<lparr>miso_blocks := set_data_size (miso_index s cur) sz (miso_blocks s)\<rparr>)
    \<and> (r' = rref \<or> r' = read_cursor s)"
  by (simp add: miso_grant_def Let_def)

text \<open>
  One iteration of the loop of \<open>alloc_write_chunk\<close>. The iteration after a skipped chunk starts from the
  position of that chunk, hence the second form of \<open>cur\<close>.
\<close>

lemma alloc_loop_full:
  assumes inv: "miso_inv s k xs" and past: "past_cursor s rref" and nd: "unat need \<le> mcnt s"
    and full: "mcnt s \<le> k + slots_len xs + unat need"
  shows "\<exists>r'. miso_alloc_loop sz need used cur rref s
      = Some (empty_write_handle\<lparr>wh_result := miso_full_result s need\<rparr>, r', s) \<and> tight s (k + slots_len xs) r'"
proof -
  define rr where "rr = (if cur + need - rref > miso_count s then read_cursor s else rref)"
  have p: "past_cursor s rr" using past past_cursor_self by (simp add: rr_def)
  have rc: "tight s (k + slots_len xs) (read_cursor s)" by (rule tight_self [OF miso_invD(5) [OF inv]])
  obtain r' where r': "tight s (k + slots_len xs) r'" "miso_reserve need rr s = Some (False, r', write_cursor s, s)"
    using reserve_cases [OF inv p nd] full by auto
  note unfold = miso_alloc_loop.simps [of sz need used cur rref s, unfolded Let_def, folded rr_def]
  show ?thesis unfolding unfold r'(2) using r'(1) rc by (auto simp: rr_def)
qed

lemma alloc_loop_room:
  assumes inv: "miso_inv s k xs" and past: "past_cursor s rref" and nd: "unat need \<le> mcnt s"
    and room: "k + slots_len xs + unat need < mcnt s"
    and cur: "cur = write_cursor s \<or> cur + need = write_cursor s"
  defines "b \<equiv> miso_index s (write_cursor s)"
  shows "mcnt s < b + unat need
      \<Longrightarrow> \<exists>r'. tight s (k + slots_len xs + unat need) r' \<and> miso_alloc_loop sz need used cur rref s
        = miso_alloc_loop sz need used (write_cursor s) r' (s\<lparr>write_cursor := write_cursor s + need,
            miso_blocks := set_status b status_invalid (set_block_num b need (miso_blocks s))\<rparr>)"
    "b + unat need \<le> mcnt s
      \<Longrightarrow> \<exists>low r'. tight s (k + slots_len xs + unat need) r' \<and> miso_alloc_loop sz need used cur rref s
        = Some (\<lparr>wh_data_addr = Some (128 * b + 8), wh_result = success, low_space_flag = low\<rparr>, r',
            s\<lparr>write_cursor := write_cursor s + need,
              miso_blocks := set_data_size b sz (set_block_num b need (miso_blocks s))\<rparr>)"
proof -
  note d = miso_invD [OF inv]
  define rr where "rr = (if cur + need - rref > miso_count s then read_cursor s else rref)"
  have p: "past_cursor s rr" using past past_cursor_self by (simp add: rr_def)
  obtain r' where r': "tight s (k + slots_len xs + unat need) r'" "miso_reserve need rr s
      = Some (True, r', write_cursor s, s\<lparr>write_cursor := write_cursor s + need\<rparr>)"
    using reserve_cases [OF inv p nd] room by auto
  have small: "k + slots_len xs + unat need \<le> 2 ^ 30" using d(5) nd miso_geomD(3) [OF d(1)] by simp
  have "unat (read_cursor s + of_nat j - read_cursor s) = j" if "j \<le> 2 ^ 30" for j
    using unat_from_past [OF past_cursor_self that] by simp
  note dist = this [of "k + slots_len xs"] this [of "k + slots_len xs + unat need"]
  have "write_cursor s + need = read_cursor s + of_nat (k + slots_len xs + unat need)" unfolding d(4) by simp
  then have "\<not> cur + need - read_cursor s > miso_count s"
    using cur dist small room unfolding word_less_nat_alt by (auto simp: d(4) simp del: of_nat_add)
  then have pre: "\<not> (cur + need - rref > miso_count s \<and> cur + need - rr > miso_count s)"
    by (auto simp: rr_def)
  have ix: "(write_cursor s AND (miso_count s - 1)) + need > miso_count s \<longleftrightarrow> mcnt s < b + unat need"
  proof -
    have "b < 2 ^ 24" using miso_geomD(1,3) [OF d(1)] d(9) mod_less_divisor [of "mcnt s"]
      by (metis b_def less_le_trans)
    then have "unat ((write_cursor s AND (miso_count s - 1)) + need) = b + unat need"
      using nd miso_geomD(3) [OF d(1)] unfolding b_def miso_index_def
      by (intro unat_add_lem [THEN iffD1]) simp
    then show ?thesis by (simp add: word_less_nat_alt)
  qed
  have st: "miso_index (s\<lparr>write_cursor := x\<rparr>) c = miso_index s c"
    "miso_index (s\<lparr>write_cursor := x, miso_blocks := y\<rparr>) c = miso_index s c" for x y c
    by (simp_all add: miso_index_def)
  note unfold = miso_alloc_loop.simps [of sz need used cur rref s, unfolded Let_def, folded rr_def]
  show "\<exists>r'. tight s (k + slots_len xs + unat need) r' \<and> miso_alloc_loop sz need used cur rref s
        = miso_alloc_loop sz need used (write_cursor s) r' (s\<lparr>write_cursor := write_cursor s + need,
            miso_blocks := set_status b status_invalid (set_block_num b need (miso_blocks s))\<rparr>)"
    if "mcnt s < b + unat need"
    unfolding unfold r'(2) using pre that ix r'(1) by (auto simp: st b_def)
  show "\<exists>low r'. tight s (k + slots_len xs + unat need) r' \<and> miso_alloc_loop sz need used cur rref s
        = Some (\<lparr>wh_data_addr = Some (128 * b + 8), wh_result = success, low_space_flag = low\<rparr>, r',
            s\<lparr>write_cursor := write_cursor s + need,
              miso_blocks := set_data_size b sz (set_block_num b need (miso_blocks s))\<rparr>)"
    if "b + unat need \<le> mcnt s"
  proof -
    let ?s = "s\<lparr>write_cursor := write_cursor s + need, miso_blocks := set_block_num b need (miso_blocks s)\<rparr>"
    obtain low r'' where "miso_grant sz need used (write_cursor s) r' ?s
      = (\<lparr>wh_data_addr = Some (128 * b + 8), wh_result = success, low_space_flag = low\<rparr>, r'',
         s\<lparr>write_cursor := write_cursor s + need,
           miso_blocks := set_data_size b sz (set_block_num b need (miso_blocks s))\<rparr>)"
      "r'' = r' \<or> r'' = read_cursor s"
      using grant_fields [of sz need used "write_cursor s" r' ?s] by (auto simp: st b_def)
    then show ?thesis
      unfolding unfold r'(2) using pre that ix r'(1) tight_self [OF room] by (auto simp: st b_def)
  qed
qed

text \<open>The two ways an iteration extends the ring.\<close>

lemma skip_inv:
  assumes inv: "miso_inv s k xs" and nd: "0 < unat need" "unat need < 2 ^ 24"
    and room: "k + slots_len xs + unat need < mcnt s"
  defines "b \<equiv> miso_index s (write_cursor s)"
  shows "miso_inv (s\<lparr>write_cursor := write_cursor s + need,
      miso_blocks := set_status b status_invalid (set_block_num b need (miso_blocks s))\<rparr>) k
      (xs @ [Skip (unat need)])"
proof -
  note d = miso_invD [OF inv]
  let ?m = "miso_blocks s" and ?m' = "set_status b status_invalid (set_block_num b need (miso_blocks s))"
  have r: "128 * b + 128 \<le> length ?m" unfolding b_def d(9) by (rule block_in_range [OF d(1)])
  have "in_block b ?m ?m'"
    by (rule in_block_trans [OF header_in_block(1) [OF r, of need]]) (simp add: header_in_block r)
  moreover have "slot_at ?m' (mcnt s) b (Skip (unat need))"
    using r nd header_after_block_num [OF r nd(2)] by (simp add: header_after_status)
  ultimately show ?thesis
    using inv_append [OF inv, of ?m' "Skip (unat need)"] room by (simp add: b_def)
qed

lemma grant_inv:
  assumes inv: "miso_inv s k xs" and nd: "unat need = need_blocks (unat sz)" "unat need < 2 ^ 24"
    and room: "k + slots_len xs + unat need < mcnt s" and fit: "miso_index s (write_cursor s) + unat need \<le> mcnt s"
  defines "b \<equiv> miso_index s (write_cursor s)"
  shows "miso_inv (s\<lparr>write_cursor := write_cursor s + need,
      miso_blocks := set_data_size b sz (set_block_num b need (miso_blocks s))\<rparr>) k
      (xs @ [Pending (unat sz)])"
proof -
  note d = miso_invD [OF inv]
  let ?m = "miso_blocks s" and ?m' = "set_data_size b sz (set_block_num b need (miso_blocks s))"
  have r: "128 * b + 128 \<le> length ?m" unfolding b_def d(9) by (rule block_in_range [OF d(1)])
  have "in_block b ?m ?m'"
    by (rule in_block_trans [OF header_in_block(1) [OF r, of need]]) (simp add: header_in_block r)
  moreover have "slot_at ?m' (mcnt s) b (Pending (unat sz))"
    using r nd fit header_after_block_num [OF r nd(2)] by (simp add: header_after_data_size b_def)
  moreover have "write_cursor s + need = write_cursor s + of_nat (need_blocks (unat sz))"
    by (simp flip: nd(1))
  ultimately show ?thesis
    using inv_append [OF inv, of ?m' "Pending (unat sz)"] room nd(1) by (simp add: b_def)
qed

definition alloc_result ::
  "miso_ring_buffer \<Rightarrow> nat \<Rightarrow> slot list \<Rightarrow> u32 \<Rightarrow> u32 \<Rightarrow> log_buffer_write_handle \<Rightarrow> miso_ring_buffer \<Rightarrow> nat \<Rightarrow> bool" where
  "alloc_result s k xs need sz h s' j \<longleftrightarrow> same_reader s s'
     \<and> (wh_result h = miso_full_result s need \<and> miso_inv s' k (xs @ replicate j (Skip (unat need)))
          \<and> mcnt s \<le> k + slots_len xs + j * unat need + unat need
        \<or> wh_result h = success \<and> miso_inv s' k (xs @ replicate j (Skip (unat need)) @ [Pending (unat sz)])
          \<and> wh_data_addr h = Some (128 * ((unat (read_cursor s) + (k + slots_len xs + j * unat need)) mod mcnt s) + 8))"

lemma alloc_loop_result:
  assumes "miso_inv s k xs" and "past_cursor s rref"
    and nd: "unat need = need_blocks (unat sz)" "unat need < 2 ^ 24" and le: "unat need \<le> mcnt s"
    and "cur = write_cursor s \<or> cur + need = write_cursor s"
  shows "\<exists>h r' s' j. miso_alloc_loop sz need used cur rref s = Some (h, r', s') \<and> (\<exists>l. tight s l r' \<and> write_cursor s' = read_cursor s + of_nat l)
    \<and> alloc_result s k xs need sz h s' j \<and> (miso_index s (write_cursor s) + unat need \<le> mcnt s \<longrightarrow> j = 0)"
  using assms(1,2,5,6)
proof (induction "mcnt s - (k + slots_len xs)" arbitrary: s xs cur rref rule: less_induct)
  case less
  note d = miso_invD [OF less.prems(1)]
  have pos: "0 < unat need" using nd(1) need_blocks_bounds(1) by simp
  let ?b = "miso_index s (write_cursor s)"
  consider (full) "mcnt s \<le> k + slots_len xs + unat need"
    | (skip) "k + slots_len xs + unat need < mcnt s" "mcnt s < ?b + unat need"
    | (ok) "k + slots_len xs + unat need < mcnt s" "?b + unat need \<le> mcnt s" by linarith
  then show ?case
  proof cases
    case full
    with alloc_loop_full [OF less.prems(1-3), of sz used cur] obtain r' where
      "miso_alloc_loop sz need used cur rref s
        = Some (empty_write_handle\<lparr>wh_result := miso_full_result s need\<rparr>, r', s)" "tight s (k + slots_len xs) r'" by blast
    then show ?thesis using full less.prems(1) d(4)
      by (intro exI [of _ "empty_write_handle\<lparr>wh_result := miso_full_result s need\<rparr>"] exI [of _ r'] exI [of _ s]
          exI [of _ 0]) (auto simp: alloc_result_def same_reader_def)
  next
    case ok
    with alloc_loop_room(2) [OF less.prems(1-3) ok(1) less.prems(4) ok(2), of sz used]
    obtain low r' where l: "tight s (k + slots_len xs + unat need) r'" "miso_alloc_loop sz need used cur rref s
        = Some (\<lparr>wh_data_addr = Some (128 * ?b + 8), wh_result = success, low_space_flag = low\<rparr>, r',
            s\<lparr>write_cursor := write_cursor s + need,
              miso_blocks := set_data_size ?b sz (set_block_num ?b need (miso_blocks s))\<rparr>)" by blast
    let ?h = "\<lparr>wh_data_addr = Some (128 * ?b + 8), wh_result = success, low_space_flag = low\<rparr>"
    let ?s = "s\<lparr>write_cursor := write_cursor s + need,
        miso_blocks := set_data_size ?b sz (set_block_num ?b need (miso_blocks s))\<rparr>"
    have "write_cursor ?s = read_cursor s + of_nat (k + slots_len xs + unat need)" unfolding d(4) by simp
    with l(1) have "\<exists>l. tight s l r' \<and> write_cursor ?s = read_cursor s + of_nat l" by blast
    moreover have "alloc_result s k xs need sz ?h ?s 0"
      using grant_inv [OF less.prems(1) nd ok] d(9) by (simp add: alloc_result_def same_reader_def)
    ultimately show ?thesis unfolding l(2) by blast
  next
    case skip
    let ?s = "s\<lparr>write_cursor := write_cursor s + need,
        miso_blocks := set_status ?b status_invalid (set_block_num ?b need (miso_blocks s))\<rparr>"
    have tight_eq: "tight ?s = tight s" "read_cursor ?s = read_cursor s" by (simp_all add: tight_def fun_eq_iff)
    from alloc_loop_room(1) [OF less.prems(1-3) skip(1) less.prems(4) skip(2), of sz used]
    obtain r' where l: "tight s (k + slots_len xs + unat need) r'" "miso_alloc_loop sz need used cur rref s
        = miso_alloc_loop sz need used (write_cursor s) r' ?s" by blast
    have "\<exists>h r'' s' j. miso_alloc_loop sz need used (write_cursor s) r' ?s = Some (h, r'', s')
        \<and> (\<exists>l. tight ?s l r'' \<and> write_cursor s' = read_cursor ?s + of_nat l)
        \<and> alloc_result ?s k (xs @ [Skip (unat need)]) need sz h s' j
        \<and> (miso_index ?s (write_cursor ?s) + unat need \<le> mcnt ?s \<longrightarrow> j = 0)"
      using skip_inv [OF less.prems(1) pos nd(2) skip(1)] tight_past [OF d(1) l(1)] less.prems(3) pos skip(1)
      by (intro less.hyps) (simp_all add: past_cursor_def)
    then obtain h r'' s' j where h: "miso_alloc_loop sz need used (write_cursor s) r' ?s = Some (h, r'', s')"
      "\<exists>l. tight s l r'' \<and> write_cursor s' = read_cursor s + of_nat l" "alloc_result ?s k (xs @ [Skip (unat need)]) need sz h s' j"
      unfolding tight_eq by blast
    have "alloc_result s k xs need sz h s' (Suc j)"
      using h(3) by (auto simp: alloc_result_def same_reader_def miso_full_result_def algebra_simps replicate_app_Cons_same)
    with h(1,2) skip(2) show ?thesis unfolding l(2) by (intro exI [of _ h] exI [of _ r''] exI [of _ s'] exI [of _ "Suc j"]) simp
  qed
qed

lemma miso_need_nat:
  assumes "unat sz < 2 ^ 32 - 8"
  shows "unat (miso_need sz) = need_blocks (unat sz)"
proof -
  have a: "unat (sz + 8) = unat sz + 8" using assms by (subst unat_add_lem [THEN iffD1]) simp_all
  have "unat ((ucast (sz + 8) :: u64) + 127) = unat sz + 8 + 127"
    using assms a by (subst unat_add_lem [THEN iffD1]) (simp_all add: unsigned_ucast_eq take_bit_nat_eq_self)
  then have "unat (drop_bit 7 ((ucast (sz + 8) :: u64) + 127)) = need_blocks (unat sz)"
    by (simp add: unat_drop_bit_eq drop_bit_eq_div need_blocks_def unat_div)
  moreover have "need_blocks (unat sz) < 2 ^ 32" using assms by (simp add: need_blocks_def)
  ultimately show ?thesis by (simp add: miso_need_def unsigned_ucast_eq take_bit_nat_eq_self)
qed

text \<open>The thread-local cursor a producer may hold.\<close>

definition tls_ok :: "miso_ring_buffer \<Rightarrow> miso_tls_buffer_info option \<Rightarrow> bool" where
  "tls_ok s tls \<longleftrightarrow> (case tls of None \<Rightarrow> True | Some t \<Rightarrow> is_new_created t \<or> past_cursor s (wt_read_cursor_cache t))"

text \<open>The same for a thread that is the only producer: its cursor is less than a ring behind.\<close>

definition tls_tight :: "miso_ring_buffer \<Rightarrow> miso_tls_buffer_info option \<Rightarrow> bool" where
  "tls_tight s tls \<longleftrightarrow> (case tls of None \<Rightarrow> True
     | Some t \<Rightarrow> is_new_created t \<or> tight s (unat (write_cursor s - read_cursor s)) (wt_read_cursor_cache t))"

lemma tls_tight_ok: "miso_geom s \<Longrightarrow> tls_tight s tls \<Longrightarrow> tls_ok s tls"
  using tight_past by (auto simp: tls_tight_def tls_ok_def split: option.splits)

lemma alloc_result_cases:
  assumes inv: "miso_inv s k xs" and tls: "tls_ok s tls" and sz: "unat sz < 2 ^ 32 - 8"
  shows "\<exists>h tls' s'. miso_alloc_write_chunk tls s sz = Some (h, tls', s') \<and> tls_ok s tls'
    \<and> (tls_tight s tls \<longrightarrow> tls_tight s' tls')
    \<and> (need_blocks (unat sz) > mcnt s \<and> wh_result h = err_alloc_size_invalid \<and> s' = s
       \<or> need_blocks (unat sz) > 0xFFFFFF \<and> wh_result h = err_alloc_size_invalid \<and> s' = s
       \<or> need_blocks (unat sz) \<le> mcnt s \<and> (\<exists>j. alloc_result s k xs (miso_need sz) sz h s' j
            \<and> (miso_index s (write_cursor s) + need_blocks (unat sz) \<le> mcnt s \<longrightarrow> j = 0)))"
proof -
  note n = miso_need_nat [OF sz]
  let ?r = "case tls of Some t \<Rightarrow> if is_new_created t then read_cursor s else wt_read_cursor_cache t
              | None \<Rightarrow> read_cursor s"
  have p: "past_cursor s ?r" using tls past_cursor_self by (auto simp: tls_ok_def split: option.splits)
  show ?thesis
  proof (cases "miso_need sz > miso_count s \<or> miso_need sz = 0 \<or> miso_need sz > 0xFFFFFF")
    case True
    then have "need_blocks (unat sz) > mcnt s \<or> need_blocks (unat sz) > 0xFFFFFF"
      using n need_blocks_bounds(1) [of "unat sz"] by (auto simp: word_less_nat_alt)
    with True tls show ?thesis by (auto simp: miso_alloc_write_chunk_def Let_def)
  next
    case False
    then have le: "unat (miso_need sz) \<le> mcnt s" "unat (miso_need sz) < 2 ^ 24"
      by (auto simp: word_less_nat_alt not_less)
    from alloc_loop_result [OF inv p n le(2,1), of "write_cursor s" "write_cursor s - ?r"]
    obtain h r' s' j where l: "miso_alloc_loop sz (miso_need sz) (write_cursor s - ?r) (write_cursor s) ?r s = Some (h, r', s')"
      "\<exists>l. tight s l r' \<and> write_cursor s' = read_cursor s + of_nat l" "alloc_result s k xs (miso_need sz) sz h s' j"
      "miso_index s (write_cursor s) + unat (miso_need sz) \<le> mcnt s \<longrightarrow> j = 0" by blast
    from l(2) obtain l where tl: "tight s l r'" "write_cursor s' = read_cursor s + of_nat l" by blast
    have "l < 2 ^ 32" using tl(1) miso_geomD(3) [OF miso_invD(1) [OF inv]] by (simp add: tight_def)
    then have "tight s' (unat (write_cursor s' - read_cursor s')) r'"
      using tl l(3) by (simp add: tight_def alloc_result_def same_reader_def unat_of_nat)
    then have t: "tls_ok s (map_option (\<lambda>t. \<lparr>wt_read_cursor_cache = r', is_new_created = False\<rparr>) tls)"
      "tls_tight s' (map_option (\<lambda>t. \<lparr>wt_read_cursor_cache = r', is_new_created = False\<rparr>) tls)"
      using tight_past [OF miso_invD(1) [OF inv] tl(1)] by (auto simp: tls_ok_def tls_tight_def split: option.splits)
    have eq: "miso_alloc_write_chunk tls s sz
        = Some (h, map_option (\<lambda>t. \<lparr>wt_read_cursor_cache = r', is_new_created = False\<rparr>) tls, s')"
      using False l(1) unfolding miso_alloc_write_chunk_def Let_def by simp
    show ?thesis using eq t l(3,4) le n by auto
  qed
qed

text \<open>The same for the client: a refused allocation leaves skipped chunks at most, a granted one a pending
  slot of the payload's size at the handle's address.\<close>

lemma alloc_outcome:
  assumes inv: "miso_inv s k xs" and tls: "tls_ok s tls" and lp: "length p < 2 ^ 32 - 8"
    and al: "miso_alloc_write_chunk tls s (of_nat (length p)) = Some (h, tls', s')"
  defines "nd \<equiv> unat (miso_need (of_nat (length p)))"
  obtains (err) j where "wh_result h \<noteq> success" "same_reader s s'" "miso_inv s' k (xs @ replicate j (Skip nd))"
  | (ok) j where "wh_result h = success" "same_reader s s'"
      "miso_inv s' k (xs @ replicate j (Skip nd) @ [Pending (length p)])"
      "wh_data_addr h = Some (128 * ((unat (read_cursor s) + (k + (slots_len xs + j * nd))) mod mcnt s) + 8)"
proof -
  have u: "unat (of_nat (length p) :: u32) = length p" using lp by (simp add: unat_of_nat)
  then have sz: "unat (of_nat (length p) :: u32) < 2 ^ 32 - 8" using lp by simp
  from alloc_result_cases [OF inv tls sz] al
  have "wh_result h = err_alloc_size_invalid \<and> s' = s
      \<or> (\<exists>j. alloc_result s k xs (miso_need (of_nat (length p))) (of_nat (length p)) h s' j)" by auto
  then show thesis
  proof
    assume "wh_result h = err_alloc_size_invalid \<and> s' = s"
    then show thesis using err [of 0] inv by (simp add: same_reader_def)
  next
    assume "\<exists>j. alloc_result s k xs (miso_need (of_nat (length p))) (of_nat (length p)) h s' j"
    then obtain j where j: "alloc_result s k xs (miso_need (of_nat (length p))) (of_nat (length p)) h s' j" ..
    show thesis
    proof (cases "wh_result h = success")
      case True
      then show thesis using j ok [of j] u
        by (auto simp: alloc_result_def miso_full_result_def add.assoc nd_def split: if_splits)
    next
      case False
      then show thesis using j err [of j] by (auto simp: alloc_result_def nd_def)
    qed
  qed
qed

end
