(* ===== verification/Qlog_Miso_Reader.thy ===== *)
theory Qlog_Miso_Reader
  imports Qlog_Miso_Correct
begin

text \<open>
  Commit, read and return of the multi-producer ring: what they do to its slots.
\<close>

unbundle bit_operations_syntax

section \<open>Commit\<close>

text \<open>The producer's copy of its payload to the handle's address.\<close>

definition miso_fill :: "miso_ring_buffer \<Rightarrow> log_buffer_write_handle \<Rightarrow> bytes \<Rightarrow> miso_ring_buffer" where
  "miso_fill s h p = (case wh_data_addr h of None \<Rightarrow> s
     | Some a \<Rightarrow> s\<lparr>miso_blocks := mem_write (miso_blocks s) a p\<rparr>)"

lemma index_in_chunk:
  assumes "(c :: nat) mod n + l \<le> n" and "j < l"
  shows "(c + j) mod n = c mod n + j"
  using assms mod_add_left_eq [of c n j] by simp

lemma committed_slot:
  assumes x: "slot_at m n b (Pending (length p))" and len: "length m = 128 * n"
  defines "m' \<equiv> (mem_write m (128 * b + 8) p)[128 * b + 3 := status_used]"
  shows "slot_at m' n b (Data p)" "length m' = length m"
    "b' < n \<Longrightarrow> (\<And>i. i < need_blocks (length p) \<Longrightarrow> b' \<noteq> b + i) \<Longrightarrow> block_eq m m' b'"
proof -
  have fit: "b + need_blocks (length p) \<le> n" using x by simp
  have end_le: "128 * b + 8 + length p \<le> 128 * (b + need_blocks (length p))"
    using need_blocks_bounds(2) [of "length p"] by simp
  also have "\<dots> \<le> length m" using fit len by simp
  finally have in_range: "128 * b + 8 + length p \<le> length m" .
  have b: "128 * b + 128 \<le> length m" using fit need_blocks_bounds(1) [of "length p"] len by linarith
  show l: "length m' = length m" using in_range by (simp add: m'_def)
  have nth: "m' ! i = (if i = 128 * b + 3 then status_used
      else if 128 * b + 8 \<le> i \<and> i < 128 * b + 8 + length p then p ! (i - (128 * b + 8)) else m ! i)"
    if "i < length m" for i
    using that in_range b by (simp add: m'_def nth_list_update nth_mem_write)
  have "get_block_num m' b = get_block_num m b" using l b nth by (intro get_block_num_cong) auto
  moreover have "get_data_size m' b = get_data_size m b"
    unfolding get_data_size_def using l b nth by (intro load_u32_cong) auto
  moreover have "get_status m' b = status_used" using b nth by (simp add: get_status_def)
  moreover have "mem_read m' (128 * b + 8) (length p) = p"
    using in_range l nth by (intro nth_equalityI) (auto simp: nth_mem_read)
  ultimately show "slot_at m' n b (Data p)" using x by simp
  show "block_eq m m' b'" if b': "b' < n" "\<And>i. i < need_blocks (length p) \<Longrightarrow> b' \<noteq> b + i"
  proof -
    have "m' ! (128 * b' + i) = m ! (128 * b' + i)" if i: "i < 128" for i
    proof -
      have "b' < b \<or> b + need_blocks (length p) \<le> b'" using b'(2) [of "b' - b"] by linarith
      then have "128 * b' + i < 128 * b \<or> 128 * b + 8 + length p \<le> 128 * b' + i"
      proof
        assume "b' < b" then show ?thesis using i by linarith
      next
        assume "b + need_blocks (length p) \<le> b'"
        then have "128 * (b + need_blocks (length p)) \<le> 128 * b'" by simp
        then show ?thesis using end_le by linarith
      qed
      moreover have "128 * b' + i < length m" using b'(1) i len by linarith
      ultimately show ?thesis using nth by auto
    qed
    then show ?thesis by (simp add: block_eq_def)
  qed
qed

lemma miso_commit_inv:
  assumes inv: "miso_inv s k (xs @ Pending (length p) # ys)" and ok: "wh_result h = success"
    and a: "wh_data_addr h = Some (128 * ((unat (read_cursor s) + (k + slots_len xs)) mod mcnt s) + 8)"
  shows "miso_inv (miso_commit_write_chunk (miso_fill s h p) h) k (xs @ Data p # ys)"
proof -
  note d = miso_invD [OF inv]
  let ?c = "unat (read_cursor s) + (k + slots_len xs)" and ?n = "mcnt s"
  define b where "b = ?c mod ?n"
  have x: "slot_at (miso_blocks s) ?n b (Pending (length p))"
    using d(6) by (simp add: slots_at_append b_def add.assoc)
  note c = committed_slot [OF x miso_geomD(4) [OF d(1)]]
  have pos: "(?c + i) mod ?n = b + i" if "i < need_blocks (length p)" for i
    unfolding b_def using x that by (intro index_in_chunk) (simp_all add: b_def)
  have "miso_inv (s\<lparr>miso_blocks := (mem_write (miso_blocks s) (128 * b + 8) p)[128 * b + 3 := status_used]\<rparr>) k
      (xs @ Data p # ys)"
  proof (rule inv_update [OF inv c(2)])
    show "slot_at ((mem_write (miso_blocks s) (128 * b + 8) p)[128 * b + 3 := status_used]) ?n (?c mod ?n) (Data p)"
      using c(1) by (simp add: b_def)
    show "block_eq (miso_blocks s) ((mem_write (miso_blocks s) (128 * b + 8) p)[128 * b + 3 := status_used]) b'"
      if "b' < ?n" "\<And>i. i < slot_len (Pending (length p)) \<Longrightarrow> b' \<noteq> (unat (read_cursor s) + (k + slots_len xs + i)) mod ?n"
      for b' using that pos by (intro c(3)) (auto simp: add.assoc)
  qed simp
  then show ?thesis using ok a by (simp add: miso_commit_write_chunk_def miso_fill_def b_def)
qed

section \<open>Reading\<close>

lemma read_skip:
  assumes inv: "miso_inv s k (Skip j # xs)"
  shows "\<exists>s'. miso_read_chunk s = miso_read_chunk s' \<and> miso_inv s' (k + j) xs
    \<and> read_cursor s' = read_cursor s \<and> miso_count s' = miso_count s \<and> write_cursor s' = write_cursor s"
proof -
  note d = miso_invD [OF inv]
  let ?n = "mcnt s" and ?r = "unat (read_cursor s)"
  define b where "b = (?r + k) mod ?n"
  have x: "0 < j" "get_status (miso_blocks s) b = status_invalid" "unat (get_block_num (miso_blocks s) b) = j"
    using d(6) by (simp_all add: b_def)
  let ?m = "set_status b status_unused (miso_blocks s)"
  define s' where "s' = s\<lparr>miso_blocks := ?m, miso_head := (miso_head s)\<lparr>read_cursor_cache :=
      read_cursor_cache (miso_head s) + get_block_num (miso_blocks s) b\<rparr>\<rparr>"
  have step: "miso_read_chunk s = miso_read_chunk s'"
    using x(2) by (subst miso_read_chunk.simps) (simp add: Let_def d(8) b_def [symmetric] s'_def)
  have r: "128 * b + 128 \<le> length (miso_blocks s)" unfolding b_def by (rule block_in_range [OF d(1)])
  have other: "block_eq (miso_blocks s) ?m ((?r + i) mod ?n)" if "i < ?n" "i \<noteq> k" for i
    using header_in_block(3) [OF r] block_in_range [OF d(1)] mod_window_inj [of ?r i ?n k] that d(5)
    by (intro in_block_eq) (auto simp: b_def)
  have "slots_at ?m ?n (?r + k + j) xs"
    using d(6) miso_geomD(4,1) [OF d(1)] d(5) x(1)
    by (auto simp: add.assoc elim!: slots_at_cong intro!: other)
  moreover have "get_status ?m ((?r + i) mod ?n) = status_unused" if "k + j + slots_len xs \<le> i" "i < ?n" for i
    using that x(1) d(7) [of i] header_cong(1) [OF other [of i] _ block_in_range [OF d(1)]] by simp
  moreover have "of_nat j = get_block_num (miso_blocks s) b" by (simp flip: x(3))
  ultimately have "miso_inv s' (k + j) xs" unfolding miso_inv_def s'_def
    using d(1-5) by (auto simp: miso_geom_def add.assoc)
  then show ?thesis using step by (auto simp: s'_def)
qed

lemma read_front:
  assumes inv: "miso_inv s k xs"
  shows "xs = Data p # ys \<Longrightarrow> miso_read_chunk s = Some (\<lparr>rh_data_addr =
        Some (128 * ((unat (read_cursor s) + k) mod mcnt s) + 8), rh_result = success,
        rh_data_size = of_nat (length p)\<rparr>, s)"
    "xs = [] \<or> (\<exists>sz ys. xs = Pending sz # ys) \<Longrightarrow> miso_read_chunk s = Some (empty_read_handle, s)"
proof -
  note d = miso_invD [OF inv]
  show "miso_read_chunk s = Some (\<lparr>rh_data_addr = Some (128 * ((unat (read_cursor s) + k) mod mcnt s) + 8),
      rh_result = success, rh_data_size = of_nat (length p)\<rparr>, s)" if xs: "xs = Data p # ys"
  proof -
    have "unat (get_data_size (miso_blocks s) ((unat (read_cursor s) + k) mod mcnt s)) = length p"
      using d(6) by (simp add: xs)
    then have "get_data_size (miso_blocks s) ((unat (read_cursor s) + k) mod mcnt s) = of_nat (length p)"
      by (simp flip: \<open>unat _ = length p\<close>)
    then show ?thesis using d(6)
      by (subst miso_read_chunk.simps) (simp add: xs Let_def d(8) status_used_def status_invalid_def)
  qed
  show "miso_read_chunk s = Some (empty_read_handle, s)" if "xs = [] \<or> (\<exists>sz ys. xs = Pending sz # ys)"
  proof -
    have "get_status (miso_blocks s) ((unat (read_cursor s) + k) mod mcnt s) = status_unused"
      using that d(6) d(7) [of k] d(5) by auto
    then show ?thesis
      by (subst miso_read_chunk.simps)
        (simp add: Let_def d(8) status_used_def status_invalid_def status_unused_def)
  qed
qed

fun is_skip :: "slot \<Rightarrow> bool" where
  "is_skip (Skip j) \<longleftrightarrow> True"
| "is_skip (Pending sz) \<longleftrightarrow> False"
| "is_skip (Data p) \<longleftrightarrow> False"

text \<open>What \<open>read_chunk\<close> returns: the first slot that is not skipped decides.\<close>

definition read_handle_of :: "miso_ring_buffer \<Rightarrow> nat \<Rightarrow> slot list \<Rightarrow> log_buffer_read_handle" where
  "read_handle_of s k xs = (case xs of
     Data p # ys \<Rightarrow> \<lparr>rh_data_addr = Some (128 * ((unat (read_cursor s) + k) mod mcnt s) + 8),
                    rh_result = success, rh_data_size = of_nat (length p)\<rparr>
   | _ \<Rightarrow> empty_read_handle)"

lemma read_result:
  assumes "miso_inv s k xs"
  shows "\<exists>s' k'. miso_read_chunk s = Some (read_handle_of s' k' (dropWhile is_skip xs), s')
    \<and> miso_inv s' k' (dropWhile is_skip xs) \<and> read_cursor s' = read_cursor s \<and> miso_count s' = miso_count s
    \<and> write_cursor s' = write_cursor s \<and> k' = k + slots_len (takeWhile is_skip xs)"
  using assms
proof (induction xs arbitrary: s k)
  case Nil
  then show ?case using read_front(2) [OF Nil] by (auto simp: read_handle_of_def)
next
  case (Cons x xs)
  show ?case
  proof (cases x)
    case (Skip j)
    from read_skip [OF Cons.prems [unfolded Skip]] obtain s' where
      s': "miso_read_chunk s = miso_read_chunk s'" "miso_inv s' (k + j) xs"
        "read_cursor s' = read_cursor s" "miso_count s' = miso_count s" "write_cursor s' = write_cursor s" by blast
    from Cons.IH [OF s'(2)] s' show ?thesis by (simp add: Skip add.assoc)
  next
    case (Pending sz)
    then show ?thesis using read_front(2) [OF Cons.prems] Cons.prems by (auto simp: read_handle_of_def)
  next
    case (Data p)
    then show ?thesis using read_front(1) [OF Cons.prems] Cons.prems by (auto simp: read_handle_of_def)
  qed
qed

text \<open>The address and size of a successful read hold the payload.\<close>

lemma read_payload:
  assumes "miso_inv s k (Data p # xs)"
  shows "mem_read (miso_blocks s) (128 * ((unat (read_cursor s) + k) mod mcnt s) + 8)
    (unat (of_nat (length p) :: u32)) = p"
proof -
  have x: "slot_at (miso_blocks s) (mcnt s) ((unat (read_cursor s) + k) mod mcnt s) (Data p)"
    using miso_invD(6) [OF assms] by simp
  then have "unat (get_data_size (miso_blocks s) ((unat (read_cursor s) + k) mod mcnt s)) = length p" by simp
  then have "length p < 2 ^ 32" using u32_less [of "get_data_size (miso_blocks s) ((unat (read_cursor s) + k) mod mcnt s)"] by simp
  then show ?thesis using x by (simp add: unat_of_nat)
qed

section \<open>Returning blocks\<close>

lemma clear_statuses_simps [simp]:
  "clear_statuses [] m = m" "clear_statuses (b # bs) m = clear_statuses bs (set_status b status_unused m)"
  by (simp_all add: clear_statuses_def)

lemma length_clear_statuses [simp]: "length (clear_statuses bs m) = length m"
  by (induction bs arbitrary: m) simp_all

lemma clear_statuses_block_eq:
  assumes "b \<notin> set bs" and "128 * b + 128 \<le> length m"
  shows "block_eq m (clear_statuses bs m) b"
  using assms
proof (induction bs arbitrary: m)
  case (Cons b' bs)
  have "block_eq m (set_status b' status_unused m) b"
    using Cons.prems by (auto simp: block_eq_def set_status_def nth_list_update)
  moreover have "block_eq (set_status b' status_unused m) (clear_statuses (b' # bs) m) b"
    using Cons.prems Cons.IH [of "set_status b' status_unused m"] by simp
  ultimately show ?case by (simp add: block_eq_def)
qed (simp add: block_eq_def)

lemma clear_statuses_unused:
  assumes "b \<in> set bs \<or> get_status m b = status_unused" and "128 * b + 128 \<le> length m"
  shows "get_status (clear_statuses bs m) b = status_unused"
  using assms
proof (induction bs arbitrary: m)
  case (Cons b' bs)
  have "b \<in> set bs \<or> get_status (set_status b' status_unused m) b = status_unused"
    using Cons.prems by (cases "b' = b") (auto simp: get_status_def set_status_def)
  then show ?case using Cons.IH [of "set_status b' status_unused m"] Cons.prems(2) by simp
qed simp

lemma slots_at_mod:
  assumes "c mod n = c' mod n"
  shows "slots_at m n c xs \<longleftrightarrow> slots_at m n c' xs"
  using assms
proof (induction xs arbitrary: c c')
  case (Cons x xs)
  have "(c + slot_len x) mod n = (c' + slot_len x) mod n" using Cons.prems by (metis mod_add_left_eq)
  from Cons.IH [OF this] show ?case using Cons.prems by simp
qed simp

definition flush_to :: "miso_ring_buffer \<Rightarrow> nat \<Rightarrow> miso_ring_buffer" where
  "flush_to s k = s\<lparr>miso_blocks := clear_statuses
       (map (\<lambda>i. miso_index s (read_cursor s + of_nat i)) [0..<k]) (miso_blocks s),
     miso_head := (miso_head s)\<lparr>read_cursor_start_cache := read_cursor s + of_nat k\<rparr>,
     read_cursor := read_cursor s + of_nat k\<rparr>"

lemma flushed_position:
  assumes "miso_geom s" and "k < mcnt s"
  shows "(unat (read_cursor s + of_nat k) + j) mod mcnt s = (unat (read_cursor s) + (k + j)) mod mcnt s"
proof -
  have "k < 2 ^ 32" using assms miso_geomD(3) [OF assms(1)] by simp
  then have r: "unat (read_cursor s + of_nat k) mod mcnt s = (unat (read_cursor s) + k) mod mcnt s"
    using miso_index_add [OF assms(1), of k] by (simp add: miso_index_mod [OF assms(1)])
  show ?thesis using mod_add_cong [OF r refl, of j] by (simp add: add.assoc)
qed

lemma flush_inv:
  assumes inv: "miso_inv s k xs"
  shows "miso_inv (flush_to s k) 0 xs"
proof -
  note d = miso_invD [OF inv]
  let ?n = "mcnt s" and ?r = "unat (read_cursor s)"
  let ?bs = "map (\<lambda>i. miso_index s (read_cursor s + of_nat i)) [0..<k]"
  let ?m = "clear_statuses ?bs (miso_blocks s)"
  have small: "i < 2 ^ 32" if "i < ?n" for i using that miso_geomD(3) [OF d(1)] by simp
  have bs: "?bs = map (\<lambda>i. (?r + i) mod ?n) [0..<k]"
    using d(5) by (auto intro!: miso_index_add [OF d(1)] small)
  have r'': "(unat (read_cursor s + of_nat k) + j) mod ?n = (?r + (k + j)) mod ?n" for j
    using flushed_position [OF d(1), of k j] d(5) by simp
  have r': "unat (read_cursor s + of_nat k) mod ?n = (?r + k) mod ?n" using r'' [of 0] by simp
  have notin: "(?r + i) mod ?n \<notin> set ?bs" if "k \<le> i" "i < ?n" for i
    unfolding bs using mod_window_inj [of ?r i ?n] that d(5) by auto
  have other: "block_eq (miso_blocks s) ?m ((?r + i) mod ?n)" if "k \<le> i" "i < ?n" for i
    by (rule clear_statuses_block_eq [OF notin [OF that] block_in_range [OF d(1)]])
  have "slots_at ?m ?n (?r + k) xs"
    using d(6) miso_geomD(4,1) [OF d(1)] d(5)
    by (elim slots_at_cong) (auto simp: add.assoc simp del: set_map intro!: other)
  then have "slots_at ?m ?n (unat (read_cursor s + of_nat k)) xs" using slots_at_mod [OF r'] by blast
  moreover have "get_status ?m ((unat (read_cursor s + of_nat k) + j) mod ?n) = status_unused"
    if "slots_len xs \<le> j" "j < ?n" for j
    unfolding r''
  proof (rule clear_statuses_unused [OF _ block_in_range [OF d(1)]])
    show "(?r + (k + j)) mod ?n \<in> set ?bs \<or> get_status (miso_blocks s) ((?r + (k + j)) mod ?n) = status_unused"
    proof (cases "k + j < ?n")
      case True
      then show ?thesis using d(7) [of "k + j"] that by simp
    next
      case False
      then have "?r + (k + j) = ?r + (k + j - ?n) + ?n" "k + j - ?n < k" using that d(5) by simp_all
      then have "(?r + (k + j)) mod ?n = (?r + (k + j - ?n)) mod ?n" by (metis mod_add_self2)
      with \<open>k + j - ?n < k\<close> show ?thesis unfolding bs set_map by (intro disjI1 image_eqI) simp_all
    qed
  qed
  ultimately show ?thesis unfolding miso_inv_def flush_to_def
    using d(1-5) by (auto simp: miso_geom_def)
qed

lemma return_empty_inv:
  assumes inv: "miso_inv s k xs" and h: "rh_result h = err_empty_log_buffer"
  shows "miso_inv (miso_return_read_chunk s h) 0 xs"
    "miso_count (miso_return_read_chunk s h) = miso_count s"
    "write_cursor (miso_return_read_chunk s h) = write_cursor s"
    "read_cursor (miso_return_read_chunk s h) = read_cursor s + of_nat k"
proof -
  note d = miso_invD [OF inv]
  have u: "unat (of_nat k :: u32) = k" using d(5) miso_geomD(3) [OF d(1)] by (simp add: unat_of_nat)
  have ix: "miso_index (s\<lparr>miso_head := x\<rparr>) c = miso_index s c" for x c by (simp add: miso_index_def)
  have "miso_return_read_chunk s h = (if k = 0 then s else flush_to s k)"
  proof (cases "k = 0")
    case True
    then have rcc: "read_cursor_cache (miso_head s) = read_cursor s" using d(3) by simp
    have "s\<lparr>miso_head := (miso_head s)\<lparr>read_cursor_cache := read_cursor s\<rparr>\<rparr> = s" by (simp flip: rcc)
    then show ?thesis using h d(2) rcc True by (simp add: miso_return_read_chunk_def Let_def)
  next
    case False
    then have "(of_nat k :: u32) \<noteq> 0" using u by (metis unat_0)
    then show ?thesis
      using h d(2,3) u False by (simp add: miso_return_read_chunk_def Let_def flush_to_def ix)
  qed
  then show "miso_inv (miso_return_read_chunk s h) 0 xs" "miso_count (miso_return_read_chunk s h) = miso_count s"
    "write_cursor (miso_return_read_chunk s h) = write_cursor s"
    "read_cursor (miso_return_read_chunk s h) = read_cursor s + of_nat k"
    using flush_inv [OF inv] inv by (simp_all add: flush_to_def split: if_splits)
qed

lemma miso_consume_inv:
  assumes inv: "miso_inv s k (Data p # xs)"
  shows "miso_inv (s\<lparr>miso_head := (miso_head s)\<lparr>read_cursor_cache :=
      read_cursor_cache (miso_head s) + of_nat (need_blocks (length p))\<rparr>\<rparr>) (k + need_blocks (length p)) xs"
  using miso_invD [OF inv] unfolding miso_inv_def by (auto simp: miso_geom_def add.assoc)

lemma return_success_inv:
  assumes inv: "miso_inv s k (Data p # xs)" and h: "rh_result h = success"
  shows "\<exists>k'. miso_inv (miso_return_read_chunk s h) k' xs
    \<and> miso_count (miso_return_read_chunk s h) = miso_count s
    \<and> write_cursor (miso_return_read_chunk s h) = write_cursor s
    \<and> (k' = 0 \<and> read_cursor (miso_return_read_chunk s h) = read_cursor s + of_nat (k + need_blocks (length p))
       \<or> k' = k + need_blocks (length p) \<and> read_cursor (miso_return_read_chunk s h) = read_cursor s)"
proof -
  note d = miso_invD [OF inv]
  let ?nd = "need_blocks (length p)"
  let ?s = "s\<lparr>miso_head := (miso_head s)\<lparr>read_cursor_cache := read_cursor_cache (miso_head s) + of_nat ?nd\<rparr>\<rparr>"
  have nb: "get_block_num (miso_blocks s) (miso_index s (read_cursor_cache (miso_head s))) = of_nat ?nd"
    using d(6) unfolding d(8) by (simp flip: word_unat_eq_iff) (metis of_nat_unat ucast_id)
  have inv': "miso_inv ?s (k + ?nd) xs" by (rule miso_consume_inv [OF inv])
  have "k + ?nd < 2 ^ 32" using d(5) miso_geomD(3) [OF d(1)] by simp
  then have u: "unat (of_nat (k + ?nd) :: u32) = k + ?nd" by (simp add: unat_of_nat del: of_nat_add)
  have ix: "miso_index (s\<lparr>miso_head := x\<rparr>) c = miso_index s c" for x c by (simp add: miso_index_def)
  have rcc: "read_cursor_cache (miso_head s) + of_nat ?nd = read_cursor s + of_nat (k + ?nd)"
    using d(3) by simp
  have nz: "(of_nat (k + ?nd) :: u32) \<noteq> 0" using u need_blocks_bounds(1) [of "length p"] by (metis add_is_0 not_gr0 unat_0)
  have "miso_return_read_chunk s h = ?s \<or> miso_return_read_chunk s h = flush_to ?s (k + ?nd)"
    unfolding miso_return_read_chunk_def Let_def nb d(2) rcc flush_to_def
    using h u nz by (simp add: ix del: of_nat_add)
  then show ?thesis
  proof
    assume "miso_return_read_chunk s h = ?s"
    then show ?thesis using inv' by (intro exI [of _ "k + ?nd"]) simp
  next
    assume "miso_return_read_chunk s h = flush_to ?s (k + ?nd)"
    then show ?thesis using flush_inv [OF inv'] by (intro exI [of _ 0]) (simp add: flush_to_def del: of_nat_add)
  qed
qed

section \<open>A fresh ring\<close>

lemma fresh_inv:
  assumes g: "miso_geom s" and "read_cursor s = 0" "write_cursor s = 0"
    "read_cursor_cache (miso_head s) = 0" "read_cursor_start_cache (miso_head s) = 0"
    and st: "\<And>b. b < mcnt s \<Longrightarrow> get_status (miso_blocks s) b = status_unused"
  shows "miso_inv s 0 []"
  using assms miso_geomD(1) [OF g] by (simp add: miso_inv_def)

lemma init_inv:
  assumes "miso_geom s"
  shows "miso_inv (miso_init_with_memory s) 0 []" "miso_inv (miso_init_with_memory_map s) 0 []"
proof -
  have st: "get_status (clear_statuses [0..<mcnt s] (miso_blocks s)) b = status_unused" if "b < mcnt s" for b
    using that miso_geomD(4) [OF assms] by (intro clear_statuses_unused) auto
  show "miso_inv (miso_init_with_memory s) 0 []"
    by (rule fresh_inv) (use assms st in \<open>simp_all add: miso_init_with_memory_def miso_geom_def\<close>)
  show "miso_inv (miso_init_with_memory_map s) 0 []"
    by (rule fresh_inv) (use assms st in \<open>simp_all add: miso_init_with_memory_map_def miso_geom_def\<close>)
qed

end
