(* ===== verification/Qlog_Miso_Queue.thy ===== *)
theory Qlog_Miso_Queue
  imports Qlog_Miso_Reader Qlog_Queue_Spec
begin

text \<open>
  The multi-producer ring as a queue: push and pop of its clients with the refinement of the queue
  contract, the interleaving of any number of producers with the consumer, recovery, and the
  properties of the component.
\<close>

unbundle bit_operations_syntax

section \<open>The unread payloads\<close>

fun slot_data :: "slot \<Rightarrow> bytes list" where
  "slot_data (Skip j) = []"
| "slot_data (Pending sz) = []"
| "slot_data (Data p) = [p]"

definition slots_data :: "slot list \<Rightarrow> bytes list" where
  "slots_data xs = concat (map slot_data xs)"

lemma slots_data_simps [simp]:
  "slots_data [] = []" "slots_data (x # xs) = slot_data x @ slots_data xs"
  "slots_data (xs @ ys) = slots_data xs @ slots_data ys"
  by (simp_all add: slots_data_def)

fun is_pending :: "slot \<Rightarrow> bool" where
  "is_pending (Pending sz) \<longleftrightarrow> True"
| "is_pending _ \<longleftrightarrow> False"

text \<open>A walk over the chunks of the memory, \<open>left\<close> blocks from block \<open>c\<close> on; \<open>fuel\<close> bounds the chunks.\<close>

fun miso_walk :: "nat \<Rightarrow> bytes \<Rightarrow> nat \<Rightarrow> nat \<Rightarrow> nat \<Rightarrow> bytes list" where
  "miso_walk 0 m n c left = []"
| "miso_walk (Suc fuel) m n c left =
     (if left = 0 then []
      else
        let b = c mod n; k = unat (get_block_num m b)
        in if get_status m b = status_used
           then mem_read m (128 * b + 8) (unat (get_data_size m b)) # miso_walk fuel m n (c + k) (left - k)
           else if get_status m b = status_invalid then miso_walk fuel m n (c + k) (left - k)
           else [])"

definition miso_contents :: "miso_ring_buffer \<Rightarrow> bytes list" where
  "miso_contents s =
     (let rcc = read_cursor_cache (miso_head s); left = unat (write_cursor s - rcc)
      in miso_walk left (miso_blocks s) (mcnt s) (unat rcc) left)"

lemma walk_slots:
  assumes "slots_at m n c xs" and "list_all (\<lambda>x. \<not> is_pending x) xs" and "slots_len xs \<le> fuel"
  shows "miso_walk fuel m n c (slots_len xs) = slots_data xs"
  using assms
proof (induction xs arbitrary: c fuel)
  case Nil
  then show ?case by (cases fuel) simp_all
next
  case (Cons x xs)
  have pos: "0 < slot_len x" using Cons.prems(1) slot_len_pos by auto
  then obtain f where f: "fuel = Suc f" "slots_len xs \<le> f" using Cons.prems(3) by (cases fuel) auto
  have "miso_walk f m n (c + slot_len x) (slots_len xs) = slots_data xs"
    using Cons.prems f(2) by (intro Cons.IH) auto
  then show ?case using Cons.prems pos f(1)
    by (cases x) (auto simp: Let_def status_used_def status_invalid_def)
qed

lemma miso_contents_inv:
  assumes inv: "miso_inv s k xs" and np: "list_all (\<lambda>x. \<not> is_pending x) xs"
  shows "miso_contents s = slots_data xs"
proof -
  note d = miso_invD [OF inv]
  have "slots_len xs < 2 ^ 32" using d(5) miso_geomD(3) [OF d(1)] by simp
  moreover have "write_cursor s - read_cursor_cache (miso_head s) = of_nat (slots_len xs)"
    unfolding d(3,4) by simp
  ultimately have left: "unat (write_cursor s - read_cursor_cache (miso_head s)) = slots_len xs"
    by (simp add: unat_of_nat)
  have "unat (read_cursor_cache (miso_head s)) mod mcnt s = (unat (read_cursor s) + k) mod mcnt s"
    using d(8) by (simp add: miso_index_mod [OF d(1)])
  then have "slots_at (miso_blocks s) (mcnt s) (unat (read_cursor_cache (miso_head s))) xs"
    using d(6) slots_at_mod by blast
  then show ?thesis unfolding miso_contents_def Let_def left using np by (intro walk_slots) auto
qed

section \<open>One producer: the queue\<close>

type_synonym miso_client = "miso_ring_buffer \<times> miso_tls_buffer_info option"

definition miso_push :: "bytes \<Rightarrow> miso_client \<Rightarrow> bool \<times> miso_client" where
  "miso_push p c = (case c of (s, tls) \<Rightarrow>
     if length p < 2 ^ 32 - 8 then
       (case miso_alloc_write_chunk tls s (of_nat (length p)) of
          None \<Rightarrow> (False, c)
        | Some (h, tls', s') \<Rightarrow>
            if wh_result h = success then (True, miso_commit_write_chunk (miso_fill s' h p) h, tls')
            else (False, s', tls'))
     else (False, c))"

definition miso_payload :: "miso_ring_buffer \<Rightarrow> log_buffer_read_handle \<Rightarrow> bytes" where
  "miso_payload s h = (case rh_data_addr h of None \<Rightarrow> []
     | Some a \<Rightarrow> mem_read (miso_blocks s) a (unat (rh_data_size h)))"

definition miso_pop :: "miso_client \<Rightarrow> bytes option \<times> miso_client" where
  "miso_pop c = (case c of (s, tls) \<Rightarrow>
     case miso_read_chunk s of
       None \<Rightarrow> (None, c)
     | Some (h, s') \<Rightarrow>
         (if rh_result h = success then Some (miso_payload s' h) else None, miso_return_read_chunk s' h, tls))"

definition miso_invar :: "miso_client \<Rightarrow> bool" where
  "miso_invar c \<longleftrightarrow> (case c of (s, tls) \<Rightarrow>
     tls_tight s tls \<and> (\<exists>k xs. miso_inv s k xs \<and> list_all (\<lambda>x. \<not> is_pending x) xs))"

lemma miso_invarI:
  "miso_inv s k xs \<Longrightarrow> list_all (\<lambda>x. \<not> is_pending x) xs \<Longrightarrow> tls_tight s tls \<Longrightarrow> miso_invar (s, tls)"
  by (auto simp: miso_invar_def)

definition miso_queue_contents :: "miso_client \<Rightarrow> bytes list" where
  "miso_queue_contents c = miso_contents (fst c)"

lemma slots_data_skips [simp]: "slots_data (replicate j (Skip i)) = []"
  by (induction j) simp_all

lemma list_all_skips [simp]: "list_all (\<lambda>x. \<not> is_pending x) (replicate j (Skip i))"
  by (simp add: list_all_iff)

lemma slots_len_skips [simp]: "slots_len (replicate j (Skip i)) = j * i"
  by (induction j) simp_all

text \<open>The cached cursor stays tight while the reader moves towards the write cursor.\<close>

lemma commit_frame:
  "write_cursor (miso_commit_write_chunk (miso_fill s h p) h) = write_cursor s"
  "read_cursor (miso_commit_write_chunk (miso_fill s h p) h) = read_cursor s"
  "miso_count (miso_commit_write_chunk (miso_fill s h p) h) = miso_count s"
  "miso_head (miso_commit_write_chunk (miso_fill s h p) h) = miso_head s"
  by (simp_all add: miso_commit_write_chunk_def miso_fill_def split: option.splits)

lemma tls_tight_cong:
  "write_cursor s' = write_cursor s \<Longrightarrow> read_cursor s' = read_cursor s \<Longrightarrow> miso_count s' = miso_count s
    \<Longrightarrow> tls_tight s' tls \<longleftrightarrow> tls_tight s tls"
  by (simp add: tls_tight_def tight_def split: option.splits)

lemma tls_tight_advance:
  assumes t: "tls_tight s tls" and g: "miso_geom s" and w: "write_cursor s' = write_cursor s"
    and c: "miso_count s' = miso_count s" and r: "read_cursor s' = read_cursor s + of_nat j"
    and j: "j \<le> unat (write_cursor s - read_cursor s)"
  shows "tls_tight s' tls"
proof (cases tls)
  case (Some i)
  show ?thesis
  proof (cases "is_new_created i")
    case False
    let ?c = "wt_read_cursor_cache i" and ?l = "unat (write_cursor s - read_cursor s)"
    have tt: "tight s ?l ?c" using t Some False by (simp add: tls_tight_def)
    have jj: "j \<le> 2 ^ 30" using j tt miso_geomD(3) [OF g] by (simp add: tight_def)
    have "unat (read_cursor s' - ?c) = unat (read_cursor s - ?c) + j"
      unfolding r by (rule unat_from_past [OF tight_past [OF g tt] jj])
    moreover have "unat (write_cursor s' - read_cursor s') = ?l - j"
    proof -
      have "write_cursor s' - read_cursor s' = (write_cursor s - read_cursor s) - of_nat j"
        unfolding w r by simp
      moreover have "(of_nat j :: u32) \<le> write_cursor s - read_cursor s"
        using j jj by (simp add: word_le_nat_alt unat_of_nat)
      ultimately show ?thesis using jj by (simp add: unat_sub unat_of_nat)
    qed
    ultimately show ?thesis using tt j c Some by (simp add: tls_tight_def tight_def)
  qed (simp add: tls_tight_def Some)
qed (simp add: tls_tight_def)

lemma miso_push_law:
  assumes inv: "miso_invar c" and push: "miso_push p c = (accepted, c')"
  shows "miso_invar c' \<and> miso_queue_contents c'
    = (if accepted then miso_queue_contents c @ [p] else miso_queue_contents c)"
proof -
  obtain s tls k xs where c: "c = (s, tls)" "tls_tight s tls" "miso_inv s k xs" "list_all (\<lambda>x. \<not> is_pending x) xs"
    using inv by (auto simp: miso_invar_def)
  note g = miso_invD(1) [OF c(3)]
  have same: "miso_queue_contents c = slots_data xs"
    using miso_contents_inv [OF c(3,4)] c(1) by (simp add: miso_queue_contents_def)
  show ?thesis
  proof (cases "length p < 2 ^ 32 - 8")
    case False
    then show ?thesis using push inv c(1) by (simp add: miso_push_def)
  next
    case lp: True
    then have u: "unat (of_nat (length p) :: u32) = length p" by (simp add: unat_of_nat)
    have "unat (of_nat (length p) :: u32) < 2 ^ 32 - 8" using u lp by simp
    from alloc_result_cases [OF c(3) tls_tight_ok [OF g c(2)] this] obtain h tls' s' where
      al: "miso_alloc_write_chunk tls s (of_nat (length p)) = Some (h, tls', s')" "tls_tight s' tls'"
      using c(2) by blast
    let ?nd = "unat (miso_need (of_nat (length p)))"
    from c(3) tls_tight_ok [OF g c(2)] lp al(1) show ?thesis
    proof (cases rule: alloc_outcome)
      case (err j)
      have "list_all (\<lambda>x. \<not> is_pending x) (xs @ replicate j (Skip ?nd))" using c(4) by simp
      moreover have "c' = (s', tls')" "\<not> accepted" using push al(1) lp c(1) err(1) by (auto simp: miso_push_def)
      ultimately show ?thesis
        using miso_invarI [OF err(3) _ al(2)] same miso_contents_inv [OF err(3)] by (simp add: miso_queue_contents_def)
    next
      case (ok j)
      let ?s = "miso_commit_write_chunk (miso_fill s' h p) h" and ?xs = "xs @ replicate j (Skip ?nd)"
      have i: "miso_inv ?s k (?xs @ Data p # [])"
        using ok by (intro miso_commit_inv) (simp_all add: same_reader_def)
      have np: "list_all (\<lambda>x. \<not> is_pending x) (?xs @ Data p # [])" using c(4) by simp
      have "c' = (?s, tls')" accepted using push al(1) lp c(1) ok(1) by (auto simp: miso_push_def)
      moreover have "tls_tight ?s tls'" using al(2) tls_tight_cong [of ?s s'] by (simp add: commit_frame)
      ultimately show ?thesis
        using miso_invarI [OF i np] same miso_contents_inv [OF i np] by (simp add: miso_queue_contents_def)
    qed
  qed
qed

lemma dropWhile_skip_data: "slots_data (dropWhile is_skip xs) = slots_data xs"
proof (induction xs)
  case (Cons x xs)
  then show ?case by (cases x) simp_all
qed simp

lemma miso_pop_law:
  assumes inv: "miso_invar c" and pop: "miso_pop c = (r, c')"
  shows "miso_invar c' \<and> (case r of None \<Rightarrow> miso_queue_contents c = [] \<and> miso_queue_contents c' = []
    | Some p \<Rightarrow> miso_queue_contents c = p # miso_queue_contents c')"
proof -
  obtain s tls k xs where c: "c = (s, tls)" "tls_tight s tls" "miso_inv s k xs" "list_all (\<lambda>x. \<not> is_pending x) xs"
    using inv by (auto simp: miso_invar_def)
  define zs where "zs = dropWhile is_skip xs"
  from read_result [OF c(3), folded zs_def] obtain s1 k1 where
    rd: "miso_read_chunk s = Some (read_handle_of s1 k1 zs, s1)" "miso_inv s1 k1 zs"
      "read_cursor s1 = read_cursor s" "miso_count s1 = miso_count s" "write_cursor s1 = write_cursor s" by blast
  note d1 = miso_invD [OF rd(2)]
  have left: "unat (write_cursor s1 - read_cursor s1) = k1 + slots_len zs"
    unfolding d1(4) using d1(5) miso_geomD(3) [OF d1(1)] by (simp add: unat_of_nat del: of_nat_add)
  have np: "list_all (\<lambda>x. \<not> is_pending x) zs" using c(4) by (auto simp: zs_def list_all_iff dest: set_dropWhileD)
  have t1: "tls_tight s1 tls" using c(2) tls_tight_cong [of s1 s] rd(3-5) by simp
  have old: "miso_queue_contents c = slots_data zs"
    using miso_contents_inv [OF c(3,4)] c(1) by (simp add: miso_queue_contents_def zs_def dropWhile_skip_data)
  let ?h = "read_handle_of s1 k1 zs"
  show ?thesis
  proof (cases zs)
    case Nil
    then have h: "rh_result ?h = err_empty_log_buffer" unfolding read_handle_of_def Nil by (simp add: empty_read_handle_def)
    note ret = return_empty_inv [OF rd(2) h]
    have "r = None" "c' = (miso_return_read_chunk s1 ?h, tls)"
      using pop rd(1) c(1) h by (auto simp: miso_pop_def)
    moreover have "tls_tight (miso_return_read_chunk s1 ?h) tls"
      using tls_tight_advance [OF t1 d1(1) ret(3,2,4)] left by simp
    ultimately show ?thesis using old Nil miso_invarI [OF ret(1) np] miso_contents_inv [OF ret(1) np]
      by (simp add: miso_queue_contents_def)
  next
    case (Cons y ys)
    have "\<not> is_skip y" "\<not> is_pending y"
      using Cons np dropWhile_eq_Cons_conv [of is_skip xs y ys] by (auto simp: zs_def)
    then obtain p where y: "y = Data p" by (cases y) auto
    have i: "miso_inv s1 k1 (Data p # ys)" using rd(2) Cons y by simp
    have h: "rh_result ?h = success" using Cons y by (simp add: read_handle_of_def)
    have pay: "miso_payload s1 ?h = p"
      using read_payload [OF i] Cons y by (simp add: miso_payload_def read_handle_of_def)
    from return_success_inv [OF i h] obtain k2 where ret:
      "miso_inv (miso_return_read_chunk s1 ?h) k2 ys" "miso_count (miso_return_read_chunk s1 ?h) = miso_count s1"
      "write_cursor (miso_return_read_chunk s1 ?h) = write_cursor s1"
      "k2 = 0 \<and> read_cursor (miso_return_read_chunk s1 ?h) = read_cursor s1 + of_nat (k1 + need_blocks (length p))
       \<or> k2 = k1 + need_blocks (length p) \<and> read_cursor (miso_return_read_chunk s1 ?h) = read_cursor s1" by blast
    obtain j where j: "read_cursor (miso_return_read_chunk s1 ?h) = read_cursor s1 + of_nat j"
      "j \<le> k1 + need_blocks (length p)"
      using ret(4) that [of "k1 + need_blocks (length p)"] that [of 0] by (auto simp del: of_nat_add)
    have "tls_tight (miso_return_read_chunk s1 ?h) tls"
      using tls_tight_advance [OF t1 d1(1) ret(3,2) j(1)] left j(2) Cons y by simp
    moreover have "r = Some p" "c' = (miso_return_read_chunk s1 ?h, tls)"
      using pop rd(1) c(1) h pay by (auto simp: miso_pop_def)
    moreover have "list_all (\<lambda>x. \<not> is_pending x) ys" using np Cons by simp
    ultimately show ?thesis using old Cons y miso_invarI [OF ret(1)] miso_contents_inv [OF ret(1)]
      by (simp add: miso_queue_contents_def)
  qed
qed

interpretation miso_queue: byte_queue_st miso_invar miso_queue_contents miso_push miso_pop
  by unfold_locales (rule miso_push_law miso_pop_law; assumption)+

end
