(* ===== verification/Qlog_Miso_Threads.thy ===== *)
theory Qlog_Miso_Threads
  imports Qlog_Miso_Queue
begin

text \<open>
  Any number of producer threads and the consumer on one multi-producer ring. Operations of different
  threads interleave in any order; chunks are committed in another order than they were reserved.
\<close>

text \<open>
  \<open>mtls\<close> is the cached read cursor of each thread, \<open>mpend\<close> the handle and payload a thread holds between
  its allocation and its commit, \<open>mrpend\<close> the consumer's handle. \<open>granted\<close> records the payloads in the
  order their chunks were reserved, \<open>mconsumed\<close> the payloads handed to the consumer.

  An allocation is one step: the interleavings inside \<open>alloc_write_chunk\<close>, between its fetch-and-add,
  the check and the roll-back, are not part of this system. A thread may allocate as long as its cached
  cursor is at most \<open>2 ^ 31\<close> blocks (256 GiB of log data) behind the published one (\<open>tls_ok\<close>).
\<close>

record miso_sys =
  mring :: miso_ring_buffer
  mtls :: "nat \<Rightarrow> miso_tls_buffer_info option"
  mpend :: "nat \<Rightarrow> (log_buffer_write_handle \<times> bytes) option"
  mrpend :: "log_buffer_read_handle option"
  granted :: "(nat \<times> bytes) list"
  mconsumed :: "bytes list"

inductive miso_step :: "miso_sys \<Rightarrow> miso_sys \<Rightarrow> bool" where
  w_alloc: "mpend \<sigma> t = None \<Longrightarrow> length p < 2 ^ 32 - 8 \<Longrightarrow> tls_ok (mring \<sigma>) (mtls \<sigma> t)
    \<Longrightarrow> miso_alloc_write_chunk (mtls \<sigma> t) (mring \<sigma>) (of_nat (length p)) = Some (h, tls, r)
    \<Longrightarrow> miso_step \<sigma> (\<sigma>\<lparr>mring := r, mtls := (mtls \<sigma>)(t := tls),
          mpend := (mpend \<sigma>)(t := (if wh_result h = success then Some (h, p) else None)),
          granted := (if wh_result h = success then granted \<sigma> @ [(t, p)] else granted \<sigma>)\<rparr>)"
| w_commit: "mpend \<sigma> t = Some (h, p)
    \<Longrightarrow> miso_step \<sigma> (\<sigma>\<lparr>mring := miso_commit_write_chunk (miso_fill (mring \<sigma>) h p) h,
          mpend := (mpend \<sigma>)(t := None)\<rparr>)"
| r_read: "mrpend \<sigma> = None \<Longrightarrow> miso_read_chunk (mring \<sigma>) = Some (h, r)
    \<Longrightarrow> miso_step \<sigma> (\<sigma>\<lparr>mring := r, mrpend := Some h\<rparr>)"
| r_return: "mrpend \<sigma> = Some h
    \<Longrightarrow> miso_step \<sigma> (\<sigma>\<lparr>mring := miso_return_read_chunk (mring \<sigma>) h, mrpend := None,
          mconsumed := (if rh_result h = success then mconsumed \<sigma> @ [miso_payload (mring \<sigma>) h]
                        else mconsumed \<sigma>)\<rparr>)"

definition miso_start :: "miso_ring_buffer \<Rightarrow> miso_sys" where
  "miso_start s0 = \<lparr>mring = s0, mtls = (\<lambda>t. Some \<lparr>wt_read_cursor_cache = 0, is_new_created = True\<rparr>),
     mpend = (\<lambda>t. None), mrpend = None, granted = [], mconsumed = []\<rparr>"

inductive miso_reach :: "miso_ring_buffer \<Rightarrow> miso_sys \<Rightarrow> bool" for s0 where
  start: "miso_reach s0 (miso_start s0)"
| step: "miso_reach s0 \<sigma> \<Longrightarrow> miso_step \<sigma> \<tau> \<Longrightarrow> miso_reach s0 \<tau>"

inductive_cases miso_stepE [elim!]: "miso_step \<sigma> \<tau>"

section \<open>The invariant\<close>

text \<open>The slots with the thread and payload each was reserved for, and whether it is committed.\<close>

datatype gslot = GSkip nat | GData nat bytes bool

fun to_slot :: "gslot \<Rightarrow> slot" where
  "to_slot (GSkip k) = Skip k"
| "to_slot (GData t p True) = Data p"
| "to_slot (GData t p False) = Pending (length p)"

fun gpay :: "gslot \<Rightarrow> (nat \<times> bytes) list" where
  "gpay (GSkip k) = []"
| "gpay (GData t p c) = [(t, p)]"

definition goff :: "gslot list \<Rightarrow> nat \<Rightarrow> nat" where
  "goff gs i = slots_len (map to_slot (take i gs))"

definition uncommitted :: "gslot list \<Rightarrow> nat \<Rightarrow> nat \<Rightarrow> bool" where
  "uncommitted gs t i \<longleftrightarrow> i < length gs \<and> (\<exists>p. gs ! i = GData t p False)"

definition slot_pos :: "miso_ring_buffer \<Rightarrow> nat \<Rightarrow> nat \<Rightarrow> nat" where
  "slot_pos s k j = (unat (read_cursor s) + (k + j)) mod unat (miso_count s)"

text \<open>A thread that holds a handle owns exactly one uncommitted slot, at the handle's address; the other
  threads own none.\<close>

definition thread_ok :: "miso_ring_buffer \<Rightarrow> nat \<Rightarrow> gslot list \<Rightarrow> nat
    \<Rightarrow> (log_buffer_write_handle \<times> bytes) option \<Rightarrow> bool" where
  "thread_ok s k gs t pend \<longleftrightarrow> (case pend of
     None \<Rightarrow> \<forall>i. \<not> uncommitted gs t i
   | Some (h, p) \<Rightarrow> wh_result h = success \<and> (\<exists>i < length gs. gs ! i = GData t p False
       \<and> wh_data_addr h = Some (128 * slot_pos s k (goff gs i) + 8) \<and> (\<forall>j. uncommitted gs t j \<longrightarrow> j = i)))"

definition reader_ok :: "miso_ring_buffer \<Rightarrow> nat \<Rightarrow> gslot list \<Rightarrow> log_buffer_read_handle option \<Rightarrow> bool" where
  "reader_ok s k gs pend \<longleftrightarrow> (\<forall>h. pend = Some h \<longrightarrow> rh_result h = err_empty_log_buffer
     \<or> (\<exists>t p ys. gs = GData t p True # ys \<and> rh_result h = success
          \<and> rh_data_addr h = Some (128 * slot_pos s k 0 + 8) \<and> rh_data_size h = of_nat (length p)))"

text \<open>An uncommitted slot is the last one its thread has reserved.\<close>

definition latest :: "gslot list \<Rightarrow> bool" where
  "latest gs \<longleftrightarrow> (\<forall>t i j p c. uncommitted gs t i \<longrightarrow> i < j \<longrightarrow> j < length gs \<longrightarrow> gs ! j \<noteq> GData t p c)"

text \<open>\<open>dn\<close> is what has been consumed, with the threads it was granted to.\<close>

definition msys_inv :: "miso_sys \<Rightarrow> bool" where
  "msys_inv \<sigma> \<longleftrightarrow> (\<exists>k gs dn. miso_inv (mring \<sigma>) k (map to_slot gs)
     \<and> granted \<sigma> = dn @ concat (map gpay gs) \<and> map snd dn = mconsumed \<sigma>
     \<and> (\<forall>t. thread_ok (mring \<sigma>) k gs t (mpend \<sigma> t)) \<and> reader_ok (mring \<sigma>) k gs (mrpend \<sigma>) \<and> latest gs)"

lemma msys_invI:
  "miso_inv (mring \<sigma>) k (map to_slot gs) \<Longrightarrow> granted \<sigma> = dn @ concat (map gpay gs) \<Longrightarrow> map snd dn = mconsumed \<sigma>
    \<Longrightarrow> (\<And>t. thread_ok (mring \<sigma>) k gs t (mpend \<sigma> t)) \<Longrightarrow> reader_ok (mring \<sigma>) k gs (mrpend \<sigma>) \<Longrightarrow> latest gs \<Longrightarrow> msys_inv \<sigma>"
  unfolding msys_inv_def by blast

text \<open>Slots appended at the end do not concern the threads that own earlier ones.\<close>

lemma uncommitted_append:
  "uncommitted (gs @ hs) t i \<longleftrightarrow> uncommitted gs t i \<or> (length gs \<le> i \<and> uncommitted hs t (i - length gs))"
  by (auto simp: uncommitted_def nth_append)

lemma latest_append:
  assumes "latest gs" "latest hs" and "\<And>t p c i. GData t p c \<in> set hs \<Longrightarrow> \<not> uncommitted gs t i"
  shows "latest (gs @ hs)"
  unfolding latest_def
proof (intro allI impI)
  fix t i j p c assume u: "uncommitted (gs @ hs) t i" "i < j" "j < length (gs @ hs)"
  show "(gs @ hs) ! j \<noteq> GData t p c"
  proof (cases "j < length gs")
    case True
    then have "uncommitted gs t i" using u(1,2) by (auto simp: uncommitted_append)
    then show ?thesis using assms(1) True u(2) unfolding latest_def by (simp add: nth_append)
  next
    case False
    let ?j = "j - length gs"
    have j: "(gs @ hs) ! j = hs ! ?j" "?j < length hs" using False u(3) by (simp_all add: nth_append)
    show ?thesis
    proof
      assume d: "(gs @ hs) ! j = GData t p c"
      then have "GData t p c \<in> set hs" using j by (metis nth_mem)
      then have "length gs \<le> i" "uncommitted hs t (i - length gs)" using u(1) assms(3) by (auto simp: uncommitted_append)
      moreover from this(1) have "i - length gs < ?j" using u(2) by simp
      ultimately show False using assms(2) d j unfolding latest_def by metis
    qed
  qed
qed

lemma latest_drop: "latest (pre @ gs) \<Longrightarrow> latest gs"
  unfolding latest_def
proof (intro allI impI)
  fix t i j p c
  assume l: "\<forall>t i j p c. uncommitted (pre @ gs) t i \<longrightarrow> i < j \<longrightarrow> j < length (pre @ gs) \<longrightarrow> (pre @ gs) ! j \<noteq> GData t p c"
    and u: "uncommitted gs t i" "i < j" "j < length gs"
  have "uncommitted (pre @ gs) t (length pre + i)" using u(1) by (simp add: uncommitted_append)
  then show "gs ! j \<noteq> GData t p c" using l [rule_format, of t "length pre + i" "length pre + j"] u(2,3) by (simp add: nth_append)
qed

lemma latest_commit:
  assumes "latest gs" "gs ! n = GData t p False"
  shows "latest (gs[n := GData t p True])"
  unfolding latest_def
proof (intro allI impI)
  fix t' i j q c
  assume u: "uncommitted (gs[n := GData t p True]) t' i" "i < j" "j < length (gs[n := GData t p True])"
  then have "uncommitted gs t' i" by (cases "i = n") (auto simp: uncommitted_def)
  then have l: "gs ! j \<noteq> GData t' q' c'" for q' c' using assms(1) u(2,3) unfolding latest_def by simp
  then show "gs[n := GData t p True] ! j \<noteq> GData t' q c" using assms(2) u(3) by (cases "j = n") auto
qed

lemma latest_skips: "latest (replicate n (GSkip d))"
  by (simp add: latest_def)

lemma thread_ok_append:
  assumes "thread_ok s k gs t pend" and "\<And>i. \<not> uncommitted hs t i"
    and "read_cursor s' = read_cursor s" and "miso_count s' = miso_count s"
  shows "thread_ok s' k (gs @ hs) t pend"
proof (cases pend)
  case None
  then show ?thesis using assms by (simp add: thread_ok_def uncommitted_append)
next
  case (Some hp)
  obtain h p where hp: "hp = (h, p)" by force
  obtain i where i: "wh_result h = success" "i < length gs" "gs ! i = GData t p False"
    "wh_data_addr h = Some (128 * slot_pos s k (goff gs i) + 8)" "\<forall>j. uncommitted gs t j \<longrightarrow> j = i"
    using assms(1) Some hp by (auto simp: thread_ok_def)
  then show ?thesis using Some hp assms(2-4)
    by (auto simp: thread_ok_def uncommitted_append goff_def slot_pos_def nth_append intro!: exI [of _ i])
qed

text \<open>Slots removed at the front, if none of them is uncommitted.\<close>

lemma thread_ok_drop:
  assumes ok: "thread_ok s k (pre @ gs) t pend" and pre: "\<And>i. \<not> uncommitted pre t i"
    and pos: "\<And>j. slot_pos s' k' j = slot_pos s k (slots_len (map to_slot pre) + j)"
  shows "thread_ok s' k' gs t pend"
proof (cases pend)
  case None
  have "\<not> uncommitted gs t i" for i
    using ok None uncommitted_append [of pre gs t "i + length pre"] by (simp add: thread_ok_def)
  then show ?thesis using None by (simp add: thread_ok_def)
next
  case (Some hp)
  obtain h p where hp: "hp = (h, p)" by force
  obtain i where i: "wh_result h = success" "i < length (pre @ gs)" "(pre @ gs) ! i = GData t p False"
    "wh_data_addr h = Some (128 * slot_pos s k (goff (pre @ gs) i) + 8)"
    "\<forall>j. uncommitted (pre @ gs) t j \<longrightarrow> j = i"
    using ok Some hp by (auto simp: thread_ok_def)
  have "\<not> i < length pre" using i(2,3) pre [of i] by (auto simp: uncommitted_def nth_append)
  then obtain j where j: "i = length pre + j" using le_Suc_ex not_less by blast
  have u: "uncommitted gs t j' \<longrightarrow> j' = j" for j'
    using i(5) uncommitted_append [of pre gs t "length pre + j'"] j by auto
  have "goff (pre @ gs) i = slots_len (map to_slot pre) + goff gs j" by (simp add: goff_def j)
  then show ?thesis using Some hp i u pos [of "goff gs j"] by (auto simp: thread_ok_def j nth_append intro!: exI [of _ j])
qed

text \<open>A slot of thread \<open>t\<close> that is committed.\<close>

lemma slot_len_to_slot: "slot_len (to_slot (GData t p c)) = need_blocks (length p)"
  by (cases c) simp_all

lemma goff_commit:
  assumes "gs ! i = GData t p False"
  shows "goff (gs[i := GData t p True]) j = goff gs j"
proof (cases "i < length gs")
  case True
  have "map slot_len (map to_slot (gs[i := GData t p True])) = map slot_len (map to_slot gs)"
    using True assms by (intro nth_equalityI) (auto simp: nth_list_update)
  then have "take j (map slot_len (map to_slot (gs[i := GData t p True]))) = take j (map slot_len (map to_slot gs))"
    by simp
  then show ?thesis by (simp add: goff_def slots_len_def take_map)
qed (simp add: list_update_beyond)

lemma thread_ok_commit:
  assumes i: "i < length gs" "gs ! i = GData t p False"
    and s: "read_cursor s' = read_cursor s" "miso_count s' = miso_count s"
    and ok: "thread_ok s k gs t' pend" and ne: "t' \<noteq> t"
  shows "thread_ok s' k (gs[i := GData t p True]) t' pend"
proof -
  have u: "uncommitted (gs[i := GData t p True]) t' j \<longleftrightarrow> uncommitted gs t' j" for j
    using i ne by (auto simp: uncommitted_def nth_list_update)
  have g: "(gs[i := GData t p True]) ! j = GData t' q False \<longleftrightarrow> gs ! j = GData t' q False" if "j < length gs" for j q
    using i ne that by (auto simp: nth_list_update)
  show ?thesis using ok s
    by (cases pend) (auto simp: thread_ok_def u goff_commit [OF i(2)] slot_pos_def g intro!: exI)
qed

section \<open>The steps keep the invariant\<close>

lemma miso_step_alloc_inv:
  assumes inv: "msys_inv \<sigma>" and idle: "mpend \<sigma> t = None" and lp: "length p < 2 ^ 32 - 8"
    and tls: "tls_ok (mring \<sigma>) (mtls \<sigma> t)"
    and al: "miso_alloc_write_chunk (mtls \<sigma> t) (mring \<sigma>) (of_nat (length p)) = Some (h, tls', r)"
  shows "msys_inv (\<sigma>\<lparr>mring := r, mtls := (mtls \<sigma>)(t := tls'),
          mpend := (mpend \<sigma>)(t := (if wh_result h = success then Some (h, p) else None)),
          granted := (if wh_result h = success then granted \<sigma> @ [(t, p)] else granted \<sigma>)\<rparr>)"
proof -
  obtain k gs dn where i: "miso_inv (mring \<sigma>) k (map to_slot gs)" "granted \<sigma> = dn @ concat (map gpay gs)"
    "\<And>t. thread_ok (mring \<sigma>) k gs t (mpend \<sigma> t)" "reader_ok (mring \<sigma>) k gs (mrpend \<sigma>)" "map snd dn = mconsumed \<sigma>" "latest gs"
    using inv unfolding msys_inv_def by blast
  let ?nd = "unat (miso_need (of_nat (length p)))"
  have grow: "thread_ok r k (gs @ hs) t' (mpend \<sigma> t')" "reader_ok r k (gs @ hs) (mrpend \<sigma>)"
    if "read_cursor r = read_cursor (mring \<sigma>)" "miso_count r = miso_count (mring \<sigma>)"
      "\<And>i. \<not> uncommitted hs t' i" for hs t'
    using that thread_ok_append [OF i(3)] i(4) by (auto simp: reader_ok_def slot_pos_def)
  have skips: "\<not> uncommitted (replicate j (GSkip d)) t' i'" for j d t' i' by (simp add: uncommitted_def)
  from i(1) tls lp al show ?thesis
  proof (cases rule: alloc_outcome)
    case (err j)
    have rc: "read_cursor r = read_cursor (mring \<sigma>)" "miso_count r = miso_count (mring \<sigma>)"
      using err(2) by (simp_all add: same_reader_def)
    have "miso_inv r k (map to_slot (gs @ replicate j (GSkip ?nd)))" using err(3) by simp
    then show ?thesis using i(2,5,6) grow(1) [OF rc skips] grow(2) [OF rc skips] idle err(1)
      by (intro msys_invI [of _ k "gs @ replicate j (GSkip ?nd)" dn] latest_append) (auto simp: fun_upd_idem latest_skips)
  next
    case (ok j)
    have rc: "read_cursor r = read_cursor (mring \<sigma>)" "miso_count r = miso_count (mring \<sigma>)"
      using ok(2) by (simp_all add: same_reader_def)
    let ?hs = "replicate j (GSkip ?nd) @ [GData t p False]"
    have un: "uncommitted ?hs t' i \<longleftrightarrow> t' = t \<and> i = j" for t' i
      by (auto simp: uncommitted_def nth_append less_Suc_eq split: if_splits)
    have nu: "\<not> uncommitted gs t i" for i using i(3) [of t] idle by (simp add: thread_ok_def)
    have "latest ?hs" by (rule latest_append) (simp_all add: latest_skips latest_def uncommitted_def)
    then have la: "latest (gs @ ?hs)" using nu by (intro latest_append [OF i(6)]) auto
    have "thread_ok r k (gs @ ?hs) t (Some (h, p))"
    proof -
      note nu
      then have "\<forall>i. uncommitted (gs @ ?hs) t i \<longrightarrow> i = length gs + j" unfolding uncommitted_append [of gs ?hs] un by auto
      moreover have "goff (gs @ ?hs) (length gs + j) = slots_len (map to_slot gs) + j * ?nd"
        by (simp add: goff_def)
      ultimately show ?thesis using ok(1,4) rc
        by (auto simp: thread_ok_def nth_append slot_pos_def intro!: exI [of _ "length gs + j"])
    qed
    moreover have "miso_inv r k (map to_slot (gs @ ?hs))" using ok(3) by simp
    ultimately show ?thesis using i(2,5) la grow(1) [OF rc, of ?hs] i(4) ok(1) rc
      by (intro msys_invI [of _ k "gs @ ?hs" dn]) (auto simp: un reader_ok_def slot_pos_def)
  qed
qed

lemma map_update_split:
  "i < length xs \<Longrightarrow> map f xs = map f (take i xs) @ f (xs ! i) # map f (drop (Suc i) xs)"
  by (metis id_take_nth_drop list.simps(9) map_append)

lemma miso_step_commit_inv:
  assumes inv: "msys_inv \<sigma>" and pend: "mpend \<sigma> t = Some (h, p)"
  shows "msys_inv (\<sigma>\<lparr>mring := miso_commit_write_chunk (miso_fill (mring \<sigma>) h p) h, mpend := (mpend \<sigma>)(t := None)\<rparr>)"
proof -
  obtain k gs dn where i: "miso_inv (mring \<sigma>) k (map to_slot gs)" "granted \<sigma> = dn @ concat (map gpay gs)"
    "\<And>t. thread_ok (mring \<sigma>) k gs t (mpend \<sigma> t)" "reader_ok (mring \<sigma>) k gs (mrpend \<sigma>)" "map snd dn = mconsumed \<sigma>" "latest gs"
    using inv unfolding msys_inv_def by blast
  obtain n where n: "wh_result h = success" "n < length gs" "gs ! n = GData t p False"
    "wh_data_addr h = Some (128 * slot_pos (mring \<sigma>) k (goff gs n) + 8)" "\<forall>j. uncommitted gs t j \<longrightarrow> j = n"
    using i(3) [of t] pend by (auto simp: thread_ok_def)
  let ?r = "miso_commit_write_chunk (miso_fill (mring \<sigma>) h p) h" and ?gs = "gs[n := GData t p True]"
  have "map to_slot gs = map to_slot (take n gs) @ Pending (length p) # map to_slot (drop (Suc n) gs)"
    using map_update_split [OF n(2), of to_slot] n(3) by simp
  then have "miso_inv ?r k (map to_slot (take n gs) @ Data p # map to_slot (drop (Suc n) gs))"
    using i(1) n(1,4) by (intro miso_commit_inv) (simp_all add: slot_pos_def goff_def)
  then have m: "miso_inv ?r k (map to_slot ?gs)" using n(2) by (simp add: upd_conv_take_nth_drop)
  have pay: "concat (map gpay ?gs) = concat (map gpay gs)"
    using n(2,3) map_update_split [OF n(2), of gpay] by (simp add: upd_conv_take_nth_drop)
  have th: "thread_ok ?r k ?gs t' (((mpend \<sigma>)(t := None)) t')" for t'
  proof (cases "t' = t")
    case True
    have "\<not> uncommitted ?gs t j" for j using n by (auto simp: uncommitted_def nth_list_update split: if_splits)
    then show ?thesis using True by (simp add: thread_ok_def)
  next
    case False
    then show ?thesis using thread_ok_commit [OF n(2,3) _ _ i(3) False] by (simp add: commit_frame)
  qed
  have "reader_ok ?r k ?gs (mrpend \<sigma>)"
    unfolding reader_ok_def
  proof (intro allI impI)
    fix rh assume rh: "mrpend \<sigma> = Some rh"
    show "rh_result rh = err_empty_log_buffer \<or> (\<exists>t' q ys. ?gs = GData t' q True # ys \<and> rh_result rh = success
        \<and> rh_data_addr rh = Some (128 * slot_pos ?r k 0 + 8) \<and> rh_data_size rh = of_nat (length q))"
    proof (cases "rh_result rh = err_empty_log_buffer")
      case False
      then obtain t' q ys where q: "gs = GData t' q True # ys" "rh_result rh = success"
        "rh_data_addr rh = Some (128 * slot_pos (mring \<sigma>) k 0 + 8)" "rh_data_size rh = of_nat (length q)"
        using i(4) rh by (auto simp: reader_ok_def)
      then obtain n' where "n = Suc n'" using n(3) by (cases n) auto
      then show ?thesis using q by (simp add: slot_pos_def commit_frame)
    qed simp
  qed
  with m pay th i(2,5) latest_commit [OF i(6) n(3)] show ?thesis by (intro msys_invI [of _ k ?gs dn]) simp_all
qed

lemma gskip_prefix:
  "map to_slot (dropWhile (is_skip \<circ> to_slot) gs) = dropWhile is_skip (map to_slot gs)"
  "map to_slot (takeWhile (is_skip \<circ> to_slot) gs) = takeWhile is_skip (map to_slot gs)"
  by (simp_all add: dropWhile_map takeWhile_map)

lemma gskip_pays:
  assumes "\<And>g. g \<in> set gs \<Longrightarrow> is_skip (to_slot g)"
  shows "concat (map gpay gs) = []" "\<not> uncommitted gs t i"
proof -
  have s: "\<exists>d. g = GSkip d" if "g \<in> set gs" for g using assms [OF that] by (cases g rule: to_slot.cases) auto
  then show "concat (map gpay gs) = []" by fastforce
  show "\<not> uncommitted gs t i"
    unfolding uncommitted_def using s [OF nth_mem, of i] by (metis gslot.distinct(1))
qed

lemma miso_step_read_inv:
  assumes inv: "msys_inv \<sigma>" and idle: "mrpend \<sigma> = None" and rd: "miso_read_chunk (mring \<sigma>) = Some (h, r)"
  shows "msys_inv (\<sigma>\<lparr>mring := r, mrpend := Some h\<rparr>)"
proof -
  obtain k gs dn where i: "miso_inv (mring \<sigma>) k (map to_slot gs)" "granted \<sigma> = dn @ concat (map gpay gs)"
    "\<And>t. thread_ok (mring \<sigma>) k gs t (mpend \<sigma> t)" "reader_ok (mring \<sigma>) k gs (mrpend \<sigma>)" "map snd dn = mconsumed \<sigma>" "latest gs"
    using inv unfolding msys_inv_def by blast
  define pre post where "pre = takeWhile (is_skip \<circ> to_slot) gs" and "post = dropWhile (is_skip \<circ> to_slot) gs"
  have gs: "gs = pre @ post" by (simp add: pre_def post_def)
  have skip: "is_skip (to_slot g)" if "g \<in> set pre" for g
    using that by (auto simp: pre_def dest: set_takeWhileD)
  obtain k' where r: "h = read_handle_of r k' (map to_slot post)" "miso_inv r k' (map to_slot post)"
    "read_cursor r = read_cursor (mring \<sigma>)" "miso_count r = miso_count (mring \<sigma>)"
    "k' = k + slots_len (map to_slot pre)"
    using read_result [OF i(1)] rd by (auto simp: pre_def post_def gskip_prefix)
  have "thread_ok r k' post t (mpend \<sigma> t)" for t
    by (rule thread_ok_drop [OF i(3) [of t, unfolded gs] gskip_pays(2) [OF skip]])
      (simp_all add: slot_pos_def r(3-5) add.assoc)
  moreover have "reader_ok r k' post (Some h)"
  proof (cases "\<exists>t p ys. post = GData t p True # ys")
    case True
    then show ?thesis using r(1) by (auto simp: reader_ok_def read_handle_of_def slot_pos_def)
  next
    case False
    have "read_handle_of r k' (map to_slot post) = empty_read_handle"
    proof (cases post)
      case (Cons g ys)
      then have "\<not> is_skip (to_slot g)"
        using dropWhile_eq_Cons_conv [of "is_skip \<circ> to_slot" gs g ys] by (auto simp: post_def)
      then show ?thesis using False Cons by (cases g rule: to_slot.cases) (auto simp: read_handle_of_def)
    qed (simp add: read_handle_of_def)
    then show ?thesis using r(1) by (simp add: reader_ok_def empty_read_handle_def)
  qed
  moreover have "latest post" using i(6) unfolding gs by (rule latest_drop)
  ultimately show ?thesis using r(2) i(2,5) gskip_pays(1) [OF skip]
    by (intro msys_invI [of _ k' post dn]) (simp_all add: gs)
qed

lemma miso_step_return_inv:
  assumes inv: "msys_inv \<sigma>" and pend: "mrpend \<sigma> = Some h"
  shows "msys_inv (\<sigma>\<lparr>mring := miso_return_read_chunk (mring \<sigma>) h, mrpend := None,
    mconsumed := (if rh_result h = success then mconsumed \<sigma> @ [miso_payload (mring \<sigma>) h] else mconsumed \<sigma>)\<rparr>)"
proof -
  obtain k gs dn where i: "miso_inv (mring \<sigma>) k (map to_slot gs)" "granted \<sigma> = dn @ concat (map gpay gs)"
    "\<And>t. thread_ok (mring \<sigma>) k gs t (mpend \<sigma> t)" "reader_ok (mring \<sigma>) k gs (mrpend \<sigma>)" "map snd dn = mconsumed \<sigma>" "latest gs"
    using inv unfolding msys_inv_def by blast
  note g = miso_invD(1) [OF i(1)]
  let ?r = "miso_return_read_chunk (mring \<sigma>) h"
  have none: "reader_ok s k gs None" for s k gs by (simp add: reader_ok_def)
  consider (empty) "rh_result h = err_empty_log_buffer"
    | (data) t p ys where "gs = GData t p True # ys" "rh_result h = success"
      "rh_data_addr h = Some (128 * slot_pos (mring \<sigma>) k 0 + 8)" "rh_data_size h = of_nat (length p)"
    using i(4) pend by (auto simp: reader_ok_def)
  then show ?thesis
  proof cases
    case empty
    note ret = return_empty_inv [OF i(1) empty]
    have "slot_pos ?r 0 j = slot_pos (mring \<sigma>) k j" for j
      using flushed_position [OF g, of k j] miso_invD(5) [OF i(1)] by (simp add: slot_pos_def ret(2,4))
    then have "thread_ok ?r 0 gs t (mpend \<sigma> t)" for t
      using thread_ok_drop [of "mring \<sigma>" k "[]" gs t "mpend \<sigma> t" ?r 0] i(3) by (simp add: uncommitted_def)
    then show ?thesis using ret(1) i(2,5,6) empty none by (intro msys_invI [of _ 0 gs dn]) simp_all
  next
    case data
    have inv': "miso_inv (mring \<sigma>) k (Data p # map to_slot ys)" using i(1) data(1) by simp
    from return_success_inv [OF inv' data(2)] obtain k' where ret:
      "miso_inv ?r k' (map to_slot ys)" "miso_count ?r = miso_count (mring \<sigma>)"
      "k' = 0 \<and> read_cursor ?r = read_cursor (mring \<sigma>) + of_nat (k + need_blocks (length p))
       \<or> k' = k + need_blocks (length p) \<and> read_cursor ?r = read_cursor (mring \<sigma>)" by blast
    have "k + need_blocks (length p) < unat (miso_count (mring \<sigma>))" using miso_invD(5) [OF inv'] by simp
    then have pos: "slot_pos ?r k' j = slot_pos (mring \<sigma>) k (need_blocks (length p) + j)" for j
      using ret(3) flushed_position [OF g, of "k + need_blocks (length p)" j]
      by (auto simp: slot_pos_def ret(2) add.assoc simp del: of_nat_add)
    have one: "\<not> uncommitted [GData t p True] t' i" for t' i by (cases i) (simp_all add: uncommitted_def)
    have "thread_ok ?r k' ys t' (mpend \<sigma> t')" for t'
      using thread_ok_drop [of "mring \<sigma>" k "[GData t p True]" ys t' "mpend \<sigma> t'" ?r k'] i(3) [of t'] pos data(1) one
      by simp
    moreover have "miso_payload (mring \<sigma>) h = p"
      using read_payload [OF inv'] data(3,4) by (simp add: miso_payload_def slot_pos_def)
    moreover have "latest ys" using i(6) latest_drop [of "[GData t p True]" ys] by (simp add: data(1))
    ultimately show ?thesis using ret(1) i(2,5) data(1,2) none by (intro msys_invI [of _ k' ys "dn @ [(t, p)]"]) simp_all
  qed
qed

lemma miso_reach_inv:
  assumes "miso_inv s0 0 []" and "miso_reach s0 \<sigma>"
  shows "msys_inv \<sigma>"
  using assms(2)
proof (induction rule: miso_reach.induct)
  case start
  show ?case using assms(1)
    by (intro msys_invI [of _ 0 "[]" "[]"])
      (simp_all add: miso_start_def thread_ok_def uncommitted_def reader_ok_def latest_def)
next
  case (step \<sigma> \<tau>)
  then show ?case
    by (auto intro: miso_step_alloc_inv miso_step_commit_inv miso_step_read_inv miso_step_return_inv)
qed

end
