(* ===== verification/Qlog_Miso_Recovery.thy ===== *)
theory Qlog_Miso_Recovery
  imports Qlog_Miso_Threads
begin

text \<open>
  Recovery of the multi-producer ring from a memory map: what the parsing loop accepts, and where it
  fails.
\<close>

unbundle bit_operations_syntax

text \<open>
  The conditions the parsing loop imposes on the slots besides being chunks: no empty payload, and for
  a skipped chunk a bound that the code evaluates after it has moved past the chunk.
\<close>

fun recoverable :: "nat \<Rightarrow> nat \<Rightarrow> slot list \<Rightarrow> bool" where
  "recoverable n c [] \<longleftrightarrow> True"
| "recoverable n c (Skip j # xs) \<longleftrightarrow> (c + j) mod n + j \<le> n \<and> recoverable n (c + j) xs"
| "recoverable n c (Pending sz # xs) \<longleftrightarrow> recoverable n (c + need_blocks sz) xs"
| "recoverable n c (Data p # xs) \<longleftrightarrow> p \<noteq> [] \<and> recoverable n (c + need_blocks (length p)) xs"

lemma data_size_good:
  assumes "unat num = need_blocks (unat sz)" and "0 < unat sz"
  shows "\<not> recover_size_bad num sz"
proof -
  note nb = need_blocks_bounds [of "unat sz"]
  have nm: "unat (ucast num * 128 :: u64) = 128 * unat num"
    using u32_less [of num] by (subst unat_mult_lem [THEN iffD1]) simp_all
  have "unat (ucast num * 128 - 8 :: u64) = 128 * unat num - 8"
    using nb nm assms(1) by (subst unat_sub) (simp_all add: word_le_nat_alt)
  then have hi: "\<not> (ucast sz :: u64) > ucast num * 128 - 8"
    using nb assms(1) by (simp add: word_less_nat_alt)
  have lo: "\<not> (ucast sz :: u64) \<le> ucast num * 128 - 128 - 8" if "num \<noteq> 1"
  proof -
    have "unat num \<noteq> 1" using that by (metis unat_1 word_unat_eq_iff)
    then have two: "2 \<le> unat num" using nb(1) assms(1) by linarith
    have "unat (ucast num * 128 - 128 :: u64) = 128 * unat num - 128"
      using two nm by (subst unat_sub) (simp_all add: word_le_nat_alt)
    then have "unat (ucast num * 128 - 128 - 8 :: u64) = 128 * unat num - 128 - 8"
      using two by (subst unat_sub) (simp_all add: word_le_nat_alt)
    then show ?thesis using nb(3) assms(1) two by (simp add: word_le_nat_alt)
  qed
  have "\<not> (ucast sz :: u64) \<le> 0" using assms(2) by (simp add: word_le_nat_alt)
  then show ?thesis using hi lo by (auto simp: recover_size_bad_def)
qed

text \<open>The parsing loop walks over committed and skipped slots to the first unused block.\<close>

lemma recover_loop_slots:
  assumes g: "miso_geom s"
    and "slots_at (miso_blocks s) (mcnt s) c ys" and "list_all (\<lambda>x. \<not> is_pending x) ys"
    and "recoverable (mcnt s) c ys" and "cur = start + of_nat t" and "t + slots_len ys < mcnt s"
    and "unat cur mod mcnt s = c mod mcnt s"
    and "get_status (miso_blocks s) ((c + slots_len ys) mod mcnt s) = status_unused"
  shows "miso_recover_loop s start cur = Some (Some (cur + of_nat (slots_len ys)))"
  using assms(2-)
proof (induction ys arbitrary: c cur t)
  case Nil
  have b: "miso_index s cur = c mod mcnt s" using Nil by (simp add: miso_index_mod [OF g])
  have "t < 2 ^ 32" using Nil miso_geomD(3) [OF g] by simp
  then have "unat (cur - start) = t" using Nil by (simp add: unat_of_nat)
  then have "\<not> (cur - start = miso_count s)" "\<not> (cur - start > miso_count s)"
    using Nil by (auto simp: word_less_nat_alt)
  moreover have "get_status (miso_blocks s) (c mod mcnt s) = status_unused" using Nil(7) by simp
  ultimately show ?case
    by (subst miso_recover_loop.simps) (simp add: Let_def b status_used_def status_invalid_def status_unused_def)
next
  case (Cons x ys)
  let ?l = "slot_len x" and ?m = "miso_blocks s" and ?n = "mcnt s"
  have b: "miso_index s cur = c mod ?n" using Cons.prems by (simp add: miso_index_mod [OF g])
  have x: "slot_at ?m ?n (c mod ?n) x" using Cons.prems(1) by simp
  have small: "t + ?l < 2 ^ 24" using Cons.prems(5) miso_geomD(3) [OF g] by simp
  have ul: "unat (of_nat ?l :: u32) = ?l" "unat (of_nat (t + ?l) :: u32) = t + ?l"
    using small by (simp_all add: unat_of_nat del: of_nat_add)
  have "unat (get_block_num ?m (c mod ?n)) = ?l" using x Cons.prems(2) by (cases x) auto
  then have num: "get_block_num ?m (c mod ?n) = of_nat ?l" using ul(1) by (simp add: word_unat_eq_iff)
  let ?cur = "cur + of_nat ?l"
  have tot: "?cur - start = of_nat (t + ?l)" using Cons.prems(4) by simp
  have go: "\<not> (?cur - start = miso_count s)" "\<not> (?cur - start > miso_count s)"
    unfolding tot using ul(2) Cons.prems(5) by (auto simp: word_less_nat_alt)
  have ix: "unat ((w AND (miso_count s - 1)) + of_nat ?l) = unat w mod ?n + ?l" for w
  proof -
    have "unat (w AND (miso_count s - 1)) = unat w mod ?n"
      using miso_index_mod [OF g, of w] by (simp add: miso_index_def)
    moreover have "unat w mod ?n < 2 ^ 24" using miso_geomD(1,3) [OF g] mod_less_divisor less_le_trans by blast
    ultimately show ?thesis using ul(1) small by (subst unat_add_lem [THEN iffD1]) simp_all
  qed
  have adv: "unat ?cur mod ?n = (c + ?l) mod ?n"
    using miso_index_add [OF g, of ?l cur] small Cons.prems(6) mod_add_cong [of "unat cur" ?n c ?l ?l]
    by (simp add: miso_index_mod [OF g])
  have step: "miso_recover_loop s start cur = miso_recover_loop s start ?cur"
  proof (cases x)
    case (Skip j)
    have "\<not> (?cur AND (miso_count s - 1)) + of_nat j > miso_count s"
      using Cons.prems(3) ix [of ?cur] adv by (simp add: Skip word_less_nat_alt)
    then show ?thesis using x go num
      by (subst miso_recover_loop.simps) (simp add: Skip Let_def b status_used_def status_invalid_def)
  next
    case (Data p)
    have "\<not> recover_size_bad (of_nat ?l) (get_data_size ?m (c mod ?n))"
      using x Cons.prems(3) ul(1) by (intro data_size_good) (auto simp: Data)
    moreover have "\<not> (cur AND (miso_count s - 1)) + of_nat ?l > miso_count s"
      using x ix [of cur] Cons.prems(6) by (simp add: Data word_less_nat_alt)
    ultimately show ?thesis using x go num
      by (subst miso_recover_loop.simps) (simp add: Data Let_def b status_used_def)
  qed (use Cons.prems(2) in simp)
  have "miso_recover_loop s start ?cur = Some (Some (?cur + of_nat (slots_len ys)))"
  proof (rule Cons.IH [of "c + ?l" ?cur "t + ?l"])
    show "recoverable ?n (c + ?l) ys" using Cons.prems(2,3) by (cases x) auto
  qed (use Cons.prems adv in \<open>auto simp: add.assoc\<close>)
  then show ?case unfolding step by (simp add: add.assoc)
qed

lemma recoverable_mod:
  assumes "c mod n = c' mod n"
  shows "recoverable n c xs \<longleftrightarrow> recoverable n c' xs"
  using assms
proof (induction n c xs arbitrary: c' rule: recoverable.induct)
  case (2 n c j xs)
  have "(c + j) mod n = (c' + j) mod n" using 2(2) by (rule mod_add_cong) simp
  from 2(1) [OF this] this show ?case by simp
next
  case (3 n c sz xs)
  have "(c + need_blocks sz) mod n = (c' + need_blocks sz) mod n" using 3(2) by (rule mod_add_cong) simp
  from 3(1) [OF this] show ?case by simp
next
  case (4 n c p xs)
  have "(c + need_blocks (length p)) mod n = (c' + need_blocks (length p)) mod n" using 4(2) by (rule mod_add_cong) simp
  from 4(1) [OF this] show ?case by simp
qed simp

text \<open>The slots before the first one that is not committed: what a restart can recover.\<close>

definition committed_prefix :: "slot list \<Rightarrow> slot list" where
  "committed_prefix xs = takeWhile (\<lambda>x. \<not> is_pending x) xs"

lemma committed_prefix_status:
  assumes "slots_at m n c xs" and "get_status m ((c + slots_len xs) mod n) = status_unused"
  shows "get_status m ((c + slots_len (committed_prefix xs)) mod n) = status_unused"
  using assms
proof (induction xs arbitrary: c)
  case (Cons x xs)
  show ?case
  proof (cases "is_pending x")
    case True
    then obtain sz where "x = Pending sz" by (cases x) auto
    then show ?thesis using Cons.prems by (simp add: committed_prefix_def)
  next
    case False
    then show ?thesis using Cons.IH [of "c + slot_len x"] Cons.prems by (simp add: committed_prefix_def add.assoc)
  qed
qed (simp add: committed_prefix_def)

lemma slots_len_prefix: "slots_len (committed_prefix xs) \<le> slots_len xs"
  by (induction xs) (simp_all add: committed_prefix_def)

lemma slots_at_prefix: "slots_at m n c xs \<Longrightarrow> slots_at m n c (committed_prefix xs)"
  by (induction xs arbitrary: c) (simp_all add: committed_prefix_def)

text \<open>The state after a successful parse: everything beyond the recovered slots is free.\<close>

lemma recovered_inv:
  assumes g: "miso_geom s" and r: "unat r < mcnt s" and fit: "slots_len ys < mcnt s"
    and sl: "slots_at (miso_blocks s) (mcnt s) (unat r) ys"
    and hd: "read_cursor_cache (miso_head s) = r" "read_cursor_start_cache (miso_head s) = r"
  shows "miso_inv (s\<lparr>write_cursor := r + of_nat (slots_len ys), read_cursor := r,
      miso_blocks := clear_statuses (map (\<lambda>i. miso_index s (of_nat i))
        [unat (r + of_nat (slots_len ys))..<unat (r + miso_count s)]) (miso_blocks s),
      miso_state := st\<rparr>) 0 ys"
proof -
  let ?n = "mcnt s" and ?l = "slots_len ys"
  have n: "?n \<le> 2 ^ 24" "0 < ?n" using miso_geomD [OF g] by simp_all
  have u: "unat (r + of_nat ?l) = unat r + ?l" "unat (r + miso_count s) = unat r + ?n"
    using n r fit by (subst unat_add_lem [THEN iffD1]; simp add: unat_of_nat)+
  have ix: "miso_index s (of_nat i) = i mod ?n" if "i < 2 ^ 32" for i
    using that by (simp add: miso_index_mod [OF g] unat_of_nat)
  let ?bs = "map (\<lambda>i. miso_index s (of_nat i)) [unat r + ?l..<unat r + ?n]"
  have bs: "set ?bs = (\<lambda>j. (unat r + j) mod ?n) ` {?l..<?n}"
  proof -
    have "?bs = map (\<lambda>i. i mod ?n) [unat r + ?l..<unat r + ?n]" using n r by (auto intro!: ix)
    moreover have "set [unat r + ?l..<unat r + ?n] = (\<lambda>j. unat r + j) ` {?l..<?n}"
      by (simp add: image_add_atLeastLessThan add.commute)
    ultimately show ?thesis by (simp only: set_map image_image)
  qed
  have other: "block_eq (miso_blocks s) (clear_statuses ?bs (miso_blocks s)) ((unat r + j) mod ?n)" if "j < ?l" for j
    using that fit mod_window_inj [of "unat r" j ?n] block_in_range [OF g]
    by (intro clear_statuses_block_eq) (auto simp: bs simp del: set_map)
  have "slots_at (clear_statuses ?bs (miso_blocks s)) ?n (unat r) ys"
    using sl miso_geomD(4,1) [OF g] by (elim slots_at_cong) (auto intro!: other simp del: set_map)
  moreover have "get_status (clear_statuses ?bs (miso_blocks s)) ((unat r + j) mod ?n) = status_unused"
    if "?l \<le> j" "j < ?n" for j
    using that block_in_range [OF g] by (intro clear_statuses_unused) (auto simp: bs simp del: set_map)
  ultimately show ?thesis using g hd fit unfolding u by (simp add: miso_inv_def miso_geom_def)
qed

lemma try_recover_slots:
  assumes g: "miso_geom s" and sum: "log_checksum (miso_head s) = calculate_check_sum (miso_config s)"
    and c: "c mod mcnt s = unat (read_cursor_cache (miso_head s)) mod mcnt s"
    and sl: "slots_at (miso_blocks s) (mcnt s) c xs" and fit: "slots_len xs < mcnt s"
    and st: "get_status (miso_blocks s) ((c + slots_len xs) mod mcnt s) = status_unused"
    and rec: "recoverable (mcnt s) c (committed_prefix xs)"
  shows "\<exists>s'. miso_try_recover s = Some (True, s') \<and> miso_inv s' 0 (committed_prefix xs)
    \<and> miso_state s' = recover_from_memory_map"
proof -
  let ?r = "read_cursor_cache (miso_head s) AND (miso_count s - 1)" and ?ys = "committed_prefix xs"
  let ?s = "s\<lparr>miso_head := (miso_head s)\<lparr>read_cursor_cache := ?r, read_cursor_start_cache := ?r\<rparr>\<rparr>"
  have r: "unat ?r = c mod mcnt s" using miso_index_mod [OF g] c by (simp add: miso_index_def)
  have rl: "unat ?r < mcnt s" unfolding r using miso_geomD(1) [OF g] by simp
  have rm: "unat ?r mod mcnt s = c mod mcnt s" using r by simp
  have g': "miso_geom ?s" using g by (simp add: miso_geom_def)
  have yl: "slots_len ?ys < mcnt s" using slots_len_prefix [of xs] fit by simp
  have sy: "slots_at (miso_blocks s) (mcnt s) (unat ?r) ?ys"
    using slots_at_prefix [OF sl] slots_at_mod [OF rm] by blast
  have "miso_recover_loop ?s ?r ?r = Some (Some (?r + of_nat (slots_len ?ys)))"
  proof (rule recover_loop_slots [OF g', of "unat ?r" _ _ _ 0])
    show "get_status (miso_blocks ?s) ((unat ?r + slots_len ?ys) mod mcnt ?s) = status_unused"
      using committed_prefix_status [OF sl st] mod_add_cong [OF rm refl, of "slots_len ?ys"] by simp
    show "recoverable (mcnt ?s) (unat ?r) ?ys" using rec recoverable_mod [OF rm] by simp
    show "list_all (\<lambda>x. \<not> is_pending x) ?ys" by (auto simp: committed_prefix_def list_all_iff dest: set_takeWhileD)
  qed (use sy yl in simp_all)
  moreover have "\<not> of_nat (slots_len ?ys) > miso_count s"
    using yl miso_geomD(3) [OF g] by (simp add: word_less_nat_alt unat_of_nat)
  ultimately have "miso_try_recover s = Some (True, ?s\<lparr>write_cursor := ?r + of_nat (slots_len ?ys), read_cursor := ?r,
      miso_blocks := clear_statuses (map (\<lambda>i. miso_index ?s (of_nat i))
        [unat (?r + of_nat (slots_len ?ys))..<unat (?r + miso_count ?s)]) (miso_blocks ?s),
      miso_state := recover_from_memory_map\<rparr>)"
    using sum unfolding miso_try_recover_def Let_def by simp
  moreover note recovered_inv [OF g', of ?r ?ys recover_from_memory_map]
  ultimately show ?thesis using rl yl sy by auto
qed

end
