(* ===== verification/Qlog_Miso_Props.thy ===== *)
theory Qlog_Miso_Props
  imports Qlog_Miso_Recovery
begin

text \<open>
  The properties of the multi-producer ring and rings for their witnesses.
\<close>

unbundle bit_operations_syntax

section \<open>Construction\<close>

lemma round_pow2_or_zero: "round_pow_of_two v = 0 \<or> (\<exists>k\<le>31. unat (round_pow_of_two v) = 2 ^ k)"
proof -
  obtain k where k: "round_pow_of_two v = mask k + 1" "k \<le> 32" using round_pow_of_two_mask by blast
  show ?thesis
  proof (cases "k = 32")
    case True
    then show ?thesis using k(1) by (simp add: mask_eq_decr_exp)
  next
    case False
    then show ?thesis using k unat_mask_plus_1 [of k] by auto
  qed
qed

text \<open>The number of blocks the constructor computes.\<close>

definition blocks_for :: "log_buffer_config \<Rightarrow> u32" where
  "blocks_for config = drop_bit 7 (max (16 * 128) (round_pow_of_two (default_buffer_size config)))"

lemma blocks_for_pow2: "\<exists>k. 4 \<le> k \<and> k \<le> 24 \<and> unat (blocks_for config) = 2 ^ k"
proof -
  let ?b = "max (16 * 128) (round_pow_of_two (default_buffer_size config))"
  have "\<exists>k. 11 \<le> k \<and> k \<le> 31 \<and> unat ?b = 2 ^ k"
  proof (cases "round_pow_of_two (default_buffer_size config) \<le> 16 * 128")
    case True
    then have "?b = 2048" by (simp add: max_def)
    then show ?thesis by (intro exI [of _ 11]) simp
  next
    case False
    then have b: "?b = round_pow_of_two (default_buffer_size config)" by (simp add: max_def not_le less_imp_le)
    with False round_pow2_or_zero [of "default_buffer_size config"] obtain k where
      k: "k \<le> 31" "unat ?b = 2 ^ k" by auto
    have "11 \<le> k"
    proof (rule ccontr)
      assume "\<not> 11 \<le> k"
      then have "(2 :: nat) ^ k < 2 ^ 11" by (intro power_strict_increasing) auto
      then show False using k(2) b False by (simp add: word_le_nat_alt)
    qed
    with k show ?thesis by blast
  qed
  then obtain k where k: "11 \<le> k" "k \<le> 31" "unat ?b = 2 ^ k" by blast
  have "unat (drop_bit 7 ?b) = 2 ^ k div 2 ^ 7" unfolding k(3) [symmetric]
    by (simp only: drop_bit_eq_div unat_div) simp
  also have "\<dots> = 2 ^ (k - 7)" using k(1) by (simp only: power_diff)
  finally show ?thesis using k unfolding blocks_for_def by (intro exI [of _ "k - 7"]) auto
qed

lemma constructor_unfold:
  "miso_ring_buffer_new mmap_result h blocks config =
    (let s = \<lparr>miso_config = config\<lparr>default_buffer_size := max (16 * 128) (round_pow_of_two (default_buffer_size config))\<rparr>,
         miso_state = memory_map_buffer_state.init_with_memory, write_cursor = 0, read_cursor = 0,
         miso_head = h, miso_blocks = blocks, miso_count = blocks_for config\<rparr>
     in case mmap_result of
          failed \<Rightarrow> Some (miso_init_with_memory s)
        | use_existed \<Rightarrow> map_option (\<lambda>(ok, s'). if ok then s' else miso_init_with_memory_map s') (miso_try_recover s)
        | new_created \<Rightarrow> Some (miso_init_with_memory_map s))"
  by (simp add: miso_ring_buffer_new_def Let_def blocks_for_def)

text \<open>
  Property C35. The constructor when no existing file is used, whatever the memory holds and whatever size is
  configured (0 and sizes above \<open>2\<^sup>3\<^sup>1\<close> included), yields a well-formed empty ring.
\<close>

theorem miso_constructor_wellformed:
  assumes "length blocks = 128 * unat (blocks_for config)" and "mmap_result \<noteq> use_existed"
  shows "\<exists>s. miso_ring_buffer_new mmap_result h blocks config = Some s \<and> miso_inv s 0 [] \<and> miso_contents s = []"
proof -
  let ?s = "\<lparr>miso_config = config\<lparr>default_buffer_size := max (16 * 128) (round_pow_of_two (default_buffer_size config))\<rparr>,
         miso_state = memory_map_buffer_state.init_with_memory, write_cursor = 0, read_cursor = 0,
         miso_head = h, miso_blocks = blocks, miso_count = blocks_for config\<rparr>"
  have "miso_geom ?s" using assms(1) blocks_for_pow2 [of config] by (simp add: miso_geom_def)
  note i = init_inv [OF this]
  from i miso_contents_inv [OF i(1)] miso_contents_inv [OF i(2)] show ?thesis
    using assms(2) unfolding constructor_unfold Let_def by (cases mmap_result) auto
qed

text \<open>A ring of 16 blocks for the witnesses.\<close>

definition demo_config :: log_buffer_config where
  "demo_config = default_log_buffer_config\<lparr>default_buffer_size := 2048\<rparr>"

definition demo_head :: miso_head where
  "demo_head = \<lparr>read_cursor_cache = 0, read_cursor_start_cache = 0, log_checksum = 0, mmap_misc_data = []\<rparr>"

lemma demo_blocks: "blocks_for demo_config = 16"
  by (simp add: blocks_for_def demo_config_def round_pow_of_two_def Let_def)

theorem miso_constructor_wellformed_witness:
  "\<exists>s. miso_ring_buffer_new failed demo_head (replicate 2048 255) demo_config = Some s \<and> miso_inv s 0 []
    \<and> miso_contents s = []"
  by (rule miso_constructor_wellformed) (simp_all add: demo_blocks)

text \<open>An idle ring of 16 blocks with all cursors at \<open>r\<close>.\<close>

definition idle_ring :: "u32 \<Rightarrow> miso_ring_buffer" where
  "idle_ring r = \<lparr>miso_config = demo_config, miso_state = memory_map_buffer_state.init_with_memory,
     write_cursor = r, read_cursor = r,
     miso_head = \<lparr>read_cursor_cache = r, read_cursor_start_cache = r,
       log_checksum = calculate_check_sum demo_config, mmap_misc_data = []\<rparr>,
     miso_blocks = replicate 2048 0, miso_count = 16\<rparr>"

lemma idle_geom: "miso_geom (idle_ring r)"
proof -
  have "(16 :: nat) = 2 ^ 4" by simp
  then have "\<exists>k. 4 \<le> k \<and> k \<le> 24 \<and> (16 :: nat) = 2 ^ k" by (intro exI [of _ 4]) simp
  then show ?thesis by (simp add: miso_geom_def idle_ring_def)
qed

lemma idle_inv: "miso_inv (idle_ring r) 0 []"
proof -
  have "get_status (replicate 2048 0) (j mod 16) = status_unused" for j :: nat
  proof -
    have "j mod 16 < 16" by simp
    then have "128 * (j mod 16) + 3 < 2048" by linarith
    then show ?thesis by (simp add: get_status_def status_unused_def)
  qed
  then show ?thesis using idle_geom [of r] by (simp add: miso_inv_def) (simp add: idle_ring_def)
qed

section \<open>The threads\<close>

lemma all_committed:
  assumes "\<And>t n. \<not> uncommitted gs t n"
  shows "list_all (\<lambda>x. \<not> is_pending x) (map to_slot gs)" "slots_data (map to_slot gs) = map snd (concat (map gpay gs))"
proof -
  have d: "slot_data (to_slot g) = map snd (gpay g) \<and> \<not> is_pending (to_slot g)" if in_gs: "g \<in> set gs" for g
  proof (cases g rule: to_slot.cases)
    case (3 t q)
    obtain n where "n < length gs" "gs ! n = g" using in_gs by (metis in_set_conv_nth)
    then have "uncommitted gs t n" using 3 by (simp add: uncommitted_def)
    then show ?thesis using assms by blast
  qed simp_all
  then show "list_all (\<lambda>x. \<not> is_pending x) (map to_slot gs)" by (auto simp: list_all_iff)
  show "slots_data (map to_slot gs) = map snd (concat (map gpay gs))"
    unfolding slots_data_def map_concat using d by (intro arg_cong [of _ _ concat]) (simp add: o_def)
qed

lemma latest_behind:
  assumes "latest gs" "n < length gs" "gs ! n = GData t p False"
  shows "t \<notin> fst ` set (concat (map gpay (drop (Suc n) gs)))"
proof
  assume "t \<in> fst ` set (concat (map gpay (drop (Suc n) gs)))"
  then obtain g q where g: "g \<in> set (drop (Suc n) gs)" "(t, q) \<in> set (gpay g)" by auto
  obtain c where "g = GData t q c" using g(2) by (cases g rule: gslot.exhaust) auto
  moreover obtain j where "j < length (drop (Suc n) gs)" "drop (Suc n) gs ! j = g" using g(1) by (metis in_set_conv_nth)
  ultimately have "gs ! (Suc n + j) = GData t q c" "Suc n + j < length gs" by simp_all
  moreover have "uncommitted gs t n" using assms(2,3) by (auto simp: uncommitted_def)
  ultimately show False using assms(1) unfolding latest_def by (metis add_Suc le_add1 less_Suc_eq_le)
qed

text \<open>
  Property C2. Any number of producers and the consumer, with whole allocations, commits, reads and returns of
  different threads in any order, and a producer allocating only while its cached read cursor is at most
  \<open>2 ^ 31\<close> blocks old: what the consumer has received is a prefix of the granted payloads in the order of
  their grants. A payload whose handle a thread still holds lies behind that prefix, so nothing is consumed
  before its commit. Once all handles are committed the rest of the granted payloads is in the ring.
\<close>

theorem miso_threads_fifo:
  assumes "miso_geom s" and "miso_reach (miso_init_with_memory s) \<sigma>"
  shows "(\<exists>rest. map snd (granted \<sigma>) = mconsumed \<sigma> @ rest)
    \<and> (\<forall>t h p. mpend \<sigma> t = Some (h, p) \<longrightarrow> (\<exists>before behind. granted \<sigma> = before @ (t, p) # behind
          \<and> length (mconsumed \<sigma>) \<le> length before \<and> t \<notin> fst ` set behind))
    \<and> ((\<forall>t. mpend \<sigma> t = None) \<longrightarrow> map snd (granted \<sigma>) = mconsumed \<sigma> @ miso_contents (mring \<sigma>))"
proof -
  obtain k gs dn where i: "miso_inv (mring \<sigma>) k (map to_slot gs)" "granted \<sigma> = dn @ concat (map gpay gs)"
    "\<And>t. thread_ok (mring \<sigma>) k gs t (mpend \<sigma> t)" "map snd dn = mconsumed \<sigma>" "latest gs"
    using miso_reach_inv [OF init_inv(1) [OF assms(1)] assms(2)] unfolding msys_inv_def by blast
  have g: "map snd (granted \<sigma>) = mconsumed \<sigma> @ map snd (concat (map gpay gs))" using i(2,4) by simp
  have "map snd (granted \<sigma>) = mconsumed \<sigma> @ miso_contents (mring \<sigma>)" if "\<forall>t. mpend \<sigma> t = None"
  proof -
    have "\<not> uncommitted gs t n" for t n using i(3) [of t] that by (simp add: thread_ok_def)
    from all_committed [OF this] show ?thesis using g miso_contents_inv [OF i(1)] by simp
  qed
  moreover have "\<exists>before behind. granted \<sigma> = before @ (t, p) # behind \<and> length (mconsumed \<sigma>) \<le> length before \<and> t \<notin> fst ` set behind"
    if pend: "mpend \<sigma> t = Some (h, p)" for t h p
  proof -
    obtain n where n: "n < length gs" "gs ! n = GData t p False" using i(3) [of t] pend by (auto simp: thread_ok_def)
    have "concat (map gpay gs) = concat (map gpay (take n gs)) @ (t, p) # concat (map gpay (drop (Suc n) gs))"
      using map_update_split [OF n(1), of gpay] n(2) by simp
    moreover have "t \<notin> fst ` set (concat (map gpay (drop (Suc n) gs)))" using latest_behind [OF i(5) n] .
    moreover have "length dn = length (mconsumed \<sigma>)" using i(4) by (metis length_map)
    ultimately show ?thesis using i(2)
      by (intro exI [of _ "dn @ concat (map gpay (take n gs))"] exI [of _ "concat (map gpay (drop (Suc n) gs))"]) simp
  qed
  ultimately show ?thesis using g by blast
qed

section \<open>Allocation\<close>

lemma alloc_succeeds:
  assumes inv: "miso_inv s k xs" and tls: "tls_ok s tls" and sz: "unat sz < 2 ^ 32 - 8"
    and room: "k + slots_len xs + need_blocks (unat sz) < unat (miso_count s)"
    and fit: "miso_index s (write_cursor s) + need_blocks (unat sz) \<le> unat (miso_count s)"
    and big: "need_blocks (unat sz) \<le> 0xFFFFFF"
  shows "\<exists>h tls' s'. miso_alloc_write_chunk tls s sz = Some (h, tls', s') \<and> wh_result h = success
    \<and> wh_data_addr h = Some (128 * miso_index s (write_cursor s) + 8) \<and> miso_inv s' k (xs @ [Pending (unat sz)])
    \<and> same_reader s s'"
proof -
  from alloc_result_cases [OF inv tls sz] obtain h tls' s' where al:
    "miso_alloc_write_chunk tls s sz = Some (h, tls', s')" "alloc_result s k xs (miso_need sz) sz h s' 0"
    using room fit big by fastforce
  then show ?thesis using room miso_need_nat [OF sz] miso_invD(9) [OF inv] by (auto simp: alloc_result_def)
qed

text \<open>
  \<open>alloc_write_chunk\<close> always returns. A payload that needs more blocks than the ring has is refused
  as invalid and changes nothing. A payload whose blocks fit strictly into the free space and do not
  wrap is granted the blocks at the write cursor. In the remaining cases it is refused or placed after
  skipped chunks; the ring stays well-formed in all of them.
\<close>

theorem miso_alloc_behaviour:
  assumes "miso_inv s k xs" and "tls_ok s tls" and "unat sz < 2 ^ 32 - 8"
  shows "\<exists>h tls' s'. miso_alloc_write_chunk tls s sz = Some (h, tls', s')
    \<and> (need_blocks (unat sz) > unat (miso_count s) \<longrightarrow> wh_result h = err_alloc_size_invalid \<and> s' = s)
    \<and> (k + slots_len xs + need_blocks (unat sz) < unat (miso_count s)
         \<and> miso_index s (write_cursor s) + need_blocks (unat sz) \<le> unat (miso_count s)
         \<and> need_blocks (unat sz) \<le> 0xFFFFFF
       \<longrightarrow> wh_result h = success \<and> wh_data_addr h = Some (128 * miso_index s (write_cursor s) + 8)
         \<and> miso_inv s' k (xs @ [Pending (unat sz)]))
    \<and> (\<exists>j. miso_inv s' k (xs @ replicate j (Skip (need_blocks (unat sz))) @
         (if wh_result h = success then [Pending (unat sz)] else [])))"
proof -
  note n = miso_need_nat [OF assms(3)]
  obtain h tls' s' where al: "miso_alloc_write_chunk tls s sz = Some (h, tls', s')"
    "need_blocks (unat sz) > unat (miso_count s) \<and> wh_result h = err_alloc_size_invalid \<and> s' = s
       \<or> need_blocks (unat sz) > 0xFFFFFF \<and> wh_result h = err_alloc_size_invalid \<and> s' = s
       \<or> need_blocks (unat sz) \<le> unat (miso_count s) \<and> (\<exists>j. alloc_result s k xs (miso_need sz) sz h s' j)"
    using alloc_result_cases [OF assms] by blast
  have err: "miso_full_result s d \<noteq> success" for d by (simp add: miso_full_result_def)
  have "\<exists>j. miso_inv s' k (xs @ replicate j (Skip (need_blocks (unat sz))) @
         (if wh_result h = success then [Pending (unat sz)] else []))"
  proof (cases "wh_result h = err_alloc_size_invalid \<and> s' = s")
    case True
    then show ?thesis using assms(1) by (intro exI [of _ 0]) simp
  next
    case False
    then obtain j where "alloc_result s k xs (miso_need sz) sz h s' j" using al(2) by blast
    then show ?thesis using err err [symmetric] n by (intro exI [of _ j]) (auto simp: alloc_result_def)
  qed
  moreover have "need_blocks (unat sz) > unat (miso_count s) \<longrightarrow> wh_result h = err_alloc_size_invalid \<and> s' = s"
    using al(2) by linarith
  ultimately show ?thesis using al(1) alloc_succeeds [OF assms] by fastforce
qed

theorem miso_alloc_behaviour_witness:
  "\<exists>h tls' s'. miso_alloc_write_chunk None (idle_ring 0) 3 = Some (h, tls', s') \<and> wh_result h = success
    \<and> wh_data_addr h = Some 8 \<and> miso_inv s' 0 [Pending 3]"
proof -
  have "tls_ok (idle_ring 0) None" by (simp add: tls_ok_def)
  from miso_alloc_behaviour [OF idle_inv this, of 3] show ?thesis
    by (auto simp: need_blocks_def idle_ring_def miso_index_def)
qed

definition demo_start :: miso_sys where
  "demo_start = miso_start (miso_init_with_memory (idle_ring 0))"

text \<open>A run: a thread reserves a chunk for \<open>[1, 2, 3]\<close> and commits it.\<close>

lemma demo_run:
  "\<exists>\<sigma>. miso_reach (miso_init_with_memory (idle_ring 0)) \<sigma> \<and> granted \<sigma> = [(7, [1, 2, 3])] \<and> (\<forall>t. mpend \<sigma> t = None)
    \<and> mconsumed \<sigma> = []"
  "\<exists>\<sigma> h. miso_reach (miso_init_with_memory (idle_ring 0)) \<sigma> \<and> granted \<sigma> = [(7, [1, 2, 3])] \<and> mpend \<sigma> 7 = Some (h, [1, 2, 3])"
proof -
  let ?s = "miso_init_with_memory (idle_ring 0)"
  have i: "miso_inv ?s 0 []" by (rule init_inv(1) [OF idle_geom])
  have c: "unat (miso_count ?s) = 16" "write_cursor ?s = 0" by (simp_all add: miso_init_with_memory_def idle_ring_def)
  have "tls_ok ?s (mtls demo_start 7)" by (simp add: demo_start_def miso_start_def tls_ok_def)
  from alloc_succeeds [OF i this, of 3] obtain h tls r where
    al: "miso_alloc_write_chunk (mtls demo_start 7) ?s 3 = Some (h, tls, r)" "wh_result h = success"
    by (auto simp: need_blocks_def c miso_index_def)
  let ?\<tau> = "demo_start\<lparr>mring := r, mtls := (mtls demo_start)(7 := tls),
      mpend := (mpend demo_start)(7 := Some (h, [1, 2, 3])), granted := [(7, [1, 2, 3])]\<rparr>"
  have st: "miso_step demo_start ?\<tau>"
    using miso_step.w_alloc [of demo_start 7 "[1, 2, 3]" h tls r] al
    by (simp add: demo_start_def miso_start_def tls_ok_def)
  have "miso_reach ?s ?\<tau>" using st unfolding demo_start_def by (meson miso_reach.intros)
  then show "\<exists>\<sigma> h. miso_reach ?s \<sigma> \<and> granted \<sigma> = [(7, [1, 2, 3])] \<and> mpend \<sigma> 7 = Some (h, [1, 2, 3])"
    by (intro exI [of _ ?\<tau>] exI [of _ h]) simp
  note st
  moreover have "miso_step ?\<tau> (?\<tau>\<lparr>mring := miso_commit_write_chunk (miso_fill (mring ?\<tau>) h [1, 2, 3]) h,
      mpend := (mpend ?\<tau>)(7 := None)\<rparr>)"
    by (rule miso_step.w_commit) simp
  moreover have "miso_reach ?s demo_start" unfolding demo_start_def by (rule miso_reach.start)
  ultimately have "miso_reach ?s (?\<tau>\<lparr>mring := miso_commit_write_chunk (miso_fill (mring ?\<tau>) h [1, 2, 3]) h,
      mpend := (mpend ?\<tau>)(7 := None)\<rparr>)" by (meson miso_reach.step)
  then show "\<exists>\<sigma>. miso_reach ?s \<sigma> \<and> granted \<sigma> = [(7, [1, 2, 3])] \<and> (\<forall>t. mpend \<sigma> t = None) \<and> mconsumed \<sigma> = []"
    by (rule exI [where x = "?\<tau>\<lparr>mring := miso_commit_write_chunk (miso_fill (mring ?\<tau>) h [1, 2, 3]) h,
      mpend := (mpend ?\<tau>)(7 := None)\<rparr>", OF conjI]) (simp add: demo_start_def miso_start_def)
qed

theorem miso_threads_fifo_witness:
  "(\<exists>\<sigma>. miso_reach (miso_init_with_memory (idle_ring 0)) \<sigma> \<and> granted \<sigma> = [(7, [1, 2, 3])]
      \<and> miso_contents (mring \<sigma>) = [[1, 2, 3]])
    \<and> (\<exists>\<sigma> h. miso_reach (miso_init_with_memory (idle_ring 0)) \<sigma> \<and> mpend \<sigma> 7 = Some (h, [1, 2, 3]) \<and> mconsumed \<sigma> = [])"
proof -
  obtain \<sigma> where s: "miso_reach (miso_init_with_memory (idle_ring 0)) \<sigma>" "granted \<sigma> = [(7, [1, 2, 3])]"
    "\<forall>t. mpend \<sigma> t = None" "mconsumed \<sigma> = []" using demo_run(1) by blast
  obtain \<tau> h where t: "miso_reach (miso_init_with_memory (idle_ring 0)) \<tau>" "granted \<tau> = [(7, [1, 2, 3])]" "mpend \<tau> 7 = Some (h, [1, 2, 3])"
    using demo_run(2) by blast
  have "\<exists>before behind. granted \<tau> = before @ (7, [1, 2, 3]) # behind \<and> length (mconsumed \<tau>) \<le> length before"
    using miso_threads_fifo [OF idle_geom t(1)] t(3) by blast
  then have "mconsumed \<tau> = []" using t(2) by (auto simp: Cons_eq_append_conv)
  then show ?thesis using miso_threads_fifo [OF idle_geom s(1)] s t by auto
qed

section \<open>The queue\<close>

text \<open>
  Property C13. A producer and the consumer see a FIFO queue: in every sequence of pushes and pops the
  payloads delivered, followed by those still in the ring, are the initial contents followed by the
  accepted payloads.
\<close>

theorem miso_queue_fifo:
  assumes "miso_invar c" and "queue_run_st miso_push miso_pop ops c = (accepted, delivered, c')"
  shows "miso_invar c' \<and> miso_queue_contents c @ accepted = delivered @ miso_queue_contents c'"
  by (rule miso_queue.run_st_fifo [OF assms])

lemma idle_invar: "miso_invar (idle_ring 0, None)"
  by (rule miso_invarI [OF idle_inv]) (simp_all add: tls_tight_def)

theorem miso_queue_fifo_witness:
  "miso_invar (idle_ring 0, None)
   \<and> (case queue_run_st miso_push miso_pop [Push [1, 2, 3], Push [4], Pop] (idle_ring 0, None) of
        (accepted, delivered, c') \<Rightarrow>
          miso_queue_contents (idle_ring 0, None) @ accepted = delivered @ miso_queue_contents c')"
proof -
  obtain a d c' where run: "queue_run_st miso_push miso_pop [Push [1, 2, 3], Push [4], Pop] (idle_ring 0, None) = (a, d, c')"
    by (metis prod_cases3)
  show ?thesis using miso_queue_fifo [OF idle_invar run] idle_invar by (simp only: run prod.case)
qed

text \<open>
  Popping as often as there are payloads, or more often, delivers all of them and leaves the ring empty.
\<close>

theorem miso_queue_drains:
  assumes "miso_invar c" and "length (miso_queue_contents c) \<le> n"
  shows "\<exists>c'. queue_run_st miso_push miso_pop (replicate n Pop) c = ([], miso_queue_contents c, c')
    \<and> miso_queue_contents c' = []"
  using miso_queue.run_st_drain [OF assms] by blast

lemma idle_contents: "miso_queue_contents (idle_ring 0, None) = []"
  using miso_contents_inv [OF idle_inv] by (simp add: miso_queue_contents_def)

theorem miso_queue_drains_witness:
  "\<exists>c'. queue_run_st miso_push miso_pop (replicate 2 Pop) (idle_ring 0, None)
      = ([], miso_queue_contents (idle_ring 0, None), c') \<and> miso_queue_contents c' = []"
  by (rule miso_queue_drains [OF idle_invar]) (simp add: idle_contents)

section \<open>Recovery\<close>

lemma check_sum_size [simp]:
  "calculate_check_sum (config\<lparr>default_buffer_size := x\<rparr>) = calculate_check_sum config"
  by (simp add: calculate_check_sum_def)

lemma recover_from_ring:
  assumes inv: "miso_inv s k xs" and cnt: "miso_count s = blocks_for config"
    and sum: "log_checksum (miso_head s) = calculate_check_sum config"
    and rec: "recoverable (unat (miso_count s)) (unat (read_cursor s) + k) (committed_prefix xs)"
  shows "\<exists>s'. miso_ring_buffer_new use_existed (miso_head s) (miso_blocks s) config = Some s'
    \<and> miso_inv s' 0 (committed_prefix xs) \<and> miso_contents s' = slots_data (committed_prefix xs)
    \<and> miso_state s' = recover_from_memory_map"
proof -
  note d = miso_invD [OF inv]
  let ?s = "\<lparr>miso_config = config\<lparr>default_buffer_size := max (16 * 128) (round_pow_of_two (default_buffer_size config))\<rparr>,
         miso_state = memory_map_buffer_state.init_with_memory, write_cursor = 0, read_cursor = 0,
         miso_head = miso_head s, miso_blocks = miso_blocks s, miso_count = blocks_for config\<rparr>"
  have g: "miso_geom ?s" using d(1) cnt by (simp add: miso_geom_def)
  have "\<exists>s'. miso_try_recover ?s = Some (True, s') \<and> miso_inv s' 0 (committed_prefix xs)
    \<and> miso_state s' = recover_from_memory_map"
    using try_recover_slots [OF g, of "unat (read_cursor s) + k" xs] d(5,6,8) d(7) [of "k + slots_len xs"] rec sum cnt
      miso_index_mod [OF d(1)] by (simp add: add.assoc)
  then obtain s' where s': "miso_try_recover ?s = Some (True, s')" "miso_inv s' 0 (committed_prefix xs)"
    "miso_state s' = recover_from_memory_map" by blast
  have "list_all (\<lambda>x. \<not> is_pending x) (committed_prefix xs)"
    by (auto simp: committed_prefix_def list_all_iff dest: set_takeWhileD)
  with s' miso_contents_inv [OF s'(2)] show ?thesis unfolding constructor_unfold Let_def by simp
qed

text \<open>
  Property C36. Crash recovery: if the process dies at any point, constructing a ring from the mapped memory
  restores the committed payloads up to the first chunk that was reserved but not committed. This
  holds for rings without empty payloads and whose skipped chunks satisfy the bound the code checks.
\<close>

theorem miso_recovery_restores:
  assumes "miso_inv s k xs" and "miso_count s = blocks_for config"
    and "log_checksum (miso_head s) = calculate_check_sum config"
    and "recoverable (unat (miso_count s)) (unat (read_cursor s) + k) (committed_prefix xs)"
  shows "\<exists>s'. miso_ring_buffer_new use_existed (miso_head s) (miso_blocks s) config = Some s'
    \<and> miso_inv s' 0 (committed_prefix xs) \<and> miso_contents s' = slots_data (committed_prefix xs)
    \<and> miso_state s' = recover_from_memory_map"
  by (rule recover_from_ring [OF assms])

text \<open>A ring at cursor \<open>r\<close> with one committed payload.\<close>

lemma push_idle:
  assumes inv: "miso_inv s k xs" and p: "length p < 2 ^ 32 - 8" "need_blocks (length p) \<le> 0xFFFFFF"
    and room: "k + slots_len xs + need_blocks (length p) < unat (miso_count s)"
    and fit: "miso_index s (write_cursor s) + need_blocks (length p) \<le> unat (miso_count s)"
  shows "\<exists>s'. miso_inv s' k (xs @ [Data p]) \<and> same_reader s s'"
proof -
  have u: "unat (of_nat (length p) :: u32) = length p" using p by (simp add: unat_of_nat)
  from alloc_succeeds [OF inv, of None "of_nat (length p)"] u p room fit obtain h :: log_buffer_write_handle and s1 where al:
    "wh_result h = success" "wh_data_addr h = Some (128 * miso_index s (write_cursor s) + 8)"
    "miso_inv s1 k (xs @ [Pending (length p)])" "same_reader s s1" by (auto simp: tls_ok_def)
  have "miso_inv (miso_commit_write_chunk (miso_fill s1 h p) h) k (xs @ Data p # [])"
    using al miso_invD(9) [OF inv] by (intro miso_commit_inv) (auto simp: same_reader_def)
  moreover have "same_reader s (miso_commit_write_chunk (miso_fill s1 h p) h)"
    using al(4) by (simp add: same_reader_def miso_commit_write_chunk_def miso_fill_def split: option.splits)
  ultimately show ?thesis by auto
qed

lemma idle_facts:
  "miso_count (idle_ring r) = 16" "miso_count (idle_ring r) = blocks_for demo_config"
  "log_checksum (miso_head (idle_ring r)) = calculate_check_sum demo_config"
  "read_cursor (idle_ring r) = r" "write_cursor (idle_ring r) = r"
  by (simp_all add: idle_ring_def demo_blocks)

theorem miso_recovery_restores_witness:
  "\<exists>s s'. miso_inv s 0 [Data [1, 2, 3]]
    \<and> miso_ring_buffer_new use_existed (miso_head s) (miso_blocks s) demo_config = Some s'
    \<and> miso_contents s' = [[1, 2, 3]]"
proof -
  obtain s where s: "miso_inv s 0 ([] @ [Data [1, 2, 3]])" "same_reader (idle_ring 0) s"
    using push_idle [OF idle_inv, of "[1, 2, 3]" 0] by (auto simp: need_blocks_def idle_facts miso_index_def)
  have c: "miso_count s = blocks_for demo_config" "log_checksum (miso_head s) = calculate_check_sum demo_config"
    using s(2) idle_facts(2,3) [of 0] by (simp_all add: same_reader_def)
  have r: "recoverable (unat (miso_count s)) (unat (read_cursor s) + 0) (committed_prefix ([] @ [Data [1, 2, 3]]))"
    by (simp add: committed_prefix_def)
  from miso_recovery_restores [OF s(1) c r] s(1) show ?thesis by (auto simp: committed_prefix_def)
qed

section \<open>Where recovery and allocation fall short\<close>

lemma recover_rejects_skip:
  assumes g: "miso_geom s" and x: "slot_at (miso_blocks s) (mcnt s) (c mod mcnt s) (Skip j)"
    and cur: "unat cur mod mcnt s = c mod mcnt s" and bad: "(c + j) mod mcnt s + j > mcnt s"
  shows "miso_recover_loop s start cur = Some None"
proof -
  have b: "miso_index s cur = c mod mcnt s" using cur by (simp add: miso_index_mod [OF g])
  have j: "unat (get_block_num (miso_blocks s) (c mod mcnt s)) = j" using x by simp
  have jl: "j < 2 ^ 24" unfolding j [symmetric] get_block_num_def
    using word_and_le1 [of "load_u32 (miso_blocks s) (128 * (c mod mcnt s))" "0xFFFFFF :: u32"]
    by (simp add: word_le_nat_alt and.commute)
  let ?w = "cur + get_block_num (miso_blocks s) (c mod mcnt s)"
  have "get_block_num (miso_blocks s) (c mod mcnt s) = of_nat j" unfolding j [symmetric] by simp
  then have "unat (?w AND (miso_count s - 1)) = (c + j) mod mcnt s"
    using miso_index_add [OF g, of j cur] jl mod_add_cong [OF cur refl, of j]
    by (simp add: miso_index_mod [OF g] miso_index_def [symmetric])
  moreover have "(c + j) mod mcnt s < 2 ^ 24" using miso_geomD(1,3) [OF g] mod_less_divisor less_le_trans by blast
  ultimately have "unat ((?w AND (miso_count s - 1)) + get_block_num (miso_blocks s) (c mod mcnt s)) = (c + j) mod mcnt s + j"
    using j jl by (subst unat_add_lem [THEN iffD1]) simp_all
  then have "(?w AND (miso_count s - 1)) + get_block_num (miso_blocks s) (c mod mcnt s) > miso_count s"
    using bad by (simp add: word_less_nat_alt)
  then show ?thesis using x
    by (subst miso_recover_loop.simps) (simp add: Let_def b status_used_def status_invalid_def)
qed

text \<open>
  Property C37. The bound for a skipped chunk is evaluated after the cursor has moved past the chunk, so
  recovery rejects rings that the producers do write: if the oldest unread slot is a skipped chunk of
  \<open>j\<close> blocks and the \<open>j\<close> blocks after it would wrap, then every committed payload is lost.
\<close>

theorem miso_recovery_rejects_valid_ring:
  assumes inv: "miso_inv s k (Skip j # xs)" and cnt: "miso_count s = blocks_for config"
    and sum: "log_checksum (miso_head s) = calculate_check_sum config"
    and bad: "(unat (read_cursor s) + k + j) mod unat (miso_count s) + j > unat (miso_count s)"
  shows "\<exists>s'. miso_ring_buffer_new use_existed (miso_head s) (miso_blocks s) config = Some s'
    \<and> miso_inv s' 0 [] \<and> miso_contents s' = []"
proof -
  note d = miso_invD [OF inv]
  let ?r = "read_cursor_cache (miso_head s) AND (miso_count s - 1)"
  let ?s = "\<lparr>miso_config = config\<lparr>default_buffer_size := max (16 * 128) (round_pow_of_two (default_buffer_size config))\<rparr>,
         miso_state = memory_map_buffer_state.init_with_memory, write_cursor = 0, read_cursor = 0,
         miso_head = (miso_head s)\<lparr>read_cursor_cache := ?r, read_cursor_start_cache := ?r\<rparr>,
         miso_blocks = miso_blocks s, miso_count = blocks_for config\<rparr>"
  have g: "miso_geom ?s" using d(1) cnt by (simp add: miso_geom_def)
  have r: "unat ?r = (unat (read_cursor s) + k) mod unat (miso_count s)" using d(8) by (simp add: miso_index_def)
  have "miso_recover_loop ?s ?r ?r = Some None"
    using d(6) bad r cnt by (intro recover_rejects_skip [OF g, of "unat (read_cursor s) + k" j]) simp_all
  then have "miso_ring_buffer_new use_existed (miso_head s) (miso_blocks s) config
      = Some (miso_init_with_memory_map ?s)"
    using sum cnt unfolding constructor_unfold Let_def miso_try_recover_def by (simp add: calculate_check_sum_def)
  with init_inv(2) [OF g] miso_contents_inv [OF init_inv(2) [OF g]] show ?thesis by simp
qed

text \<open>Such a ring: at block 14 of 16 a request for ten blocks skips to the next lap and then fails for
  lack of space; a small payload is committed after it.\<close>

lemma ring_with_skip:
  "\<exists>h tls s1 s. miso_alloc_write_chunk None (idle_ring 14) 1270 = Some (h, tls, s1)
    \<and> wh_result h = err_alloc_size_invalid
    \<and> miso_inv s1 0 [Skip 10] \<and> miso_inv s 0 ([Skip 10] @ [Data [1, 2, 3]]) \<and> same_reader (idle_ring 14) s"
proof -
  let ?i = "idle_ring 14"
  let ?s1 = "?i\<lparr>write_cursor := 24, miso_blocks := set_status 14 status_invalid (set_block_num 14 10 (miso_blocks ?i))\<rparr>"
  have ix: "miso_index ?i 14 = 14" by (simp add: miso_index_def idle_facts)
  have i1: "miso_inv ?s1 0 [Skip 10]"
    using skip_inv [OF idle_inv [of 14], of 10] by (simp add: idle_facts ix)
  have "miso_alloc_write_chunk None ?i 1270
    = Some (empty_write_handle\<lparr>wh_result := err_alloc_size_invalid\<rparr>, None, ?s1)"
    unfolding miso_alloc_write_chunk_def
    apply (simp add: miso_need_def Let_def idle_facts)
    apply (subst miso_alloc_loop.simps)
    apply (simp add: Let_def idle_facts miso_reserve_def ix)
    apply (subst miso_alloc_loop.simps)
    apply (simp add: Let_def idle_facts miso_reserve_def miso_index_def)
    apply (subst miso_reserve_wait.simps)
    apply (simp add: Let_def idle_facts miso_full_result_def)
    done
  moreover obtain s where s: "miso_inv s 0 ([Skip 10] @ [Data [1, 2, 3]])" "same_reader ?s1 s"
    using push_idle [OF i1, of "[1, 2, 3]"] by (auto simp: need_blocks_def idle_facts miso_index_def)
  moreover have "same_reader ?i s" using s(2) by (simp add: same_reader_def)
  ultimately show ?thesis using i1 by auto
qed

theorem miso_recovery_rejects_valid_ring_witness:
  "\<exists>s s'. miso_inv s 0 [Skip 10, Data [1, 2, 3]] \<and> miso_contents s = [[1, 2, 3]]
    \<and> miso_ring_buffer_new use_existed (miso_head s) (miso_blocks s) demo_config = Some s'
    \<and> miso_contents s' = []"
proof -
  obtain s where s: "miso_inv s 0 [Skip 10, Data [1, 2, 3]]" "same_reader (idle_ring 14) s"
    using ring_with_skip by auto
  have c: "miso_count s = blocks_for demo_config" "log_checksum (miso_head s) = calculate_check_sum demo_config"
    using s(2) idle_facts(2,3) [of 14] by (simp_all add: same_reader_def)
  have "(unat (read_cursor s) + 0 + 10) mod unat (miso_count s) + 10 > unat (miso_count s)"
    using s(2) by (simp add: same_reader_def idle_facts)
  from miso_recovery_rejects_valid_ring [OF s(1) c this] miso_contents_inv [OF s(1)] s(1)
  show ?thesis by auto
qed

lemma wrapped_need:
  assumes "unat sz > 2 ^ 32 - 8"
  shows "miso_need sz = 1"
proof -
  have "unat (sz + 8) = unat sz + 8 - 2 ^ 32"
    using assms u32_less [of sz] unat_plus_if' [of sz 8] by (auto split: if_splits)
  then have "unat ((ucast (sz + 8) :: u64) + 127) = unat sz + 8 - 2 ^ 32 + 127"
    using assms u32_less [of sz] by (subst unat_add_lem [THEN iffD1]) simp_all
  then have "unat (drop_bit 7 ((ucast (sz + 8) :: u64) + 127)) = 1"
    using assms u32_less [of sz] by (simp only: drop_bit_eq_div unat_div) simp
  then have "drop_bit 7 ((ucast (sz + 8) :: u64) + 127) = 1" by (metis unat_1 word_unat_eq_iff)
  then show ?thesis by (simp add: miso_need_def)
qed

text \<open>
  Property C38. The size computation wraps at 32 bits: a request of more than \<open>2\<^sup>3\<^sup>2 - 8\<close> bytes on a ring
  with room for one block and one to spare is granted with success, and the chunk it grants is the one
  block of 128 bytes (its header's block count is 1, the write cursor moves by 1).
\<close>

theorem miso_alloc_size_wraps:
  assumes inv: "miso_inv s k xs" and tls: "tls_ok s tls" and sz: "unat sz > 2 ^ 32 - 8"
    and room: "k + slots_len xs + 1 < unat (miso_count s)"
  shows "\<exists>h tls' s'. miso_alloc_write_chunk tls s sz = Some (h, tls', s') \<and> wh_result h = success
    \<and> write_cursor s' = write_cursor s + 1
    \<and> wh_data_addr h = Some (128 * miso_index s (write_cursor s) + 8)"
proof -
  let ?r = "case tls of Some t \<Rightarrow> if is_new_created t then read_cursor s else wt_read_cursor_cache t
              | None \<Rightarrow> read_cursor s"
  have p: "past_cursor s ?r" using tls past_cursor_self by (auto simp: tls_ok_def split: option.splits)
  have g: "16 \<le> mcnt s" using miso_geomD(2) miso_invD(1) [OF inv] by blast
  have fit: "miso_index s (write_cursor s) + unat (1 :: u32) \<le> mcnt s"
    using g by (simp add: miso_index_mod [OF miso_invD(1) [OF inv]] Suc_leI)
  have "\<not> (miso_need sz > miso_count s \<or> miso_need sz = 0 \<or> miso_need sz > 0xFFFFFF)"
    using g wrapped_need [OF sz] by (simp add: word_less_nat_alt)
  moreover obtain low r' s' where "miso_alloc_loop sz 1 (write_cursor s - ?r) (write_cursor s) ?r s
      = Some (\<lparr>wh_data_addr = Some (128 * miso_index s (write_cursor s) + 8), wh_result = success, low_space_flag = low\<rparr>, r', s')"
    "write_cursor s' = write_cursor s + 1"
    using alloc_loop_room(2) [OF inv p _ _ _ fit, where sz = sz and cur = "write_cursor s" and used = "write_cursor s - ?r"]
      room g by auto
  ultimately show ?thesis unfolding miso_alloc_write_chunk_def Let_def wrapped_need [OF sz] by simp
qed

theorem miso_alloc_size_wraps_witness:
  "\<exists>h tls' s'. miso_alloc_write_chunk None (idle_ring 0) 0xFFFFFFFF = Some (h, tls', s') \<and> wh_result h = success
    \<and> write_cursor s' = 1 \<and> wh_data_addr h = Some 8"
proof -
  have "tls_ok (idle_ring 0) None" by (simp add: tls_ok_def)
  from miso_alloc_size_wraps [OF idle_inv this] show ?thesis
    by (auto simp: idle_facts miso_index_def)
qed

lemma recover_loop_stuck:
  assumes "miso_recover_loop s start cur = Some y"
  shows "\<not> (cur = start \<and> miso_count s \<noteq> 0 \<and> get_status (miso_blocks s) (miso_index s cur) = status_invalid
    \<and> get_block_num (miso_blocks s) (miso_index s cur) = 0)"
  using assms
proof (induction rule: miso_recover_loop.raw_induct [rotated, consumes 1])
  case (1 f s start cur y)
  show ?case
  proof
    assume a: "cur = start \<and> miso_count s \<noteq> 0 \<and> get_status (miso_blocks s) (miso_index s cur) = status_invalid
      \<and> get_block_num (miso_blocks s) (miso_index s cur) = 0"
    have "cur AND (miso_count s - 1) \<le> miso_count s - 1" by (rule word_and_le1)
    then have "\<not> cur AND (miso_count s - 1) > miso_count s"
      using a by (simp add: word_le_nat_alt word_less_nat_alt unat_minus_one)
    moreover have "start = cur" "get_status (miso_blocks s) (miso_index s cur) = status_invalid"
      "get_block_num (miso_blocks s) (miso_index s cur) = 0" "status_invalid \<noteq> status_used" "0 \<noteq> miso_count s"
      "\<not> miso_count s < 0" using a by (auto simp: status_used_def status_invalid_def)
    ultimately have "f s start cur = Some y" using 1(2) by (simp add: Let_def)
    from 1(1) [OF this] a show False by blast
  qed
qed

text \<open>
  Recovery does not return on a mapped file whose checksum matches and whose first block is marked
  \<open>invalid\<close> with a block count of 0: the parsing loop does not advance and has no exit.
\<close>

theorem miso_recovery_hangs:
  assumes "log_checksum h = calculate_check_sum config"
    and "get_status blocks (unat (read_cursor_cache h AND (blocks_for config - 1))) = status_invalid"
    and "get_block_num blocks (unat (read_cursor_cache h AND (blocks_for config - 1))) = 0"
  shows "miso_ring_buffer_new use_existed h blocks config = None"
proof -
  let ?r = "read_cursor_cache h AND (blocks_for config - 1)"
  let ?s = "\<lparr>miso_config = config\<lparr>default_buffer_size := max (16 * 128) (round_pow_of_two (default_buffer_size config))\<rparr>,
         miso_state = memory_map_buffer_state.init_with_memory, write_cursor = 0, read_cursor = 0,
         miso_head = h\<lparr>read_cursor_cache := ?r, read_cursor_start_cache := ?r\<rparr>,
         miso_blocks = blocks, miso_count = blocks_for config\<rparr>"
  have n: "blocks_for config \<noteq> 0" using blocks_for_pow2 [of config] by auto
  have i: "miso_index ?s ?r = unat ?r" by (simp add: miso_index_def and.assoc)
  have "miso_recover_loop ?s ?r ?r = None"
    using recover_loop_stuck [of ?s ?r ?r] assms(2,3) n unfolding i by (cases "miso_recover_loop ?s ?r ?r") auto
  then show ?thesis using assms(1) unfolding constructor_unfold Let_def miso_try_recover_def
    by (simp add: calculate_check_sum_def)
qed

theorem miso_recovery_hangs_witness:
  "miso_ring_buffer_new use_existed (miso_head (idle_ring 0)) ((replicate 2048 0)[3 := 2]) demo_config = None"
proof (rule miso_recovery_hangs)
  let ?m = "(replicate 2048 0)[3 := 2] :: bytes"
  have "mem_read ?m 0 4 = [0, 0, 0, 2]" by (simp add: mem_read_def numeral_eq_Suc)
  then have "get_block_num ?m 0 = 0" by (simp add: get_block_num_def load_u32_def)
  then show "get_block_num ?m (unat (read_cursor_cache (miso_head (idle_ring 0)) AND (blocks_for demo_config - 1))) = 0"
    by (simp add: idle_ring_def)
qed (simp_all add: idle_ring_def get_status_def status_invalid_def)

end
