(* ===== verification/Qlog_Utf.thy ===== *)
theory Qlog_Utf
  imports Qlog_Hash
begin

text \<open>
  UTF-16 and UTF-8 conversion (\<open>src/src/utility/utf_conversion.cpp\<close>) and the mixed encoding of
  \<open>utf_mixed.cpp\<close>: an ASCII prefix, the mark \<open>0xFF\<close>, and the rest as UTF-16 code units. The destination is the
  bytes written; \<open>None\<close> is a failed assertion, a read behind the input or, where the size of the destination is known,
  a write behind it.
\<close>

unbundle bit_operations_syntax

section \<open>UTF-16 to UTF-8\<close>

function utf16_to_utf8_sw :: "u16 list \<Rightarrow> bytes" where
  "utf16_to_utf8_sw [] = []"
| "utf16_to_utf8_sw (x # src) =
     (let c = ucast x :: u32
      in if c < 0x80 then
           ucast c # map ucast (takeWhile (\<lambda>y. y < 0x80) src) @ utf16_to_utf8_sw (dropWhile (\<lambda>y. y < 0x80) src)
         else if c < 0x800 then
           ucast (0xC0 OR drop_bit 6 c) # ucast (0x80 OR (c AND 0x3F)) # utf16_to_utf8_sw src
         else if c \<ge> 0xD800 \<and> c \<le> 0xDFFF then
           (if c \<ge> 0xDC00 then utf16_to_utf8_sw src
            else case src of
              [] \<Rightarrow> []
            | y # src' \<Rightarrow>
                (let c2 = ucast y :: u32
                 in if c2 \<ge> 0xDC00 \<and> c2 \<le> 0xDFFF then
                      (let c = (push_bit 10 (c AND 0x3FF) OR (c2 AND 0x3FF)) + 0x10000
                       in ucast (0xF0 OR drop_bit 18 c) # ucast (0x80 OR (drop_bit 12 c AND 0x3F))
                          # ucast (0x80 OR (drop_bit 6 c AND 0x3F)) # ucast (0x80 OR (c AND 0x3F))
                          # utf16_to_utf8_sw src')
                    else utf16_to_utf8_sw src))
         else
           ucast (0xE0 OR drop_bit 12 c) # ucast (0x80 OR (drop_bit 6 c AND 0x3F)) # ucast (0x80 OR (c AND 0x3F))
           # utf16_to_utf8_sw src)"
  by pat_completeness auto
termination
  by (relation "measure length") (auto simp: less_Suc_eq_le length_dropWhile_le)

declare utf16_to_utf8_sw.simps(2) [simp del]

section \<open>UTF-8 to UTF-16\<close>

text \<open>A lead byte with too few bytes behind it reads outside the source.\<close>

function utf8_to_utf16_sw :: "bytes \<Rightarrow> u16 list option" where
  "utf8_to_utf16_sw [] = Some []"
| "utf8_to_utf16_sw (c # s) =
     (if c < 0x80 then
        map_option (\<lambda>r. ucast c # map ucast (takeWhile (\<lambda>y. y < 0x80) s) @ r)
          (utf8_to_utf16_sw (dropWhile (\<lambda>y. y < 0x80) s))
      else if c AND 0xE0 = 0xC0 then
        (case s of
           a # s' \<Rightarrow> map_option (\<lambda>r. (push_bit 6 (ucast (c AND 0x1F)) OR ucast (a AND 0x3F)) # r) (utf8_to_utf16_sw s')
         | [] \<Rightarrow> None)
      else if c AND 0xF0 = 0xE0 then
        (case s of
           a # b # s' \<Rightarrow>
             map_option (\<lambda>r. (push_bit 12 (ucast (c AND 0x0F)) OR push_bit 6 (ucast (a AND 0x3F)) OR ucast (b AND 0x3F)) # r)
               (utf8_to_utf16_sw s')
         | _ \<Rightarrow> None)
      else
        (case s of
           a # b # d # s' \<Rightarrow>
             (let cp = (push_bit 18 (ucast (c AND 0x07)) OR push_bit 12 (ucast (a AND 0x3F))
                        OR push_bit 6 (ucast (b AND 0x3F)) OR ucast (d AND 0x3F)) - 0x10000 :: u32
              in map_option (\<lambda>r. ucast (drop_bit 10 cp + 0xD800) # ucast ((cp AND 0x3FF) + 0xDC00) # r)
                   (utf8_to_utf16_sw s'))
         | _ \<Rightarrow> None))"
  by pat_completeness auto
termination
  by (relation "measure length") (auto simp: less_Suc_eq_le length_dropWhile_le)

declare utf8_to_utf16_sw.simps(2) [simp del]

section \<open>The mixed encoding\<close>

text \<open>The bytes of code units in memory, and code units read from bytes; an odd last byte is dropped.\<close>

definition utf16_bytes :: "u16 list \<Rightarrow> bytes" where
  "utf16_bytes cs = concat (map (le_bytes 2) cs)"

fun utf16_units :: "bytes \<Rightarrow> u16 list" where
  "utf16_units (a # b # bs) = le_word [a, b] # utf16_units bs"
| "utf16_units _ = []"

text \<open>\<open>room\<close> is the size of the destination. The converter called by \<open>utf_mixed_to_utf8\<close> does not look at the space it is
  given.\<close>

definition utf16_to_utf_mixed :: "u16 list \<Rightarrow> nat \<Rightarrow> bytes option" where
  "utf16_to_utf_mixed src room =
     (let ascii = takeWhile (\<lambda>c. c \<le> 0x7F) src;
          written = length ascii
      in if written \<ge> room then None
         else if written = length src then Some (map ucast ascii)
         else
           let left_chars = length src - written;
               left_space = room - (written + 1)
           in if left_space < left_chars * 2 then None
              else Some (map ucast ascii @ [0xFF] @ utf16_bytes (drop written src)))"

definition utf_mixed_to_utf8 :: "bytes \<Rightarrow> nat \<Rightarrow> bytes option" where
  "utf_mixed_to_utf8 src room =
     (if 0xFF \<notin> set src then if length src > room then None else Some src
      else
        let utf8_len = length (takeWhile (\<lambda>b. b \<noteq> 0xFF) src)
        in if utf8_len > room then None
           else
             let left_space = room - utf8_len;
                 converted = utf16_to_utf8_sw (utf16_units (drop (utf8_len + 1) src))
             in if length converted > left_space then None else Some (take utf8_len src @ converted))"

definition hash_utf_mixed_as_utf16 :: "crc_ops option \<Rightarrow> bytes \<Rightarrow> u64" where
  "hash_utf_mixed_as_utf16 hw mixed =
     (let split = (0xFF \<in> set mixed);
          ascii_len = (if split then length (takeWhile (\<lambda>b. b \<noteq> 0xFF) mixed) else length mixed);
          suffix = (if split then drop (ascii_len + 1) mixed else [])
      in get_hash_64 hw (utf16_bytes (map ucast (take ascii_len mixed)) @ suffix))"

section \<open>Conversion and back\<close>

text \<open>Every high surrogate is followed by a low one, and no low one stands alone.\<close>

fun well_formed_utf16 :: "u16 list \<Rightarrow> bool" where
  "well_formed_utf16 [] \<longleftrightarrow> True"
| "well_formed_utf16 (x # src) \<longleftrightarrow>
     (if 0xD800 \<le> x \<and> x \<le> 0xDBFF
      then (case src of y # src' \<Rightarrow> 0xDC00 \<le> y \<and> y \<le> 0xDFFF \<and> well_formed_utf16 src' | [] \<Rightarrow> False)
      else \<not> (0xDC00 \<le> x \<and> x \<le> 0xDFFF) \<and> well_formed_utf16 src)"

end
