(* ===== verification/Qlog_Hash_Correct.thy ===== *)
theory Qlog_Hash_Correct
  imports Qlog_Hash
begin

text \<open>
  Copying while hashing is copying and hashing, for any CRC steps; and the table-driven software step
  against the bit-serial definition of CRC32C.
\<close>

unbundle bit_operations_syntax

section \<open>Copying while hashing\<close>

definition lane_step :: "nat \<Rightarrow> crc_ops \<Rightarrow> u32 \<Rightarrow> bytes \<Rightarrow> nat \<Rightarrow> u32" where
  "lane_step w ops crc src off = fst (consume_word w False ops crc src [] off)"

text \<open>The destination after the first \<open>n\<close> bytes were copied.\<close>

definition copied :: "bytes \<Rightarrow> bytes \<Rightarrow> nat \<Rightarrow> bytes" where
  "copied src d n = take n src @ drop n d"

lemma copied_write:
  assumes "off \<le> n" "n \<le> length src" "n \<le> length d" "off + w \<le> length src" "off + w \<le> length d"
  shows "mem_write (copied src d n) off (mem_read src off w) = copied src d (max n (off + w))"
  using assms by (intro nth_equalityI) (auto simp: nth_mem_write nth_mem_read copied_def nth_append max_def)

lemma consume_plain [simp]: "consume_word w False ops crc src d off = (lane_step w ops crc src off, d)"
  by (simp add: consume_word_def lane_step_def Let_def)

lemma consume_copy:
  assumes "off \<le> n" "n \<le> length src" "n \<le> length d" "off + w \<le> length src" "off + w \<le> length d"
    and "n' = max n (off + w)"
  shows "consume_word w True ops crc src (copied src d n) off = (lane_step w ops crc src off, copied src d n')"
  using copied_write [OF assms(1-5)] assms(6) by (auto simp: consume_word_def lane_step_def Let_def)

definition same_lanes :: "hash_lanes \<Rightarrow> hash_lanes \<Rightarrow> bool" where
  "same_lanes s t \<longleftrightarrow> h1 s = h1 t \<and> h2 s = h2 t \<and> h3 s = h3 t \<and> h4 s = h4 t"

lemma window_copy:
  assumes "same_lanes s t" "dst s = copied src d n"
    and "off \<le> n" "n \<le> off + 32" "off + 32 \<le> length src" "off + 32 \<le> length d"
  shows "same_lanes (consume_window True ops src off s) (consume_window False ops src off t)
    \<and> dst (consume_window True ops src off s) = copied src d (off + 32)"
proof -
  define n1 n2 n3 where "n1 = max n (off + 8)" and "n2 = max n (off + 16)" and "n3 = max n (off + 24)"
  have c: "consume_word 8 True ops x src (copied src d n) off = (lane_step 8 ops x src off, copied src d n1)"
    "consume_word 8 True ops x src (copied src d n1) (off + 8) = (lane_step 8 ops x src (off + 8), copied src d n2)"
    "consume_word 8 True ops x src (copied src d n2) (off + 16) = (lane_step 8 ops x src (off + 16), copied src d n3)"
    "consume_word 8 True ops x src (copied src d n3) (off + 24) = (lane_step 8 ops x src (off + 24), copied src d (off + 32))"
    for x using assms(3-) by (subst consume_copy; simp add: n1_def n2_def n3_def max_def add.commute)+
  show ?thesis using assms(1,2) by (simp add: consume_window_def same_lanes_def c)
qed

lemma loop_copy:
  assumes "same_lanes s t" "dst s = copied src d off" "32 \<le> len" "off \<le> len"
    and "len \<le> length src" "len \<le> length d"
  shows "\<exists>off' s' t'. hash_loop True ops src len off s = (off', s') \<and> hash_loop False ops src len off t = (off', t')
    \<and> same_lanes s' t' \<and> dst s' = copied src d off' \<and> off' \<le> len \<and> len < off' + 32"
  using assms
proof (induction True ops src len off s arbitrary: t rule: hash_loop.induct)
  case (1 ops src len off s)
  show ?case
  proof (cases "off \<le> len - 32")
    case True
    note w = window_copy [OF 1(2,3), where off = off and ops = ops]
    have "\<exists>off' s' t'. hash_loop True ops src len (off + 32) (consume_window True ops src off s) = (off', s')
      \<and> hash_loop False ops src len (off + 32) (consume_window False ops src off t) = (off', t')
      \<and> same_lanes s' t' \<and> dst s' = copied src d off' \<and> off' \<le> len \<and> len < off' + 32"
      using True 1(4-7) w by (intro 1(1)) auto
    then show ?thesis using True by (simp add: hash_loop.simps [of _ _ _ _ off])
  next
    case False
    then show ?thesis using 1 by (simp add: hash_loop.simps)
  qed
qed

lemma hash_core_short:
  assumes "len < 32" "len \<le> length src" "len \<le> length d"
  shows "hash_core True ops src d len = (fst (hash_core False ops src [] len), copied src d len)"
proof -
  have d: "d = copied src d 0" by (simp add: copied_def)
  consider "len = 0" | "len = 1" | "len = 2" | "len = 3" | "4 \<le> len" "len < 8" | "8 \<le> len" "len < 16" | "16 \<le> len"
    by linarith
  then show ?thesis
  proof cases
    case 1
    then show ?thesis by (simp add: hash_core_def copied_def)
  next
    case 2
    then show ?thesis using assms consume_copy [of 0 0 src d 1 1, folded d]
      by (simp add: hash_core_def Let_def)
  next
    case 3
    then show ?thesis using assms consume_copy [of 0 0 src d 2 2, folded d]
      by (simp add: hash_core_def Let_def)
  next
    case 4
    have c: "consume_word 2 True ops x src d 0 = (lane_step 2 ops x src 0, copied src d 2)"
      "consume_word 1 True ops x src (copied src d 2) 2 = (lane_step 1 ops x src 2, copied src d 3)" for x
      using assms 4 by (rule_tac consume_copy [of 0 0 src d 2 2, folded d] consume_copy [of 2 2 src d 1 3]; simp)+
    show ?thesis unfolding 4 hash_core_def Let_def by (simp add: c(1) c(2) [simplified])
  next
    case 5
    then show ?thesis using assms consume_copy [of 0 0 src d 4 4, folded d] consume_copy [of "len - 4" 4 src d 4 len]
      by (simp add: hash_core_def Let_def)
  next
    case 6
    then show ?thesis using assms consume_copy [of 0 0 src d 8 8, folded d] consume_copy [of "len - 8" 8 src d 8 len]
      by (simp add: hash_core_def Let_def)
  next
    case 7
    define n where "n = max 16 (len - 8)"
    have n: "16 \<le> n" "len - 8 \<le> n" "n \<le> len" "n = max 16 (len - 16 + 8)" "len = max n (len - 8 + 8)"
      using 7 assms(1) by (simp_all add: n_def)
    have c: "consume_word 8 True ops x src d 0 = (lane_step 8 ops x src 0, copied src d 8)"
      "consume_word 8 True ops x src (copied src d 8) 8 = (lane_step 8 ops x src 8, copied src d 16)"
      "consume_word 8 True ops x src (copied src d 16) (len - 16) = (lane_step 8 ops x src (len - 16), copied src d n)"
      "consume_word 8 True ops x src (copied src d n) (len - 8) = (lane_step 8 ops x src (len - 8), copied src d len)"
      for x
    proof -
      show "consume_word 8 True ops x src d 0 = (lane_step 8 ops x src 0, copied src d 8)"
        by (rule consume_copy [of 0 0 src d 8 8, folded d]) (use 7 assms in simp_all)
      show "consume_word 8 True ops x src (copied src d 8) 8 = (lane_step 8 ops x src 8, copied src d 16)"
        by (rule consume_copy) (use 7 assms in simp_all)
      show "consume_word 8 True ops x src (copied src d 16) (len - 16) = (lane_step 8 ops x src (len - 16), copied src d n)"
        by (rule consume_copy) (use 7 assms n(4) in simp_all)
      show "consume_word 8 True ops x src (copied src d n) (len - 8) = (lane_step 8 ops x src (len - 8), copied src d len)"
        by (rule consume_copy) (use 7 assms n in simp_all)
    qed
    have "\<not> len < 4" "\<not> len < 8" "\<not> len < 16" "len \<noteq> 0" using 7 by simp_all
    then show ?thesis using assms(1) unfolding hash_core_def Let_def by (simp only: c consume_plain if_False if_True prod.case hash_lanes.select_convs hash_lanes.update_convs prod.sel)
  qed
qed

lemma hash_core_long:
  assumes "32 \<le> len" "len \<le> length src" "len \<le> length d"
  shows "hash_core True ops src d len = (fst (hash_core False ops src [] len), copied src d len)"
proof -
  let ?s = "\<lambda>d. \<lparr>h1 = 0xFFFFFFFF, h2 = 0xFFFFFFFF, h3 = 0xFFFFFFFF, h4 = 0xFFFFFFFF, dst = d\<rparr>"
  have "same_lanes (?s d) (?s [])" by (simp add: same_lanes_def)
  from loop_copy [OF this, of src d 0 len ops] assms obtain off s t where
    l: "hash_loop True ops src len 0 (?s d) = (off, s)" "hash_loop False ops src len 0 (?s []) = (off, t)"
    and p: "same_lanes s t" "dst s = copied src d off" "off \<le> len" "len < off + 32" by (auto simp: copied_def)
  note w = window_copy [OF p(1,2), where off = "len - 32" and ops = ops]
  show ?thesis
  proof (cases "off = len")
    case True
    then show ?thesis using assms l p by (simp add: hash_core_def Let_def same_lanes_def)
  next
    case False
    then show ?thesis using assms l p w by (simp add: hash_core_def Let_def same_lanes_def)
  qed
qed

lemma hash_copy:
  assumes "length src \<le> length d"
  shows "qlog_memcpy_with_hash hw d src (length src) = (get_hash_64 hw src, src @ drop (length src) d)"
proof -
  have "hash_core True ops src d (length src) = (fst (hash_core False ops src [] (length src)), copied src d (length src))"
    for ops using hash_core_short [of "length src" src d ops] hash_core_long [of "length src" src d ops] assms
    by (cases "length src < 32") simp_all
  then show ?thesis
    by (simp add: qlog_memcpy_with_hash_def get_hash_64_def software_hash_raw_def software_copy_raw_def copied_def
        split: option.splits)
qed

text \<open>
  Property C15. \<open>qlog_memcpy_with_hash\<close> copies exactly the source bytes to the front of the destination,
  leaves the rest of the destination alone, reads and writes nothing beyond the given length, and
  returns \<open>get_hash_64\<close> of the source, for the software steps and for any hardware steps.
\<close>

theorem memcpy_with_hash_copies:
  assumes "length src \<le> length d"
  shows "qlog_memcpy_with_hash hw d src (length src) = (get_hash_64 hw src, src @ drop (length src) d)"
  by (rule hash_copy [OF assms])

theorem memcpy_with_hash_copies_witness:
  "qlog_memcpy_with_hash None (replicate 40 0) [1, 2, 3] 3 = (get_hash_64 None [1, 2, 3], [1, 2, 3] @ replicate 37 0)"
  using memcpy_with_hash_copies [of "[1, 2, 3]" "replicate 40 0" None] by (simp add: numeral_3_eq_3)

section \<open>The table against CRC32C\<close>

text \<open>CRC32C bit by bit, in the reflected form of the CPU instruction: polynomial \<open>0x82F63B78\<close>.\<close>

definition crc32c_bit :: "u32 \<Rightarrow> u32" where
  "crc32c_bit c = (if bit c 0 then drop_bit 1 c XOR 0x82F63B78 else drop_bit 1 c)"

definition crc32c_byte :: "u32 \<Rightarrow> u8 \<Rightarrow> u32" where
  "crc32c_byte crc v = (crc32c_bit ^^ 8) (crc XOR ucast v)"

lemma crc32c_bit_xor: "crc32c_bit (a XOR b) = crc32c_bit a XOR crc32c_bit b"
  by (auto simp: crc32c_bit_def bit_simps drop_bit_xor xor.assoc xor.left_commute xor.commute)

lemma crc32c_bits_xor: "(crc32c_bit ^^ n) (a XOR b) = (crc32c_bit ^^ n) a XOR (crc32c_bit ^^ n) b"
  by (induction n) (simp_all add: crc32c_bit_xor)

lemma crc32c_bits_high: "(\<And>i. i < n \<Longrightarrow> \<not> bit a i) \<Longrightarrow> (crc32c_bit ^^ n) a = drop_bit n a"
proof (induction n)
  case (Suc n)
  then have "(crc32c_bit ^^ n) a = drop_bit n a" by simp
  moreover have "crc32c_bit (drop_bit n a) = drop_bit (Suc n) a"
    using Suc.prems [of n] by (simp add: crc32c_bit_def bit_drop_bit_eq)
  ultimately show ?case by simp
qed simp

lemma crc32c_byte_split:
  "(crc32c_bit ^^ 8) x = drop_bit 8 x XOR (crc32c_bit ^^ 8) (x AND 0xFF)"
proof -
  have eq: "x = (x AND NOT 0xFF) XOR (x AND 0xFF)" by (rule bit_word_eqI) (auto simp: bit_simps)
  have m: "(0xFF :: u32) = mask 8" by (simp add: mask_eq_decr_exp)
  have "(crc32c_bit ^^ 8) (x AND NOT 0xFF) = drop_bit 8 (x AND NOT 0xFF)"
    by (rule crc32c_bits_high) (simp add: m bit_simps)
  also have "\<dots> = drop_bit 8 x" unfolding m by (rule bit_word_eqI) (auto simp: bit_simps dest: bit_imp_le_length)
  finally show ?thesis using crc32c_bits_xor [of 8 "x AND NOT 0xFF" "x AND 0xFF"] eq by simp
qed

lemma crc32c_bit_numeral:
  "crc32c_bit 1 = 0x82F63B78"
  "crc32c_bit (numeral (num.Bit0 n)) = drop_bit 1 (numeral (num.Bit0 n))"
  "crc32c_bit (numeral (num.Bit1 n)) = drop_bit 1 (numeral (num.Bit1 n)) XOR 0x82F63B78"
  by (simp_all add: crc32c_bit_def)

text \<open>All \<open>XOR\<close> combinations of a list; for a linear function they are its values on all bytes.\<close>

primrec xor_span :: "u32 list \<Rightarrow> u32 list" where
  "xor_span [] = [0]"
| "xor_span (w # ws) = (let t = xor_span ws in t @ map (\<lambda>x. w XOR x) t)"

lemma pow2_xor:
  assumes "i < 2 ^ n" "n < 32"
  shows "(of_nat (2 ^ n + i) :: u32) = 2 ^ n XOR of_nat i"
proof -
  have "(2 ^ n :: u32) AND of_nat i = 0"
  proof (rule bit_word_eqI)
    fix k
    have "\<not> bit i n" using assms(1) by (simp add: bit_iff_odd)
    then show "bit ((2 ^ n :: u32) AND of_nat i) k = bit (0 :: u32) k" using assms(2) by (auto simp: bit_simps)
  qed
  then have "(2 ^ n :: u32) + of_nat i = 2 ^ n OR of_nat i" by (rule disjunctive_add_eq_or)
  moreover have "(2 ^ n :: u32) OR of_nat i = 2 ^ n XOR of_nat i"
    using \<open>(2 ^ n :: u32) AND of_nat i = 0\<close> by (metis disjunctive_add_eq_or disjunctive_add_eq_xor)
  ultimately show ?thesis by simp
qed

lemma xor_span_linear:
  fixes g :: "u32 \<Rightarrow> u32"
  assumes "\<And>a b. g (a XOR b) = g a XOR g b" "g 0 = 0" "n \<le> 32"
  shows "xor_span (map (\<lambda>k. g (2 ^ k)) (rev [0..<n])) = map (\<lambda>i. g (of_nat i)) [0..<2 ^ n]"
  using assms(3)
proof (induction n)
  case 0
  then show ?case using assms(2) by simp
next
  case (Suc n)
  have "[0..<2 ^ Suc n] = [0..<2 ^ n] @ map (\<lambda>i. i + 2 ^ n) [0..<2 ^ n]"
    unfolding power_Suc mult_2 map_add_upt by (rule upt_add_eq_append) simp
  moreover have "map (\<lambda>i. g (of_nat i)) (map (\<lambda>i. i + 2 ^ n) [0..<2 ^ n])
      = map (\<lambda>x. g (2 ^ n) XOR x) (map (\<lambda>i. g (of_nat i)) [0..<2 ^ n])"
  proof -
    have "g (of_nat (i + 2 ^ n)) = g (2 ^ n) XOR g (of_nat i)" if "i < 2 ^ n" for i
      using pow2_xor [OF that] Suc.prems assms(1) [of "2 ^ n" "of_nat i"] by (simp add: add.commute)
    then show ?thesis unfolding map_map o_def by (intro map_cong) auto
  qed
  moreover have "xor_span (map (\<lambda>k. g (2 ^ k)) (rev [0..<n])) = map (\<lambda>i. g (of_nat i)) [0..<2 ^ n]"
    using Suc by simp
  ultimately show ?case by (simp only: map_append) (simp add: Let_def)
qed

lemma crc_table_entries:
  "map (\<lambda>i. (crc32c_bit ^^ 8) (of_nat i)) [0..<2 ^ 8] = kCrcTable[206 := 0x6FF599E3, 207 := 0x9D9E1AE0]"
proof -
  have z: "(crc32c_bit ^^ n) 0 = 0" for n by (induction n) (simp_all add: crc32c_bit_def)
  have eight: "(crc32c_bit ^^ 8) x = crc32c_bit (crc32c_bit (crc32c_bit (crc32c_bit
      (crc32c_bit (crc32c_bit (crc32c_bit (crc32c_bit x)))))))" for x by (simp add: numeral_eq_Suc)
  have k: "rev [0..<8] = [7, 6, 5, 4, 3, 2, 1, 0 :: nat]" by code_simp
  have e: "map (\<lambda>k. (crc32c_bit ^^ 8) (2 ^ k)) (rev [0..<8]) = map (\<lambda>k. kCrcTable ! (2 ^ k)) (rev [0..<8])"
    unfolding k by (simp add: eight crc32c_bit_numeral) (simp add: kCrcTable_def)
  have "xor_span (map (\<lambda>k. kCrcTable ! (2 ^ k)) (rev [0..<8])) = kCrcTable[206 := 0x6FF599E3, 207 := 0x9D9E1AE0]"
    unfolding k by (simp add: kCrcTable_def)
  moreover have "xor_span (map (\<lambda>k. (crc32c_bit ^^ 8) (2 ^ k)) (rev [0..<8]))
      = map (\<lambda>i. (crc32c_bit ^^ 8) (of_nat i)) [0..<2 ^ 8]"
    by (rule xor_span_linear) (rule crc32c_bits_xor, rule z, simp)
  ultimately show ?thesis unfolding e by (elim trans [OF sym])
qed

lemma xor_left_inj: "a XOR b = a XOR c \<longleftrightarrow> b = (c :: u32)"
proof
  assume "a XOR b = a XOR c"
  then have "a XOR (a XOR b) = a XOR (a XOR c)" by simp
  then show "b = c" by (simp add: xor.assoc [symmetric])
qed simp

text \<open>
  Property C24. The table-driven step of the software hash agrees with CRC32C, hence with the CPU instruction,
  exactly when the table index is neither 206 nor 207: those two entries of the table differ from
  CRC32C in one bit each, so hashes computed with and without the instruction can differ.
\<close>

theorem software_crc_step:
  "soft_u8 crc v = crc32c_byte crc v \<longleftrightarrow> (crc XOR ucast v) AND 0xFF \<notin> {206, 207}"
proof -
  let ?x = "(crc XOR ucast v) AND 0xFF"
  have x: "unat ?x < 256" using word_and_le1 [of "crc XOR ucast v" "0xFF :: u32"] by (simp add: word_le_nat_alt)
  have len: "length kCrcTable = 256" by (simp add: kCrcTable_def)
  have "drop_bit 8 (ucast v :: u32) = 0" by (rule bit_word_eqI) (auto simp: bit_simps dest: bit_imp_le_length)
  then have b: "crc32c_byte crc v = drop_bit 8 crc XOR (crc32c_bit ^^ 8) ?x"
    unfolding crc32c_byte_def by (subst crc32c_byte_split) (simp add: drop_bit_xor)
  have "(crc32c_bit ^^ 8) ?x = map (\<lambda>i. (crc32c_bit ^^ 8) (of_nat i)) [0..<2 ^ 8] ! unat ?x"
    using x by (subst nth_map) simp_all
  also have "\<dots> = kCrcTable[206 := 0x6FF599E3, 207 := 0x9D9E1AE0] ! unat ?x" unfolding crc_table_entries ..
  finally have e: "(crc32c_bit ^^ 8) ?x = kCrcTable[206 := 0x6FF599E3, 207 := 0x9D9E1AE0] ! unat ?x" .
  have "kCrcTable ! 206 \<noteq> 0x6FF599E3" "kCrcTable ! 207 \<noteq> 0x9D9E1AE0" by (simp_all add: kCrcTable_def)
  then have "kCrcTable ! unat ?x = kCrcTable[206 := 0x6FF599E3, 207 := 0x9D9E1AE0] ! unat ?x
      \<longleftrightarrow> unat ?x \<noteq> 206 \<and> unat ?x \<noteq> 207"
    using len by (auto simp: nth_list_update)
  also have "\<dots> \<longleftrightarrow> ?x \<notin> {206, 207}" by (simp add: word_unat_eq_iff)
  finally have "kCrcTable ! unat ?x = kCrcTable[206 := 0x6FF599E3, 207 := 0x9D9E1AE0] ! unat ?x \<longleftrightarrow> ?x \<notin> {206, 207}" .
  moreover have "soft_u8 crc v = crc32c_byte crc v
      \<longleftrightarrow> kCrcTable ! unat ?x = kCrcTable[206 := 0x6FF599E3, 207 := 0x9D9E1AE0] ! unat ?x"
    unfolding soft_u8_def b e by (rule xor_left_inj)
  ultimately show ?thesis by (rule trans [rotated])
qed

end
