(* ===== verification/Qlog_Utf_Correct.thy ===== *)
theory Qlog_Utf_Correct
  imports Qlog_Utf Qlog_Hash_Correct
begin

text \<open>
  Decoding inverts encoding on well-formed UTF-16, and the mixed encoding carries the same text and the same
  hash as the UTF-16 it was made from.
\<close>

unbundle bit_operations_syntax

section \<open>Words bit by bit\<close>

lemma upt_8: "[0..<8] = [0, 1, 2, 3, 4, 5, 6, 7 :: nat]"
  by code_simp

lemma upt_16: "[0..<16] = [0, 1, 2, 3, 4, 5, 6, 7, 8, 9, 10, 11, 12, 13, 14, 15 :: nat]"
  by code_simp

lemma upt_32: "[0..<32] = [0, 1, 2, 3, 4, 5, 6, 7, 8, 9, 10, 11, 12, 13, 14, 15,
    16, 17, 18, 19, 20, 21, 22, 23, 24, 25, 26, 27, 28, 29, 30, 31 :: nat]"
  by code_simp

lemma word_eq_bits: "list_all (\<lambda>n. bit a n = bit b n) [0..<LENGTH('a)] \<Longrightarrow> a = (b :: 'a::len word)"
  by (rule bit_word_eqI) (simp add: list_all_iff)

lemmas u8_eqI = word_eq_bits [where ?'a = 8, simplified, unfolded upt_8]
lemmas u16_eqI = word_eq_bits [where ?'a = 16, simplified, unfolded upt_16]
lemmas u32_eqI = word_eq_bits [where ?'a = 32, simplified, unfolded upt_32]

lemma unat_up16 [simp]: "unat (ucast (x :: u16) :: u32) = unat x"
proof -
  have "unat x < 2 ^ 16" using unsigned_less [of x, where ?'a = nat] by simp
  then show ?thesis by (simp add: unsigned_ucast_eq take_bit_nat_eq_self)
qed

lemma high_bit_clear: "unat x < 2 ^ k \<Longrightarrow> k \<le> n \<Longrightarrow> \<not> bit (x :: 'a::len word) n"
proof
  assume "unat x < 2 ^ k" "k \<le> n" "bit x n"
  then have "bit (unat x) n" by (simp add: bit_unsigned_iff bit_imp_possible_bit)
  moreover have "unat x = take_bit k (unat x)" using \<open>unat x < 2 ^ k\<close> by (simp add: take_bit_nat_eq_self)
  ultimately have "bit (take_bit k (unat x)) n" by simp
  then show False using \<open>k \<le> n\<close> by (simp add: bit_take_bit_iff)
qed

lemma lead_not_ascii: "bit c 7 \<Longrightarrow> \<not> c < (0x80 :: u8)"
  using high_bit_clear [of c 7 7] by (auto simp: word_less_nat_alt)

section \<open>The ASCII runs\<close>

lemma utf16_ascii: "x < 0x80 \<Longrightarrow> utf16_to_utf8_sw (x # src) = ucast x # utf16_to_utf8_sw src"
proof -
  assume x: "x < 0x80"
  have lt: "(ucast y :: u32) < 0x80 \<longleftrightarrow> y < 0x80" for y :: u16
    by (simp add: word_less_nat_alt)
  have uc: "ucast (ucast y :: u32) = (ucast y :: u8)" for y :: u16 by (rule u8_eqI) (simp add: bit_simps)
  show ?thesis
  proof (cases src)
    case (Cons y ys)
    then show ?thesis using x by (cases "y < 0x80") (simp_all add: utf16_to_utf8_sw.simps(2) lt uc Let_def)
  qed (use x in \<open>simp add: utf16_to_utf8_sw.simps(2) lt uc Let_def\<close>)
qed

lemma utf8_ascii: "c < 0x80 \<Longrightarrow> utf8_to_utf16_sw (c # s) = map_option ((#) (ucast c)) (utf8_to_utf16_sw s)"
proof (cases s)
  case (Cons y ys)
  assume "c < 0x80"
  then show ?thesis using Cons
    by (cases "y < 0x80") (simp_all add: utf8_to_utf16_sw.simps(2) option.map_comp comp_def)
qed (simp add: utf8_to_utf16_sw.simps(2))

lemma ascii_back:
  fixes x :: u16
  assumes "unat x < 0x80"
  shows "unat (ucast x :: u8) = unat x" "ucast (ucast x :: u8) = x"
proof -
  have h: "\<not> bit x n" if "7 \<le> n" for n using high_bit_clear [of x 7 n] assms that by simp
  show "unat (ucast x :: u8) = unat x" using assms by (simp add: unsigned_ucast_eq take_bit_nat_eq_self)
  show "ucast (ucast x :: u8) = x" by (rule u16_eqI) (simp add: bit_simps h)
qed

section \<open>Longer sequences\<close>

lemma utf8_two:
  fixes x :: u16
  assumes "unat x < 0x800"
  defines "c \<equiv> ucast x :: u32"
  shows "utf8_to_utf16_sw (ucast (0xC0 OR drop_bit 6 c) # ucast (0x80 OR (c AND 0x3F)) # s)
    = map_option ((#) x) (utf8_to_utf16_sw s)"
proof -
  have h: "\<not> bit x n" if "11 \<le> n" for n using high_bit_clear [of x 11 n] assms that by simp
  have l: "bit (ucast (0xC0 OR drop_bit 6 c) :: u8) 7" by (simp add: bit_simps c_def)
  have t: "ucast (0xC0 OR drop_bit 6 c) AND 0xE0 = (0xC0 :: u8)"
    by (rule u8_eqI) (simp add: bit_simps c_def h)
  have v: "push_bit 6 (ucast (ucast (0xC0 OR drop_bit 6 c) AND 0x1F :: u8)) OR ucast (ucast (0x80 OR (c AND 0x3F)) AND 0x3F :: u8) = x"
    by (rule u16_eqI) (simp add: bit_simps c_def h)
  show ?thesis using lead_not_ascii [OF l] t v by (simp add: utf8_to_utf16_sw.simps(2))
qed

lemma utf8_three:
  fixes x :: u16
  defines "c \<equiv> ucast x :: u32"
  shows "utf8_to_utf16_sw (ucast (0xE0 OR drop_bit 12 c) # ucast (0x80 OR (drop_bit 6 c AND 0x3F)) # ucast (0x80 OR (c AND 0x3F)) # s)
    = map_option ((#) x) (utf8_to_utf16_sw s)"
proof -
  let ?b = "ucast (0xE0 OR drop_bit 12 c) :: u8"
  have h: "\<not> bit x n" if "16 \<le> n" for n using that bit_imp_le_length [of x n] by auto
  have l: "bit ?b 7" by (simp add: bit_simps c_def)
  have t: "?b AND 0xF0 = 0xE0" by (rule u8_eqI) (simp add: bit_simps c_def h)
  have "bit (?b AND 0xE0) 5" "\<not> bit (0xC0 :: u8) 5" by (simp_all add: bit_simps c_def)
  then have n: "?b AND 0xE0 \<noteq> 0xC0" by auto
  have v: "push_bit 12 (ucast (?b AND 0x0F)) OR push_bit 6 (ucast (ucast (0x80 OR (drop_bit 6 c AND 0x3F)) AND 0x3F :: u8))
      OR ucast (ucast (0x80 OR (c AND 0x3F)) AND 0x3F :: u8) = x"
    by (rule u16_eqI) (simp add: bit_simps c_def)
  show ?thesis using lead_not_ascii [OF l] t n v by (simp add: utf8_to_utf16_sw.simps(2))
qed

lemma surrogate_back:
  fixes z :: u16 and k :: u32
  assumes "unat k \<le> unat z" "unat z < unat k + 1024" "1024 dvd unat k" "unat k < 2 ^ 16"
  shows "ucast ((ucast z AND 0x3FF) + k) = z"
proof -
  have m: "(0x3FF :: u32) = mask 10" by (simp add: mask_eq_decr_exp)
  have md: "unat ((ucast z :: u32) AND 0x3FF) = unat z mod 1024"
    by (simp only: m take_bit_eq_mask [symmetric] unsigned_take_bit_eq) (simp add: take_bit_eq_mod)
  have "unat z mod 1024 + unat k = unat z"
  proof -
    obtain q where "unat k = 1024 * q" using assms(3) by blast
    then have "unat z = 1024 * q + (unat z - unat k)" "unat z - unat k < 1024" using assms by simp_all
    then have "unat z mod 1024 = unat z - unat k" by (metis mod_less mod_mult_self4)
    then show ?thesis using assms(1) by simp
  qed
  moreover have "unat ((ucast z AND 0x3FF) + k) = unat z mod 1024 + unat k"
    using assms(4) md by (subst unat_add_lem [THEN iffD1]) (simp_all add: less_trans [of _ "1024 + 2 ^ 16"] add_strict_mono)
  ultimately have "(ucast z AND 0x3FF) + k = ucast z" by (simp add: word_unat_eq_iff)
  moreover have "ucast (ucast z :: u32) = z" by (rule u16_eqI) (simp add: bit_simps)
  ultimately show ?thesis by simp
qed

lemma utf8_four:
  fixes x y :: u16
  assumes x: "0xD800 \<le> x" "x \<le> 0xDBFF" and y: "0xDC00 \<le> y" "y \<le> 0xDFFF"
  defines "c \<equiv> (push_bit 10 (ucast x AND 0x3FF) OR (ucast y AND 0x3FF)) + 0x10000 :: u32"
  shows "utf8_to_utf16_sw (ucast (0xF0 OR drop_bit 18 c) # ucast (0x80 OR (drop_bit 12 c AND 0x3F))
      # ucast (0x80 OR (drop_bit 6 c AND 0x3F)) # ucast (0x80 OR (c AND 0x3F)) # s)
    = map_option (\<lambda>r. x # y # r) (utf8_to_utf16_sw s)"
proof -
  define v :: u32 where "v = push_bit 10 (ucast x AND 0x3FF) OR (ucast y AND 0x3FF)"
  have m: "(0x3FF :: u32) = mask 10" by (simp add: mask_eq_decr_exp)
  have vb: "\<not> bit v n" if "20 \<le> n" for n using that unfolding v_def m by (auto simp: bit_simps)
  have v20: "unat v < 2 ^ 20"
  proof -
    have "take_bit 20 v = v" using vb by (intro bit_word_eqI) (auto simp: bit_simps, metis not_less)
    then have "unat v = take_bit 20 (unat v)" by (metis unsigned_take_bit_eq)
    then show ?thesis by (metis take_bit_nat_less_exp)
  qed
  have "unat c = unat v + 0x10000" using v20 unfolding c_def v_def [symmetric]
    by (subst unat_add_lem [THEN iffD1]) simp_all
  then have ch: "\<not> bit c n" if "21 \<le> n" for n using high_bit_clear [of c 21 n] v20 that by simp
  let ?b = "ucast (0xF0 OR drop_bit 18 c) :: u8"
  have l: "bit ?b 7" by (simp add: bit_simps)
  have "bit (?b AND 0xE0) 5" "\<not> bit (0xC0 :: u8) 5" "bit (?b AND 0xF0) 4" "\<not> bit (0xE0 :: u8) 4" by (simp_all add: bit_simps)
  then have n: "?b AND 0xE0 \<noteq> 0xC0" "?b AND 0xF0 \<noteq> 0xE0" by auto
  have cp: "push_bit 18 (ucast (?b AND 0x07)) OR push_bit 12 (ucast (ucast (0x80 OR (drop_bit 12 c AND 0x3F)) AND 0x3F :: u8))
      OR push_bit 6 (ucast (ucast (0x80 OR (drop_bit 6 c AND 0x3F)) AND 0x3F :: u8))
      OR ucast (ucast (0x80 OR (c AND 0x3F)) AND 0x3F :: u8) = c"
    by (rule u32_eqI) (simp add: bit_simps ch)
  have cv: "c - 0x10000 = v" by (simp add: c_def v_def)
  have hi: "drop_bit 10 v = ucast x AND 0x3FF" "v AND 0x3FF = ucast y AND 0x3FF"
    unfolding v_def m by (rule bit_word_eqI; auto simp: bit_simps)+
  have "ucast (drop_bit 10 (c - 0x10000) + 0xD800) = x" "ucast ((c - 0x10000 AND 0x3FF) + 0xDC00) = y"
    unfolding cv hi using x y by (intro surrogate_back; simp add: word_le_nat_alt)+
  then show ?thesis using lead_not_ascii [OF l] n cp
    by (simp add: utf8_to_utf16_sw.simps(2) Let_def option.map_comp comp_def)
qed

text \<open>
  Property C25. Converting well-formed UTF-16 text to UTF-8 and back gives the text; the decoder does not read
  behind its input.
\<close>

theorem utf16_utf8_roundtrip:
  assumes "well_formed_utf16 src"
  shows "utf8_to_utf16_sw (utf16_to_utf8_sw src) = Some src"
  using assms
proof (induction src rule: length_induct)
  case (1 src)
  show ?case
  proof (cases src)
    case (Cons x xs)
    have ih: "utf8_to_utf16_sw (utf16_to_utf8_sw ys) = Some ys" if "length ys \<le> length xs" "well_formed_utf16 ys" for ys
      using 1(1) that by (simp add: Cons)
    have sur: "0xD800 \<le> x \<and> x \<le> 0xDBFF \<longleftrightarrow> 0xD800 \<le> unat x \<and> unat x \<le> 0xDBFF"
      "0xDC00 \<le> x \<and> x \<le> 0xDFFF \<longleftrightarrow> 0xDC00 \<le> unat x \<and> unat x \<le> 0xDFFF" by (simp_all add: word_le_nat_alt)
    have wf: "well_formed_utf16 (x # xs)" using 1(2) by (simp only: Cons)
    consider (ascii) "unat x < 0x80" | (two) "0x80 \<le> unat x" "unat x < 0x800"
      | (low) "0x800 \<le> unat x" "unat x < 0xD800" | (high) "0xDFFF < unat x"
      | (four) "0xD800 \<le> unat x" "unat x \<le> 0xDFFF" by linarith
    then show ?thesis
    proof cases
      case ascii
      then have "well_formed_utf16 xs" using wf sur by simp
      then show ?thesis using utf16_ascii [of x xs] utf8_ascii [of "ucast x"] ascii ih [of xs] ascii_back [OF ascii]
        by (simp add: Cons word_less_nat_alt)
    next
      case two
      then have "well_formed_utf16 xs" using wf sur by simp
      then show ?thesis using utf8_two [OF two(2)] two ih [of xs]
        by (simp add: Cons utf16_to_utf8_sw.simps(2) Let_def word_less_nat_alt word_le_nat_alt)
    next
      case low
      then have "well_formed_utf16 xs" using wf sur by simp
      then show ?thesis using utf8_three [of x] low ih [of xs]
        by (simp add: Cons utf16_to_utf8_sw.simps(2) Let_def word_less_nat_alt word_le_nat_alt)
    next
      case high
      then have "well_formed_utf16 xs" using wf sur by simp
      then show ?thesis using utf8_three [of x] high ih [of xs]
        by (simp add: Cons utf16_to_utf8_sw.simps(2) Let_def word_less_nat_alt word_le_nat_alt)
    next
      case four
      then obtain y ys where ys: "xs = y # ys" "0xDC00 \<le> y" "y \<le> 0xDFFF" "well_formed_utf16 ys" "unat x \<le> 0xDBFF"
        using wf sur by (auto split: list.splits if_splits)
      have "0xD800 \<le> x" "x \<le> 0xDBFF" using four ys(5) by (simp_all add: word_le_nat_alt)
      from utf8_four [OF this ys(2,3)] show ?thesis using four ys ih [of ys]
        by (simp add: Cons utf16_to_utf8_sw.simps(2) Let_def word_less_nat_alt word_le_nat_alt)
    qed
  qed simp
qed

text \<open>
  UTF-8 needs at most three bytes for each UTF-16 code unit, the bound that callers use to size the
  destination, since the conversion itself does not check it.
\<close>

theorem utf16_to_utf8_bound: "length (utf16_to_utf8_sw src) \<le> 3 * length src"
proof (induction src rule: length_induct)
  case (1 src)
  show ?case
  proof (cases src)
    case (Cons x xs)
    have ih: "length (utf16_to_utf8_sw ys) \<le> 3 * length ys" if "length ys \<le> length xs" for ys
      using 1 that by (simp add: Cons)
    have sp: "length (takeWhile P xs) + length (dropWhile P xs) = length xs" for P
      by (metis length_append takeWhile_dropWhile_id)
    have "length (dropWhile (\<lambda>y. y < 0x80) xs) \<le> length xs" by (rule length_dropWhile_le)
    note bounds = this ih [of xs] ih [of "dropWhile (\<lambda>y. y < 0x80) xs"] ih [of "tl xs"] sp [of "\<lambda>y. y < 0x80"]
    show ?thesis
    proof (cases xs)
      case Nil
      then show ?thesis by (simp add: Cons utf16_to_utf8_sw.simps(2) Let_def)
    next
      case (Cons y ys)
      show ?thesis using bounds unfolding \<open>src = x # xs\<close> utf16_to_utf8_sw.simps(2) Let_def Cons list.case
        by (simp only: split: if_split) auto
    qed
  qed simp
qed

section \<open>The mixed encoding\<close>

lemma utf16_ascii_prefix:
  "list_all (\<lambda>c. c \<le> 0x7F) asc \<Longrightarrow> utf16_to_utf8_sw (asc @ rest) = map ucast asc @ utf16_to_utf8_sw rest"
proof (induction asc)
  case (Cons x asc)
  then have "x < 0x80" by (simp add: word_le_nat_alt word_less_nat_alt)
  then show ?case using Cons by (simp add: utf16_ascii)
qed simp

lemma utf16_units_bytes: "utf16_units (utf16_bytes cs) = cs"
proof (induction cs)
  case (Cons c cs)
  obtain a b where ab: "le_bytes 2 c = [a, b]"
    by (metis (no_types) length_0_conv length_Suc_conv length_le_bytes numeral_2_eq_2)
  then have "le_word [a, b] = c" using le_word_bytes [of 2 c] by simp
  then show ?case using Cons ab by (simp add: utf16_bytes_def)
qed (simp add: utf16_bytes_def)

lemma ascii_no_mark:
  fixes asc :: "u16 list"
  assumes "list_all (\<lambda>c. c \<le> 0x7F) asc" "b \<in> set (map ucast asc)"
  shows "b \<noteq> (0xFF :: u8)"
proof
  assume "b = 0xFF"
  then obtain c :: u16 where "c \<le> 0x7F" "ucast c = (0xFF :: u8)" using assms by (auto simp: list_all_iff)
  then show False using ascii_back(1) [of c] by (simp add: word_le_nat_alt)
qed

text \<open>
  Property C26. The mixed encoding keeps the text and its hash: for every UTF-16 string and a destination of more than
  two bytes for each code unit, encoding succeeds, converting the result to UTF-8 gives the same bytes as converting
  the string directly if they fit into the destination (and writes behind it if not), and hashing the result as UTF-16
  gives the hash of the string.
\<close>

theorem utf_mixed_faithful:
  assumes "2 * length src < room"
  shows "\<exists>m. utf16_to_utf_mixed src room = Some m
    \<and> utf_mixed_to_utf8 m room' = (if length (utf16_to_utf8_sw src) \<le> room' then Some (utf16_to_utf8_sw src) else None)
    \<and> hash_utf_mixed_as_utf16 hw m = get_hash_64 hw (utf16_bytes src)"
proof -
  define asc where "asc = takeWhile (\<lambda>c. c \<le> 0x7F) src"
  define rest where "rest = drop (length asc) src"
  have src: "src = asc @ rest" unfolding asc_def rest_def dropWhile_eq_drop [symmetric] by (simp only: takeWhile_dropWhile_id)
  have asc: "list_all (\<lambda>c. c \<le> 0x7F) asc" by (auto simp: asc_def list_all_iff dest: set_takeWhileD)
  have asc_back: "map ucast (map ucast asc :: bytes) = asc"
    using asc ascii_back(2) by (induction asc) (simp_all add: word_le_nat_alt)
  have nm: "0xFF \<notin> set (map ucast asc :: bytes)" using ascii_no_mark [OF asc] by blast
  have len: "length src = length asc + length rest" using src by simp
  show ?thesis
  proof (cases "rest = []")
    case True
    then have "utf16_to_utf_mixed src room = Some (map ucast asc)"
      using assms len unfolding utf16_to_utf_mixed_def Let_def asc_def [symmetric] by simp
    then show ?thesis using True nm asc_back utf16_ascii_prefix [OF asc, of "[]"] src
      by (simp add: utf_mixed_to_utf8_def hash_utf_mixed_as_utf16_def Let_def del: map_map)
  next
    case False
    let ?m = "map ucast asc @ [0xFF] @ utf16_bytes rest"
    have "utf16_to_utf_mixed src room = Some ?m"
      using assms len False unfolding utf16_to_utf_mixed_def Let_def asc_def [symmetric] rest_def [symmetric] by simp
    moreover have tw: "takeWhile (\<lambda>b. b \<noteq> 0xFF) ?m = map ucast asc"
      using nm by (subst takeWhile_append2) auto
    moreover have "utf_mixed_to_utf8 ?m room' = (if length (utf16_to_utf8_sw src) \<le> room' then Some (utf16_to_utf8_sw src) else None)"
      using tw utf16_ascii_prefix [OF asc, of rest] src utf16_units_bytes [of rest] by (auto simp: utf_mixed_to_utf8_def Let_def)
    moreover have "hash_utf_mixed_as_utf16 hw ?m = get_hash_64 hw (utf16_bytes src)"
      using tw asc_back by (simp add: hash_utf_mixed_as_utf16_def Let_def del: map_map) (simp add: src utf16_bytes_def)
    ultimately show ?thesis by blast
  qed
qed

theorem utf_mixed_faithful_witness:
  "\<exists>m. utf16_to_utf_mixed [0x41, 0x4E2D, 0x42] 7 = Some m \<and> utf_mixed_to_utf8 m 5 = Some [0x41, 0xE4, 0xB8, 0xAD, 0x42]
    \<and> hash_utf_mixed_as_utf16 None m = get_hash_64 None (utf16_bytes [0x41, 0x4E2D, 0x42])"
proof -
  have t: "utf16_to_utf8_sw [0x41, 0x4E2D, 0x42] = [0x41, 0xE4, 0xB8, 0xAD, 0x42]" by (simp add: utf16_to_utf8_sw.simps)
  from utf_mixed_faithful [of "[0x41, 0x4E2D, 0x42]" 7 5 None] show ?thesis unfolding t by simp
qed

theorem utf16_utf8_roundtrip_witness:
  "utf8_to_utf16_sw (utf16_to_utf8_sw [0x41, 0xE9, 0x4E2D, 0xD83D, 0xDE00]) = Some [0x41, 0xE9, 0x4E2D, 0xD83D, 0xDE00]"
  by (rule utf16_utf8_roundtrip) simp

end
