(* ===== verification/Qlog_Limbs.thy ===== *)
theory Qlog_Limbs
  imports Qlog_Prelude
begin

text \<open>
  Numbers written as lists of machine words, least significant first. The big numbers of the RSA code are
  such lists with 32-bit words, byte strings are such lists with 8-bit words.
\<close>

unbundle bit_operations_syntax

primrec limb_val :: "'a::len word list \<Rightarrow> nat" where
  "limb_val [] = 0"
| "limb_val (x # xs) = unat x + 2 ^ LENGTH('a) * limb_val xs"

lemma limb_val_append:
  "limb_val (xs @ ys) = limb_val xs + 2 ^ (LENGTH('a) * length xs) * limb_val (ys :: 'a::len word list)"
  by (induction xs) (simp_all add: power_add algebra_simps)

lemma limb_val_replicate [simp]: "limb_val (replicate n 0) = 0"
  by (induction n) simp_all

lemma limb_val_less: "limb_val (xs :: 'a::len word list) < 2 ^ (LENGTH('a) * length xs)"
proof (induction xs)
  case (Cons x xs)
  have "unat x < 2 ^ LENGTH('a)" by (rule unsigned_less)
  moreover have "2 ^ LENGTH('a) * Suc (limb_val xs) \<le> 2 ^ LENGTH('a) * 2 ^ (LENGTH('a) * length xs)"
    using Cons by (intro mult_le_mono2) simp
  ultimately have "unat x + 2 ^ LENGTH('a) * limb_val xs < 2 ^ LENGTH('a) * 2 ^ (LENGTH('a) * length xs)"
    unfolding mult_Suc_right by linarith
  then show ?case by (simp add: power_add)
qed simp

text \<open>The value determines the bits, and the bits the value.\<close>

lemma bit_limb_val:
  "bit (limb_val (xs :: 'a::len word list)) k
    \<longleftrightarrow> k div LENGTH('a) < length xs \<and> bit (xs ! (k div LENGTH('a))) (k mod LENGTH('a))"
proof (induction xs arbitrary: k)
  case (Cons x xs)
  let ?l = "LENGTH('a)"
  have disj: "limb_val (x # xs) = unat x OR push_bit ?l (limb_val xs)"
  proof -
    have "unat x AND push_bit ?l (limb_val xs) = 0"
      by (rule bit_eqI) (auto simp: bit_simps dest: bit_imp_le_length)
    then have "unat x + push_bit ?l (limb_val xs) = unat x OR push_bit ?l (limb_val xs)"
      by (rule disjunctive_add_eq_or)
    then show ?thesis by (simp add: push_bit_eq_mult mult.commute)
  qed
  show ?case
  proof (cases "k < ?l")
    case True
    then show ?thesis unfolding disj by (simp add: bit_simps)
  next
    case False
    then have "k div ?l = Suc ((k - ?l) div ?l)" "k mod ?l = (k - ?l) mod ?l"
      by (simp_all add: le_div_geq le_mod_geq)
    then show ?thesis using False Cons.IH [of "k - ?l"]
      unfolding disj by (auto simp: bit_simps dest: bit_imp_le_length)
  qed
qed simp

lemma limb_val_inj:
  fixes xs ys :: "'a::len word list"
  assumes "limb_val xs = limb_val ys" and "length xs = length ys"
  shows "xs = ys"
proof (rule nth_equalityI)
  fix i assume i: "i < length xs"
  show "xs ! i = ys ! i"
  proof (rule bit_word_eqI)
    fix k assume k: "k < LENGTH('a)"
    have "bit (limb_val xs) (i * LENGTH('a) + k) = bit (limb_val ys) (i * LENGTH('a) + k)" using assms(1) by simp
    then show "bit (xs ! i) k = bit (ys ! i) k" using i k assms(2) by (simp add: bit_limb_val)
  qed
qed (rule assms(2))

text \<open>A number has one representation whose top word is not zero.\<close>

lemma limb_val_top:
  fixes x :: "'a::len word"
  assumes "x \<noteq> 0"
  shows "2 ^ (LENGTH('a) * length xs) \<le> limb_val (xs @ [x])"
proof -
  have "0 < unat x" using assms by (simp add: unat_gt_0)
  then have "(2 :: nat) ^ (LENGTH('a) * length xs) * 1 \<le> 2 ^ (LENGTH('a) * length xs) * unat x"
    by (intro mult_le_mono2) simp
  then show ?thesis unfolding limb_val_append limb_val.simps by (simp only: mult_1_right mult_0_right add_0_right trans_le_add2)
qed

lemma top_limb_length:
  fixes xs ys :: "'a::len word list"
  assumes "limb_val xs = limb_val ys" "xs \<noteq> [] \<Longrightarrow> last xs \<noteq> 0" "ys \<noteq> [] \<Longrightarrow> last ys \<noteq> 0"
  shows "length xs \<le> length ys"
proof (rule ccontr)
  assume "\<not> length xs \<le> length ys"
  then have ne: "xs \<noteq> []" and l: "length ys \<le> length (butlast xs)" by auto
  have "2 ^ (LENGTH('a) * length (butlast xs)) \<le> limb_val xs"
    using limb_val_top [of "last xs" "butlast xs"] assms(2) ne by (simp del: length_butlast)
  moreover have "limb_val ys < 2 ^ (LENGTH('a) * length ys)" by (rule limb_val_less)
  moreover have "(2 :: nat) ^ (LENGTH('a) * length ys) \<le> 2 ^ (LENGTH('a) * length (butlast xs))"
    using l by (intro power_increasing mult_le_mono2) simp_all
  ultimately show False using assms(1) by linarith
qed

lemma limb_val_minimal_inj:
  fixes xs ys :: "'a::len word list"
  assumes "limb_val xs = limb_val ys" "xs \<noteq> [] \<Longrightarrow> last xs \<noteq> 0" "ys \<noteq> [] \<Longrightarrow> last ys \<noteq> 0"
  shows "xs = ys"
  using assms top_limb_length [of xs ys] top_limb_length [of ys xs] by (intro limb_val_inj) auto

text \<open>The big-endian value of a byte string.\<close>

definition be_nat :: "bytes \<Rightarrow> nat" where
  "be_nat bs = limb_val (rev bs)"

lemma be_nat_less: "be_nat bs < 2 ^ (8 * length bs)"
  using limb_val_less [of "rev bs"] by (simp add: be_nat_def)

lemma bit_be_nat:
  "bit (be_nat bs) k \<longleftrightarrow> k div 8 < length bs \<and> bit (bs ! (length bs - 1 - k div 8)) (k mod 8)"
  by (auto simp: be_nat_def bit_limb_val rev_nth)

lemma be_nat_inj: "be_nat a = be_nat b \<Longrightarrow> length a = length b \<Longrightarrow> a = b"
  using limb_val_inj [of "rev a" "rev b"] by (simp add: be_nat_def)

lemma be_nat_minimal_inj:
  "be_nat a = be_nat b \<Longrightarrow> (a \<noteq> [] \<Longrightarrow> hd a \<noteq> 0) \<Longrightarrow> (b \<noteq> [] \<Longrightarrow> hd b \<noteq> 0) \<Longrightarrow> a = b"
  using limb_val_minimal_inj [of "rev a" "rev b"] by (simp add: be_nat_def last_rev)

lemma be_nat_zeros: "list_all (\<lambda>b. b = 0) zs \<Longrightarrow> be_nat (zs @ bs) = be_nat bs"
proof -
  assume "list_all (\<lambda>b. b = 0) zs"
  then have "zs = replicate (length zs) 0" by (induction zs) simp_all
  then have "rev zs = replicate (length zs) 0" by (metis rev_replicate)
  then show ?thesis by (simp add: be_nat_def limb_val_append)
qed

end
