(* ===== verification/Qlog_Rsa_Arith.thy ===== *)
theory Qlog_Rsa_Arith
  imports Qlog_Rsa Qlog_Limbs
begin

text \<open>
  The multi-limb routines compute what they are named after: comparison, addition and subtraction with
  carry, conversion from and to bytes, and modular multiplication and exponentiation.
\<close>

unbundle bit_operations_syntax

section \<open>Comparison, addition, subtraction\<close>

lemma limb_val_take_Suc:
  "j < length (a :: limbs) \<Longrightarrow> limb_val (take (Suc j) a) = limb_val (take j a) + 2 ^ (32 * j) * unat (a ! j)"
  by (simp add: take_Suc_conv_app_nth limb_val_append)

lemma limb_less_top:
  assumes "p < (B :: nat)" "x < y"
  shows "p + B * x < q + B * y"
proof -
  have "B * Suc x \<le> B * y" using assms(2) by (intro mult_le_mono2) simp
  then show ?thesis using assms(1) unfolding mult_Suc_right by linarith
qed

lemma bn_ucmp_take:
  assumes "j \<le> length a" "j \<le> length b"
  shows "bn_ucmp a b j = (if limb_val (take j a) < limb_val (take j b) then -1
    else if limb_val (take j a) > limb_val (take j b) then 1 else 0)"
  using assms
proof (induction j)
  case (Suc j)
  have l: "limb_val (take j a) < 2 ^ (32 * j)" "limb_val (take j b) < 2 ^ (32 * j)"
    using limb_val_less [of "take j a"] limb_val_less [of "take j b"] Suc.prems by simp_all
  consider "a ! j < b ! j" | "a ! j > b ! j" | "a ! j = b ! j" by (metis linorder_neqE)
  then show ?case
  proof cases
    case 1
    then show ?thesis using limb_less_top [OF l(1), of "unat (a ! j)" "unat (b ! j)" "limb_val (take j b)"] Suc.prems
      by (simp add: limb_val_take_Suc word_less_nat_alt)
  next
    case 2
    then show ?thesis using limb_less_top [OF l(2), of "unat (b ! j)" "unat (a ! j)" "limb_val (take j a)"] Suc.prems
      by (simp add: limb_val_take_Suc word_less_nat_alt)
  next
    case 3
    then show ?thesis using Suc by (simp add: limb_val_take_Suc)
  qed
qed simp

lemma bn_ucmp_ge:
  "length a = length b \<Longrightarrow> bn_ucmp a b (length b) \<ge> 0 \<longleftrightarrow> limb_val a \<ge> limb_val b"
  by (simp add: bn_ucmp_take)

lemma split_64: "unat (c :: u64) = unat (ucast c :: u32) + 2 ^ 32 * unat (drop_bit 32 c)"
proof -
  have "unat (ucast c :: u32) = unat c mod 2 ^ 32"
    by (simp add: unsigned_ucast_eq take_bit_eq_mod)
  moreover have "unat (drop_bit 32 c) = unat c div 2 ^ 32"
    by (simp only: drop_bit_eq_div unat_div) simp
  ultimately show ?thesis by simp
qed

lemma bn_add_loop_val:
  assumes "length a = length b" "unat c \<le> 1" "bn_add_loop a b c = (r, c')"
  shows "length r = length a \<and> unat c' \<le> 1
    \<and> limb_val r + 2 ^ (32 * length a) * unat c' = limb_val a + limb_val b + unat c"
  using assms
proof (induction a b arbitrary: c r c' rule: list_induct2)
  case (Cons a as b bs)
  let ?c = "c + ucast a + ucast b"
  obtain r0 where r: "bn_add_loop as bs (drop_bit 32 ?c) = (r0, c')" "r = ucast ?c # r0"
    using Cons.prems by (auto simp: Let_def split: prod.splits)
  have "unat (c + ucast a) = unat c + unat a"
    using u32_less [of a] Cons.prems(1) by (subst unat_add_lem [THEN iffD1]) simp_all
  then have u: "unat ?c = unat c + unat a + unat b"
    using u32_less [of a] u32_less [of b] Cons.prems(1) by (subst unat_add_lem [THEN iffD1]) simp_all
  have s: "unat c + unat a + unat b = unat (ucast ?c :: u32) + 2 ^ 32 * unat (drop_bit 32 ?c)"
    using split_64 [of ?c] u by simp
  then have "unat (drop_bit 32 ?c) \<le> 1" using u32_less [of a] u32_less [of b] Cons.prems(1) by simp
  note ih = Cons.IH [OF this r(1)]
  have "2 ^ (32 + 32 * length as) * unat c' = 4294967296 * (2 ^ (32 * length as) * unat c')" by (simp add: power_add)
  from this [simplified mult.assoc] show ?case using s ih by (simp add: r(2) power_add mult.assoc)
qed simp

lemma bn_add_val:
  assumes "length a = length b" "bn_add a b = (r, c)"
  shows "length r = length b" "limb_val r + 2 ^ (32 * length b) * unat c = limb_val a + limb_val b" "unat c \<le> 1"
proof -
  obtain c' where l: "bn_add_loop a b 0 = (r, c')" "c = ucast c'"
    using assms(2) by (auto simp: bn_add_def split: prod.splits)
  note v = bn_add_loop_val [OF assms(1) _ l(1)]
  have "unat c' \<le> 1" using v by simp
  then have "unat c = unat c'" using l(2) by (simp add: unsigned_ucast_eq take_bit_eq_mod)
  then show "length r = length b" "limb_val r + 2 ^ (32 * length b) * unat c = limb_val a + limb_val b" "unat c \<le> 1"
    using v assms(1) by simp_all
qed

lemma borrow_step:
  fixes a b :: u32 and c :: u64
  assumes "unat c \<le> 1"
  defines "t \<equiv> ucast a - ucast b - c"
  shows "unat (ucast t :: u32) + unat b + unat c = unat a + 2 ^ 32 * unat (drop_bit 63 t AND 1)"
    and "unat (drop_bit 63 t AND 1) \<le> 1"
proof -
  have one: "unat (drop_bit 63 t AND 1) = unat t div 2 ^ 63"
  proof -
    have "unat t < 2 ^ 64" using unsigned_less [of t, where ?'a = nat] by simp
    then have "unat t div 2 ^ 63 < 2" by (simp add: less_mult_imp_div_less)
    moreover have "unat (drop_bit 63 t AND 1) = unat t div 2 ^ 63 mod 2"
      by (simp only: drop_bit_eq_div and_one_eq unat_div unat_mod) simp
    ultimately show ?thesis by simp
  qed
  have lo: "unat (ucast t :: u32) = unat t mod 2 ^ 32"
    by (simp add: unsigned_ucast_eq take_bit_eq_mod)
  have "unat (ucast t :: u32) + unat b + unat c = unat a + 2 ^ 32 * unat (drop_bit 63 t AND 1)
    \<and> unat (drop_bit 63 t AND 1) \<le> 1"
  proof (cases "unat b + unat c \<le> unat a")
    case True
    have "unat (ucast b + c :: u64) = unat b + unat c"
      using u32_less [of b] assms(1) by (subst unat_add_lem [THEN iffD1]) simp_all
    then have "unat t = unat a - (unat b + unat c)"
      unfolding t_def diff_diff_eq using True by (subst unat_sub) (simp_all add: word_le_nat_alt)
    then show ?thesis using True u32_less [of a] by (simp add: one lo)
  next
    case False
    have bc: "unat (ucast b + c :: u64) = unat b + unat c"
      using u32_less [of b] assms(1) by (subst unat_add_lem [THEN iffD1]) simp_all
    have "unat t = 2 ^ 64 + unat a - (unat b + unat c)"
      unfolding t_def diff_diff_eq using False bc by (subst unat_sub_if_size) (simp add: word_le_nat_alt word_size)
    moreover have "unat b + unat c \<le> 2 ^ 32" using u32_less [of b] assms(1) by simp
    ultimately have "unat t div 2 ^ 63 = 1" "unat t mod 2 ^ 32 = 2 ^ 32 + unat a - (unat b + unat c)"
      using False u32_less [of a] by (simp_all add: div_nat_eqI mod_nat_eqI)
    then show ?thesis using False \<open>unat b + unat c \<le> 2 ^ 32\<close> unfolding one lo by simp
  qed
  then show "unat (ucast t :: u32) + unat b + unat c = unat a + 2 ^ 32 * unat (drop_bit 63 t AND 1)"
    "unat (drop_bit 63 t AND 1) \<le> 1" by simp_all
qed

lemma bn_sub_loop_val:
  assumes "length a = length b" "unat c \<le> 1" "bn_sub_loop a b c = (r, c')"
  shows "length r = length a \<and> unat c' \<le> 1
    \<and> limb_val r + limb_val b + unat c = limb_val a + 2 ^ (32 * length a) * unat c'"
  using assms
proof (induction a b arbitrary: c r c' rule: list_induct2)
  case (Cons a as b bs)
  let ?t = "ucast a - ucast b - c"
  obtain r0 where r: "bn_sub_loop as bs (drop_bit 63 ?t AND 1) = (r0, c')" "r = ucast ?t # r0"
    using Cons.prems by (auto simp: Let_def split: prod.splits)
  note st = borrow_step [OF Cons.prems(1), of a b]
  note ih = Cons.IH [OF st(2) r(1)]
  have "2 ^ (32 + 32 * length as) * unat c' = 4294967296 * (2 ^ (32 * length as) * unat c')" by (simp add: power_add)
  from this [simplified mult.assoc] show ?case using st(1) ih by (simp add: r(2) power_add mult.assoc)
qed simp

lemma bn_sub_val:
  assumes "length a = length b" "bn_sub a b = (r, c)"
  shows "length r = length b" "unat c \<le> 1" "limb_val r + limb_val b = limb_val a + 2 ^ (32 * length b) * unat c"
proof -
  obtain c' where l: "bn_sub_loop a b 0 = (r, c')" "c = ucast c'"
    using assms(2) by (auto simp: bn_sub_def split: prod.splits)
  note v = bn_sub_loop_val [OF assms(1) _ l(1)]
  have "unat c' \<le> 1" using v by simp
  then have "unat c = unat c'" using l(2) by (simp add: unsigned_ucast_eq take_bit_eq_mod)
  then show "length r = length b" "unat c \<le> 1" "limb_val r + limb_val b = limb_val a + 2 ^ (32 * length b) * unat c"
    using v assms(1) by simp_all
qed

section \<open>Modular arithmetic\<close>

lemma mod_once: "x < 2 * (m :: nat) \<Longrightarrow> x mod m = (if x \<ge> m then x - m else x)"
  by (simp add: le_mod_geq)

text \<open>The conditional subtraction that \<open>mod_add\<close> and \<open>mod_double\<close> share.\<close>

lemma reduce_val:
  assumes l: "length a = length m" "length b = length m" and lt: "limb_val a < limb_val m" "limb_val b < limb_val m"
    and add: "bn_add a b = (tmp, carry)"
  defines "r \<equiv> if carry \<noteq> 0 \<or> bn_ucmp tmp m (length m) \<ge> 0 then fst (bn_sub tmp m) else tmp"
  shows "length r = length m \<and> limb_val r = (limb_val a + limb_val b) mod limb_val m"
proof -
  let ?P = "2 ^ (32 * length m) :: nat"
  have s: "limb_val a + limb_val b < 2 * limb_val m" using lt by simp
  have mP: "limb_val m < ?P" using limb_val_less [of m] by simp
  have ad: "length tmp = length m" "limb_val tmp + ?P * unat carry = limb_val a + limb_val b" "unat carry \<le> 1"
    using bn_add_val [OF _ add] l by simp_all
  obtain d c where sub: "bn_sub tmp m = (d, c)" by fastforce
  note sb = bn_sub_val [OF ad(1) sub]
  have dP: "limb_val d < ?P" using limb_val_less [of d] sb(1) by simp
  have ge: "carry \<noteq> 0 \<or> bn_ucmp tmp m (length m) \<ge> 0 \<longleftrightarrow> limb_val a + limb_val b \<ge> limb_val m"
  proof (cases "unat carry = 0")
    case True
    then show ?thesis using ad bn_ucmp_ge [OF ad(1)] by (simp add: unat_eq_0)
  next
    case False
    then have "unat carry = 1" using ad(3) by simp
    then show ?thesis using ad(2) mP by (auto simp: word_unat_eq_iff)
  qed
  show ?thesis
  proof (cases "limb_val a + limb_val b \<ge> limb_val m")
    case True
    have "limb_val d = limb_val a + limb_val b - limb_val m"
    proof -
      have "unat carry = 0 \<or> unat carry = 1" "unat c = 0 \<or> unat c = 1" using ad(3) sb(2) by auto
      then show ?thesis using ad(2) sb(3) dP mP s True by auto
    qed
    then show ?thesis using True ge sub sb(1) mod_once [OF s] by (simp add: r_def)
  next
    case False
    then have "unat carry = 0" using ge by (simp add: unat_eq_0)
    then show ?thesis using False ge ad mod_once [OF s] by (simp add: r_def)
  qed
qed

lemma mod_add_val:
  assumes "length a = length m" "length b = length m" "limb_val a < limb_val m" "limb_val b < limb_val m"
  shows "length (mod_add a b m) = length m" "limb_val (mod_add a b m) = (limb_val a + limb_val b) mod limb_val m"
proof -
  obtain tmp carry where "bn_add a b = (tmp, carry)" by fastforce
  from reduce_val [OF assms this] this
  show "length (mod_add a b m) = length m" "limb_val (mod_add a b m) = (limb_val a + limb_val b) mod limb_val m"
    by (simp_all add: mod_add_def)
qed

lemma mod_double_val:
  assumes "length a = length m" "limb_val a < limb_val m"
  shows "length (mod_double a m) = length m" "limb_val (mod_double a m) = (2 * limb_val a) mod limb_val m"
  using mod_add_val [OF assms(1,1,2,2)] by (simp_all add: mod_add_def mod_double_def mult_2)

text \<open>The bits of a number, and that no bit is set at or above its bit length.\<close>

lemma bn_getbit_val: "bn_getbit a i \<longleftrightarrow> bit (limb_val a) i"
proof -
  have "drop_bit k w AND 1 \<noteq> 0 \<longleftrightarrow> bit w k" for w :: u32 and k
    by (simp add: and_one_eq bit_iff_odd_drop_bit odd_iff_mod_2_eq_one)
  then show ?thesis by (auto simp: bn_getbit_def bit_limb_val Let_def)
qed

lemma top_bit_test: "x AND push_bit 31 1 = 0 \<longleftrightarrow> \<not> bit (x :: u32) 31"
  using and_exp_eq_0_iff_not_bit [of x 31] by simp

lemma top_bit_above:
  assumes "pos \<le> 31" "\<And>k. bit w k \<Longrightarrow> k \<le> pos" "bit w k"
  shows "k \<le> top_bit pos (push_bit (31 - pos) w)"
  using assms
proof (induction pos)
  case (Suc pos)
  show ?case
  proof (cases "bit w (Suc pos)")
    case True
    then have "bit (push_bit (31 - Suc pos) w) 31" using Suc.prems(1) by (simp add: bit_simps)
    then show ?thesis using Suc.prems(2,3) by (simp add: top_bit_test del: push_bit_of_1)
  next
    case False
    have "push_bit (31 - Suc pos) w AND push_bit 31 1 = 0"
      using False Suc.prems(1) unfolding top_bit_test by (simp add: bit_simps)
    moreover have "k \<le> pos" if "bit w k" for k
      using Suc.prems(2) [OF that] False that by (metis le_SucE)
    moreover have "push_bit 1 (push_bit (31 - Suc pos) w) = push_bit (31 - pos) w"
    proof -
      have "31 - pos = 1 + (31 - Suc pos)" using Suc.prems(1) by simp
      then show ?thesis by (simp only: push_bit_push_bit)
    qed
    ultimately show ?thesis using Suc by simp
  qed
qed simp

lemma bn_bitlen_loop_above:
  assumes "bit (a ! i) k" "i < j" "j \<le> length a"
  shows "i * 32 + k < bn_bitlen_loop a j"
  using assms(2,3)
proof (induction j)
  case (Suc j)
  have k: "k \<le> 31" using bit_imp_le_length [OF assms(1)] by simp
  show ?case
  proof (cases "a ! j = 0")
    case True
    then have "i \<noteq> j" using assms(1) by auto
    then show ?thesis using Suc True by simp
  next
    case False
    show ?thesis
    proof (cases "i = j")
      case True
      have "k \<le> top_bit 31 (push_bit (31 - 31) (a ! j))"
        using assms(1) True bit_imp_le_length [of "a ! j"] by (intro top_bit_above) fastforce+
      then show ?thesis using False True by simp
    next
      case ne: False
      then have "i * 32 + 32 \<le> j * 32" using Suc.prems(1) by simp
      then show ?thesis using False k by simp
    qed
  qed
qed simp

lemma take_bit_bitlen: "take_bit (bn_bitlen a) (limb_val a) = limb_val a"
proof (rule bit_eqI)
  fix k
  have "k < bn_bitlen a" if "bit (limb_val a) k"
    using that bn_bitlen_loop_above [of a "k div 32" "k mod 32" "length a"]
    by (simp add: bit_limb_val bn_bitlen_def)
  then show "bit (take_bit (bn_bitlen a) (limb_val a)) k = bit (limb_val a) k" by (auto simp: bit_simps)
qed

section \<open>Multiplication and exponentiation\<close>

lemma mul_loop:
  assumes "length a = length m" "limb_val a < limb_val m"
  shows "case fold (\<lambda>i (acc, cur). (if bn_getbit b i then mod_add acc cur m else acc, mod_double cur m))
      [0..<n] (bn_zero (length m), a) of (acc, cur) \<Rightarrow>
      length acc = length m \<and> limb_val acc = limb_val a * take_bit n (limb_val b) mod limb_val m
      \<and> length cur = length m \<and> limb_val cur = limb_val a * 2 ^ n mod limb_val m"
proof (induction n)
  case 0
  then show ?case using assms by (simp add: bn_zero_def)
next
  case (Suc n)
  let ?M = "limb_val m" and ?A = "limb_val a" and ?B = "limb_val b"
  let ?f = "\<lambda>i (acc, cur). (if bn_getbit b i then mod_add acc cur m else acc, mod_double cur m)"
  obtain acc cur where st: "fold ?f [0..<n] (bn_zero (length m), a) = (acc, cur)" by fastforce
  note ih = Suc [unfolded st prod.case]
  have M: "0 < ?M" using assms(2) by simp
  have lt: "limb_val acc < ?M" "limb_val cur < ?M" using ih M by simp_all
  note d = mod_double_val [OF _ lt(2)]
  have "limb_val (mod_double cur m) = ?A * 2 ^ Suc n mod ?M"
    using d ih by (simp add: mod_mult_right_eq mult.left_commute)
  moreover have "length (if bn_getbit b n then mod_add acc cur m else acc) = length m
    \<and> limb_val (if bn_getbit b n then mod_add acc cur m else acc) = ?A * take_bit (Suc n) ?B mod ?M"
    using mod_add_val [OF _ _ lt] ih
    by (auto simp: bn_getbit_val take_bit_Suc_from_most mod_add_eq algebra_simps)
  ultimately show ?case using d(1) ih st by simp
qed

lemma mod_mul_bin_val:
  assumes "length a = length m" "limb_val a < limb_val m"
  shows "length (mod_mul_bin a b m) = length m" "limb_val (mod_mul_bin a b m) = limb_val a * limb_val b mod limb_val m"
  using mul_loop [OF assms, where b = b and n = "bn_bitlen b"]
  by (simp_all add: mod_mul_bin_def take_bit_bitlen split: prod.splits)

lemma pow_loop:
  assumes "length a = length m" "limb_val a < limb_val m" "1 < limb_val m"
  shows "case fold (\<lambda>i (r, t0). (if bn_getbit e i then mod_mul_bin r t0 m else r, mod_mul_bin t0 t0 m))
      [0..<n] ((bn_zero (length m))[0 := 1], a) of (r, t0) \<Rightarrow>
      length r = length m \<and> limb_val r = limb_val a ^ take_bit n (limb_val e) mod limb_val m
      \<and> length t0 = length m \<and> limb_val t0 = limb_val a ^ 2 ^ n mod limb_val m"
proof (induction n)
  case 0
  obtain x xs where "m = x # xs" using assms(3) by (cases m) auto
  then show ?case using assms by (simp add: bn_zero_def)
next
  case (Suc n)
  let ?M = "limb_val m" and ?A = "limb_val a" and ?E = "limb_val e"
  let ?f = "\<lambda>i (r, t0). (if bn_getbit e i then mod_mul_bin r t0 m else r, mod_mul_bin t0 t0 m)"
  obtain r t0 where st: "fold ?f [0..<n] ((bn_zero (length m))[0 := 1], a) = (r, t0)" by fastforce
  note ih = Suc [unfolded st prod.case]
  have lt: "limb_val r < ?M" "limb_val t0 < ?M" using ih assms(3) by simp_all
  note sq = mod_mul_bin_val [OF _ lt(2), of t0] and mu = mod_mul_bin_val [OF _ lt(1), of t0]
  have "limb_val (mod_mul_bin t0 t0 m) = ?A ^ 2 ^ Suc n mod ?M"
    using sq ih by (simp add: mod_mult_eq power_add [symmetric] mult_2)
  moreover have "length (if bn_getbit e n then mod_mul_bin r t0 m else r) = length m
    \<and> limb_val (if bn_getbit e n then mod_mul_bin r t0 m else r) = ?A ^ take_bit (Suc n) ?E mod ?M"
    using mu ih by (auto simp: bn_getbit_val take_bit_Suc_from_most mod_mult_eq power_add mult.commute)
  ultimately show ?case using sq(1) ih st by simp
qed

lemma mod_pow_val:
  assumes "length a = length m" "limb_val a < limb_val m" "1 < limb_val m"
  shows "length (mod_pow a e m) = length m" "limb_val (mod_pow a e m) = limb_val a ^ limb_val e mod limb_val m"
  using pow_loop [OF assms, where e = e and n = "bn_bitlen e"]
  by (simp_all add: mod_pow_def take_bit_bitlen split: prod.splits)

section \<open>Bytes and limbs\<close>

lemma byte_of_word:
  fixes k :: nat
  shows "k div 8 div 4 = k div 32" "8 * (k div 8 mod 4) + k mod 8 = k mod 32"
    "4 * (k div 32) + k mod 32 div 8 = k div 8" "k mod 32 mod 8 = k mod 8"
proof -
  show d: "k div 8 div 4 = k div 32" using div_mult2_eq [of k 8 4] by simp
  show m: "8 * (k div 8 mod 4) + k mod 8 = k mod 32" using mod_mult2_eq [of k 8 4] by simp
  have "k mod 32 div 8 = k div 8 mod 4" unfolding m [symmetric] by simp
  then show "4 * (k div 32) + k mod 32 div 8 = k div 8" unfolding d [symmetric] by simp
  show "k mod 32 mod 8 = k mod 8" by (rule mod_mod_cancel) simp
qed

lemma byte_window: "8 * q \<le> (k :: nat) \<and> k < 8 * q + 8 \<Longrightarrow> k div 8 = q \<and> k - 8 * q = k mod 8"
proof -
  assume "8 * q \<le> k \<and> k < 8 * q + 8"
  then have "k div 8 = q" by (intro div_nat_eqI) simp_all
  then show ?thesis using minus_mult_div_eq_mod [of k 8] by simp
qed

lemma from_be_loop:
  fixes be :: bytes
  assumes "n \<le> length be"
  shows "length (fold (\<lambda>i x. if i div 4 < l
        then x[i div 4 := x ! (i div 4) OR push_bit (8 * (i mod 4)) (ucast (be ! (length be - 1 - i)))] else x)
      [0..<n] (bn_zero l)) = l
    \<and> (\<forall>w k. w < l \<longrightarrow> bit (fold (\<lambda>i x. if i div 4 < l
        then x[i div 4 := x ! (i div 4) OR push_bit (8 * (i mod 4)) (ucast (be ! (length be - 1 - i)) :: u32)] else x)
      [0..<n] (bn_zero l) ! w) k
      \<longleftrightarrow> k < 32 \<and> 4 * w + k div 8 < n \<and> bit (be ! (length be - 1 - (4 * w + k div 8))) (k mod 8))"
  using assms
proof (induction n)
  case 0
  then show ?case by (simp add: bn_zero_def)
next
  case (Suc n)
  let ?f = "\<lambda>i x. if i div 4 < l
        then x[i div 4 := x ! (i div 4) OR push_bit (8 * (i mod 4)) (ucast (be ! (length be - 1 - i)) :: u32)] else x"
  define x where "x = fold ?f [0..<n] (bn_zero l)"
  have ih: "length x = l" "\<And>w k. w < l \<Longrightarrow> bit (x ! w) k
      \<longleftrightarrow> k < 32 \<and> 4 * w + k div 8 < n \<and> bit (be ! (length be - 1 - (4 * w + k div 8))) (k mod 8)"
    using Suc unfolding x_def by simp_all
  have new: "bit (push_bit (8 * (n mod 4)) (ucast (be ! (length be - 1 - n)) :: u32)) k
      \<longleftrightarrow> k < 32 \<and> k div 8 = n mod 4 \<and> bit (be ! (length be - 1 - n)) (k mod 8)" for k
  proof (cases "8 * (n mod 4) \<le> k \<and> k < 8 * (n mod 4) + 8")
    case True
    then have "k div 8 = n mod 4" "k - 8 * (n mod 4) = k mod 8" using byte_window by blast+
    moreover have "k mod 8 < 32" by (rule less_le_trans [of _ 8]) simp_all
    ultimately show ?thesis using True by (simp add: bit_simps)
  next
    case False
    then have "k div 8 \<noteq> n mod 4" by auto
    moreover have "\<not> bit (be ! (length be - 1 - n)) (k - 8 * (n mod 4))" if "8 * (n mod 4) \<le> k"
      using False that bit_imp_le_length [of "be ! (length be - 1 - n)" "k - 8 * (n mod 4)"] by auto
    ultimately show ?thesis by (auto simp: bit_simps)
  qed
  have at: "4 * (n div 4) + k div 8 = n \<longleftrightarrow> k div 8 = n mod 4" for k by (metis add_left_cancel mult_div_mod_eq)
  have "bit (?f n x ! w) k \<longleftrightarrow> k < 32 \<and> 4 * w + k div 8 < Suc n \<and> bit (be ! (length be - 1 - (4 * w + k div 8))) (k mod 8)"
    if w: "w < l" for w k
  proof (cases "w = n div 4")
    case True
    then show ?thesis using w ih at [of k] by (auto simp: bit_or_iff new [simplified] less_Suc_eq)
  next
    case False
    have "4 * w + k div 8 \<noteq> n" if "k < 32"
    proof
      assume "4 * w + k div 8 = n"
      then have "n div 4 = w" using that by (intro div_nat_eqI) auto
      then show False using False by simp
    qed
    then show ?thesis using w ih False by (auto simp: less_Suc_eq)
  qed
  moreover have "length (?f n x) = l" using ih(1) by simp
  moreover have e: "fold ?f [0..<Suc n] (bn_zero l) = ?f n x" by (simp add: x_def)
  ultimately show ?case unfolding e by blast
qed

lemma bn_from_be_bytes_val:
  assumes "length be \<le> 4 * l"
  shows "length (bn_from_be_bytes l be) = l" "limb_val (bn_from_be_bytes l be) = be_nat be"
proof -
  note f = from_be_loop [of "length be" be l, folded bn_from_be_bytes_def]
  show l: "length (bn_from_be_bytes l be) = l" using f by simp
  show "limb_val (bn_from_be_bytes l be) = be_nat be"
  proof (rule bit_eqI)
    fix k :: nat
    have "k div 8 < length be \<Longrightarrow> k div 32 < l" using assms by simp
    then show "bit (limb_val (bn_from_be_bytes l be)) k = bit (be_nat be) k"
      using f l by (auto simp: bit_limb_val bit_be_nat byte_of_word(3,4))
  qed
qed

lemma fold_rev_store:
  "n \<le> k \<Longrightarrow> fold (\<lambda>i out. out[k - 1 - i := g i]) [0..<n] (replicate k z) = replicate (k - n) z @ rev (map g [0..<n])"
proof (induction n)
  case (Suc n)
  have "k - n = Suc (k - Suc n)" using Suc.prems by simp
  then have "(replicate (k - n) z @ rev (map g [0..<n]))[k - 1 - n := g n] = replicate (k - Suc n) z @ g n # rev (map g [0..<n])"
    by (simp add: list_update_append replicate_append_same [symmetric])
  then show ?case using Suc by simp
qed simp

lemma bn_to_be_bytes_map:
  "bn_to_be_bytes x k = rev (map (\<lambda>i. if i div 4 < length x
     then ucast (drop_bit (8 * (i mod 4)) (x ! (i div 4)) AND 0xFF) else 0) [0..<k])"
  using fold_rev_store [of k k] by (simp add: bn_to_be_bytes_def)

lemma length_bn_to_be_bytes [simp]: "length (bn_to_be_bytes x k) = k"
  by (simp add: bn_to_be_bytes_map)

lemma be_nat_to_be_bytes: "be_nat (bn_to_be_bytes x k) = take_bit (8 * k) (limb_val x)"
proof (rule bit_eqI)
  fix j :: nat
  have m: "(0xFF :: u32) = mask 8" by (simp add: mask_eq_decr_exp)
  have byte: "bit (ucast (drop_bit s w AND 0xFF) :: u8) i \<longleftrightarrow> i < 8 \<and> bit w (s + i)" for s i and w :: u32
    unfolding m by (auto simp: bit_simps dest: bit_imp_le_length)
  show "bit (be_nat (bn_to_be_bytes x k)) j = bit (take_bit (8 * k) (limb_val x)) j"
  proof (cases "j div 8 < k")
    case True
    then have "j < 8 * k" "[0..<k] ! (j div 8) = j div 8" by auto
    then show ?thesis using True
      by (auto simp: be_nat_def bn_to_be_bytes_map bit_limb_val bit_take_bit_iff byte byte_of_word(1,2) simp del: upt_conv_Nil)
  next
    case False
    then have "\<not> j < 8 * k" by auto
    then show ?thesis using False by (simp add: be_nat_def bit_limb_val bit_take_bit_iff)
  qed
qed

end
