(* ===== verification/Qlog_Rsa_Correct.thy ===== *)
theory Qlog_Rsa_Correct
  imports Qlog_Rsa_Arith
begin

text \<open>
  Decryption inverts encryption for every RSA key pair. The number theory it rests on is Fermat's little
  theorem, proved here from the binomial theorem.
\<close>

section \<open>Fermat's little theorem\<close>

definition is_prime :: "nat \<Rightarrow> bool" where
  "is_prime p \<longleftrightarrow> 1 < p \<and> (\<forall>d. d dvd p \<longrightarrow> d = 1 \<or> d = p)"

lemma is_primeD: "is_prime p \<Longrightarrow> 1 < p"
  by (simp add: is_prime_def)

lemma prime_coprime: "is_prime p \<Longrightarrow> \<not> p dvd a \<Longrightarrow> coprime p a"
  unfolding is_prime_def by (metis coprime_iff_gcd_eq_1 gcd_dvd1 gcd_dvd2)

lemma prime_dvd_mult: "is_prime p \<Longrightarrow> p dvd a * b \<Longrightarrow> p dvd a \<or> p dvd b"
  using prime_coprime coprime_dvd_mult_right_iff by blast

lemma prime_dvd_fact: "is_prime p \<Longrightarrow> p dvd fact n \<Longrightarrow> p \<le> n"
proof (induction n)
  case 0
  then show ?case using is_primeD [of p] by simp
next
  case (Suc n)
  then have "p dvd Suc n \<or> p dvd fact n" using prime_dvd_mult [of p "Suc n" "fact n"] by simp
  then show ?case using Suc dvd_imp_le [of p "Suc n"] by auto
qed

lemma prime_dvd_choose:
  assumes "is_prime p" "0 < k" "k < p"
  shows "p dvd (p choose k)"
proof -
  have "fact k * fact (p - k) * (p choose k) = (fact p :: nat)" using assms(3) by (intro binomial_fact_lemma) simp
  moreover have "p dvd (fact p :: nat)" using assms by (intro dvd_fact) auto
  ultimately have "p dvd fact k * (fact (p - k) * (p choose k))" by (simp add: mult.assoc)
  then consider "p dvd (fact k :: nat)" | "p dvd (fact (p - k) :: nat)" | "p dvd (p choose k)"
    using prime_dvd_mult [OF assms(1)] by blast
  then show ?thesis
    using prime_dvd_fact [OF assms(1), of k] prime_dvd_fact [OF assms(1), of "p - k"] assms by cases auto
qed

lemma power_Suc_prime: "is_prime p \<Longrightarrow> Suc a ^ p mod p = Suc (a ^ p) mod p"
proof -
  assume p: "is_prime p"
  let ?f = "\<lambda>k. (p choose k) * a ^ k"
  have "Suc a ^ p = (\<Sum>k\<le>p. ?f k)" using binomial [of a 1 p] by simp
  also have "{..p} = {0, p} \<union> {1..<p}" using is_primeD [OF p] by auto
  also have "(\<Sum>k\<in>{0, p} \<union> {1..<p}. ?f k) = (\<Sum>k\<in>{0, p}. ?f k) + (\<Sum>k\<in>{1..<p}. ?f k)"
    by (rule sum.union_disjoint) auto
  also have "(\<Sum>k\<in>{0, p}. ?f k) = Suc (a ^ p)" using is_primeD [OF p] by simp
  finally have "Suc a ^ p = Suc (a ^ p) + (\<Sum>k\<in>{1..<p}. ?f k)" .
  moreover have "p dvd (\<Sum>k\<in>{1..<p}. ?f k)"
    by (rule dvd_sum) (use prime_dvd_choose [OF p] in auto)
  ultimately show ?thesis by (metis dvd_imp_mod_0 mod_add_right_eq add_0_right)
qed

lemma fermat_little: "is_prime p \<Longrightarrow> a ^ p mod p = a mod p"
proof (induction a)
  case 0
  then have "0 < p" using is_primeD [of p] by simp
  then show ?case by (simp add: zero_power)
next
  case (Suc a)
  then show ?case using power_Suc_prime [of p a] by (metis mod_Suc_eq)
qed

lemma fermat_unit:
  assumes "is_prime p" "\<not> p dvd a"
  shows "a ^ (p - 1) mod p = 1"
proof -
  have p: "a ^ p = a * a ^ (p - 1)" using is_primeD [OF assms(1)] by (cases p) simp_all
  have "0 < a" using assms(2) by (cases a) simp_all
  then have le: "1 \<le> a ^ (p - 1)" by simp
  have "p dvd a * a ^ (p - 1) - a"
    using fermat_little [OF assms(1), of a] le unfolding p by (subst mod_eq_dvd_iff_nat [symmetric]) simp_all
  then have "p dvd a * (a ^ (p - 1) - 1)" by (simp add: right_diff_distrib')
  then have "p dvd a ^ (p - 1) - 1" using prime_dvd_mult [OF assms(1)] assms(2) by blast
  then have "a ^ (p - 1) mod p = 1 mod p" using mod_eq_dvd_iff_nat [OF le, of p] by blast
  then show ?thesis using is_primeD [OF assms(1)] by simp
qed

lemma power_prime_cycle:
  assumes "is_prime p"
  shows "a ^ (1 + k * (p - 1)) mod p = a mod p"
proof (cases "p dvd a")
  case True
  then show ?thesis by (simp add: dvd_imp_mod_0)
next
  case False
  have "(a ^ (p - 1)) ^ k mod p = 1" 
    using power_mod [of "a ^ (p - 1)" p k] fermat_unit [OF assms False] is_primeD [OF assms] by simp
  then have "a * (a ^ (p - 1)) ^ k mod p = a * 1 mod p" by (metis mod_mult_right_eq)
  then show ?thesis by (simp add: power_mult [symmetric] mult.commute)
qed

text \<open>The identity RSA rests on.\<close>

lemma rsa_identity:
  assumes p: "is_prime p" and q: "is_prime q" and "p \<noteq> q" and x: "x mod ((p - 1) * (q - 1)) = 1" and "m < p * q"
  shows "m ^ x mod (p * q) = m"
proof -
  define k where "k = x div ((p - 1) * (q - 1))"
  have x': "x = 1 + k * ((p - 1) * (q - 1))" using div_mult_mod_eq [of x "(p - 1) * (q - 1)"] x unfolding k_def by simp
  have mp: "m ^ x mod p = m mod p"
    unfolding x' using power_prime_cycle [OF p, of m "k * (q - 1)"] by (simp add: mult.assoc mult.left_commute mult.commute)
  have mq: "m ^ x mod q = m mod q"
    unfolding x' using power_prime_cycle [OF q, of m "k * (p - 1)"] by (simp add: mult.assoc)
  have le: "m \<le> m ^ x" unfolding x' by (cases "m = 0") (simp_all add: self_le_power)
  have "coprime p q"
    using prime_coprime [OF p, of q] q \<open>p \<noteq> q\<close> is_primeD [OF p] by (auto simp: is_prime_def)
  then have "p * q dvd m ^ x - m" using mp mq le by (intro divides_mult) (simp_all add: mod_eq_dvd_iff_nat)
  then have "m ^ x mod (p * q) = m mod (p * q)" using le by (simp add: mod_eq_dvd_iff_nat)
  then show ?thesis using assms(5) by simp
qed

section \<open>The routines on byte strings\<close>

lemma limbs_cover: "n \<le> 4 * limbs_for_bytes n" "limbs_for_bytes n = 0 \<longleftrightarrow> n = 0"
  by (auto simp: limbs_for_bytes_def)

lemma hd_nonzero_bound:
  assumes "bs \<noteq> []" "hd bs \<noteq> 0"
  shows "2 ^ (8 * (length bs - 1)) \<le> be_nat bs"
proof -
  obtain b cs where bs: "bs = b # cs" using assms(1) by (cases bs) auto
  then show ?thesis using limb_val_top [of b "rev cs"] assms(2) by (simp add: be_nat_def)
qed

lemma be_nat_length_mono:
  assumes "bs \<noteq> []" "hd bs \<noteq> 0" "be_nat bs < be_nat cs"
  shows "length bs \<le> length cs"
proof (rule ccontr)
  assume "\<not> length bs \<le> length cs"
  then have "(2 :: nat) ^ (8 * length cs) \<le> 2 ^ (8 * (length bs - 1))" by (intro power_increasing) auto
  then show False using hd_nonzero_bound [OF assms(1,2)] be_nat_less [of cs] assms(3) by linarith
qed

lemma min_be_val:
  assumes "0 < limb_val x"
  shows "\<exists>bs. fixed_limbs_to_min_be x = Inr bs \<and> bs \<noteq> [] \<and> hd bs \<noteq> 0 \<and> be_nat bs = limb_val x"
proof -
  let ?k = "length x * 4"
  define tmp where "tmp = bn_to_be_bytes x ?k"
  define i where "i = length (takeWhile (\<lambda>b. b = 0) tmp)"
  have len: "length tmp = ?k" by (simp add: tmp_def)
  have v: "be_nat tmp = limb_val x"
    using limb_val_less [of x] unfolding tmp_def be_nat_to_be_bytes by (simp add: take_bit_nat_eq_self mult.commute)
  have split: "tmp = takeWhile (\<lambda>b. b = 0) tmp @ drop i tmp"
    unfolding i_def by (metis dropWhile_eq_drop takeWhile_dropWhile_id)
  have dv: "be_nat (drop i tmp) = limb_val x"
    using be_nat_zeros [of "takeWhile (\<lambda>b. b = 0) tmp" "drop i tmp"] split v
    by (metis (mono_tags, lifting) list_all_iff set_takeWhileD)
  then have ne: "drop i tmp \<noteq> []" using assms by (auto simp: be_nat_def)
  then have il: "i < ?k" using len by simp
  have "hd (drop i tmp) \<noteq> 0"
    using ne nth_length_takeWhile [of "\<lambda>b. b = 0" tmp] len il by (simp add: hd_drop_conv_nth i_def)
  moreover have "fixed_limbs_to_min_be x = Inr (drop i tmp)"
    using il len unfolding fixed_limbs_to_min_be_def Let_def
    by (simp add: tmp_def [symmetric] i_def [symmetric] mem_read_def)
  ultimately show ?thesis using ne dv by blast
qed

section \<open>Encryption and decryption\<close>

text \<open>What encryption returns: the modular power, padded to the length of the modulus.\<close>

lemma rsa_encrypt_val:
  assumes pt: "pt \<noteq> []" "hd pt \<noteq> 0" "be_nat pt < be_nat (pub_n pub)" and n: "1 < be_nat (pub_n pub)"
    and e: "pub_e pub \<noteq> []" "length (pub_e pub) \<le> length (pub_n pub)"
  shows "\<exists>c. rsa_encrypt pub pt = Inr c \<and> length c = length (pub_n pub)
    \<and> be_nat c = be_nat pt ^ be_nat (pub_e pub) mod be_nat (pub_n pub)"
proof -
  let ?k = "length (pub_n pub)" and ?l = "limbs_for_bytes (length (pub_n pub))"
  have ne: "pub_n pub \<noteq> []" using n by (auto simp: be_nat_def)
  have lp: "length pt \<le> ?k" using be_nat_length_mono [OF pt] .
  note cv = limbs_cover(1) [of ?k]
  note nl = bn_from_be_bytes_val [OF cv] and el = bn_from_be_bytes_val [of "pub_e pub" ?l]
    and ml = bn_from_be_bytes_val [of pt ?l]
  let ?N = "bn_from_be_bytes ?l (pub_n pub)" and ?E = "bn_from_be_bytes ?l (pub_e pub)" and ?M = "bn_from_be_bytes ?l pt"
  have lt: "limb_val ?M < limb_val ?N" using pt(3) nl ml lp cv by simp
  have less: "\<not> bn_ucmp ?M ?N ?l \<ge> 0" using bn_ucmp_ge [of ?M ?N] nl ml lp cv lt by simp
  have pw: "limb_val (mod_pow ?M ?E ?N) = be_nat pt ^ be_nat (pub_e pub) mod be_nat (pub_n pub)"
    using mod_pow_val(2) [OF _ lt, of ?E] nl el ml lp e cv n by simp
  have "be_nat pt ^ be_nat (pub_e pub) mod be_nat (pub_n pub) < be_nat (pub_n pub)" using n by simp
  then have "be_nat pt ^ be_nat (pub_e pub) mod be_nat (pub_n pub) < 2 ^ (8 * ?k)"
    using be_nat_less [of "pub_n pub"] by (rule less_trans)
  then have "be_nat (bn_to_be_bytes (mod_pow ?M ?E ?N) ?k) = be_nat pt ^ be_nat (pub_e pub) mod be_nat (pub_n pub)"
    unfolding be_nat_to_be_bytes pw by (rule take_bit_nat_eq_self)
  moreover have "rsa_encrypt pub pt = Inr (bn_to_be_bytes (mod_pow ?M ?E ?N) ?k)"
    using pt ne e lp less unfolding rsa_encrypt_def Let_def be_to_fixed_limbs_def fixed_limbs_to_be_bytes_def
    by (simp add: hd_conv_nth)
  ultimately show ?thesis by simp
qed

lemma rsa_decrypt_val:
  assumes n: "1 < be_nat (pri_n pri)" and d: "pri_d pri \<noteq> []" "length (pri_d pri) \<le> length (pri_n pri)"
    and c: "length c = length (pri_n pri)" "be_nat c < be_nat (pri_n pri)"
  shows "\<exists>x. rsa_decrypt pri c = fixed_limbs_to_min_be x
    \<and> limb_val x = be_nat c ^ be_nat (pri_d pri) mod be_nat (pri_n pri)"
proof -
  let ?l = "limbs_for_bytes (length (pri_n pri))"
  have ne: "pri_n pri \<noteq> []" using n by (auto simp: be_nat_def)
  note cv = limbs_cover(1) [of "length (pri_n pri)"]
  note nl = bn_from_be_bytes_val [OF cv] and dl = bn_from_be_bytes_val [of "pri_d pri" ?l]
    and cl = bn_from_be_bytes_val [of c ?l]
  let ?N = "bn_from_be_bytes ?l (pri_n pri)" and ?D = "bn_from_be_bytes ?l (pri_d pri)" and ?C = "bn_from_be_bytes ?l c"
  have lt: "limb_val ?C < limb_val ?N" using c nl cl cv by simp
  have less: "\<not> bn_ucmp ?C ?N ?l \<ge> 0" using bn_ucmp_ge [of ?C ?N] nl cl c cv lt by simp
  have "limb_val (mod_pow ?C ?D ?N) = be_nat c ^ be_nat (pri_d pri) mod be_nat (pri_n pri)"
    using mod_pow_val(2) [OF _ lt, of ?D] nl dl cl d c cv n by simp
  moreover have "rsa_decrypt pri c = fixed_limbs_to_min_be (mod_pow ?C ?D ?N)"
    using ne d c less unfolding rsa_decrypt_def Let_def be_to_fixed_limbs_def by simp
  ultimately show ?thesis by blast
qed

text \<open>
  Property C3. For every RSA key pair (a modulus that is the product of two distinct primes \<open>p\<close> and \<open>q\<close>,
  exponents with \<open>e d mod (p - 1)(q - 1) = 1\<close>) and every nonempty plaintext that does not start with a zero byte
  and is less than the modulus, encryption succeeds, returns \<open>m\<^sup>e mod n\<close> padded to the length of the modulus, and
  decryption of that returns the plaintext.
\<close>

theorem rsa_roundtrip:
  assumes p: "is_prime p" and q: "is_prime q" "p \<noteq> q" and n: "be_nat (pub_n pub) = p * q" "pri_n pri = pub_n pub"
    and ed: "be_nat (pub_e pub) * be_nat (pri_d pri) mod ((p - 1) * (q - 1)) = 1"
    and lens: "length (pub_e pub) \<le> length (pub_n pub)" "length (pri_d pri) \<le> length (pub_n pub)"
    and pt: "pt \<noteq> []" "hd pt \<noteq> 0" "be_nat pt < p * q"
  shows "\<exists>c. rsa_encrypt pub pt = Inr c \<and> length c = length (pub_n pub)
    \<and> be_nat c = be_nat pt ^ be_nat (pub_e pub) mod (p * q) \<and> rsa_decrypt pri c = Inr pt"
proof -
  have pq: "1 < p * q" using is_primeD [OF p] is_primeD [OF q(1)] by (metis less_1_mult)
  have nz: "pub_e pub \<noteq> []" "pri_d pri \<noteq> []" using ed by (auto simp: be_nat_def)
  from rsa_encrypt_val [of pt pub] pt n nz lens pq obtain c where
    c: "rsa_encrypt pub pt = Inr c" "length c = length (pub_n pub)" "be_nat c = be_nat pt ^ be_nat (pub_e pub) mod (p * q)"
    by auto
  have "be_nat c < p * q" unfolding c(3) using pq by (intro mod_less_divisor) linarith
  from rsa_decrypt_val [of pri c] this c(2) n nz lens pq obtain x where
    x: "rsa_decrypt pri c = fixed_limbs_to_min_be x" "limb_val x = be_nat c ^ be_nat (pri_d pri) mod (p * q)" by auto
  have "be_nat c ^ be_nat (pri_d pri) mod (p * q) = be_nat pt"
    unfolding c(3) power_mod power_mult [symmetric] by (rule rsa_identity [OF p q ed pt(3)])
  moreover have "0 < be_nat pt" using hd_nonzero_bound [OF pt(1,2)] by (metis less_le_trans zero_less_numeral zero_less_power)
  ultimately have "0 < limb_val x" "limb_val x = be_nat pt" using x(2) by simp_all
  with min_be_val [of x] obtain bs where
    bs: "fixed_limbs_to_min_be x = Inr bs" "bs \<noteq> []" "hd bs \<noteq> 0" "be_nat bs = be_nat pt" by auto
  then have "bs = pt" using pt(2) by (intro be_nat_minimal_inj) auto
  then show ?thesis using c x(1) bs(1) by auto
qed

lemma is_primeI:
  assumes "1 < p" "list_all (\<lambda>d. \<not> d dvd p) [2..<p]"
  shows "is_prime p"
proof -
  have "d = 1 \<or> d = p" if "d dvd p" for d
  proof (rule ccontr)
    assume "\<not> (d = 1 \<or> d = p)"
    moreover have "d \<le> p" "d \<noteq> 0" using that assms(1) by (auto intro!: Nat.gr0I dest: dvd_imp_le)
    ultimately have "d \<in> set [2..<p]" by auto
    then show False using that assms(2) by (auto simp: list_all_iff)
  qed
  then show ?thesis using assms(1) by (simp add: is_prime_def)
qed

lemma small_primes: "is_prime 3" "is_prime 11"
  by (rule is_primeI; code_simp)+

theorem rsa_roundtrip_witness:
  "\<exists>c. rsa_encrypt \<lparr>pub_n = [33], pub_e = [3]\<rparr> [4] = Inr c \<and> be_nat c = 31
    \<and> rsa_decrypt \<lparr>pri_n = [33], pri_e = [3], pri_d = [7], pri_p = [3], pri_q = [11], pri_dp = [1], pri_dq = [7],
        pri_qinv = [2]\<rparr> c = Inr [4]"
  using rsa_roundtrip [OF small_primes, of "\<lparr>pub_n = [33], pub_e = [3]\<rparr>"
    "\<lparr>pri_n = [33], pri_e = [3], pri_d = [7], pri_p = [3], pri_q = [11], pri_dp = [1], pri_dq = [7], pri_qinv = [2]\<rparr>" "[4]"]
  by (auto simp: be_nat_def)

text \<open>
  Property C23. A number that is zero is converted by copying the byte behind the vector: decryption of the zero
  ciphertext, which every private key with a modulus above 1 and a nonzero exponent accepts, reads out of bounds.
\<close>

theorem rsa_decrypt_zero_overreads:
  assumes "1 < be_nat (pri_n pri)" "0 < be_nat (pri_d pri)" "length (pri_d pri) \<le> length (pri_n pri)"
  shows "rsa_decrypt pri (replicate (length (pri_n pri)) 0) = Inl Out_of_bounds"
proof -
  have z: "be_nat (replicate n 0) = 0" for n by (simp add: be_nat_def)
  have "pri_d pri \<noteq> []" using assms(2) by (auto simp: be_nat_def)
  with rsa_decrypt_val [OF assms(1) _ assms(3), of "replicate (length (pri_n pri)) 0"] assms z obtain x where
    x: "rsa_decrypt pri (replicate (length (pri_n pri)) 0) = fixed_limbs_to_min_be x" "limb_val x = 0"
    by (auto simp: zero_power)
  have "be_nat (bn_to_be_bytes x (length x * 4)) = 0" unfolding be_nat_to_be_bytes x(2) by simp
  then have "bn_to_be_bytes x (length x * 4) = replicate (length x * 4) 0"
    using z by (intro be_nat_inj) simp_all
  then show ?thesis unfolding x(1) fixed_limbs_to_min_be_def Let_def by simp
qed

theorem rsa_decrypt_zero_overreads_witness:
  "rsa_decrypt \<lparr>pri_n = [33], pri_e = [3], pri_d = [7], pri_p = [3], pri_q = [11], pri_dp = [1], pri_dq = [7],
    pri_qinv = [2]\<rparr> [0] = Inl Out_of_bounds"
  using rsa_decrypt_zero_overreads [of "\<lparr>pri_n = [33], pri_e = [3], pri_d = [7], pri_p = [3], pri_q = [11],
    pri_dp = [1], pri_dq = [7], pri_qinv = [2]\<rparr>"] by (simp add: be_nat_def)

end
