(* ===== verification/Qlog_Rsa_Keys.thy ===== *)
theory Qlog_Rsa_Keys
  imports Qlog_Rsa_Correct
begin

text \<open>
  The key parsers read back what the standard encoders write: base64 (RFC 4648), the OpenSSH public key line and
  the PKCS#1 private key in PEM form. The encoders are the reference here.
\<close>

unbundle bit_operations_syntax

section \<open>Base64\<close>

definition b64_alphabet :: bytes where
  "b64_alphabet = ascii ''ABCDEFGHIJKLMNOPQRSTUVWXYZabcdefghijklmnopqrstuvwxyz0123456789+/''"

definition b64_char :: "u8 \<Rightarrow> u8" where
  "b64_char v = b64_alphabet ! unat (v AND 0x3F)"

fun base64_encode :: "bytes \<Rightarrow> bytes" where
  "base64_encode (a # b # c # bs) =
     b64_char (drop_bit 2 a) # b64_char (push_bit 4 a OR drop_bit 4 b)
     # b64_char (push_bit 2 b OR drop_bit 6 c) # b64_char c # base64_encode bs"
| "base64_encode [a, b] =
     [b64_char (drop_bit 2 a), b64_char (push_bit 4 a OR drop_bit 4 b), b64_char (push_bit 2 b), 61]"
| "base64_encode [a] = [b64_char (drop_bit 2 a), b64_char (push_bit 4 a), 61, 61]"
| "base64_encode [] = []"

lemma b64_alphabet_values:
  "map (\<lambda>c. b64_table ! unat c) b64_alphabet = map of_nat [0..<64]"
  by code_simp

lemma length_b64_alphabet: "length b64_alphabet = 64"
  by code_simp

lemma unat_six_bits: "unat (v AND 0x3F :: u8) < 64"
  using word_and_le1 [of v "0x3F :: u8"] by (simp add: word_le_nat_alt)

lemma b64_char_value: "b64_table ! unat (b64_char v) = v AND 0x3F"
proof -
  let ?i = "unat (v AND 0x3F)"
  have "map (\<lambda>c. b64_table ! unat c) b64_alphabet ! ?i = b64_table ! unat (b64_alphabet ! ?i)"
    using unat_six_bits [of v] by (intro nth_map) (simp add: length_b64_alphabet)
  moreover have "map of_nat [0..<64] ! ?i = (of_nat ?i :: u8)" using unat_six_bits [of v] by simp
  ultimately show ?thesis unfolding b64_alphabet_values b64_char_def by simp
qed

lemma six_bits_plain: "v AND 0x3F \<noteq> 0x80" "v AND 0x3F \<noteq> 0x81" "v AND 0x3F \<noteq> (0x82 :: u8)"
  using unat_six_bits [of v] by auto

text \<open>One character of a block: six more bits in the buffer.\<close>

definition push6 :: "u32 \<Rightarrow> u8 \<Rightarrow> u32" where
  "push6 buf v = push_bit 6 buf OR ucast (v AND 0x3F)"

lemma base64_step:
  "base64_loop (b64_char v # cs) buf bits out =
    (if bits + 6 \<ge> 8
     then base64_loop cs (push6 buf v) (bits + 6 - 8) (out @ [ucast (drop_bit (bits + 6 - 8) (push6 buf v) AND 0xFF)])
     else base64_loop cs (push6 buf v) (bits + 6) out)"
  using six_bits_plain [of v] by (simp add: b64_char_value push6_def Let_def)

lemma pad_stops: "base64_loop (61 # cs) buf bits out = Some out"
  by (simp add: b64_table_def)

lemma block_bytes:
  fixes a b c :: u8
  shows "ucast (drop_bit 4 (push6 (push6 w (drop_bit 2 a)) (push_bit 4 a OR drop_bit 4 b)) AND 0xFF) = a"
    "ucast (drop_bit 2 (push6 (push6 w (push_bit 4 a OR drop_bit 4 b)) (push_bit 2 b OR drop_bit 6 c)) AND 0xFF) = b"
    "ucast (push6 (push6 w (push_bit 2 b OR drop_bit 6 c)) c AND 0xFF) = c"
proof -
  have m: "(0x3F :: u8) = mask 6" "(0xFF :: u32) = mask 8" by (simp_all add: mask_eq_decr_exp)
  have s: "Suc (Suc (n - 2)) = n" if "2 \<le> n" for n using that by simp
  have no: "\<not> bit x (8 + n)" for x :: u8 and n using bit_imp_le_length [of x "8 + n"] by auto
  show "ucast (drop_bit 4 (push6 (push6 w (drop_bit 2 a)) (push_bit 4 a OR drop_bit 4 b)) AND 0xFF) = a"
    unfolding m push6_def by (rule bit_word_eqI) (auto simp: bit_simps s no)
  show "ucast (drop_bit 2 (push6 (push6 w (push_bit 4 a OR drop_bit 4 b)) (push_bit 2 b OR drop_bit 6 c)) AND 0xFF) = b"
    unfolding m push6_def by (rule bit_word_eqI) (auto simp: bit_simps s no)
  show "ucast (push6 (push6 w (push_bit 2 b OR drop_bit 6 c)) c AND 0xFF) = c"
    unfolding m push6_def by (rule bit_word_eqI) (auto simp: bit_simps s no)
qed

lemma base64_block:
  "base64_loop (b64_char (drop_bit 2 a) # b64_char (push_bit 4 a OR drop_bit 4 b)
     # b64_char (push_bit 2 b OR drop_bit 6 c) # b64_char c # cs) buf 0 out
   = base64_loop cs (push6 (push6 (push6 (push6 buf (drop_bit 2 a)) (push_bit 4 a OR drop_bit 4 b))
       (push_bit 2 b OR drop_bit 6 c)) c) 0 (out @ [a, b, c])"
  unfolding base64_step by (simp add: block_bytes del: base64_loop.simps)

lemma base64_loop_blank: "is_blank c \<Longrightarrow> base64_loop (c # cs) buf bits out = base64_loop cs buf bits out"
  by (auto simp: is_blank_def b64_table_def)

lemma base64_loop_blanks: "list_all is_blank cs \<Longrightarrow> base64_loop cs buf bits out = Some out"
  by (induction cs arbitrary: buf bits out) (simp_all add: base64_loop_blank del: base64_loop.simps(2))

lemma base64_loop_encode: "list_all is_blank cs \<Longrightarrow> base64_loop (base64_encode bs @ cs) buf 0 out = Some (out @ bs)"
proof (induction bs arbitrary: buf out rule: base64_encode.induct)
  case (1 a b c bs)
  show ?case unfolding base64_encode.simps append_Cons base64_block using 1 by simp
next
  case (2 a b)
  show ?case unfolding base64_encode.simps append_Cons append_Nil
    by (simp only: base64_step pad_stops) (simp add: block_bytes del: base64_loop.simps, simp add: block_bytes(2) [where c = 0, simplified])
next
  case (3 a)
  show ?case unfolding base64_encode.simps append_Cons append_Nil base64_step
    by (simp add: pad_stops block_bytes(1) [where b = 0, simplified] del: base64_loop.simps)
qed (simp add: base64_loop_blanks)

lemma base64_roundtrip: "list_all is_blank cs \<Longrightarrow> base64_decode (base64_encode bs @ cs) = Some bs"
  by (simp add: base64_decode_def base64_loop_encode)

section \<open>The OpenSSH public key\<close>

lemma mem_read_middle: "mem_read (pre @ x @ rest) (length pre) (length x) = x"
  by (simp add: mem_read_def)

lemma trim_be_zeros:
  assumes "x \<noteq> []" "hd x \<noteq> 0"
  shows "trim_be (pre @ replicate z 0 @ x @ rest) (length pre) (z + length x) = Inr x"
proof -
  have "mem_read (pre @ replicate z 0 @ x @ rest) (length pre) (z + length x) = replicate z 0 @ x"
    using mem_read_middle [of pre "replicate z 0 @ x" rest] by simp
  moreover have "takeWhile (\<lambda>b. b = 0) (replicate z 0 @ x) = replicate z (0 :: u8)"
    using assms by (induction z) (cases x; simp)+
  moreover have "mem_read (pre @ replicate z 0 @ x @ rest) (length pre + z) (length x) = x"
    using mem_read_middle [of "pre @ replicate z 0" x rest] by simp
  ultimately show ?thesis using assms(1) by (simp add: trim_be_def Let_def)
qed

lemma load_store_u32_be: "load_u32_be (pre @ store_u32_be v @ rest) (length pre) = v"
proof -
  have n: "(pre @ store_u32_be v @ rest) ! (length pre + i) = store_u32_be v ! i" if "i < 4" for i
    using that by (simp add: nth_append del: length_append) (simp add: store_u32_be_def less_Suc_eq numeral_eq_Suc nth_append)
  have "load_u32_be (pre @ store_u32_be v @ rest) (length pre) = load_u32_be (store_u32_be v) 0"
    using n [of 0] n [of 1] n [of 2] n [of 3] by (simp add: load_u32_be_def numeral_2_eq_2)
  also have "\<dots> = v"
  proof (rule bit_word_eqI)
    fix n assume "n < LENGTH(32)"
    then consider "n < 8" | "8 \<le> n" "n < 16" | "16 \<le> n" "n < 24" | "24 \<le> n" "n < 32" by fastforce
    then show "bit (load_u32_be (store_u32_be v) 0) n = bit v n"
      by cases (auto simp: load_u32_be_def store_u32_be_def bit_simps)
  qed
  finally show ?thesis .
qed

text \<open>An integer on the wire, with a zero byte in front if its top bit is set.\<close>

definition ssh_pad :: "bytes \<Rightarrow> nat" where
  "ssh_pad x = (if bit (hd x) 7 then 1 else 0)"

definition ssh_mpint_bytes :: "bytes \<Rightarrow> bytes" where
  "ssh_mpint_bytes x = store_u32_be (of_nat (ssh_pad x + length x)) @ replicate (ssh_pad x) 0 @ x"

definition ssh_wire :: "public_key \<Rightarrow> bytes" where
  "ssh_wire key = store_u32_be 7 @ ascii ''ssh-rsa'' @ ssh_mpint_bytes (pub_e key) @ ssh_mpint_bytes (pub_n key)"

definition ssh_line :: "public_key \<Rightarrow> bytes \<Rightarrow> bytes" where
  "ssh_line key comment = ascii ''ssh-rsa'' @ [32] @ base64_encode (ssh_wire key) @ comment"

lemma length_store_u32_be [simp]: "length (store_u32_be v) = 4"
  by (simp add: store_u32_be_def)

lemma ssh_mpint_read:
  assumes "x \<noteq> []" "hd x \<noteq> 0" "length x < 2 ^ 32 - 1"
  shows "ssh_mpint (pre @ ssh_mpint_bytes x @ rest) (length pre) e1 e2 = Inr (x, length pre + length (ssh_mpint_bytes x))"
proof -
  let ?m = "pre @ ssh_mpint_bytes x @ rest" and ?p = "pre @ store_u32_be (of_nat (ssh_pad x + length x))"
  have l: "load_u32_be ?m (length pre) = of_nat (ssh_pad x + length x)"
    unfolding ssh_mpint_bytes_def append_assoc by (rule load_store_u32_be)
  have u: "unat (of_nat (ssh_pad x + length x) :: u32) = ssh_pad x + length x"
    using assms(3) by (simp add: unat_of_nat ssh_pad_def del: of_nat_add of_nat_Suc)
  have "trim_be (?p @ replicate (ssh_pad x) 0 @ x @ rest) (length ?p) (ssh_pad x + length x) = Inr x"
    by (rule trim_be_zeros [OF assms(1,2)])
  then have "trim_be ?m (length pre + 4) (ssh_pad x + length x) = Inr x" by (simp add: ssh_mpint_bytes_def)
  then show ?thesis unfolding ssh_mpint_def l u Let_def by (simp add: bind_err_def ssh_mpint_bytes_def)
qed

lemma length_ssh_rsa [simp]: "length (ascii ''ssh-rsa'') = 7"
  by (simp add: ascii_def)

definition key_ok :: "public_key \<Rightarrow> bool" where
  "key_ok key \<longleftrightarrow> pub_n key \<noteq> [] \<and> hd (pub_n key) \<noteq> 0 \<and> length (pub_n key) < 2 ^ 32 - 1
     \<and> pub_e key \<noteq> [] \<and> hd (pub_e key) \<noteq> 0 \<and> length (pub_e key) < 2 ^ 32 - 1"

lemma wire_parse:
  assumes "key_ok key"
  shows "parse_ssh_wire_rsa (ssh_wire key) = Inr (pub_e key, pub_n key)"
proof -
  have l: "load_u32_be (ssh_wire key) 0 = 7"
    using load_store_u32_be [of "[]" 7] by (simp add: ssh_wire_def)
  have t: "mem_read (ssh_wire key) 4 7 = ascii ''ssh-rsa''"
    using mem_read_middle [of "store_u32_be 7" "ascii ''ssh-rsa''"] by (simp add: ssh_wire_def)
  have e: "ssh_mpint (ssh_wire key) 11 e1 e2 = Inr (pub_e key, 11 + length (ssh_mpint_bytes (pub_e key)))" for e1 e2
    using ssh_mpint_read [of "pub_e key" "store_u32_be 7 @ ascii ''ssh-rsa''"] assms
    by (simp add: ssh_wire_def key_ok_def)
  have n: "ssh_mpint (ssh_wire key) (11 + length (ssh_mpint_bytes (pub_e key))) e1 e2
      = Inr (pub_n key, 11 + length (ssh_mpint_bytes (pub_e key)) + length (ssh_mpint_bytes (pub_n key)))" for e1 e2
    using ssh_mpint_read [of "pub_n key" "store_u32_be 7 @ ascii ''ssh-rsa'' @ ssh_mpint_bytes (pub_e key)" "[]"] assms
    by (simp add: ssh_wire_def key_ok_def)
  have "11 \<le> length (ssh_wire key)" by (simp add: ssh_wire_def)
  then show ?thesis unfolding parse_ssh_wire_rsa_def Let_def l t e by (simp add: bind_err_def n)
qed

lemma alphabet_no_blank: "list_all (\<lambda>c. \<not> is_blank c \<and> c \<noteq> 45) (61 # b64_alphabet)"
  by code_simp

lemma b64_char_plain: "\<not> is_blank (b64_char v)" "b64_char v \<noteq> 45"
proof -
  have "b64_char v \<in> set (61 # b64_alphabet)"
    using unat_six_bits [of v] length_b64_alphabet by (simp add: b64_char_def)
  then show "\<not> is_blank (b64_char v)" "b64_char v \<noteq> 45" using alphabet_no_blank by (auto simp: list_all_iff)
qed

lemma base64_plain: "c \<in> set (base64_encode bs) \<Longrightarrow> \<not> is_blank c \<and> c \<noteq> 45"
  by (induction bs rule: base64_encode.induct) (auto simp: b64_char_plain, auto simp: is_blank_def)

lemma base64_nonempty: "bs \<noteq> [] \<Longrightarrow> base64_encode bs \<noteq> []"
  by (induction bs rule: base64_encode.induct) simp_all

text \<open>
  Property C16. The public key parser inverts the OpenSSH format: for every key without leading zero bytes and
  every comment, parsing the line \<open>ssh-rsa\<close>, base64 of the wire format, comment gives the key back.
\<close>

theorem ssh_public_key_roundtrip:
  assumes "key_ok key" and "comment = [] \<or> is_blank (hd comment)"
  shows "parse_public_key_ssh (ssh_line key comment) = Inr key"
proof -
  let ?b = "base64_encode (ssh_wire key)"
  have tag: "\<not> is_blank c" if "c \<in> set (ascii ''ssh-rsa'')" for c
    using that by (auto simp: ascii_def is_blank_def)
  have b: "takeWhile (\<lambda>c. \<not> is_blank c) (?b @ comment) = ?b" "dropWhile is_blank (?b @ comment) = ?b @ comment"
  proof -
    have "takeWhile (\<lambda>c. \<not> is_blank c) comment = []" using assms(2) by (cases comment) auto
    then show "takeWhile (\<lambda>c. \<not> is_blank c) (?b @ comment) = ?b"
      using base64_plain [of _ "ssh_wire key"] by (simp add: takeWhile_append2)
    have "?b \<noteq> []" by (rule base64_nonempty) (simp add: ssh_wire_def store_u32_be_def)
    then show "dropWhile is_blank (?b @ comment) = ?b @ comment"
      using base64_plain [of "hd ?b" "ssh_wire key"] by (cases ?b) auto
  qed
  have "parse_two_tokens (ssh_line key comment) = Some (ascii ''ssh-rsa'', ?b)"
  proof -
    have sp: "is_blank 32" by (simp add: is_blank_def)
    have "dropWhile is_blank (ssh_line key comment) = ssh_line key comment"
      using tag [of "hd (ascii ''ssh-rsa'')"] by (simp add: ssh_line_def ascii_def)
    moreover have "takeWhile (\<lambda>c. \<not> is_blank c) (ssh_line key comment) = ascii ''ssh-rsa''"
      "dropWhile (\<lambda>c. \<not> is_blank c) (ssh_line key comment) = 32 # ?b @ comment"
      using tag sp by (simp_all add: ssh_line_def takeWhile_append2 dropWhile_append2)
    moreover have "?b \<noteq> []" by (rule base64_nonempty) (simp add: ssh_wire_def store_u32_be_def)
    moreover have "ascii ''ssh-rsa'' \<noteq> []" by (simp add: ascii_def)
    ultimately show ?thesis using b sp unfolding parse_two_tokens_def Let_def by simp
  qed
  moreover have "bn_check_nonzero x" if "x \<noteq> []" "hd x \<noteq> 0" for x
    using that by (cases x) (simp_all add: bn_check_nonzero_def)
  ultimately show ?thesis using assms(1) wire_parse [OF assms(1)]
    by (simp add: parse_public_key_ssh_def base64_roundtrip [of "[]", simplified] key_ok_def)
qed

theorem ssh_public_key_roundtrip_witness:
  "parse_public_key_ssh (ssh_line \<lparr>pub_n = [200, 1], pub_e = [1, 0, 1]\<rparr> (ascii '' me'')) = Inr \<lparr>pub_n = [200, 1], pub_e = [1, 0, 1]\<rparr>"
  by (rule ssh_public_key_roundtrip) (simp_all add: key_ok_def ascii_def is_blank_def)

section \<open>The PKCS#1 private key\<close>

text \<open>DER: lengths below 128 take one byte, longer ones a byte count and up to four bytes.\<close>

definition der_length_bytes :: "nat \<Rightarrow> bytes" where
  "der_length_bytes l =
     (if l < 128 then [of_nat l]
      else let k = (if l < 2 ^ 8 then 1 else if l < 2 ^ 16 then 2 else if l < 2 ^ 24 then 3 else 4)
           in (0x80 OR of_nat k) # rev (le_bytes k (of_nat l :: u64)))"

definition der_tlv :: "u8 \<Rightarrow> bytes \<Rightarrow> bytes" where
  "der_tlv tag val = tag # der_length_bytes (length val) @ val"

definition der_int :: "bytes \<Rightarrow> bytes" where
  "der_int x = der_tlv 0x02 (replicate (ssh_pad x) 0 @ x)"

definition der_key_body :: "private_key \<Rightarrow> bytes" where
  "der_key_body key = der_tlv 0x02 [0] @ der_int (pri_n key) @ der_int (pri_e key) @ der_int (pri_d key)
     @ der_int (pri_p key) @ der_int (pri_q key) @ der_int (pri_dp key) @ der_int (pri_dq key) @ der_int (pri_qinv key)"

text \<open>The body is broken into lines of \<open>w\<close> characters (64 in RFC 7468), each followed by \<open>eol\<close>.\<close>

fun pem_lines :: "nat \<Rightarrow> bytes \<Rightarrow> bytes \<Rightarrow> bytes" where
  "pem_lines w eol cs = (if w = 0 \<or> length cs \<le> w then cs @ eol else take w cs @ eol @ pem_lines w eol (drop w cs))"

declare pem_lines.simps [simp del]

definition pem_text :: "nat \<Rightarrow> bytes \<Rightarrow> private_key \<Rightarrow> bytes \<Rightarrow> bytes" where
  "pem_text w eol key rest = pem_header @ eol @ pem_lines w eol (base64_encode (der_tlv 0x30 (der_key_body key))) @ pem_footer @ rest"

lemma filter_pem_lines:
  "(\<And>c. c \<in> set eol \<Longrightarrow> is_blank c) \<Longrightarrow> filter (\<lambda>c. \<not> is_blank c) (pem_lines w eol cs) = filter (\<lambda>c. \<not> is_blank c) cs"
proof (induction w eol cs rule: pem_lines.induct)
  case (1 w eol cs)
  have e: "filter (\<lambda>c. \<not> is_blank c) eol = []" using "1.prems" by simp
  show ?case
  proof (cases "w = 0 \<or> length cs \<le> w")
    case True
    then show ?thesis by (simp add: pem_lines.simps [of w eol cs] e)
  next
    case False
    then have "filter (\<lambda>c. \<not> is_blank c) (pem_lines w eol (drop w cs)) = filter (\<lambda>c. \<not> is_blank c) (drop w cs)"
      using "1.IH" "1.prems" by blast
    then show ?thesis using False filter_append [of "\<lambda>c. \<not> is_blank c" "take w cs" "drop w cs"]
      by (simp add: pem_lines.simps [of w eol cs] e)
  qed
qed

lemma pem_lines_plain:
  assumes "\<And>c. c \<in> set eol \<Longrightarrow> is_blank c" "\<And>c. c \<in> set cs \<Longrightarrow> c \<noteq> 45"
  shows "45 \<notin> set (pem_lines w eol cs)"
proof
  assume "45 \<in> set (pem_lines w eol cs)"
  then have "45 \<in> set (filter (\<lambda>c. \<not> is_blank c) (pem_lines w eol cs))" by (simp add: is_blank_def)
  then show False using assms(2) by (auto simp: filter_pem_lines [OF assms(1)])
qed

text \<open>Decoding ignores blanks, so the line breaks do not matter.\<close>

lemma base64_loop_filter: "base64_loop (filter (\<lambda>c. \<not> is_blank c) cs) buf bits out = base64_loop cs buf bits out"
proof (induction cs arbitrary: buf bits out)
  case (Cons c cs)
  show ?case
  proof (cases "is_blank c")
    case True
    then show ?thesis using Cons.IH base64_loop_blank [OF True, of cs buf bits out] by (simp del: base64_loop.simps)
  next
    case False
    then show ?thesis by (simp add: Let_def Cons.IH)
  qed
qed simp

lemma base64_lines:
  assumes "\<And>c. c \<in> set eol \<Longrightarrow> is_blank c"
  shows "base64_decode (pem_lines w eol (base64_encode bs)) = Some bs"
proof -
  have "filter (\<lambda>c. \<not> is_blank c) (base64_encode bs) = base64_encode bs" using base64_plain by (intro filter_True) blast
  then have "base64_decode (pem_lines w eol (base64_encode bs)) = base64_decode (base64_encode bs)"
    unfolding base64_decode_def by (metis base64_loop_filter filter_pem_lines [OF assms])
  then show ?thesis using base64_roundtrip [of "[]" bs] by simp
qed

lemma foldl_be: "foldl (\<lambda>len b. push_bit 8 len OR ucast b) 0 bs = (le_word (rev bs) :: u64)"
  by (induction bs rule: rev_induct) (simp_all add: or.commute)

lemma tlv_read_short:
  assumes "length val < 128" "der_p d + der_i d = length pre"
    and "der_i d + length (der_tlv tag val) \<le> der_n d"
  shows "der_next_tlv (pre @ der_tlv tag val @ rest) d
    = Some (d\<lparr>der_i := der_i d + length (der_tlv tag val)\<rparr>, tag, length pre + 2, length val)"
proof -
  let ?m = "pre @ der_tlv tag val @ rest"
  have t: "der_tlv tag val = tag # of_nat (length val) # val" using assms(1) by (simp add: der_tlv_def der_length_bytes_def)
  have m: "?m ! (der_p d + der_i d) = tag" "?m ! (der_p d + (der_i d + 1)) = of_nat (length val)"
    using assms(2) by (simp_all add: t nth_append add.assoc [symmetric])
  have u: "unat (of_nat (length val) :: u8) = length val" using assms(1) by (simp add: unat_of_nat)
  have "\<not> bit (of_nat (length val) :: u8) 7"
    using assms(1) u by (simp add: bit_iff_odd_drop_bit drop_bit_eq_div even_iff_mod_2_eq_zero) (simp add: word_arith_nat_div u)
  then have b: "(of_nat (length val) :: u8) AND 0x80 = 0"
    using and_exp_eq_0_iff_not_bit [of "of_nat (length val) :: u8" 7] by simp
  have "unat (ucast (of_nat (length val) :: u8) :: u64) = length val"
    using u assms(1) by (simp add: unsigned_ucast_eq take_bit_nat_eq_self)
  then show ?thesis using assms(2,3) m b unfolding der_next_tlv_def Let_def by (simp add: t add.assoc)
qed

lemma tlv_read_long:
  assumes "128 \<le> length val" "length val < 2 ^ 32" "der_p d + der_i d = length pre"
    and "der_i d + length (der_tlv tag val) \<le> der_n d"
  shows "der_next_tlv (pre @ der_tlv tag val @ rest) d
    = Some (d\<lparr>der_i := der_i d + length (der_tlv tag val)\<rparr>, tag,
        length pre + 1 + length (der_length_bytes (length val)), length val)"
proof -
  let ?m = "pre @ der_tlv tag val @ rest"
  define k :: nat where "k = (if length val < 2 ^ 8 then 1 else if length val < 2 ^ 16 then 2 else if length val < 2 ^ 24 then 3 else 4)"
  have k: "k \<in> {1, 2, 3, 4}" "length val < 2 ^ (8 * k)" using assms(2) by (auto simp: k_def)
  define bs where "bs = rev (le_bytes k (of_nat (length val) :: u64))"
  have t: "der_tlv tag val = tag # (0x80 OR of_nat k) # bs @ val" and lb: "length bs = k"
    using assms(1) by (simp_all add: der_tlv_def der_length_bytes_def Let_def k_def bs_def)
  have dl: "length (der_length_bytes (length val)) = Suc k"
    using assms(1) by (simp add: der_length_bytes_def Let_def k_def)
  have m: "?m ! (der_p d + der_i d) = tag" "?m ! (der_p d + (der_i d + 1)) = 0x80 OR of_nat k"
    "mem_read ?m (der_p d + (der_i d + 1 + 1)) k = bs"
  proof -
    show "?m ! (der_p d + der_i d) = tag" "?m ! (der_p d + (der_i d + 1)) = 0x80 OR of_nat k"
      using assms(3) by (simp_all add: t nth_append add.assoc [symmetric])
    show "mem_read ?m (der_p d + (der_i d + 1 + 1)) k = bs"
      using mem_read_middle [of "pre @ [tag, 0x80 OR of_nat k]" bs "val @ rest"] assms(3)
      by (simp add: t lb add.assoc [symmetric])
  qed
  have hd: "(0x80 OR of_nat k :: u8) AND 0x80 \<noteq> 0" "unat ((0x80 OR of_nat k :: u8) AND 0x7F) = k"
    using k(1) by auto
  have f: "unat (foldl (\<lambda>len b. push_bit 8 len OR ucast b) 0 bs :: u64) = length val"
  proof -
    have l: "length val < 2 ^ 64" using assms(2) by simp
    have "(foldl (\<lambda>len b. push_bit 8 len OR ucast b) 0 bs :: u64) = take_bit (8 * k) (of_nat (length val))"
      by (simp add: foldl_be bs_def le_word_le_bytes)
    moreover have "unat (take_bit (8 * k) (of_nat (length val) :: u64)) = length val"
      using l k(2) by (simp add: unsigned_take_bit_eq unat_of_nat take_bit_nat_eq_self)
    ultimately show ?thesis by simp
  qed
  have "0 < k" "\<not> 4 < k" using k(1) by auto
  then show ?thesis using assms(3,4) m hd f lb dl unfolding der_next_tlv_def Let_def
    by (simp add: t add.assoc)
qed

lemma tlv_read:
  assumes "length val < 2 ^ 32" "der_p d + der_i d = length pre"
    and "der_i d + length (der_tlv tag val) \<le> der_n d"
  shows "der_next_tlv (pre @ der_tlv tag val @ rest) d
    = Some (d\<lparr>der_i := der_i d + length (der_tlv tag val)\<rparr>, tag,
        length pre + 1 + length (der_length_bytes (length val)), length val)"
  using tlv_read_short [of val d pre tag rest] tlv_read_long [of val d pre tag rest] assms
  by (cases "length val < 128") (simp_all add: der_length_bytes_def)

text \<open>An integer field of the key body.\<close>

definition field_ok :: "bytes \<Rightarrow> bool" where
  "field_ok x \<longleftrightarrow> x \<noteq> [] \<and> hd x \<noteq> 0 \<and> length x < 2 ^ 16"

lemma length_der_tlv: "length (der_tlv tag val) = 1 + length (der_length_bytes (length val)) + length val"
  by (simp add: der_tlv_def)

lemma integer_read:
  assumes x: "field_ok x" and body: "body = A @ der_int x @ B"
  shows "der_integer (H @ body) \<lparr>der_p = length H, der_n = length body, der_i = length A\<rparr> err
    = Inr (x, \<lparr>der_p = length H, der_n = length body, der_i = length (A @ der_int x)\<rparr>)"
proof -
  let ?d = "\<lparr>der_p = length H, der_n = length body, der_i = length A\<rparr>" and ?v = "replicate (ssh_pad x) 0 @ x"
  let ?h = "H @ A @ [0x02] @ der_length_bytes (length ?v)"
  have "length ?v < 2 ^ 32" using x by (simp add: field_ok_def ssh_pad_def)
  then have n: "der_next_tlv ((H @ A) @ der_tlv 0x02 ?v @ B) ?d
    = Some (?d\<lparr>der_i := der_i ?d + length (der_tlv 0x02 ?v)\<rparr>, 0x02,
        length (H @ A) + 1 + length (der_length_bytes (length ?v)), length ?v)"
    by (rule tlv_read) (simp_all add: body der_int_def)
  have "trim_be (?h @ replicate (ssh_pad x) 0 @ x @ B) (length ?h) (ssh_pad x + length x) = Inr x"
    using x by (intro trim_be_zeros) (simp_all add: field_ok_def)
  then have "trim_be (H @ body) (length (H @ A) + 1 + length (der_length_bytes (length ?v))) (length ?v) = Inr x"
    by (simp add: body der_int_def der_tlv_def add.assoc)
  then show ?thesis using n
    by (simp add: der_integer_def body der_int_def der_expect_tag_def der_copy_int_to_be_no_lead_def bind_err_def)
qed

definition private_ok :: "private_key \<Rightarrow> bool" where
  "private_ok key \<longleftrightarrow> list_all field_ok [pri_n key, pri_e key, pri_d key, pri_p key, pri_q key, pri_dp key,
     pri_dq key, pri_qinv key]"

lemma length_der_length_bytes: "length (der_length_bytes n) \<le> 5"
  by (simp add: der_length_bytes_def Let_def)

lemma length_der_int: "field_ok x \<Longrightarrow> length (der_int x) < 2 ^ 17"
  using length_der_length_bytes [of "ssh_pad x + length x"]
  by (simp add: der_int_def length_der_tlv field_ok_def ssh_pad_def split: if_splits)

lemma length_der_key_body: "private_ok key \<Longrightarrow> length (der_key_body key) < 2 ^ 32"
  using length_der_int [of "pri_n key"] length_der_int [of "pri_e key"] length_der_int [of "pri_d key"]
    length_der_int [of "pri_p key"] length_der_int [of "pri_q key"] length_der_int [of "pri_dp key"]
    length_der_int [of "pri_dq key"] length_der_int [of "pri_qinv key"] length_der_length_bytes [of 1]
  by (simp add: private_ok_def der_key_body_def length_der_tlv)

lemma der_key_parse:
  assumes ok: "private_ok key"
  shows "parse_private_key_der (der_tlv 0x30 (der_key_body key)) = Inr key"
proof -
  let ?b = "der_key_body key"
  define H where "H = 0x30 # der_length_bytes (length ?b)"
  have m: "der_tlv 0x30 ?b = H @ ?b" by (simp add: H_def der_tlv_def)
  have out: "der_next_tlv (H @ ?b) \<lparr>der_p = 0, der_n = length (H @ ?b), der_i = 0\<rparr>
      = Some (\<lparr>der_p = 0, der_n = length (H @ ?b), der_i = length (H @ ?b)\<rparr>, 0x30, length H, length ?b)"
    using tlv_read [of ?b "\<lparr>der_p = 0, der_n = length (H @ ?b), der_i = 0\<rparr>" "[]" "0x30" "[]"]
      length_der_key_body [OF ok] by (simp add: m [symmetric] length_der_tlv) (simp add: m H_def)
  define V where "V = der_tlv 0x02 [0]"
  have ver: "\<exists>p l. der_next_tlv (H @ ?b) \<lparr>der_p = length H, der_n = length ?b, der_i = 0\<rparr>
      = Some (\<lparr>der_p = length H, der_n = length ?b, der_i = length V\<rparr>, 0x02, p, l)"
  proof -
    obtain R where R: "?b = der_tlv 0x02 [0] @ R" by (simp add: der_key_body_def)
    show ?thesis using tlv_read [of "[0]" "\<lparr>der_p = length H, der_n = length ?b, der_i = 0\<rparr>" H "0x02" R]
      by (simp add: R V_def)
  qed
  have f: "field_ok (pri_n key)" "field_ok (pri_e key)" "field_ok (pri_d key)" "field_ok (pri_p key)"
    "field_ok (pri_q key)" "field_ok (pri_dp key)" "field_ok (pri_dq key)" "field_ok (pri_qinv key)"
    using ok by (simp_all add: private_ok_def)
  define A1 where "A1 = V @ der_int (pri_n key)"
  define A2 where "A2 = A1 @ der_int (pri_e key)"
  define A3 where "A3 = A2 @ der_int (pri_d key)"
  define A4 where "A4 = A3 @ der_int (pri_p key)"
  define A5 where "A5 = A4 @ der_int (pri_q key)"
  define A6 where "A6 = A5 @ der_int (pri_dp key)"
  define A7 where "A7 = A6 @ der_int (pri_dq key)"
  define A8 where "A8 = A7 @ der_int (pri_qinv key)"
  note A = A1_def A2_def A3_def A4_def A5_def A6_def A7_def A8_def
  have rd: "der_integer (H @ ?b) \<lparr>der_p = length H, der_n = length ?b, der_i = length V\<rparr> err
      = Inr (pri_n key, \<lparr>der_p = length H, der_n = length ?b, der_i = length A1\<rparr>)"
    "der_integer (H @ ?b) \<lparr>der_p = length H, der_n = length ?b, der_i = length A1\<rparr> err
      = Inr (pri_e key, \<lparr>der_p = length H, der_n = length ?b, der_i = length A2\<rparr>)"
    "der_integer (H @ ?b) \<lparr>der_p = length H, der_n = length ?b, der_i = length A2\<rparr> err
      = Inr (pri_d key, \<lparr>der_p = length H, der_n = length ?b, der_i = length A3\<rparr>)"
    "der_integer (H @ ?b) \<lparr>der_p = length H, der_n = length ?b, der_i = length A3\<rparr> err
      = Inr (pri_p key, \<lparr>der_p = length H, der_n = length ?b, der_i = length A4\<rparr>)"
    "der_integer (H @ ?b) \<lparr>der_p = length H, der_n = length ?b, der_i = length A4\<rparr> err
      = Inr (pri_q key, \<lparr>der_p = length H, der_n = length ?b, der_i = length A5\<rparr>)"
    "der_integer (H @ ?b) \<lparr>der_p = length H, der_n = length ?b, der_i = length A5\<rparr> err
      = Inr (pri_dp key, \<lparr>der_p = length H, der_n = length ?b, der_i = length A6\<rparr>)"
    "der_integer (H @ ?b) \<lparr>der_p = length H, der_n = length ?b, der_i = length A6\<rparr> err
      = Inr (pri_dq key, \<lparr>der_p = length H, der_n = length ?b, der_i = length A7\<rparr>)"
    "der_integer (H @ ?b) \<lparr>der_p = length H, der_n = length ?b, der_i = length A7\<rparr> err
      = Inr (pri_qinv key, \<lparr>der_p = length H, der_n = length ?b, der_i = length A8\<rparr>)" for err
    using f by (simp_all only: A) (rule integer_read, assumption, simp add: der_key_body_def V_def)+
  have nz: "bn_check_nonzero x" if "field_ok x" for x
    using that by (cases x) (simp_all add: bn_check_nonzero_def field_ok_def)
  obtain p l where v: "der_next_tlv (H @ ?b) \<lparr>der_p = length H, der_n = length ?b, der_i = 0\<rparr>
      = Some (\<lparr>der_p = length H, der_n = length ?b, der_i = length V\<rparr>, 0x02, p, l)" using ver by blast
  show ?thesis
    unfolding parse_private_key_der_def m out by (simp add: v bind_err_def rd nz f der_expect_tag_def)
qed

text \<open>The first marker behind text in which the marker's first character does not occur.\<close>

lemma find_marker_after:
  assumes "h \<noteq> []" "hd h \<notin> set gap"
  shows "find_marker (pre @ gap @ h @ rest) h (length pre) = Some (length pre + length gap)"
proof -
  let ?s = "pre @ gap @ h @ rest"
  have no: "mem_read ?s j (length h) \<noteq> h" if "length pre \<le> j" "j < length pre + length gap" for j
  proof
    assume "mem_read ?s j (length h) = h"
    then have "mem_read ?s j (length h) ! 0 = hd h" using assms(1) by (simp add: hd_conv_nth)
    moreover have "mem_read ?s j (length h) ! 0 = gap ! (j - length pre)"
      using that assms(1) by (subst nth_mem_read) (auto simp: nth_append)
    ultimately show False using that assms(2) by (metis add_diff_inverse_nat nat_add_left_cancel_less not_less nth_mem)
  qed
  have yes: "mem_read ?s (length pre + length gap) (length h) = h"
    using mem_read_middle [of "pre @ gap" h rest] by simp
  let ?b = "Suc (length ?s) - length h"
  have r: "[length pre..<?b] = [length pre..<length pre + length gap] @ [length pre + length gap..<?b]"
    using upt_add_eq_append [of "length pre" "length pre + length gap" "Suc (length rest)"] by (simp add: add.assoc)
  have e: "[length pre + length gap..<?b] = (length pre + length gap) # [Suc (length pre + length gap)..<?b]"
    by (rule upt_conv_Cons) simp
  have n: "find (\<lambda>j. mem_read ?s j (length h) = h) [length pre..<length pre + length gap] = None"
    using no by (auto simp: find_None_iff)
  have app: "find P (xs @ ys) = find P ys" if "find P xs = None" for P and xs ys :: "nat list"
    using that by (induction xs) (auto split: if_splits)
  show ?thesis unfolding find_marker_def r app [OF n] e using yes by simp
qed

lemma marker_chars: "hd pem_footer = 45" "10 \<notin> set pem_header" "pem_footer \<noteq> []" "pem_header \<noteq> []"
  by (code_simp, simp_all add: pem_header_def pem_footer_def ascii_def)

text \<open>
  Property C17. The private key parser inverts the PKCS#1 PEM format: for every key whose eight integers have no
  leading zero bytes and less than 65536 bytes each, whatever the width of the lines the body is broken into, for
  both line ends and any text behind the footer, parsing the PEM text of the key gives the key back.
\<close>

theorem pem_private_key_roundtrip:
  assumes "private_ok key" and "eol = [10] \<or> eol = [13, 10]"
  shows "parse_private_key_pem (pem_text w eol key rest) = Inr key"
proof -
  let ?b = "pem_lines w eol (base64_encode (der_tlv 0x30 (der_key_body key)))" and ?s = "pem_text w eol key rest"
  have blank: "is_blank c" if "c \<in> set eol" for c using that assms(2) by (auto simp: is_blank_def)
  have s: "?s = [] @ [] @ pem_header @ eol @ ?b @ pem_footer @ rest" by (simp add: pem_text_def)
  have h: "find_marker ?s pem_header 0 = Some 0"
    unfolding s using find_marker_after [of pem_header "[]" "[]" "eol @ ?b @ pem_footer @ rest"] marker_chars by simp
  have sk: "skip_line ?s 0 = length (pem_header @ eol)"
  proof -
    have "takeWhile (\<lambda>c. c \<noteq> 10) ?s = pem_header @ butlast eol"
      using marker_chars(2) assms(2) unfolding pem_text_def by (subst takeWhile_append2) auto
    then show ?thesis using assms(2) by (auto simp: skip_line_def Let_def) (simp_all add: pem_text_def)
  qed
  have "find_marker ((pem_header @ eol) @ ?b @ pem_footer @ rest) pem_footer (length (pem_header @ eol))
      = Some (length (pem_header @ eol) + length ?b)"
    using pem_lines_plain [OF blank] base64_plain marker_chars by (intro find_marker_after) auto
  then have f: "find_marker ?s pem_footer (length (pem_header @ eol)) = Some (length (pem_header @ eol) + length ?b)"
    by (simp add: pem_text_def)
  have r: "mem_read ?s (length (pem_header @ eol)) (length ?b) = ?b"
    using mem_read_middle [of "pem_header @ eol" ?b "pem_footer @ rest"] by (simp add: pem_text_def)
  have n: "?b \<noteq> []" using assms(2) by (subst pem_lines.simps) auto
  show ?thesis unfolding parse_private_key_pem_def h option.case Let_def sk f
    using der_key_parse [OF assms(1)] r n base64_lines [OF blank] by simp
qed

text \<open>A key whose body takes several lines of 64 characters.\<close>

definition demo_private_key :: private_key where
  "demo_private_key = \<lparr>pri_n = replicate 128 33, pri_e = [3], pri_d = [7], pri_p = [3], pri_q = [11], pri_dp = [1], pri_dq = [7], pri_qinv = [2]\<rparr>"

theorem pem_private_key_roundtrip_witness:
  "parse_private_key_pem (pem_text 64 [13, 10] demo_private_key [10]) = Inr demo_private_key"
  by (rule pem_private_key_roundtrip) (simp_all add: private_ok_def field_ok_def demo_private_key_def)

end
