(* ===== verification/Qlog_Hash_Map.thy ===== *)
theory Qlog_Hash_Map
  imports Qlog_Buffer_Defs "HOL-Library.Monad_Syntax"
begin

text \<open>
  The hash map of \<open>src/include/qlog/utility/hash_map_def.hpp\<close> and \<open>hash_map_impl.hpp\<close>. The nodes live in
  one array and form a doubly linked list through indices; the nodes of a bucket are adjacent in that list, and
  the bucket array holds the index of the first of them. Unused nodes form a free list through the \<open>next\<close> field.

  A \<open>size_type\<close> is a natural number below \<open>2^32\<close>. The key and the value of a node are \<open>None\<close> while no object is
  constructed in their storage. The result \<open>None\<close> of an operation is a failed \<open>assert\<close> (an index outside an array,
  a key that is already present) or a use of storage without an object. The hash function of the key type is the
  argument \<open>hash_code\<close>.
\<close>

unbundle bit_operations_syntax

section \<open>Data\<close>

definition QLOG_HASH_MAP_INVALID_INDEX :: nat where
  "QLOG_HASH_MAP_INVALID_INDEX = 0xFFFFFFFF"

record ('k, 'v) value_node =
  node_prev :: nat
  node_next :: nat
  bucket_idx :: "nat option"
  node_key :: "'k option"
  node_value :: "'v option"

text \<open>A \<open>float\<close> \<open>(m, e)\<close> is the number \<open>m / 2^e\<close>; \<open>this_ptr\<close> is the address of the map.\<close>

type_synonym float32 = "nat \<times> nat"

record ('k, 'v) hash_map =
  this_ptr :: nat
  buckets :: "nat list"
  nodes :: "('k, 'v) value_node list"
  hm_size :: nat
  hm_head :: nat
  hm_tail :: nat
  hm_free :: nat
  expand_rate :: float32

record hash_map_iterator =
  it_parent :: nat
  it_node :: nat
  it_bucket :: nat

section \<open>Access to the arrays\<close>

definition node_at :: "('k, 'v) hash_map \<Rightarrow> nat \<Rightarrow> ('k, 'v) value_node option" where
  "node_at m i = (if i < length (nodes m) then Some (nodes m ! i) else None)"

definition set_node ::
  "nat \<Rightarrow> (('k, 'v) value_node \<Rightarrow> ('k, 'v) value_node) \<Rightarrow> ('k, 'v) hash_map \<Rightarrow> ('k, 'v) hash_map option" where
  "set_node i f m =
     (if i < length (nodes m) then Some (m\<lparr>nodes := (nodes m)[i := f (nodes m ! i)]\<rparr>) else None)"

definition bucket_at :: "('k, 'v) hash_map \<Rightarrow> nat \<Rightarrow> nat option" where
  "bucket_at m i = (if i < length (buckets m) then Some (buckets m ! i) else None)"

definition set_bucket :: "nat \<Rightarrow> nat \<Rightarrow> ('k, 'v) hash_map \<Rightarrow> ('k, 'v) hash_map option" where
  "set_bucket i v m = (if i < length (buckets m) then Some (m\<lparr>buckets := (buckets m)[i := v]\<rparr>) else None)"

text \<open>The guarded updates \<open>if (x != INVALID) nodes_[x].next = v\<close> and the same for \<open>prev\<close>.\<close>

definition link_next :: "nat \<Rightarrow> nat \<Rightarrow> ('k, 'v) hash_map \<Rightarrow> ('k, 'v) hash_map option" where
  "link_next x v m =
     (if x \<noteq> QLOG_HASH_MAP_INVALID_INDEX then set_node x (\<lambda>n. n\<lparr>node_next := v\<rparr>) m else Some m)"

definition link_prev :: "nat \<Rightarrow> nat \<Rightarrow> ('k, 'v) hash_map \<Rightarrow> ('k, 'v) hash_map option" where
  "link_prev x v m =
     (if x \<noteq> QLOG_HASH_MAP_INVALID_INDEX then set_node x (\<lambda>n. n\<lparr>node_prev := v\<rparr>) m else Some m)"

definition get_bucket_index_by_hash :: "('k, 'v) hash_map \<Rightarrow> u64 \<Rightarrow> nat" where
  "get_bucket_index_by_hash m hash = unat ((ucast hash :: u32) AND (of_nat (length (buckets m)) - 1))"

definition get_bucket_index_by_key :: "('k \<Rightarrow> u64) \<Rightarrow> ('k, 'v) hash_map \<Rightarrow> 'k \<Rightarrow> nat" where
  "get_bucket_index_by_key hash_code m key = get_bucket_index_by_hash m (hash_code key)"

section \<open>Iterators\<close>

definition end_iterator :: "('k, 'v) hash_map \<Rightarrow> hash_map_iterator" where
  "end_iterator m =
     \<lparr>it_parent = this_ptr m, it_node = QLOG_HASH_MAP_INVALID_INDEX, it_bucket = QLOG_HASH_MAP_INVALID_INDEX\<rparr>"

definition begin_iterator :: "('k, 'v) hash_map \<Rightarrow> hash_map_iterator option" where
  "begin_iterator m =
     (if hm_head m \<noteq> QLOG_HASH_MAP_INVALID_INDEX
      then do {
        n \<leftarrow> node_at m (hm_head m);
        b \<leftarrow> bucket_idx n;
        Some \<lparr>it_parent = this_ptr m, it_node = hm_head m, it_bucket = b\<rparr>
      }
      else Some (end_iterator m))"

definition iterator_eq :: "hash_map_iterator \<Rightarrow> hash_map_iterator \<Rightarrow> bool" where
  "iterator_eq a b =
     (if it_node a = QLOG_HASH_MAP_INVALID_INDEX \<and> it_node b = QLOG_HASH_MAP_INVALID_INDEX then True
      else it_node a = it_node b \<and> it_parent a = it_parent b \<and> it_bucket a = it_bucket b)"

definition get_prev_node_index :: "('k, 'v) hash_map \<Rightarrow> nat \<Rightarrow> nat option" where
  "get_prev_node_index m i =
     (if i = QLOG_HASH_MAP_INVALID_INDEX then Some QLOG_HASH_MAP_INVALID_INDEX else map_option node_prev (node_at m i))"

definition get_next_node_index :: "('k, 'v) hash_map \<Rightarrow> nat \<Rightarrow> nat option" where
  "get_next_node_index m i =
     (if i = QLOG_HASH_MAP_INVALID_INDEX then Some QLOG_HASH_MAP_INVALID_INDEX else map_option node_next (node_at m i))"

definition iterator_next :: "('k, 'v) hash_map \<Rightarrow> hash_map_iterator \<Rightarrow> hash_map_iterator option" where
  "iterator_next m it = do {
     i \<leftarrow> get_next_node_index m (it_node it);
     b \<leftarrow> (if i = QLOG_HASH_MAP_INVALID_INDEX then Some i else node_at m i \<bind> bucket_idx);
     Some (it\<lparr>it_node := i, it_bucket := b\<rparr>)
   }"

definition iterator_legal_check :: "('k, 'v) hash_map \<Rightarrow> hash_map_iterator \<Rightarrow> bool option" where
  "iterator_legal_check m it =
     (if it_node it = QLOG_HASH_MAP_INVALID_INDEX then Some False
      else if it_parent it \<noteq> this_ptr m then Some False
      else if it_node it \<ge> length (nodes m) then Some False
      else do {
        n \<leftarrow> node_at m (it_node it);
        b \<leftarrow> bucket_idx n;
        Some (b = it_bucket it)
      })"

text \<open>Dereferencing reads the constructed key and value.\<close>

definition iterator_entry :: "('k, 'v) hash_map \<Rightarrow> hash_map_iterator \<Rightarrow> ('k \<times> 'v) option" where
  "iterator_entry m it = do {
     n \<leftarrow> node_at m (it_node it);
     k \<leftarrow> node_key n;
     v \<leftarrow> node_value n;
     Some (k, v)
   }"

definition construct_key :: "hash_map_iterator \<Rightarrow> 'k \<Rightarrow> ('k, 'v) hash_map \<Rightarrow> ('k, 'v) hash_map option" where
  "construct_key it k m = set_node (it_node it) (\<lambda>n. n\<lparr>node_key := Some k\<rparr>) m"

definition construct_value :: "hash_map_iterator \<Rightarrow> 'v \<Rightarrow> ('k, 'v) hash_map \<Rightarrow> ('k, 'v) hash_map option" where
  "construct_value it v m = set_node (it_node it) (\<lambda>n. n\<lparr>node_value := Some v\<rparr>) m"

definition destruct_key :: "hash_map_iterator \<Rightarrow> ('k, 'v) hash_map \<Rightarrow> ('k, 'v) hash_map option" where
  "destruct_key it m = do {
     n \<leftarrow> node_at m (it_node it);
     k \<leftarrow> node_key n;
     set_node (it_node it) (\<lambda>n. n\<lparr>node_key := None\<rparr>) m
   }"

definition destruct_value :: "hash_map_iterator \<Rightarrow> ('k, 'v) hash_map \<Rightarrow> ('k, 'v) hash_map option" where
  "destruct_value it m = do {
     n \<leftarrow> node_at m (it_node it);
     v \<leftarrow> node_value n;
     set_node (it_node it) (\<lambda>n. n\<lparr>node_value := None\<rparr>) m
   }"

definition destruct :: "hash_map_iterator \<Rightarrow> ('k, 'v) hash_map \<Rightarrow> ('k, 'v) hash_map option" where
  "destruct it m = destruct_key it m \<bind> destruct_value it"

text \<open>The loop \<open>for (iter = begin(); iter != end(); ++iter) destruct(iter)\<close> of \<open>clear\<close> and \<open>reset\<close>.\<close>

partial_function (option) destruct_all ::
  "hash_map_iterator \<Rightarrow> ('k, 'v) hash_map \<Rightarrow> ('k, 'v) hash_map option" where
  [code]: "destruct_all it m =
     (if iterator_eq it (end_iterator m) then Some m
      else do {
        m' \<leftarrow> destruct it m;
        it' \<leftarrow> iterator_next m' it;
        destruct_all it' m'
      })"

section \<open>Growing\<close>

text \<open>
  Moving a node behind the first node of its bucket: the relinking branch of \<open>expand_buckets\<close>.
\<close>

definition relink :: "nat \<Rightarrow> nat \<Rightarrow> ('k, 'v) hash_map \<Rightarrow> ('k, 'v) hash_map option" where
  "relink cur_index bucket_value m = do {
     cur \<leftarrow> node_at m cur_index;
     let old_prev = node_prev cur;
     let old_next = node_next cur;
     let new_prev = bucket_value;
     np \<leftarrow> node_at m new_prev;
     let new_next = node_next np;
     m \<leftarrow> link_next old_prev old_next m;
     m \<leftarrow> link_prev old_next old_prev m;
     m \<leftarrow> set_node cur_index (\<lambda>n. n\<lparr>node_prev := new_prev, node_next := new_next\<rparr>) m;
     m \<leftarrow> set_node new_prev (\<lambda>n. n\<lparr>node_next := cur_index\<rparr>) m;
     m \<leftarrow> link_prev new_next cur_index m;
     let m = (if hm_tail m = cur_index then m\<lparr>hm_tail := old_prev\<rparr> else m);
     cur \<leftarrow> node_at m cur_index;
     Some (if node_prev cur = node_next cur then m\<lparr>hm_tail := QLOG_HASH_MAP_INVALID_INDEX\<rparr> else m)
   }"

definition rehash_node :: "('k \<Rightarrow> u64) \<Rightarrow> nat \<Rightarrow> ('k, 'v) hash_map \<Rightarrow> ('k, 'v) hash_map option" where
  "rehash_node hash_code cur_index m = do {
     cur \<leftarrow> node_at m cur_index;
     k \<leftarrow> node_key cur;
     let b = get_bucket_index_by_key hash_code m k;
     m \<leftarrow> set_node cur_index (\<lambda>n. n\<lparr>bucket_idx := Some b\<rparr>) m;
     bucket_value \<leftarrow> bucket_at m b;
     if bucket_value = QLOG_HASH_MAP_INVALID_INDEX then set_bucket b cur_index m
     else if node_prev cur \<noteq> bucket_value then relink cur_index bucket_value m
     else Some m
   }"

text \<open>The loop counts the nodes it visits for the assertion behind it.\<close>

partial_function (option) rehash_loop ::
  "('k \<Rightarrow> u64) \<Rightarrow> nat \<Rightarrow> nat \<Rightarrow> ('k, 'v) hash_map \<Rightarrow> (nat \<times> ('k, 'v) hash_map) option" where
  [code]: "rehash_loop hash_code index cnt m =
     (if index = QLOG_HASH_MAP_INVALID_INDEX then Some (cnt, m)
      else do {
        cur \<leftarrow> node_at m index;
        m' \<leftarrow> rehash_node hash_code index m;
        rehash_loop hash_code (node_next cur) ((cnt + 1) mod 2 ^ 32) m'
      })"

definition end_of_list :: "('k, 'v) hash_map \<Rightarrow> bool option" where
  "end_of_list m = do {
     h \<leftarrow> (if hm_head m \<noteq> QLOG_HASH_MAP_INVALID_INDEX
          then map_option (\<lambda>n. node_prev n = QLOG_HASH_MAP_INVALID_INDEX) (node_at m (hm_head m)) else Some True);
     t \<leftarrow> (if hm_tail m \<noteq> QLOG_HASH_MAP_INVALID_INDEX
          then map_option (\<lambda>n. node_next n = QLOG_HASH_MAP_INVALID_INDEX) (node_at m (hm_tail m)) else Some True);
     Some (h \<and> t)
   }"

definition expand_buckets :: "('k \<Rightarrow> u64) \<Rightarrow> nat \<Rightarrow> ('k, 'v) hash_map \<Rightarrow> ('k, 'v) hash_map option" where
  "expand_buckets hash_code sz m =
     (if sz \<le> length (buckets m) then Some m
      else
        let capacity = unat (round_pow_of_two (of_nat sz))
        in if capacity = 0 then None
           else do {
             let m = m\<lparr>buckets := replicate capacity QLOG_HASH_MAP_INVALID_INDEX\<rparr>;
             (cnt, m) \<leftarrow> rehash_loop hash_code (hm_head m) 0 m;
             ends \<leftarrow> end_of_list m;
             if length (buckets m) = capacity \<and> cnt = hm_size m \<and> ends then Some m else None
           })"

text \<open>
  \<open>expand_nodes\<close> copies the links of the old nodes, threads the new ones into the free list from the last to the
  first, and moves the entries along the list.
\<close>

definition raw_node :: "('k, 'v) value_node" where
  "raw_node = \<lparr>node_prev = QLOG_HASH_MAP_INVALID_INDEX, node_next = QLOG_HASH_MAP_INVALID_INDEX, bucket_idx = None,
     node_key = None, node_value = None\<rparr>"

fun thread_free :: "nat \<Rightarrow> nat \<Rightarrow> nat \<Rightarrow> ('k, 'v) value_node list \<Rightarrow> nat \<times> ('k, 'v) value_node list" where
  "thread_free old_space i free new_data =
     (if i > old_space
      then thread_free old_space (i - 1) (i - 1)
        (new_data[i - 1 := (new_data ! (i - 1))\<lparr>node_prev := QLOG_HASH_MAP_INVALID_INDEX, node_next := free\<rparr>])
      else (free, new_data))"

declare thread_free.simps [simp del]

partial_function (option) move_entries ::
  "hash_map_iterator \<Rightarrow> ('k, 'v) hash_map \<Rightarrow> ('k, 'v) value_node list \<Rightarrow> ('k, 'v) value_node list option" where
  [code]: "move_entries it m new_data =
     (if iterator_eq it (end_iterator m) then Some new_data
      else do {
        (k, v) \<leftarrow> iterator_entry m it;
        let i = it_node it;
        let new_data = new_data[i := (new_data ! i)\<lparr>node_key := Some k, node_value := Some v\<rparr>];
        m' \<leftarrow> destruct it m;
        it' \<leftarrow> iterator_next m' it;
        move_entries it' m' new_data
      })"

definition expand_nodes :: "nat \<Rightarrow> ('k, 'v) hash_map \<Rightarrow> ('k, 'v) hash_map option" where
  "expand_nodes sz m =
     (let old_space = length (nodes m)
      in if sz \<le> old_space then Some m
         else
           let new_space = unat (round_pow_of_two (of_nat sz))
           in if new_space < old_space then None
              else do {
                let new_data = map (\<lambda>n. n\<lparr>node_key := None, node_value := None\<rparr>) (nodes m)
                  @ replicate (new_space - old_space) raw_node;
                let (free, new_data) = thread_free old_space new_space (hm_free m) new_data;
                let m = m\<lparr>hm_free := free\<rparr>;
                it \<leftarrow> begin_iterator m;
                new_data \<leftarrow> move_entries it m new_data;
                Some (m\<lparr>nodes := new_data\<rparr>)
              })"

section \<open>Finding and allocating\<close>

partial_function (option) find_loop :: "('k, 'v) hash_map \<Rightarrow> nat \<Rightarrow> 'k \<Rightarrow> nat \<Rightarrow> nat option" where
  [code]: "find_loop m b key valid_index =
     (if valid_index = QLOG_HASH_MAP_INVALID_INDEX then Some QLOG_HASH_MAP_INVALID_INDEX
      else do {
        n \<leftarrow> node_at m valid_index;
        bi \<leftarrow> bucket_idx n;
        if bi \<noteq> b then Some QLOG_HASH_MAP_INVALID_INDEX
        else do {
          k \<leftarrow> node_key n;
          if k = key then Some valid_index else find_loop m b key (node_next n)
        }
      })"

definition find_index_and_bucket_idx_by_key ::
  "('k \<Rightarrow> u64) \<Rightarrow> 'k \<Rightarrow> ('k, 'v) hash_map \<Rightarrow> (nat \<times> nat) option" where
  "find_index_and_bucket_idx_by_key hash_code key m =
     (if length (buckets m) > 0
      then do {
        let b = get_bucket_index_by_key hash_code m key;
        valid_index \<leftarrow> bucket_at m b;
        index \<leftarrow> find_loop m b key valid_index;
        Some (index, b)
      }
      else Some (QLOG_HASH_MAP_INVALID_INDEX, QLOG_HASH_MAP_INVALID_INDEX))"

text \<open>
  \<open>float\<close> arithmetic on the sizes: conversion of an integer and a product are rounded to 24 significant bits,
  to the nearest and on a tie to the even neighbour; the conversion back to \<open>uint32_t\<close> truncates, and is undefined
  when the value does not fit.
\<close>

fun bit_length :: "nat \<Rightarrow> nat" where
  "bit_length n = (if n = 0 then 0 else bit_length (n div 2) + 1)"

declare bit_length.simps [simp del]

definition round24 :: "nat \<Rightarrow> nat" where
  "round24 n =
     (let s = bit_length n - 24; q = n div 2 ^ s; r = n mod 2 ^ s
      in if s > 0 \<and> (2 * r > 2 ^ s \<or> 2 * r = 2 ^ s \<and> odd q) then (q + 1) * 2 ^ s else q * 2 ^ s)"

definition expected_bucket_size :: "float32 \<Rightarrow> nat \<Rightarrow> nat option" where
  "expected_bucket_size rate sz =
     (let x = round24 (round24 ((sz + 1) mod 2 ^ 32) * fst rate) div 2 ^ snd rate
      in if x < 2 ^ 32 then Some ((x + 1) mod 2 ^ 32) else None)"

text \<open>The second half of \<open>alloc_node_by_key\<close>: a node of the free list becomes the first node of bucket \<open>b\<close>.\<close>

definition attach_node ::
  "nat \<Rightarrow> 'k \<Rightarrow> ('k, 'v) hash_map \<Rightarrow> (hash_map_iterator \<times> ('k, 'v) hash_map) option" where
  "attach_node b key m = do {
     target_bucket_value \<leftarrow> bucket_at m b;
     let next_node_index = target_bucket_value;
     prev_node_index \<leftarrow> (if target_bucket_value = QLOG_HASH_MAP_INVALID_INDEX then Some (hm_tail m)
       else map_option node_prev (node_at m target_bucket_value));
     if hm_free m = QLOG_HASH_MAP_INVALID_INDEX then None
     else do {
       let new_index = hm_free m;
       new_node \<leftarrow> node_at m new_index;
       let m = m\<lparr>hm_free := node_next new_node\<rparr>;
       m \<leftarrow> set_bucket b new_index m;
       m \<leftarrow> set_node new_index
         (\<lambda>n. n\<lparr>node_next := next_node_index, node_prev := prev_node_index, bucket_idx := Some b\<rparr>) m;
       m \<leftarrow> (if prev_node_index \<noteq> QLOG_HASH_MAP_INVALID_INDEX
         then set_node prev_node_index (\<lambda>n. n\<lparr>node_next := new_index\<rparr>) m else Some (m\<lparr>hm_head := new_index\<rparr>));
       m \<leftarrow> (if next_node_index \<noteq> QLOG_HASH_MAP_INVALID_INDEX
         then set_node next_node_index (\<lambda>n. n\<lparr>node_prev := new_index\<rparr>) m else Some (m\<lparr>hm_tail := new_index\<rparr>));
       let alloc_iter = \<lparr>it_parent = this_ptr m, it_node = new_index, it_bucket = b\<rparr>;
       m \<leftarrow> construct_key alloc_iter key m;
       Some (alloc_iter, m)
     }
   }"

definition alloc_node_by_key ::
  "('k \<Rightarrow> u64) \<Rightarrow> 'k \<Rightarrow> ('k, 'v) hash_map \<Rightarrow> (hash_map_iterator \<times> ('k, 'v) hash_map) option" where
  "alloc_node_by_key hash_code key m = do {
     expected \<leftarrow> expected_bucket_size (expand_rate m) (hm_size m);
     m \<leftarrow> (if expected > length (buckets m) then expand_buckets hash_code expected m else Some m);
     (index, b) \<leftarrow> find_index_and_bucket_idx_by_key hash_code key m;
     if index \<noteq> QLOG_HASH_MAP_INVALID_INDEX then None
     else do {
       m \<leftarrow> (if hm_free m = QLOG_HASH_MAP_INVALID_INDEX then expand_nodes ((length (nodes m) + 1) mod 2 ^ 32) m else Some m);
       attach_node b key m
     }
   }"

section \<open>The public operations\<close>

definition empty_hash_map :: "nat \<Rightarrow> ('k, 'v) hash_map" where
  "empty_hash_map addr =
     \<lparr>this_ptr = addr, buckets = [], nodes = [], hm_size = 0, hm_head = QLOG_HASH_MAP_INVALID_INDEX,
      hm_tail = QLOG_HASH_MAP_INVALID_INDEX, hm_free = QLOG_HASH_MAP_INVALID_INDEX, expand_rate = (3, 1)\<rparr>"

definition hash_map_new :: "('k \<Rightarrow> u64) \<Rightarrow> nat \<Rightarrow> nat \<Rightarrow> ('k, 'v) hash_map option" where
  "hash_map_new hash_code addr init_bucket_size = do {
     m \<leftarrow> expand_buckets hash_code init_bucket_size (empty_hash_map addr);
     expand_nodes (length (buckets m)) m
   }"

definition set_expand_rate :: "float32 \<Rightarrow> ('k, 'v) hash_map \<Rightarrow> ('k, 'v) hash_map" where
  "set_expand_rate rate m = m\<lparr>expand_rate := rate\<rparr>"

definition hm_find :: "('k \<Rightarrow> u64) \<Rightarrow> 'k \<Rightarrow> ('k, 'v) hash_map \<Rightarrow> hash_map_iterator option" where
  "hm_find hash_code key m = do {
     (index, b) \<leftarrow> find_index_and_bucket_idx_by_key hash_code key m;
     Some \<lparr>it_parent = this_ptr m, it_node = index, it_bucket = b\<rparr>
   }"

text \<open>\<open>add(key)\<close> is \<open>add(key, V())\<close>.\<close>

definition hm_add ::
  "('k \<Rightarrow> u64) \<Rightarrow> 'k \<Rightarrow> 'v \<Rightarrow> ('k, 'v) hash_map \<Rightarrow> (hash_map_iterator \<times> ('k, 'v) hash_map) option" where
  "hm_add hash_code key value m = do {
     (iter, m) \<leftarrow> alloc_node_by_key hash_code key m;
     m \<leftarrow> construct_value iter value m;
     Some (iter, m\<lparr>hm_size := (hm_size m + 1) mod 2 ^ 32\<rparr>)
   }"

text \<open>\<open>operator[]\<close> gives the iterator whose value it refers to; \<open>dflt\<close> is \<open>V()\<close>.\<close>

definition hm_index ::
  "('k \<Rightarrow> u64) \<Rightarrow> 'v \<Rightarrow> 'k \<Rightarrow> ('k, 'v) hash_map \<Rightarrow> (hash_map_iterator \<times> ('k, 'v) hash_map) option" where
  "hm_index hash_code dflt key m = do {
     iter \<leftarrow> hm_find hash_code key m;
     legal \<leftarrow> iterator_legal_check m iter;
     if \<not> legal then hm_add hash_code key dflt m else Some (iter, m)
   }"

definition erase_at :: "hash_map_iterator \<Rightarrow> ('k, 'v) hash_map \<Rightarrow> (bool \<times> ('k, 'v) hash_map) option" where
  "erase_at where_it m = do {
     legal \<leftarrow> iterator_legal_check m where_it;
     if \<not> legal then Some (False, m)
     else do {
       let i = it_node where_it;
       cur \<leftarrow> node_at m i;
       let prev_index = node_prev cur;
       let next_index = node_next cur;
       m \<leftarrow> (if prev_index \<noteq> QLOG_HASH_MAP_INVALID_INDEX
         then set_node prev_index (\<lambda>n. n\<lparr>node_next := next_index\<rparr>) m else Some (m\<lparr>hm_head := next_index\<rparr>));
       m \<leftarrow> (if next_index \<noteq> QLOG_HASH_MAP_INVALID_INDEX
         then node_at m i \<bind> (\<lambda>c. set_node next_index (\<lambda>n. n\<lparr>node_prev := node_prev c\<rparr>) m)
         else node_at m i \<bind> (\<lambda>c. Some (m\<lparr>hm_tail := node_prev c\<rparr>)));
       let bucket_index = it_bucket where_it;
       first \<leftarrow> bucket_at m bucket_index;
       m \<leftarrow> (if i = first
         then (if next_index \<noteq> QLOG_HASH_MAP_INVALID_INDEX
               then do {
                 n \<leftarrow> node_at m next_index;
                 b \<leftarrow> bucket_idx n;
                 set_bucket bucket_index (if b = bucket_index then next_index else QLOG_HASH_MAP_INVALID_INDEX) m
               }
               else set_bucket bucket_index QLOG_HASH_MAP_INVALID_INDEX m)
         else Some m);
       m \<leftarrow> set_node i (\<lambda>n. n\<lparr>node_next := hm_free m\<rparr>) m;
       let m = m\<lparr>hm_free := i, hm_size := (hm_size m + 2 ^ 32 - 1) mod 2 ^ 32\<rparr>;
       m \<leftarrow> destruct where_it m;
       Some (True, m)
     }
   }"

definition erase_key :: "('k \<Rightarrow> u64) \<Rightarrow> 'k \<Rightarrow> ('k, 'v) hash_map \<Rightarrow> (bool \<times> ('k, 'v) hash_map) option" where
  "erase_key hash_code key m = do {
     iter \<leftarrow> hm_find hash_code key m;
     legal \<leftarrow> iterator_legal_check m iter;
     if \<not> legal then Some (False, m) else erase_at iter m
   }"

definition relink_free :: "('k, 'v) value_node list \<Rightarrow> ('k, 'v) value_node list" where
  "relink_free ns =
     (let ns = map (\<lambda>(i, n). n\<lparr>node_prev := QLOG_HASH_MAP_INVALID_INDEX, node_next := (i + 1) mod 2 ^ 32\<rparr>) (enumerate 0 ns);
          l = length ns - 1
      in ns[l := (ns ! l)\<lparr>node_next := QLOG_HASH_MAP_INVALID_INDEX\<rparr>])"

definition clear :: "('k, 'v) hash_map \<Rightarrow> ('k, 'v) hash_map option" where
  "clear m = do {
     it \<leftarrow> begin_iterator m;
     m \<leftarrow> destruct_all it m;
     let m = m\<lparr>buckets := replicate (length (buckets m)) QLOG_HASH_MAP_INVALID_INDEX\<rparr>;
     let m = (if length (nodes m) > 0 then m\<lparr>hm_free := 0, nodes := relink_free (nodes m)\<rparr>
       else m\<lparr>hm_free := QLOG_HASH_MAP_INVALID_INDEX\<rparr>);
     Some (m\<lparr>hm_size := 0, hm_tail := QLOG_HASH_MAP_INVALID_INDEX, hm_head := QLOG_HASH_MAP_INVALID_INDEX\<rparr>)
   }"

definition reset :: "('k, 'v) hash_map \<Rightarrow> ('k, 'v) hash_map option" where
  "reset m = do {
     it \<leftarrow> begin_iterator m;
     m \<leftarrow> destruct_all it m;
     Some (m\<lparr>buckets := [], nodes := [], hm_size := 0, hm_head := QLOG_HASH_MAP_INVALID_INDEX,
       hm_tail := QLOG_HASH_MAP_INVALID_INDEX, hm_free := QLOG_HASH_MAP_INVALID_INDEX\<rparr>)
   }"

section \<open>Copies and moves\<close>

partial_function (option) add_all ::
  "('k \<Rightarrow> u64) \<Rightarrow> hash_map_iterator \<Rightarrow> ('k, 'v) hash_map \<Rightarrow> ('k, 'v) hash_map \<Rightarrow> ('k, 'v) hash_map option" where
  [code]: "add_all hash_code it rhs m =
     (if iterator_eq it (end_iterator rhs) then Some m
      else do {
        (k, v) \<leftarrow> iterator_entry rhs it;
        (_, m') \<leftarrow> hm_add hash_code k v m;
        it' \<leftarrow> iterator_next rhs it;
        add_all hash_code it' rhs m'
      })"

definition hash_map_copy :: "('k \<Rightarrow> u64) \<Rightarrow> nat \<Rightarrow> ('k, 'v) hash_map \<Rightarrow> ('k, 'v) hash_map option" where
  "hash_map_copy hash_code addr rhs = do {
     m \<leftarrow> expand_buckets hash_code (length (buckets rhs)) (empty_hash_map addr);
     m \<leftarrow> expand_nodes (length (nodes rhs)) m;
     it \<leftarrow> begin_iterator rhs;
     add_all hash_code it rhs m
   }"

text \<open>
  Copy assignment. When both are the same object the loop reads the map that \<open>clear\<close> has just emptied.
\<close>

definition assign_copy ::
  "('k \<Rightarrow> u64) \<Rightarrow> ('k, 'v) hash_map \<Rightarrow> ('k, 'v) hash_map \<Rightarrow> ('k, 'v) hash_map option" where
  "assign_copy hash_code rhs m = do {
     m \<leftarrow> clear m;
     let rhs = (if this_ptr rhs = this_ptr m then m else rhs);
     m \<leftarrow> expand_buckets hash_code (length (buckets rhs)) m;
     m \<leftarrow> expand_nodes (length (nodes rhs)) m;
     it \<leftarrow> begin_iterator rhs;
     add_all hash_code it rhs m
   }"

text \<open>A move takes the arrays of the source and leaves it empty; the expand rate is not moved.\<close>

definition take_arrays :: "('k, 'v) hash_map \<Rightarrow> ('k, 'v) hash_map \<Rightarrow> ('k, 'v) hash_map \<times> ('k, 'v) hash_map" where
  "take_arrays rhs m =
     (m\<lparr>hm_size := hm_size rhs, hm_head := hm_head rhs, hm_tail := hm_tail rhs, hm_free := hm_free rhs, buckets := buckets rhs,
        nodes := nodes rhs\<rparr>,
      rhs\<lparr>hm_size := 0, hm_head := QLOG_HASH_MAP_INVALID_INDEX, hm_tail := QLOG_HASH_MAP_INVALID_INDEX,
        hm_free := QLOG_HASH_MAP_INVALID_INDEX, buckets := [], nodes := []\<rparr>)"

definition hash_map_move :: "nat \<Rightarrow> ('k, 'v) hash_map \<Rightarrow> ('k, 'v) hash_map \<times> ('k, 'v) hash_map" where
  "hash_map_move addr rhs = take_arrays rhs (empty_hash_map addr)"

definition assign_move ::
  "('k, 'v) hash_map \<Rightarrow> ('k, 'v) hash_map \<Rightarrow> (('k, 'v) hash_map \<times> ('k, 'v) hash_map) option" where
  "assign_move rhs m = do {
     m \<leftarrow> reset m;
     Some (take_arrays (if this_ptr rhs = this_ptr m then m else rhs) m)
   }"

section \<open>Hash functions of the key types\<close>

text \<open>The conversion of an unsigned key.\<close>

definition integer_hash_code :: "'a::len word \<Rightarrow> u64" where
  "integer_hash_code value = ucast value"

text \<open>\<open>char\<close> is signed on the supported compilers, so a byte above \<open>0x7F\<close> is sign-extended.\<close>

definition string_hash_code :: "bytes \<Rightarrow> u64" where
  "string_hash_code value = foldl (\<lambda>hash c. (hash * 1099511628211) XOR scast c) 0 value"

end
