(* ===== verification/Qlog_Hash_Map_Inv.thy ===== *)
theory Qlog_Hash_Map_Inv
  imports Qlog_Hash_Map
begin

text \<open>
  The shape of a hash map: the doubly linked list of its nodes, its free list, and the buckets as runs of adjacent
  nodes. The linked lists are related to lists of indices, in the style of path predicates on a heap; linking and
  unlinking one node are proved once here for every operation that does it.
\<close>

abbreviation NIL :: nat where
  "NIL \<equiv> QLOG_HASH_MAP_INVALID_INDEX"

section \<open>Linked lists of indices\<close>

fun dlist :: "(nat \<Rightarrow> nat) \<Rightarrow> (nat \<Rightarrow> nat) \<Rightarrow> nat \<Rightarrow> nat list \<Rightarrow> nat \<Rightarrow> bool" where
  "dlist P N p [] n \<longleftrightarrow> True"
| "dlist P N p (x # xs) n \<longleftrightarrow> P x = p \<and> N x = hd (xs @ [n]) \<and> dlist P N x xs n"

fun slist :: "(nat \<Rightarrow> nat) \<Rightarrow> nat list \<Rightarrow> nat \<Rightarrow> bool" where
  "slist N [] n \<longleftrightarrow> True"
| "slist N (x # xs) n \<longleftrightarrow> N x = hd (xs @ [n]) \<and> slist N xs n"

lemma hd_append_chain: "hd ((xs @ ys) @ [n]) = hd (xs @ [hd (ys @ [n])])"
  by (cases xs) simp_all

lemma dlist_append:
  "dlist P N p (xs @ ys) n \<longleftrightarrow> dlist P N p xs (hd (ys @ [n])) \<and> dlist P N (last (p # xs)) ys n"
  by (induction xs arbitrary: p) (auto simp: hd_append_chain simp del: append_assoc)

lemma dlist_cong:
  assumes "\<And>x. x \<in> set xs \<Longrightarrow> P' x = P x \<and> N' x = N x"
  shows "dlist P' N' p xs n \<longleftrightarrow> dlist P N p xs n"
  using assms by (induction xs arbitrary: p) auto

lemma slist_append: "slist N (xs @ ys) n \<longleftrightarrow> slist N xs (hd (ys @ [n])) \<and> slist N ys n"
  by (induction xs) (auto simp: hd_append_chain simp del: append_assoc)

lemma slist_cong:
  assumes "\<And>x. x \<in> set xs \<Longrightarrow> N' x = N x"
  shows "slist N' xs n \<longleftrightarrow> slist N xs n"
  using assms by (induction xs) auto

lemma dlist_link:
  assumes "dlist P N p (xs @ ys) n" and "distinct (xs @ c # ys)"
    and "P' c = last (p # xs)" "N' c = hd (ys @ [n])"
    and "\<And>x. x \<in> set xs \<Longrightarrow> P' x = P x \<and> N' x = (if x = last xs then c else N x)"
    and "\<And>x. x \<in> set ys \<Longrightarrow> N' x = N x \<and> P' x = (if x = hd ys then c else P x)"
  shows "dlist P' N' p (xs @ c # ys) n"
  using assms
proof (induction xs arbitrary: p)
  case Nil
  show ?case
  proof (cases ys)
    case (Cons y zs)
    have "dlist P' N' y zs n \<longleftrightarrow> dlist P N y zs n" by (rule dlist_cong) (use Nil Cons in auto)
    then show ?thesis using Nil Cons by auto
  qed (use Nil in simp)
next
  case (Cons x xs)
  then show ?case by (cases xs) auto
qed

lemma dlist_unlink:
  assumes "dlist P N p (xs @ c # ys) n" and "distinct (xs @ c # ys)"
    and "\<And>x. x \<in> set xs \<Longrightarrow> P' x = P x \<and> N' x = (if x = last xs then hd (ys @ [n]) else N x)"
    and "\<And>x. x \<in> set ys \<Longrightarrow> N' x = N x \<and> P' x = (if x = hd ys then last (p # xs) else P x)"
  shows "dlist P' N' p (xs @ ys) n"
  using assms
proof (induction xs arbitrary: p)
  case Nil
  show ?case
  proof (cases ys)
    case (Cons y zs)
    have "dlist P' N' y zs n \<longleftrightarrow> dlist P N y zs n" by (rule dlist_cong) (use Nil Cons in auto)
    then show ?thesis using Nil Cons by auto
  qed (use Nil in simp)
next
  case (Cons x xs)
  then show ?case by (cases xs) auto
qed

section \<open>Buckets as runs\<close>

text \<open>Nodes with the same bucket are adjacent.\<close>

fun grouped :: "'b list \<Rightarrow> bool" where
  "grouped [] \<longleftrightarrow> True"
| "grouped (b # bs) \<longleftrightarrow> grouped bs \<and> (b \<notin> set bs \<or> hd bs = b)"

lemma grouped_snoc: "grouped bs \<Longrightarrow> c \<notin> set bs \<Longrightarrow> grouped (bs @ [c])"
  by (induction bs) (auto simp: hd_append)

lemma grouped_dup: "grouped (bs @ g # cs) \<Longrightarrow> grouped (bs @ g # g # cs)"
proof (induction bs)
  case Nil
  then show ?case by simp
next
  case (Cons a bs)
  then show ?case by (cases bs) simp_all
qed

lemma grouped_remove: "grouped (bs @ c # cs) \<Longrightarrow> grouped (bs @ cs)"
proof (induction bs)
  case Nil
  then show ?case by simp
next
  case (Cons a bs)
  then show ?case by (cases bs) auto
qed

text \<open>From the first node of a bucket the whole bucket follows, then another bucket or the end.\<close>

lemma grouped_split:
  assumes "grouped (map B xs)"
  obtains as gs bs where "xs = as @ gs @ bs" "\<And>x. x \<in> set as \<Longrightarrow> B x \<noteq> b" "\<And>x. x \<in> set gs \<Longrightarrow> B x = b"
    "\<And>x. x \<in> set bs \<Longrightarrow> B x \<noteq> b"
  using assms
proof (induction xs arbitrary: thesis)
  case Nil
  show ?case by (rule Nil(1) [of "[]" "[]" "[]"]) simp_all
next
  case (Cons x xs)
  obtain as gs bs where s: "xs = as @ gs @ bs" "\<And>x. x \<in> set as \<Longrightarrow> B x \<noteq> b" "\<And>x. x \<in> set gs \<Longrightarrow> B x = b"
    "\<And>x. x \<in> set bs \<Longrightarrow> B x \<noteq> b" using Cons.IH Cons.prems(2) by auto
  show ?case
  proof (cases "B x = b")
    case False
    show ?thesis by (rule Cons.prems(1) [of "x # as" gs bs]) (use s False in auto)
  next
    case True
    show ?thesis
    proof (cases "gs = []")
      case True
      show ?thesis by (rule Cons.prems(1) [of "[]" "[x]" xs]) (use s True \<open>B x = b\<close> in auto)
    next
      case False
      then have "B x \<in> B ` set xs" using s \<open>B x = b\<close> by (cases gs) auto
      then have "hd (map B xs) = b" using Cons.prems(2) \<open>B x = b\<close> by simp
      then have "as = []" using s by (cases as) auto
      show ?thesis by (rule Cons.prems(1) [of "[]" "x # gs" bs]) (use s \<open>B x = b\<close> \<open>as = []\<close> in auto)
    qed
  qed
qed

section \<open>The invariant\<close>

abbreviation pv :: "('k, 'v) hash_map \<Rightarrow> nat \<Rightarrow> nat" where "pv m x \<equiv> node_prev (nodes m ! x)"
abbreviation nx :: "('k, 'v) hash_map \<Rightarrow> nat \<Rightarrow> nat" where "nx m x \<equiv> node_next (nodes m ! x)"
abbreviation bk :: "('k, 'v) hash_map \<Rightarrow> nat \<Rightarrow> nat option" where "bk m x \<equiv> bucket_idx (nodes m ! x)"
abbreviation ky :: "('k, 'v) hash_map \<Rightarrow> nat \<Rightarrow> 'k option" where "ky m x \<equiv> node_key (nodes m ! x)"
abbreviation vl :: "('k, 'v) hash_map \<Rightarrow> nat \<Rightarrow> 'v option" where "vl m x \<equiv> node_value (nodes m ! x)"

text \<open>\<open>xs\<close> are the indices of the list in order, \<open>fs\<close> those of the free list.\<close>

definition hm_links :: "('k, 'v) hash_map \<Rightarrow> nat list \<Rightarrow> nat list \<Rightarrow> bool" where
  "hm_links m xs fs \<longleftrightarrow>
     dlist (pv m) (nx m) NIL xs NIL \<and> hm_head m = hd (xs @ [NIL]) \<and> hm_tail m = last (NIL # xs)
     \<and> slist (nx m) fs NIL \<and> hm_free m = hd (fs @ [NIL])
     \<and> distinct (xs @ fs) \<and> set (xs @ fs) = {..<length (nodes m)} \<and> length (nodes m) \<le> 2 ^ 31"

definition hm_objects :: "('k, 'v) hash_map \<Rightarrow> nat list \<Rightarrow> nat list \<Rightarrow> bool" where
  "hm_objects m xs fs \<longleftrightarrow>
     (\<forall>x\<in>set xs. ky m x \<noteq> None \<and> vl m x \<noteq> None) \<and> (\<forall>x\<in>set fs. ky m x = None \<and> vl m x = None)
     \<and> inj_on (ky m) (set xs)"

definition first_of :: "(nat \<Rightarrow> nat option) \<Rightarrow> nat list \<Rightarrow> nat \<Rightarrow> nat" where
  "first_of B xs b = hd (filter (\<lambda>x. B x = Some b) xs @ [NIL])"

definition hm_buckets :: "('k \<Rightarrow> u64) \<Rightarrow> ('k, 'v) hash_map \<Rightarrow> nat list \<Rightarrow> bool" where
  "hm_buckets h m xs \<longleftrightarrow>
     (\<forall>x\<in>set xs. bk m x = Some (get_bucket_index_by_key h m (the (ky m x)))) \<and> grouped (map (bk m) xs)
     \<and> (\<forall>b<length (buckets m). buckets m ! b = first_of (bk m) xs b)"

definition buckets_ok :: "('k, 'v) hash_map \<Rightarrow> bool" where
  "buckets_ok m \<longleftrightarrow> (\<exists>k\<le>31. length (buckets m) = 2 ^ k)"

definition hm_rel :: "('k \<Rightarrow> u64) \<Rightarrow> ('k, 'v) hash_map \<Rightarrow> nat list \<Rightarrow> nat list \<Rightarrow> bool" where
  "hm_rel h m xs fs \<longleftrightarrow>
     hm_links m xs fs \<and> hm_objects m xs fs \<and> hm_buckets h m xs \<and> hm_size m = length xs
     \<and> (buckets_ok m \<or> buckets m = [] \<and> xs = [])"

definition hm_invar :: "('k \<Rightarrow> u64) \<Rightarrow> ('k, 'v) hash_map \<Rightarrow> bool" where
  "hm_invar h m \<longleftrightarrow> (\<exists>xs fs. hm_rel h m xs fs)"

text \<open>The map that the constructed entries represent.\<close>

definition node_entry :: "('k, 'v) value_node \<Rightarrow> ('k \<times> 'v) list" where
  "node_entry n = (case (node_key n, node_value n) of (Some k, Some v) \<Rightarrow> [(k, v)] | _ \<Rightarrow> [])"

definition hm_abs :: "('k, 'v) hash_map \<Rightarrow> 'k \<Rightarrow> 'v option" where
  "hm_abs m = map_of (concat (map node_entry (nodes m)))"

section \<open>Consequences\<close>

lemma bucket_in_range: "buckets_ok m \<Longrightarrow> get_bucket_index_by_key h m k < length (buckets m)"
proof -
  assume "buckets_ok m"
  then obtain j where j: "j \<le> 31" "length (buckets m) = 2 ^ j" by (auto simp: buckets_ok_def)
  have "of_nat (length (buckets m)) - 1 = (mask j :: u32)" by (simp add: j mask_eq_decr_exp)
  then have "unat (x AND (of_nat (length (buckets m)) - 1)) = take_bit j (unat x)" for x :: u32
    by (simp add: take_bit_eq_mask [symmetric] unsigned_take_bit_eq)
  then show ?thesis using j by (simp add: get_bucket_index_by_key_def get_bucket_index_by_hash_def)
qed

lemma bucket_index_cong:
  "length (buckets m') = length (buckets m) \<Longrightarrow> get_bucket_index_by_key h m' = get_bucket_index_by_key h m"
  by (simp add: fun_eq_iff get_bucket_index_by_key_def get_bucket_index_by_hash_def)

lemma hm_linksD:
  assumes "hm_links m xs fs"
  shows "x \<in> set xs \<Longrightarrow> x < length (nodes m)" "x \<in> set fs \<Longrightarrow> x < length (nodes m)"
    "x \<in> set xs \<Longrightarrow> x \<noteq> NIL" "x \<in> set fs \<Longrightarrow> x \<noteq> NIL" "x < length (nodes m) \<Longrightarrow> x \<noteq> NIL"
    "x < length (nodes m) \<Longrightarrow> x \<in> set xs \<or> x \<in> set fs"
proof -
  have r: "set xs \<union> set fs = {..<length (nodes m)}" "length (nodes m) \<le> 2 ^ 31" using assms by (auto simp: hm_links_def)
  show a: "x < length (nodes m)" if "x \<in> set xs" for x using r that by blast
  show b: "x < length (nodes m)" if "x \<in> set fs" for x using r that by blast
  show c: "x \<noteq> NIL" if "x < length (nodes m)" for x using r that by (simp add: QLOG_HASH_MAP_INVALID_INDEX_def)
  show "x \<noteq> NIL" if "x \<in> set xs" for x using a c that by blast
  show "x \<noteq> NIL" if "x \<in> set fs" for x using b c that by blast
  show "x \<in> set xs \<or> x \<in> set fs" if "x < length (nodes m)" for x using r that by blast
qed

lemma hm_abs_iff:
  assumes "hm_links m xs fs" "hm_objects m xs fs"
  shows "hm_abs m k = Some v \<longleftrightarrow> (\<exists>x\<in>set xs. ky m x = Some k \<and> vl m x = Some v)"
proof -
  let ?es = "concat (map node_entry (nodes m))"
  have idx: "x \<in> set xs" if "x < length (nodes m)" "ky m x \<noteq> None" for x
    using hm_linksD(6) [OF assms(1) that(1)] that(2) assms(2) by (auto simp: hm_objects_def)
  have mem: "(k', v') \<in> set ?es \<longleftrightarrow> (\<exists>x<length (nodes m). ky m x = Some k' \<and> vl m x = Some v')" for k' v'
    by (auto simp: in_set_conv_nth [of _ "nodes m"] node_entry_def split: option.splits) (metis nth_mem option.exhaust)
  have one: "v' = v''" if e: "(k', v') \<in> set ?es" "(k', v'') \<in> set ?es" for k' v' v''
  proof -
    obtain x y where "x < length (nodes m)" "ky m x = Some k'" "vl m x = Some v'"
      "y < length (nodes m)" "ky m y = Some k'" "vl m y = Some v''" using e mem by meson
    moreover then have "x = y" using idx assms(2) unfolding hm_objects_def by (metis inj_onD option.distinct(1))
    ultimately show ?thesis by simp
  qed
  have "map_of ?es k = Some v \<longleftrightarrow> (k, v) \<in> set ?es"
  proof
    assume "(k, v) \<in> set ?es"
    then obtain v' where "map_of ?es k = Some v'" by (metis map_of_eq_None_iff not_None_eq image_iff fst_conv)
    then show "map_of ?es k = Some v" using one \<open>(k, v) \<in> set ?es\<close> map_of_SomeD by metis
  qed (rule map_of_SomeD)
  then show ?thesis unfolding hm_abs_def mem using idx hm_linksD(1) [OF assms(1)] by auto
qed

lemma hm_rel_abs:
  "hm_rel h m xs fs \<Longrightarrow> hm_abs m k = Some v \<longleftrightarrow> (\<exists>x\<in>set xs. ky m x = Some k \<and> vl m x = Some v)"
  unfolding hm_rel_def using hm_abs_iff by metis

end
