(* ===== verification/Qlog_Hash_Map_Grow.thy ===== *)
theory Qlog_Hash_Map_Grow
  imports Qlog_Hash_Map_Inv
begin

text \<open>
  Lookup and growth of the hash map: the search stays in its bucket and finds the key, rehashing to more buckets
  visits every node once and makes the buckets adjacent again.
\<close>

lemmas hm_access = node_at_def set_node_def bucket_at_def set_bucket_def link_next_def link_prev_def

definition upd :: "nat \<Rightarrow> (('k, 'v) value_node \<Rightarrow> ('k, 'v) value_node) \<Rightarrow> ('k, 'v) hash_map \<Rightarrow> ('k, 'v) hash_map" where
  "upd i f m = m\<lparr>nodes := (nodes m)[i := f (nodes m ! i)]\<rparr>"

lemma set_node_run: "i < length (nodes m) \<Longrightarrow> set_node i f m = Some (upd i f m)"
  by (simp add: set_node_def upd_def)

lemma link_run:
  assumes "x \<noteq> NIL \<Longrightarrow> x < length (nodes m)"
  shows "link_next x v m = Some (if x = NIL then m else upd x (\<lambda>n. n\<lparr>node_next := v\<rparr>) m)"
    "link_prev x v m = Some (if x = NIL then m else upd x (\<lambda>n. n\<lparr>node_prev := v\<rparr>) m)"
  using assms by (simp_all add: link_next_def link_prev_def set_node_run)

lemma upd_fields [simp]:
  "this_ptr (upd i f m) = this_ptr m" "buckets (upd i f m) = buckets m" "hm_size (upd i f m) = hm_size m"
  "hm_head (upd i f m) = hm_head m" "hm_tail (upd i f m) = hm_tail m" "hm_free (upd i f m) = hm_free m"
  "expand_rate (upd i f m) = expand_rate m" "length (nodes (upd i f m)) = length (nodes m)"
  by (simp_all add: upd_def)

lemma nodes_upd: "i < length (nodes m) \<Longrightarrow> nodes (upd i f m) ! x = (if x = i then f (nodes m ! i) else nodes m ! x)"
  by (simp add: upd_def nth_list_update)

lemma upd_links:
  assumes "i < length (nodes m)"
  shows "nx (upd i (\<lambda>n. n\<lparr>node_next := v\<rparr>) m) = (nx m)(i := v)" "pv (upd i (\<lambda>n. n\<lparr>node_next := v\<rparr>) m) = pv m"
    "pv (upd i (\<lambda>n. n\<lparr>node_prev := w\<rparr>) m) = (pv m)(i := w)" "nx (upd i (\<lambda>n. n\<lparr>node_prev := w\<rparr>) m) = nx m"
    "nx (upd i (\<lambda>n. n\<lparr>node_prev := w, node_next := v\<rparr>) m) = (nx m)(i := v)"
    "pv (upd i (\<lambda>n. n\<lparr>node_prev := w, node_next := v\<rparr>) m) = (pv m)(i := w)"
  using assms by (simp_all add: fun_eq_iff nodes_upd)

lemma upd_objects:
  assumes "i < length (nodes m)" "\<And>n. node_key (f n) = node_key n \<and> node_value (f n) = node_value n"
  shows "ky (upd i f m) x = ky m x" "vl (upd i f m) x = vl m x"
  using assms by (simp_all add: nodes_upd)

lemma upd_bucket_idx:
  assumes "i < length (nodes m)" "\<And>n. bucket_idx (f n) = bucket_idx n"
  shows "bk (upd i f m) x = bk m x"
  using assms by (simp_all add: nodes_upd)

lemma hm_tail_self: "hm_tail m = t \<Longrightarrow> m\<lparr>hm_tail := t\<rparr> = m"
  by (cases m) simp

section \<open>Lookup\<close>

lemma find_loop_run:
  assumes "hm_links m (as @ gs @ bs) fs" and "\<And>x. x \<in> set (gs @ bs) \<Longrightarrow> bk m x \<noteq> None \<and> ky m x \<noteq> None"
    and "\<And>x. x \<in> set gs \<Longrightarrow> bk m x = Some b" "\<And>x. x \<in> set bs \<Longrightarrow> bk m x \<noteq> Some b"
  shows "find_loop m b key (hd (gs @ bs @ [NIL])) = Some (hd (filter (\<lambda>x. ky m x = Some key) gs @ [NIL]))"
  using assms
proof (induction gs arbitrary: as)
  case Nil
  show ?case
  proof (cases bs)
    case Nil
    then show ?thesis by (simp add: find_loop.simps)
  next
    case (Cons y ys)
    then have "y < length (nodes m)" using hm_linksD(1) [OF Nil.prems(1)] by simp
    moreover obtain bi where "bk m y = Some bi" "bi \<noteq> b" using Nil.prems(2,4) [of y] Cons by fastforce
    ultimately show ?thesis using Cons by (simp add: find_loop.simps node_at_def)
  qed
next
  case (Cons g gs)
  have g: "g < length (nodes m)" "g \<noteq> NIL" using hm_linksD(1,3) [OF Cons.prems(1)] by simp_all
  have nx: "nx m g = hd (gs @ bs @ [NIL])" using Cons.prems(1) by (simp add: hm_links_def dlist_append)
  have ih: "find_loop m b key (hd (gs @ bs @ [NIL])) = Some (hd (filter (\<lambda>x. ky m x = Some key) gs @ [NIL]))"
    by (rule Cons.IH [of "as @ [g]"]) (use Cons.prems in auto)
  obtain k where "ky m g = Some k" "bk m g = Some b" using Cons.prems(2,3) by fastforce
  then show ?case using g ih nx by (simp add: find_loop.simps [of m b key g] node_at_def)
qed

lemma first_of_split:
  assumes "\<And>x. x \<in> set as \<Longrightarrow> B x \<noteq> Some b" "\<And>x. x \<in> set gs \<Longrightarrow> B x = Some b" "\<And>x. x \<in> set bs \<Longrightarrow> B x \<noteq> Some b"
  shows "first_of B (as @ gs @ bs) b = hd (gs @ [NIL])"
proof -
  have "filter (\<lambda>x. B x = Some b) as = []" "filter (\<lambda>x. B x = Some b) gs = gs" "filter (\<lambda>x. B x = Some b) bs = []"
    using assms by (auto simp: filter_empty_conv filter_id_conv)
  then show ?thesis by (simp add: first_of_def)
qed

lemma find_index_run:
  assumes rel: "hm_rel h m xs fs"
  shows "\<exists>i b. find_index_and_bucket_idx_by_key h key m = Some (i, b)
    \<and> (i \<noteq> NIL \<longrightarrow> i \<in> set xs \<and> ky m i = Some key \<and> bk m i = Some b)
    \<and> (i = NIL \<longrightarrow> (\<forall>x\<in>set xs. ky m x \<noteq> Some key))
    \<and> (buckets_ok m \<longrightarrow> b = get_bucket_index_by_key h m key)"
proof (cases "buckets m = []")
  case True
  then show ?thesis using rel by (auto simp: find_index_and_bucket_idx_by_key_def hm_rel_def buckets_ok_def)
next
  case False
  define b where "b = get_bucket_index_by_key h m key"
  have l: "hm_links m xs fs" and o: "hm_objects m xs fs" and bu: "hm_buckets h m xs" and ok: "buckets_ok m"
    using rel False by (auto simp: hm_rel_def)
  have b: "b < length (buckets m)" using bucket_in_range [OF ok] by (simp add: b_def)
  have "grouped (map (bk m) xs)" using bu by (simp add: hm_buckets_def)
  then obtain as gs bs where s: "xs = as @ gs @ bs" "\<And>x. x \<in> set as \<Longrightarrow> bk m x \<noteq> Some b"
    "\<And>x. x \<in> set gs \<Longrightarrow> bk m x = Some b" "\<And>x. x \<in> set bs \<Longrightarrow> bk m x \<noteq> Some b"
    by (rule grouped_split) blast
  let ?i = "hd (filter (\<lambda>x. ky m x = Some key) gs @ [NIL])"
  have "bk m x \<noteq> None \<and> ky m x \<noteq> None" if "x \<in> set (gs @ bs)" for x
    using that bu o by (auto simp: s(1) hm_buckets_def hm_objects_def)
  then have run: "find_loop m b key (hd (gs @ bs @ [NIL])) = Some ?i"
    using find_loop_run [of m as gs bs fs b key] l s by auto
  have "buckets m ! b = hd (gs @ [NIL])" using bu b s first_of_split by (simp add: hm_buckets_def)
  moreover have "find_loop m b key (hd (gs @ [NIL])) = Some ?i"
    using run by (cases gs) (simp_all add: find_loop.simps)
  ultimately have found: "find_index_and_bucket_idx_by_key h key m = Some (?i, b)"
    using False b by (simp add: find_index_and_bucket_idx_by_key_def Let_def b_def [symmetric] bucket_at_def)
  have ingroup: "x \<in> set gs" if "x \<in> set xs" "ky m x = Some key" for x
  proof -
    have "bk m x = Some b" using bu that by (auto simp: hm_buckets_def b_def)
    then show ?thesis using that(1) s by auto
  qed
  have hit: "?i \<in> set xs \<and> ky m ?i = Some key \<and> bk m ?i = Some b" if i: "?i \<noteq> NIL"
  proof -
    obtain y ys where f: "filter (\<lambda>x. ky m x = Some key) gs = y # ys" using i by (cases "filter (\<lambda>x. ky m x = Some key) gs") auto
    then have "y \<in> set (filter (\<lambda>x. ky m x = Some key) gs)" by simp
    then have "y \<in> set gs" "ky m y = Some key" by (simp_all only: set_filter mem_Collect_eq)
    then show ?thesis using f s by simp
  qed
  have miss: "filter (\<lambda>x. ky m x = Some key) gs = []" if "?i = NIL"
  proof (rule ccontr)
    assume "filter (\<lambda>x. ky m x = Some key) gs \<noteq> []"
    then obtain y ys where f: "filter (\<lambda>x. ky m x = Some key) gs = y # ys" by (meson neq_Nil_conv)
    then have "y \<in> set (filter (\<lambda>x. ky m x = Some key) gs)" by simp
    then have "y \<in> set gs" by (simp only: set_filter mem_Collect_eq)
    then show False using that f hm_linksD(3) [OF l] s(1) by auto
  qed
  have "\<forall>x\<in>set xs. ky m x \<noteq> Some key" if "?i = NIL"
    using miss [OF that] ingroup by (auto simp: filter_empty_conv)
  then show ?thesis using found hit b_def by blast
qed

section \<open>Rehashing\<close>

definition hm_same :: "('k, 'v) hash_map \<Rightarrow> ('k, 'v) hash_map \<Rightarrow> bool" where
  "hm_same m m' \<longleftrightarrow>
     this_ptr m' = this_ptr m \<and> hm_size m' = hm_size m \<and> expand_rate m' = expand_rate m
     \<and> length (nodes m') = length (nodes m) \<and> length (buckets m') = length (buckets m)
     \<and> (\<forall>x. ky m' x = ky m x \<and> vl m' x = vl m x)"

lemma hm_same_trans: "hm_same m m' \<Longrightarrow> hm_same m' m'' \<Longrightarrow> hm_same m m''"
  by (simp add: hm_same_def)

lemma hm_same_refl [simp]: "hm_same m m"
  by (simp add: hm_same_def)

lemma relink_run:
  assumes l: "hm_links m (as @ g # bs @ c # qs) fs" and bs: "bs \<noteq> []"
  shows "\<exists>m'. relink c g m = Some m' \<and> hm_links m' (as @ g # c # bs @ qs) fs \<and> hm_same m m'
    \<and> buckets m' = buckets m \<and> (\<forall>x. bk m' x = bk m x)"
proof -
  have d: "distinct (as @ g # bs @ c # qs @ fs)" and len: "length (nodes m) \<le> 2 ^ 31"
    and dl: "dlist (pv m) (nx m) NIL (as @ g # bs @ c # qs) NIL" and fl: "slist (nx m) fs NIL"
    using l by (auto simp: hm_links_def)
  note rng = hm_linksD(1) [OF l] hm_linksD(3) [OF l]
  have g: "nx m g = hd bs" using dl bs by (simp add: dlist_append)
  have c: "pv m c = last bs" "nx m c = hd (qs @ [NIL])" using dl bs by (auto simp: dlist_append)
  have r: "g < length (nodes m)" "c < length (nodes m)" "last bs < length (nodes m)" "hd bs < length (nodes m)"
    "last bs \<noteq> NIL" "hd bs \<noteq> NIL" "qs \<noteq> [] \<Longrightarrow> hd qs < length (nodes m) \<and> hd qs \<noteq> NIL"
    using rng bs by (auto simp: hd_in_set)
  have ne: "hd bs \<noteq> g" "hd bs \<noteq> c" "last bs \<noteq> g" "last bs \<noteq> c" "g \<noteq> c" using d bs hd_in_set [OF bs] last_in_set [OF bs] by auto
  have out: "last bs \<notin> set qs" "last bs \<notin> set as" "last bs \<notin> set fs" using d last_in_set [OF bs] by auto
  define P1 where "P1 = (if qs = [] then pv m else (pv m)(hd qs := last bs))"
  define N1 where "N1 = (nx m)(last bs := hd (qs @ [NIL]))"
  define P2 where "P2 = P1(c := g, hd bs := c)"
  define N2 where "N2 = N1(c := hd bs, g := c)"
  have "dlist P1 N1 NIL ((as @ g # bs) @ qs) NIL"
  proof (rule dlist_unlink [where c = c])
    show "dlist (pv m) (nx m) NIL ((as @ g # bs) @ c # qs) NIL" using dl by simp
  qed (use d bs out in \<open>auto simp: P1_def N1_def dest: hd_in_set\<close>)
  then have "dlist P1 N1 NIL ((as @ [g]) @ bs @ qs) NIL" by simp
  then have "dlist P2 N2 NIL ((as @ [g]) @ c # bs @ qs) NIL"
    by (rule dlist_link) (use d bs ne in \<open>auto simp: P2_def N2_def N1_def\<close>)
  then have dl2: "dlist P2 N2 NIL (as @ g # c # bs @ qs) NIL" by simp
  define tl where "tl = (if hm_tail m = c then last bs else hm_tail m)"
  have tl: "tl = last (NIL # as @ g # c # bs @ qs)"
    using l d bs by (cases qs rule: rev_cases) (auto simp: tl_def hm_links_def)
  define M where "M = upd (hd bs) (\<lambda>n. n\<lparr>node_prev := c\<rparr>) (upd g (\<lambda>n. n\<lparr>node_next := c\<rparr>)
    (upd c (\<lambda>n. n\<lparr>node_prev := g, node_next := hd bs\<rparr>)
      ((\<lambda>m. if qs = [] then m else upd (hd qs) (\<lambda>n. n\<lparr>node_prev := last bs\<rparr>) m)
        (upd (last bs) (\<lambda>n. n\<lparr>node_next := hd (qs @ [NIL])\<rparr>) m))))"
  have "relink c g m = Some (if hm_tail m = c then M\<lparr>hm_tail := last bs\<rparr> else M)"
    using r ne by (cases "qs = []") (simp_all add: relink_def Let_def node_at_def set_node_run link_run g c M_def nodes_upd)
  moreover have "hm_tail M = hm_tail m" by (simp add: M_def)
  then have "M\<lparr>hm_tail := hm_tail m\<rparr> = M" by (rule hm_tail_self)
  ultimately have run: "relink c g m = Some (M\<lparr>hm_tail := tl\<rparr>)" by (simp add: tl_def)
  have "pv M = P2" "nx M = N2" "\<forall>x. bk M x = bk m x \<and> ky M x = ky m x \<and> vl M x = vl m x"
    using r ne by (cases "qs = []"; simp add: M_def P1_def P2_def N1_def N2_def upd_links upd_objects upd_bucket_idx
        fun_upd_twist)+
  then have "\<exists>m'. relink c g m = Some m' \<and> pv m' = P2 \<and> nx m' = N2 \<and> hm_head m' = hm_head m \<and> hm_tail m' = tl
      \<and> hm_free m' = hm_free m \<and> hm_same m m' \<and> buckets m' = buckets m \<and> (\<forall>x. bk m' x = bk m x)"
    using run by (simp add: hm_same_def) (simp add: M_def)
  then obtain m' where m': "relink c g m = Some m'" "pv m' = P2" "nx m' = N2" "hm_head m' = hm_head m" "hm_tail m' = tl"
    "hm_free m' = hm_free m" "hm_same m m'" "buckets m' = buckets m" "\<And>x. bk m' x = bk m x" by blast
  have "slist N2 fs NIL \<longleftrightarrow> slist (nx m) fs NIL"
    by (rule slist_cong) (use d bs in \<open>auto simp: N2_def N1_def dest: last_in_set\<close>)
  moreover have "hd ((as @ g # c # bs @ qs) @ [NIL]) = hd ((as @ g # bs @ c # qs) @ [NIL])" by (cases as) simp_all
  ultimately have "hm_links m' (as @ g # c # bs @ qs) fs"
    using l m' dl2 tl unfolding hm_links_def by (auto simp: hm_same_def)
  then show ?thesis using m' by blast
qed

lemma hm_objects_same:
  "hm_objects m xs fs \<Longrightarrow> hm_same m m' \<Longrightarrow> set xs' = set xs \<Longrightarrow> hm_objects m' xs' fs"
  by (auto simp: hm_objects_def hm_same_def inj_on_def)

lemma first_of_cong:
  assumes "\<And>x. x \<in> set xs \<Longrightarrow> B' x = B x"
  shows "first_of B' xs b = first_of B xs b"
proof -
  have "filter (\<lambda>x. B' x = Some b) xs = filter (\<lambda>x. B x = Some b) xs" by (rule filter_cong) (use assms in auto)
  then show ?thesis by (simp add: first_of_def)
qed

lemma first_of_NIL: "NIL \<notin> set xs \<Longrightarrow> first_of B xs b = NIL \<longleftrightarrow> (\<forall>x\<in>set xs. B x \<noteq> Some b)"
  by (induction xs) (auto simp: first_of_def)

lemma first_of_Some:
  assumes "first_of B xs b = g" "g \<noteq> NIL"
  obtains as bs where "xs = as @ g # bs" "B g = Some b" "\<And>x. x \<in> set as \<Longrightarrow> B x \<noteq> Some b"
  using assms
proof (induction xs arbitrary: thesis)
  case (Cons x xs)
  show ?case
  proof (cases "B x = Some b")
    case True
    then show ?thesis using Cons.prems(1) [of "[]" xs] Cons.prems(2) by (simp add: first_of_def)
  next
    case False
    then have "first_of B xs b = g" using Cons.prems(2) by (simp add: first_of_def)
    then obtain as bs where "xs = as @ g # bs" "B g = Some b" "\<And>x. x \<in> set as \<Longrightarrow> B x \<noteq> Some b"
      using Cons.IH Cons.prems(3) by blast
    then show ?thesis using Cons.prems(1) [of "x # as" bs] False by auto
  qed
qed (simp add: first_of_def)

lemma first_of_append: "first_of B (xs @ ys) b = (if \<exists>x\<in>set xs. B x = Some b then first_of B xs b else first_of B ys b)"
  by (induction xs) (auto simp: first_of_def)

lemma hm_buckets_after:
  assumes "hm_buckets h m (as @ g # bs)" and ky': "\<And>x. x \<in> set (as @ g # bs) \<Longrightarrow> ky m' x = ky m x"
    and "buckets m' = buckets m" "c \<notin> set (as @ g # bs)"
    and bk': "\<And>x. bk m' x = (if x = c then Some b else bk m x)" and g: "bk m g = Some b"
    and b: "b = get_bucket_index_by_key h m (the (ky m' c))"
  shows "hm_buckets h m' (as @ g # c # bs)"
proof -
  have old: "grouped (map (bk m) (as @ g # bs))" "\<forall>x\<in>set (as @ g # bs). bk m x = Some (get_bucket_index_by_key h m (the (ky m x)))"
    "\<forall>b<length (buckets m). buckets m ! b = first_of (bk m) (as @ g # bs) b"
    using assms(1) unfolding hm_buckets_def by blast+
  have same: "bk m' x = bk m x" if "x \<in> set (as @ g # bs)" for x using that assms(4) bk' by auto
  have "grouped (map (bk m) as @ Some b # map (bk m) bs)" using old(1) g by simp
  then have "grouped (map (bk m) as @ Some b # Some b # map (bk m) bs)" by (rule grouped_dup)
  moreover have "map (bk m') (as @ g # c # bs) = map (bk m) as @ Some b # Some b # map (bk m) bs"
    using same bk' [of c] g by simp
  moreover have "first_of (bk m') (as @ g # c # bs) b' = first_of (bk m) (as @ g # bs) b'" for b'
  proof -
    have "first_of (bk m') (as @ g # c # bs) b' = first_of (bk m') (as @ g # bs) b'"
      using same [of g] bk' [of c] g unfolding first_of_append by (simp add: first_of_def)
    also have "\<dots> = first_of (bk m) (as @ g # bs) b'" by (rule first_of_cong) (rule same)
    finally show ?thesis .
  qed
  moreover have "get_bucket_index_by_key h m' = get_bucket_index_by_key h m"
    by (rule bucket_index_cong) (simp add: assms(3))
  moreover have "bk m' x = Some (get_bucket_index_by_key h m (the (ky m' x)))" if "x \<in> set (as @ g # c # bs)" for x
    using that same old(2) bk' [of c] b ky' by auto
  ultimately show ?thesis using assms(3) old(3) unfolding hm_buckets_def by metis
qed

lemma hm_buckets_snoc:
  assumes "hm_buckets h m xs" and ky': "\<And>x. x \<in> set xs \<Longrightarrow> ky m' x = ky m x"
    and "buckets m' = (buckets m)[b := c]" "c \<notin> set xs"
    and bk': "\<And>x. bk m' x = (if x = c then Some b else bk m x)" and new: "\<forall>x\<in>set xs. bk m x \<noteq> Some b"
    and b: "b = get_bucket_index_by_key h m (the (ky m' c))"
  shows "hm_buckets h m' (xs @ [c])"
proof -
  have old: "grouped (map (bk m) xs)" "\<forall>x\<in>set xs. bk m x = Some (get_bucket_index_by_key h m (the (ky m x)))"
    "\<forall>b<length (buckets m). buckets m ! b = first_of (bk m) xs b"
    using assms(1) unfolding hm_buckets_def by blast+
  have same: "bk m' x = bk m x" if "x \<in> set xs" for x using that assms(4) bk' by auto
  have "grouped (map (bk m) xs @ [Some b])" by (rule grouped_snoc) (use old(1) new in auto)
  moreover have "map (bk m') (xs @ [c]) = map (bk m) xs @ [Some b]" using same bk' [of c] by simp
  moreover have "first_of (bk m') (xs @ [c]) b' = (if b' = b then c else first_of (bk m) xs b')" for b'
  proof -
    have "first_of (bk m') xs b' = first_of (bk m) xs b'" by (rule first_of_cong) (rule same)
    moreover have "(\<exists>x\<in>set xs. bk m' x = Some b') \<longleftrightarrow> (\<exists>x\<in>set xs. bk m x = Some b')"
      using same by (metis (no_types))
    moreover have "first_of (bk m') [c] b' = (if b' = b then c else NIL)" using bk' [of c] by (simp add: first_of_def)
    moreover have "first_of (bk m) xs b' = NIL" if "\<not> (\<exists>x\<in>set xs. bk m x = Some b')"
      using that by (simp add: first_of_def filter_empty_conv)
    ultimately show ?thesis using new unfolding first_of_append by auto
  qed
  moreover have "get_bucket_index_by_key h m' = get_bucket_index_by_key h m"
    by (rule bucket_index_cong) (simp add: assms(3))
  moreover have "bk m' x = Some (get_bucket_index_by_key h m (the (ky m' x)))" if "x \<in> set (xs @ [c])" for x
    using that same old(2) bk' [of c] b ky' by auto
  moreover have "\<forall>b'<length (buckets m'). buckets m' ! b' = (if b' = b then c else first_of (bk m) xs b')"
    using old(3) assms(3) by (simp add: nth_list_update)
  ultimately show ?thesis unfolding hm_buckets_def by metis
qed

lemma rehash_node_run:
  assumes l: "hm_links m (ps @ c # qs) fs" and o: "hm_objects m (ps @ c # qs) fs"
    and bu: "hm_buckets h m ps" and ok: "buckets_ok m"
  shows "\<exists>m' ps'. rehash_node h c m = Some m' \<and> hm_links m' (ps' @ qs) fs \<and> set ps' = insert c (set ps)
    \<and> hm_buckets h m' ps' \<and> hm_same m m'"
proof -
  obtain k where k: "ky m c = Some k" using o by (auto simp: hm_objects_def)
  define b where "b = get_bucket_index_by_key h m k"
  have b: "b < length (buckets m)" "b = get_bucket_index_by_key h m (the (ky m c))"
    using bucket_in_range [OF ok] by (simp_all add: b_def k)
  have c: "c < length (nodes m)" "c \<notin> set ps" "NIL \<notin> set ps"
    using hm_linksD(1,3) [OF l] l by (auto simp: hm_links_def)
  define m1 where "m1 = upd c (\<lambda>n. n\<lparr>bucket_idx := Some b\<rparr>) m"
  have same1: "hm_same m m1" and bk1: "\<And>x. bk m1 x = (if x = c then Some b else bk m x)"
    and fields: "buckets m1 = buckets m" "pv m1 = pv m" "nx m1 = nx m" "hm_head m1 = hm_head m" "hm_tail m1 = hm_tail m"
      "hm_free m1 = hm_free m"
    using c(1) by (simp_all add: m1_def hm_same_def nodes_upd fun_eq_iff)
  have l1: "hm_links m1 (ps @ c # qs) fs" using l fields same1 unfolding hm_links_def hm_same_def by simp
  have run: "rehash_node h c m = (if buckets m ! b = NIL then Some (m1\<lparr>buckets := (buckets m)[b := c]\<rparr>)
      else if pv m c \<noteq> buckets m ! b then relink c (buckets m ! b) m1 else Some m1)"
    using c(1) k b(1) by (simp add: rehash_node_def node_at_def Let_def b_def [symmetric] set_node_run m1_def [symmetric]
        bucket_at_def set_bucket_def fields)
  have first: "buckets m ! b = first_of (bk m) ps b" using bu b by (simp add: hm_buckets_def)
  show ?thesis
  proof (cases "buckets m ! b = NIL")
    case True
    let ?m = "m1\<lparr>buckets := (buckets m)[b := c]\<rparr>"
    have "hm_links ?m ((ps @ [c]) @ qs) fs" using l1 by (simp add: hm_links_def)
    moreover have same: "hm_same m ?m" using same1 by (simp add: hm_same_def)
    moreover have none: "\<forall>x\<in>set ps. bk m x \<noteq> Some b" using True first first_of_NIL [OF c(3)] by metis
    have "hm_buckets h ?m (ps @ [c])"
      by (rule hm_buckets_snoc [OF bu _ _ c(2) _ none]) (use same b(2) bk1 in \<open>simp_all add: hm_same_def\<close>)
    ultimately show ?thesis using run True by (intro exI [of _ ?m] exI [of _ "ps @ [c]"]) simp
  next
    case False
    define g where "g = buckets m ! b"
    obtain as bs where ps: "ps = as @ g # bs" and g: "bk m g = Some b"
      using first_of_Some [of "bk m" ps b g] first False g_def by metis
    have d: "distinct (as @ g # bs @ c # qs)" using l by (auto simp: hm_links_def ps)
    have pvc: "pv m c = last (g # bs)" using l by (simp add: hm_links_def dlist_append ps)
    have bu': "hm_buckets h m (as @ g # bs)" using bu ps by simp
    show ?thesis
    proof (cases "bs = []")
      case True
      have "hm_buckets h m1 (as @ g # c # bs)"
        by (rule hm_buckets_after [OF bu' _ fields(1) _ bk1 g]) (use c ps same1 b(2) in \<open>simp_all add: hm_same_def\<close>)
      then show ?thesis using run l1 same1 False pvc True ps
        by (intro exI [of _ m1] exI [of _ "as @ [g, c]"]) (auto simp: g_def)
    next
      case False
      have "pv m c \<noteq> g" using pvc False d last_in_set [OF False] by auto
      then have run': "rehash_node h c m = relink c g m1" using run \<open>buckets m ! b \<noteq> NIL\<close> by (simp add: g_def)
      obtain m' where m': "relink c g m1 = Some m'" "hm_links m' (as @ g # c # bs @ qs) fs" "hm_same m1 m'"
        "buckets m' = buckets m1" "\<And>x. bk m' x = bk m1 x"
        using relink_run [of m1 as g bs c qs fs] l1 False ps by auto
      have same: "hm_same m m'" using hm_same_trans [OF same1 m'(3)] .
      have "hm_buckets h m' (as @ g # c # bs)"
        by (rule hm_buckets_after [OF bu' _ _ _ _ g]) (use same b(2) c ps m' bk1 fields in \<open>simp_all add: hm_same_def\<close>)
      then show ?thesis using run' m' same ps by (intro exI [of _ m'] exI [of _ "as @ g # c # bs"]) auto
    qed
  qed
qed

lemma buckets_ok_same: "hm_same m m' \<Longrightarrow> buckets_ok m \<Longrightarrow> buckets_ok m'"
  by (simp add: hm_same_def buckets_ok_def)

lemma rehash_loop_run:
  assumes "hm_links m (ps @ qs) fs" "hm_objects m (ps @ qs) fs" "hm_buckets h m ps" "buckets_ok m"
    and "cnt + length qs < 2 ^ 32"
  shows "\<exists>m' xs. rehash_loop h (hd (qs @ [NIL])) cnt m = Some (cnt + length qs, m') \<and> hm_links m' xs fs
    \<and> set xs = set (ps @ qs) \<and> hm_buckets h m' xs \<and> hm_same m m'"
  using assms
proof (induction qs arbitrary: ps m cnt)
  case Nil
  then show ?case by (intro exI [of _ m] exI [of _ ps]) (simp add: rehash_loop.simps)
next
  case (Cons c qs)
  obtain m' ps' where s: "rehash_node h c m = Some m'" "hm_links m' (ps' @ qs) fs" "set ps' = insert c (set ps)"
      "hm_buckets h m' ps'" "hm_same m m'"
    using rehash_node_run [OF Cons.prems(1-4)] by blast
  have c: "c < length (nodes m)" "c \<noteq> NIL" using hm_linksD(1,3) [OF Cons.prems(1)] by auto
  have nx: "nx m c = hd (qs @ [NIL])" using Cons.prems(1) by (simp add: hm_links_def dlist_append)
  have "hm_objects m' (ps' @ qs) fs" by (rule hm_objects_same [OF Cons.prems(2) s(5)]) (auto simp: s(3))
  then obtain m'' xs where r: "rehash_loop h (hd (qs @ [NIL])) (cnt + 1) m' = Some (cnt + 1 + length qs, m'')"
      "hm_links m'' xs fs" "set xs = set (ps' @ qs)" "hm_buckets h m'' xs" "hm_same m' m''"
    using Cons.IH [OF s(2) _ s(4) buckets_ok_same [OF s(5) Cons.prems(4)], of "cnt + 1"] Cons.prems(5) by auto
  have "rehash_loop h c cnt m = rehash_loop h (nx m c) (cnt + 1) m'"
    using c s(1) Cons.prems(5) by (simp add: rehash_loop.simps [of h c] node_at_def)
  then show ?case using r nx s(3) hm_same_trans [OF s(5) r(5)]
    by (intro exI [of _ m''] exI [of _ xs]) auto
qed

section \<open>More buckets\<close>

definition hm_keeps :: "('k, 'v) hash_map \<Rightarrow> ('k, 'v) hash_map \<Rightarrow> bool" where
  "hm_keeps m m' \<longleftrightarrow>
     this_ptr m' = this_ptr m \<and> hm_size m' = hm_size m \<and> expand_rate m' = expand_rate m \<and> hm_abs m' = hm_abs m"

lemma hm_keeps_trans: "hm_keeps m m' \<Longrightarrow> hm_keeps m' m'' \<Longrightarrow> hm_keeps m m''"
  by (simp add: hm_keeps_def)

lemma hm_keeps_refl [simp]: "hm_keeps m m"
  by (simp add: hm_keeps_def)

lemma hm_same_keeps:
  assumes "hm_same m m'"
  shows "hm_keeps m m'"
proof -
  have "map node_entry (nodes m') = map node_entry (nodes m)"
    using assms by (intro nth_equalityI) (auto simp: hm_same_def node_entry_def)
  then show ?thesis using assms by (simp add: hm_keeps_def hm_same_def hm_abs_def)
qed

lemma pow2_ceil:
  assumes "1 \<le> n" "n \<le> 2 ^ 31"
  obtains k where "k \<le> 31" "unat (round_pow_of_two (of_nat n)) = 2 ^ k" "n \<le> 2 ^ k"
proof -
  have u: "unat (of_nat n :: u32) = n" using assms(2) by (simp add: unat_of_nat)
  then have "1 \<le> (of_nat n :: u32)" using assms(1) by (simp add: word_le_nat_alt)
  then show ?thesis using round_pow_of_two_least [of "of_nat n"] that u assms(2) by auto
qed

lemma end_of_list_run:
  assumes "hm_links m xs fs"
  shows "end_of_list m = Some True"
proof -
  have h: "hm_head m = hd (xs @ [NIL])" "hm_tail m = last (NIL # xs)" and dl: "dlist (pv m) (nx m) NIL xs NIL"
    using assms by (auto simp: hm_links_def)
  show ?thesis
  proof (cases xs rule: rev_cases)
    case Nil
    then show ?thesis using h by (simp add: end_of_list_def)
  next
    case (snoc ys y)
    have "nx m y = NIL" using dl snoc by (simp add: dlist_append)
    moreover have "pv m (hd xs) = NIL" using dl snoc by (cases ys) auto
    moreover have "hd xs \<in> set xs" "y \<in> set xs" using snoc by (metis hd_in_set snoc_eq_iff_butlast, simp)
    moreover have "hm_head m = hd xs" "hm_tail m = y" using h snoc by (simp_all add: hd_append)
    ultimately show ?thesis using hm_linksD(1,3) [OF assms] by (simp add: end_of_list_def node_at_def)
  qed
qed

lemma expand_buckets_run:
  assumes rel: "hm_rel h m xs fs" and sz: "sz \<le> 2 ^ 31"
  shows "\<exists>m' xs'. expand_buckets h sz m = Some m' \<and> hm_rel h m' xs' fs \<and> hm_keeps m m' \<and> sz \<le> length (buckets m')
    \<and> length (nodes m') = length (nodes m)"
proof (cases "sz \<le> length (buckets m)")
  case True
  then show ?thesis using rel by (intro exI [of _ m] exI [of _ xs]) (simp add: expand_buckets_def)
next
  case False
  obtain k where k: "k \<le> 31" "unat (round_pow_of_two (of_nat sz)) = 2 ^ k" "sz \<le> 2 ^ k"
    using pow2_ceil [of sz] False sz by auto
  define m0 where "m0 = m\<lparr>buckets := replicate (2 ^ k) NIL\<rparr>"
  have l: "hm_links m0 ([] @ xs) fs" and o: "hm_objects m0 ([] @ xs) fs" and s: "hm_size m = length xs"
    using rel by (simp_all add: hm_rel_def m0_def hm_links_def hm_objects_def)
  have bu: "hm_buckets h m0 []" and ok: "buckets_ok m0"
    using k(1) by (auto simp: hm_buckets_def m0_def first_of_def buckets_ok_def)
  have d: "distinct xs" "set xs \<subseteq> {..<length (nodes m)}" "length (nodes m) \<le> 2 ^ 31"
    using rel by (auto simp: hm_rel_def hm_links_def)
  then have "length xs \<le> 2 ^ 31" using card_mono [OF _ d(2)] by (simp add: distinct_card)
  then obtain m' xs' where r: "rehash_loop h (hd (xs @ [NIL])) 0 m0 = Some (length xs, m')" "hm_links m' xs' fs"
      "set xs' = set xs" "hm_buckets h m' xs'" "hm_same m0 m'"
    using rehash_loop_run [OF l o bu ok, of 0] by auto
  have hd: "hm_head m0 = hd (xs @ [NIL])" using l by (simp add: hm_links_def)
  have keep: "hm_keeps m m'" using hm_same_keeps [OF r(5)] by (simp add: hm_keeps_def m0_def hm_abs_def)
  have len: "length (buckets m') = 2 ^ k" "length (nodes m') = length (nodes m)" using r(5) by (simp_all add: hm_same_def m0_def)
  have "distinct xs'" using r(2) by (simp add: hm_links_def)
  then have "length xs' = length xs" using d(1) r(3) by (metis distinct_card)
  then have "hm_rel h m' xs' fs" using r hm_objects_same [OF o r(5), of xs'] buckets_ok_same [OF r(5) ok] keep s
    by (simp add: hm_rel_def hm_keeps_def)
  moreover have "expand_buckets h sz m = Some m'"
    using False k r(1) hd end_of_list_run [OF r(2)] len keep s
    by (simp add: expand_buckets_def m0_def [symmetric] hm_keeps_def)
  ultimately show ?thesis using keep len k by auto
qed

end
