(* ===== verification/Qlog_Hash_Map_Nodes.thy ===== *)
theory Qlog_Hash_Map_Nodes
  imports Qlog_Hash_Map_Grow
begin

text \<open>
  Walks along the list of a hash map, and growth of its node array: the entries move with their links and the new
  nodes join the free list.
\<close>

section \<open>Walking the list\<close>

definition at_node :: "hash_map_iterator \<Rightarrow> ('k, 'v) hash_map \<Rightarrow> nat list \<Rightarrow> bool" where
  "at_node it m qs \<longleftrightarrow> it_node it = hd (qs @ [NIL]) \<and> it_parent it = this_ptr m"

text \<open>A walk reads the links and the bucket numbers of the nodes ahead.\<close>

definition walkable :: "('k, 'v) hash_map \<Rightarrow> nat list \<Rightarrow> bool" where
  "walkable m qs \<longleftrightarrow> slist (nx m) qs NIL \<and> (\<forall>x\<in>set qs. x < length (nodes m) \<and> x \<noteq> NIL \<and> bk m x \<noteq> None)"

lemma dlist_slist: "dlist P N p xs n \<Longrightarrow> slist N xs n"
  by (induction xs arbitrary: p) auto

lemma hm_rel_walkable:
  assumes "hm_rel h m xs fs"
  shows "walkable m xs"
proof -
  have l: "hm_links m xs fs" using assms by (simp add: hm_rel_def)
  then have "slist (nx m) xs NIL" by (auto simp: hm_links_def intro: dlist_slist)
  moreover have "\<forall>x\<in>set xs. bk m x \<noteq> None" using assms by (auto simp: hm_rel_def hm_buckets_def)
  ultimately show ?thesis using hm_linksD(1,3) [OF l] by (simp add: walkable_def)
qed

lemma begin_run:
  assumes "hm_rel h m xs fs"
  shows "\<exists>it. begin_iterator m = Some it \<and> at_node it m xs"
proof (cases xs)
  case Nil
  then show ?thesis using assms by (simp add: hm_rel_def hm_links_def begin_iterator_def end_iterator_def at_node_def)
next
  case (Cons x ys)
  have "hm_head m = x" using assms Cons by (simp add: hm_rel_def hm_links_def)
  moreover have "x < length (nodes m)" "x \<noteq> NIL" "bk m x \<noteq> None"
    using hm_rel_walkable [OF assms] Cons by (simp_all add: walkable_def)
  ultimately show ?thesis using Cons by (auto simp: begin_iterator_def node_at_def at_node_def)
qed

lemma iterator_next_run:
  assumes "walkable m (x # qs)" "at_node it m (x # qs)"
  shows "\<exists>it'. iterator_next m it = Some it' \<and> at_node it' m qs"
proof -
  have x: "it_node it = x" "x < length (nodes m)" "x \<noteq> NIL" "nx m x = hd (qs @ [NIL])" "it_parent it = this_ptr m"
    using assms by (simp_all add: walkable_def at_node_def)
  show ?thesis
  proof (cases qs)
    case Nil
    then show ?thesis using x by (simp add: iterator_next_def get_next_node_index_def node_at_def at_node_def)
  next
    case (Cons y ys)
    then obtain b where "y < length (nodes m)" "y \<noteq> NIL" "bk m y = Some b" using assms(1) by (auto simp: walkable_def)
    then show ?thesis using x Cons by (simp add: iterator_next_def get_next_node_index_def node_at_def at_node_def)
  qed
qed

lemma at_end: "at_node it m qs \<Longrightarrow> walkable m qs \<Longrightarrow> iterator_eq it (end_iterator m) \<longleftrightarrow> qs = []"
  by (cases qs) (auto simp: at_node_def walkable_def iterator_eq_def end_iterator_def)

definition destroyed :: "nat \<Rightarrow> ('k, 'v) hash_map \<Rightarrow> ('k, 'v) hash_map" where
  "destroyed i m = upd i (\<lambda>n. n\<lparr>node_key := None, node_value := None\<rparr>) m"

lemma destruct_run:
  assumes "it_node it = i" "i < length (nodes m)" "ky m i \<noteq> None" "vl m i \<noteq> None"
  shows "destruct it m = Some (destroyed i m)"
  using assms by (auto simp: destruct_def destruct_key_def destruct_value_def destroyed_def node_at_def set_node_def upd_def)

lemma destroyed_fields [simp]:
  "this_ptr (destroyed i m) = this_ptr m" "buckets (destroyed i m) = buckets m" "hm_size (destroyed i m) = hm_size m"
  "hm_head (destroyed i m) = hm_head m" "hm_tail (destroyed i m) = hm_tail m" "hm_free (destroyed i m) = hm_free m"
  "expand_rate (destroyed i m) = expand_rate m" "length (nodes (destroyed i m)) = length (nodes m)"
  by (simp_all add: destroyed_def)

lemma destroyed_nodes:
  "i < length (nodes m) \<Longrightarrow> nx (destroyed i m) x = nx m x" "i < length (nodes m) \<Longrightarrow> pv (destroyed i m) x = pv m x"
  "i < length (nodes m) \<Longrightarrow> bk (destroyed i m) x = bk m x"
  "i < length (nodes m) \<Longrightarrow> ky (destroyed i m) x = (if x = i then None else ky m x)"
  "i < length (nodes m) \<Longrightarrow> vl (destroyed i m) x = (if x = i then None else vl m x)"
  by (simp_all add: destroyed_def nodes_upd)

lemma walkable_destroyed: "walkable m (x # qs) \<Longrightarrow> walkable (destroyed x m) (x # qs)"
  by (auto simp: walkable_def destroyed_nodes cong: slist_cong)

section \<open>More nodes\<close>

lemma thread_free_run:
  assumes "old \<le> i" "i \<le> length ns" "thread_free old i f ns = (f', ns')"
  shows "f' = hd ([old..<i] @ [f]) \<and> length ns' = length ns
    \<and> (\<forall>x. ns' ! x = (if old \<le> x \<and> x < i
          then (ns ! x)\<lparr>node_prev := NIL, node_next := (if x + 1 < i then x + 1 else f)\<rparr> else ns ! x))"
  using assms
proof (induction i arbitrary: f ns)
  case 0
  then show ?case by (simp add: thread_free.simps)
next
  case (Suc i)
  show ?case
  proof (cases "old \<le> i")
    case False
    then show ?thesis using Suc.prems by (auto simp: thread_free.simps [of old "Suc i"])
  next
    case True
    let ?ns = "ns[i := (ns ! i)\<lparr>node_prev := NIL, node_next := f\<rparr>]"
    have "thread_free old i i ?ns = (f', ns')" using Suc.prems True by (simp add: thread_free.simps [of old "Suc i"])
    from Suc.IH [OF True _ this] Suc.prems have ih: "f' = hd ([old..<i] @ [i])" "length ns' = length ns"
      "\<And>x. ns' ! x = (if old \<le> x \<and> x < i
          then (?ns ! x)\<lparr>node_prev := NIL, node_next := (if x + 1 < i then x + 1 else i)\<rparr> else ?ns ! x)" by auto
    have "hd ([old..<i] @ [i]) = hd ([old..<Suc i] @ [f])" using True by (simp add: hd_append)
    moreover have "ns' ! x = (if old \<le> x \<and> x < Suc i
          then (ns ! x)\<lparr>node_prev := NIL, node_next := (if x + 1 < Suc i then x + 1 else f)\<rparr> else ns ! x)" for x
      using Suc.prems(2) True by (cases "x = i"; cases "x + 1 = i") (simp_all add: ih(3))
    ultimately show ?thesis using ih by simp
  qed
qed

lemma move_entries_run:
  assumes "walkable m qs" "at_node it m qs" "distinct qs" "\<And>x. x \<in> set qs \<Longrightarrow> ky m x \<noteq> None \<and> vl m x \<noteq> None"
    and "length (nodes m) \<le> length nd"
  shows "\<exists>nd'. move_entries it m nd = Some nd' \<and> length nd' = length nd
    \<and> (\<forall>x. nd' ! x = (if x \<in> set qs then (nd ! x)\<lparr>node_key := ky m x, node_value := vl m x\<rparr> else nd ! x))"
  using assms
proof (induction qs arbitrary: m it nd)
  case Nil
  then show ?case using at_end [OF Nil.prems(2,1)] by (simp add: move_entries.simps)
next
  case (Cons x qs)
  obtain k v where kv: "ky m x = Some k" "vl m x = Some v" using Cons.prems(4) by fastforce
  have x: "x < length (nodes m)" "it_node it = x" using Cons.prems(1,2) by (simp_all add: walkable_def at_node_def)
  let ?m = "destroyed x m" and ?nd = "nd[x := (nd ! x)\<lparr>node_key := Some k, node_value := Some v\<rparr>]"
  have w: "walkable ?m (x # qs)" "at_node it ?m (x # qs)"
    using walkable_destroyed [OF Cons.prems(1)] Cons.prems(2) by (simp_all add: at_node_def)
  obtain it' where it': "iterator_next ?m it = Some it'" "at_node it' ?m qs" using iterator_next_run [OF w] by blast
  have w': "walkable ?m qs" using w(1) by (simp add: walkable_def)
  have obj: "ky ?m y \<noteq> None \<and> vl ?m y \<noteq> None" if "y \<in> set qs" for y
    using that Cons.prems(3,4) x by (auto simp: destroyed_nodes)
  have "length (nodes ?m) \<le> length ?nd" "distinct qs" using Cons.prems by simp_all
  from Cons.IH [OF w' it'(2) this(2) obj this(1)] obtain nd' where nd': "move_entries it' ?m ?nd = Some nd'" "length nd' = length ?nd"
    "\<And>y. nd' ! y = (if y \<in> set qs then (?nd ! y)\<lparr>node_key := ky ?m y, node_value := vl ?m y\<rparr> else ?nd ! y)"
    by blast
  have run: "move_entries it m nd = Some nd'"
    using at_end [OF Cons.prems(2,1)] x kv it' nd'(1)
    by (simp add: move_entries.simps [of it m] iterator_entry_def node_at_def destruct_run)
  have "nd' ! y = (if y \<in> set (x # qs) then (nd ! y)\<lparr>node_key := ky m y, node_value := vl m y\<rparr> else nd ! y)" for y
    using Cons.prems(3,5) x kv by (cases "y = x") (auto simp: nd'(3) destroyed_nodes)
  then show ?case using run nd'(2) by auto
qed

lemma expand_nodes_run:
  assumes rel: "hm_rel h m xs fs" and sz: "sz \<le> 2 ^ 31"
  shows "\<exists>m' fs'. expand_nodes sz m = Some m' \<and> hm_rel h m' xs fs' \<and> hm_keeps m m' \<and> sz \<le> length (nodes m')
    \<and> buckets m' = buckets m"
proof (cases "sz \<le> length (nodes m)")
  case True
  then show ?thesis using rel by (intro exI [of _ m] exI [of _ fs]) (simp add: expand_nodes_def)
next
  case False
  let ?old = "length (nodes m)"
  obtain k where k: "k \<le> 31" "unat (round_pow_of_two (of_nat sz)) = 2 ^ k" "sz \<le> 2 ^ k"
    using pow2_ceil [of sz] False sz by auto
  let ?new = "2 ^ k :: nat"
  have new: "?old \<le> ?new" "?new \<le> 2 ^ 31" using False k power_increasing [of k 31 "2 :: nat"] by auto
  have l: "hm_links m xs fs" and o: "hm_objects m xs fs" and bu: "hm_buckets h m xs" using rel by (auto simp: hm_rel_def)
  define nd where "nd = map (\<lambda>n. n\<lparr>node_key := None, node_value := None\<rparr>) (nodes m) @ replicate (?new - ?old) raw_node"
  obtain f nd1 where t: "thread_free ?old ?new (hm_free m) nd = (f, nd1)" by (metis surj_pair)
  have lnd: "length nd = ?new" using new by (simp add: nd_def)
  then have f: "f = hd ([?old..<?new] @ [hm_free m])" "length nd1 = ?new"
    "\<And>x. nd1 ! x = (if ?old \<le> x \<and> x < ?new
        then (nd ! x)\<lparr>node_prev := NIL, node_next := (if x + 1 < ?new then x + 1 else hm_free m)\<rparr> else nd ! x)"
    using thread_free_run [OF new(1) _ t] by auto
  define m1 where "m1 = m\<lparr>hm_free := f\<rparr>"
  have "walkable m1 xs" using hm_rel_walkable [OF rel] by (simp add: walkable_def m1_def)
  moreover have "begin_iterator m1 = begin_iterator m" by (simp add: m1_def begin_iterator_def end_iterator_def node_at_def)
  then obtain it where it: "begin_iterator m1 = Some it" "at_node it m1 xs"
    using begin_run [OF rel] by (auto simp: m1_def at_node_def)
  moreover have "distinct xs" "\<And>x. x \<in> set xs \<Longrightarrow> ky m1 x \<noteq> None \<and> vl m1 x \<noteq> None"
    using l o by (auto simp: hm_links_def hm_objects_def m1_def)
  ultimately obtain nd2 where nd2: "move_entries it m1 nd1 = Some nd2" "length nd2 = ?new"
    "\<And>x. nd2 ! x = (if x \<in> set xs then (nd1 ! x)\<lparr>node_key := ky m1 x, node_value := vl m1 x\<rparr> else nd1 ! x)"
    using move_entries_run [of m1 xs it nd1] f(2) new by (auto simp: m1_def)
  define m' where "m' = m1\<lparr>nodes := nd2\<rparr>"
  have run: "expand_nodes sz m = Some m'"
    using False k new t it nd2 by (simp add: expand_nodes_def nd_def [symmetric] m1_def [symmetric] m'_def [symmetric])
  have in_old: "x < ?old" if "x \<in> set xs \<or> x \<in> set fs" for x using that hm_linksD(1,2) [OF l] by auto
  have old: "pv m' x = pv m x" "nx m' x = nx m x" "bk m' x = bk m x" if "x < ?old" for x
    using that by (simp_all add: m'_def nd2(3) f(3) nd_def nth_append)
  have obj: "ky m' x = (if x \<in> set xs then ky m x else None)" "vl m' x = (if x \<in> set xs then vl m x else None)" if "x < ?new" for x
    using that in_old by (auto simp: m'_def m1_def nd2(3) f(3) nd_def nth_append raw_node_def)
  have fresh: "nx m' x = (if x + 1 < ?new then x + 1 else hm_free m)" if "?old \<le> x" "x < ?new" for x
    using that in_old by (auto simp: m'_def nd2(3) f(3))
  have "slist (nx m') fs NIL" using l old(2) in_old slist_cong [of fs "nx m'" "nx m"] by (auto simp: hm_links_def)
  moreover have "slist (nx m') [i..<?new] (hm_free m)" if "?old \<le> i" "i \<le> ?new" for i
    using that(2,1) by (induction i rule: inc_induct) (auto simp: fresh upt_conv_Cons)
  ultimately have sl: "slist (nx m') ([?old..<?new] @ fs) NIL" using l new(1) unfolding slist_append by (simp add: hm_links_def)
  have dl: "dlist (pv m') (nx m') NIL xs NIL"
    using l old in_old dlist_cong [of xs "pv m'" "pv m" "nx m'" "nx m"] by (auto simp: hm_links_def)
  have links: "hm_links m' xs ([?old..<?new] @ fs)"
    unfolding hm_links_def
  proof (intro conjI)
    have "\<not> ?old \<le> x" if "x \<in> set xs \<or> x \<in> set fs" for x using in_old [OF that] by simp
    then show "distinct (xs @ [?old..<?new] @ fs)" using l by (auto simp: hm_links_def)
    have "set xs \<union> set fs = {..<?old}" using l by (simp add: hm_links_def)
    then have "set (xs @ [?old..<?new] @ fs) = {..<?old} \<union> {?old..<?new}" unfolding set_append set_upt by blast
    then show "set (xs @ [?old..<?new] @ fs) = {..<length (nodes m')}"
      using new(1) by (simp add: ivl_disj_un_one(2) m'_def nd2(2))
    show "hm_free m' = hd (([?old..<?new] @ fs) @ [NIL])"
      using l f(1) by (cases "[?old..<?new]") (simp_all add: m'_def m1_def hm_links_def)
  qed (use dl sl l new in \<open>auto simp: m'_def m1_def nd2(2) hm_links_def\<close>)
  have same: "ky m' x = ky m x" "vl m' x = vl m x" if "x \<in> set xs" for x
    using that obj [OF less_le_trans [OF in_old new(1)]] by auto
  have "hm_objects m' xs ([?old..<?new] @ fs)"
    unfolding hm_objects_def
  proof (intro conjI ballI)
    fix x assume x: "x \<in> set ([?old..<?new] @ fs)"
    then have "x < ?new" using less_le_trans [OF in_old new(1)] by auto
    moreover have "x \<notin> set xs" using x links by (auto simp: hm_links_def)
    ultimately have "x < ?new" "x \<notin> set xs" by simp_all
    then show "ky m' x = None" "vl m' x = None" by (simp_all add: obj)
  next
    show "inj_on (ky m') (set xs)" using o same by (auto simp: hm_objects_def inj_on_def)
  qed (use o same in \<open>auto simp: hm_objects_def\<close>)
  moreover have "hm_buckets h m' xs"
  proof -
    have b: "bk m' x = bk m x" if "x \<in> set xs" for x using that old(3) in_old by blast
    have "buckets m' = buckets m" by (simp add: m'_def m1_def)
    then show ?thesis using bu b same first_of_cong [of xs "bk m'" "bk m"] bucket_index_cong [of m' m]
      unfolding hm_buckets_def by (metis (mono_tags, lifting) map_cong)
  qed
  ultimately have rel': "hm_rel h m' xs ([?old..<?new] @ fs)"
    using rel links by (auto simp: hm_rel_def m'_def m1_def buckets_ok_def)
  have "hm_abs m' k = hm_abs m k" for k
  proof -
    have "hm_abs m' k = Some v \<longleftrightarrow> hm_abs m k = Some v" for v
      using same by (simp add: hm_rel_abs [OF rel] hm_rel_abs [OF rel'])
    then show ?thesis by (metis option.exhaust)
  qed
  then have "hm_keeps m m'" by (simp add: hm_keeps_def m'_def m1_def fun_eq_iff)
  then show ?thesis using run rel' k by (auto simp: m'_def m1_def nd2(2))
qed

end
