(* ===== verification/Qlog_Hash_Map_Ops.thy ===== *)
theory Qlog_Hash_Map_Ops
  imports Qlog_Hash_Map_Nodes
begin

text \<open>
  Adding, finding, erasing and clearing on a well-formed hash map: each operation returns, keeps the invariant and
  changes the represented map as its name says.
\<close>

section \<open>The size of the bucket array\<close>

lemma bit_length_le: "0 < n \<Longrightarrow> 2 ^ (bit_length n - 1) \<le> n"
proof (induction n rule: bit_length.induct)
  case (1 n)
  show ?case
  proof (cases "n = 1")
    case False
    then have h: "0 < n div 2" using 1(2) by simp
    have "bit_length (n div 2) = Suc (bit_length (n div 2) - 1)" using h by (subst (1 2) bit_length.simps) simp
    then have "(2::nat) ^ (bit_length n - 1) = 2 * 2 ^ (bit_length (n div 2) - 1)"
      using 1(2) by (subst bit_length.simps) (metis add_diff_cancel_right' not_less0 power_Suc)
    then show ?thesis using 1(1) h 1(2) by linarith
  qed (simp add: bit_length.simps)
qed

lemma round24_le: "round24 n \<le> 2 * n"
proof -
  define s where "s = bit_length n - 24"
  have n: "n = n div 2 ^ s * 2 ^ s + n mod 2 ^ s" by (simp only: div_mult_mod_eq)
  have "2 ^ s \<le> n" if "0 < s"
  proof -
    have "0 < n" using that by (metis bit_length.simps diff_0_eq_0 gr0I less_irrefl s_def)
    then have "2 ^ (bit_length n - 1) \<le> n" by (rule bit_length_le)
    moreover have "(2::nat) ^ s \<le> 2 ^ (bit_length n - 1)" by (rule power_increasing) (simp_all add: s_def)
    ultimately show ?thesis by linarith
  qed
  then have "(n div 2 ^ s + 1) * 2 ^ s \<le> 2 * n" if "0 < s" using that n by (simp add: add_mult_distrib)
  moreover have "n div 2 ^ s * 2 ^ s \<le> 2 * n" using n by linarith
  ultimately show ?thesis by (simp add: round24_def Let_def s_def [symmetric])
qed

text \<open>Sizes for which the bucket array stays below \<open>2^31\<close> buckets at a given rate.\<close>

definition rate_room :: "float32 \<Rightarrow> nat \<Rightarrow> bool" where
  "rate_room rate n \<longleftrightarrow> n < 2 ^ 31 \<and> 4 * n * fst rate < 2 ^ 31 * 2 ^ snd rate"

lemma rate_room_mono: "rate_room rate n \<Longrightarrow> k \<le> n \<Longrightarrow> rate_room rate k"
proof -
  assume r: "rate_room rate n" "k \<le> n"
  then have "k * fst rate \<le> n * fst rate" by simp
  then have "4 * k * fst rate \<le> 4 * n * fst rate" by linarith
  then show ?thesis using r unfolding rate_room_def by linarith
qed

lemma expected_bucket_size_run:
  assumes "rate_room rate (sz + 1)"
  shows "\<exists>e. expected_bucket_size rate sz = Some e \<and> 1 \<le> e \<and> e \<le> 2 ^ 31"
proof -
  define x where "x = round24 (round24 (sz + 1) * fst rate) div 2 ^ snd rate"
  have "round24 (round24 (sz + 1) * fst rate) \<le> 2 * (2 * (sz + 1) * fst rate)"
    using round24_le [of "round24 (sz + 1) * fst rate"] mult_right_mono [OF round24_le [of "sz + 1"], of "fst rate"] by linarith
  also have "\<dots> < 2 ^ 31 * 2 ^ snd rate" using assms by (simp add: rate_room_def algebra_simps)
  finally have "x < 2 ^ 31" by (simp add: x_def less_mult_imp_div_less)
  moreover have "(sz + 1) mod 2 ^ 32 = sz + 1" using assms by (simp add: rate_room_def)
  ultimately have "expected_bucket_size rate sz = Some (x + 1)" "x + 1 \<le> 2 ^ 31"
    unfolding expected_bucket_size_def Let_def by (simp_all add: x_def)
  then show ?thesis by simp
qed

section \<open>Adding\<close>

lemma hm_buckets_before:
  assumes "hm_buckets h m (as @ g # bs)" and ky': "\<And>x. x \<in> set (as @ g # bs) \<Longrightarrow> ky m' x = ky m x"
    and "buckets m' = (buckets m)[b := c]" "c \<notin> set (as @ g # bs)"
    and bk': "\<And>x. bk m' x = (if x = c then Some b else bk m x)" and g: "bk m g = Some b"
    and none: "\<And>x. x \<in> set as \<Longrightarrow> bk m x \<noteq> Some b" and b: "b = get_bucket_index_by_key h m (the (ky m' c))"
  shows "hm_buckets h m' (as @ c # g # bs)"
proof -
  have old: "grouped (map (bk m) (as @ g # bs))" "\<forall>x\<in>set (as @ g # bs). bk m x = Some (get_bucket_index_by_key h m (the (ky m x)))"
    "\<forall>b<length (buckets m). buckets m ! b = first_of (bk m) (as @ g # bs) b"
    using assms(1) unfolding hm_buckets_def by blast+
  have same: "bk m' x = bk m x" if "x \<in> set (as @ g # bs)" for x using that assms(4) bk' by auto
  have "grouped (map (bk m) as @ Some b # map (bk m) bs)" using old(1) g by simp
  then have "grouped (map (bk m) as @ Some b # Some b # map (bk m) bs)" by (rule grouped_dup)
  moreover have "map (bk m') (as @ c # g # bs) = map (bk m) as @ Some b # Some b # map (bk m) bs"
    using same bk' [of c] g by simp
  moreover have "first_of (bk m') (as @ c # g # bs) b' = (if b' = b then c else first_of (bk m) (as @ g # bs) b')" for b'
  proof (cases "b' = b")
    case True
    then show ?thesis using none same bk' [of c] unfolding first_of_append by (auto simp: first_of_def)
  next
    case False
    then have "first_of (bk m') (as @ c # g # bs) b' = first_of (bk m') (as @ g # bs) b'"
      using bk' [of c] unfolding first_of_append by (simp add: first_of_def)
    also have "\<dots> = first_of (bk m) (as @ g # bs) b'" by (rule first_of_cong) (rule same)
    finally show ?thesis using False by simp
  qed
  moreover have "get_bucket_index_by_key h m' = get_bucket_index_by_key h m"
    by (rule bucket_index_cong) (simp add: assms(3))
  moreover have "bk m' x = Some (get_bucket_index_by_key h m (the (ky m' x)))" if "x \<in> set (as @ c # g # bs)" for x
    using that same old(2) bk' [of c] b ky' by auto
  moreover have "\<forall>b'<length (buckets m'). buckets m' ! b' = (if b' = b then c else first_of (bk m) (as @ g # bs) b')"
    using old(3) assms(3) by (simp add: nth_list_update)
  ultimately show ?thesis unfolding hm_buckets_def by metis
qed

text \<open>The state behind \<open>attach_node\<close>, for a new node between the nodes \<open>p\<close> and \<open>n\<close>.\<close>

definition attached :: "nat \<Rightarrow> 'k \<Rightarrow> nat \<Rightarrow> nat \<Rightarrow> nat \<Rightarrow> ('k, 'v) hash_map \<Rightarrow> ('k, 'v) hash_map" where
  "attached b key c p n m =
     (let m = m\<lparr>hm_free := nx m c, buckets := (buckets m)[b := c]\<rparr>;
          m = upd c (\<lambda>x. x\<lparr>node_next := n, node_prev := p, bucket_idx := Some b\<rparr>) m;
          m = (if p \<noteq> NIL then upd p (\<lambda>x. x\<lparr>node_next := c\<rparr>) m else m\<lparr>hm_head := c\<rparr>);
          m = (if n \<noteq> NIL then upd n (\<lambda>x. x\<lparr>node_prev := c\<rparr>) m else m\<lparr>hm_tail := c\<rparr>)
      in upd c (\<lambda>x. x\<lparr>node_key := Some key\<rparr>) m)"

lemma attached_fields:
  "this_ptr (attached b key c p n m) = this_ptr m" "buckets (attached b key c p n m) = (buckets m)[b := c]"
  "hm_size (attached b key c p n m) = hm_size m" "expand_rate (attached b key c p n m) = expand_rate m"
  "hm_head (attached b key c p n m) = (if p \<noteq> NIL then hm_head m else c)"
  "hm_tail (attached b key c p n m) = (if n \<noteq> NIL then hm_tail m else c)"
  "hm_free (attached b key c p n m) = nx m c" "length (nodes (attached b key c p n m)) = length (nodes m)"
  by (simp_all add: attached_def Let_def)

lemma nodes_hm_update [simp]:
  "nodes (m\<lparr>hm_head := a\<rparr>) = nodes m" "nodes (m\<lparr>hm_tail := a\<rparr>) = nodes m" "nodes (m\<lparr>hm_free := a, buckets := bs\<rparr>) = nodes m"
  by simp_all

lemma upd_attach:
  assumes "i < length (nodes m)"
  shows "nx (upd i (\<lambda>x. x\<lparr>node_next := v, node_prev := w, bucket_idx := u\<rparr>) m) = (nx m)(i := v)"
    "pv (upd i (\<lambda>x. x\<lparr>node_next := v, node_prev := w, bucket_idx := u\<rparr>) m) = (pv m)(i := w)"
    "bk (upd i (\<lambda>x. x\<lparr>node_next := v, node_prev := w, bucket_idx := u\<rparr>) m) = (bk m)(i := u)"
    "nx (upd i (\<lambda>x. x\<lparr>node_key := k\<rparr>) m) = nx m" "pv (upd i (\<lambda>x. x\<lparr>node_key := k\<rparr>) m) = pv m"
    "bk (upd i (\<lambda>x. x\<lparr>node_key := k\<rparr>) m) = bk m" "ky (upd i (\<lambda>x. x\<lparr>node_key := k\<rparr>) m) = (ky m)(i := k)"
    "vl (upd i (\<lambda>x. x\<lparr>node_key := k\<rparr>) m) = vl m"
  using assms by (simp_all add: fun_eq_iff nodes_upd)

lemma attached_nodes:
  assumes "c < length (nodes m)" "p \<noteq> NIL \<Longrightarrow> p < length (nodes m) \<and> p \<noteq> c" "n \<noteq> NIL \<Longrightarrow> n < length (nodes m) \<and> n \<noteq> c"
  shows "nx (attached b key c p n m) x = (if p \<noteq> NIL \<and> x = p then c else if x = c then n else nx m x)"
    "pv (attached b key c p n m) x = (if n \<noteq> NIL \<and> x = n then c else if x = c then p else pv m x)"
    "bk (attached b key c p n m) x = (if x = c then Some b else bk m x)"
    "ky (attached b key c p n m) x = (if x = c then Some key else ky m x)"
    "vl (attached b key c p n m) x = vl m x"
  using assms
  by (simp add: attached_def Let_def fun_cong [OF upd_attach(1)] fun_cong [OF upd_attach(2)] fun_cong [OF upd_attach(3)]
      fun_cong [OF upd_attach(4)] fun_cong [OF upd_attach(5)] fun_cong [OF upd_attach(6)] fun_cong [OF upd_attach(7)]
      fun_cong [OF upd_attach(8)] fun_cong [OF upd_links(1)] fun_cong [OF upd_links(2)] fun_cong [OF upd_links(3)]
      fun_cong [OF upd_links(4)] upd_objects upd_bucket_idx)+

lemma attached_links:
  assumes l: "hm_links m (as @ ys) (c # fs)"
  defines "p \<equiv> last (NIL # as)" and "n \<equiv> hd (ys @ [NIL])"
  shows "hm_links (attached b key c p n m) (as @ c # ys) fs"
proof -
  let ?m = "attached b key c p n m"
  have d: "distinct (as @ c # ys @ fs)" and dl: "dlist (pv m) (nx m) NIL (as @ ys) NIL" and sl: "slist (nx m) fs NIL"
    and free: "nx m c = hd (fs @ [NIL])" using l by (auto simp: hm_links_def)
  note rng = hm_linksD(1) [OF l] hm_linksD(3) [OF l]
  have c: "c < length (nodes m)" using hm_linksD(2) [OF l] by simp
  have p: "as \<noteq> [] \<Longrightarrow> p \<in> set as" "as = [] \<Longrightarrow> p = NIL" by (auto simp: p_def)
  have n: "ys \<noteq> [] \<Longrightarrow> n = hd ys \<and> n \<in> set ys" "ys = [] \<Longrightarrow> n = NIL" by (auto simp: n_def)
  have p': "p \<noteq> NIL \<longleftrightarrow> as \<noteq> []" and n': "n \<noteq> NIL \<longleftrightarrow> ys \<noteq> []" using p n rng by auto
  have pr: "p \<noteq> NIL \<Longrightarrow> p < length (nodes m) \<and> p \<noteq> c" "n \<noteq> NIL \<Longrightarrow> n < length (nodes m) \<and> n \<noteq> c"
    using p n rng(1) d by (auto simp: p' n')
  note nd = attached_nodes [OF c pr, where b = b and key = key]
  have out: "p \<notin> set ys" "p \<notin> set fs" "n \<notin> set as"
    using p n d rng(2) hm_linksD(4) [OF l] by (cases "as = []"; cases "ys = []"; auto)+
  have pl: "x = last as \<longleftrightarrow> p \<noteq> NIL \<and> x = p" if "x \<in> set as" for x using that p' by (auto simp: p_def)
  have nl: "x = hd ys \<longleftrightarrow> n \<noteq> NIL \<and> x = n" if "x \<in> set ys" for x using that n' n by auto
  have "dlist (pv ?m) (nx ?m) NIL (as @ c # ys) NIL"
  proof (rule dlist_link [OF dl])
    show "distinct (as @ c # ys)" using d by auto
    show "pv ?m c = last (NIL # as)" "nx ?m c = hd (ys @ [NIL])" unfolding p_def [symmetric] n_def [symmetric] using pr by (auto simp: nd)
    show "pv ?m x = pv m x \<and> nx ?m x = (if x = last as then c else nx m x)" if x: "x \<in> set as" for x
      using x out d by (auto simp: nd pl [OF x])
    show "nx ?m x = nx m x \<and> pv ?m x = (if x = hd ys then c else pv m x)" if x: "x \<in> set ys" for x
      using x out d by (auto simp: nd nl [OF x])
  qed
  moreover have "slist (nx ?m) fs NIL"
  proof -
    have "slist (nx ?m) fs NIL \<longleftrightarrow> slist (nx m) fs NIL" by (rule slist_cong) (use out d in \<open>auto simp: nd\<close>)
    then show ?thesis using sl by simp
  qed
  moreover have "hm_head ?m = hd ((as @ c # ys) @ [NIL])" "hm_tail ?m = last (NIL # as @ c # ys)"
    using l p' n' by (auto simp: attached_fields hm_links_def hd_append)
  moreover have "set (as @ c # ys) \<union> set fs = {..<length (nodes m)}" using l by (auto simp: hm_links_def)
  ultimately show ?thesis using d free l by (simp add: hm_links_def attached_fields Un_ac)
qed

lemma attach_run:
  assumes rel: "hm_rel h m xs (c # fs)" and ok: "buckets_ok m" and b: "b = get_bucket_index_by_key h m key"
  shows "\<exists>m' xs'. attach_node b key m = Some (\<lparr>it_parent = this_ptr m, it_node = c, it_bucket = b\<rparr>, m')
    \<and> hm_links m' xs' fs \<and> hm_buckets h m' xs' \<and> set xs' = insert c (set xs) \<and> buckets_ok m'
    \<and> this_ptr m' = this_ptr m \<and> hm_size m' = hm_size m \<and> expand_rate m' = expand_rate m
    \<and> (\<forall>x. ky m' x = (if x = c then Some key else ky m x)) \<and> (\<forall>x. vl m' x = vl m x) \<and> c < length (nodes m')
    \<and> c \<notin> set xs \<and> length (buckets m') = length (buckets m)"
proof -
  have l: "hm_links m xs (c # fs)" and bu: "hm_buckets h m xs" using rel by (auto simp: hm_rel_def)
  have br: "b < length (buckets m)" using bucket_in_range [OF ok] b by simp
  have c: "c < length (nodes m)" "c \<noteq> NIL" "c \<notin> set xs" using hm_linksD(2,4) [OF l] l by (auto simp: hm_links_def)
  have nn: "NIL \<notin> set xs" using hm_linksD(3) [OF l] by blast
  define g where "g = buckets m ! b"
  have g: "g = first_of (bk m) xs b" using bu br by (simp add: hm_buckets_def g_def)
  have free: "hm_free m = c" using l by (simp add: hm_links_def)
  have concl: ?thesis if run: "attach_node b key m = Some (\<lparr>it_parent = this_ptr m, it_node = c, it_bucket = b\<rparr>, attached b key c p n m)"
      and ln: "hm_links (attached b key c p n m) (as @ c # ys) fs" and xs: "xs = as @ ys"
      and bk: "hm_buckets h (attached b key c p n m) (as @ c # ys)"
      and nd: "\<And>x. ky (attached b key c p n m) x = (if x = c then Some key else ky m x)"
        "\<And>x. vl (attached b key c p n m) x = vl m x" for p n as ys
    using run ln bk c ok by (intro exI [of _ "attached b key c p n m"] exI [of _ "as @ c # ys"])
      (auto simp: xs attached_fields buckets_ok_def nd)
  show ?thesis
  proof (cases "g = NIL")
    case True
    have none: "\<forall>x\<in>set xs. bk m x \<noteq> Some b" using g True first_of_NIL [OF nn] by metis
    have t: "hm_tail m = last (NIL # xs)" using l by (simp add: hm_links_def)
    have tr: "hm_tail m \<noteq> NIL \<Longrightarrow> hm_tail m < length (nodes m) \<and> hm_tail m \<noteq> c"
      using t hm_linksD(1) [OF l] c(3) last_in_set [of xs] by (cases "xs = []") auto
    note nd = attached_nodes(3-5) [OF c(1) tr, where n = NIL, simplified]
    have "hm_links (attached b key c (hm_tail m) NIL m) (xs @ [c]) fs"
      using attached_links [of m xs "[]" c fs b key] l t by simp
    moreover have "hm_buckets h (attached b key c (hm_tail m) NIL m) (xs @ [c])"
      by (rule hm_buckets_snoc [OF bu _ attached_fields(2) c(3) _ none])
        (use c(3) b in \<open>auto simp: nd\<close>)
    moreover have "attach_node b key m = Some (\<lparr>it_parent = this_ptr m, it_node = c, it_bucket = b\<rparr>, attached b key c (hm_tail m) NIL m)"
      using br True free c tr by (cases "hm_tail m = NIL") (simp_all add: attach_node_def bucket_at_def g_def [symmetric] node_at_def set_bucket_def
          set_node_run construct_key_def attached_def Let_def)
    ultimately show ?thesis using concl [of "hm_tail m" NIL xs "[]"] nd by simp
  next
    case False
    obtain as bs where xs: "xs = as @ g # bs" and gb: "bk m g = Some b" and none: "\<And>x. x \<in> set as \<Longrightarrow> bk m x \<noteq> Some b"
      using first_of_Some [OF g [symmetric] False] by blast
    define p where "p = last (NIL # as)"
    have gr: "g < length (nodes m)" "g \<noteq> c" using hm_linksD(1) [OF l] xs c(3) by auto
    have pg: "pv m g = p" using l by (simp add: hm_links_def dlist_append xs p_def)
    have tr: "p \<noteq> NIL \<Longrightarrow> p < length (nodes m) \<and> p \<noteq> c"
      using hm_linksD(1) [OF l] xs c(3) last_in_set [of as] by (cases "as = []") (auto simp: p_def)
    have gn: "g \<noteq> NIL \<Longrightarrow> g < length (nodes m) \<and> g \<noteq> c" using gr by simp
    note nd = attached_nodes(3-5) [OF c(1) tr gn]
    have "hm_links (attached b key c p g m) (as @ c # g # bs) fs"
      using attached_links [of m as "g # bs" c fs b key] l xs by (simp add: p_def)
    moreover have bu': "hm_buckets h m (as @ g # bs)" using bu xs by simp
    have "hm_buckets h (attached b key c p g m) (as @ c # g # bs)"
      by (rule hm_buckets_before [OF bu' _ attached_fields(2) _ _ gb none])
        (use c(3) b xs in \<open>auto simp: nd\<close>)
    moreover have "attach_node b key m = Some (\<lparr>it_parent = this_ptr m, it_node = c, it_bucket = b\<rparr>, attached b key c p g m)"
      using br False free c tr gr by (cases "p = NIL") (simp_all add: attach_node_def bucket_at_def g_def [symmetric] node_at_def
          set_bucket_def set_node_run construct_key_def attached_def Let_def pg)
    ultimately show ?thesis using concl [of p g as "g # bs"] nd xs by simp
  qed
qed

lemma hm_rel_counts:
  assumes "hm_rel h m xs fs"
  shows "length (nodes m) = length xs + length fs" "hm_size m = length xs" "hm_free m = NIL \<longleftrightarrow> fs = []"
proof -
  have l: "hm_links m xs fs" and s: "hm_size m = length xs" using assms by (auto simp: hm_rel_def)
  have "card (set (xs @ fs)) = length (xs @ fs)" using l by (intro distinct_card) (simp add: hm_links_def)
  moreover have "card (set (xs @ fs)) = length (nodes m)" using l by (simp add: hm_links_def)
  ultimately show "length (nodes m) = length xs + length fs" by simp
  show "hm_size m = length xs" by (rule s)
  show "hm_free m = NIL \<longleftrightarrow> fs = []" using l hm_linksD(4) [OF l] by (cases fs) (auto simp: hm_links_def)
qed

lemma hm_abs_None:
  assumes "hm_rel h m xs fs"
  shows "hm_abs m k = None \<longleftrightarrow> (\<forall>x\<in>set xs. ky m x \<noteq> Some k)"
proof -
  have "vl m x \<noteq> None" if "x \<in> set xs" for x using assms that by (auto simp: hm_rel_def hm_objects_def)
  then show ?thesis using hm_rel_abs [OF assms, of k] by (metis not_None_eq)
qed

text \<open>The first half of \<open>alloc_node_by_key\<close>: enough buckets, the key is absent, and a free node.\<close>

lemma make_room:
  assumes rel: "hm_rel h m xs fs" and new: "hm_abs m key = None" and room: "rate_room (expand_rate m) (hm_size m + 1)"
  shows "\<exists>m' xs' c fs'. alloc_node_by_key h key m = attach_node (get_bucket_index_by_key h m' key) key m'
    \<and> hm_rel h m' xs' (c # fs') \<and> hm_keeps m m' \<and> buckets_ok m'"
proof -
  obtain e where e: "expected_bucket_size (expand_rate m) (hm_size m) = Some e" "1 \<le> e" "e \<le> 2 ^ 31"
    using expected_bucket_size_run [OF room] by blast
  obtain m1 xs1 where m1: "(if e > length (buckets m) then expand_buckets h e m else Some m) = Some m1" "hm_rel h m1 xs1 fs"
      "hm_keeps m m1" "e \<le> length (buckets m1)"
    using expand_buckets_run [OF rel e(3)] rel by (cases "e > length (buckets m)") auto
  have ok: "buckets_ok m1" using m1(2,4) e(2) by (auto simp: hm_rel_def)
  have "hm_abs m1 key = None" using new m1(3) by (simp add: hm_keeps_def)
  then have absent: "\<forall>x\<in>set xs1. ky m1 x \<noteq> Some key" using hm_abs_None [OF m1(2)] by simp
  obtain i b where f: "find_index_and_bucket_idx_by_key h key m1 = Some (i, b)"
      "i \<noteq> NIL \<longrightarrow> i \<in> set xs1 \<and> ky m1 i = Some key \<and> bk m1 i = Some b" "b = get_bucket_index_by_key h m1 key"
    using find_index_run [OF m1(2)] ok by blast
  have i: "i = NIL" using f(2) absent by blast
  have len: "length (nodes m1) < 2 ^ 31" if "fs = []"
    using hm_rel_counts [OF m1(2)] that room m1(3) by (simp add: hm_keeps_def rate_room_def)
  obtain m2 fs2 where m2: "(if hm_free m1 = NIL then expand_nodes ((length (nodes m1) + 1) mod 2 ^ 32) m1 else Some m1) = Some m2"
      "hm_rel h m2 xs1 fs2" "hm_keeps m1 m2" "buckets m2 = buckets m1" "fs2 \<noteq> []"
  proof (cases "fs = []")
    case False
    then show ?thesis using that [of m1 fs] m1(2) hm_rel_counts(3) [OF m1(2)] by simp
  next
    case True
    have "(length (nodes m1) + 1) mod 2 ^ 32 = length (nodes m1) + 1" using len [OF True] by simp
    moreover obtain m' fs' where "expand_nodes (length (nodes m1) + 1) m1 = Some m'" "hm_rel h m' xs1 fs'" "hm_keeps m1 m'"
        "length (nodes m1) + 1 \<le> length (nodes m')" "buckets m' = buckets m1"
      using expand_nodes_run [OF m1(2), of "length (nodes m1) + 1"] len [OF True] by auto
    moreover have "fs' \<noteq> []" using calculation(3,5) hm_rel_counts(1) [OF m1(2)] hm_rel_counts(1) [OF calculation(3)] True by auto
    ultimately show ?thesis using that [of m' fs'] True hm_rel_counts(3) [OF m1(2)] by simp
  qed
  obtain c fs' where c: "fs2 = c # fs'" using m2(5) by (cases fs2) auto
  have b: "b = get_bucket_index_by_key h m2 key" using f(3) bucket_index_cong [of m2 m1] m2(4) by simp
  have "alloc_node_by_key h key m = attach_node b key m2"
    using e(1) m1(1) f(1) i m2(1) by (simp add: alloc_node_by_key_def)
  moreover have "buckets_ok m2" using ok m2(4) by (simp add: buckets_ok_def)
  ultimately show ?thesis using b c m2(2) hm_keeps_trans [OF m1(3) m2(3)] by blast
qed

definition hm_at :: "('k, 'v) hash_map \<Rightarrow> nat list \<Rightarrow> hash_map_iterator \<Rightarrow> 'k \<Rightarrow> bool" where
  "hm_at m xs it key \<longleftrightarrow>
     it_parent it = this_ptr m \<and> it_node it \<in> set xs \<and> ky m (it_node it) = Some key \<and> bk m (it_node it) = Some (it_bucket it)"

lemma hm_add_run:
  assumes rel: "hm_rel h m xs fs" and new: "hm_abs m key = None" and room: "rate_room (expand_rate m) (hm_size m + 1)"
  shows "\<exists>it m' xs' fs'. hm_add h key v m = Some (it, m') \<and> hm_rel h m' xs' fs' \<and> hm_abs m' = (hm_abs m)(key \<mapsto> v)
    \<and> hm_size m' = hm_size m + 1 \<and> this_ptr m' = this_ptr m \<and> expand_rate m' = expand_rate m \<and> hm_at m' xs' it key"
proof -
  obtain m1 xs1 c fs1 where m1: "alloc_node_by_key h key m = attach_node (get_bucket_index_by_key h m1 key) key m1"
      "hm_rel h m1 xs1 (c # fs1)" "hm_keeps m m1" "buckets_ok m1" using make_room [OF assms] by blast
  define b where "b = get_bucket_index_by_key h m1 key"
  define it where "it = \<lparr>it_parent = this_ptr m1, it_node = c, it_bucket = b\<rparr>"
  obtain m2 xs2 where m2: "attach_node b key m1 = Some (it, m2)" "hm_links m2 xs2 fs1" "hm_buckets h m2 xs2"
      "set xs2 = insert c (set xs1)" "buckets_ok m2" "this_ptr m2 = this_ptr m1" "hm_size m2 = hm_size m1"
      "expand_rate m2 = expand_rate m1" "c < length (nodes m2)" "c \<notin> set xs1"
      "length (buckets m2) = length (buckets m1)"
    and ky2: "\<And>x. ky m2 x = (if x = c then Some key else ky m1 x)" and vl2: "\<And>x. vl m2 x = vl m1 x"
    using attach_run [OF m1(2,4) b_def] unfolding it_def by blast
  define m3 where "m3 = (upd c (\<lambda>n. n\<lparr>node_value := Some v\<rparr>) m2)\<lparr>hm_size := hm_size m + 1\<rparr>"
  have sz: "hm_size m1 = hm_size m" "hm_abs m1 = hm_abs m" "this_ptr m1 = this_ptr m" "expand_rate m1 = expand_rate m"
    using m1(3) by (simp_all add: hm_keeps_def)
  have nd3: "pv m3 = pv m2" "nx m3 = nx m2" "bk m3 = bk m2" "\<And>x. ky m3 x = (if x = c then Some key else ky m1 x)"
    "\<And>x. vl m3 x = (if x = c then Some v else vl m1 x)" "length (nodes m3) = length (nodes m2)"
    using m2(9) ky2 vl2 by (simp_all add: m3_def nodes_upd fun_eq_iff)
  have run: "hm_add h key v m = Some (it, m3)"
    using m1(1) m2(1,9) m2(7) sz(1) room
    by (simp add: hm_add_def b_def [symmetric] construct_value_def it_def set_node_run m3_def rate_room_def)
  have l3: "hm_links m3 xs2 fs1" using m2(2) nd3 by (simp add: hm_links_def m3_def)
  have o1: "hm_objects m1 xs1 (c # fs1)" using m1(2) by (simp add: hm_rel_def)
  have absent: "\<forall>x\<in>set xs1. ky m1 x \<noteq> Some key" using hm_abs_None [OF m1(2)] new sz(2) by simp
  have cf: "c \<notin> set fs1" using m2(2,4) by (auto simp: hm_links_def)
  have o3: "hm_objects m3 xs2 fs1" unfolding hm_objects_def
  proof (intro conjI ballI)
    fix x assume "x \<in> set xs2"
    then show "ky m3 x \<noteq> None" "vl m3 x \<noteq> None" using o1 m2(4) by (auto simp: nd3(4,5) hm_objects_def)
  next
    fix x assume "x \<in> set fs1"
    then show "ky m3 x = None" "vl m3 x = None" using o1 cf by (auto simp: nd3(4,5) hm_objects_def)
  next
    show "inj_on (ky m3) (set xs2)" using o1 m2(4,10) absent unfolding hm_objects_def inj_on_def by (auto simp: nd3(4))
  qed
  have b3: "hm_buckets h m3 xs2"
  proof -
    have "get_bucket_index_by_key h m3 = get_bucket_index_by_key h m2" by (rule bucket_index_cong) (simp add: m3_def)
    moreover have "ky m3 x = ky m2 x" for x by (simp add: nd3(4) ky2)
    moreover have "buckets m3 = buckets m2" by (simp add: m3_def)
    ultimately show ?thesis using m2(3) fun_cong [OF nd3(3)] unfolding hm_buckets_def nd3(3) by simp
  qed
  have "length xs2 = length xs1 + 1"
    using m2(2,4,10) l3 m1(2) distinct_card [of xs2] distinct_card [of xs1] by (simp add: hm_links_def hm_rel_def)
  then have rel3: "hm_rel h m3 xs2 fs1"
    using l3 o3 b3 m2(5) hm_rel_counts(2) [OF m1(2)] sz(1) by (simp add: hm_rel_def m3_def buckets_ok_def)
  have "hm_abs m3 k = ((hm_abs m)(key \<mapsto> v)) k" for k
  proof (cases "k = key")
    case True
    then show ?thesis using hm_rel_abs [OF rel3, of key v] m2(4) nd3(4,5) by auto
  next
    case False
    have "hm_abs m3 k = Some w \<longleftrightarrow> hm_abs m1 k = Some w" for w
      using False m2(4,10) by (auto simp: hm_rel_abs [OF rel3] hm_rel_abs [OF m1(2)] nd3(4,5))
    then show ?thesis using sz(2) False by (metis fun_upd_other option.exhaust)
  qed
  then have "hm_abs m3 = (hm_abs m)(key \<mapsto> v)" by (rule ext)
  moreover have "bk m3 c = Some b"
    using m2(3,4) ky2 [of c] bucket_index_cong [OF m2(11)] fun_cong [OF nd3(3)] by (simp add: hm_buckets_def b_def)
  ultimately show ?thesis using run rel3 m2 sz nd3(4) by (intro exI) (auto simp: hm_at_def it_def m3_def)
qed

end
