(* ===== verification/Qlog_Hash_Map_Remove.thy ===== *)
theory Qlog_Hash_Map_Remove
  imports Qlog_Hash_Map_Ops
begin

text \<open>
  Finding, erasing, clearing and copying on a well-formed hash map.
\<close>

section \<open>Finding\<close>

lemma hm_find_run:
  assumes "hm_rel h m xs fs"
  shows "\<exists>it. hm_find h key m = Some it \<and> it_parent it = this_ptr m
    \<and> (hm_abs m key \<noteq> None \<longrightarrow> hm_at m xs it key) \<and> (hm_abs m key = None \<longrightarrow> it_node it = NIL)"
proof -
  obtain i b where f: "find_index_and_bucket_idx_by_key h key m = Some (i, b)"
      "i \<noteq> NIL \<longrightarrow> i \<in> set xs \<and> ky m i = Some key \<and> bk m i = Some b" "i = NIL \<longrightarrow> (\<forall>x\<in>set xs. ky m x \<noteq> Some key)"
    using find_index_run [OF assms] by blast
  then show ?thesis using hm_abs_None [OF assms, of key] by (auto simp: hm_find_def hm_at_def)
qed

lemma legal_run:
  assumes "hm_rel h m xs fs" "hm_at m xs it key"
  shows "iterator_legal_check m it = Some True"
proof -
  have l: "hm_links m xs fs" using assms(1) by (simp add: hm_rel_def)
  have "it_node it < length (nodes m)" "it_node it \<noteq> NIL" using hm_linksD(1,3) [OF l] assms(2) by (auto simp: hm_at_def)
  then show ?thesis using assms(2) by (simp add: iterator_legal_check_def hm_at_def node_at_def)
qed

lemma illegal_run: "it_node it = NIL \<Longrightarrow> iterator_legal_check m it = Some False"
  by (simp add: iterator_legal_check_def)

lemma hm_entry_run:
  assumes "hm_rel h m xs fs" "hm_at m xs it key"
  shows "\<exists>v. iterator_entry m it = Some (key, v) \<and> hm_abs m key = Some v"
proof -
  have l: "hm_links m xs fs" using assms(1) by (simp add: hm_rel_def)
  have x: "it_node it \<in> set xs" "ky m (it_node it) = Some key" using assms(2) by (simp_all add: hm_at_def)
  obtain v where "vl m (it_node it) = Some v" using assms(1) x(1) by (auto simp: hm_rel_def hm_objects_def)
  then show ?thesis using x hm_linksD(1) [OF l x(1)] hm_rel_abs [OF assms(1), of key v]
    by (auto simp: iterator_entry_def node_at_def)
qed

section \<open>Erasing\<close>

text \<open>The state behind the unlinking of node \<open>c\<close> from bucket \<open>b\<close>; \<open>g\<close> is what the bucket then holds.\<close>

definition detached :: "nat \<Rightarrow> nat \<Rightarrow> nat \<Rightarrow> nat \<Rightarrow> nat \<Rightarrow> ('k, 'v) hash_map \<Rightarrow> ('k, 'v) hash_map" where
  "detached b g c p n m =
     (let m = (if p \<noteq> NIL then upd p (\<lambda>x. x\<lparr>node_next := n\<rparr>) m else m\<lparr>hm_head := n\<rparr>);
          m = (if n \<noteq> NIL then upd n (\<lambda>x. x\<lparr>node_prev := p\<rparr>) m else m\<lparr>hm_tail := p\<rparr>);
          m = (if buckets m ! b = c then m\<lparr>buckets := (buckets m)[b := g]\<rparr> else m);
          m = upd c (\<lambda>x. x\<lparr>node_next := hm_free m\<rparr>) m
      in destroyed c (m\<lparr>hm_free := c, hm_size := (hm_size m + 2 ^ 32 - 1) mod 2 ^ 32\<rparr>))"

lemma detached_fields:
  "this_ptr (detached b g c p n m) = this_ptr m"
  "buckets (detached b g c p n m) = (if buckets m ! b = c then (buckets m)[b := g] else buckets m)"
  "hm_size (detached b g c p n m) = (hm_size m + 2 ^ 32 - 1) mod 2 ^ 32" "expand_rate (detached b g c p n m) = expand_rate m"
  "hm_head (detached b g c p n m) = (if p \<noteq> NIL then hm_head m else n)"
  "hm_tail (detached b g c p n m) = (if n \<noteq> NIL then hm_tail m else p)"
  "hm_free (detached b g c p n m) = c" "length (nodes (detached b g c p n m)) = length (nodes m)"
  by (simp_all add: detached_def Let_def)

lemma detached_nodes:
  assumes "c < length (nodes m)" "p \<noteq> NIL \<Longrightarrow> p < length (nodes m) \<and> p \<noteq> c" "n \<noteq> NIL \<Longrightarrow> n < length (nodes m) \<and> n \<noteq> c"
  shows "nx (detached b g c p n m) x = (if x = c then hm_free m else if p \<noteq> NIL \<and> x = p then n else nx m x)"
    "pv (detached b g c p n m) x = (if n \<noteq> NIL \<and> x = n then p else pv m x)"
    "bk (detached b g c p n m) x = bk m x"
    "ky (detached b g c p n m) x = (if x = c then None else ky m x)"
    "vl (detached b g c p n m) x = (if x = c then None else vl m x)"
  using assms
  by (simp add: detached_def Let_def destroyed_nodes fun_cong [OF upd_links(1)] fun_cong [OF upd_links(2)]
      fun_cong [OF upd_links(3)] fun_cong [OF upd_links(4)] upd_objects upd_bucket_idx)+

lemma detached_links:
  assumes l: "hm_links m (as @ c # ys) fs"
  defines "p \<equiv> last (NIL # as)" and "n \<equiv> hd (ys @ [NIL])"
  shows "hm_links (detached b g c p n m) (as @ ys) (c # fs)"
proof -
  let ?m = "detached b g c p n m"
  have d: "distinct (as @ c # ys @ fs)" and dl: "dlist (pv m) (nx m) NIL (as @ c # ys) NIL" and sl: "slist (nx m) fs NIL"
    and free: "hm_free m = hd (fs @ [NIL])" using l by (auto simp: hm_links_def)
  note rng = hm_linksD(1) [OF l] hm_linksD(3) [OF l]
  have c: "c < length (nodes m)" using rng by simp
  have p: "as \<noteq> [] \<Longrightarrow> p \<in> set as" "as = [] \<Longrightarrow> p = NIL" by (auto simp: p_def)
  have n: "ys \<noteq> [] \<Longrightarrow> n = hd ys \<and> n \<in> set ys" "ys = [] \<Longrightarrow> n = NIL" by (auto simp: n_def)
  have p': "p \<noteq> NIL \<longleftrightarrow> as \<noteq> []" and n': "n \<noteq> NIL \<longleftrightarrow> ys \<noteq> []" using p n rng by auto
  have pr: "p \<noteq> NIL \<Longrightarrow> p < length (nodes m) \<and> p \<noteq> c" "n \<noteq> NIL \<Longrightarrow> n < length (nodes m) \<and> n \<noteq> c"
    using p n rng(1) d by (auto simp: p' n')
  note nd = detached_nodes [OF c pr, where b = b and g = g]
  have out: "p \<notin> set ys" "p \<notin> set fs" "n \<notin> set as"
    using p n d rng(2) hm_linksD(4) [OF l] by (cases "as = []"; cases "ys = []"; auto)+
  have pl: "x = last as \<longleftrightarrow> p \<noteq> NIL \<and> x = p" if "x \<in> set as" for x using that p' by (auto simp: p_def)
  have nl: "x = hd ys \<longleftrightarrow> n \<noteq> NIL \<and> x = n" if "x \<in> set ys" for x using that n' n by auto
  have "dlist (pv ?m) (nx ?m) NIL (as @ ys) NIL"
  proof (rule dlist_unlink [OF dl])
    show "distinct (as @ c # ys)" using d by auto
    show "pv ?m x = pv m x \<and> nx ?m x = (if x = last as then hd (ys @ [NIL]) else nx m x)" if x: "x \<in> set as" for x
      unfolding n_def [symmetric] using x out d by (auto simp: nd pl [OF x])
    show "nx ?m x = nx m x \<and> pv ?m x = (if x = hd ys then last (NIL # as) else pv m x)" if x: "x \<in> set ys" for x
      unfolding p_def [symmetric] using x out d by (auto simp: nd nl [OF x])
  qed
  moreover have "slist (nx ?m) (c # fs) NIL"
  proof -
    have "slist (nx ?m) fs NIL \<longleftrightarrow> slist (nx m) fs NIL" by (rule slist_cong) (use out d in \<open>auto simp: nd\<close>)
    then show ?thesis using sl free by (simp add: nd)
  qed
  moreover have "hm_head ?m = hd ((as @ ys) @ [NIL])" "hm_tail ?m = last (NIL # as @ ys)"
    using l p' n' n by (auto simp: detached_fields hm_links_def hd_append p_def n_def)
  moreover have "set (as @ ys) \<union> set (c # fs) = {..<length (nodes m)}" using l by (auto simp: hm_links_def)
  ultimately show ?thesis using d l by (simp add: hm_links_def detached_fields Un_ac)
qed

lemma grouped_suffix: "grouped (bs @ cs) \<Longrightarrow> grouped cs"
  by (induction bs) auto

lemma first_of_removed:
  assumes gr: "grouped (map B (as @ c # ys))" and nn: "NIL \<notin> set (as @ c # ys)" and d: "distinct (as @ c # ys)" and c: "B c = Some b"
  shows "first_of B (as @ ys) b'
    = (if first_of B (as @ c # ys) b' = c then (if ys \<noteq> [] \<and> B (hd ys) = Some b' then hd ys else NIL) else first_of B (as @ c # ys) b')"
proof (cases "b' = b \<and> (\<forall>x\<in>set as. B x \<noteq> Some b)")
  case True
  have fc: "first_of B (as @ c # ys) b' = c" using True c unfolding first_of_append by (auto simp: first_of_def)
  have f: "first_of B (as @ ys) b' = first_of B ys b'" using True unfolding first_of_append by auto
  have "grouped (B c # map B ys)" using grouped_suffix [of "map B as" "B c # map B ys"] gr by simp
  then have "hd (map B ys) = Some b \<or> Some b \<notin> set (map B ys)" using c by auto
  moreover have "first_of B ys b' = hd ys" if "ys \<noteq> []" "B (hd ys) = Some b" using that True by (cases ys) (simp_all add: first_of_def)
  moreover have "first_of B ys b' = NIL" if "Some b \<notin> set (map B ys)"
  proof -
    have "\<forall>x\<in>set ys. B x \<noteq> Some b" using that by (auto simp: image_iff)
    then show ?thesis using True by (simp add: first_of_def filter_empty_conv)
  qed
  ultimately show ?thesis using fc f True by (cases ys) auto
next
  case False
  have "first_of B (as @ ys) b' = first_of B (as @ c # ys) b'"
    using False c unfolding first_of_append by (auto simp: first_of_def)
  moreover have "first_of B (as @ c # ys) b' \<noteq> c"
  proof
    assume a: "first_of B (as @ c # ys) b' = c"
    moreover have "c \<noteq> NIL" using nn by auto
    ultimately obtain as' bs' where s: "as @ c # ys = as' @ c # bs'" "B c = Some b'" "\<And>x. x \<in> set as' \<Longrightarrow> B x \<noteq> Some b'"
      by (rule first_of_Some) blast
    then have "as' = as" using d by (metis append_Cons_eq_iff distinct_append distinct.simps(2) not_distinct_conv_prefix Un_iff set_append)
    then show False using s False c by auto
  qed
  ultimately show ?thesis by simp
qed

lemma hm_objects_detached:
  assumes o: "hm_objects m (as @ c # ys) fs" and d: "distinct (as @ c # ys)" and cf: "c \<notin> set fs"
    and ky': "\<And>x. ky m' x = (if x = c then None else ky m x)" and vl': "\<And>x. vl m' x = (if x = c then None else vl m x)"
  shows "hm_objects m' (as @ ys) (c # fs)"
  unfolding hm_objects_def
proof (intro conjI ballI)
  fix x assume "x \<in> set (as @ ys)"
  then show "ky m' x \<noteq> None" "vl m' x \<noteq> None" using o d by (auto simp: ky' vl' hm_objects_def)
next
  fix x assume "x \<in> set (c # fs)"
  then show "ky m' x = None" "vl m' x = None" using o cf by (auto simp: ky' vl' hm_objects_def)
next
  show "inj_on (ky m') (set (as @ ys))" using o d unfolding hm_objects_def inj_on_def by (auto simp: ky')
qed

lemma erase_at_run:
  assumes rel: "hm_rel h m xs fs" and at: "hm_at m xs it key"
  shows "\<exists>m' xs' fs'. erase_at it m = Some (True, m') \<and> hm_rel h m' xs' fs' \<and> hm_abs m' = (hm_abs m)(key := None)
    \<and> hm_size m = hm_size m' + 1 \<and> this_ptr m' = this_ptr m \<and> expand_rate m' = expand_rate m
    \<and> iterator_legal_check m' it = Some True \<and> ky m' (it_node it) = None"
proof -
  define c where "c = it_node it"
  define b where "b = it_bucket it"
  have c: "c \<in> set xs" "ky m c = Some key" "bk m c = Some b" "it_parent it = this_ptr m"
    using at by (simp_all add: hm_at_def c_def b_def)
  obtain as ys where xs: "xs = as @ c # ys" using split_list [OF c(1)] by blast
  define p where "p = last (NIL # as)"
  define n where "n = hd (ys @ [NIL])"
  define g where "g = (if ys \<noteq> [] \<and> bk m (hd ys) = Some b then hd ys else NIL)"
  let ?m = "detached b g c p n m"
  have l: "hm_links m (as @ c # ys) fs" and o: "hm_objects m (as @ c # ys) fs" and bu: "hm_buckets h m (as @ c # ys)"
    and ok: "buckets_ok m" and sz: "hm_size m = length xs" using rel xs by (auto simp: hm_rel_def)
  have d: "distinct (as @ c # ys)" "c \<notin> set fs" using l by (auto simp: hm_links_def)
  note rng = hm_linksD(1) [OF l] hm_linksD(3) [OF l]
  have old: "grouped (map (bk m) (as @ c # ys))" "\<forall>x\<in>set (as @ c # ys). bk m x = Some (get_bucket_index_by_key h m (the (ky m x)))"
    "\<forall>b<length (buckets m). buckets m ! b = first_of (bk m) (as @ c # ys) b"
    using bu unfolding hm_buckets_def by blast+
  have br: "b < length (buckets m)" using old(2) c(2,3) bucket_in_range [OF ok] by auto
  have pc: "pv m c = p" "nx m c = n" using l by (auto simp: hm_links_def dlist_append p_def n_def)
  have cr: "c < length (nodes m)" "c \<noteq> NIL" using rng by auto
  have pr: "p \<noteq> NIL \<Longrightarrow> p < length (nodes m) \<and> p \<noteq> c" "n \<noteq> NIL \<Longrightarrow> n < length (nodes m) \<and> n \<noteq> c"
    using rng(1) d(1) last_in_set [of as] hd_in_set [of ys] by (cases "as = []"; cases "ys = []"; auto simp: p_def n_def)+
  have n': "n \<noteq> NIL \<longleftrightarrow> ys \<noteq> []" using rng(2) hd_in_set [of ys] by (cases "ys = []") (auto simp: n_def)
  note nd = detached_nodes [OF cr(1) pr, where b = b and g = g]
  have bn: "ys \<noteq> [] \<Longrightarrow> bk m n \<noteq> None" using old(2) by (cases ys) (auto simp: n_def)
  have gn: "g = (if n \<noteq> NIL \<and> bk m n = Some b then n else NIL)" using n' by (cases ys) (auto simp: g_def n_def)
  have kv: "ky m c \<noteq> None" "vl m c \<noteq> None" using o by (auto simp: hm_objects_def)
  have run: "erase_at it m = Some (True, ?m)"
  proof -
    let ?m1 = "if p \<noteq> NIL then upd p (\<lambda>x. x\<lparr>node_next := n\<rparr>) m else m\<lparr>hm_head := n\<rparr>"
    let ?m2 = "if n \<noteq> NIL then upd n (\<lambda>x. x\<lparr>node_prev := p\<rparr>) ?m1 else ?m1\<lparr>hm_tail := p\<rparr>"
    let ?m3 = "if buckets ?m2 ! b = c then ?m2\<lparr>buckets := (buckets ?m2)[b := g]\<rparr> else ?m2"
    let ?m4 = "upd c (\<lambda>x. x\<lparr>node_next := hm_free ?m3\<rparr>) ?m3"
    let ?m5 = "?m4\<lparr>hm_free := c, hm_size := (hm_size ?m4 + 2 ^ 32 - 1) mod 2 ^ 32\<rparr>"
    have s1: "(if p \<noteq> NIL then set_node p (\<lambda>x. x\<lparr>node_next := n\<rparr>) m else Some (m\<lparr>hm_head := n\<rparr>)) = Some ?m1"
      using pr by (simp add: set_node_run)
    have f1: "length (nodes ?m1) = length (nodes m)" "pv ?m1 c = p" "buckets ?m1 = buckets m"
      using pr pc by (auto simp: fun_cong [OF upd_links(2)])
    have s2: "(if n \<noteq> NIL then node_at ?m1 c \<bind> (\<lambda>x. set_node n (\<lambda>y. y\<lparr>node_prev := node_prev x\<rparr>) ?m1)
        else node_at ?m1 c \<bind> (\<lambda>x. Some (?m1\<lparr>hm_tail := node_prev x\<rparr>))) = Some ?m2"
      using pr cr f1 by (simp add: node_at_def set_node_run)
    have f2: "length (nodes ?m2) = length (nodes m)" "bk ?m2 n = bk m n" "buckets ?m2 = buckets m" using pr
      by (auto simp: upd_bucket_idx)
    have s3: "(if c = buckets m ! b then (if n \<noteq> NIL then node_at ?m2 n \<bind> (\<lambda>x. bucket_idx x \<bind>
          (\<lambda>bi. set_bucket b (if bi = b then n else NIL) ?m2)) else set_bucket b NIL ?m2) else Some ?m2) = Some ?m3"
      using br bn n' f2 pr gn by (auto simp: node_at_def set_bucket_def)
    have f3: "length (nodes ?m3) = length (nodes m)" using f2 by simp
    have kv5: "ky ?m5 c \<noteq> None" "vl ?m5 c \<noteq> None" "c < length (nodes ?m5)"
      using kv cr pr by (auto simp: upd_objects)
    have s5: "destruct it ?m5 = Some (destroyed c ?m5)" by (rule destruct_run [OF c_def [symmetric] kv5(3,1,2)])
    show ?thesis
      using legal_run [OF rel at] cr(1) s1 s2 s3 s5 f3 f2(3) br
      by (simp only: erase_at_def Let_def c_def [symmetric] b_def [symmetric] node_at_def if_True Option.bind.simps
          simp_thms if_False pc bucket_at_def set_node_run detached_def refl)
  qed
  have rest: "hm_links ?m (as @ ys) (c # fs)" using detached_links [OF l] by (simp add: p_def n_def)
  have o': "hm_objects ?m (as @ ys) (c # fs)" by (rule hm_objects_detached [OF o d nd(4,5)])
  have bu': "hm_buckets h ?m (as @ ys)"
  proof -
    have gr: "grouped (map (bk m) (as @ ys))" using old(1) grouped_remove [of "map (bk m) as" "bk m c"] by simp
    have beq: "bk ?m = bk m" by (rule ext) (rule nd(3))
    have first: "buckets ?m ! b' = first_of (bk m) (as @ ys) b'" if "b' < length (buckets m)" for b'
    proof -
      have f: "buckets m ! b' = first_of (bk m) (as @ c # ys) b'" using old(3) that by blast
      have same_b: "b' = b" if "first_of (bk m) (as @ c # ys) b' = c"
        using first_of_Some [OF that cr(2)] c(3) by (metis option.inject)
      have "NIL \<notin> set (as @ c # ys)" using rng(2) by blast
      from first_of_removed [OF old(1) this d(1) c(3), of b'] show ?thesis
        using f same_b that br by (auto simp: detached_fields g_def nth_list_update)
    qed
    have bi: "get_bucket_index_by_key h ?m = get_bucket_index_by_key h m"
      by (rule bucket_index_cong) (simp add: detached_fields)
    have kk: "ky ?m x = ky m x" if "x \<in> set (as @ ys)" for x using that d(1) by (auto simp: nd(4))
    show ?thesis unfolding hm_buckets_def beq bi
    proof (intro conjI ballI allI impI)
      fix x assume x: "x \<in> set (as @ ys)"
      then show "bk ?m x = Some (get_bucket_index_by_key h m (the (ky ?m x)))" using old(2) kk [OF x] nd(3) by auto
    next
      have "length (buckets ?m) = length (buckets m)" by (simp add: detached_fields)
      then show "buckets ?m ! b' = first_of (bk m) (as @ ys) b'" if "b' < length (buckets ?m)" for b' using that first by simp
    qed (rule gr)
  qed
  have sz': "hm_size ?m = length (as @ ys)"
    using sz xs hm_rel_counts(1) [OF rel] l by (simp add: detached_fields hm_links_def)
  then have rel': "hm_rel h ?m (as @ ys) (c # fs)"
    using rest o' bu' ok by (simp add: hm_rel_def buckets_ok_def detached_fields)
  have "hm_abs ?m k = ((hm_abs m)(key := None)) k" for k
  proof (cases "k = key")
    case True
    have "ky ?m x \<noteq> Some key" if "x \<in> set (as @ ys)" for x
    proof
      assume "ky ?m x = Some key"
      then have "ky m x = ky m c" "x \<noteq> c" using c(2) by (auto simp: nd(4) split: if_splits)
      then show False using o that unfolding hm_objects_def inj_on_def by auto
    qed
    then show ?thesis using hm_abs_None [OF rel', of key] True by simp
  next
    case False
    have "hm_abs ?m k = Some w \<longleftrightarrow> hm_abs m k = Some w" for w
      using False c(2) d(1) xs by (auto simp: hm_rel_abs [OF rel'] hm_rel_abs [OF rel] nd(4,5))
    then show ?thesis using False by (metis fun_upd_other option.exhaust)
  qed
  then have "hm_abs ?m = (hm_abs m)(key := None)" by (rule ext)
  moreover have "iterator_legal_check ?m it = Some True"
    using c cr by (simp add: iterator_legal_check_def c_def [symmetric] b_def [symmetric] detached_fields node_at_def nd(3))
  ultimately show ?thesis using run rel' sz sz' xs nd(4) [of c] by (intro exI conjI) (auto simp: detached_fields c_def)
qed

section \<open>Clearing\<close>

lemma destruct_all_run:
  assumes "walkable m qs" "at_node it m qs" "distinct qs" "\<And>x. x \<in> set qs \<Longrightarrow> ky m x \<noteq> None \<and> vl m x \<noteq> None"
  shows "\<exists>m'. destruct_all it m = Some m' \<and> this_ptr m' = this_ptr m \<and> expand_rate m' = expand_rate m
    \<and> length (nodes m') = length (nodes m) \<and> buckets m' = buckets m
    \<and> (\<forall>x. ky m' x = (if x \<in> set qs then None else ky m x) \<and> vl m' x = (if x \<in> set qs then None else vl m x))"
  using assms
proof (induction qs arbitrary: m it)
  case Nil
  then show ?case using at_end [OF Nil.prems(2,1)] by (simp add: destruct_all.simps)
next
  case (Cons x qs)
  have x: "x < length (nodes m)" "it_node it = x" using Cons.prems(1,2) by (simp_all add: walkable_def at_node_def)
  let ?m = "destroyed x m"
  have w: "walkable ?m (x # qs)" "at_node it ?m (x # qs)"
    using walkable_destroyed [OF Cons.prems(1)] Cons.prems(2) by (simp_all add: at_node_def)
  obtain it' where it': "iterator_next ?m it = Some it'" "at_node it' ?m qs" using iterator_next_run [OF w] by blast
  have w': "walkable ?m qs" using w(1) by (simp add: walkable_def)
  have d: "distinct qs" using Cons.prems(3) by simp
  have obj: "ky ?m y \<noteq> None \<and> vl ?m y \<noteq> None" if "y \<in> set qs" for y
    using that Cons.prems(3,4) x by (auto simp: destroyed_nodes)
  from Cons.IH [OF w' it'(2) d obj] obtain m' where m': "destruct_all it' ?m = Some m'" "this_ptr m' = this_ptr m"
      "expand_rate m' = expand_rate m" "length (nodes m') = length (nodes m)" "buckets m' = buckets m"
    and kv: "\<And>y. ky m' y = (if y \<in> set qs then None else ky ?m y)" "\<And>y. vl m' y = (if y \<in> set qs then None else vl ?m y)"
    by auto
  have "destruct_all it m = Some m'"
    using at_end [OF Cons.prems(2,1)] x it' m'(1) Cons.prems(4) [of x] by (simp add: destruct_all.simps [of it m] destruct_run)
  then show ?case using m' x by (auto simp: kv destroyed_nodes)
qed

lemma relink_free_nth:
  assumes "i < length ns" "length ns \<le> 2 ^ 31"
  shows "relink_free ns ! i = (ns ! i)\<lparr>node_prev := NIL, node_next := (if i + 1 = length ns then NIL else i + 1)\<rparr>"
proof -
  have "(i + 1) mod 2 ^ 32 = i + 1" using assms by simp
  then show ?thesis using assms by (auto simp: relink_free_def Let_def nth_enumerate_eq nth_list_update)
qed

lemma length_relink_free [simp]: "length (relink_free ns) = length ns"
  by (simp add: relink_free_def Let_def)

lemma slist_upt:
  assumes "\<And>x. i \<le> x \<Longrightarrow> x < n \<Longrightarrow> N x = (if x + 1 = n then e else x + 1)" "i \<le> n"
  shows "slist N [i..<n] e"
  using assms(2,1) by (induction i rule: inc_induct) (auto simp: upt_conv_Cons)

lemma clear_run:
  assumes rel: "hm_rel h m xs fs"
  shows "\<exists>m'. clear m = Some m' \<and> hm_rel h m' [] [0..<length (nodes m)] \<and> hm_abs m' = Map.empty \<and> hm_size m' = 0
    \<and> this_ptr m' = this_ptr m \<and> expand_rate m' = expand_rate m \<and> length (nodes m') = length (nodes m)
    \<and> length (buckets m') = length (buckets m)"
proof -
  let ?n = "length (nodes m)"
  have l: "hm_links m xs fs" and o: "hm_objects m xs fs" using rel by (auto simp: hm_rel_def)
  obtain it where it: "begin_iterator m = Some it" "at_node it m xs" using begin_run [OF rel] by blast
  have "distinct xs" "\<And>x. x \<in> set xs \<Longrightarrow> ky m x \<noteq> None \<and> vl m x \<noteq> None" using l o by (auto simp: hm_links_def hm_objects_def)
  from destruct_all_run [OF hm_rel_walkable [OF rel] it(2) this] obtain m1 where m1: "destruct_all it m = Some m1"
      "this_ptr m1 = this_ptr m" "expand_rate m1 = expand_rate m" "length (nodes m1) = ?n" "buckets m1 = buckets m"
    and kv: "\<And>x. ky m1 x = (if x \<in> set xs then None else ky m x)" "\<And>x. vl m1 x = (if x \<in> set xs then None else vl m x)" by blast
  have none: "ky m1 x = None" "vl m1 x = None" if "x < ?n" for x
    using hm_linksD(6) [OF l that] o by (auto simp: kv hm_objects_def)
  define m2 where "m2 = m1\<lparr>buckets := replicate (length (buckets m)) NIL,
    hm_free := (if ?n > 0 then 0 else NIL), nodes := (if ?n > 0 then relink_free (nodes m1) else nodes m1),
    hm_size := 0, hm_tail := NIL, hm_head := NIL\<rparr>"
  have run: "clear m = Some m2"
    using it(1) m1(1,4,5) by (auto simp: clear_def m2_def Let_def)
  have len: "?n \<le> 2 ^ 31" using l by (simp add: hm_links_def)
  have nth: "nodes m2 ! x = (nodes m1 ! x)\<lparr>node_prev := NIL, node_next := (if x + 1 = ?n then NIL else x + 1)\<rparr>" if "x < ?n" for x
    using that relink_free_nth [of x "nodes m1"] m1(4) len by (cases "nodes m") (simp_all add: m2_def)
  have "slist (nx m2) [0..<?n] NIL" by (rule slist_upt) (simp_all add: nth)
  moreover have "length (nodes m2) = ?n" using m1(4) by (simp add: m2_def)
  moreover have "hd ([0..<?n] @ [NIL]) = (if ?n > 0 then 0 else NIL)" by (simp add: upt_conv_Cons del: upt_Suc)
  ultimately have "hm_links m2 [] [0..<?n]" using len by (auto simp: hm_links_def m2_def)
  moreover have "hm_objects m2 [] [0..<?n]" using none by (simp add: hm_objects_def nth)
  moreover have "hm_buckets h m2 []" by (simp add: hm_buckets_def m2_def first_of_def)
  ultimately have rel2: "hm_rel h m2 [] [0..<?n]" using rel by (auto simp: hm_rel_def m2_def buckets_ok_def)
  have "hm_abs m2 = Map.empty" using hm_abs_None [OF rel2] by auto
  then show ?thesis using run rel2 m1 by (intro exI [of _ m2]) (simp add: m2_def)
qed

section \<open>Construction and copies\<close>

lemma empty_rel: "hm_rel h (empty_hash_map a) [] []"
  by (simp add: hm_rel_def empty_hash_map_def hm_links_def hm_objects_def hm_buckets_def)

lemma hm_abs_empty: "hm_abs (empty_hash_map a) = Map.empty"
  by (simp add: hm_abs_def empty_hash_map_def)

text \<open>Growing both arrays of a map, as the constructors do.\<close>

lemma expand_both:
  assumes "hm_rel h m xs fs" "nb \<le> 2 ^ 31" "nn \<le> 2 ^ 31"
  shows "\<exists>m1 m2 xs' fs'. expand_buckets h nb m = Some m1 \<and> expand_nodes nn m1 = Some m2 \<and> hm_rel h m2 xs' fs' \<and> hm_keeps m m2"
proof -
  obtain m1 xs1 where m1: "expand_buckets h nb m = Some m1" "hm_rel h m1 xs1 fs" "hm_keeps m m1"
    using expand_buckets_run [OF assms(1,2)] by blast
  obtain m2 fs2 where "expand_nodes nn m1 = Some m2" "hm_rel h m2 xs1 fs2" "hm_keeps m1 m2"
    using expand_nodes_run [OF m1(2) assms(3)] by blast
  then show ?thesis using m1 hm_keeps_trans by blast
qed

lemma buckets_bound: "hm_rel h m xs fs \<Longrightarrow> length (buckets m) \<le> 2 ^ 31"
  using power_increasing [of _ 31 "2 :: nat"] by (auto simp: hm_rel_def buckets_ok_def)

lemma hash_map_new_run:
  fixes h :: "'k \<Rightarrow> u64"
  assumes "n \<le> 2 ^ 31"
  shows "\<exists>(m :: ('k, 'v) hash_map) xs fs. hash_map_new h a n = Some m \<and> hm_rel h m xs fs \<and> hm_keeps (empty_hash_map a) m"
proof -
  obtain m1 :: "('k, 'v) hash_map" and xs1 where m1: "expand_buckets h n (empty_hash_map a) = Some m1" "hm_rel h m1 xs1 []" "hm_keeps (empty_hash_map a) m1"
    using expand_buckets_run [OF empty_rel assms] by blast
  obtain m2 fs2 where m2: "expand_nodes (length (buckets m1)) m1 = Some m2" "hm_rel h m2 xs1 fs2" "hm_keeps m1 m2"
    using expand_nodes_run [OF m1(2) buckets_bound [OF m1(2)]] by blast
  have "hash_map_new h a n = Some m2" using m1(1) m2(1) by (simp add: hash_map_new_def)
  then show ?thesis using m2(2) hm_keeps_trans [OF m1(3) m2(3)] by blast
qed

lemma add_all_run:
  assumes rhs: "hm_rel h rhs (ps @ qs) fs" and "at_node it rhs qs" and "hm_rel h m xs gs" "hm_size m = length ps"
    and "hm_abs m = (\<lambda>k. if \<exists>x\<in>set ps. ky rhs x = Some k then hm_abs rhs k else None)"
    and "rate_room (expand_rate m) (length (ps @ qs))"
  shows "\<exists>m' xs' gs'. add_all h it rhs m = Some m' \<and> hm_rel h m' xs' gs' \<and> hm_abs m' = hm_abs rhs
    \<and> hm_size m' = length (ps @ qs) \<and> this_ptr m' = this_ptr m"
  using assms
proof (induction qs arbitrary: ps it m xs gs)
  case Nil
  have "walkable rhs []" by (simp add: walkable_def)
  then have "add_all h it rhs m = Some m" using at_end [OF Nil.prems(2)] by (simp add: add_all.simps)
  moreover have "hm_abs m k = hm_abs rhs k" for k
    using Nil.prems(5) hm_abs_None [OF Nil.prems(1), of k] by (cases "hm_abs rhs k") auto
  then have "hm_abs m = hm_abs rhs" by (rule ext)
  ultimately show ?case using Nil.prems(3,4) by auto
next
  case (Cons x qs)
  have w: "walkable rhs (x # qs)" using hm_rel_walkable [OF Cons.prems(1)] by (simp add: walkable_def slist_append)
  have l: "hm_links rhs (ps @ x # qs) fs" and o: "hm_objects rhs (ps @ x # qs) fs" using Cons.prems(1) by (auto simp: hm_rel_def)
  obtain k v where kv: "ky rhs x = Some k" "vl rhs x = Some v" using o by (auto simp: hm_objects_def)
  have e: "iterator_entry rhs it = Some (k, v)"
    using kv w Cons.prems(2) by (simp add: iterator_entry_def node_at_def at_node_def walkable_def)
  have rk: "hm_abs rhs k = Some v" using hm_rel_abs [OF Cons.prems(1), of k v] kv by auto
  have "\<not> (\<exists>y\<in>set ps. ky rhs y = Some k)"
  proof
    assume "\<exists>y\<in>set ps. ky rhs y = Some k"
    then obtain y where y: "y \<in> set ps" "ky rhs y = ky rhs x" using kv by auto
    then have "y = x" using o unfolding hm_objects_def inj_on_def by auto
    then show False using y(1) l by (auto simp: hm_links_def)
  qed
  then have new: "hm_abs m k = None" using Cons.prems(5) by simp
  have room: "rate_room (expand_rate m) (hm_size m + 1)" by (rule rate_room_mono [OF Cons.prems(6)]) (simp add: Cons.prems(4))
  obtain it2 m2 xs2 gs2 where m2: "hm_add h k v m = Some (it2, m2)" "hm_rel h m2 xs2 gs2" "hm_abs m2 = (hm_abs m)(k \<mapsto> v)"
      "hm_size m2 = hm_size m + 1" "this_ptr m2 = this_ptr m" "expand_rate m2 = expand_rate m"
    using hm_add_run [OF Cons.prems(3) new room, of v] by blast
  obtain it' where it': "iterator_next rhs it = Some it'" "at_node it' rhs qs" using iterator_next_run [OF w Cons.prems(2)] by blast
  have "hm_abs m2 = (\<lambda>j. if \<exists>y\<in>set (ps @ [x]). ky rhs y = Some j then hm_abs rhs j else None)"
    unfolding m2(3) Cons.prems(5) using kv rk by (auto simp: fun_eq_iff)
  then have "\<exists>m' xs' gs'. add_all h it' rhs m2 = Some m' \<and> hm_rel h m' xs' gs' \<and> hm_abs m' = hm_abs rhs
    \<and> hm_size m' = length ((ps @ [x]) @ qs) \<and> this_ptr m' = this_ptr m2"
    using Cons.prems(1,4,6) m2 by (intro Cons.IH [OF _ it'(2) m2(2)]) simp_all
  moreover have "add_all h it rhs m = add_all h it' rhs m2"
    using at_end [OF Cons.prems(2) w] e m2(1) it'(1) by (simp add: add_all.simps [of h it])
  ultimately show ?case using m2(5) by simp
qed

lemma fill_run:
  assumes rhs: "hm_rel h rhs xs fs" and m: "hm_rel h m [] gs" and room: "rate_room (expand_rate m) (length xs)"
  shows "\<exists>it m1 m2 m3 xs3 fs3. expand_buckets h (length (buckets rhs)) m = Some m1 \<and> expand_nodes (length (nodes rhs)) m1 = Some m2
    \<and> begin_iterator rhs = Some it \<and> add_all h it rhs m2 = Some m3 \<and> hm_rel h m3 xs3 fs3
    \<and> hm_abs m3 = hm_abs rhs \<and> hm_size m3 = hm_size rhs \<and> this_ptr m3 = this_ptr m"
proof -
  have nn: "length (nodes rhs) \<le> 2 ^ 31" using rhs by (simp add: hm_rel_def hm_links_def)
  obtain m1 m2 xs2 fs2 where m2: "expand_buckets h (length (buckets rhs)) m = Some m1" "expand_nodes (length (nodes rhs)) m1 = Some m2"
      "hm_rel h m2 xs2 fs2" "hm_keeps m m2" using expand_both [OF m buckets_bound [OF rhs] nn] by blast
  obtain it where it: "begin_iterator rhs = Some it" "at_node it rhs xs" using begin_run [OF rhs] by blast
  have "hm_abs m = Map.empty" using hm_abs_None [OF m] by auto
  then have ab: "hm_abs m2 = (\<lambda>k. if \<exists>x\<in>set []. ky rhs x = Some k then hm_abs rhs k else None)"
    using m2(4) by (simp add: hm_keeps_def)
  have sz: "hm_size m2 = length []" using m2(4) hm_rel_counts(2) [OF m] by (simp add: hm_keeps_def)
  have "rate_room (expand_rate m2) (length ([] @ xs))" using room m2(4) by (simp add: hm_keeps_def)
  moreover have "hm_rel h rhs ([] @ xs) fs" using rhs by simp
  ultimately obtain m3 xs3 fs3 where "add_all h it rhs m2 = Some m3" "hm_rel h m3 xs3 fs3"
      "hm_abs m3 = hm_abs rhs" "hm_size m3 = length xs" "this_ptr m3 = this_ptr m2"
    using add_all_run [OF _ it(2) m2(3) sz ab, where fs = fs] unfolding append_Nil by blast
  then show ?thesis using m2 it hm_rel_counts(2) [OF rhs]
    by (intro exI [of _ it] exI [of _ m1] exI [of _ m2] exI [of _ m3] exI [of _ xs3] exI [of _ fs3]) (simp add: hm_keeps_def)
qed

end
