(* ===== verification/Qlog_Map_Spec.thy ===== *)
theory Qlog_Map_Spec
  imports Qlog_Prelude "HOL-Library.Monad_Syntax"
begin

text \<open>
  The contract of an associative container: lookup, assignment through the subscript operator and removal behave as
  on a finite map, as long as the number of keys stays within the room of the container.
\<close>

datatype ('k, 'v) map_op = Lookup 'k | Put 'k 'v | Delete 'k
datatype 'v map_result = Found "'v option" | Stored | Deleted bool

text \<open>A run on the container; \<open>None\<close> when an operation fails.\<close>

fun map_run ::
  "('k \<Rightarrow> 's \<Rightarrow> 'v option option) \<Rightarrow> ('k \<Rightarrow> 'v \<Rightarrow> 's \<Rightarrow> 's option) \<Rightarrow> ('k \<Rightarrow> 's \<Rightarrow> (bool \<times> 's) option)
    \<Rightarrow> ('k, 'v) map_op list \<Rightarrow> 's \<Rightarrow> ('v map_result list \<times> 's) option" where
  "map_run lookup put delete [] s = Some ([], s)"
| "map_run lookup put delete (Lookup k # ops) s = do {
     r \<leftarrow> lookup k s;
     (rs, t) \<leftarrow> map_run lookup put delete ops s;
     Some (Found r # rs, t)
   }"
| "map_run lookup put delete (Put k v # ops) s = do {
     s' \<leftarrow> put k v s;
     (rs, t) \<leftarrow> map_run lookup put delete ops s';
     Some (Stored # rs, t)
   }"
| "map_run lookup put delete (Delete k # ops) s = do {
     (b, s') \<leftarrow> delete k s;
     (rs, t) \<leftarrow> map_run lookup put delete ops s';
     Some (Deleted b # rs, t)
   }"

text \<open>The same run on a map.\<close>

fun spec_run :: "('k, 'v) map_op list \<Rightarrow> ('k \<Rightarrow> 'v option) \<Rightarrow> 'v map_result list \<times> ('k \<Rightarrow> 'v option)" where
  "spec_run [] f = ([], f)"
| "spec_run (Lookup k # ops) f = apfst ((#) (Found (f k))) (spec_run ops f)"
| "spec_run (Put k v # ops) f = apfst ((#) Stored) (spec_run ops (f(k \<mapsto> v)))"
| "spec_run (Delete k # ops) f = apfst ((#) (Deleted (f k \<noteq> None))) (spec_run ops (f(k := None)))"

locale bounded_map =
  fixes invar :: "'s \<Rightarrow> bool"
    and abs :: "'s \<Rightarrow> 'k \<Rightarrow> 'v option"
    and count :: "'s \<Rightarrow> nat"
    and room :: "nat \<Rightarrow> bool"
    and lookup :: "'k \<Rightarrow> 's \<Rightarrow> 'v option option"
    and put :: "'k \<Rightarrow> 'v \<Rightarrow> 's \<Rightarrow> 's option"
    and delete :: "'k \<Rightarrow> 's \<Rightarrow> (bool \<times> 's) option"
  assumes room_mono: "room n \<Longrightarrow> j \<le> n \<Longrightarrow> room j"
    and lookup_law: "invar s \<Longrightarrow> lookup k s = Some (abs s k)"
    and put_law: "invar s \<Longrightarrow> room (count s + 1)
      \<Longrightarrow> \<exists>s'. put k v s = Some s' \<and> invar s' \<and> abs s' = (abs s)(k \<mapsto> v) \<and> count s' \<le> count s + 1"
    and delete_law: "invar s
      \<Longrightarrow> \<exists>s'. delete k s = Some (abs s k \<noteq> None, s') \<and> invar s' \<and> abs s' = (abs s)(k := None) \<and> count s' \<le> count s"
begin

lemma run_refines:
  assumes "invar s" "room (count s + length ops)"
  shows "\<exists>t. map_run lookup put delete ops s = Some (fst (spec_run ops (abs s)), t) \<and> invar t
    \<and> abs t = snd (spec_run ops (abs s)) \<and> count t \<le> count s + length ops"
  using assms
proof (induction ops arbitrary: s)
  case (Cons x ops)
  show ?case
  proof (cases x)
    case (Lookup k)
    have "room (count s + length ops)" by (rule room_mono [OF Cons.prems(2)]) simp
    then show ?thesis using Cons.IH [OF Cons.prems(1)] lookup_law [OF Cons.prems(1), of k] Lookup by fastforce
  next
    case (Put k v)
    have "room (count s + 1)" by (rule room_mono [OF Cons.prems(2)]) simp
    then obtain s' where s': "put k v s = Some s'" "invar s'" "abs s' = (abs s)(k \<mapsto> v)" "count s' \<le> count s + 1"
      using put_law [OF Cons.prems(1)] by blast
    have "room (count s' + length ops)" by (rule room_mono [OF Cons.prems(2)]) (use s' in simp)
    then show ?thesis using Cons.IH [OF s'(2)] s' Put by fastforce
  next
    case (Delete k)
    obtain s' where s': "delete k s = Some (abs s k \<noteq> None, s')" "invar s'" "abs s' = (abs s)(k := None)" "count s' \<le> count s"
      using delete_law [OF Cons.prems(1)] by blast
    have "room (count s' + length ops)" by (rule room_mono [OF Cons.prems(2)]) (use s' in simp)
    then show ?thesis using Cons.IH [OF s'(2)] s' Delete by fastforce
  qed
qed simp

end

end
