(* ===== verification/Qlog_Hash_Map_Props.thy ===== *)
theory Qlog_Hash_Map_Props
  imports Qlog_Hash_Map_Remove Qlog_Map_Spec
begin

text \<open>
  What the hash map promises its users: it behaves as a finite map under any sequence of operations, iteration visits
  every binding once, copies are equal, and an erased iterator is not recognised as such.
\<close>

section \<open>The operations of the contract\<close>

text \<open>A lookup through an iterator, and the assignment \<open>map[key] = value\<close>.\<close>

definition hm_lookup :: "('k \<Rightarrow> u64) \<Rightarrow> 'k \<Rightarrow> ('k, 'v) hash_map \<Rightarrow> 'v option option" where
  "hm_lookup h key m = do {
     it \<leftarrow> hm_find h key m;
     legal \<leftarrow> iterator_legal_check m it;
     if legal then map_option (\<lambda>e. Some (snd e)) (iterator_entry m it) else Some None
   }"

definition hm_put :: "('k \<Rightarrow> u64) \<Rightarrow> 'v \<Rightarrow> 'k \<Rightarrow> 'v \<Rightarrow> ('k, 'v) hash_map \<Rightarrow> ('k, 'v) hash_map option" where
  "hm_put h dflt key v m = do {
     (it, m) \<leftarrow> hm_index h dflt key m;
     set_node (it_node it) (\<lambda>n. n\<lparr>node_value := Some v\<rparr>) m
   }"

lemma hm_invarI: "hm_rel h m xs fs \<Longrightarrow> hm_invar h m"
  by (auto simp: hm_invar_def)

lemma hm_lookup_run:
  assumes "hm_rel h m xs fs"
  shows "hm_lookup h key m = Some (hm_abs m key)"
proof -
  obtain it where it: "hm_find h key m = Some it" "hm_abs m key \<noteq> None \<longrightarrow> hm_at m xs it key"
      "hm_abs m key = None \<longrightarrow> it_node it = NIL" using hm_find_run [OF assms] by blast
  show ?thesis
  proof (cases "hm_abs m key = None")
    case True
    then show ?thesis using it illegal_run [of it m] by (simp add: hm_lookup_def)
  next
    case False
    then have "hm_at m xs it key" using it(2) by simp
    then show ?thesis using it(1) legal_run [OF assms] hm_entry_run [OF assms] by (fastforce simp: hm_lookup_def)
  qed
qed

lemma assign_run:
  assumes rel: "hm_rel h m xs fs" and at: "hm_at m xs it key"
  shows "\<exists>m'. set_node (it_node it) (\<lambda>n. n\<lparr>node_value := Some v\<rparr>) m = Some m' \<and> hm_rel h m' xs fs
    \<and> hm_abs m' = (hm_abs m)(key \<mapsto> v) \<and> hm_size m' = hm_size m \<and> this_ptr m' = this_ptr m \<and> expand_rate m' = expand_rate m"
proof -
  define c where "c = it_node it"
  have l: "hm_links m xs fs" and o: "hm_objects m xs fs" and bu: "hm_buckets h m xs" using rel by (auto simp: hm_rel_def)
  have c: "c \<in> set xs" "ky m c = Some key" "c < length (nodes m)" using at hm_linksD(1) [OF l] by (auto simp: hm_at_def c_def)
  define m' where "m' = upd c (\<lambda>n. n\<lparr>node_value := Some v\<rparr>) m"
  have nd: "pv m' = pv m" "nx m' = nx m" "bk m' = bk m" "ky m' = ky m" "\<And>x. vl m' x = (if x = c then Some v else vl m x)"
    using c(3) by (simp_all add: m'_def nodes_upd fun_eq_iff)
  have "hm_links m' xs fs" using l nd by (simp add: hm_links_def m'_def)
  moreover have "c \<notin> set fs" using c(1) l by (auto simp: hm_links_def)
  then have "hm_objects m' xs fs" using o c(1) nd(4) fun_cong [OF nd(4)] by (auto simp: hm_objects_def nd(5))
  moreover have "get_bucket_index_by_key h m' = get_bucket_index_by_key h m" by (rule bucket_index_cong) (simp add: m'_def)
  then have "hm_buckets h m' xs" using bu fun_cong [OF nd(3)] fun_cong [OF nd(4)] unfolding hm_buckets_def nd(3) by (simp add: m'_def)
  ultimately have rel': "hm_rel h m' xs fs" using rel by (simp add: hm_rel_def m'_def buckets_ok_def)
  have "hm_abs m' k = ((hm_abs m)(key \<mapsto> v)) k" for k
  proof (cases "k = key")
    case True
    then show ?thesis using hm_rel_abs [OF rel', of key v] c(1,2) fun_cong [OF nd(4)] nd(5) by auto
  next
    case False
    have "hm_abs m' k = Some w \<longleftrightarrow> hm_abs m k = Some w" for w
      unfolding hm_rel_abs [OF rel'] hm_rel_abs [OF rel] by (rule bex_cong) (use False c(2) fun_cong [OF nd(4)] in \<open>auto simp: nd(5)\<close>)
    then show ?thesis using False by (metis fun_upd_other option.exhaust)
  qed
  then have "hm_abs m' = (hm_abs m)(key \<mapsto> v)" by (rule ext)
  then show ?thesis using rel' set_node_run [OF c(3)] by (simp add: c_def [symmetric] m'_def)
qed

lemma hm_put_run:
  assumes rel: "hm_rel h m xs fs" and room: "rate_room (expand_rate m) (hm_size m + 1)"
  shows "\<exists>m' xs' fs'. hm_put h dflt key v m = Some m' \<and> hm_rel h m' xs' fs' \<and> hm_abs m' = (hm_abs m)(key \<mapsto> v)
    \<and> hm_size m' \<le> hm_size m + 1 \<and> expand_rate m' = expand_rate m"
proof -
  obtain it where it: "hm_find h key m = Some it" "hm_abs m key \<noteq> None \<longrightarrow> hm_at m xs it key"
      "hm_abs m key = None \<longrightarrow> it_node it = NIL" using hm_find_run [OF rel] by blast
  show ?thesis
  proof (cases "hm_abs m key = None")
    case True
    obtain it2 m2 xs2 fs2 where a: "hm_add h key dflt m = Some (it2, m2)" "hm_rel h m2 xs2 fs2" "hm_abs m2 = (hm_abs m)(key \<mapsto> dflt)"
        "hm_size m2 = hm_size m + 1" "expand_rate m2 = expand_rate m" "hm_at m2 xs2 it2 key"
      using hm_add_run [OF rel True room, of dflt] by blast
    obtain m3 where "set_node (it_node it2) (\<lambda>n. n\<lparr>node_value := Some v\<rparr>) m2 = Some m3" "hm_rel h m3 xs2 fs2"
        "hm_abs m3 = (hm_abs m2)(key \<mapsto> v)" "hm_size m3 = hm_size m2" "expand_rate m3 = expand_rate m2"
      using assign_run [OF a(2,6), of v] by blast
    then show ?thesis using a it(1,3) True illegal_run [of it m] by (simp add: hm_put_def hm_index_def) blast
  next
    case False
    then have at: "hm_at m xs it key" using it(2) by simp
    obtain m3 where "set_node (it_node it) (\<lambda>n. n\<lparr>node_value := Some v\<rparr>) m = Some m3" "hm_rel h m3 xs fs"
        "hm_abs m3 = (hm_abs m)(key \<mapsto> v)" "hm_size m3 = hm_size m" "expand_rate m3 = expand_rate m"
      using assign_run [OF rel at, of v] by blast
    then show ?thesis using it(1) legal_run [OF rel at] by (simp add: hm_put_def hm_index_def) blast
  qed
qed

lemma erase_key_run:
  assumes rel: "hm_rel h m xs fs"
  shows "\<exists>m' xs' fs'. erase_key h key m = Some (hm_abs m key \<noteq> None, m') \<and> hm_rel h m' xs' fs'
    \<and> hm_abs m' = (hm_abs m)(key := None) \<and> hm_size m' \<le> hm_size m \<and> expand_rate m' = expand_rate m"
proof -
  obtain it where it: "hm_find h key m = Some it" "hm_abs m key \<noteq> None \<longrightarrow> hm_at m xs it key"
      "hm_abs m key = None \<longrightarrow> it_node it = NIL" using hm_find_run [OF rel] by blast
  show ?thesis
  proof (cases "hm_abs m key = None")
    case True
    then show ?thesis using it rel illegal_run [of it m] by (intro exI [of _ m] exI [of _ xs] exI [of _ fs]) (auto simp: erase_key_def)
  next
    case False
    then have at: "hm_at m xs it key" using it(2) by simp
    obtain m' xs' fs' where "erase_at it m = Some (True, m')" "hm_rel h m' xs' fs'" "hm_abs m' = (hm_abs m)(key := None)"
        "hm_size m = hm_size m' + 1" "expand_rate m' = expand_rate m"
      using erase_at_run [OF rel at] by blast
    then show ?thesis using it(1) legal_run [OF rel at] False
      by (intro exI [of _ m'] exI [of _ xs'] exI [of _ fs']) (auto simp: erase_key_def)
  qed
qed

interpretation hm: bounded_map "\<lambda>m. hm_invar h m \<and> expand_rate m = r" hm_abs hm_size "rate_room r" "hm_lookup h" "hm_put h dflt" "erase_key h"
  for h :: "'k \<Rightarrow> u64" and r and dflt :: 'v
proof
  fix s :: "('k, 'v) hash_map" and k :: 'k and v :: 'v
  assume s: "hm_invar h s \<and> expand_rate s = r"
  then obtain xs fs where rel: "hm_rel h s xs fs" by (auto simp: hm_invar_def)
  show "hm_lookup h k s = Some (hm_abs s k)" by (rule hm_lookup_run [OF rel])
  show "\<exists>s'. hm_put h dflt k v s = Some s' \<and> (hm_invar h s' \<and> expand_rate s' = r) \<and> hm_abs s' = (hm_abs s)(k \<mapsto> v)
    \<and> hm_size s' \<le> hm_size s + 1" if "rate_room r (hm_size s + 1)"
    using hm_put_run [OF rel, of dflt k v] s that by (auto simp: hm_invar_def)
  show "\<exists>s'. erase_key h k s = Some (hm_abs s k \<noteq> None, s') \<and> (hm_invar h s' \<and> expand_rate s' = r)
    \<and> hm_abs s' = (hm_abs s)(k := None) \<and> hm_size s' \<le> hm_size s"
    using erase_key_run [OF rel, of k] s by (auto simp: hm_invar_def)
qed (rule rate_room_mono)

section \<open>Properties\<close>

text \<open>
  Property C5. The hash map is a finite map. For every hash function, initial size up to \<open>2^31\<close>, expand rate and
  sequence of lookups, subscript assignments and removals that leaves room for its keys at that rate, every operation
  returns, no assertion fails, no dead entry is touched, and the results are those of the same sequence on a map.
\<close>

theorem hash_map_refines_map:
  fixes h :: "'k \<Rightarrow> u64" and ops :: "('k, 'v) map_op list"
  assumes "n \<le> 2 ^ 31" and "rate_room r (length ops)"
  shows "\<exists>m0 m. hash_map_new h a n = Some m0
    \<and> map_run (hm_lookup h) (hm_put h dflt) (erase_key h) ops (set_expand_rate r m0) = Some (fst (spec_run ops Map.empty), m)
    \<and> hm_abs m = snd (spec_run ops Map.empty)"
proof -
  obtain m0 :: "('k, 'v) hash_map" and xs fs where m0: "hash_map_new h a n = Some m0" "hm_rel h m0 xs fs" "hm_keeps (empty_hash_map a) m0"
    using hash_map_new_run [OF assms(1)] by blast
  let ?m = "set_expand_rate r m0"
  have abs: "hm_abs ?m = Map.empty" using m0(3) hm_abs_empty [of a] by (simp add: hm_keeps_def set_expand_rate_def hm_abs_def)
  have "hm_rel h ?m xs fs"
    using m0(2) by (simp add: hm_rel_def set_expand_rate_def hm_links_def hm_objects_def hm_buckets_def buckets_ok_def
        get_bucket_index_by_key_def get_bucket_index_by_hash_def)
  then have inv: "hm_invar h ?m \<and> expand_rate ?m = r" by (auto simp: hm_invar_def set_expand_rate_def)
  have "hm_size ?m = 0" using m0(3) by (simp add: hm_keeps_def set_expand_rate_def empty_hash_map_def)
  then show ?thesis using hm.run_refines [OF inv, of ops dflt] assms(2) m0(1) abs by auto
qed

theorem hash_map_refines_map_witness:
  "\<exists>m0 m. hash_map_new (integer_hash_code :: u32 \<Rightarrow> u64) 1 2 = Some m0
    \<and> map_run (hm_lookup integer_hash_code) (hm_put integer_hash_code 0) (erase_key integer_hash_code)
        [Put 5 7, Put 9 (8 :: nat), Lookup 5, Delete 5, Lookup 5] (set_expand_rate (4, 0) m0)
      = Some ([Stored, Stored, Found (Some 7), Deleted True, Found None], m) \<and> hm_abs m = [9 \<mapsto> 8]"
  using hash_map_refines_map [of 2 "(4, 0)" "[Put (5 :: u32) 7, Put 9 (8 :: nat), Lookup 5, Delete 5, Lookup 5]" integer_hash_code 1 0]
  by (simp add: rate_room_def fun_upd_twist)

text \<open>The loop \<open>for (iter = begin(); iter != end(); ++iter)\<close> over the entries.\<close>

partial_function (option) hm_items :: "hash_map_iterator \<Rightarrow> ('k, 'v) hash_map \<Rightarrow> ('k \<times> 'v) list option" where
  [code]: "hm_items it m =
     (if iterator_eq it (end_iterator m) then Some []
      else do {
        e \<leftarrow> iterator_entry m it;
        it' \<leftarrow> iterator_next m it;
        es \<leftarrow> hm_items it' m;
        Some (e # es)
      })"

lemma hm_items_run:
  assumes "walkable m qs" "at_node it m qs" "\<And>x. x \<in> set qs \<Longrightarrow> ky m x \<noteq> None \<and> vl m x \<noteq> None"
  shows "hm_items it m = Some (map (\<lambda>x. (the (ky m x), the (vl m x))) qs)"
  using assms
proof (induction qs arbitrary: it)
  case Nil
  then show ?case using at_end [OF Nil.prems(2,1)] by (simp add: hm_items.simps)
next
  case (Cons x qs)
  obtain it' where it': "iterator_next m it = Some it'" "at_node it' m qs" using iterator_next_run [OF Cons.prems(1,2)] by blast
  have "walkable m qs" using Cons.prems(1) by (simp add: walkable_def)
  then have ih: "hm_items it' m = Some (map (\<lambda>x. (the (ky m x), the (vl m x))) qs)"
    using Cons.IH [OF _ it'(2)] Cons.prems(3) by simp
  obtain k v where "ky m x = Some k" "vl m x = Some v" using Cons.prems(3) by fastforce
  moreover have "iterator_entry m it = Some (k, v)" using calculation Cons.prems(1,2)
    by (simp add: iterator_entry_def node_at_def at_node_def walkable_def)
  ultimately show ?case using at_end [OF Cons.prems(2,1)] it'(1) ih by (simp add: hm_items.simps [of it])
qed

lemma hm_iterates:
  assumes "hm_invar h m"
  shows "\<exists>it es. begin_iterator m = Some it \<and> hm_items it m = Some es \<and> distinct (map fst es) \<and> map_of es = hm_abs m
    \<and> length es = hm_size m"
proof -
  obtain xs fs where rel: "hm_rel h m xs fs" using assms by (auto simp: hm_invar_def)
  have l: "hm_links m xs fs" and o: "hm_objects m xs fs" using rel by (auto simp: hm_rel_def)
  obtain it where it: "begin_iterator m = Some it" "at_node it m xs" using begin_run [OF rel] by blast
  define es where "es = map (\<lambda>x. (the (ky m x), the (vl m x))) xs"
  have obj: "ky m x \<noteq> None \<and> vl m x \<noteq> None" if "x \<in> set xs" for x using o that by (auto simp: hm_objects_def)
  have run: "hm_items it m = Some es" unfolding es_def by (rule hm_items_run [OF hm_rel_walkable [OF rel] it(2) obj])
  have "inj_on (\<lambda>x. the (ky m x)) (set xs)" using o obj unfolding hm_objects_def inj_on_def by (metis option.expand)
  then have d: "distinct (map fst es)" using l by (simp add: es_def hm_links_def comp_def distinct_map)
  have "map_of es k = hm_abs m k" for k
  proof -
    have "map_of es k = Some v \<longleftrightarrow> hm_abs m k = Some v" for v
      using obj by (subst map_of_eq_Some_iff [OF d]) (force simp: es_def hm_rel_abs [OF rel])
    then show ?thesis by (metis option.exhaust)
  qed
  then have "map_of es = hm_abs m" by (rule ext)
  then show ?thesis using it(1) run d hm_rel_counts(2) [OF rel] by (auto simp: es_def)
qed

text \<open>
  Property C27. Iterating a well-formed map from \<open>begin()\<close> to \<open>end()\<close> terminates and yields every binding exactly once,
  \<open>size()\<close> of them.
\<close>

theorem hash_map_iterates:
  assumes "hm_invar h m"
  shows "\<exists>it es. begin_iterator m = Some it \<and> hm_items it m = Some es \<and> distinct (map fst es) \<and> map_of es = hm_abs m
    \<and> length es = hm_size m"
  by (rule hm_iterates [OF assms])

text \<open>
  Copying. The copy constructor and the copy assignment from another map give a well-formed map with the
  same bindings; a map assigned to itself comes out empty.
\<close>

theorem hash_map_copies:
  assumes "hm_invar h m" "hm_invar h rhs" "rate_room (3, 1) (hm_size rhs)" "rate_room (expand_rate m) (hm_size rhs)"
  shows "(\<exists>m'. hash_map_copy h a rhs = Some m' \<and> hm_invar h m' \<and> hm_abs m' = hm_abs rhs)
    \<and> (\<exists>m'. assign_copy h rhs m = Some m' \<and> hm_invar h m'
        \<and> hm_abs m' = (if this_ptr rhs = this_ptr m then Map.empty else hm_abs rhs))"
proof -
  obtain xs fs where m: "hm_rel h m xs fs" using assms(1) by (auto simp: hm_invar_def)
  obtain ys gs where rhs: "hm_rel h rhs ys gs" using assms(2) by (auto simp: hm_invar_def)
  have len: "hm_size rhs = length ys" using hm_rel_counts(2) [OF rhs] .
  have "rate_room (expand_rate (empty_hash_map a :: ('a, 'b) hash_map)) (length ys)" using assms(3) len by (simp add: empty_hash_map_def)
  from fill_run [OF rhs empty_rel this] have copy: "\<exists>m'. hash_map_copy h a rhs = Some m' \<and> hm_invar h m' \<and> hm_abs m' = hm_abs rhs"
    by (auto simp: hash_map_copy_def intro: hm_invarI)
  obtain m1 where m1: "clear m = Some m1" "hm_rel h m1 [] [0..<length (nodes m)]" "hm_abs m1 = Map.empty" "this_ptr m1 = this_ptr m"
      "expand_rate m1 = expand_rate m" using clear_run [OF m] by blast
  have "\<exists>m'. assign_copy h rhs m = Some m' \<and> hm_invar h m' \<and> hm_abs m' = (if this_ptr rhs = this_ptr m then Map.empty else hm_abs rhs)"
  proof (cases "this_ptr rhs = this_ptr m")
    case True
    have "rate_room (expand_rate m1) (length [])" by (simp add: rate_room_def)
    from fill_run [OF m1(2,2) this] True m1 show ?thesis by (auto simp: assign_copy_def intro: hm_invarI)
  next
    case False
    have "rate_room (expand_rate m1) (length ys)" using assms(4) m1(5) len by simp
    from fill_run [OF rhs m1(2) this] False m1 show ?thesis by (auto simp: assign_copy_def intro: hm_invarI)
  qed
  then show ?thesis using copy by blast
qed

section \<open>Erased iterators\<close>

lemma set_node_key:
  "set_node i f m = Some m' \<Longrightarrow> (\<And>n. node_key (f n) = node_key n) \<Longrightarrow> ky m' c = ky m c"
  by (auto simp: set_node_def nth_list_update split: if_splits)

lemma set_bucket_key: "set_bucket b g m = Some m' \<Longrightarrow> ky m' c = ky m c"
  by (auto simp: set_bucket_def split: if_splits)

lemma destruct_dead: "ky m (it_node it) = None \<Longrightarrow> destruct it m = None"
  by (simp add: destruct_def destruct_key_def node_at_def)

text \<open>Every step before the destruction keeps the keys, so a node without a key is destroyed a second time.\<close>

lemma bind_NoneI: "(\<And>x. a = Some x \<Longrightarrow> f x = None) \<Longrightarrow> a \<bind> f = None"
  by (cases a) simp_all

lemma node_at_dead: "node_at m c = Some x \<Longrightarrow> ky m c = None \<Longrightarrow> node_key x = None"
  by (auto simp: node_at_def split: if_splits)

lemma erase_dead:
  assumes dead: "ky m (it_node it) = None" and legal: "iterator_legal_check m it = Some True"
  shows "erase_at it m = None"
  unfolding erase_at_def legal Let_def Option.bind.simps simp_thms if_False
proof (rule bind_NoneI)+
  let ?c = "it_node it"
  fix cur m1 m2 first m3 m4 m5
  assume s1: "(if node_prev cur \<noteq> NIL then set_node (node_prev cur) (\<lambda>n. n\<lparr>node_next := node_next cur\<rparr>) m
      else Some (m\<lparr>hm_head := node_next cur\<rparr>)) = Some m1"
    and s2: "(if node_next cur \<noteq> NIL then node_at m1 ?c \<bind> (\<lambda>c. set_node (node_next cur) (\<lambda>n. n\<lparr>node_prev := node_prev c\<rparr>) m1)
      else node_at m1 ?c \<bind> (\<lambda>c. Some (m1\<lparr>hm_tail := node_prev c\<rparr>))) = Some m2"
    and s3: "(if ?c = first then (if node_next cur \<noteq> NIL then node_at m2 (node_next cur) \<bind> (\<lambda>n. bucket_idx n \<bind>
        (\<lambda>b. set_bucket (it_bucket it) (if b = it_bucket it then node_next cur else NIL) m2)) else set_bucket (it_bucket it) NIL m2)
      else Some m2) = Some m3"
    and s4: "set_node ?c (\<lambda>n. n\<lparr>node_next := hm_free m3\<rparr>) m3 = Some m4"
    and s5: "destruct it (m4\<lparr>hm_free := ?c, hm_size := (hm_size m4 + 2 ^ 32 - 1) mod 2 ^ 32\<rparr>) = Some m5"
  have "ky m1 ?c = None" using s1 dead by (auto split: if_splits dest: set_node_key [where c = ?c])
  then have "ky m2 ?c = None" using s2 by (auto simp: bind_eq_Some_conv split: if_splits dest: set_node_key [where c = ?c])
  then have "ky m3 ?c = None" using s3 by (auto simp: bind_eq_Some_conv split: if_splits dest: set_bucket_key [where c = ?c])
  then have "ky m4 ?c = None" using s4 by (auto dest: set_node_key [where c = ?c])
  then have "destruct it (m4\<lparr>hm_free := ?c, hm_size := (hm_size m4 + 2 ^ 32 - 1) mod 2 ^ 32\<rparr>) = None" by (intro destruct_dead) simp
  then show "Some (True, m5) = None" using s5 by simp
qed

text \<open>
  Property C28. An erased iterator still passes \<open>iterator_legal_check\<close>, since erasing leaves the bucket number in the
  node: erasing through it again is not refused and destroys the dead entry a second time.
\<close>

theorem hash_map_stale_iterator:
  assumes "hm_invar h m" "hm_abs m key \<noteq> None"
  shows "\<exists>it m'. hm_find h key m = Some it \<and> erase_at it m = Some (True, m') \<and> hm_abs m' = (hm_abs m)(key := None)
    \<and> iterator_legal_check m' it = Some True \<and> erase_at it m' = None"
proof -
  obtain xs fs where rel: "hm_rel h m xs fs" using assms(1) by (auto simp: hm_invar_def)
  obtain it where it: "hm_find h key m = Some it" "hm_at m xs it key" using hm_find_run [OF rel, of key] assms(2) by blast
  obtain m' xs' fs' where m': "erase_at it m = Some (True, m')" "hm_rel h m' xs' fs'" "hm_abs m' = (hm_abs m)(key := None)"
      "iterator_legal_check m' it = Some True" "ky m' (it_node it) = None"
    using erase_at_run [OF rel it(2)] by blast
  then show ?thesis using it(1) erase_dead [OF m'(5,4)] by blast
qed

section \<open>Witnesses\<close>

lemma sample_map: "\<exists>m :: (u32, nat) hash_map. hm_invar integer_hash_code m \<and> expand_rate m = (3, 1) \<and> hm_abs m = [5 \<mapsto> 7] \<and> hm_size m \<le> 1"
proof -
  have inv: "hm_invar integer_hash_code (empty_hash_map 0 :: (u32, nat) hash_map) \<and> expand_rate (empty_hash_map 0 :: (u32, nat) hash_map) = (3, 1)"
    using hm_invarI [OF empty_rel] by (simp add: empty_hash_map_def)
  have "rate_room (3, 1) (hm_size (empty_hash_map 0 :: (u32, nat) hash_map) + length [Put (5 :: u32) (7 :: nat)])"
    by (simp add: rate_room_def empty_hash_map_def)
  from hm.run_refines [OF inv this, of 0] show ?thesis by (auto simp: hm_abs_empty) (auto simp: empty_hash_map_def)
qed

theorem hash_map_iterates_witness:
  "\<exists>(m :: (u32, nat) hash_map) it es. begin_iterator m = Some it \<and> hm_items it m = Some es \<and> map_of es = [5 \<mapsto> 7]
    \<and> length es = hm_size m"
  using sample_map hash_map_iterates by metis

theorem hash_map_copies_witness:
  "\<exists>(m :: (u32, nat) hash_map) m' m''. hm_abs m = [5 \<mapsto> 7] \<and> hash_map_copy integer_hash_code 3 m = Some m' \<and> hm_abs m' = [5 \<mapsto> 7]
    \<and> assign_copy integer_hash_code m m = Some m'' \<and> hm_abs m'' = Map.empty"
proof -
  obtain m :: "(u32, nat) hash_map" where m: "hm_invar integer_hash_code m" "expand_rate m = (3, 1)" "hm_abs m = [5 \<mapsto> 7]" "hm_size m \<le> 1"
    using sample_map by blast
  then have r: "rate_room (3, 1) (hm_size m)" by (simp add: rate_room_def)
  show ?thesis using hash_map_copies [OF m(1,1) r, of 3] r m by auto
qed

theorem hash_map_stale_iterator_witness:
  "\<exists>(m :: (u32, nat) hash_map) it m'. hm_find integer_hash_code 5 m = Some it \<and> erase_at it m = Some (True, m')
    \<and> iterator_legal_check m' it = Some True \<and> erase_at it m' = None"
proof -
  obtain m :: "(u32, nat) hash_map" where "hm_invar integer_hash_code m" "hm_abs m = [5 \<mapsto> 7]" using sample_map by blast
  then show ?thesis using hash_map_stale_iterator [of integer_hash_code m 5] by auto
qed

end
