(* ===== verification/Qlog_Block_List.thy ===== *)
theory Qlog_Block_List
  imports Qlog_Siso "HOL-Library.Monad_Syntax"
begin

text \<open>
  The lists of blocks of \<open>src/include/qlog/buffer/block_list.hpp\<close> and \<open>src/src/buffer/block_list.cpp\<close>: blocks of one
  memory area, each with a SISO ring, linked by 16-bit indices. Several lists (free, stage, used) share the blocks. The
  head of a list is changed by compare-and-swap and carries a 16-bit mark against the ABA problem.

  The blocks are a list, in the order of their addresses; a block pointer is its address, \<open>None\<close> is \<open>nullptr\<close>.
  The result \<open>None\<close> of an operation is a failed assertion or a block index outside the area. The code compiled only
  with \<open>QLOG_DEBUG\<close> is left out.
\<close>

unbundle bit_operations_syntax

section \<open>Data\<close>

definition QLOG_CACHE_LINE_SIZE :: nat where
  "QLOG_CACHE_LINE_SIZE = 128"

datatype block_list_type = list_none | list_free | list_stage | list_used | list_keep_prev

record pointer_type =
  ptr_index :: u16
  ptr_mark :: u16

definition is_empty_index :: "u16 \<Rightarrow> bool" where
  "is_empty_index i \<longleftrightarrow> i = - 1"

text \<open>
  A block: the link, the list it belongs to, the user data, the memory behind the data offset, and the ring object built
  on it.
\<close>

record block_node_head =
  bn_next :: pointer_type
  bn_type :: block_list_type
  misc_data :: bytes
  ring_memory :: bytes
  bn_ring :: "siso_ring_buffer option"

record block_list =
  bl_this :: nat
  bl_head :: pointer_type
  bl_offset :: u16
  max_blocks_count :: u16
  buffer_size_per_block :: nat
  data_range_start :: nat
  data_range_end :: nat
  bl_type :: block_list_type

type_synonym blocks = "block_node_head list"

section \<open>Constructing a block\<close>

fun roundup_loop :: "nat \<Rightarrow> nat \<Rightarrow> nat" where
  "roundup_loop x r = (if x > 0 then roundup_loop (x div 2) (2 * r mod 2 ^ 64) else r)"

declare roundup_loop.simps [simp del]

definition roundup_pow_of_two :: "nat \<Rightarrow> nat" where
  "roundup_pow_of_two x =
     (if (of_nat x :: u64) AND (of_nat x - 1) = 0 then x else roundup_loop x 1)"

text \<open>
  Construction in place over a block that may hold data of an earlier run; the ring gets the first \<open>buffer_size\<close> bytes
  of the memory. The last assertion compares the capacity of the ring with that size.
\<close>

definition block_node_head_new :: "block_list_type \<Rightarrow> nat \<Rightarrow> bool \<Rightarrow> block_node_head \<Rightarrow> block_node_head option" where
  "block_node_head_new type buffer_size recovery b =
     (let b = (if type \<noteq> list_keep_prev then b\<lparr>bn_type := type\<rparr> else b);
          b = (if \<not> recovery
               then b\<lparr>bn_next := \<lparr>ptr_index = - 1, ptr_mark = 0\<rparr>, misc_data := replicate (length (misc_data b)) 0\<rparr> else b);
          ring = siso_ring_buffer_new (take buffer_size (ring_memory b)) recovery;
          min_size = (if roundup_pow_of_two buffer_size = buffer_size then buffer_size
                      else roundup_pow_of_two buffer_size div 2)
      in if buffer_size \<le> length (ring_memory b) \<and> 8 * unat (aligned_blocks_count ring) = min_size then Some (b\<lparr>bn_ring := Some ring\<rparr>) else None)"

definition set_misc_data :: "bytes \<Rightarrow> block_node_head \<Rightarrow> block_node_head option" where
  "set_misc_data src b =
     (if length src \<le> length (misc_data b) then Some (b\<lparr>misc_data := mem_write (misc_data b) 0 src\<rparr>) else None)"

section \<open>Constructing a list\<close>

definition size_per_block :: "u16 \<Rightarrow> nat \<Rightarrow> nat" where
  "size_per_block max_count blocks_total_buffer_size =
     (let s = blocks_total_buffer_size div unat max_count in s - s mod QLOG_CACHE_LINE_SIZE)"

text \<open>\<open>data_offset\<close> is \<open>block_node_head::get_buffer_data_offset()\<close>, fixed by the compiler's layout of the class.\<close>

definition bl_reset :: "nat \<Rightarrow> u16 \<Rightarrow> nat \<Rightarrow> nat \<Rightarrow> block_list \<Rightarrow> block_list option" where
  "bl_reset data_offset max_count buffers_base_addr blocks_total_buffer_size l =
     (let offset = buffers_base_addr - bl_this l;
          size = size_per_block max_count blocks_total_buffer_size
      in if offset > 0xFFFF \<or> max_count = 0 then None
         else
           let start = bl_this l + offset;
               l = l\<lparr>bl_head := \<lparr>ptr_index = - 1, ptr_mark = 0\<rparr>, bl_offset := of_nat offset, max_blocks_count := max_count,
                     buffer_size_per_block := size, data_range_start := start, data_range_end := start + size * unat max_count\<rparr>
           in if size > data_offset then Some l else None)"

text \<open>
  The walk over the blocks of a list left in mapped memory; \<open>Some False\<close> rejects it. The counter has 16 bits, as in
  the code.
\<close>

partial_function (option) recover_list_loop :: "block_list \<Rightarrow> blocks \<Rightarrow> pointer_type \<Rightarrow> u16 \<Rightarrow> bool option" where
  [code]: "recover_list_loop l bs current_ptr current_blocks_count =
     (if \<not> is_empty_index (ptr_index current_ptr) \<and> current_blocks_count \<le> max_blocks_count l
      then
        (let current_blocks_count = current_blocks_count + 1; i = unat (ptr_index current_ptr)
         in if ptr_index current_ptr \<ge> max_blocks_count l then Some False
            else if i \<ge> length bs then None
            else if bn_type (bs ! i) \<noteq> bl_type l then Some False
            else recover_list_loop l bs (bn_next (bs ! i)) current_blocks_count)
      else Some (current_blocks_count \<le> max_blocks_count l))"

definition try_recover_list :: "nat \<Rightarrow> u16 \<Rightarrow> nat \<Rightarrow> nat \<Rightarrow> block_list \<Rightarrow> blocks \<Rightarrow> block_list option option" where
  "try_recover_list data_offset max_count buffers_base_addr blocks_total_buffer_size l bs =
     (let offset = buffers_base_addr - bl_this l;
          size = size_per_block max_count blocks_total_buffer_size
      in if max_blocks_count l \<noteq> max_count then Some None
         else if offset > 0xFFFF then None
         else if unat (bl_offset l) \<noteq> offset then Some None
         else if max_count = 0 then None
         else if buffer_size_per_block l \<noteq> size then Some None
         else if size \<le> data_offset then None
         else do {
           ok \<leftarrow> recover_list_loop l bs (bl_head l) 0;
           let start = bl_this l + unat (bl_offset l);
           Some (if ok then Some (l\<lparr>data_range_start := start, data_range_end := start + size * unat (max_blocks_count l)\<rparr>) else None)
         })"

text \<open>\<open>l\<close> holds what the memory of the list object contains before the constructor runs.\<close>

definition block_list_new ::
  "nat \<Rightarrow> block_list_type \<Rightarrow> u16 \<Rightarrow> nat \<Rightarrow> nat \<Rightarrow> bool \<Rightarrow> block_list \<Rightarrow> blocks \<Rightarrow> block_list option" where
  "block_list_new data_offset type max_count buffers_base_addr blocks_total_buffer_size recovery l bs =
     (let l = l\<lparr>bl_type := type\<rparr>
      in if buffers_base_addr mod QLOG_CACHE_LINE_SIZE \<noteq> 0 then None
         else if \<not> recovery then bl_reset data_offset max_count buffers_base_addr blocks_total_buffer_size l
         else do {
           r \<leftarrow> try_recover_list data_offset max_count buffers_base_addr blocks_total_buffer_size l bs;
           case r of
             Some l' \<Rightarrow> Some l'
           | None \<Rightarrow> bl_reset data_offset max_count buffers_base_addr blocks_total_buffer_size l
         })"

section \<open>Addresses and indices\<close>

definition get_block_head_by_index :: "block_list \<Rightarrow> u16 \<Rightarrow> nat" where
  "get_block_head_by_index l i = bl_this l + unat (bl_offset l) + buffer_size_per_block l * unat i"

definition get_index_by_block_head :: "block_list \<Rightarrow> nat option \<Rightarrow> u16" where
  "get_index_by_block_head l block =
     (case block of
        None \<Rightarrow> - 1
      | Some p \<Rightarrow> of_nat ((p - (bl_this l + unat (bl_offset l))) div buffer_size_per_block l))"

definition is_range_include :: "block_list \<Rightarrow> nat option \<Rightarrow> bool" where
  "is_range_include l block = (case block of None \<Rightarrow> False | Some p \<Rightarrow> data_range_start l \<le> p \<and> p < data_range_end l)"

text \<open>The block at an address.\<close>

definition block_at :: "block_list \<Rightarrow> blocks \<Rightarrow> nat \<Rightarrow> block_node_head option" where
  "block_at l bs p =
     (let i = get_index_by_block_head l (Some p)
      in if unat i < length bs \<and> get_block_head_by_index l i = p then Some (bs ! unat i) else None)"

definition set_block :: "block_list \<Rightarrow> nat \<Rightarrow> (block_node_head \<Rightarrow> block_node_head) \<Rightarrow> blocks \<Rightarrow> blocks option" where
  "set_block l p f bs =
     (let i = unat (get_index_by_block_head l (Some p))
      in map_option (\<lambda>b. bs[i := f b]) (block_at l bs p))"

section \<open>Walking\<close>

definition pointer_to :: "block_list \<Rightarrow> u16 \<Rightarrow> nat option" where
  "pointer_to l i = (if is_empty_index i then None else Some (get_block_head_by_index l i))"

definition bl_first :: "block_list \<Rightarrow> nat option" where
  "bl_first l = pointer_to l (ptr_index (bl_head l))"

definition bl_next :: "block_list \<Rightarrow> blocks \<Rightarrow> nat \<Rightarrow> nat option option" where
  "bl_next l bs current = map_option (\<lambda>b. pointer_to l (ptr_index (bn_next b))) (block_at l bs current)"

text \<open>\<open>recovery_blocks\<close> constructs the blocks of the list again, in recovery mode, with their types kept and with the
  rest of the block behind the data offset for the ring.\<close>

partial_function (option) recovery_blocks_loop :: "nat \<Rightarrow> block_list \<Rightarrow> nat option \<Rightarrow> blocks \<Rightarrow> blocks option" where
  [code]: "recovery_blocks_loop data_offset l current_node bs =
     (case current_node of
        None \<Rightarrow> Some bs
      | Some p \<Rightarrow> do {
          b \<leftarrow> block_at l bs p;
          b' \<leftarrow> block_node_head_new list_keep_prev (buffer_size_per_block l - data_offset) True b;
          bs' \<leftarrow> set_block l p (\<lambda>_. b') bs;
          n \<leftarrow> bl_next l bs' p;
          recovery_blocks_loop data_offset l n bs'
        })"

definition recovery_blocks :: "nat \<Rightarrow> block_list \<Rightarrow> blocks \<Rightarrow> blocks option" where
  "recovery_blocks data_offset l bs = recovery_blocks_loop data_offset l (bl_first l) bs"

section \<open>Lock-free push and pop\<close>

text \<open>
  The body of the loops between the load of the head and the compare-and-swap. \<open>pop_prepare\<close> reads the link of the
  first block, \<open>push_prepare\<close> writes the link of the new block; both give the new value for the head.
\<close>

definition pop_prepare :: "blocks \<Rightarrow> pointer_type \<Rightarrow> pointer_type option" where
  "pop_prepare bs head_cpy =
     (let i = unat (ptr_index head_cpy)
      in if i < length bs then Some \<lparr>ptr_index = ptr_index (bn_next (bs ! i)), ptr_mark = ptr_mark head_cpy + 1\<rparr> else None)"

definition push_prepare :: "u16 \<Rightarrow> pointer_type \<Rightarrow> blocks \<Rightarrow> (blocks \<times> pointer_type) option" where
  "push_prepare n head_cpy bs =
     (if unat n < length bs
      then Some (bs[unat n := (bs ! unat n)\<lparr>bn_next := (bn_next (bs ! unat n))\<lparr>ptr_index := ptr_index head_cpy\<rparr>\<rparr>],
                 \<lparr>ptr_index = n, ptr_mark = ptr_mark head_cpy + 1\<rparr>)
      else None)"

text \<open>\<open>compare_exchange_strong\<close>: success and the new head, or failure and the value found.\<close>

definition compare_exchange :: "pointer_type \<Rightarrow> pointer_type \<Rightarrow> pointer_type \<Rightarrow> bool \<times> pointer_type" where
  "compare_exchange current expected desired = (if current = expected then (True, desired) else (False, current))"

text \<open>The operations of one thread with no other thread between their steps.\<close>

partial_function (option) pop_loop ::
  "block_list \<Rightarrow> blocks \<Rightarrow> pointer_type \<Rightarrow> (nat option \<times> block_list) option" where
  [code]: "pop_loop l bs head_cpy =
     (if is_empty_index (ptr_index head_cpy) then Some (None, l)
      else do {
        head_desired \<leftarrow> pop_prepare bs head_cpy;
        let first_node = get_block_head_by_index l (ptr_index head_cpy);
        let (swapped, h) = compare_exchange (bl_head l) head_cpy head_desired;
        if swapped then Some (Some first_node, l\<lparr>bl_head := h\<rparr>) else pop_loop l bs h
      })"

definition bl_pop :: "block_list \<Rightarrow> blocks \<Rightarrow> (nat option \<times> block_list) option" where
  "bl_pop l bs = pop_loop l bs (bl_head l)"

partial_function (option) push_loop ::
  "block_list \<Rightarrow> nat \<Rightarrow> blocks \<Rightarrow> pointer_type \<Rightarrow> (block_list \<times> blocks) option" where
  [code]: "push_loop l new_block_node bs head_cpy = do {
     b \<leftarrow> block_at l bs new_block_node;
     (bs', head_desired) \<leftarrow> push_prepare (get_index_by_block_head l (Some new_block_node)) head_cpy bs;
     let (swapped, h) = compare_exchange (bl_head l) head_cpy head_desired;
     if swapped then Some (l\<lparr>bl_head := h\<rparr>, bs') else push_loop l new_block_node bs' h
   }"

definition bl_push :: "nat \<Rightarrow> block_list \<Rightarrow> blocks \<Rightarrow> (block_list \<times> blocks) option" where
  "bl_push new_block_node l bs = do {
     bs \<leftarrow> set_block l new_block_node (\<lambda>b. b\<lparr>bn_type := bl_type l\<rparr>) bs;
     push_loop l new_block_node bs (bl_head l)
   }"

section \<open>Changes by the only thread\<close>

text \<open>\<open>new_block_node->next_ = prev_pointer\<close> copies the mark too; only the index of \<open>prev_pointer\<close> is then replaced.\<close>

definition push_after_thread_unsafe :: "nat option \<Rightarrow> nat \<Rightarrow> block_list \<Rightarrow> blocks \<Rightarrow> (block_list \<times> blocks) option" where
  "push_after_thread_unsafe prev_block_node new_block_node l bs = do {
     bs \<leftarrow> set_block l new_block_node (\<lambda>b. b\<lparr>bn_type := bl_type l\<rparr>) bs;
     let new_index = get_index_by_block_head l (Some new_block_node);
     case prev_block_node of
       None \<Rightarrow> do {
         bs \<leftarrow> set_block l new_block_node (\<lambda>b. b\<lparr>bn_next := bl_head l\<rparr>) bs;
         Some (l\<lparr>bl_head := (bl_head l)\<lparr>ptr_index := new_index\<rparr>\<rparr>, bs)
       }
     | Some prev \<Rightarrow> do {
         p \<leftarrow> block_at l bs prev;
         bs \<leftarrow> set_block l new_block_node (\<lambda>b. b\<lparr>bn_next := bn_next p\<rparr>) bs;
         bs \<leftarrow> set_block l prev (\<lambda>b. b\<lparr>bn_next := (bn_next b)\<lparr>ptr_index := new_index\<rparr>\<rparr>) bs;
         Some (l, bs)
       }
   }"

definition remove_thread_unsafe :: "nat option \<Rightarrow> nat \<Rightarrow> block_list \<Rightarrow> blocks \<Rightarrow> (block_list \<times> blocks) option" where
  "remove_thread_unsafe prev_block_node remove_block_node l bs = do {
     r \<leftarrow> block_at l bs remove_block_node;
     case prev_block_node of
       None \<Rightarrow> Some (l\<lparr>bl_head := bn_next r\<rparr>, bs)
     | Some prev \<Rightarrow> do {
         bs \<leftarrow> set_block l prev (\<lambda>b. b\<lparr>bn_next := bn_next r\<rparr>) bs;
         Some (l, bs)
       }
   }"

end
