(* ===== verification/Qlog_Block_Chains.thy ===== *)
theory Qlog_Block_Chains
  imports Qlog_Block_List
begin

text \<open>
  The lists of blocks as sequences of indices: the chain that starts at a head, the operations of one thread on it, and
  the recovery of a list from mapped memory.
\<close>

section \<open>Chains\<close>

fun bchain :: "blocks \<Rightarrow> u16 \<Rightarrow> u16 list \<Rightarrow> bool" where
  "bchain bs i [] \<longleftrightarrow> i = - 1"
| "bchain bs i (x # xs) \<longleftrightarrow> i = x \<and> unat x < length bs \<and> bchain bs (ptr_index (bn_next (bs ! unat x))) xs"

lemma bchain_cong:
  assumes "\<And>x. x \<in> set xs \<Longrightarrow> bn_next (bs' ! unat x) = bn_next (bs ! unat x)" "length bs' = length bs"
  shows "bchain bs' i xs \<longleftrightarrow> bchain bs i xs"
  using assms by (induction xs arbitrary: i) auto

lemma u16_max [simp]: "unat (- 1 :: u16) = 65535"
  by (simp add: unsigned_minus_1_eq_mask mask_eq_exp_minus_1)

lemma u16_inject [simp]: "unat (x :: u16) = unat y \<longleftrightarrow> x = y"
  by (simp add: word_unat_eq_iff)

lemma u16_suc: "unat c < 65535 \<Longrightarrow> unat (c + 1 :: u16) = unat c + 1"
  by (simp add: unat_word_ariths)

lemma bchain_in_range: "bchain bs i xs \<Longrightarrow> x \<in> set xs \<Longrightarrow> unat x < length bs"
  by (induction xs arbitrary: i) auto

lemma bchain_append: "bchain bs i (xs @ x # ys) \<Longrightarrow> bchain bs x (x # ys)"
  by (induction xs arbitrary: i) auto

lemma bchain_unique:
  assumes "length bs < 2 ^ 16" "bchain bs i xs" "bchain bs i ys"
  shows "xs = ys"
  using assms(2,3)
proof (induction xs arbitrary: i ys)
  case Nil
  then show ?case using assms(1) by (cases ys) auto
next
  case (Cons x xs)
  then show ?case using assms(1) by (cases ys) auto
qed

text \<open>A chain that ends has no repetition.\<close>

lemma bchain_distinct:
  assumes "length bs < 2 ^ 16" "bchain bs i xs"
  shows "distinct xs"
proof (rule ccontr)
  assume "\<not> distinct xs"
  then obtain as x ys zs where xs: "xs = as @ [x] @ ys @ [x] @ zs" using not_distinct_decomp by blast
  have "bchain bs x (x # ys @ x # zs)" using bchain_append [of bs i as x "ys @ x # zs"] assms(2) xs by simp
  moreover have "bchain bs x (x # zs)" using bchain_append [of bs i "as @ x # ys" x zs] assms(2) xs by simp
  ultimately have "x # ys @ x # zs = x # zs" by (rule bchain_unique [OF assms(1)])
  then show False by (auto dest: arg_cong [where f = length])
qed

section \<open>Indices and addresses\<close>

lemma index_of_head [simp]:
  "0 < buffer_size_per_block l \<Longrightarrow> get_index_by_block_head l (Some (get_block_head_by_index l i)) = i"
  by (simp add: get_index_by_block_head_def get_block_head_by_index_def)

lemma block_at_head [simp]:
  "0 < buffer_size_per_block l \<Longrightarrow>
    block_at l bs (get_block_head_by_index l i) = (if unat i < length bs then Some (bs ! unat i) else None)"
  by (simp add: block_at_def Let_def)

lemma set_block_head [simp]:
  "0 < buffer_size_per_block l \<Longrightarrow>
    set_block l (get_block_head_by_index l i) f bs = (if unat i < length bs then Some (bs[unat i := f (bs ! unat i)]) else None)"
  by (simp add: set_block_def Let_def)

lemma bl_next_head [simp]:
  "0 < buffer_size_per_block l \<Longrightarrow> unat i < length bs \<Longrightarrow>
    bl_next l bs (get_block_head_by_index l i) = Some (pointer_to l (ptr_index (bn_next (bs ! unat i))))"
  by (simp add: bl_next_def)

lemma head_inject:
  "0 < buffer_size_per_block l \<Longrightarrow> get_block_head_by_index l i = get_block_head_by_index l j \<longleftrightarrow> i = j"
  by (metis index_of_head)

section \<open>Operations of one thread\<close>

lemma bl_pop_run:
  assumes "bchain bs (ptr_index (bl_head l)) xs" "length bs < 2 ^ 16"
  shows "bl_pop l bs = (case xs of
      [] \<Rightarrow> Some (None, l)
    | x # ys \<Rightarrow> Some (Some (get_block_head_by_index l x),
        l\<lparr>bl_head := \<lparr>ptr_index = ptr_index (bn_next (bs ! unat x)), ptr_mark = ptr_mark (bl_head l) + 1\<rparr>\<rparr>))"
  using assms
  by (cases xs) (auto simp: bl_pop_def pop_loop.simps is_empty_index_def pop_prepare_def compare_exchange_def)

lemma bl_push_run:
  assumes "0 < buffer_size_per_block l" "unat n < length bs"
  shows "bl_push (get_block_head_by_index l n) l bs =
    Some (l\<lparr>bl_head := \<lparr>ptr_index = n, ptr_mark = ptr_mark (bl_head l) + 1\<rparr>\<rparr>,
      bs[unat n := (bs ! unat n)\<lparr>bn_type := bl_type l, bn_next := (bn_next (bs ! unat n))\<lparr>ptr_index := ptr_index (bl_head l)\<rparr>\<rparr>])"
  using assms by (simp add: bl_push_def push_loop.simps push_prepare_def compare_exchange_def)

lemma bchain_update_other:
  assumes "n \<notin> set xs"
  shows "bchain (bs[unat n := b]) i xs \<longleftrightarrow> bchain bs i xs"
proof (rule bchain_cong)
  show "bn_next (bs[unat n := b] ! unat x) = bn_next (bs ! unat x)" if "x \<in> set xs" for x
    using that assms by (metis nth_list_update_neq u16_inject)
qed simp

lemma bl_push_chain:
  assumes "0 < buffer_size_per_block l" "unat n < length bs" "bchain bs (ptr_index (bl_head l)) xs" "n \<notin> set xs"
    and "bl_push (get_block_head_by_index l n) l bs = Some (l', bs')"
  shows "bchain bs' (ptr_index (bl_head l')) (n # xs)"
  using assms bchain_update_other [OF assms(4)] by (simp add: bl_push_run) auto

lemma bchain_relink:
  assumes "bchain bs i (as @ p # cs)" "length bs' = length bs" "\<And>x. x \<in> set as \<Longrightarrow> bn_next (bs' ! unat x) = bn_next (bs ! unat x)"
    and "bchain bs' (ptr_index (bn_next (bs' ! unat p))) ds"
  shows "bchain bs' i (as @ p # ds)"
  using assms by (induction as arbitrary: i) auto

lemma push_after_chain:
  assumes size: "0 < buffer_size_per_block l" and n: "unat n < length bs" "n \<notin> set xs"
    and ch: "bchain bs (ptr_index (bl_head l)) xs" and dist: "distinct xs"
  shows "\<exists>l' bs'. push_after_thread_unsafe None (get_block_head_by_index l n) l bs = Some (l', bs')
      \<and> bchain bs' (ptr_index (bl_head l')) (n # xs)"
    and "xs = as @ p # cs \<Longrightarrow>
      \<exists>l' bs'. push_after_thread_unsafe (Some (get_block_head_by_index l p)) (get_block_head_by_index l n) l bs = Some (l', bs')
        \<and> bchain bs' (ptr_index (bl_head l')) (as @ p # n # cs)"
proof -
  show "\<exists>l' bs'. push_after_thread_unsafe None (get_block_head_by_index l n) l bs = Some (l', bs')
      \<and> bchain bs' (ptr_index (bl_head l')) (n # xs)"
    using size n(1) ch bchain_update_other [OF n(2)] by (simp add: push_after_thread_unsafe_def)
next
  assume xs: "xs = as @ p # cs"
  have p: "unat p < length bs" "p \<noteq> n" "p \<notin> set as" "p \<notin> set cs" "n \<notin> set as" "n \<notin> set cs"
    using bchain_in_range [OF ch, of p] xs n(2) dist by auto
  define bs1 where "bs1 = bs[unat n := (bs ! unat n)\<lparr>bn_type := bl_type l, bn_next := bn_next (bs ! unat p)\<rparr>]"
  define bs2 where "bs2 = bs1[unat p := (bs ! unat p)\<lparr>bn_next := (bn_next (bs ! unat p))\<lparr>ptr_index := n\<rparr>\<rparr>]"
  have cs: "bchain bs (ptr_index (bn_next (bs ! unat p))) cs" using bchain_append [of bs _ as p cs] ch xs by simp
  have other: "bn_next (bs2 ! unat x) = bn_next (bs ! unat x)" if "x \<noteq> n" "x \<noteq> p" for x using that by (simp add: bs2_def bs1_def)
  have "bchain bs2 (ptr_index (bl_head l)) (as @ p # n # cs)"
  proof (rule bchain_relink [OF ch [unfolded xs]])
    show "bn_next (bs2 ! unat x) = bn_next (bs ! unat x)" if "x \<in> set as" for x using that p by (intro other) auto
    have "bchain bs2 (ptr_index (bn_next (bs ! unat p))) cs \<longleftrightarrow> bchain bs (ptr_index (bn_next (bs ! unat p))) cs"
    proof (rule bchain_cong)
      show "bn_next (bs2 ! unat x) = bn_next (bs ! unat x)" if "x \<in> set cs" for x using that p by (intro other) auto
    qed (simp add: bs2_def bs1_def)
    then show "bchain bs2 (ptr_index (bn_next (bs2 ! unat p))) (n # cs)" using cs p n(1) by (simp add: bs2_def bs1_def)
  qed (simp add: bs2_def bs1_def)
  moreover have "push_after_thread_unsafe (Some (get_block_head_by_index l p)) (get_block_head_by_index l n) l bs = Some (l, bs2)"
    using size n(1) p by (simp add: push_after_thread_unsafe_def bs2_def bs1_def)
  ultimately show "\<exists>l' bs'. push_after_thread_unsafe (Some (get_block_head_by_index l p)) (get_block_head_by_index l n) l bs = Some (l', bs')
      \<and> bchain bs' (ptr_index (bl_head l')) (as @ p # n # cs)" by blast
qed

lemma remove_chain:
  assumes size: "0 < buffer_size_per_block l" and ch: "bchain bs (ptr_index (bl_head l)) xs" and dist: "distinct xs"
  shows "xs = r # cs \<Longrightarrow>
      \<exists>l' bs'. remove_thread_unsafe None (get_block_head_by_index l r) l bs = Some (l', bs') \<and> bchain bs' (ptr_index (bl_head l')) cs"
    and "xs = as @ p # r # cs \<Longrightarrow>
      \<exists>l' bs'. remove_thread_unsafe (Some (get_block_head_by_index l p)) (get_block_head_by_index l r) l bs = Some (l', bs')
        \<and> bchain bs' (ptr_index (bl_head l')) (as @ p # cs)"
proof -
  show "xs = r # cs \<Longrightarrow>
      \<exists>l' bs'. remove_thread_unsafe None (get_block_head_by_index l r) l bs = Some (l', bs') \<and> bchain bs' (ptr_index (bl_head l')) cs"
    using size ch by (simp add: remove_thread_unsafe_def)
next
  assume xs: "xs = as @ p # r # cs"
  have p: "unat p < length bs" "unat r < length bs" "p \<notin> set as" "p \<notin> set cs"
    using bchain_in_range [OF ch, of p] bchain_in_range [OF ch, of r] xs dist by auto
  define bs1 where "bs1 = bs[unat p := (bs ! unat p)\<lparr>bn_next := bn_next (bs ! unat r)\<rparr>]"
  have "bchain bs r (r # cs)" using bchain_append [of bs _ "as @ [p]" r cs] ch xs by simp
  then have cs: "bchain bs1 (ptr_index (bn_next (bs ! unat r))) cs" using p(4) by (simp add: bs1_def bchain_update_other)
  have "bchain bs1 (ptr_index (bl_head l)) (as @ p # cs)"
  proof (rule bchain_relink [OF ch [unfolded xs]])
    show "bn_next (bs1 ! unat x) = bn_next (bs ! unat x)" if "x \<in> set as" for x
      using that p(3) unfolding bs1_def by (metis nth_list_update_neq u16_inject)
  qed (use cs p in \<open>simp_all add: bs1_def\<close>)
  then show "\<exists>l' bs'. remove_thread_unsafe (Some (get_block_head_by_index l p)) (get_block_head_by_index l r) l bs = Some (l', bs')
        \<and> bchain bs' (ptr_index (bl_head l')) (as @ p # cs)"
    using size p by (simp add: remove_thread_unsafe_def bs1_def)
qed

section \<open>Recovering a list\<close>

text \<open>What the walk accepts is a chain of blocks of the list; it always ends when the counter cannot wrap.\<close>

definition typed_chain :: "block_list \<Rightarrow> blocks \<Rightarrow> u16 \<Rightarrow> u16 list \<Rightarrow> bool" where
  "typed_chain l bs i xs \<longleftrightarrow> bchain bs i xs \<and> (\<forall>x \<in> set xs. bn_type (bs ! unat x) = bl_type l)"

lemma recover_loop_total:
  assumes "unat (max_blocks_count l) < 65535" "unat (max_blocks_count l) \<le> length bs" "unat c \<le> unat (max_blocks_count l) + 1"
  shows "\<exists>r. recover_list_loop l bs p c = Some r \<and> (r \<longrightarrow> (\<exists>xs. typed_chain l bs (ptr_index p) xs))"
  using assms(3)
proof (induction "unat (max_blocks_count l) + 1 - unat c" arbitrary: p c rule: less_induct)
  case less
  let ?b = "bs ! unat (ptr_index p)"
  show ?case
  proof (cases "\<not> is_empty_index (ptr_index p) \<and> c \<le> max_blocks_count l \<and> ptr_index p < max_blocks_count l \<and> bn_type ?b = bl_type l")
    case True
    then have c: "unat c \<le> unat (max_blocks_count l)" and i: "unat (ptr_index p) < length bs"
      using assms(2) by (simp_all add: word_le_nat_alt word_less_nat_alt)
    have c1: "unat (c + 1) = unat c + 1" using c assms(1) by (intro u16_suc) simp
    obtain r where r: "recover_list_loop l bs (bn_next ?b) (c + 1) = Some r" "r \<longrightarrow> (\<exists>xs. typed_chain l bs (ptr_index (bn_next ?b)) xs)"
    proof -
      have "unat (max_blocks_count l) + 1 - unat (c + 1) < unat (max_blocks_count l) + 1 - unat c" using c c1 by simp
      from less(1) [OF this, of "bn_next ?b"] show thesis using that c c1 by auto
    qed
    have "\<exists>xs. typed_chain l bs (ptr_index p) xs" if "r"
    proof -
      obtain xs where "typed_chain l bs (ptr_index (bn_next ?b)) xs" using r(2) \<open>r\<close> by blast
      then show ?thesis using True i by (intro exI [of _ "ptr_index p # xs"]) (simp add: typed_chain_def)
    qed
    moreover have "recover_list_loop l bs p c = Some r"
      using True r(1) i by (subst recover_list_loop.simps) (simp add: Let_def linorder_not_le [symmetric])
    ultimately show ?thesis by blast
  next
    case False
    moreover have "unat (ptr_index p) < length bs" if "ptr_index p < max_blocks_count l"
      using that assms(2) by (simp add: word_less_nat_alt)
    moreover have "typed_chain l bs (ptr_index p) []" if "is_empty_index (ptr_index p)"
      using that by (simp add: typed_chain_def is_empty_index_def)
    ultimately show ?thesis by (subst recover_list_loop.simps) (auto simp: Let_def not_le)
  qed
qed

lemma recover_loop_accepts:
  assumes "typed_chain l bs (ptr_index p) xs" "\<And>x. x \<in> set xs \<Longrightarrow> x < max_blocks_count l"
    and "unat c + length xs \<le> unat (max_blocks_count l)"
  shows "recover_list_loop l bs p c = Some True"
  using assms
proof (induction xs arbitrary: p c)
  case Nil
  then show ?case by (subst recover_list_loop.simps) (simp add: typed_chain_def is_empty_index_def word_le_nat_alt)
next
  case (Cons x xs)
  let ?b = "bs ! unat (ptr_index p)"
  have x: "ptr_index p = x" "unat x < length bs" "bn_type ?b = bl_type l" "x < max_blocks_count l"
    "typed_chain l bs (ptr_index (bn_next ?b)) xs" using Cons.prems(1,2) by (auto simp: typed_chain_def)
  have c1: "unat (c + 1) = unat c + 1"
    using Cons.prems(3) unsigned_less [of "max_blocks_count l", where ?'a = nat] by (intro u16_suc) simp
  have "recover_list_loop l bs (bn_next ?b) (c + 1) = Some True"
    using Cons.prems c1 by (intro Cons.IH [OF x(5)]) auto
  moreover have "x \<noteq> - 1" using x(4) word_order.extremum_strict by blast
  ultimately show ?case using x Cons.prems(3)
    by (subst recover_list_loop.simps) (simp add: Let_def is_empty_index_def word_le_nat_alt word_less_nat_alt)
qed

text \<open>
  With 65535 blocks the 16-bit counter is never above the maximum: on a block linked to itself the walk does not return.
\<close>

definition self_linked :: "block_list \<Rightarrow> blocks \<Rightarrow> pointer_type \<Rightarrow> bool" where
  "self_linked l bs p \<longleftrightarrow> max_blocks_count l = - 1 \<and> 0 < length bs \<and> bn_type (bs ! 0) = bl_type l
     \<and> ptr_index (bn_next (bs ! 0)) = 0 \<and> ptr_index p = 0"

lemma recover_loop_wraps: "self_linked l bs p \<Longrightarrow> recover_list_loop l bs p c = None"
proof -
  have w: "\<not> (- 1 :: u16) \<le> 0" by (simp add: word_le_nat_alt)
  have "\<not> self_linked l bs p" if "recover_list_loop l bs p c = Some r" for r
  proof (rule recover_list_loop.raw_induct [OF _ that])
    fix f l bs c r and p :: pointer_type
    assume ih: "\<And>l bs p c r. f l bs p c = Some r \<Longrightarrow> \<not> self_linked l bs p"
      and run: "(if \<not> is_empty_index (ptr_index p) \<and> c \<le> max_blocks_count l
        then let current_blocks_count = c + 1; i = unat (ptr_index p)
          in if max_blocks_count l \<le> ptr_index p then Some False else if length bs \<le> i then None
             else if bn_type (bs ! i) \<noteq> bl_type l then Some False else f l bs (bn_next (bs ! i)) current_blocks_count
        else Some (c \<le> max_blocks_count l)) = Some r"
    show "\<not> self_linked l bs p"
    proof
      assume s: "self_linked l bs p"
      then have "f l bs (bn_next (bs ! 0)) (c + 1) = Some r" using run w by (simp add: self_linked_def is_empty_index_def Let_def)
      from ih [OF this] s show False by (simp add: self_linked_def)
    qed
  qed
  then show "self_linked l bs p \<Longrightarrow> recover_list_loop l bs p c = None" by (cases "recover_list_loop l bs p c") auto
qed

section \<open>Constructing blocks\<close>

text \<open>The capacity assertion of the constructor depends on the size of the memory alone.\<close>

definition ring_size_ok :: "nat \<Rightarrow> bool" where
  "ring_size_ok n \<longleftrightarrow>
     8 * unat (of_nat (blocks_in n) :: u32) = (if roundup_pow_of_two n = n then n else roundup_pow_of_two n div 2)"

lemma siso_new_count: "aligned_blocks_count (siso_ring_buffer_new st r) = of_nat (blocks_in (length st))"
  by (auto simp: siso_ring_buffer_new_def siso_init_with_memory_def siso_init_with_memory_map_def init_cursors_def
      try_recover_from_exist_memory_map_def Let_def split: option.splits if_splits)

lemma block_new_run:
  assumes "ring_size_ok n" "n \<le> length (ring_memory b)"
  shows "block_node_head_new list_keep_prev n True b = Some (b\<lparr>bn_ring := Some (siso_ring_buffer_new (take n (ring_memory b)) True)\<rparr>)"
    and "type \<noteq> list_keep_prev \<Longrightarrow> block_node_head_new type n False b =
      Some (b\<lparr>bn_type := type, bn_next := \<lparr>ptr_index = - 1, ptr_mark = 0\<rparr>, misc_data := replicate (length (misc_data b)) 0,
        bn_ring := Some (siso_ring_buffer_new (take n (ring_memory b)) False)\<rparr>)"
  using assms by (simp_all add: block_node_head_new_def Let_def siso_new_count ring_size_ok_def min_absorb2 split: if_splits)

text \<open>Block \<open>b\<close> constructed again over what the first \<open>n\<close> bytes of its memory hold.\<close>

definition restored :: "nat \<Rightarrow> block_node_head \<Rightarrow> block_node_head" where
  "restored n b = b\<lparr>bn_ring := Some (siso_ring_buffer_new (take n (ring_memory b)) True)\<rparr>"

lemma recovery_loop_run:
  assumes size: "0 < buffer_size_per_block l" and ch: "bchain bs i xs" and len: "length bs < 2 ^ 16"
    and ok: "\<And>b. b \<in> set bs \<Longrightarrow> n \<le> length (ring_memory b)" and n: "buffer_size_per_block l - off = n" "ring_size_ok n"
  shows "\<exists>bs'. recovery_blocks_loop off l (pointer_to l i) bs = Some bs' \<and> length bs' = length bs
    \<and> (\<forall>j < length bs. bs' ! j = (if j \<in> unat ` set xs then restored n (bs ! j) else bs ! j))"
  using ch len ok
proof (induction xs arbitrary: i bs)
  case Nil
  then show ?case by (simp add: pointer_to_def is_empty_index_def recovery_blocks_loop.simps)
next
  case (Cons x xs)
  let ?b = "bs ! unat x" let ?bs = "bs[unat x := restored n ?b]"
  have x: "i = x" "unat x < length bs" "bchain bs (ptr_index (bn_next ?b)) xs" "x \<noteq> - 1" using Cons.prems(1,2) by auto
  have "distinct (x # xs)" using bchain_distinct [OF Cons.prems(2,1)] .
  then have nx: "x \<notin> set xs" by simp
  have b: "block_node_head_new list_keep_prev n True ?b = Some (restored n ?b)"
    using block_new_run(1) [OF n(2), of ?b] Cons.prems(3) x(2) by (simp add: restored_def)
  have ok': "n \<le> length (ring_memory b)" if "b \<in> set ?bs" for b
    using that set_update_subset_insert [of bs "unat x" "restored n ?b"] Cons.prems(3) nth_mem [OF x(2)] by (auto simp: restored_def)
  have "bchain ?bs (ptr_index (bn_next ?b)) xs" using x(3) nx by (simp add: bchain_update_other)
  from Cons.IH [OF this _ ok'] Cons.prems(2) obtain bs' where bs': "recovery_blocks_loop off l (pointer_to l (ptr_index (bn_next ?b))) ?bs = Some bs'"
    "length bs' = length bs" "\<forall>j < length bs. bs' ! j = (if j \<in> unat ` set xs then restored n (?bs ! j) else ?bs ! j)" by auto
  have "recovery_blocks_loop off l (pointer_to l i) bs = Some bs'"
  proof -
    have "pointer_to l i = Some (get_block_head_by_index l x)" using x by (simp add: pointer_to_def is_empty_index_def)
    moreover have "bn_next (?bs ! unat x) = bn_next ?b" using x(2) by (simp add: restored_def)
    ultimately show ?thesis using size x(2) b bs'(1) n(1) by (subst recovery_blocks_loop.simps) simp
  qed
  moreover have "bs' ! j = (if j \<in> unat ` set (x # xs) then restored n (bs ! j) else bs ! j)" if "j < length bs" for j
  proof (cases "j = unat x")
    case True
    moreover have "unat x \<notin> unat ` set xs" using nx by auto
    ultimately show ?thesis using bs'(3) that by simp
  qed (use bs'(3) that in auto)
  ultimately show ?case using bs'(2) by blast
qed

lemma recovery_blocks_run:
  assumes "0 < buffer_size_per_block l" "bchain bs (ptr_index (bl_head l)) xs" "length bs < 2 ^ 16"
    and "\<And>b. b \<in> set bs \<Longrightarrow> n \<le> length (ring_memory b)" "buffer_size_per_block l - off = n" "ring_size_ok n"
  shows "\<exists>bs'. recovery_blocks off l bs = Some bs' \<and> length bs' = length bs
    \<and> (\<forall>j < length bs. bs' ! j = (if j \<in> unat ` set xs then restored n (bs ! j) else bs ! j))"
  using recovery_loop_run [OF assms] by (simp add: recovery_blocks_def bl_first_def)

end
