(* ===== verification/Qlog_Block_Threads.thy ===== *)
theory Qlog_Block_Threads
  imports Qlog_Block_Chains
begin

text \<open>
  Threads that push and pop on the shared lists. Each load, each preparation and each compare-and-swap of
  \<open>pop\<close> and \<open>push\<close> is one step, so threads interleave inside the operations. A thread owns the blocks it has popped
  and pushes only blocks it owns. Memory is sequentially consistent.

  The version of a list counts the changes of its head; it is a ghost. The mark of the head is the version modulo
  \<open>2^16\<close>, which is why an operation must not sleep through \<open>2^16\<close> changes between its load and its swap.
\<close>

section \<open>Steps\<close>

datatype bl_pc =
    Idle
  | Pop_loop block_list_type pointer_type nat
  | Pop_cas block_list_type pointer_type pointer_type nat
  | Push_loop block_list_type u16 pointer_type nat
  | Push_cas block_list_type u16 pointer_type pointer_type nat

datatype bl_event = Tau | Popped block_list_type u16 | Pushed block_list_type u16 | Found_empty block_list_type

record bl_world =
  w_blocks :: blocks
  w_head :: "block_list_type \<Rightarrow> pointer_type"
  w_ver :: "block_list_type \<Rightarrow> nat"
  w_pc :: "nat \<Rightarrow> bl_pc"
  w_own :: "nat \<Rightarrow> u16 set"

abbreviation set_pc :: "nat \<Rightarrow> bl_pc \<Rightarrow> bl_world \<Rightarrow> bl_world" where
  "set_pc t pc w \<equiv> w\<lparr>w_pc := (w_pc w)(t := pc)\<rparr>"

definition swap_head :: "block_list_type \<Rightarrow> pointer_type \<Rightarrow> bl_world \<Rightarrow> bl_world" where
  "swap_head L h w = w\<lparr>w_head := (w_head w)(L := h), w_ver := (w_ver w)(L := w_ver w L + 1)\<rparr>"

text \<open>The loop of \<open>pop\<close> continues with the head it has found, or ends on an empty list.\<close>

definition pop_continue :: "nat \<Rightarrow> block_list_type \<Rightarrow> pointer_type \<Rightarrow> bl_world \<Rightarrow> bl_event \<times> bl_world" where
  "pop_continue t L h w =
     (if is_empty_index (ptr_index h) then (Found_empty L, set_pc t Idle w) else (Tau, set_pc t (Pop_loop L h (w_ver w L)) w))"

inductive bl_step :: "bl_world \<Rightarrow> bl_event \<Rightarrow> bl_world \<Rightarrow> bool" where
  pop_load: "w_pc w t = Idle \<Longrightarrow> pop_continue t L (w_head w L) w = (e, w') \<Longrightarrow> bl_step w e w'"
| pop_read: "w_pc w t = Pop_loop L h v \<Longrightarrow> pop_prepare (w_blocks w) h = Some d
    \<Longrightarrow> bl_step w Tau (set_pc t (Pop_cas L h d v) w)"
| pop_swap: "w_pc w t = Pop_cas L h d v \<Longrightarrow> compare_exchange (w_head w L) h d = (True, h')
    \<Longrightarrow> bl_step w (Popped L (ptr_index h))
      (swap_head L h' (set_pc t Idle w\<lparr>w_own := (w_own w)(t := insert (ptr_index h) (w_own w t))\<rparr>))"
| pop_retry: "w_pc w t = Pop_cas L h d v \<Longrightarrow> compare_exchange (w_head w L) h d = (False, h')
    \<Longrightarrow> pop_continue t L h' w = (e, w') \<Longrightarrow> bl_step w e w'"
| push_load: "w_pc w t = Idle \<Longrightarrow> n \<in> w_own w t
    \<Longrightarrow> bl_step w Tau (set_pc t (Push_loop L n (w_head w L) (w_ver w L))
      (w\<lparr>w_blocks := (w_blocks w)[unat n := (w_blocks w ! unat n)\<lparr>bn_type := L\<rparr>]\<rparr>))"
| push_write: "w_pc w t = Push_loop L n h v \<Longrightarrow> push_prepare n h (w_blocks w) = Some (bs', d)
    \<Longrightarrow> bl_step w Tau (set_pc t (Push_cas L n h d v) (w\<lparr>w_blocks := bs'\<rparr>))"
| push_swap: "w_pc w t = Push_cas L n h d v \<Longrightarrow> compare_exchange (w_head w L) h d = (True, h')
    \<Longrightarrow> bl_step w (Pushed L n) (swap_head L h' (set_pc t Idle w\<lparr>w_own := (w_own w)(t := w_own w t - {n})\<rparr>))"
| push_retry: "w_pc w t = Push_cas L n h d v \<Longrightarrow> compare_exchange (w_head w L) h d = (False, h')
    \<Longrightarrow> bl_step w Tau (set_pc t (Push_loop L n h' (w_ver w L)) w)"

text \<open>No pop has slept through \<open>2^16\<close> changes of its list.\<close>

definition fresh :: "bl_world \<Rightarrow> bool" where
  "fresh w \<longleftrightarrow> (\<forall>t L h d v. w_pc w t = Pop_cas L h d v \<longrightarrow> w_ver w L < v + 2 ^ 16)"

inductive bl_run :: "bl_world \<Rightarrow> bl_event list \<Rightarrow> bl_world \<Rightarrow> bool" where
  run_start: "bl_run w [] w"
| run_step: "bl_run w es w' \<Longrightarrow> fresh w' \<Longrightarrow> bl_step w' e w'' \<Longrightarrow> bl_run w (es @ [e]) w''"

section \<open>The specification\<close>

text \<open>Stacks of block indices; an event that is not possible on them has no result.\<close>

fun stack_event :: "bl_event \<Rightarrow> (block_list_type \<Rightarrow> u16 list) \<Rightarrow> (block_list_type \<Rightarrow> u16 list) option" where
  "stack_event Tau S = Some S"
| "stack_event (Pushed L n) S = Some (S(L := n # S L))"
| "stack_event (Popped L n) S = (case S L of x # xs \<Rightarrow> if x = n then Some (S(L := xs)) else None | [] \<Rightarrow> None)"
| "stack_event (Found_empty L) S = (if S L = [] then Some S else None)"

fun stack_run :: "bl_event list \<Rightarrow> (block_list_type \<Rightarrow> u16 list) \<Rightarrow> (block_list_type \<Rightarrow> u16 list) option" where
  "stack_run [] S = Some S"
| "stack_run (e # es) S = stack_event e S \<bind> stack_run es"

lemma stack_run_snoc: "stack_run es S = Some S' \<Longrightarrow> stack_run (es @ [e]) S = stack_event e S'"
proof (induction es arbitrary: S)
  case Nil
  then show ?case by (cases "stack_event e S") simp_all
qed (auto simp: bind_eq_Some_conv)

section \<open>The invariant\<close>

definition stacks_ok :: "bl_world \<Rightarrow> (block_list_type \<Rightarrow> u16 list) \<Rightarrow> bool" where
  "stacks_ok w S \<longleftrightarrow>
     (\<forall>L. bchain (w_blocks w) (ptr_index (w_head w L)) (S L) \<and> distinct (S L))
     \<and> (\<forall>L L'. L \<noteq> L' \<longrightarrow> set (S L) \<inter> set (S L') = {})
     \<and> (\<forall>t L. w_own w t \<inter> set (S L) = {}) \<and> (\<forall>t t'. t \<noteq> t' \<longrightarrow> w_own w t \<inter> w_own w t' = {})
     \<and> (\<forall>t n. n \<in> w_own w t \<longrightarrow> unat n < length (w_blocks w)) \<and> length (w_blocks w) < 2 ^ 16"

text \<open>What a thread knows of the head it has loaded: as long as the version is the same, it is the head.\<close>

definition snapshot :: "bl_world \<Rightarrow> block_list_type \<Rightarrow> pointer_type \<Rightarrow> nat \<Rightarrow> bool" where
  "snapshot w L h v \<longleftrightarrow> v \<le> w_ver w L \<and> ptr_mark h = of_nat v \<and> (v = w_ver w L \<longrightarrow> h = w_head w L)"

fun pc_ok :: "bl_world \<Rightarrow> nat \<Rightarrow> bl_pc \<Rightarrow> bool" where
  "pc_ok w t Idle \<longleftrightarrow> True"
| "pc_ok w t (Pop_loop L h v) \<longleftrightarrow> snapshot w L h v \<and> unat (ptr_index h) < length (w_blocks w)"
| "pc_ok w t (Pop_cas L h d v) \<longleftrightarrow>
     snapshot w L h v \<and> unat (ptr_index h) < length (w_blocks w) \<and> ptr_mark d = ptr_mark h + 1
     \<and> (v = w_ver w L \<longrightarrow> ptr_index d = ptr_index (bn_next (w_blocks w ! unat (ptr_index h))))"
| "pc_ok w t (Push_loop L n h v) \<longleftrightarrow> snapshot w L h v \<and> n \<in> w_own w t"
| "pc_ok w t (Push_cas L n h d v) \<longleftrightarrow>
     snapshot w L h v \<and> n \<in> w_own w t \<and> d = \<lparr>ptr_index = n, ptr_mark = ptr_mark h + 1\<rparr>
     \<and> ptr_index (bn_next (w_blocks w ! unat n)) = ptr_index h"

definition world_ok :: "bl_world \<Rightarrow> (block_list_type \<Rightarrow> u16 list) \<Rightarrow> bool" where
  "world_ok w S \<longleftrightarrow> stacks_ok w S \<and> (\<forall>L. ptr_mark (w_head w L) = of_nat (w_ver w L)) \<and> (\<forall>t. pc_ok w t (w_pc w t))"

text \<open>The frame of a step: what the other threads rely on.\<close>

lemma pc_ok_frame:
  assumes "pc_ok w t pc" "w_own w' t = w_own w t" "length (w_blocks w') = length (w_blocks w)"
    and "\<And>L. w_ver w L \<le> w_ver w' L" "\<And>L. w_ver w' L = w_ver w L \<Longrightarrow> w_head w' L = w_head w L"
    and "\<And>n. n \<in> w_own w t \<Longrightarrow> bn_next (w_blocks w' ! unat n) = bn_next (w_blocks w ! unat n)"
    and "\<And>L. unat (ptr_index (w_head w L)) < length (w_blocks w)
      \<Longrightarrow> bn_next (w_blocks w' ! unat (ptr_index (w_head w L))) = bn_next (w_blocks w ! unat (ptr_index (w_head w L)))"
  shows "pc_ok w' t pc"
proof -
  have s: "snapshot w' L h v" if "snapshot w L h v" for L h v
    using that assms(4,5) [of L] unfolding snapshot_def by (metis le_antisym le_trans)
  have eq: "v = w_ver w L" if "snapshot w L h v" "v = w_ver w' L" for L h v
    using that assms(4) [of L] unfolding snapshot_def by simp
  show ?thesis
  proof (cases pc)
    case (Pop_cas L h d v)
    then have p: "snapshot w L h v" "unat (ptr_index h) < length (w_blocks w)" "ptr_mark d = ptr_mark h + 1"
      "v = w_ver w L \<longrightarrow> ptr_index d = ptr_index (bn_next (w_blocks w ! unat (ptr_index h)))" using assms(1) by simp_all
    have "ptr_index d = ptr_index (bn_next (w_blocks w' ! unat (ptr_index h)))" if "v = w_ver w' L"
    proof -
      have "v = w_ver w L" using eq [OF p(1) that] .
      moreover then have "h = w_head w L" using p(1) by (simp add: snapshot_def)
      ultimately show ?thesis using p(2,4) assms(7) [of L] by simp
    qed
    then show ?thesis using Pop_cas p s assms(3) by simp
  qed (use assms s in \<open>simp_all\<close>)
qed

lemma pc_ok_set_pc [simp]: "pc_ok (w\<lparr>w_pc := f\<rparr>) t pc \<longleftrightarrow> pc_ok w t pc"
  by (cases pc) (simp_all add: snapshot_def)

lemma stacks_ok_set_pc [simp]: "stacks_ok (w\<lparr>w_pc := f\<rparr>) S \<longleftrightarrow> stacks_ok w S"
  by (simp add: stacks_ok_def)

lemma world_ok_set_pc: "world_ok w S \<Longrightarrow> pc_ok w t pc \<Longrightarrow> world_ok (set_pc t pc w) S"
  by (simp add: world_ok_def)

lemma head_empty:
  assumes "stacks_ok w S"
  shows "is_empty_index (ptr_index (w_head w L)) \<longleftrightarrow> S L = []"
    and "\<not> is_empty_index (ptr_index (w_head w L)) \<Longrightarrow> unat (ptr_index (w_head w L)) < length (w_blocks w)"
proof -
  have c: "bchain (w_blocks w) (ptr_index (w_head w L)) (S L)" and n: "length (w_blocks w) < 2 ^ 16"
    using assms unfolding stacks_ok_def by blast+
  show "is_empty_index (ptr_index (w_head w L)) \<longleftrightarrow> S L = []" using c n by (cases "S L") (auto simp: is_empty_index_def)
  then show "unat (ptr_index (w_head w L)) < length (w_blocks w)" if "\<not> is_empty_index (ptr_index (w_head w L))"
    using that c by (cases "S L") auto
qed

lemma world_head_snapshot: "world_ok w S \<Longrightarrow> snapshot w L (w_head w L) (w_ver w L)"
  by (simp add: world_ok_def snapshot_def)

lemma pop_continue_ok:
  assumes "world_ok w S" "pop_continue t L (w_head w L) w = (e, w')"
  shows "stack_event e S = Some S \<and> world_ok w' S"
proof (cases "is_empty_index (ptr_index (w_head w L))")
  case True
  then show ?thesis using assms head_empty(1) [of w S L] world_ok_set_pc [OF assms(1), of t Idle]
    by (auto simp: pop_continue_def world_ok_def)
next
  case False
  then have "pc_ok w t (Pop_loop L (w_head w L) (w_ver w L))"
    using world_head_snapshot [OF assms(1)] head_empty(2) [of w S L] assms(1) by (simp add: world_ok_def)
  from world_ok_set_pc [OF assms(1) this] show ?thesis using assms(2) False by (auto simp: pop_continue_def)
qed

text \<open>Writing the link or the type of a block that a thread owns.\<close>

lemma write_owned:
  assumes ok: "world_ok w S" and n: "n \<in> w_own w t" and pc: "w_pc w t = Idle \<or> (\<exists>L h v. w_pc w t = Push_loop L n h v)"
  shows "world_ok (w\<lparr>w_blocks := (w_blocks w)[unat n := b]\<rparr>) S"
proof -
  let ?w = "w\<lparr>w_blocks := (w_blocks w)[unat n := b]\<rparr>"
  have st: "stacks_ok w S" using ok by (simp add: world_ok_def)
  have out: "n \<notin> set (S L)" for L using st n unfolding stacks_ok_def by blast
  have other: "n \<notin> w_own w t'" if "t' \<noteq> t" for t' using st n that unfolding stacks_ok_def by blast
  have nl: "unat n < length (w_blocks w)" using st n unfolding stacks_ok_def by blast
  have keep: "bn_next (w_blocks ?w ! unat x) = bn_next (w_blocks w ! unat x)" if "x \<noteq> n" for x
    using that nl by simp
  have ch: "bchain (w_blocks ?w) i (S L) \<longleftrightarrow> bchain (w_blocks w) i (S L)" for i L
  proof (rule bchain_cong)
    show "bn_next (w_blocks ?w ! unat x) = bn_next (w_blocks w ! unat x)" if "x \<in> set (S L)" for x
      using that out by (intro keep) auto
  qed simp
  have "stacks_ok ?w S" using st unfolding stacks_ok_def by (simp add: ch [simplified])
  moreover have "pc_ok ?w t' (w_pc w t')" for t'
  proof (cases "t' = t")
    case True
    then show ?thesis using pc ok by (auto simp: world_ok_def snapshot_def dest: spec [of _ t])
  next
    case False
    show ?thesis
    proof (rule pc_ok_frame [where w = w])
      show "pc_ok w t' (w_pc w t')" using ok by (simp add: world_ok_def)
      show "bn_next (w_blocks ?w ! unat x) = bn_next (w_blocks w ! unat x)" if "x \<in> w_own w t'" for x
        using that other [OF False] by (intro keep) auto
      show "bn_next (w_blocks ?w ! unat (ptr_index (w_head w L))) = bn_next (w_blocks w ! unat (ptr_index (w_head w L)))"
        if "unat (ptr_index (w_head w L)) < length (w_blocks w)" for L
      proof (rule keep)
        have "bchain (w_blocks w) (ptr_index (w_head w L)) (S L)" using st unfolding stacks_ok_def by blast
        then have "S L \<noteq> [] \<Longrightarrow> ptr_index (w_head w L) \<in> set (S L)" by (cases "S L") auto
        moreover have "S L \<noteq> []" using head_empty(1) [OF st, of L] that st u16_max unfolding stacks_ok_def is_empty_index_def by fastforce
        ultimately show "ptr_index (w_head w L) \<noteq> n" using out by auto
      qed
    qed simp_all
  qed
  ultimately show ?thesis using ok by (simp add: world_ok_def)
qed

text \<open>A change of one head, with one thread going idle.\<close>

lemma swap_ok:
  assumes ok: "world_ok w S" and mark: "ptr_mark h' = ptr_mark (w_head w L) + 1"
    and st: "stacks_ok (swap_head L h' (set_pc t Idle w\<lparr>w_own := own\<rparr>)) S'" and own: "\<And>t'. t' \<noteq> t \<Longrightarrow> own t' = w_own w t'"
  shows "world_ok (swap_head L h' (set_pc t Idle w\<lparr>w_own := own\<rparr>)) S'"
proof -
  let ?w = "swap_head L h' (set_pc t Idle w\<lparr>w_own := own\<rparr>)"
  have "ptr_mark (w_head ?w L') = of_nat (w_ver ?w L')" for L'
    using ok mark by (simp add: swap_head_def world_ok_def)
  moreover have "pc_ok ?w t' (w_pc ?w t')" for t'
  proof (cases "t' = t")
    case False
    show ?thesis
      by (rule pc_ok_frame [where w = w]) (use ok False own in \<open>simp_all add: swap_head_def world_ok_def split: if_splits\<close>)
  qed (simp add: swap_head_def)
  ultimately show ?thesis using st by (simp add: world_ok_def)
qed

lemma pop_stacks:
  assumes "stacks_ok w S" "S L = x # xs" "bchain (w_blocks w) (ptr_index d) xs"
  shows "stacks_ok (swap_head L d (set_pc t Idle w\<lparr>w_own := (w_own w)(t := insert x (w_own w t))\<rparr>)) (S(L := xs))"
proof -
  have c: "\<And>L. bchain (w_blocks w) (ptr_index (w_head w L)) (S L)" "\<And>L. distinct (S L)"
    and dis: "\<And>L L'. L \<noteq> L' \<Longrightarrow> set (S L) \<inter> set (S L') = {}" and o: "\<And>t L. w_own w t \<inter> set (S L) = {}"
    "\<And>t t'. t \<noteq> t' \<Longrightarrow> w_own w t \<inter> w_own w t' = {}" "\<And>t n. n \<in> w_own w t \<Longrightarrow> unat n < length (w_blocks w)"
    and len: "length (w_blocks w) < 2 ^ 16" using assms(1) unfolding stacks_ok_def by blast+
  have x: "unat x < length (w_blocks w)" "x \<notin> set xs" using c [of L] assms(2) by auto
  have xo: "x \<notin> w_own w t'" for t' using o(1) [of t' L] assms(2) by auto
  have xL: "x \<notin> set (S L')" if "L' \<noteq> L" for L' using dis [OF that] assms(2) by auto
  have sub: "set ((S(L := xs)) L') \<subseteq> set (S L')" for L' using assms(2) by auto
  have "distinct ((S(L := xs)) L')" for L' using c(2) [of L] c(2) [of L'] assms(2) by simp
  moreover have "set ((S(L := xs)) L') \<inter> set ((S(L := xs)) L'') = {}" if "L' \<noteq> L''" for L' L''
    using dis [OF that] sub [of L'] sub [of L''] by blast
  moreover have "((w_own w)(t := insert x (w_own w t))) t' \<inter> set ((S(L := xs)) L') = {}" for t' L'
    using o(1) [of t' L'] sub [of L'] xL [of L'] x by (auto split: if_splits)
  moreover have "((w_own w)(t := insert x (w_own w t))) t' \<inter> ((w_own w)(t := insert x (w_own w t))) t'' = {}" if "t' \<noteq> t''" for t' t''
    using o(2) [OF that] xo that by (auto split: if_splits)
  ultimately show ?thesis using c(1) assms(3) o(3) len x(1) unfolding stacks_ok_def swap_head_def by (simp del: fun_upd_apply) simp
qed

lemma mod_window: "v \<le> n \<Longrightarrow> n < v + m \<Longrightarrow> v mod m = n mod m \<Longrightarrow> v = (n :: nat)"
  by (metis diff_is_0_eq le_add_diff_inverse less_diff_conv2 linorder_not_less mod_eq_dvd_iff_nat nat_dvd_not_less
      nat_less_le add.commute)

text \<open>The pop: when the head is what was loaded, no change has happened in between, so the new head is the link read.\<close>

lemma pop_swap_ok:
  assumes ok: "world_ok w S" and fr: "fresh w" and pc: "w_pc w t = Pop_cas L h d v"
    and cas: "compare_exchange (w_head w L) h d = (True, h')"
  shows "\<exists>S'. stack_event (Popped L (ptr_index h)) S = Some S'
    \<and> world_ok (swap_head L h' (set_pc t Idle w\<lparr>w_own := (w_own w)(t := insert (ptr_index h) (w_own w t))\<rparr>)) S'"
proof -
  have st: "stacks_ok w S" and marks: "\<And>L. ptr_mark (w_head w L) = of_nat (w_ver w L)" and "pc_ok w t (Pop_cas L h d v)"
    using ok pc unfolding world_ok_def by (auto dest: spec [of _ t])
  then have p: "v \<le> w_ver w L" "ptr_mark h = of_nat v" "unat (ptr_index h) < length (w_blocks w)" "ptr_mark d = ptr_mark h + 1"
    "v = w_ver w L \<longrightarrow> ptr_index d = ptr_index (bn_next (w_blocks w ! unat (ptr_index h)))" by (simp_all add: snapshot_def)
  have hd: "w_head w L = h" "h' = d" using cas by (simp_all add: compare_exchange_def split: if_splits)
  have "(of_nat v :: u16) = of_nat (w_ver w L)" using p(2) marks [of L] hd by simp
  then have m: "v mod 2 ^ 16 = w_ver w L mod 2 ^ 16" by (simp add: word_of_nat_eq_iff take_bit_eq_mod)
  have f: "w_ver w L < v + 2 ^ 16" using fr pc unfolding fresh_def by blast
  have v: "v = w_ver w L" using mod_window [OF p(1) f m] .
  have ch: "bchain (w_blocks w) (ptr_index h) (S L)" using st hd unfolding stacks_ok_def by blast
  have "\<not> is_empty_index (ptr_index h)" using p(3) st u16_max unfolding stacks_ok_def is_empty_index_def by fastforce
  then obtain x xs where S: "S L = x # xs" using head_empty(1) [OF st, of L] hd by (cases "S L") auto
  have x: "x = ptr_index h" and cd: "bchain (w_blocks w) (ptr_index d) xs" using ch S p(5) v by auto
  have "stack_event (Popped L (ptr_index h)) S = Some (S(L := xs))" using S x by simp
  moreover have "stacks_ok (swap_head L h' (set_pc t Idle w\<lparr>w_own := (w_own w)(t := insert (ptr_index h) (w_own w t))\<rparr>)) (S(L := xs))"
    using pop_stacks [OF st S] x cd hd(2) by simp
  ultimately show ?thesis
    by (intro exI [of _ "S(L := xs)"] conjI swap_ok [OF ok]) (use hd p in simp_all)
qed

lemma push_stacks:
  assumes "stacks_ok w S" "n \<in> w_own w t" "ptr_index (bn_next (w_blocks w ! unat n)) = ptr_index (w_head w L)" "ptr_index d = n"
  shows "stacks_ok (swap_head L d (set_pc t Idle w\<lparr>w_own := (w_own w)(t := w_own w t - {n})\<rparr>)) (S(L := n # S L))"
proof -
  have c: "\<And>L. bchain (w_blocks w) (ptr_index (w_head w L)) (S L)" "\<And>L. distinct (S L)"
    and dis: "\<And>L L'. L \<noteq> L' \<Longrightarrow> set (S L) \<inter> set (S L') = {}" and o: "\<And>t L. w_own w t \<inter> set (S L) = {}"
    "\<And>t t'. t \<noteq> t' \<Longrightarrow> w_own w t \<inter> w_own w t' = {}" "\<And>t n. n \<in> w_own w t \<Longrightarrow> unat n < length (w_blocks w)"
    and len: "length (w_blocks w) < 2 ^ 16" using assms(1) unfolding stacks_ok_def by blast+
  have n: "n \<notin> set (S L')" for L' using o(1) [of t L'] assms(2) by auto
  have other: "n \<notin> w_own w t'" if "t' \<noteq> t" for t' using o(2) [OF that] assms(2) by auto
  let ?own = "(w_own w)(t := w_own w t - {n})" and ?S = "S(L := n # S L)"
  have "distinct (?S L')" for L' using c(2) [of L] c(2) [of L'] n [of L] by simp
  moreover have "set (?S L') \<inter> set (?S L'') = {}" if "L' \<noteq> L''" for L' L''
    using dis [OF that] n [of L'] n [of L''] that by auto
  moreover have "?own t' \<inter> set (?S L') = {}" for t' L'
    using o(1) [of t' L'] other [of t'] by auto
  moreover have "?own t' \<inter> ?own t'' = {}" if "t' \<noteq> t''" for t' t''
    using o(2) [OF that] by auto
  moreover have "unat m < length (w_blocks w)" if "m \<in> ?own t'" for t' m using o(3) [of m t'] that by (auto split: if_splits)
  ultimately show ?thesis using c(1) assms(2,3,4) o(3) len unfolding stacks_ok_def swap_head_def by (simp del: fun_upd_apply) simp
qed

lemma push_swap_ok:
  assumes ok: "world_ok w S" and pc: "w_pc w t = Push_cas L n h d v"
    and cas: "compare_exchange (w_head w L) h d = (True, h')"
  shows "\<exists>S'. stack_event (Pushed L n) S = Some S'
    \<and> world_ok (swap_head L h' (set_pc t Idle w\<lparr>w_own := (w_own w)(t := w_own w t - {n})\<rparr>)) S'"
proof -
  have st: "stacks_ok w S" and "pc_ok w t (Push_cas L n h d v)" using ok pc unfolding world_ok_def by (auto dest: spec [of _ t])
  then have p: "n \<in> w_own w t" "d = \<lparr>ptr_index = n, ptr_mark = ptr_mark h + 1\<rparr>"
    "ptr_index (bn_next (w_blocks w ! unat n)) = ptr_index h" by simp_all
  have hd: "w_head w L = h" "h' = d" using cas by (simp_all add: compare_exchange_def split: if_splits)
  have "stacks_ok (swap_head L h' (set_pc t Idle w\<lparr>w_own := (w_own w)(t := w_own w t - {n})\<rparr>)) (S(L := n # S L))"
    using push_stacks [OF st p(1), of L d] p hd by simp
  then show ?thesis by (intro exI [of _ "S(L := n # S L)"] conjI swap_ok [OF ok]) (use hd p in simp_all)
qed

lemma push_load_ok:
  assumes ok: "world_ok w S" and n: "n \<in> w_own w t" and pc: "w_pc w t = Idle"
  shows "world_ok (set_pc t (Push_loop L n (w_head w L) (w_ver w L))
    (w\<lparr>w_blocks := (w_blocks w)[unat n := (w_blocks w ! unat n)\<lparr>bn_type := L\<rparr>]\<rparr>)) S"
proof (rule world_ok_set_pc)
  let ?w = "w\<lparr>w_blocks := (w_blocks w)[unat n := (w_blocks w ! unat n)\<lparr>bn_type := L\<rparr>]\<rparr>"
  show o: "world_ok ?w S" using write_owned [OF ok n] pc by simp
  show "pc_ok ?w t (Push_loop L n (w_head w L) (w_ver w L))" using world_head_snapshot [OF o, of L] n by simp
qed

lemma push_write_ok:
  assumes ok: "world_ok w S" and pc: "w_pc w t = Push_loop L n h v" and p: "push_prepare n h (w_blocks w) = Some (bs', d)"
  shows "world_ok (set_pc t (Push_cas L n h d v) (w\<lparr>w_blocks := bs'\<rparr>)) S"
proof (rule world_ok_set_pc)
  have "pc_ok w t (Push_loop L n h v)" using ok pc unfolding world_ok_def by (auto dest: spec [of _ t])
  then have n: "n \<in> w_own w t" "snapshot w L h v" by simp_all
  show "world_ok (w\<lparr>w_blocks := bs'\<rparr>) S" using write_owned [OF ok n(1)] pc p by (auto simp: push_prepare_def split: if_splits)
  show "pc_ok (w\<lparr>w_blocks := bs'\<rparr>) t (Push_cas L n h d v)"
    using n p by (auto simp: push_prepare_def snapshot_def split: if_splits)
qed

lemma step_ok:
  assumes step: "bl_step w e w'" and ok: "world_ok w S" and fr: "fresh w"
  shows "\<exists>S'. stack_event e S = Some S' \<and> world_ok w' S'"
  using step
proof cases
  case (pop_load t L)
  then show ?thesis using pop_continue_ok [OF ok] by blast
next
  case (pop_read t L h v d)
  have "pc_ok w t (Pop_loop L h v)" using ok pop_read unfolding world_ok_def by (auto dest: spec [of _ t])
  then have "pc_ok w t (Pop_cas L h d v)" using pop_read by (auto simp: pop_prepare_def Let_def split: if_splits)
  then show ?thesis using pop_read world_ok_set_pc [OF ok] by simp
next
  case (pop_swap t L h d v h')
  then show ?thesis using pop_swap_ok [OF ok fr] by simp
next
  case (pop_retry t L h d v h')
  then have "h' = w_head w L" by (simp add: compare_exchange_def split: if_splits)
  then show ?thesis using pop_retry pop_continue_ok [OF ok] by blast
next
  case (push_load t n L)
  then show ?thesis using push_load_ok [OF ok] by simp
next
  case (push_write t L n h v bs' d)
  then show ?thesis using push_write_ok [OF ok] by simp
next
  case (push_swap t L n h d v h')
  then show ?thesis using push_swap_ok [OF ok] by simp
next
  case (push_retry t L n h d v h')
  then have "h' = w_head w L" by (simp add: compare_exchange_def split: if_splits)
  moreover have "pc_ok w t (Push_cas L n h d v)" using ok push_retry unfolding world_ok_def by (auto dest: spec [of _ t])
  ultimately have "pc_ok w t (Push_loop L n h' (w_ver w L))" using world_head_snapshot [OF ok, of L] by simp
  then show ?thesis using push_retry world_ok_set_pc [OF ok] by simp
qed

lemma run_ok:
  assumes "bl_run w es w'" "world_ok w S"
  shows "\<exists>S'. stack_run es S = Some S' \<and> world_ok w' S'"
  using assms
proof (induction rule: bl_run.induct)
  case (run_step w es w' e w'')
  then obtain S' where S: "stack_run es S = Some S'" "world_ok w' S'" by blast
  with step_ok [OF run_step(3) S(2) run_step(2)] show ?case by (simp add: stack_run_snoc)
qed simp

text \<open>No block is lost: the blocks in the lists or with a thread stay the same.\<close>

definition held :: "bl_world \<Rightarrow> (block_list_type \<Rightarrow> u16 list) \<Rightarrow> u16 set" where
  "held w S = (\<Union>L. set (S L)) \<union> (\<Union>t. w_own w t)"

lemma UN_split: "(\<Union>x. f x) = f a \<union> (\<Union>x \<in> - {a}. f x)"
  by auto

lemma held_swap:
  assumes "\<And>L'. L' \<noteq> L \<Longrightarrow> S' L' = S L'" "\<And>t'. t' \<noteq> t \<Longrightarrow> w_own w' t' = w_own w t'"
    and "set (S' L) \<union> w_own w' t = set (S L) \<union> w_own w t"
  shows "held w' S' = held w S"
proof -
  have h: "held v T = (set (T L) \<union> w_own v t) \<union> (\<Union>L' \<in> - {L}. set (T L')) \<union> (\<Union>t' \<in> - {t}. w_own v t')" for v T
    unfolding held_def UN_split [of "\<lambda>L. set (T L)" L] UN_split [of "w_own v" t] by (simp only: Un_ac)
  have "(\<Union>L' \<in> - {L}. set (S' L')) = (\<Union>L' \<in> - {L}. set (S L'))" "(\<Union>t' \<in> - {t}. w_own w' t') = (\<Union>t' \<in> - {t}. w_own w t')"
    using assms(1,2) by simp_all
  then show ?thesis unfolding h by (simp only: assms(3))
qed

lemma step_held:
  assumes step: "bl_step w e w'" and ok: "world_ok w S" and ev: "stack_event e S = Some S'"
  shows "held w' S' = held w S"
  using step
proof cases
  case (pop_swap t L h d v h')
  then obtain xs where "S L = ptr_index h # xs" "S' = S(L := xs)" using ev by (auto split: list.splits if_splits)
  then show ?thesis using pop_swap by (intro held_swap [of L _ _ t]) (simp_all add: swap_head_def)
next
  case (push_swap t L n h d v h')
  then have "n \<in> w_own w t" using ok unfolding world_ok_def by (auto dest: spec [of _ t])
  moreover have "S' = S(L := n # S L)" using ev push_swap by simp
  ultimately show ?thesis using push_swap by (intro held_swap [of L _ _ t]) (auto simp: swap_head_def)
qed (use ev in \<open>auto simp: held_def pop_continue_def split: if_splits\<close>)

lemma run_held:
  assumes "bl_run w es w'" "world_ok w S" "stack_run es S = Some S'"
  shows "held w' S' = held w S"
  using assms
proof (induction arbitrary: S' rule: bl_run.induct)
  case (run_step w es w' e w'')
  obtain T where T: "stack_run es S = Some T" "world_ok w' T" using run_ok [OF run_step(1,5)] by blast
  then have "stack_event e T = Some S'" using run_step(6) stack_run_snoc [OF T(1)] by simp
  then show ?case using step_held [OF run_step(3) T(2)] run_step(4) [OF run_step(5) T(1)] by simp
qed simp

text \<open>The steps that read or write a block never leave the area.\<close>

lemma world_ok_defined:
  assumes "world_ok w S"
  shows "w_pc w t = Pop_loop L h v \<Longrightarrow> pop_prepare (w_blocks w) h \<noteq> None"
    and "w_pc w t = Push_loop L n h v \<Longrightarrow> push_prepare n h (w_blocks w) \<noteq> None"
proof -
  have p: "pc_ok w t (w_pc w t)" and o: "\<And>n. n \<in> w_own w t \<Longrightarrow> unat n < length (w_blocks w)"
    using assms unfolding world_ok_def stacks_ok_def by blast+
  show "w_pc w t = Pop_loop L h v \<Longrightarrow> pop_prepare (w_blocks w) h \<noteq> None" using p by (simp add: pop_prepare_def)
  show "w_pc w t = Push_loop L n h v \<Longrightarrow> push_prepare n h (w_blocks w) \<noteq> None" using p o by (simp add: push_prepare_def)
qed

section \<open>The property\<close>

text \<open>
  Property C6. Threads push and pop on the free, stage and used lists, interleaved at every load, link access and
  compare-and-swap, and none sleeps through \<open>2^16\<close> changes inside one pop. Then the trace of their operations is a run of
  stacks: every pop returns the block pushed last, a pop finds a list empty only when it is. The lists stay chains without
  repetition, no block is in two lists or with two threads, no block is lost, and no access leaves the blocks.
\<close>

theorem block_lists_linearizable:
  assumes "bl_run w es w'" "world_ok w S"
  shows "\<exists>S'. stack_run es S = Some S' \<and> stacks_ok w' S' \<and> held w' S' = held w S
    \<and> (\<forall>t L h v. w_pc w' t = Pop_loop L h v \<longrightarrow> pop_prepare (w_blocks w') h \<noteq> None)
    \<and> (\<forall>t L n h v. w_pc w' t = Push_loop L n h v \<longrightarrow> push_prepare n h (w_blocks w') \<noteq> None)"
proof -
  obtain S' where S: "stack_run es S = Some S'" "world_ok w' S'" using run_ok [OF assms] by blast
  then show ?thesis using run_held [OF assms S(1)] world_ok_defined [OF S(2)] unfolding world_ok_def by blast
qed

text \<open>
  Two blocks in the free list and two threads: thread 0 reads the first block, thread 1 pops it, the swap of thread 0 fails.
\<close>

definition demo_node :: "u16 \<Rightarrow> block_node_head" where
  "demo_node i = \<lparr>bn_next = \<lparr>ptr_index = i, ptr_mark = 0\<rparr>, bn_type = list_free, misc_data = [], ring_memory = [], bn_ring = None\<rparr>"

definition demo_world :: bl_world where
  "demo_world = \<lparr>w_blocks = [demo_node 1, demo_node (- 1)],
     w_head = (\<lambda>L. if L = list_free then \<lparr>ptr_index = 0, ptr_mark = 0\<rparr> else \<lparr>ptr_index = - 1, ptr_mark = 0\<rparr>),
     w_ver = (\<lambda>_. 0), w_pc = (\<lambda>_. Idle), w_own = (\<lambda>_. {})\<rparr>"

definition demo_stacks :: "block_list_type \<Rightarrow> u16 list" where
  "demo_stacks L = (if L = list_free then [0, 1] else [])"

lemma demo_ok: "world_ok demo_world demo_stacks"
  by (auto simp: world_ok_def stacks_ok_def demo_world_def demo_stacks_def demo_node_def)

abbreviation demo_pc :: "bl_pc \<Rightarrow> bl_pc \<Rightarrow> bl_world" where
  "demo_pc p q \<equiv> set_pc 1 q (set_pc 0 p demo_world)"

abbreviation demo_p :: "u16 \<Rightarrow> u16 \<Rightarrow> pointer_type" where
  "demo_p i m \<equiv> \<lparr>ptr_index = i, ptr_mark = m\<rparr>"

lemma demo_fresh: "w_ver w L' < 2 ^ 16 \<Longrightarrow> (\<And>L. w_ver w L \<le> w_ver w L') \<Longrightarrow> fresh w"
  unfolding fresh_def by (metis le_less_trans trans_less_add2)

lemma block_demo_run: "\<exists>w'. bl_run demo_world [Tau, Tau, Tau, Tau, Popped list_free 0, Tau] w'"
proof -
  let ?h = "demo_p 0 0" and ?d = "demo_p 1 1"
  let ?c = "Pop_cas list_free ?h ?d 0" and ?l = "Pop_loop list_free ?h 0"
  note d = demo_world_def demo_node_def pop_continue_def is_empty_index_def pop_prepare_def compare_exchange_def
  have idle: "demo_pc Idle Idle = demo_world" by (simp add: demo_world_def fun_eq_iff)
  have f: "fresh (demo_pc p q)" for p q by (rule demo_fresh [of _ list_free]) (simp_all add: demo_world_def)
  have "bl_step (demo_pc Idle Idle) Tau (demo_pc ?l Idle)"
    by (rule pop_load [of _ 0 list_free]) (simp_all add: d fun_upd_twist)
  then have 1: "bl_run demo_world ([] @ [Tau]) (demo_pc ?l Idle)" using run_start f [of Idle Idle] unfolding idle by (blast intro: run_step)
  have "bl_step (demo_pc ?l Idle) Tau (set_pc 0 ?c (demo_pc ?l Idle))" by (rule pop_read) (simp_all add: d)
  also have "set_pc 0 ?c (demo_pc ?l Idle) = demo_pc ?c Idle" by (simp add: fun_upd_twist)
  finally have 2: "bl_run demo_world (([] @ [Tau]) @ [Tau]) (demo_pc ?c Idle)" using run_step [OF 1 f] by blast
  have "bl_step (demo_pc ?c Idle) Tau (demo_pc ?c ?l)" by (rule pop_load [of _ 1 list_free]) (simp_all add: d)
  then have 3: "bl_run demo_world ((([] @ [Tau]) @ [Tau]) @ [Tau]) (demo_pc ?c ?l)" using run_step [OF 2 f] by blast
  have "bl_step (demo_pc ?c ?l) Tau (set_pc 1 ?c (demo_pc ?c ?l))" by (rule pop_read) (simp_all add: d)
  also have "set_pc 1 ?c (demo_pc ?c ?l) = demo_pc ?c ?c" by simp
  finally have 4: "bl_run demo_world (((([] @ [Tau]) @ [Tau]) @ [Tau]) @ [Tau]) (demo_pc ?c ?c)" using run_step [OF 3 f] by blast
  let ?w = "swap_head list_free ?d (set_pc 1 Idle (demo_pc ?c ?c)\<lparr>w_own := (w_own (demo_pc ?c ?c))(1 := insert (ptr_index ?h) (w_own (demo_pc ?c ?c) 1))\<rparr>)"
  have "bl_step (demo_pc ?c ?c) (Popped list_free (ptr_index ?h)) ?w" by (rule pop_swap) (simp_all add: d)
  then have 5: "bl_run demo_world ((((([] @ [Tau]) @ [Tau]) @ [Tau]) @ [Tau]) @ [Popped list_free (ptr_index ?h)]) ?w"
    using run_step [OF 4 f] by blast
  have "bl_step ?w Tau (set_pc 0 (Pop_loop list_free ?d 1) ?w)"
    by (rule pop_retry [of _ 0 list_free ?h ?d 0 ?d]) (simp_all add: d swap_head_def)
  moreover have "fresh ?w" by (rule demo_fresh [of _ list_free]) (simp_all add: demo_world_def swap_head_def)
  ultimately show ?thesis using run_step [OF 5] by fastforce
qed

theorem block_lists_linearizable_witness:
  "\<exists>es w' S'. bl_run demo_world es w' \<and> Popped list_free 0 \<in> set es \<and> stack_run es demo_stacks = Some S'
    \<and> stacks_ok w' S' \<and> held w' S' = held demo_world demo_stacks"
proof -
  obtain w' where r: "bl_run demo_world [Tau, Tau, Tau, Tau, Popped list_free 0, Tau] w'" using block_demo_run by blast
  with block_lists_linearizable [OF r demo_ok] show ?thesis by fastforce
qed

end
