(* ===== verification/Qlog_Group.thy ===== *)
theory Qlog_Group
  imports Qlog_Block_Chains Qlog_Hash_Map_Props
begin

text \<open>
  A group of blocks and its three lists: the constructor \<open>group_data_head::group_data_head\<close> of
  \<open>src/src/buffer/group_list.cpp\<close>, which takes over what an earlier run left in mapped memory or starts afresh, and the
  moves of blocks between the lists. The addresses of blocks are the keys of the hash maps.

  \<open>None\<close> is a failed assertion, an access outside the blocks, or a ring whose size is not
  that of the memory of its block (the code computes the size of a recovered ring with \<open>buffer_size_per_block_\<close> and of
  a new one without rounding to cache lines).
\<close>

record group_data_head =
  gd_used :: block_list
  gd_free :: block_list
  gd_stage :: block_list

text \<open>The hash of a pointer is its address.\<close>

definition pointer_hash_code :: "nat \<Rightarrow> u64" where
  "pointer_hash_code p = of_nat p"

text \<open>\<open>map.find(key) != map.end()\<close>\<close>

definition hm_contains :: "nat \<Rightarrow> (nat, bool) hash_map \<Rightarrow> bool option" where
  "hm_contains p m = do {
     it \<leftarrow> hm_find pointer_hash_code p m;
     Some (\<not> iterator_eq it (end_iterator m))
   }"

abbreviation mark_block :: "nat \<Rightarrow> (nat, bool) hash_map \<Rightarrow> (nat, bool) hash_map option" where
  "mark_block p m \<equiv> hm_put pointer_hash_code False p True m"

section \<open>Collecting the blocks of the recovered lists\<close>

partial_function (option) collect_used ::
  "block_list \<Rightarrow> blocks \<Rightarrow> nat option \<Rightarrow> (nat, bool) hash_map \<Rightarrow> (nat, bool) hash_map option" where
  [code]: "collect_used l bs current used_map =
     (case current of
        None \<Rightarrow> Some used_map
      | Some p \<Rightarrow> do {
          used_map \<leftarrow> mark_block p used_map;
          n \<leftarrow> bl_next l bs p;
          collect_used l bs n used_map
        })"

text \<open>Unlinking a block of the stage list that the used list has too; the block must be found.\<close>

partial_function (option) break_link ::
  "nat \<Rightarrow> nat option \<Rightarrow> nat option \<Rightarrow> block_list \<Rightarrow> blocks \<Rightarrow> (block_list \<times> blocks) option" where
  [code]: "break_link current last_block nxt l bs =
     (case nxt of
        None \<Rightarrow> None
      | Some p \<Rightarrow>
          if p = current then remove_thread_unsafe last_block p l bs
          else do {
            n \<leftarrow> bl_next l bs p;
            break_link current (Some p) n l bs
          })"

partial_function (option) collect_stage ::
  "(nat, bool) hash_map \<Rightarrow> block_list \<Rightarrow> blocks \<Rightarrow> nat option \<Rightarrow> (nat, bool) hash_map
    \<Rightarrow> (block_list \<times> blocks \<times> (nat, bool) hash_map) option" where
  [code]: "collect_stage used_map l bs current stage_map =
     (case current of
        None \<Rightarrow> Some (l, bs, stage_map)
      | Some p \<Rightarrow> do {
          both \<leftarrow> hm_contains p used_map;
          if both then do {
            (l, bs) \<leftarrow> break_link p None (bl_first l) l bs;
            Some (l, bs, stage_map)
          }
          else do {
            stage_map \<leftarrow> mark_block p stage_map;
            n \<leftarrow> bl_next l bs p;
            collect_stage used_map l bs n stage_map
          }
        })"

text \<open>The branch \<open>if (is_memory_recovery)\<close>.\<close>

definition recover_part ::
  "nat \<Rightarrow> block_list \<Rightarrow> block_list \<Rightarrow> (nat, bool) hash_map \<Rightarrow> (nat, bool) hash_map \<Rightarrow> blocks
    \<Rightarrow> ((nat, bool) hash_map \<times> block_list \<times> blocks \<times> (nat, bool) hash_map) option" where
  "recover_part data_offset used stage used_map stage_map bs = do {
     used_map \<leftarrow> collect_used used bs (bl_first used) used_map;
     (stage, bs, stage_map) \<leftarrow> collect_stage used_map stage bs (bl_first stage) stage_map;
     bs \<leftarrow> recovery_blocks data_offset used bs;
     bs \<leftarrow> recovery_blocks data_offset stage bs;
     Some (used_map, stage, bs, stage_map)
   }"

section \<open>The constructor\<close>

text \<open>
  The loop over all block indices; \<open>ring_size\<close> is the size the code passes for the ring of a new block.
\<close>

function init_free ::
  "nat \<Rightarrow> (nat, bool) hash_map \<Rightarrow> (nat, bool) hash_map \<Rightarrow> u16 \<Rightarrow> nat \<Rightarrow> group_data_head \<Rightarrow> blocks
    \<Rightarrow> (group_data_head \<times> blocks) option" where
  "init_free ring_size used_map stage_map max_count i g bs =
     (if i < unat max_count
      then
        (let p = get_block_head_by_index (gd_stage g) (of_nat i)
         in do {
           u \<leftarrow> hm_contains p used_map;
           s \<leftarrow> (if u then Some True else hm_contains p stage_map);
           if u \<or> s then init_free ring_size used_map stage_map max_count (i + 1) g bs
           else do {
             b \<leftarrow> block_at (gd_stage g) bs p;
             b \<leftarrow> block_node_head_new list_none ring_size False b;
             bs \<leftarrow> set_block (gd_stage g) p (\<lambda>_. b) bs;
             (f, bs) \<leftarrow> bl_push p (gd_free g) bs;
             init_free ring_size used_map stage_map max_count (i + 1) (g\<lparr>gd_free := f\<rparr>) bs
           }
         })
      else Some (g, bs))"
  by pat_completeness auto
termination
  by (relation "measure (\<lambda>(_, _, _, max_count, i, _, _). unat max_count - i)") auto

declare init_free.simps [simp del]

text \<open>
  \<open>g\<close> and \<open>bs\<close> hold what the memory contains before the constructor runs; \<open>map_addrs\<close> are the addresses of the
  two local hash maps.
\<close>

definition group_data_head_new ::
  "nat \<Rightarrow> nat \<times> nat \<Rightarrow> u16 \<Rightarrow> nat \<Rightarrow> nat \<Rightarrow> bool \<Rightarrow> group_data_head \<Rightarrow> blocks \<Rightarrow> (group_data_head \<times> blocks) option" where
  "group_data_head_new data_offset map_addrs max_count addr data_size recovery g bs = do {
     used \<leftarrow> block_list_new data_offset list_used max_count addr data_size recovery (gd_used g) bs;
     free \<leftarrow> block_list_new data_offset list_free max_count addr data_size False (gd_free g) bs;
     stage \<leftarrow> block_list_new data_offset list_stage max_count addr data_size recovery (gd_stage g) bs;
     used_map \<leftarrow> hash_map_new pointer_hash_code (fst map_addrs) 0;
     stage_map \<leftarrow> hash_map_new pointer_hash_code (snd map_addrs) 0;
     (used_map, stage, bs, stage_map) \<leftarrow>
       (if recovery then recover_part data_offset used stage used_map stage_map bs
        else Some (used_map, stage, bs, stage_map));
     init_free (data_size div unat max_count - data_offset) used_map stage_map max_count 0
       \<lparr>gd_used = used, gd_free = free, gd_stage = stage\<rparr> bs
   }"

end
