(* ===== verification/Qlog_Group_Correct.thy ===== *)
theory Qlog_Group_Correct
  imports Qlog_Group Qlog_Siso_Queue
begin

text \<open>
  The constructor of a group: for every content of the memory it ends and leaves each block in exactly one of the three
  lists; over the memory of a consistent earlier run it takes over the lists and the unread data of their blocks.
\<close>

section \<open>Lists over the same blocks\<close>

definition placed :: "nat \<Rightarrow> nat \<Rightarrow> block_list \<Rightarrow> bool" where
  "placed addr sz l \<longleftrightarrow> bl_this l + unat (bl_offset l) = addr \<and> buffer_size_per_block l = sz \<and> 0 < sz"

definition block_addr :: "nat \<Rightarrow> nat \<Rightarrow> u16 \<Rightarrow> nat" where
  "block_addr addr sz i = addr + sz * unat i"

lemma placed_size: "placed addr sz l \<Longrightarrow> 0 < buffer_size_per_block l"
  by (simp add: placed_def)

lemma placed_head: "placed addr sz l \<Longrightarrow> get_block_head_by_index l i = block_addr addr sz i"
  by (auto simp: placed_def get_block_head_by_index_def block_addr_def)

lemma block_addr_inject: "0 < sz \<Longrightarrow> block_addr addr sz i = block_addr addr sz j \<longleftrightarrow> i = j"
  by (simp add: block_addr_def)

lemma placed_at:
  assumes "placed addr sz l"
  shows "block_at l bs (block_addr addr sz i) = (if unat i < length bs then Some (bs ! unat i) else None)"
    and "set_block l (block_addr addr sz i) f bs = (if unat i < length bs then Some (bs[unat i := f (bs ! unat i)]) else None)"
    and "unat i < length bs \<Longrightarrow> bl_next l bs (block_addr addr sz i) = Some (pointer_to l (ptr_index (bn_next (bs ! unat i))))"
  using block_at_head [OF placed_size [OF assms], of bs i] set_block_head [OF placed_size [OF assms], of i f bs]
    bl_next_head [OF placed_size [OF assms], of i bs] unfolding placed_head [OF assms] by simp_all

lemma placed_pointer: "placed addr sz l \<Longrightarrow> i \<noteq> - 1 \<Longrightarrow> pointer_to l i = Some (block_addr addr sz i)"
  by (simp add: pointer_to_def is_empty_index_def placed_head)

section \<open>The hash maps of block addresses\<close>

definition marks_ok :: "nat \<Rightarrow> (nat, bool) hash_map \<Rightarrow> bool" where
  "marks_ok n m \<longleftrightarrow> hm_invar pointer_hash_code m \<and> expand_rate m = (3, 1) \<and> hm_size m \<le> n"

lemma marks_new: "\<exists>m. hash_map_new pointer_hash_code a 0 = Some m \<and> marks_ok 0 m \<and> hm_abs m = Map.empty"
proof -
  obtain m :: "(nat, bool) hash_map" and xs fs
    where "hash_map_new pointer_hash_code a 0 = Some m" "hm_rel pointer_hash_code m xs fs" "hm_keeps (empty_hash_map a) m"
    using hash_map_new_run [of 0 pointer_hash_code a] by auto
  then show ?thesis using hm_abs_empty [of a] by (auto simp: marks_ok_def hm_keeps_def empty_hash_map_def hm_invar_def)
qed

lemma marks_put:
  assumes "marks_ok n m" "n < 2 ^ 20"
  shows "\<exists>m'. mark_block p m = Some m' \<and> marks_ok (n + 1) m' \<and> hm_abs m' = (hm_abs m)(p \<mapsto> True)"
proof -
  have "rate_room (3, 1) (hm_size m + 1)" using assms by (simp add: marks_ok_def rate_room_def)
  then show ?thesis using hm.put_law [of pointer_hash_code m "(3, 1)" False p True] assms(1) by (fastforce simp: marks_ok_def)
qed

lemma marks_contains:
  assumes "marks_ok n m"
  shows "hm_contains p m = Some (hm_abs m p \<noteq> None)"
proof -
  obtain xs fs where rel: "hm_rel pointer_hash_code m xs fs" using assms by (auto simp: marks_ok_def hm_invar_def)
  obtain it where it: "hm_find pointer_hash_code p m = Some it" "hm_abs m p \<noteq> None \<longrightarrow> hm_at m xs it p"
      "hm_abs m p = None \<longrightarrow> it_node it = NIL" using hm_find_run [OF rel] by blast
  have "it_node it \<noteq> NIL" if "hm_at m xs it p"
    using that rel hm_linksD(3) [of m xs fs] by (auto simp: hm_at_def hm_rel_def)
  then show ?thesis using it by (auto simp: hm_contains_def iterator_eq_def end_iterator_def)
qed

section \<open>Collecting\<close>

lemma collect_used_run:
  assumes "placed addr sz l" "bchain bs i xs" "length bs < 2 ^ 16" "marks_ok n m" "n + length xs < 2 ^ 20"
  shows "\<exists>m'. collect_used l bs (pointer_to l i) m = Some m' \<and> marks_ok (n + length xs) m'
    \<and> (\<forall>p. hm_abs m' p \<noteq> None \<longleftrightarrow> hm_abs m p \<noteq> None \<or> p \<in> block_addr addr sz ` set xs)"
  using assms(2,4,5)
proof (induction xs arbitrary: i m n)
  case Nil
  then show ?case by (simp add: pointer_to_def is_empty_index_def collect_used.simps)
next
  case (Cons x xs)
  have x: "i = x" "unat x < length bs" "bchain bs (ptr_index (bn_next (bs ! unat x))) xs" "x \<noteq> - 1" using Cons.prems(1) assms(3) by auto
  obtain m1 where m1: "mark_block (block_addr addr sz x) m = Some m1" "marks_ok (n + 1) m1" "hm_abs m1 = (hm_abs m)(block_addr addr sz x \<mapsto> True)"
    using marks_put [OF Cons.prems(2)] Cons.prems(3) by fastforce
  have "n + 1 + length xs < 2 ^ 20" using Cons.prems(3) by simp
  from Cons.IH [OF x(3) m1(2) this] obtain m' where
    m': "collect_used l bs (pointer_to l (ptr_index (bn_next (bs ! unat x)))) m1 = Some m'" "marks_ok (n + 1 + length xs) m'"
      "\<forall>p. hm_abs m' p \<noteq> None \<longleftrightarrow> hm_abs m1 p \<noteq> None \<or> p \<in> block_addr addr sz ` set xs" by blast
  have "collect_used l bs (pointer_to l i) m = Some m'"
    using placed_pointer [OF assms(1) x(4)] placed_at(3) [OF assms(1) x(2)] m1(1) m'(1) x(1) by (subst collect_used.simps) simp
  then show ?case using m'(2,3) m1(3) by (intro exI [of _ m']) auto
qed

lemma collect_stage_run:
  assumes "placed addr sz l" "bchain bs i xs" "length bs < 2 ^ 16" "marks_ok n m" "n + length xs < 2 ^ 20" "marks_ok k um"
    and "\<And>x. x \<in> set xs \<Longrightarrow> hm_abs um (block_addr addr sz x) = None"
  shows "\<exists>m'. collect_stage um l bs (pointer_to l i) m = Some (l, bs, m') \<and> marks_ok (n + length xs) m'
    \<and> (\<forall>p. hm_abs m' p \<noteq> None \<longleftrightarrow> hm_abs m p \<noteq> None \<or> p \<in> block_addr addr sz ` set xs)"
  using assms(2,4,5,7)
proof (induction xs arbitrary: i m n)
  case Nil
  then show ?case by (simp add: pointer_to_def is_empty_index_def collect_stage.simps)
next
  case (Cons x xs)
  have x: "i = x" "unat x < length bs" "bchain bs (ptr_index (bn_next (bs ! unat x))) xs" "x \<noteq> - 1" using Cons.prems(1) assms(3) by auto
  obtain m1 where m1: "mark_block (block_addr addr sz x) m = Some m1" "marks_ok (n + 1) m1" "hm_abs m1 = (hm_abs m)(block_addr addr sz x \<mapsto> True)"
    using marks_put [OF Cons.prems(2)] Cons.prems(3) by fastforce
  have "n + 1 + length xs < 2 ^ 20" using Cons.prems(3) by simp
  from Cons.IH [OF x(3) m1(2) this] Cons.prems(4) obtain m' where
    m': "collect_stage um l bs (pointer_to l (ptr_index (bn_next (bs ! unat x)))) m1 = Some (l, bs, m')" "marks_ok (n + 1 + length xs) m'"
      "\<forall>p. hm_abs m' p \<noteq> None \<longleftrightarrow> hm_abs m1 p \<noteq> None \<or> p \<in> block_addr addr sz ` set xs" by auto
  have "hm_contains (block_addr addr sz x) um = Some False" using marks_contains [OF assms(6)] Cons.prems(4) by simp
  then have "collect_stage um l bs (pointer_to l i) m = Some (l, bs, m')"
    using placed_pointer [OF assms(1) x(4)] placed_at(3) [OF assms(1) x(2)] m1(1) m'(1) x(1) by (subst collect_stage.simps) simp
  then show ?case using m'(2,3) m1(3) by (intro exI [of _ m']) auto
qed

section \<open>Filling the free list\<close>

text \<open>What the loop has done before index \<open>i\<close>: the blocks of the other lists \<open>X\<close> are as they were, the rest is free.\<close>

definition free_upto :: "u16 set \<Rightarrow> nat \<Rightarrow> blocks \<Rightarrow> block_list \<Rightarrow> blocks \<Rightarrow> bool" where
  "free_upto X i bs0 f bs \<longleftrightarrow>
     length bs = length bs0 \<and> bl_type f = list_free \<and> (\<forall>j < length bs. ring_memory (bs ! j) = ring_memory (bs0 ! j))
     \<and> (\<forall>x \<in> X. unat x < length bs0 \<longrightarrow> bs ! unat x = bs0 ! unat x)
     \<and> (\<exists>F. bchain bs (ptr_index (bl_head f)) F \<and> set F = {x. unat x < i} - X
          \<and> (\<forall>x \<in> set F. bn_type (bs ! unat x) = list_free
              \<and> bn_ring (bs ! unat x) = Some (siso_ring_buffer_new (ring_memory (bs0 ! unat x)) False)))"

lemma u16_of_nat: "i < 65536 \<Longrightarrow> unat (of_nat i :: u16) = i"
  by (simp add: unat_of_nat)

lemma u16_below_suc: "i < 65536 \<Longrightarrow> {x :: u16. unat x < i + 1} = insert (of_nat i) {x. unat x < i}"
  by (auto simp: less_Suc_eq u16_of_nat)

lemma free_upto_skip: "free_upto X i bs0 f bs \<Longrightarrow> of_nat i \<in> X \<Longrightarrow> i < 65536 \<Longrightarrow> free_upto X (i + 1) bs0 f bs"
  unfolding free_upto_def u16_below_suc by simp

lemma free_upto_add:
  assumes fr: "free_upto X i bs0 f bs" and i: "of_nat i \<notin> X" "i < length bs0" "length bs0 < 2 ^ 16"
    and pl: "placed addr sz f" and new: "block_node_head_new list_none rs False (bs ! i) = Some b"
    and ok: "ring_size_ok rs" "length (ring_memory (bs0 ! i)) = rs"
  shows "\<exists>f' bs'. bl_push (block_addr addr sz (of_nat i)) f (bs[i := b]) = Some (f', bs') \<and> placed addr sz f' \<and> free_upto X (i + 1) bs0 f' bs'"
proof -
  let ?n = "of_nat i :: u16" and ?c = "b\<lparr>bn_type := list_free, bn_next := (bn_next b)\<lparr>ptr_index := ptr_index (bl_head f)\<rparr>\<rparr>"
  let ?f = "f\<lparr>bl_head := \<lparr>ptr_index = ?n, ptr_mark = ptr_mark (bl_head f) + 1\<rparr>\<rparr>"
  obtain F where F: "bchain bs (ptr_index (bl_head f)) F" "set F = {x. unat x < i} - X"
      "\<forall>x \<in> set F. bn_type (bs ! unat x) = list_free
        \<and> bn_ring (bs ! unat x) = Some (siso_ring_buffer_new (ring_memory (bs0 ! unat x)) False)"
    and len: "length bs = length bs0" "bl_type f = list_free"
    and keep: "\<forall>j < length bs. ring_memory (bs ! j) = ring_memory (bs0 ! j)" "\<forall>x \<in> X. unat x < length bs0 \<longrightarrow> bs ! unat x = bs0 ! unat x"
    using fr unfolding free_upto_def by blast
  have n: "unat ?n = i" using i by (intro u16_of_nat) simp
  have nF: "?n \<notin> set F" using F(2) n by simp
  have b: "bn_ring b = Some (siso_ring_buffer_new (ring_memory (bs0 ! i)) False)" "ring_memory b = ring_memory (bs0 ! i)"
    using new block_new_run(2) [OF ok(1), of "bs ! i" list_none] ok(2) keep(1) len(1) i(2) by auto
  have push: "bl_push (block_addr addr sz ?n) f (bs[i := b]) = Some (?f, bs[i := ?c])"
    using bl_push_run [OF placed_size [OF pl], of ?n "bs[i := b]"] placed_head [OF pl] n len i(2) by simp
  have other: "bs[i := ?c] ! unat x = bs ! unat x" if "x \<noteq> ?n" for x :: u16 using that n by (metis nth_list_update_neq u16_inject)
  have "bchain (bs[i := ?c]) (ptr_index (bl_head f)) F" using bchain_update_other [OF nF, of bs ?c] F(1) n by simp
  then have "bchain (bs[i := ?c]) (ptr_index (bl_head ?f)) (?n # F)" using n i(2) len by simp
  moreover have "set (?n # F) = {x. unat x < i + 1} - X" using i F(2) u16_below_suc [of i] by auto
  moreover have "bn_type (bs[i := ?c] ! unat x) = list_free
      \<and> bn_ring (bs[i := ?c] ! unat x) = Some (siso_ring_buffer_new (ring_memory (bs0 ! unat x)) False)" if "x \<in> set (?n # F)" for x
  proof (cases "x = ?n")
    case True
    then show ?thesis using n b i(2) len by simp
  next
    case False
    then show ?thesis using that F(3) other by simp
  qed
  moreover have "\<forall>x \<in> X. unat x < length bs0 \<longrightarrow> bs[i := ?c] ! unat x = bs0 ! unat x" using keep(2) i(1) other by metis
  moreover have "\<forall>j < length bs. ring_memory (bs[i := ?c] ! j) = ring_memory (bs0 ! j)" using keep(1) b(2) i(2) len(1) by (simp add: nth_list_update)
  ultimately have "free_upto X (i + 1) bs0 ?f (bs[i := ?c])" using len unfolding free_upto_def
    by (intro conjI exI [of _ "?n # F"]) (simp_all del: bchain.simps list.set)
  moreover have "placed addr sz ?f" using pl by (simp add: placed_def)
  ultimately show ?thesis using push by blast
qed

lemma init_free_run:
  assumes stage: "placed addr sz (gd_stage g)" and maps: "marks_ok k um" "marks_ok k' sm"
    and X: "\<And>x. x \<in> X \<longleftrightarrow> hm_abs um (block_addr addr sz x) \<noteq> None \<or> hm_abs sm (block_addr addr sz x) \<noteq> None"
    and len: "length bs0 = unat mx" "unat mx < 65535"
    and sizes: "\<And>b. b \<in> set bs0 \<Longrightarrow> length (ring_memory b) = rs" "ring_size_ok rs"
    and fr: "free_upto X i bs0 (gd_free g) bs" and pf: "placed addr sz (gd_free g)" and i: "i \<le> unat mx"
  shows "\<exists>g' bs'. init_free rs um sm mx i g bs = Some (g', bs') \<and> gd_used g' = gd_used g \<and> gd_stage g' = gd_stage g
    \<and> placed addr sz (gd_free g') \<and> free_upto X (unat mx) bs0 (gd_free g') bs'"
  using stage fr pf i
proof (induction "unat mx - i" arbitrary: i g bs)
  case 0
  then show ?case by (subst init_free.simps) simp
next
  case (Suc d)
  then have lt: "i < unat mx" and d: "d = unat mx - (i + 1)" by simp_all
  have head: "get_block_head_by_index (gd_stage g) (of_nat i) = block_addr addr sz (of_nat i)" by (rule placed_head [OF Suc.prems(1)])
  note cont = marks_contains [OF maps(1)] marks_contains [OF maps(2)]
  show ?case
  proof (cases "of_nat i \<in> X")
    case True
    have "free_upto X (i + 1) bs0 (gd_free g) bs" using free_upto_skip [OF Suc.prems(2) True] lt len by simp
    from Suc.hyps(1) [OF d Suc.prems(1) this Suc.prems(3)] lt show ?thesis
      using True X by (subst init_free.simps) (auto simp: Let_def head cont)
  next
    case False
    have mem: "length (ring_memory (bs0 ! i)) = rs" using sizes(1) lt len by simp
    have bm: "length bs = length bs0" "ring_memory (bs ! i) = ring_memory (bs0 ! i)" using Suc.prems(2) lt len unfolding free_upto_def by auto
    obtain b where b: "block_node_head_new list_none rs False (bs ! i) = Some b"
      using block_new_run(2) [OF sizes(2), of "bs ! i" list_none] bm mem by simp
    obtain f' bs' where p: "bl_push (block_addr addr sz (of_nat i)) (gd_free g) (bs[i := b]) = Some (f', bs')" "placed addr sz f'"
        "free_upto X (i + 1) bs0 f' bs'"
      using free_upto_add [OF Suc.prems(2) False _ _ Suc.prems(3) b] lt len mem sizes(2) by auto
    have n: "unat (of_nat i :: u16) = i" using lt len by (intro u16_of_nat) simp
    have at: "block_at (gd_stage g) bs (block_addr addr sz (of_nat i)) = Some (bs ! i)"
        "\<And>f. set_block (gd_stage g) (block_addr addr sz (of_nat i)) f bs = Some (bs[i := f (bs ! i)])"
      using placed_at(1,2) [OF Suc.prems(1), where i = "of_nat i" and bs = bs] lt len bm(1) n by simp_all
    have "init_free rs um sm mx i g bs = init_free rs um sm mx (i + 1) (g\<lparr>gd_free := f'\<rparr>) bs'"
      using False X lt at b p(1) mem bm(2) by (subst init_free.simps) (simp add: Let_def head cont)
    then show ?thesis using Suc.hyps(1) [OF d, of "g\<lparr>gd_free := f'\<rparr>" bs'] Suc.prems(1) p(2,3) lt by simp
  qed
qed

section \<open>Constructing the lists\<close>

text \<open>The arguments of the constructor; the contents of the lists and blocks are arbitrary.\<close>

definition list_place_ok :: "nat \<Rightarrow> u16 \<Rightarrow> nat \<Rightarrow> nat \<Rightarrow> block_list \<Rightarrow> bool" where
  "list_place_ok data_offset mx addr data_size l \<longleftrightarrow>
     addr mod QLOG_CACHE_LINE_SIZE = 0 \<and> bl_this l \<le> addr \<and> addr - bl_this l \<le> 0xFFFF \<and> 0 < unat mx \<and> unat mx < 65535
     \<and> data_offset < size_per_block mx data_size"

definition list_consistent :: "u16 \<Rightarrow> nat \<Rightarrow> nat \<Rightarrow> block_list \<Rightarrow> bool" where
  "list_consistent mx addr data_size l \<longleftrightarrow>
     max_blocks_count l = mx \<and> bl_this l + unat (bl_offset l) = addr \<and> buffer_size_per_block l = size_per_block mx data_size"

lemma reset_run:
  assumes "list_place_ok off mx addr dsz l"
  shows "\<exists>l'. bl_reset off mx addr dsz l = Some l' \<and> placed addr (size_per_block mx dsz) l' \<and> bl_type l' = bl_type l
    \<and> ptr_index (bl_head l') = - 1"
proof -
  have "unat (of_nat (addr - bl_this l) :: u16) = addr - bl_this l" using assms by (intro u16_of_nat) (simp add: list_place_ok_def)
  moreover have "mx \<noteq> 0" using assms by (auto simp: list_place_ok_def)
  ultimately show ?thesis using assms by (auto simp: bl_reset_def list_place_ok_def placed_def Let_def)
qed

lemma try_recover_run:
  assumes "list_place_ok off mx addr dsz l" "length bs = unat mx"
  shows "\<exists>r. try_recover_list off mx addr dsz l bs = Some r
    \<and> (\<forall>l'. r = Some l' \<longrightarrow> placed addr (size_per_block mx dsz) l' \<and> bl_type l' = bl_type l \<and> bl_head l' = bl_head l
        \<and> (\<exists>xs. typed_chain l' bs (ptr_index (bl_head l')) xs))
    \<and> (list_consistent mx addr dsz l \<longrightarrow> recover_list_loop l bs (bl_head l) 0 = Some True \<longrightarrow> r \<noteq> None)"
proof (cases "max_blocks_count l = mx \<and> unat (bl_offset l) = addr - bl_this l \<and> buffer_size_per_block l = size_per_block mx dsz")
  case True
  have p: "addr - bl_this l \<le> 0xFFFF" "mx \<noteq> 0" "off < size_per_block mx dsz" "unat mx < 65535" "bl_this l \<le> addr"
    using assms(1) by (auto simp: list_place_ok_def)
  obtain r where r: "recover_list_loop l bs (bl_head l) 0 = Some r" "r \<longrightarrow> (\<exists>xs. typed_chain l bs (ptr_index (bl_head l)) xs)"
    using recover_loop_total [of l bs 0 "bl_head l"] True p(4) assms(2) by auto
  then show ?thesis using True p
    by (cases r) (auto simp: try_recover_list_def Let_def typed_chain_def placed_def)
next
  case False
  then have "\<not> list_consistent mx addr dsz l" using assms(1) by (auto simp: list_consistent_def list_place_ok_def)
  moreover have "mx \<noteq> 0" using assms(1) by (auto simp: list_place_ok_def)
  ultimately show ?thesis using False assms(1) by (auto simp: try_recover_list_def Let_def list_place_ok_def)
qed

lemma list_new_run:
  assumes "list_place_ok off mx addr dsz l" "length bs = unat mx"
  shows "\<exists>l' xs. block_list_new off ty mx addr dsz rec l bs = Some l' \<and> placed addr (size_per_block mx dsz) l' \<and> bl_type l' = ty
    \<and> typed_chain l' bs (ptr_index (bl_head l')) xs \<and> (\<not> rec \<longrightarrow> xs = [])
    \<and> (rec \<longrightarrow> list_consistent mx addr dsz l \<longrightarrow> recover_list_loop (l\<lparr>bl_type := ty\<rparr>) bs (bl_head l) 0 = Some True \<longrightarrow> bl_head l' = bl_head l)"
proof -
  let ?l = "l\<lparr>bl_type := ty\<rparr>"
  have ok: "list_place_ok off mx addr dsz ?l" using assms(1) by (simp add: list_place_ok_def)
  have al: "addr mod QLOG_CACHE_LINE_SIZE = 0" using assms(1) by (simp add: list_place_ok_def)
  have empty: "typed_chain l' bs (ptr_index (bl_head l')) []" if "ptr_index (bl_head l') = - 1" for l' using that by (simp add: typed_chain_def)
  obtain l0 where l0: "bl_reset off mx addr dsz ?l = Some l0" "placed addr (size_per_block mx dsz) l0" "bl_type l0 = ty" "ptr_index (bl_head l0) = - 1"
    using reset_run [OF ok] by auto
  obtain r where r: "try_recover_list off mx addr dsz ?l bs = Some r"
      "\<And>l'. r = Some l' \<Longrightarrow> placed addr (size_per_block mx dsz) l' \<and> bl_type l' = ty \<and> bl_head l' = bl_head l
        \<and> (\<exists>xs. typed_chain l' bs (ptr_index (bl_head l')) xs)"
      "list_consistent mx addr dsz ?l \<longrightarrow> recover_list_loop ?l bs (bl_head l) 0 = Some True \<longrightarrow> r \<noteq> None"
    using try_recover_run [OF ok assms(2)] by auto
  have cons: "list_consistent mx addr dsz ?l = list_consistent mx addr dsz l" by (simp add: list_consistent_def)
  show ?thesis
  proof (cases "rec \<and> r \<noteq> None")
    case True
    then obtain l' where l': "r = Some l'" by blast
    then show ?thesis using True r(1) r(2) [OF l'] al by (auto simp: block_list_new_def Let_def)
  next
    case False
    then show ?thesis using l0 r(1,3) al empty [OF l0(4)] cons
      by (intro exI [of _ l0] exI [of _ "[]"]) (auto simp: block_list_new_def Let_def)
  qed
qed

section \<open>The constructor\<close>

definition group_memory_ok :: "nat \<Rightarrow> u16 \<Rightarrow> nat \<Rightarrow> nat \<Rightarrow> group_data_head \<Rightarrow> blocks \<Rightarrow> bool" where
  "group_memory_ok off mx addr dsz g bs \<longleftrightarrow>
     list_place_ok off mx addr dsz (gd_used g) \<and> list_place_ok off mx addr dsz (gd_free g) \<and> list_place_ok off mx addr dsz (gd_stage g)
     \<and> length bs = unat mx \<and> ring_size_ok (dsz div unat mx - off) \<and> ring_size_ok (size_per_block mx dsz - off)
     \<and> (\<forall>b \<in> set bs. length (ring_memory b) = dsz div unat mx - off \<and> storage_ok (ring_memory b)
          \<and> storage_ok (take (size_per_block mx dsz - off) (ring_memory b)))"

definition lists_partition :: "group_data_head \<Rightarrow> blocks \<Rightarrow> u16 list \<Rightarrow> u16 list \<Rightarrow> u16 list \<Rightarrow> bool" where
  "lists_partition g bs U F S \<longleftrightarrow>
     bchain bs (ptr_index (bl_head (gd_used g))) U \<and> bchain bs (ptr_index (bl_head (gd_free g))) F
     \<and> bchain bs (ptr_index (bl_head (gd_stage g))) S
     \<and> (\<forall>x \<in> set U. bn_type (bs ! unat x) = list_used) \<and> (\<forall>x \<in> set F. bn_type (bs ! unat x) = list_free)
     \<and> (\<forall>x \<in> set S. bn_type (bs ! unat x) = list_stage)
     \<and> distinct (U @ F @ S) \<and> set (U @ F @ S) = {x. unat x < length bs}"

lemma restored_fields [simp]:
  "bn_next (restored n b) = bn_next b" "bn_type (restored n b) = bn_type b" "ring_memory (restored n b) = ring_memory b"
  "bn_ring (restored n b) = Some (siso_ring_buffer_new (take n (ring_memory b)) True)"
  by (simp_all add: restored_def)

text \<open>What the two calls of \<open>recovery_blocks\<close> leave of the blocks.\<close>

lemma recover_both:
  assumes u: "placed addr sz u" "bchain bs (ptr_index (bl_head u)) U" and s: "placed addr sz s" "bchain bs (ptr_index (bl_head s)) S"
    and len: "length bs < 2 ^ 16" and ok: "\<And>b. b \<in> set bs \<Longrightarrow> n \<le> length (ring_memory b)" and n: "sz - off = n" "ring_size_ok n" and disj: "set U \<inter> set S = {}"
  shows "\<exists>bs1 bs2. recovery_blocks off u bs = Some bs1 \<and> recovery_blocks off s bs1 = Some bs2 \<and> length bs2 = length bs
    \<and> (\<forall>x :: u16. unat x < length bs \<longrightarrow> bs2 ! unat x = (if x \<in> set U \<union> set S then restored n (bs ! unat x) else bs ! unat x))"
proof -
  obtain bs1 where bs1: "recovery_blocks off u bs = Some bs1" "length bs1 = length bs"
      "\<And>j. j < length bs \<Longrightarrow> bs1 ! j = (if j \<in> unat ` set U then restored n (bs ! j) else bs ! j)"
    using recovery_blocks_run [OF placed_size [OF u(1)] u(2) len ok _ n(2), of off] u(1) n(1) unfolding placed_def by blast
  have 1: "bchain bs1 (ptr_index (bl_head s)) S"
    using s(2) bchain_in_range [OF s(2)] bs1(2,3) by (subst bchain_cong [of S bs1 bs]) auto
  have 2: "n \<le> length (ring_memory b)" if b: "b \<in> set bs1" for b
  proof -
    obtain j where j: "j < length bs" "b = bs1 ! j" using b bs1(2) by (auto simp: in_set_conv_nth)
    then show ?thesis using ok [OF nth_mem [OF j(1)]] bs1(3) [OF j(1)] by auto
  qed
  obtain bs2 where bs2: "recovery_blocks off s bs1 = Some bs2" "length bs2 = length bs"
      "\<And>j. j < length bs \<Longrightarrow> bs2 ! j = (if j \<in> unat ` set S then restored n (bs1 ! j) else bs1 ! j)"
    using recovery_blocks_run [OF placed_size [OF s(1)] 1 _ 2 _ n(2), of off] len bs1(2) s(1) n(1) unfolding placed_def by auto
  have "bs2 ! unat x = (if x \<in> set U \<union> set S then restored n (bs ! unat x) else bs ! unat x)" if "unat x < length bs" for x :: u16
  proof -
    have "unat x \<in> unat ` A \<longleftrightarrow> x \<in> A" for A by auto
    then show ?thesis using that bs1(3) bs2(3) disj by auto
  qed
  then show ?thesis using bs1(1) bs2(1,2) by blast
qed

text \<open>The recovery part: the maps hold the blocks of the two lists, no link is broken, and the blocks are restored.\<close>

lemma recover_part_run:
  assumes u: "placed addr sz u" "bl_type u = list_used" "typed_chain u bs (ptr_index (bl_head u)) U"
    and s: "placed addr sz s" "bl_type s = list_stage" "typed_chain s bs (ptr_index (bl_head s)) S"
    and len: "length bs < 2 ^ 16" and ok: "\<And>b. b \<in> set bs \<Longrightarrow> n \<le> length (ring_memory b)" and n: "sz - off = n" "ring_size_ok n"
    and maps: "marks_ok 0 um" "hm_abs um = Map.empty" "marks_ok 0 sm" "hm_abs sm = Map.empty"
  shows "\<exists>um' sm' bs' k k'. recover_part off u s um sm bs = Some (um', s, bs', sm') \<and> marks_ok k um' \<and> marks_ok k' sm'
    \<and> (\<forall>x. x \<in> set U \<union> set S \<longleftrightarrow> hm_abs um' (block_addr addr sz x) \<noteq> None \<or> hm_abs sm' (block_addr addr sz x) \<noteq> None)
    \<and> length bs' = length bs
    \<and> (\<forall>x :: u16. unat x < length bs \<longrightarrow> bs' ! unat x = (if x \<in> set U \<union> set S then restored n (bs ! unat x) else bs ! unat x))"
proof -
  have chU: "bchain bs (ptr_index (bl_head u)) U" and tU: "\<And>x. x \<in> set U \<Longrightarrow> bn_type (bs ! unat x) = list_used"
    and chS: "bchain bs (ptr_index (bl_head s)) S" and tS: "\<And>x. x \<in> set S \<Longrightarrow> bn_type (bs ! unat x) = list_stage"
    using u(2,3) s(2,3) by (auto simp: typed_chain_def)
  have disj: "set U \<inter> set S = {}" using tU tS by fastforce
  have small: "length xs < 2 ^ 17" if "bchain bs i xs" for xs i
  proof -
    have "length xs = card (set xs)" using bchain_distinct [OF len that] by (simp add: distinct_card)
    also have "\<dots> \<le> card (UNIV :: u16 set)" by (rule card_mono) simp_all
    finally show ?thesis by (simp add: card_word)
  qed
  obtain um' where um: "collect_used u bs (bl_first u) um = Some um'" "marks_ok (length U) um'"
      "\<And>p. hm_abs um' p \<noteq> None \<longleftrightarrow> p \<in> block_addr addr sz ` set U"
    using collect_used_run [OF u(1) chU len maps(1)] small [OF chU] maps(2) by (auto simp: bl_first_def)
  have sz: "0 < sz" using u(1) by (simp add: placed_def)
  have mem: "block_addr addr sz x \<in> block_addr addr sz ` A \<longleftrightarrow> x \<in> A" for x A using block_addr_inject [OF sz] by auto
  have "hm_abs um' (block_addr addr sz x) = None" if "x \<in> set S" for x using um(3) mem that disj by blast
  then obtain sm' where sm: "collect_stage um' s bs (bl_first s) sm = Some (s, bs, sm')" "marks_ok (length S) sm'"
      "\<And>p. hm_abs sm' p \<noteq> None \<longleftrightarrow> p \<in> block_addr addr sz ` set S"
    using collect_stage_run [OF s(1) chS len maps(3) _ um(2)] small [OF chS] maps(4) by (auto simp: bl_first_def)
  obtain bs1 bs2 where bs: "recovery_blocks off u bs = Some bs1" "recovery_blocks off s bs1 = Some bs2" "length bs2 = length bs"
      "\<forall>x :: u16. unat x < length bs \<longrightarrow> bs2 ! unat x = (if x \<in> set U \<union> set S then restored n (bs ! unat x) else bs ! unat x)"
    using recover_both [OF u(1) chU s(1) chS len ok n disj] by blast
  have "recover_part off u s um sm bs = Some (um', s, bs2, sm')" using um(1) sm(1) bs(1,2) by (simp add: recover_part_def)
  moreover have "x \<in> set U \<union> set S \<longleftrightarrow> hm_abs um' (block_addr addr sz x) \<noteq> None \<or> hm_abs sm' (block_addr addr sz x) \<noteq> None" for x
    by (simp only: um(3) sm(3) mem Un_iff)
  ultimately show ?thesis using um(2) sm(2) bs(3,4) by blast
qed

lemma partition_finish:
  assumes u: "bl_type u = list_used" "typed_chain u bs (ptr_index (bl_head u)) U"
    and s: "bl_type s = list_stage" "typed_chain s bs (ptr_index (bl_head s)) S" and len: "length bs < 2 ^ 16" "length bs1 = length bs"
    and bs1: "\<And>x :: u16. unat x < length bs \<Longrightarrow> bs1 ! unat x = (if x \<in> set U \<union> set S then restored n (bs ! unat x) else bs ! unat x)"
    and fr: "free_upto (set U \<union> set S) (length bs) bs1 f bs'" and g: "gd_used g = u" "gd_free g = f" "gd_stage g = s"
  shows "\<exists>F. length bs' = length bs \<and> lists_partition g bs' U F S
    \<and> (\<forall>x \<in> set U \<union> set S. bn_ring (bs' ! unat x) = Some (siso_ring_buffer_new (take n (ring_memory (bs ! unat x))) True))
    \<and> (\<forall>x \<in> set F. bn_ring (bs' ! unat x) = Some (siso_ring_buffer_new (ring_memory (bs ! unat x)) False))"
proof -
  have ch: "bchain bs (ptr_index (bl_head u)) U" "bchain bs (ptr_index (bl_head s)) S"
    and t: "\<And>x. x \<in> set U \<Longrightarrow> bn_type (bs ! unat x) = list_used" "\<And>x. x \<in> set S \<Longrightarrow> bn_type (bs ! unat x) = list_stage"
    using u s by (auto simp: typed_chain_def)
  have r: "unat x < length bs" if "x \<in> set U \<union> set S" for x using that ch bchain_in_range by blast
  obtain F where F: "bchain bs' (ptr_index (bl_head f)) F" "set F = {x. unat x < length bs} - (set U \<union> set S)"
      "\<And>x. x \<in> set F \<Longrightarrow> bn_type (bs' ! unat x) = list_free
        \<and> bn_ring (bs' ! unat x) = Some (siso_ring_buffer_new (ring_memory (bs1 ! unat x)) False)"
    and len': "length bs' = length bs" and keep: "\<forall>x \<in> set U \<union> set S. unat x < length bs1 \<longrightarrow> bs' ! unat x = bs1 ! unat x"
    using fr len(2) unfolding free_upto_def by auto
  have old: "bs' ! unat x = restored n (bs ! unat x)" if "x \<in> set U \<union> set S" for x using that keep r [OF that] bs1 [of x] len(2) by simp
  have ch': "bchain bs' i xs \<longleftrightarrow> bchain bs i xs" if "set xs \<subseteq> set U \<union> set S" for i xs
    by (rule bchain_cong) (use that old len' in auto)
  have new: "ring_memory (bs1 ! unat x) = ring_memory (bs ! unat x)" if "x \<in> set F" for x using that F(2) bs1 by auto
  have "distinct U" "distinct S" using bchain_distinct [OF len(1)] ch by blast+
  moreover have "distinct F" using bchain_distinct [of bs'] F(1) len len' by simp
  moreover have "set U \<inter> set S = {}" using t by fastforce
  ultimately have "distinct (U @ F @ S)" using F(2) by auto
  moreover have "set (U @ F @ S) = {x. unat x < length bs'}" using F(2) r len' by auto
  moreover have "bchain bs' (ptr_index (bl_head u)) U" "bchain bs' (ptr_index (bl_head s)) S" using ch ch' by auto
  ultimately have "lists_partition g bs' U F S" using F(1,3) t old g unfolding lists_partition_def by auto
  then show ?thesis using old F(3) new len' by (intro exI [of _ F]) auto
qed

lemma group_new_run:
  assumes mem: "group_memory_ok off mx addr dsz g bs"
  shows "\<exists>g' bs' U F S. group_data_head_new off ma mx addr dsz rec g bs = Some (g', bs') \<and> length bs' = length bs \<and> lists_partition g' bs' U F S
    \<and> (\<not> rec \<longrightarrow> U = [] \<and> S = [])
    \<and> (\<forall>x \<in> set U \<union> set S. bn_ring (bs' ! unat x) = Some (siso_ring_buffer_new (take (size_per_block mx dsz - off) (ring_memory (bs ! unat x))) True))
    \<and> (\<forall>x \<in> set F. bn_ring (bs' ! unat x) = Some (siso_ring_buffer_new (ring_memory (bs ! unat x)) False))
    \<and> bchain bs (ptr_index (bl_head (gd_used g'))) U \<and> bchain bs (ptr_index (bl_head (gd_stage g'))) S
    \<and> (rec \<longrightarrow> list_consistent mx addr dsz (gd_used g)
        \<longrightarrow> recover_list_loop (gd_used g\<lparr>bl_type := list_used\<rparr>) bs (bl_head (gd_used g)) 0 = Some True
        \<longrightarrow> bl_head (gd_used g') = bl_head (gd_used g))
    \<and> (rec \<longrightarrow> list_consistent mx addr dsz (gd_stage g)
        \<longrightarrow> recover_list_loop (gd_stage g\<lparr>bl_type := list_stage\<rparr>) bs (bl_head (gd_stage g)) 0 = Some True
        \<longrightarrow> bl_head (gd_stage g') = bl_head (gd_stage g))"
proof -
  let ?sz = "size_per_block mx dsz" and ?rs = "dsz div unat mx - off" and ?n = "size_per_block mx dsz - off"
  have place: "list_place_ok off mx addr dsz (gd_used g)" "list_place_ok off mx addr dsz (gd_free g)" "list_place_ok off mx addr dsz (gd_stage g)"
    and len: "length bs = unat mx" "unat mx < 65535" and sizes: "\<And>b. b \<in> set bs \<Longrightarrow> length (ring_memory b) = ?rs" "ring_size_ok ?rs" "ring_size_ok ?n"
    using mem by (auto simp: group_memory_ok_def list_place_ok_def)
  have len16: "length bs < 2 ^ 16" using len by simp
  obtain u U where u: "block_list_new off list_used mx addr dsz rec (gd_used g) bs = Some u" "placed addr ?sz u" "bl_type u = list_used"
      "typed_chain u bs (ptr_index (bl_head u)) U" "\<not> rec \<longrightarrow> U = []"
      "rec \<longrightarrow> list_consistent mx addr dsz (gd_used g)
        \<longrightarrow> recover_list_loop (gd_used g\<lparr>bl_type := list_used\<rparr>) bs (bl_head (gd_used g)) 0 = Some True \<longrightarrow> bl_head u = bl_head (gd_used g)"
    using list_new_run [OF place(1) len(1)] by blast
  obtain f F0 where f: "block_list_new off list_free mx addr dsz False (gd_free g) bs = Some f" "placed addr ?sz f" "bl_type f = list_free"
      "typed_chain f bs (ptr_index (bl_head f)) F0" "F0 = []" using list_new_run [OF place(2) len(1), of list_free False] by blast
  obtain s S where s: "block_list_new off list_stage mx addr dsz rec (gd_stage g) bs = Some s" "placed addr ?sz s" "bl_type s = list_stage"
      "typed_chain s bs (ptr_index (bl_head s)) S" "\<not> rec \<longrightarrow> S = []"
      "rec \<longrightarrow> list_consistent mx addr dsz (gd_stage g)
        \<longrightarrow> recover_list_loop (gd_stage g\<lparr>bl_type := list_stage\<rparr>) bs (bl_head (gd_stage g)) 0 = Some True \<longrightarrow> bl_head s = bl_head (gd_stage g)"
    using list_new_run [OF place(3) len(1)] by blast
  obtain um sm where m: "hash_map_new pointer_hash_code (fst ma) 0 = Some um" "marks_ok 0 um" "hm_abs um = Map.empty"
      "hash_map_new pointer_hash_code (snd ma) 0 = Some sm" "marks_ok 0 sm" "hm_abs sm = Map.empty" using marks_new by metis
  have "?n \<le> ?rs" by (simp add: size_per_block_def Let_def)
  then have ok: "?n \<le> length (ring_memory b)" if "b \<in> set bs" for b using sizes(1) that by simp
  let ?X = "set U \<union> set S"
  let ?mid = "if rec then recover_part off u s um sm bs else Some (um, s, bs, sm)"
  obtain um' sm' bs1 k k' where mid: "?mid = Some (um', s, bs1, sm')" "marks_ok k um'" "marks_ok k' sm'" "length bs1 = length bs"
      "\<And>x. x \<in> ?X \<longleftrightarrow> hm_abs um' (block_addr addr ?sz x) \<noteq> None \<or> hm_abs sm' (block_addr addr ?sz x) \<noteq> None"
      "\<And>x :: u16. unat x < length bs \<Longrightarrow> bs1 ! unat x = (if x \<in> ?X then restored ?n (bs ! unat x) else bs ! unat x)"
  proof (cases rec)
    case True
    then show thesis using recover_part_run [OF u(2,3,4) s(2,3,4) len16 ok refl sizes(3) m(2,3,5,6)] that by auto
  next
    case False
    then show thesis using that [of um bs sm 0 0] u(5) s(5) m by simp
  qed
  let ?g = "\<lparr>gd_used = u, gd_free = f, gd_stage = s\<rparr>"
  have mem1: "length (ring_memory b) = ?rs" if b: "b \<in> set bs1" for b
  proof -
    obtain j where j: "j < length bs" "b = bs1 ! j" using b mid(4) by (auto simp: in_set_conv_nth)
    have "unat (of_nat j :: u16) = j" using j(1) len by (intro u16_of_nat) simp
    then show ?thesis using mid(6) [of "of_nat j"] j sizes(1) [OF nth_mem [OF j(1)]] by auto
  qed
  have "free_upto ?X 0 bs1 f bs1" using f(3,4,5) unfolding free_upto_def typed_chain_def by auto
  with init_free_run [of addr ?sz ?g k um' k' sm' ?X bs1 mx ?rs 0 bs1] s(2) f(2) mid(2-5) len mem1 sizes(2)
  obtain g' bs' where r: "init_free ?rs um' sm' mx 0 ?g bs1 = Some (g', bs')" "gd_used g' = u" "gd_stage g' = s"
      "free_upto ?X (unat mx) bs1 (gd_free g') bs'" by auto
  have "group_data_head_new off ma mx addr dsz rec g bs = Some (g', bs')"
    using u(1) f(1) s(1) m(1,4) mid(1) r(1) by (cases rec) (simp_all add: group_data_head_new_def)
  moreover obtain F where "length bs' = length bs" "lists_partition g' bs' U F S"
    "\<forall>x \<in> ?X. bn_ring (bs' ! unat x) = Some (siso_ring_buffer_new (take (size_per_block mx dsz - off) (ring_memory (bs ! unat x))) True)"
    "\<forall>x \<in> set F. bn_ring (bs' ! unat x) = Some (siso_ring_buffer_new (ring_memory (bs ! unat x)) False)"
    using partition_finish [OF u(3,4) s(3,4) len16 mid(4,6), of "gd_free g'" bs' g'] r len(1) by auto
  ultimately show ?thesis using u(4-6) s(4-6) r(2,3) unfolding typed_chain_def by blast
qed

section \<open>Properties\<close>

lemma siso_new_empty: "storage_ok st \<Longrightarrow> siso_contents (siso_ring_buffer_new st False) = []"
  using siso_contents_inv [OF init_with_memory_inv(1)] by (simp add: siso_ring_buffer_new_def)

text \<open>
  Property C8. The constructor of a group of fewer than 65535 blocks, over any content of its memory and in both modes: it
  ends, no assertion fails, each block comes out in exactly one of the used, free and stage lists and has the type of its list, every ring is
  well-formed and the rings of free blocks are empty. Without recovery all blocks are free.
\<close>

theorem group_blocks_partitioned:
  assumes "group_memory_ok off mx addr dsz g bs"
  shows "\<exists>g' bs' U F S. group_data_head_new off ma mx addr dsz rec g bs = Some (g', bs') \<and> lists_partition g' bs' U F S
    \<and> (\<not> rec \<longrightarrow> U = [] \<and> S = [])
    \<and> (\<forall>x \<in> set U \<union> set S. \<exists>r. bn_ring (bs' ! unat x) = Some r \<and> siso_invar r)
    \<and> (\<forall>x \<in> set F. \<exists>r. bn_ring (bs' ! unat x) = Some r \<and> siso_invar r \<and> siso_contents r = [])"
proof -
  obtain g' bs' U F S where r: "group_data_head_new off ma mx addr dsz rec g bs = Some (g', bs')" "length bs' = length bs"
      "lists_partition g' bs' U F S" "\<not> rec \<longrightarrow> U = [] \<and> S = []"
      "\<forall>x \<in> set U \<union> set S. bn_ring (bs' ! unat x) = Some (siso_ring_buffer_new (take (size_per_block mx dsz - off) (ring_memory (bs ! unat x))) True)"
      "\<forall>x \<in> set F. bn_ring (bs' ! unat x) = Some (siso_ring_buffer_new (ring_memory (bs ! unat x)) False)"
    using group_new_run [OF assms, of ma rec] by blast
  have "storage_ok (ring_memory (bs ! unat x)) \<and> storage_ok (take (size_per_block mx dsz - off) (ring_memory (bs ! unat x)))" if "x \<in> set (U @ F @ S)" for x
  proof -
    have "set (U @ F @ S) = {x. unat x < length bs'}" using r(3) unfolding lists_partition_def by blast
    then have "unat x < length bs" using that r(2) by auto
    then show ?thesis using assms unfolding group_memory_ok_def by (meson nth_mem)
  qed
  then show ?thesis using r siso_new_invar siso_new_empty
    by (intro exI [of _ g'] exI [of _ bs'] exI [of _ U] exI [of _ F] exI [of _ S]) auto
qed

text \<open>Two blocks whose memory is all zero, as a new file has it: the lists of garbage in it are rejected.\<close>

definition demo_list :: "nat \<Rightarrow> block_list" where
  "demo_list a = \<lparr>bl_this = a, bl_head = \<lparr>ptr_index = 0, ptr_mark = 0\<rparr>, bl_offset = 0, max_blocks_count = 2,
     buffer_size_per_block = 0, data_range_start = 0, data_range_end = 0, bl_type = list_none\<rparr>"

definition demo_group :: group_data_head where
  "demo_group = \<lparr>gd_used = demo_list 0, gd_free = demo_list 128, gd_stage = demo_list 256\<rparr>"

definition demo_block :: block_node_head where
  "demo_block = \<lparr>bn_next = \<lparr>ptr_index = 0, ptr_mark = 0\<rparr>, bn_type = list_none, misc_data = replicate 120 0,
     ring_memory = replicate 1536 0, bn_ring = None\<rparr>"

lemma demo_group_ok: "group_memory_ok 640 2 384 4352 demo_group [demo_block, demo_block]"
proof -
  have b: "blocks_in 1536 = 128" by (simp add: blocks_in_def grow_count.simps)
  moreover have "roundup_pow_of_two 1536 = 2048" by (simp add: roundup_pow_of_two_def roundup_loop.simps)
  ultimately have "ring_size_ok 1536" by (simp add: ring_size_ok_def)
  with b show ?thesis
    by (simp add: group_memory_ok_def list_place_ok_def demo_group_def demo_list_def demo_block_def size_per_block_def
        QLOG_CACHE_LINE_SIZE_def storage_ok_def)
qed

theorem group_blocks_partitioned_witness:
  "\<exists>g' bs' U F S. group_data_head_new 640 (0, 0) 2 384 4352 True demo_group [demo_block, demo_block] = Some (g', bs')
    \<and> lists_partition g' bs' U F S"
  using group_blocks_partitioned [OF demo_group_ok, of "(0, 0)" True] by blast

text \<open>What a run leaves in the memory of the blocks. A ring that was itself recovered may be built on a part of it.\<close>

definition saved_block :: "block_node_head \<Rightarrow> block_node_head" where
  "saved_block b = b\<lparr>ring_memory := mem_write (ring_memory b) 0 (siso_storage (the (bn_ring b))), bn_ring := None\<rparr>"

definition ring_running :: "nat \<Rightarrow> block_node_head \<Rightarrow> bool" where
  "ring_running n b \<longleftrightarrow> (\<exists>r. bn_ring b = Some r \<and> siso_invar r \<and> n \<le> length (siso_storage r)
     \<and> length (siso_storage r) \<le> length (ring_memory b) \<and> blocks_in n = cnt r)"

text \<open>A ring does not depend on the memory behind its last block.\<close>

lemma chunk_at_take:
  assumes "chunk_at m n i p" "i < n" "8 * n \<le> l"
  shows "chunk_at (take l m) n i p"
proof -
  have f: "fits n i (length p)" using assms(1) by (simp add: chunk_at_def)
  have r: "mem_read (take l m) a k = mem_read m a k" if "a + k \<le> l" for a k using that by (simp add: mem_read_def drop_take min_absorb2)
  have "payload_off n i (length p) + length p \<le> l" using payload_in_range [OF assms(2) f] assms(3) by simp
  then show ?thesis using assms r [of "8 * i" 4] r [of "8 * i + 4" 4] r by (simp add: chunk_at_def load_u32_def)
qed

lemma chunks_at_take: "chunks_at m n i ps \<Longrightarrow> i < n \<Longrightarrow> 8 * n \<le> l \<Longrightarrow> chunks_at (take l m) n i ps"
  by (induction ps arbitrary: i) (simp_all add: chunk_at_take)

lemma siso_inv_take:
  assumes "siso_inv s ps qs" "8 * cnt s \<le> l"
  shows "siso_inv (s\<lparr>data_bytes := take l (data_bytes s)\<rparr>) ps qs"
  using assms chunks_at_take [of "data_bytes s" "cnt s" "ridx s" "ps @ qs" l] ridx_less [OF siso_invD(1) [OF assms(1)]]
  by (simp add: siso_inv_def geometry_ok_def ridx_def)

lemma take_storage: "head_size \<le> n \<Longrightarrow> take n (siso_storage s) = siso_storage (s\<lparr>data_bytes := take (n - head_size) (data_bytes s)\<rparr>)"
proof -
  assume n: "head_size \<le> n"
  obtain h where h: "\<And>d. siso_storage (s\<lparr>data_bytes := d\<rparr>) = h @ d"
    by (rule that [of "le_bytes 4 (aligned_blocks_count_cache (head s)) @ le_bytes 4 (rtr s) @ le_bytes 4 (rtw s)
     @ replicate 116 0 @ le_bytes 4 (wtr s) @ le_bytes 4 (wt_writing_cursor_cache (head s))
     @ replicate 120 0 @ le_bytes 4 (rc s) @ replicate 124 0 @ le_bytes 4 (wc s) @ replicate 124 0"]) (simp add: siso_storage_def)
  have "length h = head_size" using siso_storage_fields(1) [of "s\<lparr>data_bytes := []\<rparr>"] by (simp add: h)
  moreover have "siso_storage s = h @ data_bytes s" using h [of "data_bytes s"] by simp
  ultimately show ?thesis using n by (simp add: h)
qed

lemma saved_chain:
  assumes "bchain bs i xs"
  shows "bchain (map saved_block bs) i xs"
  using bchain_cong [of xs "map saved_block bs" bs i] bchain_in_range [OF assms] assms by (simp add: saved_block_def)

lemma saved_accepts:
  assumes "bchain bs (ptr_index (bl_head l)) xs" "\<And>x. x \<in> set xs \<Longrightarrow> bn_type (bs ! unat x) = ty"
    and "length bs = unat (max_blocks_count l)" "length bs < 65535"
  shows "recover_list_loop (l\<lparr>bl_type := ty\<rparr>) (map saved_block bs) (bl_head l) 0 = Some True"
proof (rule recover_loop_accepts)
  note r = bchain_in_range [OF assms(1)]
  show "typed_chain (l\<lparr>bl_type := ty\<rparr>) (map saved_block bs) (ptr_index (bl_head l)) xs"
    using saved_chain [OF assms(1)] assms(2) r by (simp add: typed_chain_def saved_block_def)
  show "x < max_blocks_count (l\<lparr>bl_type := ty\<rparr>)" if "x \<in> set xs" for x using r [OF that] assms(3) by (simp add: word_less_nat_alt)
  have "length xs = card (unat ` set xs)"
    using bchain_distinct [OF _ assms(1)] assms(4) by (simp add: card_image inj_on_def distinct_card)
  also have "\<dots> \<le> card {..<length bs}" by (rule card_mono) (use r in auto)
  finally show "unat (0 :: u16) + length xs \<le> unat (max_blocks_count (l\<lparr>bl_type := ty\<rparr>))" using assms(3) by simp
qed

lemma recovered_contents:
  assumes "ring_running n b" "storage_ok (take n (ring_memory (saved_block b)))"
  shows "siso_contents (siso_ring_buffer_new (take n (ring_memory (saved_block b))) True) = siso_contents (the (bn_ring b))"
proof -
  obtain r ps qs where r: "bn_ring b = Some r" "siso_inv r ps qs" "n \<le> length (siso_storage r)" "length (siso_storage r) \<le> length (ring_memory b)"
      "blocks_in n = cnt r" using assms(1) by (auto simp: ring_running_def siso_invar_def)
  let ?r = "r\<lparr>data_bytes := take (n - head_size) (data_bytes r)\<rparr>"
  have st: "take n (ring_memory (saved_block b)) = take n (siso_storage r)" using r(1,3,4) by (simp add: saved_block_def mem_write_def)
  have len: "length (take n (siso_storage r)) = n" using r(3) by simp
  have ok: "storage_ok (take n (siso_storage r))" using assms(2) st by simp
  have h: "head_size \<le> n" using ok len by (simp add: storage_ok_def)
  have "8 * cnt r \<le> n - head_size" using storage_blocks(3) [OF ok] len r(5) by simp
  then have i: "siso_inv ?r ps qs" using siso_inv_take [OF r(2)] by blast
  have t: "take n (siso_storage r) = siso_storage ?r" by (rule take_storage [OF h])
  obtain r' where "try_recover_from_exist_memory_map (siso_storage ?r) = Some r'" "siso_inv r' (ps @ qs) []"
    using recover_complete [OF i] ok len r(5) t by auto
  then have "siso_contents (siso_ring_buffer_new (siso_storage ?r) True) = ps @ qs"
    using siso_contents_inv [of r' "ps @ qs" "[]"] by (simp add: siso_ring_buffer_new_def)
  then show ?thesis using r(1) siso_contents_inv [OF r(2)] unfolding st t by simp
qed

text \<open>
  Property C7. Recovery of a group. From the memory that a run of a group of fewer than 65535 blocks left, with its blocks partitioned into the three lists, a
  new run takes over the used and the stage list in their order, and each of their blocks holds the payloads that were
  not read yet, in order; the blocks that were free are free again.
\<close>

theorem group_recovery_roundtrip:
  assumes part: "lists_partition g bs U F S" and mem: "group_memory_ok off mx addr dsz g (map saved_block bs)"
    and con: "list_consistent mx addr dsz (gd_used g)" "list_consistent mx addr dsz (gd_stage g)"
    and run: "\<forall>x \<in> set U \<union> set S. ring_running (size_per_block mx dsz - off) (bs ! unat x)"
  shows "\<exists>g' bs' F'. group_data_head_new off ma mx addr dsz True g (map saved_block bs) = Some (g', bs')
    \<and> lists_partition g' bs' U F' S \<and> set F' = set F
    \<and> (\<forall>x \<in> set U \<union> set S. \<exists>r. bn_ring (bs' ! unat x) = Some r \<and> siso_contents r = siso_contents (the (bn_ring (bs ! unat x))))"
proof -
  let ?bs = "map saved_block bs" and ?n = "size_per_block mx dsz - off"
  have len: "length bs = unat mx" "unat mx < 65535" and st: "\<And>x :: u16. unat x < length bs \<Longrightarrow> storage_ok (take ?n (ring_memory (saved_block (bs ! unat x))))"
    using mem by (auto simp: group_memory_ok_def list_place_ok_def)
  have ch: "bchain bs (ptr_index (bl_head (gd_used g))) U" "bchain bs (ptr_index (bl_head (gd_stage g))) S"
    and t: "\<And>x. x \<in> set U \<Longrightarrow> bn_type (bs ! unat x) = list_used" "\<And>x. x \<in> set S \<Longrightarrow> bn_type (bs ! unat x) = list_stage"
    and d: "distinct (U @ F @ S)" "set (U @ F @ S) = {x. unat x < length bs}"
    using part unfolding lists_partition_def by blast+
  have acc: "recover_list_loop (gd_used g\<lparr>bl_type := list_used\<rparr>) ?bs (bl_head (gd_used g)) 0 = Some True"
      "recover_list_loop (gd_stage g\<lparr>bl_type := list_stage\<rparr>) ?bs (bl_head (gd_stage g)) 0 = Some True"
    using saved_accepts [OF ch(1) t(1)] saved_accepts [OF ch(2) t(2)] len con by (simp_all add: list_consistent_def)
  obtain g' bs' U' F' S' where r: "group_data_head_new off ma mx addr dsz True g ?bs = Some (g', bs')" "length bs' = length bs"
      "lists_partition g' bs' U' F' S'"
      "\<forall>x \<in> set U' \<union> set S'. bn_ring (bs' ! unat x) = Some (siso_ring_buffer_new (take ?n (ring_memory (?bs ! unat x))) True)"
      "bchain ?bs (ptr_index (bl_head (gd_used g))) U'" "bchain ?bs (ptr_index (bl_head (gd_stage g))) S'"
    using group_new_run [OF mem, of ma True] acc con by fastforce
  have US: "U' = U" "S' = S"
    using bchain_unique [of ?bs, OF _ r(5) saved_chain [OF ch(1)]] bchain_unique [of ?bs, OF _ r(6) saved_chain [OF ch(2)]] len by simp_all
  have d': "distinct (U @ F' @ S)" "set (U @ F' @ S) = {x. unat x < length bs}" using r(2,3) US unfolding lists_partition_def by auto
  have "set F' = set (U @ F' @ S) - (set U \<union> set S)" "set F = set (U @ F @ S) - (set U \<union> set S)" using d(1) d'(1) by auto
  then have F: "set F' = set F" using d(2) d'(2) by simp
  have "\<exists>r. bn_ring (bs' ! unat x) = Some r \<and> siso_contents r = siso_contents (the (bn_ring (bs ! unat x)))" if "x \<in> set U \<union> set S" for x
  proof -
    have x: "unat x < length bs" using that d(2) by auto
    have "siso_contents (siso_ring_buffer_new (take ?n (ring_memory (saved_block (bs ! unat x)))) True) = siso_contents (the (bn_ring (bs ! unat x)))"
      using recovered_contents st [OF x] run that by blast
    then show ?thesis using r(4) US that x by simp
  qed
  then show ?thesis using r(1,3) US F by blast
qed

text \<open>Two blocks: the first in the used list with one unread payload, the second free.\<close>

definition demo_used_ring :: siso_ring_buffer where
  "demo_used_ring =
     \<lparr>head = \<lparr>aligned_blocks_count_cache = 128, rt_reading_cursor_cache = 0, rt_writing_cursor_cache = 0,
        wt_reading_cursor_cache = 0, wt_writing_cursor_cache = 2, reading_cursor = 0, writing_cursor = 2\<rparr>,
      aligned_blocks_count = 128, is_memory_recovery = True, mmap_buffer_state = init_with_memmap,
      data_bytes = [2, 0, 0, 0, 3, 0, 0, 0, 7, 8, 9] @ replicate 1013 0\<rparr>"

definition demo_old_block :: "block_list_type \<Rightarrow> block_node_head" where
  "demo_old_block t = \<lparr>bn_next = \<lparr>ptr_index = - 1, ptr_mark = 0\<rparr>, bn_type = t, misc_data = replicate 120 0, ring_memory = replicate 1536 0,
     bn_ring = Some demo_used_ring\<rparr>"

definition demo_old_list :: "nat \<Rightarrow> u16 \<Rightarrow> block_list_type \<Rightarrow> block_list" where
  "demo_old_list a i t = \<lparr>bl_this = a, bl_head = \<lparr>ptr_index = i, ptr_mark = 1\<rparr>, bl_offset = of_nat (384 - a), max_blocks_count = 2,
     buffer_size_per_block = 2176, data_range_start = 384, data_range_end = 4736, bl_type = t\<rparr>"

definition demo_old_group :: group_data_head where
  "demo_old_group = \<lparr>gd_used = demo_old_list 0 0 list_used, gd_free = demo_old_list 128 1 list_free, gd_stage = demo_old_list 256 (- 1) list_stage\<rparr>"

lemma demo_used_inv: "siso_inv demo_used_ring [] [[7, 8, 9]]"
proof -
  have "(128 :: nat) = 2 ^ 7" by simp
  then have g: "geometry_ok demo_used_ring" unfolding geometry_ok_def by (intro conjI exI [of _ 7]) (simp_all add: demo_used_ring_def)
  moreover have "load_u32 (data_bytes demo_used_ring) 0 = 2" "load_u32 (data_bytes demo_used_ring) 4 = 3"
    by (simp_all add: load_u32_def mem_read_def demo_used_ring_def)
  moreover have "mem_read (data_bytes demo_used_ring) 8 3 = [7, 8, 9]" by (simp add: mem_read_def demo_used_ring_def)
  ultimately have "chunk_at (data_bytes demo_used_ring) 128 0 [7, 8, 9]" 
    by (simp add: chunk_at_def need_def wraps_def fits_def payload_off_def numeral_3_eq_3)
  with g show ?thesis by (simp add: siso_inv_def ridx_def need_def wraps_def) (simp add: demo_used_ring_def need_def wraps_def)
qed

lemma demo_old_ok:
  defines "bs \<equiv> [demo_old_block list_used, demo_old_block list_free]"
  shows "lists_partition demo_old_group bs [0] [1] []" "group_memory_ok 640 2 384 4352 demo_old_group (map saved_block bs)"
    "list_consistent 2 384 4352 (gd_used demo_old_group)" "list_consistent 2 384 4352 (gd_stage demo_old_group)"
    "ring_running 1536 (demo_old_block list_used)"
proof -
  have two: "unat x < 2 \<longleftrightarrow> x = 0 \<or> x = 1" for x :: u16
  proof -
    have "unat x < 2 \<longleftrightarrow> unat x = unat (0 :: u16) \<or> unat x = unat (1 :: u16)" by auto
    then show ?thesis by (simp only: u16_inject)
  qed
  show "lists_partition demo_old_group bs [0] [1] []"
    by (auto simp: lists_partition_def bs_def demo_old_group_def demo_old_list_def demo_old_block_def two numeral_2_eq_2 [symmetric])
  have len: "length (siso_storage demo_used_ring) = 1536" using siso_storage_fields(1) [of demo_used_ring] by (simp add: demo_used_ring_def)
  have b: "blocks_in 1536 = 128" by (simp add: blocks_in_def grow_count.simps)
  have "roundup_pow_of_two 1536 = 2048" by (simp add: roundup_pow_of_two_def roundup_loop.simps)
  with b have "ring_size_ok 1536" by (simp add: ring_size_ok_def)
  then show "group_memory_ok 640 2 384 4352 demo_old_group (map saved_block bs)"
    by (simp add: group_memory_ok_def list_place_ok_def demo_old_group_def demo_old_list_def bs_def demo_old_block_def saved_block_def
        size_per_block_def QLOG_CACHE_LINE_SIZE_def storage_ok_def len b)
  show "list_consistent 2 384 4352 (gd_used demo_old_group)" "list_consistent 2 384 4352 (gd_stage demo_old_group)"
    by (simp_all add: list_consistent_def demo_old_group_def demo_old_list_def size_per_block_def QLOG_CACHE_LINE_SIZE_def)
  show "ring_running 1536 (demo_old_block list_used)"
    using demo_used_inv len b by (auto simp: ring_running_def demo_old_block_def siso_invar_def demo_used_ring_def)
qed

theorem group_recovery_roundtrip_witness:
  "\<exists>g' bs' F'. group_data_head_new 640 (0, 0) 2 384 4352 True demo_old_group
      (map saved_block [demo_old_block list_used, demo_old_block list_free]) = Some (g', bs')
    \<and> lists_partition g' bs' [0] F' [] \<and> (\<exists>r. bn_ring (bs' ! 0) = Some r \<and> siso_contents r = [[7, 8, 9]])"
proof -
  have c: "siso_contents demo_used_ring = [[7, 8, 9]]" using siso_contents_inv [OF demo_used_inv] by simp
  have "\<forall>x \<in> set [0 :: u16] \<union> set []. ring_running (size_per_block 2 4352 - 640) ([demo_old_block list_used, demo_old_block list_free] ! unat x)"
    using demo_old_ok(5) by (simp add: size_per_block_def QLOG_CACHE_LINE_SIZE_def)
  from group_recovery_roundtrip [OF demo_old_ok(1-4) this, of "(0, 0)"] show ?thesis
    by (auto simp: c demo_old_block_def)
qed

end
