(* ===== verification/Qlog_Strings.thy ===== *)
theory Qlog_Strings
  imports Main
begin

text \<open>
  The string helpers of \<open>src/src/utility/string_utils.cpp\<close> and the search and replacement of
  \<open>src/src/config/property.cpp\<close>. A \<open>std::string\<close> is a list of characters; the character classes are those of the
  \<open>"C"\<close> locale.
\<close>

section \<open>The operations\<close>

definition LF :: char where "LF = CHR 0x0A"
definition CR :: char where "CR = CHR 0x0D"
definition TAB :: char where "TAB = CHR 0x09"
definition BSL :: char where "BSL = CHR 0x5C"

definition isspace :: "char \<Rightarrow> bool" where
  "isspace c \<longleftrightarrow> c \<in> {CHR '' '', CHR 0x09, CHR 0x0A, CHR 0x0B, CHR 0x0C, CHR 0x0D}"

text \<open>The two loops of \<open>trim\<close> move \<open>first\<close> and \<open>last\<close> inwards.\<close>

function trim_first :: "string \<Rightarrow> nat \<Rightarrow> nat \<Rightarrow> nat" where
  "trim_first s i j = (if i < j \<and> isspace (s ! i) then trim_first s (i + 1) j else i)"
  by pat_completeness auto
termination by (relation "measure (\<lambda>(s, i, j). j - i)") auto

fun trim_last :: "string \<Rightarrow> nat \<Rightarrow> nat \<Rightarrow> nat" where
  "trim_last s i j = (if i < j \<and> isspace (s ! (j - 1)) then trim_last s i (j - 1) else j)"

declare trim_first.simps [simp del] trim_last.simps [simp del]

definition substr :: "string \<Rightarrow> nat \<Rightarrow> nat \<Rightarrow> string" where
  "substr s pos n = take n (drop pos s)"

definition trim :: "string \<Rightarrow> string" where
  "trim value =
     (let first = trim_first value 0 (length value);
          last = trim_last value first (length value)
      in substr value first (last - first))"

text \<open>\<open>value.find(c, i)\<close>; \<open>None\<close> is \<open>npos\<close>.\<close>

function find_char :: "string \<Rightarrow> char \<Rightarrow> nat \<Rightarrow> nat option" where
  "find_char s c i = (if i < length s then if s ! i = c then Some i else find_char s c (i + 1) else None)"
  by pat_completeness auto
termination by (relation "measure (\<lambda>(s, c, i). length s - i)") auto

declare find_char.simps [simp del]

lemma find_char_bounds: "find_char s c i = Some j \<Longrightarrow> i \<le> j \<and> j < length s"
proof (induction s c i rule: find_char.induct)
  case (1 s c i)
  then show ?case by (subst (asm) (2) find_char.simps) (auto split: if_splits)
qed

function split_loop :: "string \<Rightarrow> char \<Rightarrow> nat \<Rightarrow> string list" where
  "split_loop value delimiter first =
     (case find_char value delimiter first of
        None \<Rightarrow> if first < length value then [drop first value] else []
      | Some found \<Rightarrow>
          (if found > first then [substr value first (found - first)] else []) @ split_loop value delimiter (found + 1))"
  by pat_completeness auto
termination by (relation "measure (\<lambda>(s, c, i). length s - i)") (auto dest: find_char_bounds)

declare split_loop.simps [simp del]

definition split_nonempty :: "string \<Rightarrow> char \<Rightarrow> string list" where
  "split_nonempty value delimiter = split_loop value delimiter 0"

definition toupper :: "char \<Rightarrow> nat" where
  "toupper c = (let n = of_char c in if 97 \<le> n \<and> n \<le> 122 then n - 32 else n)"

definition equals_ignore_case :: "string \<Rightarrow> string \<Rightarrow> bool" where
  "equals_ignore_case value expected \<longleftrightarrow>
     length value = length expected \<and> list_all2 (\<lambda>l r. l = r \<or> toupper l = toupper r) value expected"

text \<open>\<open>value.find(from, cursor)\<close> for a string, and the replacement loop. \<open>pat\<close> is not empty.\<close>

function find_str :: "string \<Rightarrow> string \<Rightarrow> nat \<Rightarrow> nat option" where
  "find_str s pat i =
     (if i + length pat \<le> length s then if substr s i (length pat) = pat then Some i else find_str s pat (i + 1) else None)"
  by pat_completeness auto
termination by (relation "measure (\<lambda>(s, pat, i). length s + 1 - i)") auto

declare find_str.simps [simp del]

lemma find_str_bounds: "find_str s pat i = Some j \<Longrightarrow> i \<le> j \<and> j + length pat \<le> length s"
proof (induction s pat i rule: find_str.induct)
  case (1 s pat i)
  then show ?case by (subst (asm) (2) find_str.simps) (auto split: if_splits)
qed

function replace_loop :: "string \<Rightarrow> string \<Rightarrow> string \<Rightarrow> nat \<Rightarrow> string" where
  "replace_loop value pat to cursor =
     (case find_str value pat cursor of
        None \<Rightarrow> drop cursor value
      | Some found \<Rightarrow>
          if pat = [] then []
          else substr value cursor (found - cursor) @ to @ replace_loop value pat to (found + length pat))"
  by pat_completeness auto
termination
proof (relation "measure (\<lambda>(s, f, t, i). length s - i)")
  fix s f t :: string and i j
  assume "find_str s f i = Some j" "f \<noteq> []"
  then show "((s, f, t, j + length f), s, f, t, i) \<in> measure (\<lambda>(s, f, t, i). length s - i)"
    using find_str_bounds [of s f i j] by (cases f) auto
qed simp

declare replace_loop.simps [simp del]

definition replace_all :: "string \<Rightarrow> string \<Rightarrow> string \<Rightarrow> string" where
  "replace_all value pat to = replace_loop value pat to 0"

section \<open>What they compute\<close>

text \<open>A string without spaces at its ends is not changed.\<close>

definition trimmed :: "string \<Rightarrow> bool" where
  "trimmed s \<longleftrightarrow> s = [] \<or> \<not> isspace (hd s) \<and> \<not> isspace (last s)"

lemma trim_trimmed:
  assumes "trimmed s"
  shows "trim s = s"
proof (cases "s = []")
  case True
  then show ?thesis by (simp add: trim_def substr_def)
next
  case False
  then have "\<not> isspace (s ! 0)" "\<not> isspace (s ! (length s - 1))" using assms by (auto simp: trimmed_def hd_conv_nth last_conv_nth)
  then have "trim_first s 0 (length s) = 0" "trim_last s 0 (length s) = length s"
    using trim_first.simps [of s 0 "length s"] trim_last.simps [of s 0 "length s"] by simp_all
  then show ?thesis by (simp add: trim_def substr_def)
qed

text \<open>Searching from an index is searching the rest.\<close>

lemma find_char_drop: "i \<le> length s \<Longrightarrow> find_char s c i = map_option ((+) i) (find_char (drop i s) c 0)"
proof (induction "length s - i" arbitrary: s i)
  case 0
  then show ?case by (simp add: find_char.simps)
next
  case (Suc n)
  then have i: "i < length s" by simp
  have ih: "find_char s c (i + 1) = map_option ((+) (i + 1)) (find_char (drop (i + 1) s) c 0)" using Suc i by (intro Suc.hyps(1)) auto
  have "find_char (drop i s) c 1 = map_option ((+) 1) (find_char (drop 1 (drop i s)) c 0)" using Suc i by (intro Suc.hyps(1)) auto
  then show ?case using i ih by (subst (1 2) find_char.simps) (auto simp: option.map_comp comp_def intro!: option.map_cong)
qed

lemma find_char_none: "c \<notin> set l \<Longrightarrow> find_char l c i = None"
  by (induction l c i rule: find_char.induct) (subst find_char.simps, auto dest: nth_mem)

lemma find_char_first:
  assumes "c \<notin> set l"
  shows "i \<le> length l \<Longrightarrow> find_char (l @ c # r) c i = Some (length l)"
proof (induction "length l - i" arbitrary: i)
  case (Suc n)
  then have i: "i < length l" by simp
  have "l ! i \<noteq> c" using assms nth_mem [OF i] by auto
  moreover have "find_char (l @ c # r) c (i + 1) = Some (length l)" using Suc by simp
  ultimately show ?case using i by (subst find_char.simps) (simp add: nth_append)
qed (subst find_char.simps, simp)

lemma split_loop_drop: "i \<le> length s \<Longrightarrow> split_loop s c i = split_nonempty (drop i s) c"
proof (induction "length s - i" arbitrary: s i rule: less_induct)
  case less
  show ?case
  proof (cases "find_char (drop i s) c 0")
    case None
    then show ?thesis using less(2) find_char_drop [OF less(2), of c] unfolding split_nonempty_def
      by (subst (1 2) split_loop.simps) simp
  next
    case (Some j)
    then have j: "j < length (drop i s)" using find_char_bounds by blast
    have f: "find_char s c i = Some (i + j)" using find_char_drop [OF less(2)] Some by simp
    have 1: "split_loop s c (i + j + 1) = split_nonempty (drop (i + j + 1) s) c" using j by (intro less(1)) auto
    have 2: "split_loop (drop i s) c (j + 1) = split_nonempty (drop (j + 1) (drop i s)) c"
    proof (cases "i = 0")
      case True
      then show ?thesis using 1 by simp
    next
      case False
      then show ?thesis using j by (intro less(1)) auto
    qed
    show ?thesis unfolding split_nonempty_def using f Some 1 2
      by (subst (1 2) split_loop.simps) (simp add: substr_def split_nonempty_def add.commute add.left_commute)
  qed
qed

lemma split_piece: "c \<notin> set l \<Longrightarrow> split_nonempty (l @ c # r) c = (if l = [] then [] else [l]) @ split_nonempty r c"
  using split_loop_drop [of "length l + 1" "l @ c # r" c]
  by (subst split_nonempty_def, subst split_loop.simps) (simp add: find_char_first substr_def)

lemma split_last: "c \<notin> set l \<Longrightarrow> split_nonempty l c = (if l = [] then [] else [l])"
  by (subst split_nonempty_def, subst split_loop.simps) (simp add: find_char_none)

lemma split_lines: "(\<And>l. l \<in> set ls \<Longrightarrow> c \<notin> set l \<and> l \<noteq> []) \<Longrightarrow> split_nonempty (concat (map (\<lambda>l. l @ [c]) ls)) c = ls"
  by (induction ls) (auto simp: split_piece split_last)

section \<open>Replacement\<close>

lemma find_str_drop:
  assumes "pat \<noteq> []"
  shows "i \<le> length s \<Longrightarrow> find_str s pat i = map_option ((+) i) (find_str (drop i s) pat 0)"
proof (induction "length s - i" arbitrary: s i)
  case 0
  then show ?case using assms by (subst (1 2) find_str.simps) (auto simp: substr_def)
next
  case (Suc n)
  then have i: "i < length s" by simp
  have ih: "find_str s pat (i + 1) = map_option ((+) (i + 1)) (find_str (drop (i + 1) s) pat 0)" using Suc i by (intro Suc.hyps(1)) auto
  have "find_str (drop i s) pat 1 = map_option ((+) 1) (find_str (drop 1 (drop i s)) pat 0)" using Suc i by (intro Suc.hyps(1)) auto
  then show ?case using i ih by (subst (1 2) find_str.simps) (auto simp: option.map_comp comp_def substr_def intro!: option.map_cong)
qed

lemma replace_loop_drop:
  assumes "pat \<noteq> []"
  shows "i \<le> length s \<Longrightarrow> replace_loop s pat to i = replace_all (drop i s) pat to"
proof (induction "length s - i" arbitrary: s i rule: less_induct)
  case less
  show ?case
  proof (cases "find_str (drop i s) pat 0")
    case None
    then show ?thesis using find_str_drop [OF assms less(2)] unfolding replace_all_def by (subst (1 2) replace_loop.simps) simp
  next
    case (Some j)
    then have j: "j + length pat \<le> length (drop i s)" using find_str_bounds by blast
    obtain k where p: "length pat = Suc k" using assms by (cases pat) auto
    have f: "find_str s pat i = Some (i + j)" using find_str_drop [OF assms less(2)] Some by simp
    have 1: "replace_loop s pat to (i + j + length pat) = replace_all (drop (i + j + length pat) s) pat to" using j p less(2) by (intro less(1)) auto
    have 2: "replace_loop (drop i s) pat to (j + length pat) = replace_all (drop (j + length pat) (drop i s)) pat to"
    proof (cases "i = 0")
      case True
      then show ?thesis using 1 by simp
    next
      case False
      then show ?thesis using j p less(2) by (intro less(1)) auto
    qed
    have "drop (i + (j + length pat)) s = drop (j + length pat) (drop i s)" by (simp add: add.commute)
    then show ?thesis unfolding replace_all_def [of "drop i s"] using f Some 1 2 assms
      by (subst (1 2) replace_loop.simps) (simp add: substr_def add.assoc)
  qed
qed

text \<open>The replacement, one character at a time.\<close>

lemma replace_all_Nil [simp]: "pat \<noteq> [] \<Longrightarrow> replace_all [] pat to = []"
  by (simp add: replace_all_def replace_loop.simps find_str.simps)

lemma replace_all_hit:
  assumes "pat \<noteq> []" "s = pat @ r"
  shows "replace_all s pat to = to @ replace_all r pat to"
proof -
  have "find_str s pat 0 = Some 0" using assms by (subst find_str.simps) (simp add: substr_def)
  then show ?thesis using assms replace_loop_drop [OF assms(1), of "length pat" s to]
    by (simp add: replace_all_def replace_loop.simps [of "pat @ r" pat to 0] substr_def)
qed

lemma replace_all_miss:
  assumes "pat \<noteq> []" "take (length pat) (x # s) \<noteq> pat"
  shows "replace_all (x # s) pat to = x # replace_all s pat to"
proof (cases "find_str s pat 0")
  case None
  have "find_str (x # s) pat 0 = None"
  proof (cases "length pat \<le> length (x # s)")
    case True
    then show ?thesis using assms find_str_drop [OF assms(1), of 1 "x # s"] None by (subst find_str.simps) (simp add: substr_def)
  next
    case False
    then show ?thesis by (subst find_str.simps) simp
  qed
  then show ?thesis using None by (simp add: replace_all_def replace_loop.simps)
next
  case (Some j)
  have "length pat \<le> length (x # s)" using find_str_bounds [OF Some] by simp
  then have f: "find_str (x # s) pat 0 = Some (Suc j)"
    using assms find_str_drop [OF assms(1), of 1 "x # s"] Some by (subst find_str.simps) (simp add: substr_def)
  have b: "j + length pat \<le> length s" using find_str_bounds [OF Some] by simp
  have "replace_loop (x # s) pat to (Suc j + length pat) = replace_all (drop (j + length pat) s) pat to"
    "replace_loop s pat to (j + length pat) = replace_all (drop (j + length pat) s) pat to"
    using replace_loop_drop [OF assms(1), of "Suc j + length pat" "x # s" to] replace_loop_drop [OF assms(1), of "j + length pat" s to] b
    by (simp_all add: drop_Cons')
  then show ?thesis using f Some assms(1) by (simp add: replace_all_def replace_loop.simps [of _ pat to 0] substr_def)
qed

lemma replace_all_two:
  "replace_all (x # s) [a, b] to = (if x = a \<and> s \<noteq> [] \<and> hd s = b then to @ replace_all (tl s) [a, b] to else x # replace_all s [a, b] to)"
proof (cases s)
  case Nil
  then show ?thesis by (simp add: replace_all_miss)
next
  case (Cons y r)
  then show ?thesis using replace_all_hit [of "[a, b]" "x # s" r to] replace_all_miss [of "[a, b]" x s to] by auto
qed

lemma replace_all_one: "replace_all s [a] [] = filter (\<lambda>c. c \<noteq> a) s"
proof (induction s)
  case (Cons x s)
  then show ?case using replace_all_hit [of "[a]" "x # s" s "[]"] replace_all_miss [of "[a]" x s "[]"] by auto
qed simp

lemma replace_all_absent: "a \<notin> set s \<Longrightarrow> replace_all s [a, b] to = s"
  by (induction s) (auto simp: replace_all_two)

end
