(* ===== verification/Qlog_Property.thy ===== *)
theory Qlog_Property
  imports Qlog_Strings Qlog_Hash_Map_Props
begin

text \<open>
  The property text of \<open>src/src/config/property.cpp\<close>: lines \<open>key=value\<close> with escapes, comments and continued lines,
  read into and written from a hash map of strings. The map is the hash map of \<open>Qlog_Hash_Map\<close>, so the order of the lines
  written is the order of its iteration. \<open>None\<close> is a fault inside the map.
\<close>

section \<open>The class\<close>

definition text_hash_code :: "string \<Rightarrow> u64" where
  "text_hash_code s = string_hash_code (map of_char s)"

record property =
  properties :: "(string, string) hash_map"
  key_list :: "string list"

definition property_new :: "nat \<Rightarrow> property option" where
  "property_new addr = map_option (\<lambda>m. \<lparr>properties = m, key_list = []\<rparr>) (hash_map_new text_hash_code addr 0)"

definition property_set :: "string \<Rightarrow> string \<Rightarrow> property \<Rightarrow> property option" where
  "property_set key default_value p = do {
     it \<leftarrow> hm_find text_hash_code key (properties p);
     let p = (if iterator_eq it (end_iterator (properties p)) then p\<lparr>key_list := key_list p @ [key]\<rparr> else p);
     m \<leftarrow> hm_put text_hash_code '''' key default_value (properties p);
     Some (p\<lparr>properties := m\<rparr>)
   }"

definition property_get :: "string \<Rightarrow> string \<Rightarrow> property \<Rightarrow> string option" where
  "property_get key default_value p = do {
     it \<leftarrow> hm_find text_hash_code key (properties p);
     if iterator_eq it (end_iterator (properties p)) then Some default_value
     else map_option snd (iterator_entry (properties p) it)
   }"

section \<open>Writing\<close>

definition escape_char :: "char \<Rightarrow> string" where
  "escape_char c = (if c = LF then [BSL, CHR ''n''] else if c = CHR ''='' then [BSL, CHR ''='']
     else if c = CHR '':'' then [BSL, CHR '':''] else [c])"

definition escape :: "string \<Rightarrow> string" where
  "escape value = concat (map escape_char value)"

definition entry_line :: "string \<times> string \<Rightarrow> string" where
  "entry_line e = fst e @ ''='' @ escape (snd e)"

definition property_serialize :: "property \<Rightarrow> string option" where
  "property_serialize p = do {
     it \<leftarrow> begin_iterator (properties p);
     items \<leftarrow> hm_items it (properties p);
     Some (concat (map (\<lambda>e. entry_line e @ [LF]) items))
   }"

section \<open>Reading\<close>

text \<open>The search for a separator that is neither at an end of the line nor escaped.\<close>

function find_split_loop :: "string \<Rightarrow> char \<Rightarrow> nat \<Rightarrow> string list" where
  "find_split_loop line split_char i =
     (if i + 1 < length line
      then if line ! i = split_char \<and> line ! (i - 1) \<noteq> BSL
           then [trim (take i line), trim (drop (i + 1) line)]
           else find_split_loop line split_char (i + 1)
      else [])"
  by pat_completeness auto
termination by (relation "measure (\<lambda>(line, c, i). length line - i)") auto

declare find_split_loop.simps [simp del]

definition find_split :: "string \<Rightarrow> char \<Rightarrow> string list" where
  "find_split line split_char = find_split_loop line split_char 1"

text \<open>The loop over continued lines: the finished value, if any, and the lines not used.\<close>

fun join_lines :: "string \<Rightarrow> string list \<Rightarrow> string option \<times> string list" where
  "join_lines value [] = ((if value \<noteq> [] \<and> last value = BSL then None else Some value), [])"
| "join_lines value (l # ls) =
     (if value \<noteq> [] \<and> last value = BSL then join_lines (butlast value @ trim l) ls else (Some value, l # ls))"

lemma join_lines_shorter: "join_lines v ls = (r, rest) \<Longrightarrow> length rest \<le> length ls"
  by (induction v ls arbitrary: r rest rule: join_lines.induct) (fastforce split: if_splits)+

definition unescape :: "string \<Rightarrow> string" where
  "unescape value =
     (let value = replace_all value [BSL, CHR ''n''] [LF];
          value = replace_all value [BSL, CHR ''=''] ''=''
      in replace_all value [BSL, CHR '':''] '':'')"

text \<open>The key and the value of a line, before continuation.\<close>

definition split_line :: "string \<Rightarrow> (string \<times> string) option" where
  "split_line l =
     (let line = trim l
      in if line = [] \<or> hd line = CHR ''#'' \<or> hd line = CHR ''!'' then None
         else
           let kv = find_split line (CHR ''='');
               kv = (if length kv < 2 then find_split line (CHR '':'') else kv)
           in if length kv \<noteq> 2 then None
              else if trim (kv ! 1) = [] then None else Some (trim (kv ! 0), trim (kv ! 1)))"

function parse_lines :: "string list \<Rightarrow> (string \<times> string) list" where
  "parse_lines [] = []"
| "parse_lines (l # ls) =
     (case split_line l of
        None \<Rightarrow> parse_lines ls
      | Some (key, value) \<Rightarrow>
          (case join_lines value ls of
             (None, rest) \<Rightarrow> parse_lines rest
           | (Some value, rest) \<Rightarrow> (key, unescape value) # parse_lines rest))"
  by pat_completeness auto
termination
  by (relation "measure length") (auto simp: less_Suc_eq_le dest: join_lines_shorter [OF sym] join_lines_shorter)

declare parse_lines.simps [simp del]

definition property_parse :: "string \<Rightarrow> (string \<times> string) list" where
  "property_parse context =
     (let file_context = replace_all context [CR, LF] [LF];
          file_context = replace_all file_context [TAB] []
      in parse_lines (split_nonempty file_context LF))"

fun set_all :: "(string \<times> string) list \<Rightarrow> property \<Rightarrow> property option" where
  "set_all [] p = Some p"
| "set_all ((key, value) # vv) p = property_set key value p \<bind> set_all vv"

definition property_load :: "string \<Rightarrow> property \<Rightarrow> (bool \<times> property) option" where
  "property_load context p = map_option (\<lambda>p. (hm_size (properties p) \<noteq> 0, p)) (set_all (property_parse context) p)"

end
