(* ===== verification/Qlog_Numbers.thy ===== *)
theory Qlog_Numbers
  imports Qlog_Strings Qlog_Hash_Map
begin

text \<open>
  What the configuration uses of the standard library for numbers: \<open>strtod\<close> on text that starts with a digit, and
  \<open>snprintf\<close> with \<open>%lf\<close> and \<open>%lld\<close>. A finite \<open>double\<close> is a pair \<open>(m, e)\<close> for \<open>m * 2^e\<close>; rounding is to the nearest,
  ties to even, with the 53-bit mantissa and the exponent range of IEEE 754.
\<close>

type_synonym double = "int \<times> int"

section \<open>Digits\<close>

definition digit_char :: "nat \<Rightarrow> char" where
  "digit_char d = char_of (48 + d)"

fun nat_text :: "nat \<Rightarrow> string" where
  "nat_text n = (if n < 10 then [digit_char n] else nat_text (n div 10) @ [digit_char (n mod 10)])"

declare nat_text.simps [simp del]

definition is_digit :: "char \<Rightarrow> bool" where
  "is_digit c \<longleftrightarrow> (48 :: nat) \<le> of_char c \<and> of_char c \<le> (57 :: nat)"

definition digits_val :: "string \<Rightarrow> nat" where
  "digits_val ds = foldl (\<lambda>n c. 10 * n + (of_char c - 48)) 0 ds"

section \<open>Rounding\<close>

definition round_half_even :: "nat \<Rightarrow> nat \<Rightarrow> nat" where
  "round_half_even n d =
     (let q = n div d; r = n mod d
      in if 2 * r < d then q else if 2 * r > d then q + 1 else if even q then q else q + 1)"

text \<open>The exponent \<open>p\<close> with \<open>2^p \<le> n/d < 2^(p+1)\<close>.\<close>

definition ratio_exponent :: "nat \<Rightarrow> nat \<Rightarrow> int" where
  "ratio_exponent n d =
     (let p = int (bit_length n) - int (bit_length d)
      in if (if p \<ge> 0 then d * 2 ^ nat p \<le> n else d \<le> n * 2 ^ nat (- p)) then p else p - 1)"

text \<open>The double nearest to \<open>n/d\<close>; \<open>None\<close> is an overflow, \<open>HUGE_VAL\<close> with \<open>ERANGE\<close>.\<close>

definition to_double :: "nat \<Rightarrow> nat \<Rightarrow> double option" where
  "to_double n d =
     (if n = 0 then Some (0, 0)
      else
        (let e = max (ratio_exponent n d - 52) (- 1074);
             m = (if e \<ge> 0 then round_half_even n (d * 2 ^ nat e) else round_half_even (n * 2 ^ nat (- e)) d);
             (m, e) = (if m = 2 ^ 53 then (2 ^ 52, e + 1) else (m, e))
         in if e > 971 then None else Some (int m, e)))"

section \<open>\<open>strtod\<close>\<close>

text \<open>The digits at the front of a text, with an optional fraction and exponent: digits, exponent of ten, length.\<close>

definition scan_exponent :: "string \<Rightarrow> int \<times> nat" where
  "scan_exponent s =
     (case s of
        c # r \<Rightarrow>
          if c = CHR ''e'' \<or> c = CHR ''E''
          then
            let (sign, k) = (case r of x # _ \<Rightarrow> if x = CHR ''-'' then (- 1, 1) else if x = CHR ''+'' then (1, 1) else (1, 0) | [] \<Rightarrow> (1, 0));
                ds = takeWhile is_digit (drop k r)
            in if ds = [] then (0, 0) else (sign * int (digits_val ds), 1 + k + length ds)
          else (0, 0)
      | [] \<Rightarrow> (0, 0))"

definition scan_decimal :: "string \<Rightarrow> nat \<times> int \<times> nat" where
  "scan_decimal s =
     (let whole = takeWhile is_digit s;
          r = drop (length whole) s;
          (frac, k) = (case r of x # r' \<Rightarrow> if x = CHR ''.'' then (takeWhile is_digit r', 1 + length (takeWhile is_digit r')) else ([], 0) | [] \<Rightarrow> ([], 0));
          (ex, j) = scan_exponent (drop k r)
      in (digits_val (whole @ frac), ex - int (length frac), length whole + k + j))"

text \<open>A hexadecimal number, which the callers reject whatever its value.\<close>

definition is_hex :: "string \<Rightarrow> bool" where
  "is_hex s \<longleftrightarrow>
     (let hex = (\<lambda>c. is_digit c \<or> c \<in> set ''abcdefABCDEF'')
      in case s of
           a # b # r \<Rightarrow> a = CHR ''0'' \<and> (b = CHR ''x'' \<or> b = CHR ''X'')
             \<and> (case r of c # r' \<Rightarrow> hex c \<or> c = CHR ''.'' \<and> (case r' of c' # _ \<Rightarrow> hex c' | [] \<Rightarrow> False) | [] \<Rightarrow> False)
         | _ \<Rightarrow> False)"

text \<open>The value and the number of characters used.\<close>

definition strtod :: "string \<Rightarrow> double option \<times> nat" where
  "strtod s =
     (let (n, ex, len) = scan_decimal s
      in (if ex \<ge> 0 then to_double (n * 10 ^ nat ex) 1 else to_double n (10 ^ nat (- ex)), len))"

section \<open>\<open>snprintf\<close>\<close>

definition pad_zeros :: "nat \<Rightarrow> string \<Rightarrow> string" where
  "pad_zeros k s = replicate (k - length s) (CHR ''0'') @ s"

text \<open>\<open>%lf\<close> prints six decimals of the exact value.\<close>

definition print_double :: "double \<Rightarrow> string" where
  "print_double x =
     (let (m, e) = x; a = nat \<bar>m\<bar>;
          n = (if e \<ge> 0 then a * 2 ^ nat e * 10 ^ 6 else round_half_even (a * 10 ^ 6) (2 ^ nat (- e)))
      in (if m < 0 then ''-'' else []) @ nat_text (n div 10 ^ 6) @ ''.'' @ pad_zeros 6 (nat_text (n mod 10 ^ 6)))"

definition print_int :: "int \<Rightarrow> string" where
  "print_int i = (if i < 0 then ''-'' else []) @ nat_text (nat \<bar>i\<bar>)"

text \<open>\<open>snprintf\<close> into a buffer of \<open>sz\<close> bytes keeps one for the terminator.\<close>

definition snprintf :: "nat \<Rightarrow> string \<Rightarrow> string" where
  "snprintf sz text = take (sz - 1) text"

end
