(* ===== verification/Qlog_Property_Value.thy ===== *)
theory Qlog_Property_Value
  imports Qlog_Property Qlog_Numbers
begin

text \<open>
  The tree of configuration values of \<open>src/src/config/property_value.cpp\<close>, its access operators, the text it is written
  to and the text it is read from. An object lists the bindings of its hash map; the order in which the map iterates them
  is the parameter \<open>ord\<close> of the writer, any rearrangement of the keys. A mutable reference \<open>root[key]\<close> is an
  update of the entry. \<open>None\<close> is a failed assertion or a fault inside the map of the property text.
\<close>

section \<open>Values\<close>

datatype property_value =
    Boolean bool
  | Decimal double
  | Integral "64 word"
  | Text string
  | Array "property_value list"
  | Object "(string \<times> property_value) list"
  | Null
  | Invalid

datatype property_value_type =
    boolean_type | decimal_type | integral_type | string_type | array_type | object_type | null_type | invalid_type

fun get_type :: "property_value \<Rightarrow> property_value_type" where
  "get_type (Boolean _) = boolean_type"
| "get_type (Decimal _) = decimal_type"
| "get_type (Integral _) = integral_type"
| "get_type (Text _) = string_type"
| "get_type (Array _) = array_type"
| "get_type (Object _) = object_type"
| "get_type Null = null_type"
| "get_type Invalid = invalid_type"

fun initialize_data :: "property_value_type \<Rightarrow> property_value" where
  "initialize_data boolean_type = Boolean False"
| "initialize_data integral_type = Integral 0"
| "initialize_data decimal_type = Decimal (0, 0)"
| "initialize_data string_type = Text []"
| "initialize_data array_type = Array []"
| "initialize_data object_type = Object []"
| "initialize_data null_type = Null"
| "initialize_data invalid_type = Invalid"

text \<open>The entries of an object: the value of a key, and the map with an entry changed or appended.\<close>

definition entry_of :: "string \<Rightarrow> (string \<times> property_value) list \<Rightarrow> property_value" where
  "entry_of name es = (case map_of es name of Some v \<Rightarrow> v | None \<Rightarrow> Null)"

fun entry_update :: "string \<Rightarrow> (property_value \<Rightarrow> property_value) \<Rightarrow> (string \<times> property_value) list \<Rightarrow> (string \<times> property_value) list" where
  "entry_update name f [] = [(name, f Null)]"
| "entry_update name f ((k, v) # es) = (if k = name then (k, f v) # es else (k, v) # entry_update name f es)"

text \<open>A deep copy; the object is filled with \<open>add\<close> in the order of iteration.\<close>

fun copy_data_from :: "property_value \<Rightarrow> property_value" where
  "copy_data_from (Array xs) = Array (map copy_data_from xs)"
| "copy_data_from (Object es) = Object (map (\<lambda>(k, v). (k, copy_data_from v)) es)"
| "copy_data_from (Boolean b) = Boolean b"
| "copy_data_from (Decimal d) = Decimal d"
| "copy_data_from (Integral i) = Integral i"
| "copy_data_from (Text s) = Text s"
| "copy_data_from Null = Null"
| "copy_data_from Invalid = Invalid"

section \<open>Conversions\<close>

fun as_string :: "property_value \<Rightarrow> string option" where
  "as_string (Text s) = Some s" | "as_string _ = None"

fun as_bool :: "property_value \<Rightarrow> bool option" where
  "as_bool (Boolean b) = Some b" | "as_bool _ = None"

fun as_decimal :: "property_value \<Rightarrow> double option" where
  "as_decimal (Decimal d) = Some d" | "as_decimal _ = None"

fun as_int64 :: "property_value \<Rightarrow> 64 word option" where
  "as_int64 (Integral i) = Some i" | "as_int64 _ = None"

definition as_uint32 :: "property_value \<Rightarrow> u32 option" where
  "as_uint32 v = map_option ucast (as_int64 v)"

definition as_uint64 :: "property_value \<Rightarrow> u64 option" where
  "as_uint64 v = as_int64 v"

definition as_int32 :: "property_value \<Rightarrow> 32 word option" where
  "as_int32 v = map_option ucast (as_int64 v)"

section \<open>Assignment\<close>

text \<open>The old contents are destroyed and the new ones put in their place; a value assigned to itself stays.\<close>

definition clear_data :: "property_value \<Rightarrow> property_value" where
  "clear_data v = Null"

definition assign_copy_value :: "property_value \<Rightarrow> property_value \<Rightarrow> property_value" where
  "assign_copy_value rhs v = copy_data_from rhs"

definition assign_bool :: "bool \<Rightarrow> property_value \<Rightarrow> property_value" where
  "assign_bool b v = Boolean b"

definition assign_decimal :: "double \<Rightarrow> property_value \<Rightarrow> property_value" where
  "assign_decimal d v = Decimal d"

definition assign_integral :: "64 word \<Rightarrow> property_value \<Rightarrow> property_value" where
  "assign_integral i v = Integral i"

definition assign_string :: "string \<Rightarrow> property_value \<Rightarrow> property_value" where
  "assign_string s v = Text s"

section \<open>Access\<close>

text \<open>\<open>operator[]\<close> of a constant value, and of a value that may change.\<close>

fun pv_get :: "string \<Rightarrow> property_value \<Rightarrow> property_value" where
  "pv_get name (Object es) = entry_of name es"
| "pv_get name _ = Null"

fun pv_mut :: "string \<Rightarrow> (property_value \<Rightarrow> property_value) \<Rightarrow> property_value \<Rightarrow> property_value" where
  "pv_mut name f (Object es) = Object (entry_update name f es)"
| "pv_mut name f _ = Object (entry_update name f [])"

fun pv_get_index :: "nat \<Rightarrow> property_value \<Rightarrow> property_value" where
  "pv_get_index i (Array xs) = (if i < length xs then xs ! i else Null)"
| "pv_get_index i _ = Null"

definition array_mut :: "nat \<Rightarrow> (property_value \<Rightarrow> property_value) \<Rightarrow> property_value list \<Rightarrow> property_value list" where
  "array_mut i f xs = (let ys = xs @ replicate (i + 1 - length xs) Null in ys[i := f (ys ! i)])"

fun pv_mut_index :: "nat \<Rightarrow> (property_value \<Rightarrow> property_value) \<Rightarrow> property_value \<Rightarrow> property_value" where
  "pv_mut_index i f (Array xs) = Array (array_mut i f xs)"
| "pv_mut_index i f _ = Array (array_mut i f [])"

fun array_size :: "property_value \<Rightarrow> nat" where
  "array_size (Array xs) = length xs" | "array_size _ = 0"

fun object_size :: "property_value \<Rightarrow> nat" where
  "object_size (Object es) = length es" | "object_size _ = 0"

definition add_array_item :: "property_value \<Rightarrow> property_value \<Rightarrow> property_value" where
  "add_array_item item v = (if get_type v \<noteq> array_type then pv_mut_index 0 (\<lambda>_. item) v else pv_mut_index (array_size v) (\<lambda>_. item) v)"

definition add_object_item :: "string \<Rightarrow> property_value \<Rightarrow> property_value \<Rightarrow> property_value" where
  "add_object_item key item v = pv_mut key (\<lambda>_. item) v"

definition add_array_item_at :: "string \<Rightarrow> property_value \<Rightarrow> property_value \<Rightarrow> property_value" where
  "add_array_item_at key item v = pv_mut key (add_array_item item) v"

definition set_array :: "property_value list \<Rightarrow> property_value \<Rightarrow> property_value" where
  "set_array items v = fold add_array_item items v"

fun erase_array_item :: "nat option \<Rightarrow> property_value \<Rightarrow> property_value option" where
  "erase_array_item idx (Array xs) =
     (case idx of
        None \<Rightarrow> Some (Array [])
      | Some i \<Rightarrow> if i < length xs then Some (Array (take i xs @ drop (i + 1) xs)) else None)"
| "erase_array_item idx _ = None"

definition clear_array_item :: "property_value \<Rightarrow> property_value option" where
  "clear_array_item v =
     (let v = (if get_type v = null_type then pv_mut_index 0 (\<lambda>x. x) v else v)
      in case v of Array _ \<Rightarrow> Some (Array []) | _ \<Rightarrow> None)"

fun erase_object_item :: "string \<Rightarrow> property_value \<Rightarrow> property_value option" where
  "erase_object_item key (Object es) = Some (Object (filter (\<lambda>e. fst e \<noteq> key) es))"
| "erase_object_item key _ = None"

definition has_object_key :: "string \<Rightarrow> property_value \<Rightarrow> bool" where
  "has_object_key name v \<longleftrightarrow> get_type v = object_type \<and> get_type (pv_get name v) \<noteq> null_type"

fun get_object_key_set :: "(string list \<Rightarrow> string list) \<Rightarrow> property_value \<Rightarrow> string list" where
  "get_object_key_set ord (Object es) = ord (map fst es)"
| "get_object_key_set ord _ = []"

section \<open>Writing\<close>

lemma entry_of_size: "(entry_of k es = Null \<or> (\<exists>e \<in> set es. entry_of k es = snd e))"
  by (cases "map_of es k") (force simp: entry_of_def dest: map_of_SomeD)+

lemma entry_of_smaller: "size (entry_of k es) < size (Object es)"
proof -
  have "size v < Suc (size_list (size_prod (\<lambda>_. 0) size) es)" if "e \<in> set es" "v = snd e" for e v
  proof -
    have "size_prod (\<lambda>_. 0) size e \<le> size_list (size_prod (\<lambda>_. 0) size) es" using that(1) by (intro size_list_estimation' [of e]) auto
    then show ?thesis using that(2) by (cases e) simp
  qed
  then show ?thesis using entry_of_size [of k es] by auto
qed

lemma array_item_smaller: "x \<in> set xs \<Longrightarrow> size x < size (Array xs)"
  using size_list_estimation' [of x xs "size x" size] by simp

definition intersperse_comma :: "string list \<Rightarrow> string" where
  "intersperse_comma ts = concat (map (\<lambda>i. ts ! i @ (if length ts - i > 1 then '','' else [])) [0..<length ts])"

function serialize_recursive :: "(string list \<Rightarrow> string list) \<Rightarrow> string \<Rightarrow> property_value \<Rightarrow> string" where
  "serialize_recursive ord key (Object es) =
     concat (map (\<lambda>obj_key.
       let new_key = (if key \<noteq> [] then key @ ''.'' @ obj_key else obj_key);
           v = entry_of obj_key es
       in (if get_type v \<noteq> object_type then new_key @ ''='' else [])
          @ serialize_recursive ord new_key v
          @ (if get_type v \<noteq> object_type then [LF] else [])) (ord (map fst es)))"
| "serialize_recursive ord key (Array xs) = ''['' @ intersperse_comma (map (\<lambda>x. serialize_recursive ord [] x) xs) @ '']''"
| "serialize_recursive ord key Null = ''null''"
| "serialize_recursive ord key (Boolean b) = (if b then ''true'' else ''false'')"
| "serialize_recursive ord key (Decimal d) = snprintf 32 (print_double d)"
| "serialize_recursive ord key (Integral i) = snprintf 32 (print_int (sint i))"
| "serialize_recursive ord key (Text s) = escape s"
| "serialize_recursive ord key Invalid = []"
  by pat_completeness auto
termination
proof (relation "measure (\<lambda>(ord, key, v). size v)", goal_cases)
  case (2 ord key es)
  then show ?case using entry_of_smaller by simp
next
  case (3 ord key xs x)
  then show ?case using array_item_smaller by simp
qed simp

definition pv_serialize :: "(string list \<Rightarrow> string list) \<Rightarrow> property_value \<Rightarrow> string" where
  "pv_serialize ord v = serialize_recursive ord [] v"

section \<open>Reading\<close>

text \<open>\<open>c_str()\<close> ends at the first zero character.\<close>

definition c_str :: "string \<Rightarrow> string" where
  "c_str s = takeWhile (\<lambda>c. c \<noteq> CHR 0x00) s"

text \<open>\<open>strncmp(token, str, strlen(token)) == 0\<close>\<close>

definition has_prefix :: "string \<Rightarrow> string \<Rightarrow> bool" where
  "has_prefix token s \<longleftrightarrow> take (length token) s = token"

definition parse_boolean_value :: "string \<Rightarrow> bool option" where
  "parse_boolean_value s = (if has_prefix ''true'' s then Some True else if has_prefix ''false'' s then Some False else None)"

definition is_decimal :: "string \<Rightarrow> nat \<Rightarrow> bool" where
  "is_decimal s len \<longleftrightarrow>
     \<not> (len > 1 \<and> s ! 0 = CHR ''0'' \<and> s ! 1 \<noteq> CHR ''.'')
     \<and> \<not> (len > 2 \<and> has_prefix ''-0'' s \<and> s ! 2 \<noteq> CHR ''.'')
     \<and> (\<forall>c \<in> set (take len s). c \<noteq> CHR ''x'' \<and> c \<noteq> CHR ''X'')"

text \<open>A hexadecimal number starts with \<open>0x\<close>, so \<open>is_decimal\<close> refuses it.\<close>

definition parse_number_value :: "string \<Rightarrow> double option" where
  "parse_number_value s =
     (if s = [] \<or> \<not> is_digit (hd s) then None
      else if is_hex s then None
      else
        (let (number, len) = strtod s
         in case number of None \<Rightarrow> None | Some d \<Rightarrow> if is_decimal s len then Some d else None))"

definition parse_null_value :: "string \<Rightarrow> bool" where
  "parse_null_value s = has_prefix ''null'' s"

definition parse_array_key :: "string \<Rightarrow> bool" where
  "parse_array_key s \<longleftrightarrow> find_str s ''[]'' 0 \<noteq> None"

definition parse_array_value :: "string \<Rightarrow> bool" where
  "parse_array_value s \<longleftrightarrow> length s \<ge> 2 \<and> hd s = CHR ''['' \<and> last s = CHR '']''"

text \<open>A double without a fraction, within the range of a signed 64-bit integer.\<close>

definition try_convert_integral_double :: "double \<Rightarrow> 64 word option" where
  "try_convert_integral_double d =
     (let (m, e) = d
      in if e < 0 \<and> m mod 2 ^ nat (- e) \<noteq> 0 then None
         else
           let i = (if e \<ge> 0 then m * 2 ^ nat e else m div 2 ^ nat (- e))
           in if i < - (2 ^ 63) \<or> i \<ge> 2 ^ 63 then None else Some (of_int i))"

lemma trim_shorter: "length (trim s) \<le> length s"
  by (simp add: trim_def substr_def Let_def)

lemma split_loop_shorter: "x \<in> set (split_loop s c i) \<Longrightarrow> length x \<le> length s"
proof (induction s c i rule: split_loop.induct)
  case (1 s c i)
  from 1(2) show ?case
  proof (subst (asm) split_loop.simps, cases "find_char s c i")
    case (Some j)
    then show ?thesis using 1(2) 1(1) [OF Some] by (subst (asm) split_loop.simps) (auto simp: substr_def split: if_splits)
  qed (auto split: if_splits)
qed

definition scalar_value :: "string \<Rightarrow> property_value" where
  "scalar_value v =
     (case parse_number_value (c_str v) of
        Some d \<Rightarrow> (case try_convert_integral_double d of Some i \<Rightarrow> Integral i | None \<Rightarrow> Decimal d)
      | None \<Rightarrow>
          (case parse_boolean_value (c_str v) of
             Some b \<Rightarrow> Boolean b
           | None \<Rightarrow> if parse_null_value (c_str v) then Null else Text v))"

text \<open>\<open>root[key]\<close> made an array.\<close>

definition make_array :: "string \<Rightarrow> property_value \<Rightarrow> property_value" where
  "make_array key root = pv_mut key (\<lambda>v. if get_type v \<noteq> array_type then initialize_data array_type else v) root"

lemma no_array_key: "\<not> parse_array_key (c_str [])"
  by (simp add: parse_array_key_def c_str_def find_str.simps)

text \<open>
  The parsed value, and the root with the array items it received on the way. The cells of an array text are shorter than
  the text (lemma \<open>split_loop_shorter\<close>), which the guard of \<open>parse_cells\<close> records for its termination.
\<close>

function parse_to_property_value :: "property_value \<Rightarrow> string \<Rightarrow> string \<Rightarrow> property_value \<times> property_value"
  and parse_cells :: "property_value \<Rightarrow> string \<Rightarrow> nat \<Rightarrow> string list \<Rightarrow> property_value" where
  "parse_to_property_value root key v =
     (if parse_array_key (c_str key)
      then
        (let key = take (length key - 2) key;
             root = make_array key root;
             (item, root) = parse_to_property_value root [] v
         in (initialize_data array_type, pv_mut key (add_array_item item) root))
      else if parse_array_value (c_str v)
      then
        (let root = make_array key root;
             root = (if length v \<ge> 3 then parse_cells root key (length v) (split_nonempty (substr v 1 (length v - 2)) (CHR '','')) else root)
         in (initialize_data array_type, root))
      else (scalar_value v, root))"
| "parse_cells root key n [] = root"
| "parse_cells root key n (cell # cells) =
     (if length cell < n
      then
        (let (item, root) = parse_to_property_value root [] (trim cell)
         in parse_cells (pv_mut key (add_array_item item) root) key n cells)
      else root)"
  by pat_completeness auto

termination
proof (relation "measures [\<lambda>x. case x of Inl (root, key, v) \<Rightarrow> length v | Inr (root, key, n, cells) \<Rightarrow> n,
      \<lambda>x. case x of Inl (root, key, v) \<Rightarrow> if parse_array_key (c_str key) then 2 else 1 | Inr (root, key, n, cells) \<Rightarrow> 0,
      \<lambda>x. case x of Inl (root, key, v) \<Rightarrow> 0 | Inr (root, key, n, cells) \<Rightarrow> length cells]", goal_cases)
  case 1
  then show ?case by simp
qed (use trim_shorter no_array_key in \<open>auto intro: le_less_trans\<close>)

declare parse_to_property_value.simps [simp del] parse_cells.simps [simp del]

function trans_parson_to_property_value :: "property_value \<Rightarrow> string \<Rightarrow> string \<Rightarrow> property_value" where
  "trans_parson_to_property_value root key v =
     (case split_nonempty key (CHR ''.'') of
        [] \<Rightarrow> root
      | [new_key] \<Rightarrow>
          (let (pv, root) = parse_to_property_value root key v
           in if get_type pv \<noteq> array_type then pv_mut new_key (\<lambda>_. pv) root else root)
      | k # _ # _ \<Rightarrow>
          if key = [] then root
          else pv_mut k (\<lambda>r. trans_parson_to_property_value r (drop (length k + 1) key) v) root)"
  by pat_completeness auto
termination by (relation "measure (\<lambda>(root, key, v). length key)") (auto simp: diff_less)

declare trans_parson_to_property_value.simps [simp del]

definition create_from_entries :: "(string \<times> string) list \<Rightarrow> property_value" where
  "create_from_entries items = fold (\<lambda>(k, v) root. trans_parson_to_property_value root k v) items Null"

definition create_from_string :: "nat \<Rightarrow> string \<Rightarrow> property_value option" where
  "create_from_string addr property_string = do {
     pbase \<leftarrow> property_new addr;
     (_, pbase) \<leftarrow> property_load property_string pbase;
     it \<leftarrow> begin_iterator (properties pbase);
     items \<leftarrow> hm_items it (properties pbase);
     Some (create_from_entries items)
   }"

end
