(* ===== verification/Qlog_Property_Correct.thy ===== *)
theory Qlog_Property_Correct
  imports Qlog_Property
begin

text \<open>
  Reading back a property text that was written: every binding with a plain key and a plain value survives.
\<close>

section \<open>Escapes\<close>

definition escape_code :: "char \<Rightarrow> char" where
  "escape_code c = (if c = LF then CHR ''n'' else c)"

text \<open>The text in which only the characters of \<open>A\<close> are escaped.\<close>

definition escape_in :: "char set \<Rightarrow> string \<Rightarrow> string" where
  "escape_in A v = concat (map (\<lambda>c. if c \<in> A then [BSL, escape_code c] else [c]) v)"

lemma escape_in_simps [simp]:
  "escape_in A [] = []" "escape_in A (c # v) = (if c \<in> A then [BSL, escape_code c] else [c]) @ escape_in A v"
  by (simp_all add: escape_in_def)

lemma escape_in_empty [simp]: "escape_in {} v = v"
  by (induction v) simp_all

lemma escape_escape_in: "escape v = escape_in {LF, CHR ''='', CHR '':''} v"
  unfolding escape_def escape_in_def escape_char_def escape_code_def
  by (intro arg_cong [where f = concat] map_cong refl) (simp add: LF_def)

lemma replace_escaped:
  assumes "a \<in> A" "inj_on escape_code A" "BSL \<notin> escape_code ` A" "BSL \<notin> set v"
  shows "replace_all (escape_in A v) [BSL, escape_code a] [a] = escape_in (A - {a}) v"
  using assms(4)
proof (induction v)
  case (Cons c v)
  then have ih: "replace_all (escape_in A v) [BSL, escape_code a] [a] = escape_in (A - {a}) v" and c: "c \<noteq> BSL" by auto
  show ?case
  proof (cases "c \<in> A")
    case True
    then have "escape_code c = escape_code a \<longleftrightarrow> c = a" "escape_code c \<noteq> BSL" 
      using assms(1-3) by (auto simp: inj_on_def) (metis imageI)
    then show ?thesis using True ih by (simp add: replace_all_two)
  next
    case False
    then show ?thesis using c ih assms(1) by (auto simp: replace_all_two)
  qed
qed simp

lemma unescape_escape:
  assumes "BSL \<notin> set v"
  shows "unescape (escape v) = v"
proof -
  let ?A = "{LF, CHR ''='', CHR '':''}"
  have 1: "replace_all (escape_in ?A v) [BSL, CHR ''n''] [LF] = escape_in {CHR ''='', CHR '':''} v"
    using replace_escaped [of LF ?A v] assms by (simp add: escape_code_def inj_on_def BSL_def LF_def insert_Diff_if)
  have 2: "replace_all (escape_in {CHR ''='', CHR '':''} v) [BSL, CHR ''=''] ''='' = escape_in {CHR '':''} v"
    using replace_escaped [of "CHR ''=''" "{CHR ''='', CHR '':''}" v] assms by (simp add: escape_code_def inj_on_def BSL_def LF_def insert_Diff_if)
  have 3: "replace_all (escape_in {CHR '':''} v) [BSL, CHR '':''] '':'' = v"
    using replace_escaped [of "CHR '':''" "{CHR '':''}" v] assms by (simp add: escape_code_def inj_on_def BSL_def LF_def)
  show ?thesis using 1 2 3 by (simp add: unescape_def escape_escape_in)
qed

lemma escape_chars: "set (escape v) \<subseteq> set v - {LF} \<union> {BSL, CHR ''n''}"
  by (auto simp: escape_def escape_char_def LF_def BSL_def split: if_splits)

lemma escape_nonempty [simp]: "escape v = [] \<longleftrightarrow> v = []"
  by (cases v) (auto simp: escape_def escape_char_def)

lemma escape_last: "v \<noteq> [] \<Longrightarrow> last (escape v) = (if last v = LF then CHR ''n'' else last v)"
proof (induction v rule: rev_induct)
  case (snoc c v)
  then show ?case by (simp add: escape_def escape_char_def LF_def)
qed simp

section \<open>One line\<close>

definition plain_key :: "string \<Rightarrow> bool" where
  "plain_key k \<longleftrightarrow> k \<noteq> [] \<and> trimmed k \<and> hd k \<notin> {CHR ''#'', CHR ''!''} \<and> last k \<noteq> BSL \<and> set k \<inter> {LF, CR, TAB, CHR ''=''} = {}"

definition plain_value :: "string \<Rightarrow> bool" where
  "plain_value v \<longleftrightarrow> v \<noteq> [] \<and> trimmed (escape v) \<and> set v \<inter> {BSL, CR, TAB} = {}"

lemma find_split_at:
  assumes "j < length line" "1 \<le> i" "i \<le> j" "j + 1 < length line" "line ! j = c" "line ! (j - 1) \<noteq> BSL" "\<And>x. x < j \<Longrightarrow> line ! x \<noteq> c"
  shows "find_split_loop line c i = [trim (take j line), trim (drop (j + 1) line)]"
  using assms(2,3)
proof (induction "j - i" arbitrary: i)
  case 0
  then show ?case using assms by (subst find_split_loop.simps) simp
next
  case (Suc n)
  then have "find_split_loop line c (i + 1) = [trim (take j line), trim (drop (j + 1) line)]" by simp
  then show ?case using Suc assms(4) assms(7) [of i] by (subst find_split_loop.simps) simp
qed

lemma split_line_entry:
  assumes "plain_key k" "plain_value v"
  shows "split_line (entry_line (k, v)) = Some (k, escape v)"
proof -
  have k: "k \<noteq> []" "trimmed k" "last k \<noteq> BSL" "CHR ''='' \<notin> set k" and v: "escape v \<noteq> []" "trimmed (escape v)"
    using assms by (auto simp: plain_key_def plain_value_def)
  let ?l = "k @ CHR ''='' # escape v"
  have tr: "trim ?l = ?l" using k v by (intro trim_trimmed) (auto simp: trimmed_def)
  have "find_split_loop ?l (CHR ''='') 1 = [trim (take (length k) ?l), trim (drop (length k + 1) ?l)]"
  proof (rule find_split_at)
    show "1 \<le> length k" using k(1) by (cases k) auto
    show "?l ! (length k - 1) \<noteq> BSL" using k(1,3) by (simp add: nth_append last_conv_nth)
    show "?l ! x \<noteq> CHR ''=''" if "x < length k" for x using that k(4) nth_mem [OF that] by (metis nth_append)
  qed (use v in auto)
  then have "find_split ?l (CHR ''='') = [k, escape v]" using k v trim_trimmed by (simp add: find_split_def)
  then show ?thesis using k v tr assms(1) trim_trimmed by (simp add: split_line_def entry_line_def Let_def plain_key_def)
qed

lemma join_lines_plain: "plain_value v \<Longrightarrow> join_lines (escape v) ls = (Some (escape v), ls)"
proof -
  assume v: "plain_value v"
  then have "last v \<noteq> BSL" by (auto simp: plain_value_def dest: last_in_set)
  then have "last (escape v) \<noteq> BSL" using v by (simp add: escape_last plain_value_def BSL_def)
  then show ?thesis by (cases ls) simp_all
qed

lemma parse_lines_entries:
  "(\<And>k v. (k, v) \<in> set es \<Longrightarrow> plain_key k \<and> plain_value v) \<Longrightarrow> parse_lines (map entry_line es) = es"
proof (induction es)
  case (Cons e es)
  obtain k v where e: "e = (k, v)" by force
  then have "plain_key k" "plain_value v" "parse_lines (map entry_line es) = es" using Cons by auto
  then show ?case using e unescape_escape [of v]
    by (simp add: parse_lines.simps split_line_entry join_lines_plain plain_value_def)
qed (simp add: parse_lines.simps)

lemma entry_line_chars:
  assumes "plain_key k" "plain_value v"
  shows "set (entry_line (k, v)) \<inter> {LF, CR, TAB} = {}" "entry_line (k, v) \<noteq> []"
proof -
  have "set (escape v) \<inter> {LF, CR, TAB} = {}"
    using escape_chars [of v] assms(2) by (auto simp: plain_value_def LF_def CR_def TAB_def BSL_def)
  then show "set (entry_line (k, v)) \<inter> {LF, CR, TAB} = {}"
    using assms(1) by (auto simp: entry_line_def plain_key_def LF_def CR_def TAB_def)
qed (simp add: entry_line_def)

text \<open>The text of entries, read back.\<close>

definition entries_text :: "(string \<times> string) list \<Rightarrow> string" where
  "entries_text es = concat (map (\<lambda>e. entry_line e @ [LF]) es)"

lemma parse_entries_text:
  assumes "\<And>k v. (k, v) \<in> set es \<Longrightarrow> plain_key k \<and> plain_value v"
  shows "property_parse (entries_text es) = es"
proof -
  have l: "set (entry_line e) \<inter> {LF, CR, TAB} = {} \<and> entry_line e \<noteq> []" if "e \<in> set es" for e
    using assms [of "fst e" "snd e"] entry_line_chars [of "fst e" "snd e"] that by simp
  have "CR \<notin> set (entries_text es)" "TAB \<notin> set (entries_text es)" using l by (auto simp: entries_text_def LF_def CR_def TAB_def)
  then have "replace_all (replace_all (entries_text es) [CR, LF] [LF]) [TAB] [] = entries_text es"
    by (simp add: replace_all_absent replace_all_one) (metis (mono_tags, lifting) filter_True)
  moreover have "split_nonempty (entries_text es) LF = map entry_line es"
  proof -
    have "LF \<notin> set x \<and> x \<noteq> []" if "x \<in> set (map entry_line es)" for x using that l by auto
    from split_lines [of "map entry_line es", OF this] show ?thesis by (simp add: entries_text_def comp_def)
  qed
  ultimately show ?thesis using parse_lines_entries [of es] assms by (simp add: property_parse_def Let_def)
qed

section \<open>The map behind the text\<close>

definition property_ok :: "property \<Rightarrow> bool" where
  "property_ok p \<longleftrightarrow> hm_invar text_hash_code (properties p) \<and> expand_rate (properties p) = (3, 1)"

lemma property_new_run:
  "\<exists>p. property_new a = Some p \<and> property_ok p \<and> hm_abs (properties p) = Map.empty \<and> hm_size (properties p) = 0 \<and> key_list p = []"
proof -
  obtain m :: "(string, string) hash_map" and xs fs
    where "hash_map_new text_hash_code a 0 = Some m" "hm_rel text_hash_code m xs fs" "hm_keeps (empty_hash_map a) m"
    using hash_map_new_run [of 0 text_hash_code a] by auto
  then show ?thesis using hm_abs_empty [of a]
    by (auto simp: property_new_def property_ok_def hm_keeps_def empty_hash_map_def hm_invar_def)
qed

lemma find_end:
  assumes "hm_invar h m"
  shows "\<exists>it. hm_find h k m = Some it \<and> (iterator_eq it (end_iterator m) \<longleftrightarrow> hm_abs m k = None)"
proof -
  obtain xs fs where rel: "hm_rel h m xs fs" using assms by (auto simp: hm_invar_def)
  obtain it where it: "hm_find h k m = Some it" "hm_abs m k \<noteq> None \<longrightarrow> hm_at m xs it k" "hm_abs m k = None \<longrightarrow> it_node it = NIL"
    using hm_find_run [OF rel] by blast
  have "it_node it \<noteq> NIL" if "hm_at m xs it k" using that rel hm_linksD(3) [of m xs fs] by (auto simp: hm_at_def hm_rel_def)
  then show ?thesis using it by (auto simp: iterator_eq_def end_iterator_def)
qed

lemma property_set_run:
  assumes ok: "property_ok p" and room: "hm_size (properties p) < 2 ^ 20"
  shows "\<exists>q. property_set k v p = Some q \<and> property_ok q \<and> hm_abs (properties q) = (hm_abs (properties p))(k \<mapsto> v)
    \<and> hm_size (properties q) \<le> hm_size (properties p) + 1
    \<and> key_list q = (if hm_abs (properties p) k = None then key_list p @ [k] else key_list p)"
proof -
  obtain it where it: "hm_find text_hash_code k (properties p) = Some it"
      "iterator_eq it (end_iterator (properties p)) \<longleftrightarrow> hm_abs (properties p) k = None"
    using find_end ok by (metis property_ok_def)
  have "rate_room (3, 1) (hm_size (properties p) + 1)" using room by (simp add: rate_room_def)
  then obtain m where m: "hm_put text_hash_code [] k v (properties p) = Some m" "hm_invar text_hash_code m \<and> expand_rate m = (3, 1)"
      "hm_abs m = (hm_abs (properties p))(k \<mapsto> v)" "hm_size m \<le> hm_size (properties p) + 1"
    using hm.put_law [of text_hash_code "properties p" "(3, 1)" "[]" k v] ok by (auto simp: property_ok_def)
  show ?thesis
    by (rule exI [of _ "p\<lparr>properties := m, key_list := (if hm_abs (properties p) k = None then key_list p @ [k] else key_list p)\<rparr>"])
      (use it m in \<open>auto simp: property_set_def property_ok_def Let_def\<close>)
qed

lemma set_all_run:
  assumes "property_ok p" "hm_size (properties p) + length es < 2 ^ 20"
  shows "\<exists>q. set_all es p = Some q \<and> property_ok q \<and> hm_abs (properties q) = hm_abs (properties p) ++ map_of (rev es)"
  using assms
proof (induction es arbitrary: p)
  case (Cons e es)
  obtain k v where e: "e = (k, v)" by force
  have "hm_size (properties p) < 2 ^ 20" using Cons.prems(2) by simp
  then obtain q where q: "property_set k v p = Some q" "property_ok q" "hm_abs (properties q) = (hm_abs (properties p))(k \<mapsto> v)"
      "hm_size (properties q) \<le> hm_size (properties p) + 1" using property_set_run [OF Cons.prems(1)] by blast
  then have "hm_size (properties q) + length es < 2 ^ 20" using Cons.prems(2) by simp
  from Cons.IH [OF q(2) this, unfolded q(3)] obtain r where r: "set_all es q = Some r" "property_ok r"
      "hm_abs (properties r) = (hm_abs (properties p))(k \<mapsto> v) ++ map_of (rev es)" by blast
  have "(hm_abs (properties p))(k \<mapsto> v) ++ map_of (rev es) = hm_abs (properties p) ++ map_of (rev (e # es))"
    by (rule ext) (simp add: map_add_def e split: option.splits)
  then show ?case using q(1) e r by simp
qed simp

lemma hm_size_abs:
  assumes "hm_invar h m"
  shows "hm_size m = 0 \<longleftrightarrow> hm_abs m = Map.empty"
proof -
  obtain es where es: "map_of es = hm_abs m" "length es = hm_size m" using hm_iterates [OF assms] by blast
  then show ?thesis by (metis length_0_conv map_of_eq_empty_iff)
qed

section \<open>Properties\<close>

text \<open>
  Property C29. A property text that was written and is loaded into a new object gives back the same bindings, when every
  key is plain (not empty, no surrounding space, no leading \<open>#\<close> or \<open>!\<close>, no trailing backslash, no line end, tab or \<open>=\<close>) and every value is plain (not empty, no
  surrounding space, backslash, carriage return or tab): values may contain line ends, \<open>=\<close> and \<open>:\<close>.
\<close>

theorem property_text_roundtrip:
  assumes "hm_invar text_hash_code (properties p)" "hm_size (properties p) < 2 ^ 20"
    and "\<forall>k v. hm_abs (properties p) k = Some v \<longrightarrow> plain_key k \<and> plain_value v"
  shows "\<exists>t p0 q. property_serialize p = Some t \<and> property_new a = Some p0
    \<and> property_load t p0 = Some (hm_size (properties p) \<noteq> 0, q) \<and> hm_abs (properties q) = hm_abs (properties p)"
proof -
  obtain it es where it: "begin_iterator (properties p) = Some it" "hm_items it (properties p) = Some es" "distinct (map fst es)"
      "map_of es = hm_abs (properties p)" "length es = hm_size (properties p)" using hm_iterates [OF assms(1)] by blast
  have plain: "plain_key k \<and> plain_value v" if "(k, v) \<in> set es" for k v
    using assms(3) it(3,4) that by (metis map_of_is_SomeI)
  obtain p0 where p0: "property_new a = Some p0" "property_ok p0" "hm_abs (properties p0) = Map.empty" "hm_size (properties p0) = 0"
    using property_new_run by blast
  obtain q where q: "set_all es p0 = Some q" "property_ok q" "hm_abs (properties q) = map_of (rev es)"
    using set_all_run [OF p0(2), of es] p0(3,4) it(5) assms(2) by auto
  have abs: "hm_abs (properties q) = hm_abs (properties p)" using q(3) it(3,4) map_of_inject_set [of "rev es" es] by (simp add: rev_map [symmetric])
  have "hm_size (properties q) \<noteq> 0 \<longleftrightarrow> hm_size (properties p) \<noteq> 0"
    using hm_size_abs [OF assms(1)] hm_size_abs [of text_hash_code "properties q"] q(2) abs by (simp add: property_ok_def)
  moreover have "property_serialize p = Some (entries_text es)" using it(1,2) by (simp add: property_serialize_def entries_text_def)
  moreover have "property_parse (entries_text es) = es" using parse_entries_text plain by blast
  ultimately show ?thesis using p0(1) q(1) abs by (auto simp: property_load_def)
qed

lemma sample_property: "\<exists>p. property_ok p \<and> hm_abs (properties p) = [''mode'' \<mapsto> ''a=b''] \<and> hm_size (properties p) \<le> 1"
proof -
  obtain p0 where p0: "property_ok p0" "hm_abs (properties p0) = Map.empty" "hm_size (properties p0) = 0" using property_new_run by blast
  from property_set_run [OF p0(1), of "''mode''" "''a=b''"] p0(2,3) show ?thesis by auto
qed

theorem property_text_roundtrip_witness:
  "\<exists>p t p0 q. hm_abs (properties p) = [''mode'' \<mapsto> ''a=b''] \<and> property_serialize p = Some t \<and> property_new 0 = Some p0
    \<and> property_load t p0 = Some (True, q) \<and> hm_abs (properties q) = [''mode'' \<mapsto> ''a=b'']"
proof -
  obtain p where p: "property_ok p" "hm_abs (properties p) = [''mode'' \<mapsto> ''a=b'']" "hm_size (properties p) \<le> 1"
    using sample_property by blast
  have i: "hm_invar text_hash_code (properties p)" using p(1) by (simp add: property_ok_def)
  have n: "hm_size (properties p) \<noteq> 0" using hm_size_abs [OF i] p(2) by simp
  have "\<forall>k v. hm_abs (properties p) k = Some v \<longrightarrow> plain_key k \<and> plain_value v"
    using p(2) by (auto simp: plain_key_def plain_value_def trimmed_def isspace_def escape_def escape_char_def LF_def CR_def TAB_def BSL_def split: if_splits)
  from property_text_roundtrip [OF i _ this, of 0] p n show ?thesis by auto
qed

end
