(* ===== verification/Qlog_Config_Leaves.thy ===== *)
theory Qlog_Config_Leaves
  imports Qlog_Property_Value Qlog_Property_Correct
begin

text \<open>
  The scalars and arrays of a configuration: their text, read back, gives the same value.
\<close>

section \<open>Numbers\<close>

lemma digit_char_code: "d < 10 \<Longrightarrow> of_char (digit_char d) = 48 + d"
  by (simp add: digit_char_def)

lemma digit_char_digit: "d < 10 \<Longrightarrow> is_digit (digit_char d)"
  by (simp add: is_digit_def digit_char_code)

lemma nat_text_digits: "set (nat_text n) \<subseteq> {c. is_digit c}" "nat_text n \<noteq> []"
proof -
  show "set (nat_text n) \<subseteq> {c. is_digit c}"
    by (induction n rule: nat_text.induct) (subst nat_text.simps, auto simp: digit_char_digit)
  show "nat_text n \<noteq> []" by (subst nat_text.simps) simp
qed

lemma nat_text_val: "digits_val (nat_text n) = n"
  by (induction n rule: nat_text.induct) (subst nat_text.simps, simp add: digits_val_def digit_char_code)

lemma nat_text_length: "n < 10 ^ k \<Longrightarrow> 0 < k \<Longrightarrow> length (nat_text n) \<le> k"
proof (induction k arbitrary: n)
  case (Suc k)
  show ?case
  proof (cases "n < 10")
    case False
    then have "k \<noteq> 0" using Suc.prems by (cases k) auto
    moreover have "n div 10 < 10 ^ k" using Suc.prems(1) by (simp add: less_mult_imp_div_less mult.commute)
    ultimately have "length (nat_text (n div 10)) \<le> k" using Suc.IH by blast
    then show ?thesis using False by (subst nat_text.simps) simp
  qed (subst nat_text.simps, simp)
qed simp

lemma nat_text_hd: "10 \<le> n \<Longrightarrow> hd (nat_text n) \<noteq> CHR ''0''"
proof (induction n rule: nat_text.induct)
  case (1 n)
  have "hd (nat_text (n div 10)) \<noteq> CHR ''0''"
  proof (cases "n div 10 < 10")
    case True
    then have "of_char (digit_char (n div 10)) \<noteq> (of_char (CHR ''0'') :: nat)" using 1(2) by (simp add: digit_char_code)
    then show ?thesis using True by (subst nat_text.simps) auto
  next
    case False
    then show ?thesis using 1 by simp
  qed
  then show ?case using 1(2) nat_text_digits(2) by (subst nat_text.simps) simp
qed

lemma digit_neq: "is_digit c \<Longrightarrow> \<not> is_digit x \<Longrightarrow> c \<noteq> x"
  by blast

lemma not_digits [simp]:
  "\<not> is_digit (CHR ''x'')" "\<not> is_digit (CHR ''X'')" "\<not> is_digit (CHR ''-'')" "\<not> is_digit (CHR ''['')" "\<not> is_digit (CHR '','')"
  "\<not> is_digit (CHR 0x00)" "\<not> is_digit (CHR ''='')" "\<not> is_digit (CHR '':'')" "\<not> is_digit LF" "\<not> is_digit CR" "\<not> is_digit TAB"
  "\<not> is_digit BSL" "isspace c \<Longrightarrow> \<not> is_digit c"
  by (auto simp: is_digit_def isspace_def LF_def CR_def TAB_def BSL_def)

lemma c_str_same: "CHR 0x00 \<notin> set s \<Longrightarrow> c_str s = s"
  by (induction s) (auto simp: c_str_def)

lemma digits_without: "\<not> is_digit x \<Longrightarrow> x \<notin> set (nat_text n)"
  using nat_text_digits(1) by blast

lemma scan_digits: "set s \<subseteq> {c. is_digit c} \<Longrightarrow> scan_decimal s = (digits_val s, 0, length s)"
  by (auto simp: scan_decimal_def scan_exponent_def takeWhile_eq_all_conv [THEN iffD2] subset_iff)

lemma bit_length_pow: "0 < n \<Longrightarrow> 2 ^ (bit_length n - 1) \<le> n \<and> n < 2 ^ bit_length n \<and> 0 < bit_length n"
proof (induction n rule: bit_length.induct)
  case (1 n)
  show ?case
  proof (cases "n div 2 = 0")
    case True
    then have "n = 1" using 1 by auto
    then show ?thesis by (simp add: bit_length.simps)
  next
    case False
    then have ih: "2 ^ (bit_length (n div 2) - 1) \<le> n div 2" "n div 2 < 2 ^ bit_length (n div 2)" "0 < bit_length (n div 2)" using 1 by auto
    have "bit_length n = bit_length (n div 2) + 1" using 1(2) by (subst bit_length.simps) simp
    moreover have "2 ^ bit_length (n div 2) = 2 * (2 :: nat) ^ (bit_length (n div 2) - 1)" using ih(3) by (cases "bit_length (n div 2)") auto
    moreover obtain h r where "n = 2 * h + r" "r < 2" "n div 2 = h" by (metis div_mult_mod_eq mult.commute mod_less_divisor zero_less_numeral)
    ultimately show ?thesis using ih by simp
  qed
qed

lemma round_half_even_1 [simp]: "round_half_even n 1 = n" "round_half_even n (Suc 0) = n"
  by (simp_all add: round_half_even_def)

lemma integral_exact:
  assumes "n < 2 ^ 53"
  shows "\<exists>d. to_double n 1 = Some d \<and> try_convert_integral_double d = Some (of_nat n)"
proof (cases "n = 0")
  case True
  then show ?thesis by (simp add: to_double_def try_convert_integral_double_def)
next
  case False
  define p where "p = bit_length n - 1"
  have b: "2 ^ p \<le> n" "n < 2 ^ (p + 1)" "bit_length n = p + 1" using bit_length_pow [of n] False by (auto simp: p_def)
  have "(2 :: nat) ^ p < 2 ^ 53" using b(1) assms by simp
  then have "p < 53" by (rule power_less_imp_less_exp [rotated]) simp
  then have p: "p \<le> 52" by simp
  have r: "ratio_exponent n 1 = int p" using b by (simp add: ratio_exponent_def bit_length.simps)
  have big: "int n < 2 ^ 63" using assms by simp
  show ?thesis
  proof (cases "p = 52")
    case True
    then show ?thesis using False r big assms by (simp add: to_double_def try_convert_integral_double_def)
  next
    case False
    then have e: "p < 52" using p by simp
    have k: "nat (52 - int p) = 52 - p" by simp
    have "n * 2 ^ (52 - p) < 2 ^ (p + 1) * 2 ^ (52 - p)" using b(2) by simp
    also have "\<dots> = 2 ^ 53" using e by (simp flip: power_add)
    finally have "n * 2 ^ (52 - p) \<noteq> 2 ^ 53" by simp
    then show ?thesis using \<open>n \<noteq> 0\<close> r e big k by (simp add: to_double_def try_convert_integral_double_def)
  qed
qed

lemma number_back:
  assumes "n < 2 ^ 53"
  shows "scalar_value (nat_text n) = Integral (of_nat n)"
proof -
  let ?s = "nat_text n"
  have d: "\<And>c. c \<in> set ?s \<Longrightarrow> is_digit c" and ne: "?s \<noteq> []" using nat_text_digits by auto
  obtain c r where s: "?s = c # r" using ne by (cases ?s) auto
  have c: "is_digit c" using d s by simp
  have cs: "c_str ?s = ?s" by (intro c_str_same digits_without) simp
  have nh: "\<not> is_hex ?s"
  proof (cases r)
    case (Cons x y)
    then have "is_digit x" using d s by simp
    then have "x \<noteq> CHR ''x'' \<and> x \<noteq> CHR ''X''" using digit_neq not_digits by metis
    then show ?thesis using s Cons by (simp add: is_hex_def Let_def)
  qed (simp add: is_hex_def s)
  obtain v where v: "to_double n 1 = Some v" "try_convert_integral_double v = Some (of_nat n)" using integral_exact [OF assms] by blast
  have st: "strtod ?s = (Some v, length ?s)" using scan_digits [OF nat_text_digits(1)] nat_text_val v(1) by (simp add: strtod_def)
  have "is_decimal ?s (length ?s)" unfolding is_decimal_def
  proof (intro conjI ballI)
    show "\<not> (length ?s > 1 \<and> ?s ! 0 = CHR ''0'' \<and> ?s ! 1 \<noteq> CHR ''.'')"
    proof
      assume a: "length ?s > 1 \<and> ?s ! 0 = CHR ''0'' \<and> ?s ! 1 \<noteq> CHR ''.''"
      then have "10 \<le> n" by (subst (asm) nat_text.simps) (auto split: if_splits)
      then show False using nat_text_hd [of n] a ne by (simp add: hd_conv_nth)
    qed
    have "c \<noteq> CHR ''-''" using c by (rule digit_neq) simp
    then show "\<not> (length ?s > 2 \<and> has_prefix ''-0'' ?s \<and> ?s ! 2 \<noteq> CHR ''.'')" using s by (simp add: has_prefix_def)
  qed (use d digit_neq not_digits(1,2) in simp_all)
  then show ?thesis using cs nh st v(2) s c by (simp add: scalar_value_def parse_number_value_def)
qed

section \<open>Scalars\<close>

text \<open>The text of a scalar or an array before it is escaped.\<close>

fun leaf_text :: "property_value \<Rightarrow> string" where
  "leaf_text Null = ''null''"
| "leaf_text (Boolean b) = (if b then ''true'' else ''false'')"
| "leaf_text (Integral i) = nat_text (nat (sint i))"
| "leaf_text (Text s) = s"
| "leaf_text (Array xs) = ''['' @ intersperse_comma (map leaf_text xs) @ '']''"
| "leaf_text v = []"

definition plain_text :: "string \<Rightarrow> bool" where
  "plain_text s \<longleftrightarrow> plain_value s \<and> CHR 0x00 \<notin> set s \<and> \<not> is_digit (hd s) \<and> \<not> has_prefix ''true'' s \<and> \<not> has_prefix ''false'' s
     \<and> \<not> has_prefix ''null'' s \<and> \<not> (hd s = CHR ''['' \<and> last s = CHR '']'')"

fun scalar_ok :: "property_value \<Rightarrow> bool" where
  "scalar_ok Null = True"
| "scalar_ok (Boolean _) = True"
| "scalar_ok (Integral i) \<longleftrightarrow> 0 \<le> sint i \<and> sint i < 2 ^ 53"
| "scalar_ok (Text s) = plain_text s"
| "scalar_ok _ = False"

fun cell_ok :: "property_value \<Rightarrow> bool" where
  "cell_ok (Text s) \<longleftrightarrow> plain_text s \<and> trimmed s \<and> CHR '','' \<notin> set s"
| "cell_ok v = scalar_ok v"

fun leaf_ok :: "property_value \<Rightarrow> bool" where
  "leaf_ok (Array xs) \<longleftrightarrow> list_all cell_ok xs"
| "leaf_ok v = scalar_ok v"

lemma scalar_back:
  assumes "scalar_ok v"
  shows "scalar_value (leaf_text v) = v \<and> \<not> parse_array_value (c_str (leaf_text v))"
proof (cases v)
  case (Integral i)
  then have n: "nat (sint i) < 2 ^ 53" "of_nat (nat (sint i)) = i" using assms by (auto simp: nat_less_iff)
  have "hd (nat_text (nat (sint i))) \<noteq> CHR ''[''"
    using nat_text_digits(2) digits_without not_digits(4) by (metis hd_in_set)
  moreover have "c_str (nat_text (nat (sint i))) = nat_text (nat (sint i))" by (intro c_str_same digits_without) simp
  ultimately show ?thesis using Integral number_back [OF n(1)] n(2) by (simp add: parse_array_value_def)
next
  case (Text s)
  then have p: "plain_text s" using assms by simp
  then have "c_str s = s" by (intro c_str_same) (simp add: plain_text_def)
  then show ?thesis using Text p
    by (auto simp: plain_text_def scalar_value_def parse_number_value_def parse_boolean_value_def parse_null_value_def parse_array_value_def)
qed (use assms in \<open>auto simp: scalar_value_def parse_number_value_def parse_boolean_value_def parse_null_value_def parse_array_value_def
  c_str_def has_prefix_def is_digit_def\<close>)

section \<open>Arrays\<close>

lemma intersperse_Nil [simp]: "intersperse_comma [] = []"
  by (simp add: intersperse_comma_def)

lemma intersperse_Cons [simp]: "intersperse_comma (t # ts) = t @ (if ts = [] then [] else '','' @ intersperse_comma ts)"
proof -
  have "[0..<length (t # ts)] = 0 # map Suc [0..<length ts]" by (simp add: map_Suc_upt upt_conv_Cons del: upt_Suc)
  then show ?thesis unfolding intersperse_comma_def by (auto simp: comp_def neq_Nil_conv simp del: upt_Suc)
qed

lemma intersperse_without: "c \<noteq> CHR '','' \<Longrightarrow> (\<And>t. t \<in> set ts \<Longrightarrow> c \<notin> set t) \<Longrightarrow> c \<notin> set (intersperse_comma ts)"
  by (induction ts) auto

lemma intersperse_longer: "t \<in> set ts \<Longrightarrow> length t \<le> length (intersperse_comma ts)"
  by (induction ts) auto

lemma split_intersperse:
  assumes "\<And>t. t \<in> set ts \<Longrightarrow> t \<noteq> [] \<and> CHR '','' \<notin> set t"
  shows "split_nonempty (intersperse_comma ts) (CHR '','') = ts"
  using assms
proof (induction ts)
  case (Cons t ts)
  then show ?case by (cases "ts = []") (auto simp: split_last split_piece)
qed (simp add: split_last)

lemma escape_append [simp]: "escape (a @ b) = escape a @ escape b"
  by (simp add: escape_def)

lemma escape_Cons: "escape (c # s) = escape_char c @ escape s" "escape [] = []"
  by (simp_all add: escape_def)

lemma escape_plain [simp]: "escape_char (CHR '','') = '',''" "escape_char (CHR ''['') = ''[''" "escape_char (CHR '']'') = '']''"
  by (simp_all add: escape_char_def LF_def)

lemma escape_same: "set s \<inter> {LF, CHR ''='', CHR '':''} = {} \<Longrightarrow> escape s = s"
  by (induction s) (auto simp: escape_def escape_char_def)

lemma escape_intersperse: "escape (intersperse_comma ts) = intersperse_comma (map escape ts)"
  by (induction ts) (simp_all add: escape_Cons)

lemma cell_scalar: "cell_ok x \<Longrightarrow> scalar_ok x"
  by (cases x) auto

lemma cell_leaf: "cell_ok x \<Longrightarrow> leaf_ok x"
  by (cases x) auto

lemma scalar_text_plain:
  assumes "scalar_ok v"
  shows "leaf_text v \<noteq> [] \<and> set (leaf_text v) \<inter> {BSL, CR, TAB} = {} \<and> trimmed (escape (leaf_text v))"
proof (cases v)
  case (Integral i)
  let ?t = "nat_text (nat (sint i))"
  have "escape ?t = ?t" using digits_without by (intro escape_same) auto
  moreover have "set ?t \<inter> {BSL, CR, TAB} = {}" using digits_without by auto
  moreover have "trimmed ?t" 
    using nat_text_digits [of "nat (sint i)"] not_digits(13) hd_in_set last_in_set unfolding trimmed_def by blast
  ultimately show ?thesis using Integral nat_text_digits(2) by simp
qed (use assms in \<open>auto simp: plain_text_def plain_value_def trimmed_def isspace_def escape_def escape_char_def LF_def CR_def TAB_def BSL_def\<close>)

lemma leaf_text_plain:
  assumes "leaf_ok v"
  shows "plain_value (leaf_text v)"
proof (cases "\<exists>xs. v = Array xs")
  case True
  then obtain xs where v: "v = Array xs" and ok: "\<And>x. x \<in> set xs \<Longrightarrow> cell_ok x" using assms by (auto simp: list_all_iff)
  have "c \<notin> set (intersperse_comma (map leaf_text xs))" if "c \<in> {BSL, CR, TAB}" for c
  proof (rule intersperse_without)
    show "c \<noteq> CHR '',''" using that by (auto simp: BSL_def CR_def TAB_def)
    show "c \<notin> set t" if "t \<in> set (map leaf_text xs)" for t
      using that scalar_text_plain [OF cell_scalar [OF ok]] \<open>c \<in> {BSL, CR, TAB}\<close> by auto
  qed
  moreover have "escape (''['' @ s @ '']'') = CHR ''['' # escape s @ '']''" for s by (simp add: escape_Cons)
  moreover have "CHR ''['' \<notin> {BSL, CR, TAB}" "CHR '']'' \<notin> {BSL, CR, TAB}" by (simp_all add: BSL_def CR_def TAB_def)
  ultimately show ?thesis unfolding v plain_value_def by (simp add: trimmed_def isspace_def)
next
  case False
  then have "scalar_ok v" using assms by (cases v) auto
  then show ?thesis using scalar_text_plain by (simp add: plain_value_def)
qed

lemma serialize_scalar:
  assumes "scalar_ok v"
  shows "serialize_recursive ord key v = escape (leaf_text v)"
proof (cases v)
  case (Integral i)
  have "nat (sint i) < 10 ^ 16" using assms Integral by (simp add: nat_less_iff)
  then have "length (nat_text (nat (sint i))) \<le> 16" by (rule nat_text_length) simp
  moreover have "escape (nat_text (nat (sint i))) = nat_text (nat (sint i))" using digits_without by (intro escape_same) auto
  ultimately show ?thesis using Integral assms by (simp add: snprintf_def print_int_def)
qed (use assms in \<open>auto simp: escape_same LF_def\<close>)

lemma serialize_leaf:
  assumes "leaf_ok v"
  shows "serialize_recursive ord key v = escape (leaf_text v)"
proof (cases "\<exists>xs. v = Array xs")
  case True
  then obtain xs where v: "v = Array xs" and ok: "\<And>x. x \<in> set xs \<Longrightarrow> cell_ok x" using assms by (auto simp: list_all_iff)
  have "map (\<lambda>x. serialize_recursive ord [] x) xs = map escape (map leaf_text xs)"
    using ok serialize_scalar [OF cell_scalar] by simp
  then have "serialize_recursive ord key v = ''['' @ intersperse_comma (map escape (map leaf_text xs)) @ '']''" by (simp only: v serialize_recursive.simps)
  then show ?thesis unfolding v by (simp add: escape_intersperse escape_Cons)
next
  case False
  then have "scalar_ok v" using assms by (cases v) auto
  then show ?thesis by (rule serialize_scalar)
qed

section \<open>Reading a leaf\<close>

lemma entry_update_twice: "entry_update k f (entry_update k g es) = entry_update k (\<lambda>v. f (g v)) es"
  by (induction es) auto

lemma pv_mut_twice: "pv_mut k f (pv_mut k g r) = pv_mut k (\<lambda>v. f (g v)) r"
  by (cases r) (simp_all add: entry_update_twice)

lemma add_array_item_Array [simp]: "add_array_item x (Array ys) = Array (ys @ [x])"
  by (simp add: add_array_item_def array_mut_def)

lemma parse_scalar:
  assumes "scalar_ok v" "\<not> parse_array_key (c_str key)"
  shows "parse_to_property_value root key (leaf_text v) = (v, root)"
  using scalar_back [OF assms(1)] assms(2) by (subst parse_to_property_value.simps) simp

lemma cell_trim: "cell_ok x \<Longrightarrow> trim (leaf_text x) = leaf_text x"
proof (rule trim_trimmed)
  assume x: "cell_ok x"
  show "trimmed (leaf_text x)"
  proof (cases x)
    case (Integral i)
    have "escape (nat_text (nat (sint i))) = nat_text (nat (sint i))" using digits_without by (intro escape_same) auto
    then show ?thesis using scalar_text_plain [OF cell_scalar [OF x]] Integral by simp
  qed (use x in \<open>auto simp: trimmed_def isspace_def\<close>)
qed

lemma parse_cells_run:
  assumes "\<And>x. x \<in> set xs \<Longrightarrow> cell_ok x \<and> length (leaf_text x) < n"
  shows "parse_cells (pv_mut key (\<lambda>_. Array ys) root) key n (map leaf_text xs) = pv_mut key (\<lambda>_. Array (ys @ xs)) root"
  using assms
proof (induction xs arbitrary: ys)
  case (Cons x xs)
  have x: "cell_ok x" "length (leaf_text x) < n" using Cons.prems by simp_all
  have "parse_cells (pv_mut key (\<lambda>_. Array (ys @ [x])) root) key n (map leaf_text xs) = pv_mut key (\<lambda>_. Array ((ys @ [x]) @ xs)) root"
    using Cons.prems by (intro Cons.IH) simp
  then show ?case using x cell_trim [OF x(1)] parse_scalar [OF cell_scalar [OF x(1)] no_array_key]
    by (subst list.map, subst parse_cells.simps) (simp add: pv_mut_twice)
qed (simp add: parse_cells.simps)

lemma cell_text: "cell_ok x \<Longrightarrow> leaf_text x \<noteq> [] \<and> CHR '','' \<notin> set (leaf_text x)"
  using scalar_text_plain [OF cell_scalar, of x] digits_without [OF not_digits(5)] by (cases x) auto

lemma make_array_fresh:
  assumes "get_type (pv_get key root) \<noteq> array_type"
  shows "make_array key root = pv_mut key (\<lambda>_. Array []) root"
proof -
  have "entry_update key (\<lambda>v. if get_type v \<noteq> array_type then Array [] else v) es = entry_update key (\<lambda>_. Array []) es"
    if "get_type (entry_of key es) \<noteq> array_type" for es
    using that by (induction es) (auto simp: entry_of_def split: if_splits)
  then show ?thesis using assms by (cases root) (simp_all add: make_array_def cong: if_cong)
qed

lemma parse_array:
  assumes ok: "leaf_ok (Array xs)" and key: "\<not> parse_array_key (c_str key)" and fresh: "get_type (pv_get key root) \<noteq> array_type"
    and nul: "CHR 0x00 \<notin> set (leaf_text (Array xs))"
  shows "parse_to_property_value root key (leaf_text (Array xs)) = (Array [], pv_mut key (\<lambda>_. Array xs) root)"
proof -
  let ?t = "leaf_text (Array xs)" and ?i = "intersperse_comma (map leaf_text xs)"
  have cells: "\<And>x. x \<in> set xs \<Longrightarrow> cell_ok x" using ok by (simp add: list_all_iff)
  have cs: "c_str ?t = ?t" using nul by (rule c_str_same)
  have av: "parse_array_value ?t" by (simp add: parse_array_value_def)
  have sub: "substr ?t 1 (length ?t - 2) = ?i" by (simp add: substr_def)
  have sp: "split_nonempty ?i (CHR '','') = map leaf_text xs" using cells cell_text by (intro split_intersperse) auto
  have len: "length (leaf_text x) < length ?t" if "x \<in> set xs" for x using intersperse_longer [of "leaf_text x" "map leaf_text xs"] that by simp
  have run: "parse_cells (make_array key root) key (length ?t) (map leaf_text xs) = pv_mut key (\<lambda>_. Array xs) root"
    using parse_cells_run [of xs "length ?t" key "[]" root] cells len make_array_fresh [OF fresh] by simp
  have "(if length ?t \<ge> 3 then parse_cells (make_array key root) key (length ?t) (split_nonempty (substr ?t 1 (length ?t - 2)) (CHR '','')) else make_array key root)
    = pv_mut key (\<lambda>_. Array xs) root"
  proof (cases "length ?t \<ge> 3")
    case False
    then have "?i = []" by (cases ?i) simp_all
    then have "xs = []" using sp by (metis map_is_Nil_conv split_last empty_iff empty_set)
    then show ?thesis using False make_array_fresh [OF fresh] by simp
  qed (simp only: sub sp run if_True)
  then show ?thesis using cs av key by (subst parse_to_property_value.simps) (simp add: Let_def)
qed

end
