(* ===== verification/Qlog_Config_Tree.thy ===== *)
theory Qlog_Config_Tree
  imports Qlog_Config_Leaves "HOL-Library.Sublist"
begin

text \<open>
  A configuration tree as the set of its leaves with their paths: what the writer lists and the reader puts together again.
\<close>

section \<open>Leaves\<close>

fun leaves :: "property_value \<Rightarrow> (string list \<times> property_value) set" where
  "leaves (Object es) = (\<Union>(k, v) \<in> set es. (\<lambda>(p, l). (k # p, l)) ` leaves v)"
| "leaves v = {([], v)}"

definition key_ok :: "string \<Rightarrow> bool" where
  "key_ok k \<longleftrightarrow> k \<noteq> [] \<and> trimmed k \<and> hd k \<notin> {CHR ''#'', CHR ''!''} \<and> last k \<noteq> BSL
     \<and> set k \<inter> {LF, CR, TAB, CHR ''='', CHR ''.'', CHR ''[''} = {}"

text \<open>A tree of objects that are not empty, with plain keys, over leaves that survive.\<close>

fun tree_ok :: "property_value \<Rightarrow> bool" where
  "tree_ok (Object es) \<longleftrightarrow> es \<noteq> [] \<and> distinct (map fst es) \<and> (\<forall>(k, v) \<in> set es. key_ok k \<and> tree_ok v)"
| "tree_ok v = leaf_ok v"

text \<open>Without the conditions on keys and leaves.\<close>

fun object_tree :: "property_value \<Rightarrow> bool" where
  "object_tree (Object es) \<longleftrightarrow> es \<noteq> [] \<and> distinct (map fst es) \<and> (\<forall>(k, v) \<in> set es. object_tree v)"
| "object_tree v = True"

lemma tree_ok_object_tree: "tree_ok v \<Longrightarrow> object_tree v"
  by (induction v rule: tree_ok.induct) fastforce+

lemma leaves_Object: "(p, l) \<in> leaves (Object es) \<longleftrightarrow> (\<exists>k v q. (k, v) \<in> set es \<and> (q, l) \<in> leaves v \<and> p = k # q)"
  by force

lemma leaves_leaf: "get_type v \<noteq> object_type \<Longrightarrow> leaves v = {([], v)}"
  by (cases v) simp_all

lemma leaves_nonempty: "object_tree v \<Longrightarrow> leaves v \<noteq> {}"
proof (induction v rule: object_tree.induct)
  case (1 es)
  then obtain k v where e: "(k, v) \<in> set es" by (cases es) auto
  then have "leaves v \<noteq> {}" using 1 by auto
  then obtain p l where "(p, l) \<in> leaves v" by fast
  then have "(k # p, l) \<in> leaves (Object es)" using e leaves_Object by blast
  then show ?case by blast
qed simp_all

lemma leaf_types: "(p, l) \<in> leaves v \<Longrightarrow> get_type l \<noteq> object_type"
proof (induction v arbitrary: p rule: leaves.induct)
  case (1 es)
  then show ?case by (subst (asm) leaves_Object) blast
qed auto

text \<open>No path of a leaf begins another one.\<close>

lemma leaves_prefix:
  assumes "object_tree v" "(p, l) \<in> leaves v" "(q, m) \<in> leaves v" "prefix p q"
  shows "p = q \<and> l = m"
  using assms
proof (induction v arbitrary: p q rule: object_tree.induct)
  case (1 es)
  obtain k v p' where p: "(k, v) \<in> set es" "(p', l) \<in> leaves v" "p = k # p'" using 1(3) leaves_Object by blast
  obtain k' v' q' where q: "(k', v') \<in> set es" "(q', m) \<in> leaves v'" "q = k' # q'" using 1(4) leaves_Object by blast
  have "k = k'" and pre: "prefix p' q'" using 1(5) p(3) q(3) by auto
  then have "v = v'" using 1(2) p(1) q(1) by (metis eq_key_imp_eq_value object_tree.simps(1))
  then show ?case using 1(1) [OF p(1) refl _ p(2) _ pre] 1(2) p q \<open>k = k'\<close> by auto
qed auto

section \<open>Inserting a leaf\<close>

fun ins :: "string list \<Rightarrow> property_value \<Rightarrow> property_value \<Rightarrow> property_value" where
  "ins [] v r = r"
| "ins [k] v r = pv_mut k (\<lambda>_. v) r"
| "ins (k # ks) v r = pv_mut k (ins ks v) r"

text \<open>The tree built so far: nothing yet, or an object with the leaves \<open>S\<close>.\<close>

definition built :: "(string list \<times> property_value) set \<Rightarrow> property_value \<Rightarrow> bool" where
  "built S r \<longleftrightarrow> (if S = {} then r = Null else get_type r = object_type \<and> object_tree r \<and> leaves r = S)"

definition apart :: "string list \<Rightarrow> (string list \<times> property_value) set \<Rightarrow> bool" where
  "apart p S \<longleftrightarrow> (\<forall>(q, l) \<in> S. \<not> prefix p q \<and> \<not> prefix q p)"

lemma entry_update_new: "k \<notin> fst ` set es \<Longrightarrow> entry_update k f es = es @ [(k, f Null)]"
  by (induction es) auto

lemma entry_update_old:
  "distinct (map fst es) \<Longrightarrow> (k, x) \<in> set es \<Longrightarrow>
    set (entry_update k f es) = insert (k, f x) (set es - {(k, x)}) \<and> map fst (entry_update k f es) = map fst es"
proof (induction es)
  case (Cons e es)
  obtain k' v where e: "e = (k', v)" by force
  show ?case
  proof (cases "k' = k")
    case True
    then have "(k, x) \<notin> set es" using Cons.prems(1) e by (force simp: image_iff)
    then have "x = v" using Cons.prems(2) e True by auto
    then show ?thesis using e True \<open>(k, x) \<notin> set es\<close> by auto
  next
    case False
    then have "set (entry_update k f es) = insert (k, f x) (set es - {(k, x)}) \<and> map fst (entry_update k f es) = map fst es"
      using Cons e by auto
    then show ?thesis using False e by auto
  qed
qed simp

lemma built_object: "get_type r = object_type \<Longrightarrow> object_tree r \<Longrightarrow> built (leaves r) r"
  using leaves_nonempty by (auto simp: built_def)

lemma built_cases:
  assumes "built S r"
  obtains "S = {}" "r = Null" | es where "r = Object es" "es \<noteq> []" "distinct (map fst es)" "\<And>k v. (k, v) \<in> set es \<Longrightarrow> object_tree v"
    "\<And>q l. (q, l) \<in> S \<longleftrightarrow> (\<exists>k v p. (k, v) \<in> set es \<and> (p, l) \<in> leaves v \<and> q = k # p)"
proof (cases "S = {}")
  case True
  then show ?thesis using that(1) assms by (simp add: built_def)
next
  case False
  then obtain es where "r = Object es" "object_tree (Object es)" "leaves (Object es) = S" using assms by (cases r) (auto simp: built_def)
  moreover have "object_tree v" if "(k, v) \<in> set es" for k v using that \<open>object_tree (Object es)\<close> by auto
  ultimately show ?thesis using that(2) [of es] leaves_Object [of _ _ es] by simp
qed

lemma built_Object:
  assumes "es \<noteq> []" "distinct (map fst es)" "\<And>k v. (k, v) \<in> set es \<Longrightarrow> object_tree v"
    and "\<And>q l. (q, l) \<in> S \<longleftrightarrow> (\<exists>k v p. (k, v) \<in> set es \<and> (p, l) \<in> leaves v \<and> q = k # p)"
  shows "built S (Object es)"
proof -
  have t: "object_tree (Object es)" using assms(1-3) by auto
  have "x \<in> leaves (Object es) \<longleftrightarrow> x \<in> S" for x using leaves_Object [of "fst x" "snd x" es] assms(4) [of "fst x" "snd x"] by simp
  then have "leaves (Object es) = S" by blast
  then show ?thesis using t leaves_nonempty [OF t] by (auto simp: built_def)
qed

lemma entry_of_in: "distinct (map fst es) \<Longrightarrow> (k, v) \<in> set es \<Longrightarrow> entry_of k es = v"
  by (simp add: entry_of_def)

lemma entry_of_out: "k \<notin> fst ` set es \<Longrightarrow> entry_of k es = Null"
  by (simp add: entry_of_def map_of_eq_None_iff split: option.split) (metis map_of_eq_None_iff option.distinct(1))

text \<open>The leaves below a key.\<close>

definition below :: "string \<Rightarrow> (string list \<times> property_value) set \<Rightarrow> (string list \<times> property_value) set" where
  "below k S = {(p, l). (k # p, l) \<in> S}"

lemma built_mut:
  assumes b: "built S r" and t: "object_tree (f (pv_get k r))"
  shows "built ((\<lambda>(p, l). (k # p, l)) ` leaves (f (pv_get k r)) \<union> {(q, l) \<in> S. hd q \<noteq> k}) (pv_mut k f r)"
  using b
proof (cases rule: built_cases)
  case 1
  then have "pv_mut k f r = Object [(k, f (pv_get k r))]" by simp
  then show ?thesis using 1 t by (auto intro!: built_Object)
next
  case (2 es)
  let ?x = "f (pv_get k r)"
  define es' where "es' = entry_update k f es"
  have es': "set es' = insert (k, ?x) {(k', v) \<in> set es. k' \<noteq> k}" "distinct (map fst es')" "es' \<noteq> []"
  proof -
    have "set es' = insert (k, ?x) {(k', v) \<in> set es. k' \<noteq> k} \<and> distinct (map fst es')"
    proof (cases "k \<in> fst ` set es")
      case True
      then obtain v where v: "(k, v) \<in> set es" by auto
      have "set es - {(k, v)} = {(k', v) \<in> set es. k' \<noteq> k}" using v by (auto dest: eq_key_imp_eq_value [OF 2(3) v])
      moreover have "pv_get k r = v" using 2(1) entry_of_in [OF 2(3) v] by simp
      ultimately show ?thesis using entry_update_old [OF 2(3) v, of f] 2(3) by (simp only: es'_def)
    next
      case False
      then have "es' = es @ [(k, ?x)]" using 2(1) entry_of_out [OF False] by (simp add: es'_def entry_update_new)
      then show ?thesis using False 2(3) by (auto simp: image_iff)
    qed
    then show "set es' = insert (k, ?x) {(k', v) \<in> set es. k' \<noteq> k}" "distinct (map fst es')" "es' \<noteq> []" by auto
  qed
  have "built ((\<lambda>(p, l). (k # p, l)) ` leaves ?x \<union> {(q, l) \<in> S. hd q \<noteq> k}) (Object es')"
  proof (rule built_Object [OF es'(3,2)])
    show "object_tree v" if "(k', v) \<in> set es'" for k' v using that t 2(4) es'(1) by auto
    show "(q, l) \<in> (\<lambda>(p, l). (k # p, l)) ` leaves ?x \<union> {(q, l) \<in> S. hd q \<noteq> k}
        \<longleftrightarrow> (\<exists>k v p. (k, v) \<in> set es' \<and> (p, l) \<in> leaves v \<and> q = k # p)" for q l
      unfolding es'(1) using 2(5) [of q l] by (auto simp: image_iff)
  qed
  then show ?thesis using 2(1) by (simp add: es'_def)
qed

lemma built_below:
  assumes b: "built S r" and k: "\<And>l. ([k], l) \<notin> S"
  shows "built (below k S) (pv_get k r)"
  using b
proof (cases rule: built_cases)
  case 1
  then show ?thesis by (simp add: below_def built_def)
next
  case (2 es)
  show ?thesis
  proof (cases "k \<in> fst ` set es")
    case True
    then obtain v where v: "(k, v) \<in> set es" by auto
    have "(p, l) \<in> below k S \<longleftrightarrow> (p, l) \<in> leaves v" for p l
    proof
      assume "(p, l) \<in> below k S"
      then obtain w where w: "(k, w) \<in> set es" "(p, l) \<in> leaves w" using 2(5) [of "k # p" l] by (auto simp: below_def)
      then show "(p, l) \<in> leaves v" using eq_key_imp_eq_value [OF 2(3) v w(1)] by simp
    next
      assume "(p, l) \<in> leaves v"
      then show "(p, l) \<in> below k S" using 2(5) [of "k # p" l] v by (auto simp: below_def)
    qed
    then have s: "below k S = leaves v" by (simp add: set_eq_iff split_paired_All)
    have "get_type v = object_type"
    proof (rule ccontr)
      assume "get_type v \<noteq> object_type"
      then have "([k], v) \<in> S" using 2(5) v leaves_leaf by blast
      then show False using k by blast
    qed
    then show ?thesis using built_object 2(4) [OF v] 2(1) entry_of_in [OF 2(3) v] s by simp
  next
    case False
    have "(k # p, l) \<notin> S" for p l
    proof
      assume "(k # p, l) \<in> S"
      then obtain v where "(k, v) \<in> set es" using 2(5) by auto
      then show False using False by force
    qed
    then have "below k S = {}" by (simp add: below_def)
    then show ?thesis using 2(1) entry_of_out [OF False] by (simp add: built_def)
  qed
qed

lemma apart_below: "apart (k # ks) S \<Longrightarrow> apart ks (below k S)"
  by (force simp: apart_def below_def)

lemma apart_key: "apart (k # ks) S \<Longrightarrow> ([k], l) \<notin> S"
  by (force simp: apart_def)

lemma ins_built:
  assumes "built S r" "ks \<noteq> []" "get_type v \<noteq> object_type" "apart ks S"
  shows "built (insert (ks, v) S) (ins ks v r)"
  using assms(1,2,4)
proof (induction ks arbitrary: S r)
  case (Cons k ks)
  have other: "(q, l) \<in> S \<longleftrightarrow> (q, l) \<in> S \<and> hd q \<noteq> k" if "ks = []" for q l
    using Cons.prems(3) that by (cases q) (auto simp: apart_def)
  show ?case
  proof (cases "ks = []")
    case True
    have "object_tree v" using assms(3) by (cases v) simp_all
    then have "built ((\<lambda>(p, l). (k # p, l)) ` leaves v \<union> {(q, l) \<in> S. hd q \<noteq> k}) (pv_mut k (\<lambda>_. v) r)"
      using built_mut [OF Cons.prems(1), of "\<lambda>_. v" k] by simp
    moreover have "(\<lambda>(p, l). (k # p, l)) ` leaves v \<union> {(q, l) \<in> S. hd q \<noteq> k} = insert ([k], v) S"
      using other [OF True] leaves_leaf [OF assms(3)] by auto
    ultimately show ?thesis using True by simp
  next
    case False
    let ?x = "ins ks v (pv_get k r)"
    have sub: "built (below k S) (pv_get k r)" using built_below [OF Cons.prems(1)] apart_key [OF Cons.prems(3)] by blast
    have x: "built (insert (ks, v) (below k S)) ?x" by (rule Cons.IH [OF sub False apart_below [OF Cons.prems(3)]])
    then have "object_tree ?x" "leaves ?x = insert (ks, v) (below k S)" by (simp_all add: built_def)
    moreover have "ins (k # ks) v r = pv_mut k (ins ks v) r" using False by (cases ks) simp_all
    moreover have "(\<lambda>(p, l). (k # p, l)) ` insert (ks, v) (below k S) \<union> {(q, l) \<in> S. hd q \<noteq> k} = insert (k # ks, v) S"
    proof -
      have "(q, l) \<in> S \<Longrightarrow> q \<noteq> []" for q l using Cons.prems(3) by (auto simp: apart_def)
      then have "(q, l) \<in> (\<lambda>(p, l). (k # p, l)) ` insert (ks, v) (below k S) \<union> {(q, l) \<in> S. hd q \<noteq> k} \<longleftrightarrow> (q, l) \<in> insert (k # ks, v) S" for q l
        by (cases q) (auto simp: below_def image_iff)
      then show ?thesis by (simp only: set_eq_iff split_paired_All simp_thms)
    qed
    ultimately show ?thesis using built_mut [OF Cons.prems(1), of "ins ks v" k] by simp
  qed
qed simp

section \<open>Reading an entry\<close>

fun join_path :: "string list \<Rightarrow> string" where
  "join_path [] = []"
| "join_path [k] = k"
| "join_path (k # ks) = k @ ''.'' @ join_path ks"

lemma join_path_Cons: "ks \<noteq> [] \<Longrightarrow> join_path (k # ks) = k @ CHR ''.'' # join_path ks"
  by (cases ks) simp_all

lemma split_join:
  "(\<And>k. k \<in> set ks \<Longrightarrow> k \<noteq> [] \<and> CHR ''.'' \<notin> set k) \<Longrightarrow> split_nonempty (join_path ks) (CHR ''.'') = ks"
proof (induction ks)
  case (Cons k ks)
  then show ?case by (cases "ks = []") (auto simp: join_path_Cons split_last split_piece)
qed (simp add: split_last)

lemma key_okD: "key_ok k \<Longrightarrow> k \<noteq> [] \<and> CHR ''.'' \<notin> set k"
  by (auto simp: key_ok_def)

lemma join_inject:
  assumes "list_all key_ok p" "list_all key_ok q" "join_path p = join_path q"
  shows "p = q"
  using split_join [of p] split_join [of q] assms key_okD by (metis list_all_iff)

lemma find_str_absent: "a \<notin> set s \<Longrightarrow> find_str s (a # r) i = None"
proof (induction s "a # r" i rule: find_str.induct)
  case (1 s i)
  have "substr s i (length (a # r)) \<noteq> a # r"
  proof
    assume h: "substr s i (length (a # r)) = a # r"
    have "set (substr s i (length (a # r))) \<subseteq> set s" unfolding substr_def by (meson in_set_dropD in_set_takeD subsetI)
    then show False using h 1(2) by auto
  qed
  then show ?case using 1 by (subst find_str.simps) auto
qed

lemma key_no_array:
  assumes "key_ok k"
  shows "\<not> parse_array_key (c_str k)"
proof -
  have "CHR ''['' \<notin> set (c_str k)" using assms by (auto simp: key_ok_def c_str_def dest: set_takeWhileD)
  then show ?thesis by (simp add: parse_array_key_def find_str_absent)
qed

lemma leaf_no_nul:
  assumes "leaf_ok v"
  shows "CHR 0x00 \<notin> set (leaf_text v)"
proof -
  have s: "CHR 0x00 \<notin> set (leaf_text x)" if "scalar_ok x" for x
    using that digits_without [OF not_digits(6)] by (cases x) (auto simp: plain_text_def)
  show ?thesis
  proof (cases "\<exists>xs. v = Array xs")
    case True
    then obtain xs where v: "v = Array xs" "\<And>x. x \<in> set xs \<Longrightarrow> cell_ok x" using assms by (auto simp: list_all_iff)
    have "CHR 0x00 \<notin> set (intersperse_comma (map leaf_text xs))" using s [OF cell_scalar] v(2) by (intro intersperse_without) auto
    then show ?thesis by (simp add: v)
  next
    case False
    then have "scalar_ok v" using assms by (cases v) auto
    then show ?thesis by (rule s)
  qed
qed

lemma pv_mut_cong: "f (pv_get k r) = g (pv_get k r) \<Longrightarrow> pv_mut k f r = pv_mut k g r"
proof -
  have "entry_update k f es = entry_update k g es" if "f (entry_of k es) = g (entry_of k es)" for es
    using that by (induction es) (auto simp: entry_of_def)
  then show "f (pv_get k r) = g (pv_get k r) \<Longrightarrow> pv_mut k f r = pv_mut k g r" by (cases r) (auto simp: entry_of_def)
qed

lemma trans_single:
  assumes "leaf_ok v" "key_ok k" "get_type (pv_get k r) \<noteq> array_type"
  shows "trans_parson_to_property_value r k (leaf_text v) = pv_mut k (\<lambda>_. v) r"
proof -
  have sp: "split_nonempty k (CHR ''.'') = [k]" using split_last key_okD [OF assms(2)] by simp
  show ?thesis
  proof (cases "\<exists>xs. v = Array xs")
    case True
    then obtain xs where v: "v = Array xs" by blast
    then have "parse_to_property_value r k (leaf_text v) = (Array [], pv_mut k (\<lambda>_. v) r)"
      using parse_array [of xs k r] assms key_no_array leaf_no_nul [OF assms(1)] by simp
    then show ?thesis by (subst trans_parson_to_property_value.simps) (simp add: sp)
  next
    case False
    then have s: "scalar_ok v" "get_type v \<noteq> array_type" using assms(1) by (cases v, auto)+
    then show ?thesis using parse_scalar [OF s(1) key_no_array [OF assms(2)]]
      by (subst trans_parson_to_property_value.simps) (simp add: sp)
  qed
qed

lemma trans_path:
  assumes "built S r" "ks \<noteq> []" "apart ks S" "leaf_ok v" "list_all key_ok ks"
  shows "trans_parson_to_property_value r (join_path ks) (leaf_text v) = ins ks v r"
  using assms(1,2,3,5)
proof (induction ks arbitrary: S r)
  case (Cons k ks)
  have k: "key_ok k" using Cons.prems(4) by simp
  have sub: "built (below k S) (pv_get k r)" using built_below [OF Cons.prems(1)] apart_key [OF Cons.prems(3)] by blast
  show ?case
  proof (cases "ks = []")
    case True
    then have "below k S = {}" using Cons.prems(3) by (force simp: below_def apart_def)
    then have "pv_get k r = Null" using sub by (simp add: built_def)
    then show ?thesis using True trans_single [OF assms(4) k, of r] by simp
  next
    case False
    then obtain k' ks' where ks: "ks = k' # ks'" by (cases ks) auto
    have ih: "trans_parson_to_property_value (pv_get k r) (join_path ks) (leaf_text v) = ins ks v (pv_get k r)"
      using Cons.prems(4) by (intro Cons.IH [OF sub False apart_below [OF Cons.prems(3)]]) simp
    have "split_nonempty (join_path (k # ks)) (CHR ''.'') = k # ks" using Cons.prems(4) key_okD by (intro split_join) (auto simp: list_all_iff)
    then have "trans_parson_to_property_value r (join_path (k # ks)) (leaf_text v)
      = pv_mut k (\<lambda>x. trans_parson_to_property_value x (join_path ks) (leaf_text v)) r"
      using False by (subst trans_parson_to_property_value.simps) (simp add: ks join_path_Cons)
    also have "\<dots> = pv_mut k (ins ks v) r" by (rule pv_mut_cong) (rule ih)
    finally show ?thesis by (simp add: ks)
  qed
qed simp

text \<open>All entries, in any order.\<close>

lemma create_built:
  assumes "\<And>p l. (p, l) \<in> set items \<Longrightarrow> p \<noteq> [] \<and> leaf_ok l \<and> list_all key_ok p" "distinct (map fst items)"
    and "\<And>p l q m. (p, l) \<in> set items \<Longrightarrow> (q, m) \<in> set items \<Longrightarrow> prefix p q \<Longrightarrow> p = q"
  shows "built (set items) (create_from_entries (map (\<lambda>(p, l). (join_path p, leaf_text l)) items))"
  using assms
proof (induction items rule: rev_induct)
  case Nil
  then show ?case by (simp add: built_def create_from_entries_def)
next
  case (snoc e items)
  obtain p l where e: "e = (p, l)" by force
  have ih: "built (set items) (create_from_entries (map (\<lambda>(p, l). (join_path p, leaf_text l)) items))"
  proof (rule snoc.IH)
    show "p \<noteq> [] \<and> leaf_ok l \<and> list_all key_ok p" if "(p, l) \<in> set items" for p l using snoc.prems(1) [of p l] that by simp
    show "distinct (map fst items)" using snoc.prems(2) by simp
    show "p = q" if "(p, l) \<in> set items" "(q, m) \<in> set items" "prefix p q" for p l q m using snoc.prems(3) [of p l q m] that by simp
  qed
  have p: "p \<noteq> []" "leaf_ok l" "list_all key_ok p" "p \<notin> fst ` set items" using snoc.prems(1) [of p l] snoc.prems(2) e by auto
  have ap: "apart p (set items)" unfolding apart_def
  proof (intro ballI, clarsimp)
    fix q m assume q: "(q, m) \<in> set items"
    have "p \<noteq> q" using p(4) q by force
    then show "\<not> prefix p q \<and> \<not> prefix q p" using snoc.prems(3) [of p l q m] snoc.prems(3) [of q m p l] q e by auto
  qed
  have "get_type l \<noteq> object_type" using p(2) by (cases l) simp_all
  from ins_built [OF ih p(1) this ap] trans_path [OF ih p(1) ap p(2,3)] show ?case by (simp add: create_from_entries_def e)
qed

section \<open>Writing a tree\<close>

function flat :: "(string list \<Rightarrow> string list) \<Rightarrow> string list \<Rightarrow> property_value \<Rightarrow> (string list \<times> property_value) list" where
  "flat ord p (Object es) = concat (map (\<lambda>k. flat ord (p @ [k]) (entry_of k es)) (ord (map fst es)))"
| "flat ord p (Array xs) = [(p, Array xs)]"
| "flat ord p (Boolean b) = [(p, Boolean b)]"
| "flat ord p (Decimal d) = [(p, Decimal d)]"
| "flat ord p (Integral i) = [(p, Integral i)]"
| "flat ord p (Text s) = [(p, Text s)]"
| "flat ord p Null = [(p, Null)]"
| "flat ord p Invalid = [(p, Invalid)]"
  by pat_completeness auto
termination
proof (relation "measure (\<lambda>(ord, p, v). size v)", goal_cases)
  case (2 ord p es k)
  then show ?case using entry_of_smaller by simp
qed simp

lemma flat_leaf: "get_type v \<noteq> object_type \<Longrightarrow> flat ord p v = [(p, v)]"
  by (cases v) simp_all

lemma flat_leaves:
  assumes "\<And>ks. set (ord ks) = set ks" "object_tree v"
  shows "set (flat ord p v) = (\<lambda>(q, l). (p @ q, l)) ` leaves v"
  using assms(2)
proof (induction v arbitrary: p rule: object_tree.induct)
  case (1 es)
  have e: "set (flat ord (p @ [k]) (entry_of k es)) = (\<lambda>(q, l). (p @ k # q, l)) ` leaves v" if "(k, v) \<in> set es" for k v
  proof -
    have "object_tree v" "entry_of k es = v" using 1(2) that entry_of_in [of es k v] by auto
    then show ?thesis using 1(1) [OF that refl, of "p @ [k]"] by simp
  qed
  have "set (flat ord p (Object es)) = (\<Union>(k, v) \<in> set es. set (flat ord (p @ [k]) (entry_of k es)))"
    using assms(1) by force
  also have "\<dots> = (\<Union>(k, v) \<in> set es. (\<lambda>(q, l). (p @ k # q, l)) ` leaves v)" using e by (intro SUP_cong refl) auto
  also have "\<dots> = (\<lambda>(q, l). (p @ q, l)) ` leaves (Object es)" by (force simp: image_UN image_image)
  finally show ?case .
qed simp_all

lemma join_snoc: "p \<noteq> [] \<Longrightarrow> join_path (p @ [k]) = join_path p @ ''.'' @ k"
proof (induction p)
  case (Cons a p)
  then show ?case by (cases "p = []") (simp_all add: join_path_Cons)
qed simp

lemma join_empty: "list_all key_ok p \<Longrightarrow> join_path p = [] \<longleftrightarrow> p = []"
proof (cases p)
  case (Cons k ks)
  assume "list_all key_ok p"
  then show ?thesis using Cons key_okD [of k] by (cases ks) auto
qed simp

lemma entries_text_concat: "entries_text (concat ess) = concat (map entries_text ess)"
  by (induction ess) (simp_all add: entries_text_def)

lemma serialize_flat:
  assumes "\<And>ks. set (ord ks) = set ks" "tree_ok v" "list_all key_ok p" "get_type v = object_type"
  shows "serialize_recursive ord (join_path p) v = entries_text (map (\<lambda>(q, l). (join_path q, leaf_text l)) (flat ord p v))"
  using assms(2-4)
proof (induction v arbitrary: p rule: tree_ok.induct)
  case (1 es)
  let ?line = "\<lambda>(q, l). (join_path q, leaf_text l)"
  have part: "(let new_key = (if join_path p \<noteq> [] then join_path p @ ''.'' @ k else k); v = entry_of k es
      in (if get_type v \<noteq> object_type then new_key @ ''='' else []) @ serialize_recursive ord new_key v
        @ (if get_type v \<noteq> object_type then [LF] else []))
    = entries_text (map ?line (flat ord (p @ [k]) (entry_of k es)))" if k: "k \<in> set (ord (map fst es))" for k
  proof -
    obtain v where v: "(k, v) \<in> set es" using k assms(1) by auto
    then have e: "entry_of k es = v" "key_ok k" "tree_ok v" using 1(2) entry_of_in [of es k v] by auto
    have key: "(if join_path p \<noteq> [] then join_path p @ ''.'' @ k else k) = join_path (p @ [k])"
      using join_empty [OF 1(3)] join_snoc [of p k] by (cases "p = []") simp_all
    have pk: "list_all key_ok (p @ [k])" using 1(3) e(2) by simp
    show ?thesis
    proof (cases "get_type v = object_type")
      case True
      then show ?thesis using 1(1) [OF v refl e(3) pk True] e(1) key by (simp add: Let_def)
    next
      case False
      then have "leaf_ok v" using e(3) by (cases v) simp_all
      from serialize_leaf [OF this] show ?thesis using False e(1) key by (simp add: Let_def flat_leaf entries_text_def entry_line_def)
    qed
  qed
  have "serialize_recursive ord (join_path p) (Object es)
      = concat (map (\<lambda>k. entries_text (map ?line (flat ord (p @ [k]) (entry_of k es)))) (ord (map fst es)))"
    unfolding serialize_recursive.simps using part by (intro arg_cong [where f = concat] map_cong refl) simp
  then show ?case by (simp add: map_concat comp_def entries_text_concat)
qed simp_all

section \<open>The round trip\<close>

lemma tree_leaves:
  assumes "tree_ok v" "(p, l) \<in> leaves v"
  shows "leaf_ok l \<and> list_all key_ok p"
  using assms
proof (induction v arbitrary: p rule: tree_ok.induct)
  case (1 es)
  then obtain k v q where v: "(k, v) \<in> set es" "(q, l) \<in> leaves v" "p = k # q" using leaves_Object by blast
  have "tree_ok v" "key_ok k" using 1(2) v(1) by auto
  then show ?case using 1(1) [OF v(1) refl _ v(2)] v(3) by simp
qed auto

lemma join_plain:
  assumes "list_all key_ok p" "p \<noteq> []"
  shows "plain_key (join_path p)"
  using assms
proof (induction p)
  case (Cons k p)
  have k: "plain_key k" using Cons.prems(1) by (auto simp: key_ok_def plain_key_def)
  show ?case
  proof (cases "p = []")
    case False
    then have p: "plain_key (join_path p)" using Cons by simp
    have ne: "k \<noteq> []" "join_path p \<noteq> []" using k p by (simp_all add: plain_key_def)
    have "CHR ''.'' \<notin> {LF, CR, TAB, CHR ''=''}" by (simp add: LF_def CR_def TAB_def)
    then show ?thesis using k p ne unfolding join_path_Cons [OF False] plain_key_def trimmed_def by auto
  qed (use k in simp)
qed simp

lemma plain_entries:
  assumes "tree_ok v" "get_type v = object_type" "(p, l) \<in> leaves v"
  shows "plain_key (join_path p) \<and> plain_value (leaf_text l)" "p \<noteq> []"
proof -
  show "p \<noteq> []" using assms(2,3) by (cases v) auto
  then show "plain_key (join_path p) \<and> plain_value (leaf_text l)"
    using tree_leaves [OF assms(1,3)] join_plain leaf_text_plain by blast
qed

text \<open>Entries whose keys are paths, taken from a map in any order.\<close>

lemma map_of_image:
  assumes "inj_on f A" "set xs = A"
  shows "map_of (map (\<lambda>x. (f x, g x)) xs) k = Some w \<longleftrightarrow> (\<exists>x \<in> A. k = f x \<and> w = g x)"
  using assms
proof (induction xs arbitrary: A)
  case (Cons x xs)
  have i: "inj_on f (set xs)" using Cons.prems by (auto simp: inj_on_def)
  show ?case using Cons.IH [OF i refl] Cons.prems by (auto simp: inj_on_def)
qed simp

lemma entries_reorder:
  assumes t: "tree_ok v" "get_type v = object_type" and fl: "set items = leaves v"
    and es: "distinct (map fst es)" "map_of es = map_of (rev (map (\<lambda>(p, l). (join_path p, leaf_text l)) items))"
  shows "\<exists>items'. es = map (\<lambda>(p, l). (join_path p, leaf_text l)) items' \<and> set items' = leaves v \<and> distinct (map fst items')"
proof -
  let ?f = "\<lambda>(p, l). (join_path p, leaf_text l)"
  have ot: "object_tree v" using tree_ok_object_tree t(1) .
  have inj: "x = y" if "x \<in> leaves v" "y \<in> leaves v" "fst (?f x) = fst (?f y)" for x y
  proof -
    have "fst x = fst y" using join_inject [of "fst x" "fst y"] tree_leaves [OF t(1), of "fst x" "snd x"] tree_leaves [OF t(1), of "fst y" "snd y"] that
      by (auto split: prod.splits)
    moreover have "(fst x, snd x) \<in> leaves v" "(fst y, snd y) \<in> leaves v" using that by simp_all
    ultimately have "snd x = snd y" using leaves_prefix [OF ot, of "fst x" "snd x" "fst y" "snd y"] by simp
    then show ?thesis using \<open>fst x = fst y\<close> by (simp add: prod_eq_iff)
  qed
  have set_es: "set es = ?f ` leaves v"
  proof -
    have d: "map_of (rev (map ?f items)) k = Some w \<longleftrightarrow> (\<exists>x \<in> leaves v. k = fst (?f x) \<and> w = snd (?f x))" for k w
      using map_of_image [of "\<lambda>x. fst (?f x)" "leaves v" "rev items" "\<lambda>x. snd (?f x)" k w] fl inj
      by (simp add: rev_map inj_on_def case_prod_unfold)
    have "(k, w) \<in> set es \<longleftrightarrow> (k, w) \<in> ?f ` leaves v" for k w 
      using map_of_eq_Some_iff [OF es(1), of k w] d [of k w] es(2) by (auto simp: case_prod_unfold image_iff)
    then show ?thesis by (simp only: set_eq_iff split_paired_All simp_thms)
  qed
  define g where "g e = (SOME x. x \<in> leaves v \<and> ?f x = e)" for e
  have g: "g e \<in> leaves v \<and> ?f (g e) = e" if "e \<in> set es" for e unfolding g_def by (rule someI_ex) (use that set_es in auto)
  have "es = map ?f (map g es)" using g by (simp add: map_idI comp_def)
  moreover have "set (map g es) = leaves v"
  proof
    show "set (map g es) \<subseteq> leaves v" using g by auto
    show "leaves v \<subseteq> set (map g es)"
    proof
      fix x assume x: "x \<in> leaves v"
      then have e: "?f x \<in> set es" using set_es by blast
      then have "g (?f x) = x" using g [OF e] inj x by metis
      then show "x \<in> set (map g es)" using e by force
    qed
  qed
  moreover have "distinct (map fst (map g es))"
  proof -
    have "map fst es = map (\<lambda>x. join_path x) (map fst (map g es))" using g by (auto simp: split_beta)
    then show ?thesis using es(1) by (metis distinct_map)
  qed
  ultimately show ?thesis by blast
qed

section \<open>A tree written and read\<close>

text \<open>
  Property C9. What \<open>serialize\<close> writes for a configuration tree, given to \<open>create_from_string\<close>, builds a tree with the
  same leaves at the same paths, in whatever order the objects list their keys. The trees are those of non-empty objects with
  these keys and leaves. A key is trimmed and not empty, starts with no \<open>#\<close> or \<open>!\<close>, ends in no backslash and has no line end, tab,
  \<open>=\<close>, dot or opening bracket. A leaf is null, a boolean, an integer from 0 to \<open>2^53 - 1\<close>, a text, or an array of such leaves that
  is not nested and whose texts have no comma. A text is not empty, has no surrounding space, backslash, carriage return, tab or zero byte, is
  not in brackets and does not start with a digit, \<open>true\<close>, \<open>false\<close> or \<open>null\<close>. Other values are lost or change their type.
\<close>

theorem config_tree_roundtrip:
  assumes ord: "\<forall>ks. set (ord ks) = set ks" and t: "tree_ok v" "get_type v = object_type"
    and n: "length (flat ord [] v) < 2 ^ 20"
  shows "\<exists>r. create_from_string a (pv_serialize ord v) = Some r \<and> get_type r = object_type \<and> leaves r = leaves v"
proof -
  let ?f = "\<lambda>(p, l). (join_path p, leaf_text l)"
  have ot: "object_tree v" by (rule tree_ok_object_tree [OF t(1)])
  have fl: "set (flat ord [] v) = leaves v" using flat_leaves [OF ord [rule_format] ot, of "[]"] by (simp add: case_prod_unfold)
  have plain: "plain_key k \<and> plain_value w" if "(k, w) \<in> set (map ?f (flat ord [] v))" for k w
    using that plain_entries(1) [OF t] fl by auto
  have parsed: "property_parse (pv_serialize ord v) = map ?f (flat ord [] v)"
    using serialize_flat [OF ord [rule_format] t(1) _ t(2), of "[]"] parse_entries_text [of "map ?f (flat ord [] v)", OF plain] by (simp add: pv_serialize_def)
  obtain p0 where p0: "property_new a = Some p0" "property_ok p0" "hm_abs (properties p0) = Map.empty" "hm_size (properties p0) = 0"
    using property_new_run by blast
  obtain q where q: "set_all (map ?f (flat ord [] v)) p0 = Some q" "property_ok q"
      "hm_abs (properties q) = map_of (rev (map ?f (flat ord [] v)))"
    using set_all_run [OF p0(2), of "map ?f (flat ord [] v)"] p0(3,4) n by auto
  obtain it es where it: "begin_iterator (properties q) = Some it" "hm_items it (properties q) = Some es" "distinct (map fst es)"
      "map_of es = hm_abs (properties q)" using hm_iterates q(2) unfolding property_ok_def by blast
  obtain items where items: "es = map ?f items" "set items = leaves v" "distinct (map fst items)"
    using entries_reorder [OF t fl it(3)] it(4) q(3) by auto
  have "built (set items) (create_from_entries (map ?f items))"
  proof (rule create_built)
    show "p \<noteq> [] \<and> leaf_ok l \<and> list_all key_ok p" if "(p, l) \<in> set items" for p l
      using that items(2) plain_entries(2) [OF t, of p l] tree_leaves [OF t(1), of p l] by simp
    show "p = q" if "(p, l) \<in> set items" "(q, m) \<in> set items" "prefix p q" for p l q m
      using that items(2) leaves_prefix [OF ot, of p l q m] by simp
  qed (rule items(3))
  then show ?thesis using items(1,2) p0(1) q(1) it(1,2) parsed leaves_nonempty [OF ot]
    by (auto simp: built_def create_from_string_def property_load_def)
qed

text \<open>An appender section of a configuration, with a number, a truth value, an array and a nested object.\<close>

definition sample_tree :: property_value where
  "sample_tree = Object [(''appender'', Object [(''type'', Text ''console''), (''enable'', Boolean True), (''size'', Integral 4096)]),
     (''levels'', Array [Text ''info'', Text ''error''])]"

theorem config_tree_roundtrip_witness:
  "\<exists>r. create_from_string 0 (pv_serialize (\<lambda>ks. ks) sample_tree) = Some r \<and> get_type r = object_type
    \<and> leaves r = {([''appender'', ''type''], Text ''console''), ([''appender'', ''enable''], Boolean True),
        ([''appender'', ''size''], Integral 4096), ([''levels''], Array [Text ''info'', Text ''error''])}"
proof -
  have "tree_ok sample_tree" by code_simp
  moreover have "get_type sample_tree = object_type" "length (flat (\<lambda>ks. ks) [] sample_tree) < 2 ^ 20" by (simp_all add: sample_tree_def entry_of_def)
  moreover have "leaves sample_tree = {([''appender'', ''type''], Text ''console''), ([''appender'', ''enable''], Boolean True),
      ([''appender'', ''size''], Integral 4096), ([''levels''], Array [Text ''info'', Text ''error''])}" by (simp add: sample_tree_def insert_commute)
  ultimately show ?thesis using config_tree_roundtrip [of "\<lambda>ks. ks" sample_tree 0] by (simp only: simp_thms HOL.refl)
qed

end
