(* ===== verification/Qlog_Config.thy ===== *)
theory Qlog_Config
  imports Qlog_Property_Value Qlog_Buffer_Defs "HOL-Library.Sublist"
begin

unbundle bit_operations_syntax

text \<open>
  What the runtime reads out of a configuration: the level bitmap (\<open>src/src/runtime/log_level_bitmap.cpp\<close>), the mask of
  categories (\<open>src/src/config/filter_config.cpp\<close>) and the buffer settings (\<open>src/src/config/buffer_config.cpp\<close>).
  \<open>None\<close> is a failed assertion. The warnings printed to \<open>stderr\<close> are left out.
\<close>

section \<open>Levels\<close>

datatype log_level = verbose_level | debug_level | info_level | warning_level | error_level | fatal_level | log_level_max

fun level_code :: "log_level \<Rightarrow> nat" where
  "level_code verbose_level = 0"
| "level_code debug_level = 1"
| "level_code info_level = 2"
| "level_code warning_level = 3"
| "level_code error_level = 4"
| "level_code fatal_level = 5"
| "level_code log_level_max = 32"

definition valid_level :: "log_level \<Rightarrow> bool" where
  "valid_level level \<longleftrightarrow> level_code level \<le> 5"

type_synonym level_bitmap = u32

definition have_level :: "log_level \<Rightarrow> level_bitmap \<Rightarrow> bool option" where
  "have_level level bm = (let i = level_code level in if i < 32 then Some (bm AND push_bit i 1 \<noteq> 0) else None)"

definition add_level :: "log_level \<Rightarrow> level_bitmap \<Rightarrow> level_bitmap option" where
  "add_level level bm = (let i = level_code level in if i < 32 then Some (bm OR push_bit i 1) else None)"

definition del_level :: "log_level \<Rightarrow> level_bitmap \<Rightarrow> level_bitmap option" where
  "del_level level bm = (let i = level_code level in if i < 32 then Some (bm AND NOT (push_bit i 1)) else None)"

definition add_level_text :: "string \<Rightarrow> level_bitmap \<Rightarrow> level_bitmap option" where
  "add_level_text level_string bm =
     (if equals_ignore_case level_string ''all'' then Some 0xFFFFFFFF
      else if equals_ignore_case level_string ''verbose'' then add_level verbose_level bm
      else if equals_ignore_case level_string ''debug'' then add_level debug_level bm
      else if equals_ignore_case level_string ''info'' then add_level info_level bm
      else if equals_ignore_case level_string ''warning'' then add_level warning_level bm
      else if equals_ignore_case level_string ''error'' then add_level error_level bm
      else if equals_ignore_case level_string ''fatal'' then add_level fatal_level bm
      else Some bm)"

section \<open>Filters\<close>

definition mask_names :: "property_value \<Rightarrow> string list" where
  "mask_names config =
     (if get_type config = array_type
      then List.map_filter (\<lambda>i. as_string (pv_get_index i config)) [0..<array_size config] else [])"

fun category_mask :: "nat \<Rightarrow> string \<Rightarrow> string list \<Rightarrow> u8" where
  "category_mask i category_name [] = 0"
| "category_mask i category_name (mask_config # tmp) =
     (if category_name = mask_config
         \<or> (length category_name > length mask_config \<and> take (length mask_config) category_name = mask_config
            \<and> category_name ! length mask_config = CHR ''.'') then 1
      else if i = 0 \<and> mask_config = ''*default'' then 1
      else category_mask i category_name tmp)"

definition get_categories_mask_by_config :: "string list \<Rightarrow> property_value \<Rightarrow> u8 list \<Rightarrow> u8 list option" where
  "get_categories_mask_by_config categories_name config out =
     (if length categories_name = length out
      then
        (let tmp = mask_names config
         in Some (map (\<lambda>i. if tmp = [] then 1 else category_mask i (categories_name ! i) tmp) [0..<length categories_name]))
      else None)"

fun add_level_items :: "property_value list \<Rightarrow> level_bitmap \<Rightarrow> level_bitmap option" where
  "add_level_items [] tmp = Some tmp"
| "add_level_items (level_obj # items) tmp =
     (case as_string level_obj of
        None \<Rightarrow> add_level_items items tmp
      | Some s \<Rightarrow> Option.bind (add_level_text (trim s) tmp) (add_level_items items))"

fun get_log_level_bitmap_by_config :: "property_value \<Rightarrow> level_bitmap \<Rightarrow> (bool \<times> level_bitmap) option" where
  "get_log_level_bitmap_by_config (Array xs) out = map_option (Pair True) (add_level_items xs 0)"
| "get_log_level_bitmap_by_config _ out = Some (False, 0)"

section \<open>Buffer settings\<close>

definition buffer_policy :: "string \<Rightarrow> log_memory_policy \<Rightarrow> log_memory_policy" where
  "buffer_policy policy_config old =
     (if equals_ignore_case policy_config ''discard'' then discard_when_full
      else if equals_ignore_case policy_config ''block'' then block_when_full
      else if equals_ignore_case policy_config ''expand'' then auto_expand_when_full
      else old)"

definition get_log_buffer_config_by_config :: "bytes \<Rightarrow> bytes list \<Rightarrow> property_value \<Rightarrow> bool \<Rightarrow> log_buffer_config" where
  "get_log_buffer_config_by_config name categories log_config memory_map_supported =
     (let c = default_log_buffer_config\<lparr>log_name := name, log_categories_name := categories\<rparr>
      in if get_type log_config \<noteq> object_type then c
         else
           let c = (case as_uint32 (pv_get ''buffer_size'' log_config) of
                      Some n \<Rightarrow> c\<lparr>default_buffer_size := n\<rparr> | None \<Rightarrow> c);
               c = (case as_bool (pv_get ''recovery'' log_config) of
                      Some b \<Rightarrow> c\<lparr>need_recovery := (b \<and> memory_map_supported)\<rparr> | None \<Rightarrow> c);
               c = (case as_string (pv_get ''buffer_policy_when_full'' log_config) of
                      Some s \<Rightarrow> c\<lparr>policy := buffer_policy s (policy c)\<rparr> | None \<Rightarrow> c)
           in case as_int64 (pv_get ''high_perform_mode_freq_threshold_per_second'' log_config) of
                Some n \<Rightarrow> c\<lparr>high_frequency_threshold_per_second := (if n = 0 then - 1 else n)\<rparr>
              | None \<Rightarrow> c)"

section \<open>What they compute\<close>

definition level_name :: "log_level \<Rightarrow> string" where
  "level_name l = (case l of verbose_level \<Rightarrow> ''verbose'' | debug_level \<Rightarrow> ''debug'' | info_level \<Rightarrow> ''info''
     | warning_level \<Rightarrow> ''warning'' | error_level \<Rightarrow> ''error'' | fatal_level \<Rightarrow> ''fatal'' | log_level_max \<Rightarrow> [])"

text \<open>A level is named by a text: its own name or \<open>all\<close>, in any case.\<close>

definition names_level :: "log_level \<Rightarrow> string \<Rightarrow> bool" where
  "names_level l s \<longleftrightarrow> equals_ignore_case s ''all'' \<or> equals_ignore_case s (level_name l)"

lemma add_level_bits: "level_code l < 32 \<Longrightarrow> \<exists>b. add_level l bm = Some b \<and> (\<forall>n < 32. bit b n \<longleftrightarrow> bit bm n \<or> n = level_code l)"
  by (auto simp: add_level_def Let_def bit_simps)

lemma have_level_bit: "level_code l < 32 \<Longrightarrow> have_level l bm = Some (bit bm (level_code l))"
proof -
  assume l: "level_code l < 32"
  have "bm AND push_bit n 1 \<noteq> 0 \<longleftrightarrow> bit bm n" if "n < 32" for n
  proof
    assume "bm AND push_bit n 1 \<noteq> 0"
    then obtain k where "bit (bm AND push_bit n 1) k" using bit_eq_iff [of "bm AND push_bit n 1" 0] by auto
    then show "bit bm n" by (auto simp: bit_simps)
  next
    assume "bit bm n"
    then have "bit (bm AND push_bit n 1) n" using that by (simp add: bit_simps)
    then show "bm AND push_bit n 1 \<noteq> 0" by auto
  qed
  then show ?thesis using l by (simp add: have_level_def Let_def)
qed

lemma equals_upper: "equals_ignore_case s t \<longleftrightarrow> map toupper s = map toupper t"
  by (auto simp: equals_ignore_case_def list_all2_conv_all_nth list_eq_iff_nth_eq)

lemma add_level_text_bits:
  "\<exists>b. add_level_text s bm = Some b \<and> (\<forall>l. valid_level l \<longrightarrow> (bit b (level_code l) \<longleftrightarrow> bit bm (level_code l) \<or> names_level l s))"
proof -
  have code: "level_code l < 32" if "valid_level l" for l using that by (simp add: valid_level_def)
  have other: ?thesis if vk: "valid_level k" and adds: "add_level_text s bm = add_level k bm" and upper: "map toupper s = map toupper (level_name k)" for k
  proof -
    obtain b where b: "add_level k bm = Some b" "\<forall>n < 32. bit b n \<longleftrightarrow> bit bm n \<or> n = level_code k"
      using add_level_bits [of k bm] code [OF vk] by blast
    have "names_level l s \<longleftrightarrow> l = k" "level_code l = level_code k \<longleftrightarrow> l = k" if "valid_level l" for l
      using that vk upper
      by (cases l; cases k; simp add: names_level_def equals_upper level_name_def valid_level_def toupper_def)+
    then show ?thesis using b adds code by auto
  qed
  show ?thesis
  proof (cases "map toupper s = map toupper ''all''")
    case True
    then have a: "equals_ignore_case s ''all''" by (simp only: equals_upper)
    have "bit (0xFFFFFFFF :: u32) n" if "n < 32" for n 
    proof -
      have "(0xFFFFFFFF :: u32) = - 1" by simp
      then show ?thesis using that by (simp only: bit_minus_1_iff possible_bit_word) simp
    qed
    then show ?thesis using a code by (auto simp: add_level_text_def names_level_def)
  next
    case False
    then have a: "\<not> equals_ignore_case s ''all''" by (simp only: equals_upper not_False_eq_True)
    show ?thesis
    proof (cases "\<exists>k. valid_level k \<and> map toupper s = map toupper (level_name k)")
      case True
      then obtain k where k: "valid_level k" "map toupper s = map toupper (level_name k)" by blast
      then have "add_level_text s bm = add_level k bm"
        by (cases k) (simp_all add: add_level_text_def equals_upper level_name_def valid_level_def toupper_def)
      then show ?thesis using other k by blast
    next
      case no: False
      have none: "\<not> equals_ignore_case s (level_name k)" if "valid_level k" for k using no that by (auto simp: equals_upper)
      have "add_level_text s bm = Some bm"
        using a none [of verbose_level] none [of debug_level] none [of info_level] none [of warning_level] none [of error_level] none [of fatal_level]
        by (simp add: add_level_text_def level_name_def valid_level_def)
      then show ?thesis using a none by (simp add: names_level_def)
    qed
  qed
qed

lemma add_level_items_bits:
  "\<exists>b. add_level_items xs bm = Some b
    \<and> (\<forall>l. valid_level l \<longrightarrow> (bit b (level_code l) \<longleftrightarrow> bit bm (level_code l) \<or> (\<exists>s. Text s \<in> set xs \<and> names_level l (trim s))))"
proof (induction xs arbitrary: bm)
  case (Cons x xs)
  show ?case
  proof (cases "as_string x")
    case None
    then have "Text s \<noteq> x" for s by auto
    then show ?thesis using Cons None by auto
  next
    case (Some s)
    then have x: "x = Text s" by (cases x) auto
    obtain b where b: "add_level_text (trim s) bm = Some b"
        "\<forall>l. valid_level l \<longrightarrow> (bit b (level_code l) \<longleftrightarrow> bit bm (level_code l) \<or> names_level l (trim s))"
      using add_level_text_bits by blast
    from Cons [of b] obtain c where c: "add_level_items xs b = Some c"
        "\<forall>l. valid_level l \<longrightarrow> (bit c (level_code l) \<longleftrightarrow> bit b (level_code l) \<or> (\<exists>s. Text s \<in> set xs \<and> names_level l (trim s)))"
      by blast
    then show ?thesis using b x by auto
  qed
qed simp

text \<open>
  Property C30. The level bitmap a configuration asks for: an array always gives a bitmap, in which a level is on exactly when
  some text of the array, trimmed, names it or says \<open>all\<close>, in any case of its letters; other items are skipped.
\<close>

theorem level_bitmap_by_config:
  "\<exists>bm. get_log_level_bitmap_by_config (Array xs) out = Some (True, bm)
    \<and> (\<forall>l. valid_level l \<longrightarrow> have_level l bm = Some (\<exists>s. Text s \<in> set xs \<and> names_level l (trim s)))"
proof -
  obtain b where b: "add_level_items xs 0 = Some b"
      "\<forall>l. valid_level l \<longrightarrow> (bit b (level_code l) \<longleftrightarrow> (\<exists>s. Text s \<in> set xs \<and> names_level l (trim s)))"
    using add_level_items_bits [of xs 0] by auto
  then show ?thesis using have_level_bit by (auto simp: valid_level_def)
qed

theorem level_bitmap_by_config_witness:
  "\<exists>bm. get_log_level_bitmap_by_config (Array [Text '' Error '', Integral 3, Text ''info'']) 0 = Some (True, bm)
    \<and> have_level error_level bm = Some True \<and> have_level debug_level bm = Some False"
proof -
  obtain bm where bm: "get_log_level_bitmap_by_config (Array [Text '' Error '', Integral 3, Text ''info'']) 0 = Some (True, bm)"
      "\<forall>l. valid_level l \<longrightarrow> have_level l bm = Some (\<exists>s. Text s \<in> set [Text '' Error '', Integral 3, Text ''info''] \<and> names_level l (trim s))"
    using level_bitmap_by_config by blast
  have "names_level error_level (trim '' Error '')" "\<not> names_level debug_level (trim '' Error '')" "\<not> names_level debug_level (trim ''info'')"
    by code_simp+
  then show ?thesis using bm by (auto simp: valid_level_def)
qed

text \<open>A category is covered by a filter that is its name or a dotted prefix of it.\<close>

definition covers :: "string \<Rightarrow> string \<Rightarrow> bool" where
  "covers f category \<longleftrightarrow> category = f \<or> prefix (f @ ''.'') category"

lemma covers_code:
  "covers m c \<longleftrightarrow> c = m \<or> (length c > length m \<and> take (length m) c = m \<and> c ! length m = CHR ''.'')"
proof
  assume "covers m c"
  then show "c = m \<or> (length c > length m \<and> take (length m) c = m \<and> c ! length m = CHR ''.'')"
    by (auto simp: covers_def prefix_def nth_append)
next
  assume r: "c = m \<or> (length c > length m \<and> take (length m) c = m \<and> c ! length m = CHR ''.'')"
  show "covers m c"
  proof (cases "c = m")
    case False
    with r have "c = take (length m) c @ c ! length m # drop (Suc (length m)) c" by (intro id_take_nth_drop) simp
    then have "c = (m @ ''.'') @ drop (Suc (length m)) c" using r False by simp
    then show ?thesis unfolding covers_def prefix_def by blast
  qed (simp add: covers_def)
qed

lemma category_mask_covers:
  "category_mask i c ms = (if \<exists>m \<in> set ms. covers m c \<or> (i = 0 \<and> m = ''*default'') then 1 else 0)"
proof (induction ms)
  case (Cons m ms)
  have "category_mask i c (m # ms) = (if covers m c \<or> (i = 0 \<and> m = ''*default'') then 1 else category_mask i c ms)"
    unfolding category_mask.simps covers_code by (simp only: if_split_eq1) argo
  also have "\<dots> = (if \<exists>m \<in> set (m # ms). covers m c \<or> (i = 0 \<and> m = ''*default'') then 1 else 0)"
    unfolding Cons list.set bex_simps by argo
  finally show ?case .
qed simp

text \<open>
  Property C31. The category filter: one byte per category, which is 1 when the filter names no category at all, when some
  name of it is the category or a dotted prefix of it, or when the default category (the first) is asked for by
  \<open>*default\<close>, and 0 otherwise.
\<close>

theorem categories_mask_by_config:
  assumes "length categories_name = length out"
  shows "\<exists>ms. get_categories_mask_by_config categories_name config out = Some ms \<and> length ms = length out
    \<and> (\<forall>i < length ms. ms ! i = (if mask_names config = [] \<or> (\<exists>m \<in> set (mask_names config).
          covers m (categories_name ! i) \<or> (i = 0 \<and> m = ''*default'')) then 1 else 0))"
  using assms by (auto simp: get_categories_mask_by_config_def Let_def category_mask_covers)

theorem categories_mask_by_config_witness:
  "\<exists>ms. get_categories_mask_by_config [''base'', ''net.tcp'', ''network''] (Array [Text ''net'']) [0, 0, 0] = Some ms
    \<and> ms ! 0 = 0 \<and> ms ! 1 = 1 \<and> ms ! 2 = 0"
proof -
  have n: "mask_names (Array [Text ''net'']) = [''net'']" by (simp add: mask_names_def map_filter_simps)
  obtain ms where m: "get_categories_mask_by_config [''base'', ''net.tcp'', ''network''] (Array [Text ''net'']) [0, 0, 0] = Some ms"
      "length ms = 3" "\<forall>i < length ms. ms ! i = (if covers ''net'' ([''base'', ''net.tcp'', ''network''] ! i) then 1 else 0)"
    using categories_mask_by_config [of "[''base'', ''net.tcp'', ''network'']" "[0, 0, 0]" "Array [Text ''net'']"] n by auto
  then show ?thesis by (auto simp: covers_code)
qed

end
