(* ===== verification/Qlog_Record.thy ===== *)
theory Qlog_Record
  imports Qlog_Hash Qlog_Buffer_Defs "HOL-Library.Monad_Syntax"
begin

unbundle bit_operations_syntax

text \<open>
  Log records: how arguments are measured and copied (\<open>src/include/qlog/record/argument_serialization.hpp\<close>), the header
  and its accessors (\<open>record_header.hpp\<close>, \<open>log_entry_handle.hpp\<close>, \<open>log_entry_handle.cpp\<close>), and how a record is
  written (\<open>log.hpp\<close>, \<open>src/src/runtime/record_writer.cpp\<close>). What the templates ask about a C++ type is a record of facts;
  \<open>w\<close> is \<open>sizeof(wchar_t)\<close>. \<open>None\<close> is a failed assertion or an access outside the memory of a string or of the chunk.
\<close>

section \<open>Argument tags\<close>

datatype argument_tag =
    tag_unsupported | tag_null | tag_pointer | tag_bool | tag_char | tag_char16 | tag_char32 | tag_int8 | tag_uint8
  | tag_int16 | tag_uint16 | tag_int32 | tag_uint32 | tag_int64 | tag_uint64 | tag_float | tag_double
  | tag_string_utf8 | tag_string_utf16 | tag_string_utf32 | tag_string_utf_mixed

definition argument_tags :: "argument_tag list" where
  "argument_tags = [tag_unsupported, tag_null, tag_pointer, tag_bool, tag_char, tag_char16, tag_char32, tag_int8, tag_uint8,
     tag_int16, tag_uint16, tag_int32, tag_uint32, tag_int64, tag_uint64, tag_float, tag_double,
     tag_string_utf8, tag_string_utf16, tag_string_utf32, tag_string_utf_mixed]"

fun tag_code :: "argument_tag \<Rightarrow> u8" where
  "tag_code tag_unsupported = 0" | "tag_code tag_null = 1" | "tag_code tag_pointer = 2" | "tag_code tag_bool = 3"
| "tag_code tag_char = 4" | "tag_code tag_char16 = 5" | "tag_code tag_char32 = 6" | "tag_code tag_int8 = 7"
| "tag_code tag_uint8 = 8" | "tag_code tag_int16 = 9" | "tag_code tag_uint16 = 10" | "tag_code tag_int32 = 11"
| "tag_code tag_uint32 = 12" | "tag_code tag_int64 = 13" | "tag_code tag_uint64 = 14" | "tag_code tag_float = 15"
| "tag_code tag_double = 16" | "tag_code tag_string_utf8 = 17" | "tag_code tag_string_utf16 = 18"
| "tag_code tag_string_utf32 = 19" | "tag_code tag_string_utf_mixed = 20"

text \<open>The cast of a byte to a tag; \<open>None\<close> is a byte that no tag has.\<close>

definition tag_of :: "u8 \<Rightarrow> argument_tag option" where
  "tag_of b = (if unat b < length argument_tags then Some (argument_tags ! unat b) else None)"

section \<open>Types\<close>

datatype char_kind = kind_char | kind_char16 | kind_char32 | kind_wchar

fun char_width :: "nat \<Rightarrow> char_kind \<Rightarrow> nat" where
  "char_width w kind_char = 1"
| "char_width w kind_char16 = 2"
| "char_width w kind_char32 = 4"
| "char_width w kind_wchar = w"

datatype builtin_kind = builtin_bool | builtin_char char_kind | builtin_float | builtin_double | builtin_other

record cpp_type =
  custom_chars :: "char_kind option"
  char_pointer :: "char_kind option"
  string_width :: "nat option"
  is_null_pointer :: bool
  is_pointer :: bool
  is_pod :: bool
  builtin :: builtin_kind
  size_of :: nat
  is_unsigned :: bool

datatype serialize_kind = kind_custom | kind_utf8_string | kind_utf16_string | kind_utf32_string | kind_null_pointer
  | kind_pointer | kind_pod | kind_unsupported

definition get_serialize_kind :: "nat \<Rightarrow> cpp_type \<Rightarrow> serialize_kind" where
  "get_serialize_kind w t =
     (if custom_chars t \<noteq> None then kind_custom
      else if char_pointer t = Some kind_char \<or> string_width t = Some 1 then kind_utf8_string
      else if char_pointer t = Some kind_char16 \<or> (w = 2 \<and> char_pointer t = Some kind_wchar) \<or> string_width t = Some 2
        then kind_utf16_string
      else if char_pointer t = Some kind_char32 \<or> (w = 4 \<and> char_pointer t = Some kind_wchar) \<or> string_width t = Some 4
        then kind_utf32_string
      else if is_null_pointer t then kind_null_pointer
      else if is_pointer t then kind_pointer
      else if is_pod t then kind_pod
      else kind_unsupported)"

definition get_log_param_type_enum :: "nat \<Rightarrow> cpp_type \<Rightarrow> argument_tag" where
  "get_log_param_type_enum w t =
     (case get_serialize_kind w t of
        kind_custom \<Rightarrow> if custom_chars t = Some kind_char then tag_string_utf8 else tag_string_utf16
      | kind_utf8_string \<Rightarrow> tag_string_utf8
      | kind_utf16_string \<Rightarrow> tag_string_utf16
      | kind_utf32_string \<Rightarrow> tag_string_utf16
      | kind_null_pointer \<Rightarrow> tag_null
      | kind_pointer \<Rightarrow> tag_pointer
      | kind_unsupported \<Rightarrow> tag_unsupported
      | kind_pod \<Rightarrow>
          if builtin t = builtin_bool then tag_bool
          else if builtin t = builtin_char kind_char then tag_char
          else if builtin t = builtin_char kind_char16 \<or> (builtin t = builtin_char kind_wchar \<and> w = 2) then tag_char16
          else if builtin t = builtin_char kind_char32 \<or> (builtin t = builtin_char kind_wchar \<and> w = 4) then tag_char32
          else if builtin t = builtin_float then tag_float
          else if builtin t = builtin_double then tag_double
          else if size_of t = 1 then if is_unsigned t then tag_uint8 else tag_int8
          else if size_of t = 2 then if is_unsigned t then tag_uint16 else tag_int16
          else if size_of t = 4 then if is_unsigned t then tag_uint32 else tag_int32
          else if size_of t = 8 then if is_unsigned t then tag_uint64 else tag_int64
          else tag_unsupported)"

section \<open>Strings\<close>

text \<open>
  A string argument: a character array, a pointer to memory that holds characters from it on, or an object with a size.
  Characters are numbers; their width is that of the type.
\<close>

datatype string_value = Char_array "u32 list" | Char_pointer "u32 list option" | Char_object "u32 list"

record string_source =
  ss_data :: "u32 list"
  ss_limit :: "nat option"

text \<open>\<open>None\<close> as the limit is \<open>unbounded_string\<close>.\<close>

definition get_string_source :: "nat \<Rightarrow> string_value \<Rightarrow> string_source" where
  "get_string_source width v =
     (case v of
        Char_array cs \<Rightarrow> \<lparr>ss_data = cs, ss_limit = Some (if width \<noteq> 4 \<and> last cs = 0 then length cs - 1 else length cs)\<rparr>
      | Char_pointer None \<Rightarrow> \<lparr>ss_data = [110, 117, 108, 108, 0], ss_limit = Some 4\<rparr>
      | Char_pointer (Some cs) \<Rightarrow> \<lparr>ss_data = cs, ss_limit = None\<rparr>
      | Char_object cs \<Rightarrow> \<lparr>ss_data = cs, ss_limit = Some (length cs)\<rparr>)"

definition size_add :: "nat \<Rightarrow> nat \<Rightarrow> nat option" where
  "size_add a b = (if a + b < 2 ^ 64 then Some (a + b) else None)"

definition size_mul :: "nat \<Rightarrow> nat \<Rightarrow> nat option" where
  "size_mul a b = (if a * b < 2 ^ 64 then Some (a * b) else None)"

definition align4 :: "nat \<Rightarrow> nat option" where
  "align4 n = map_option (\<lambda>k. k - k mod 4) (size_add n 3)"

text \<open>The UTF-16 bytes a UTF-32 string needs, up to its terminator; and the length of a terminated string.\<close>

function measure_utf32 :: "u32 list \<Rightarrow> nat option \<Rightarrow> nat \<Rightarrow> nat \<Rightarrow> nat option" where
  "measure_utf32 cs limit i sz =
     (if limit = Some i then Some sz
      else if i < length cs
        then if cs ! i = 0 then Some sz
          else Option.bind (size_add sz (if cs ! i \<le> 0xFFFF then 2 else 4)) (measure_utf32 cs limit (i + 1))
      else None)"
  by pat_completeness auto
termination by (relation "measure (\<lambda>(cs, limit, i, sz). length cs - i)") auto

function count_chars :: "u32 list \<Rightarrow> nat \<Rightarrow> nat option" where
  "count_chars cs count = (if count < length cs then if cs ! count = 0 then Some count else count_chars cs (count + 1) else None)"
  by pat_completeness auto
termination by (relation "measure (\<lambda>(cs, i). length cs - i)") auto

declare measure_utf32.simps [simp del] count_chars.simps [simp del]

definition measure_string_content :: "nat \<Rightarrow> string_source \<Rightarrow> nat option" where
  "measure_string_content width s =
     (if width = 4 then measure_utf32 (ss_data s) (ss_limit s) 0 0
      else do {
        count \<leftarrow> (case ss_limit s of Some n \<Rightarrow> Some n | None \<Rightarrow> count_chars (ss_data s) 0);
        size_mul count width
      })"

definition surrogates :: "u32 \<Rightarrow> u16 \<times> u16" where
  "surrogates c = (let c = c - 0x10000 in (ucast (drop_bit 10 c + 0xD800), ucast ((c AND 0x3FF) + 0xDC00)))"

fun copy_utf32 :: "u32 list \<Rightarrow> nat option \<Rightarrow> nat \<Rightarrow> nat \<Rightarrow> bytes option" where
  "copy_utf32 cs limit i left =
     (if left = 0 then Some []
      else if limit = Some i \<or> i \<ge> length cs then None
      else
        let c = cs ! i
        in if c = 0 then None
           else if c \<le> 0xFFFF
             then if left < 2 then None else map_option ((@) (le_bytes 2 (ucast c :: u16))) (copy_utf32 cs limit (i + 1) (left - 2))
             else if left < 4 then None
               else map_option ((@) (le_bytes 2 (fst (surrogates c)) @ le_bytes 2 (snd (surrogates c))))
                 (copy_utf32 cs limit (i + 1) (left - 4)))"

declare copy_utf32.simps [simp del]

text \<open>What \<open>memcpy\<close> takes from an array of characters, and the content that is written.\<close>

definition char_bytes :: "nat \<Rightarrow> u32 list \<Rightarrow> bytes" where
  "char_bytes width cs = concat (map (le_bytes width) cs)"

definition copy_string_content :: "nat \<Rightarrow> string_source \<Rightarrow> nat \<Rightarrow> bytes option" where
  "copy_string_content width s n =
     (if n = 0 then Some []
      else if width \<noteq> 4
        then if ss_limit s \<noteq> None \<and> size_mul (the (ss_limit s)) width \<noteq> Some n then None
          else if n \<le> length (char_bytes width (ss_data s)) then Some (take n (char_bytes width (ss_data s))) else None
        else if n mod 2 \<noteq> 0 then None else copy_utf32 (ss_data s) (ss_limit s) 0 n)"

section \<open>Arguments\<close>

text \<open>
  A value with its type. A value of a custom type answers the number of its characters, and its callback fills a given
  number of bytes.
\<close>

datatype arg_value =
    Pod_value bytes
  | Pointer_value u64
  | Nullptr_value
  | String_value string_value
  | Custom_value nat "nat \<Rightarrow> bytes"

type_synonym arg = "cpp_type \<times> arg_value"

definition chars_width :: "nat \<Rightarrow> cpp_type \<Rightarrow> nat" where
  "chars_width w t = (case get_serialize_kind w t of
     kind_custom \<Rightarrow> char_width w (the (custom_chars t)) | kind_utf8_string \<Rightarrow> 1 | kind_utf16_string \<Rightarrow> 2 | _ \<Rightarrow> 4)"

fun string_data_size :: "nat \<Rightarrow> arg \<Rightarrow> nat option" where
  "string_data_size w (t, Custom_value n f) = size_mul n (chars_width w t)"
| "string_data_size w (t, String_value s) = measure_string_content (chars_width w t) (get_string_source (chars_width w t) s)"
| "string_data_size w _ = None"

fun string_content :: "nat \<Rightarrow> arg \<Rightarrow> nat \<Rightarrow> bytes option" where
  "string_content w (t, Custom_value m f) n = Some (if n = 0 then [] else f n)"
| "string_content w (t, String_value s) n = copy_string_content (chars_width w t) (get_string_source (chars_width w t) s) n"
| "string_content w _ n = None"

definition mem_put :: "bytes \<Rightarrow> nat \<Rightarrow> bytes \<Rightarrow> bytes option" where
  "mem_put m p bs = (if p + length bs \<le> length m then Some (mem_write m p bs) else None)"

definition string_type_copy :: "nat \<Rightarrow> arg \<Rightarrow> bytes \<Rightarrow> nat \<Rightarrow> nat \<Rightarrow> bytes option" where
  "string_type_copy w a m pos raw =
     (if raw < 4 \<or> raw - 4 \<ge> 2 ^ 32 then None
      else do {
        m \<leftarrow> mem_put m pos (le_bytes 4 (of_nat (raw - 4) :: u32));
        content \<leftarrow> string_content w a (raw - 4);
        mem_put m (pos + 4) content
      })"

definition is_type_constexpr_size :: "nat \<Rightarrow> cpp_type \<Rightarrow> bool" where
  "is_type_constexpr_size w t \<longleftrightarrow> get_serialize_kind w t \<in> {kind_null_pointer, kind_pointer, kind_pod}"

definition get_storage_data_size_constexpr :: "nat \<Rightarrow> bool \<Rightarrow> cpp_type \<Rightarrow> nat" where
  "get_storage_data_size_constexpr w with_tag t =
     (case get_serialize_kind w t of
        kind_null_pointer \<Rightarrow> if with_tag then 4 else 0
      | kind_pointer \<Rightarrow> 8 + (if with_tag then 4 else 0)
      | _ \<Rightarrow> size_of t + (if with_tag then if size_of t \<le> 2 then 2 else 4 else 0))"

definition get_storage_data_size :: "nat \<Rightarrow> bool \<Rightarrow> arg \<Rightarrow> nat option" where
  "get_storage_data_size w with_tag a =
     (if is_type_constexpr_size w (fst a) then Some (get_storage_data_size_constexpr w with_tag (fst a))
      else do {
        content \<leftarrow> string_data_size w a;
        if content \<ge> 2 ^ 32 then None else size_add content (if with_tag then 8 else 4)
      })"

definition type_copy :: "nat \<Rightarrow> bool \<Rightarrow> arg \<Rightarrow> bytes \<Rightarrow> nat \<Rightarrow> nat \<Rightarrow> bytes option" where
  "type_copy w with_tag a m pos raw =
     (let t = fst a
      in do {
        m \<leftarrow> (if with_tag then mem_put m pos [tag_code (get_log_param_type_enum w t)] else Some m);
        (case (get_serialize_kind w t, snd a) of
           (kind_null_pointer, _) \<Rightarrow> if raw = get_storage_data_size_constexpr w with_tag t then Some m else None
         | (kind_pointer, Pointer_value address) \<Rightarrow>
             if raw = get_storage_data_size_constexpr w with_tag t then mem_put m (pos + (if with_tag then 4 else 0)) (le_bytes 8 address) else None
         | (kind_pod, Pod_value object) \<Rightarrow>
             if raw = get_storage_data_size_constexpr w with_tag t
             then mem_put m (pos + (if with_tag then if size_of t \<le> 2 then 2 else 4 else 0)) object else None
         | _ \<Rightarrow>
             let prefix = (if with_tag then 4 else 0)
             in if raw < prefix + 4 then None else string_type_copy w a m (pos + prefix) (raw - prefix))
      })"

text \<open>The sequence of sizes, its total with every size rounded up to 4, and the arguments copied one behind the other.\<close>

fun make_size_seq :: "nat \<Rightarrow> bool \<Rightarrow> arg list \<Rightarrow> nat list option" where
  "make_size_seq w with_tag [] = Some []"
| "make_size_seq w with_tag (a # as) = do {
     n \<leftarrow> get_storage_data_size w with_tag a;
     ns \<leftarrow> make_size_seq w with_tag as;
     Some (n # ns)
   }"

fun get_total :: "nat list \<Rightarrow> nat option" where
  "get_total [] = Some 0"
| "get_total (n # ns) = do { k \<leftarrow> align4 n; r \<leftarrow> get_total ns; size_add k r }"

fun fill_arguments :: "nat \<Rightarrow> bool \<Rightarrow> bytes \<Rightarrow> nat \<Rightarrow> nat list \<Rightarrow> arg list \<Rightarrow> bytes option" where
  "fill_arguments w with_tag m pos (n # ns) (a # as) = do {
     m \<leftarrow> type_copy w with_tag a m pos n;
     k \<leftarrow> align4 n;
     fill_arguments w with_tag m (pos + k) ns as
   }"
| "fill_arguments w with_tag m pos _ _ = Some m"

end
