(* ===== verification/Qlog_Record_Strings.thy ===== *)
theory Qlog_Record_Strings
  imports Qlog_Record Qlog_Utf
begin

text \<open>
  String arguments: what is measured is what is copied. The characters of a string are its text; what is stored is the
  bytes of the characters, in UTF-16 when they are wider than that.
\<close>

section \<open>Texts\<close>

definition string_ok :: "nat \<Rightarrow> string_value \<Rightarrow> bool" where
  "string_ok width v \<longleftrightarrow> width \<in> {1, 2, 4} \<and> (case v of
     Char_array cs \<Rightarrow> cs \<noteq> [] \<and> length cs < 2 ^ 30
   | Char_pointer None \<Rightarrow> True
   | Char_pointer (Some cs) \<Rightarrow> 0 \<in> set cs \<and> length cs < 2 ^ 30
   | Char_object cs \<Rightarrow> length cs < 2 ^ 30)"

definition until_zero :: "u32 list \<Rightarrow> u32 list" where
  "until_zero cs = takeWhile (\<lambda>c. c \<noteq> 0) cs"

definition string_chars :: "nat \<Rightarrow> string_value \<Rightarrow> u32 list" where
  "string_chars width v = (case v of
     Char_array cs \<Rightarrow> if width = 4 then until_zero cs else if last cs = 0 then butlast cs else cs
   | Char_pointer None \<Rightarrow> [110, 117, 108, 108]
   | Char_pointer (Some cs) \<Rightarrow> until_zero cs
   | Char_object cs \<Rightarrow> if width = 4 then until_zero cs else cs)"

definition utf16_of :: "u32 \<Rightarrow> u16 list" where
  "utf16_of c = (if c \<le> 0xFFFF then [ucast c] else [fst (surrogates c), snd (surrogates c)])"

definition chars_content :: "nat \<Rightarrow> u32 list \<Rightarrow> bytes" where
  "chars_content width cs = (if width = 4 then utf16_bytes (concat (map utf16_of cs)) else char_bytes width cs)"

lemma length_char_bytes: "length (char_bytes width cs) = length cs * width"
  by (induction cs) (simp_all add: char_bytes_def)

lemma char_bytes_append: "char_bytes width (xs @ ys) = char_bytes width xs @ char_bytes width ys"
  by (simp add: char_bytes_def)

lemma utf16_bytes_append: "utf16_bytes (us @ vs) = utf16_bytes us @ utf16_bytes vs"
  by (simp add: utf16_bytes_def)

lemma length_utf16_bytes: "length (utf16_bytes us) = 2 * length us"
  by (induction us) (simp_all add: utf16_bytes_def)

lemma length_utf16_of: "length (utf16_of c) = (if c \<le> 0xFFFF then 1 else 2)"
  by (simp add: utf16_of_def)

lemma length_chars_content: "length (chars_content width cs) \<le> 4 * length cs" if "width \<in> {1, 2, 4}"
proof -
  have "length (concat (map utf16_of cs)) \<le> 2 * length cs" by (induction cs) (auto simp: length_utf16_of)
  then show ?thesis using that by (auto simp: chars_content_def length_utf16_bytes length_char_bytes)
qed

section \<open>Measuring and copying\<close>

lemma until_zero_shorter: "0 \<in> set cs \<Longrightarrow> length (until_zero cs) < length cs"
  by (induction cs) (auto simp: until_zero_def)

lemma until_zero_nth: "i < length (until_zero cs) \<Longrightarrow> cs ! i \<noteq> 0"
proof -
  assume i: "i < length (until_zero cs)"
  then have "cs ! i \<in> set (until_zero cs)" using nth_mem [OF i] by (simp add: until_zero_def takeWhile_nth)
  then show ?thesis by (auto simp: until_zero_def dest: set_takeWhileD)
qed

lemma until_zero_end: "0 \<in> set cs \<Longrightarrow> cs ! length (until_zero cs) = 0"
  using until_zero_shorter [of cs] nth_length_takeWhile [of "\<lambda>c. c \<noteq> 0" cs] by (simp add: until_zero_def)

lemma until_zero_take: "take (length (until_zero cs)) cs = until_zero cs"
  by (simp add: until_zero_def takeWhile_eq_take [symmetric])

lemma count_chars_run:
  assumes "i \<le> length (until_zero cs)" "0 \<in> set cs"
  shows "count_chars cs i = Some (length (until_zero cs))"
  using assms
proof (induction cs i rule: count_chars.induct)
  case (1 cs i)
  note l = until_zero_shorter [OF 1(3)]
  show ?case
  proof (cases "i = length (until_zero cs)")
    case True
    then have "cs ! i = 0" using until_zero_end [OF 1(3)] by simp
    then show ?thesis using True l by (subst count_chars.simps) simp
  next
    case False
    then have i: "i < length (until_zero cs)" using 1(2) by simp
    then have "cs ! i \<noteq> 0" by (rule until_zero_nth)
    then show ?thesis using 1(1) i l 1(3) by (subst count_chars.simps) simp
  qed
qed

text \<open>The loop reads the characters of \<open>rest\<close>, which end at the limit or at a zero.\<close>

definition ends_at :: "u32 list \<Rightarrow> nat option \<Rightarrow> nat \<Rightarrow> bool" where
  "ends_at cs limit n \<longleftrightarrow> n \<le> length cs \<and> (\<forall>i < n. cs ! i \<noteq> 0 \<and> limit \<noteq> Some i) \<and> (limit = Some n \<or> (n < length cs \<and> cs ! n = 0))"

lemma measure_utf32_run:
  assumes "ends_at cs limit n" "i \<le> n" "sz + 4 * (n - i) < 2 ^ 64"
  shows "measure_utf32 cs limit i sz = Some (sz + length (chars_content 4 (drop i (take n cs))))"
  using assms(2,3)
proof (induction "n - i" arbitrary: i sz)
  case 0
  then have "i = n" by simp
  then show ?case using assms(1) by (subst measure_utf32.simps) (auto simp: ends_at_def chars_content_def utf16_bytes_def)
next
  case (Suc k)
  then have i: "i < n" by simp
  then have c: "cs ! i \<noteq> 0" "limit \<noteq> Some i" "i < length cs" using assms(1) by (auto simp: ends_at_def)
  define u where "u = (if cs ! i \<le> 0xFFFF then 2 else 4 :: nat)"
  have d: "drop i (take n cs) = cs ! i # drop (i + 1) (take n cs)" using i c(3)
    by (metis Cons_nth_drop_Suc Suc_eq_plus1 length_take min_less_iff_conj nth_take)
  have "sz + u + 4 * (n - (i + 1)) < 2 ^ 64" using Suc.prems(2) i by (auto simp: u_def)
  from Suc.hyps(1) [OF _ _ this] have ih: "measure_utf32 cs limit (i + 1) (sz + u) = Some (sz + u + length (chars_content 4 (drop (i + 1) (take n cs))))"
    using Suc.hyps(2) i by simp
  have "size_add sz u = Some (sz + u)" using Suc.prems(2) i by (auto simp: size_add_def u_def)
  then have "measure_utf32 cs limit i sz = Some (sz + u + length (chars_content 4 (drop (i + 1) (take n cs))))"
    using c ih by (subst measure_utf32.simps) (simp add: u_def)
  moreover have "length (chars_content 4 (drop i (take n cs))) = u + length (chars_content 4 (drop (i + 1) (take n cs)))"
    by (simp add: d chars_content_def utf16_bytes_append length_utf16_bytes length_utf16_of u_def)
  ultimately show ?case by simp
qed

lemma copy_utf32_run:
  assumes "ends_at cs limit n" "i \<le> n"
  shows "copy_utf32 cs limit i (length (chars_content 4 (drop i (take n cs)))) = Some (chars_content 4 (drop i (take n cs)))"
  using assms(2)
proof (induction "n - i" arbitrary: i)
  case 0
  then show ?case by (subst copy_utf32.simps) (simp add: chars_content_def utf16_bytes_def)
next
  case (Suc k)
  then have i: "i < n" by simp
  then have c: "cs ! i \<noteq> 0" "limit \<noteq> Some i" "i < length cs" using assms(1) by (auto simp: ends_at_def)
  have d: "drop i (take n cs) = cs ! i # drop (i + 1) (take n cs)" using i c(3)
    by (metis Cons_nth_drop_Suc Suc_eq_plus1 length_take min_less_iff_conj nth_take)
  let ?r = "chars_content 4 (drop (i + 1) (take n cs))"
  have ih: "copy_utf32 cs limit (i + 1) (length ?r) = Some ?r" using Suc i by simp
  have e: "chars_content 4 (drop i (take n cs)) = utf16_bytes (utf16_of (cs ! i)) @ ?r" by (simp add: d chars_content_def utf16_bytes_append)
  show ?case unfolding e using c ih by (subst copy_utf32.simps) (auto simp: utf16_of_def utf16_bytes_def Let_def)
qed

lemma until_zero_ends: "0 \<in> set cs \<Longrightarrow> ends_at cs None (length (until_zero cs))"
  using until_zero_shorter until_zero_nth until_zero_end by (auto simp: ends_at_def less_imp_le)

lemma until_zero_limit: "ends_at cs (Some (length cs)) (length (until_zero cs))"
proof (cases "0 \<in> set cs")
  case True
  then show ?thesis using until_zero_ends [OF True] until_zero_shorter [OF True] by (auto simp: ends_at_def)
next
  case False
  then have "until_zero cs = cs" unfolding until_zero_def by (metis (mono_tags, lifting) takeWhile_eq_all_conv)
  then show ?thesis using False until_zero_nth [of _ cs] by (auto simp: ends_at_def)
qed

text \<open>The string is measured as long as its content is, and that many bytes of it are copied.\<close>

lemma utf32_measured_copied:
  assumes "ends_at (ss_data s) (ss_limit s) n" "n < 2 ^ 30"
  defines "b \<equiv> chars_content 4 (take n (ss_data s))"
  shows "measure_string_content 4 s = Some (length b) \<and> copy_string_content 4 s (length b) = Some b"
proof -
  have "even (length b)" unfolding b_def chars_content_def by (simp add: length_utf16_bytes)
  moreover have "b = []" if "length b = 0" using that by simp
  ultimately show ?thesis unfolding b_def
    using measure_utf32_run [OF assms(1), of 0 0] copy_utf32_run [OF assms(1), of 0] assms(2)
    by (auto simp: measure_string_content_def copy_string_content_def mod2_eq_if)
qed

lemma chars_measured_copied:
  assumes "width \<in> {1, 2}" "n \<le> length (ss_data s)" "n < 2 ^ 30" "ss_limit s = Some n \<or> (ss_limit s = None \<and> count_chars (ss_data s) 0 = Some n)"
  defines "b \<equiv> chars_content width (take n (ss_data s))"
  shows "measure_string_content width s = Some (length b) \<and> copy_string_content width s (length b) = Some b"
proof -
  have w: "width \<noteq> 4" using assms(1) by auto
  have l: "length b = n * width" using w assms(2) by (simp add: b_def chars_content_def length_char_bytes)
  have m: "size_mul n width = Some (n * width)" using assms(1,3) by (auto simp: size_mul_def)
  have "char_bytes width (ss_data s) = b @ char_bytes width (drop n (ss_data s))"
    unfolding b_def chars_content_def using w by (simp add: char_bytes_append [symmetric])
  then have "take (length b) (char_bytes width (ss_data s)) = b" "length b \<le> length (char_bytes width (ss_data s))" by simp_all
  then show ?thesis using w l m assms(4) by (auto simp: measure_string_content_def copy_string_content_def)
qed

lemma string_measured_copied:
  assumes "string_ok width v"
  defines "b \<equiv> chars_content width (string_chars width v)"
  shows "measure_string_content width (get_string_source width v) = Some (length b)"
    "copy_string_content width (get_string_source width v) (length b) = Some b" "length b < 2 ^ 32"
proof -
  let ?s = "get_string_source width v"
  have "\<exists>n. string_chars width v = take n (ss_data ?s) \<and> n \<le> length (ss_data ?s) \<and> n < 2 ^ 30 \<and>
    (if width = 4 then ends_at (ss_data ?s) (ss_limit ?s) n else ss_limit ?s = Some n \<or> (ss_limit ?s = None \<and> count_chars (ss_data ?s) 0 = Some n))"
  proof (cases v)
    case (Char_array cs)
    then have cs: "cs \<noteq> []" "length cs < 2 ^ 30" using assms(1) by (auto simp: string_ok_def)
    have u: "length (until_zero cs) \<le> length cs" by (simp add: until_zero_def length_takeWhile_le)
    show ?thesis
    proof (cases "width = 4")
      case True
      then show ?thesis using Char_array cs u until_zero_limit [of cs] until_zero_take [of cs]
        by (intro exI [of _ "length (until_zero cs)"]) (simp add: get_string_source_def string_chars_def)
    next
      case False
      then show ?thesis using Char_array cs
        by (intro exI [of _ "if last cs = 0 then length cs - 1 else length cs"]) (auto simp: get_string_source_def string_chars_def butlast_conv_take)
    qed
  next
    case (Char_pointer r)
    show ?thesis
    proof (cases r)
      case None
      have "[110, 117, 108, 108, 0 :: u32] ! i \<noteq> 0" if "i < 4" for i
      proof -
        have "i \<in> {0, 1, 2, 3}" using that by auto
        then show ?thesis by auto
      qed
      then have "ends_at [110, 117, 108, 108, 0 :: u32] (Some 4) 4" by (auto simp: ends_at_def)
      then show ?thesis using Char_pointer None by (intro exI [of _ 4]) (simp add: get_string_source_def string_chars_def)
    next
      case (Some cs)
      then have cs: "0 \<in> set cs" "length cs < 2 ^ 30" using assms(1) Char_pointer by (auto simp: string_ok_def)
      then show ?thesis using Char_pointer Some until_zero_ends [of cs] until_zero_take [of cs] count_chars_run [of 0 cs] until_zero_shorter [of cs]
        by (intro exI [of _ "length (until_zero cs)"]) (simp add: get_string_source_def string_chars_def)
    qed
  next
    case (Char_object cs)
    then have cs: "length cs < 2 ^ 30" using assms(1) by (auto simp: string_ok_def)
    have u: "length (until_zero cs) \<le> length cs" by (simp add: until_zero_def length_takeWhile_le)
    show ?thesis using Char_object cs u until_zero_limit [of cs] until_zero_take [of cs]
      by (intro exI [of _ "if width = 4 then length (until_zero cs) else length cs"]) (simp add: get_string_source_def string_chars_def)
  qed
  then obtain n where n: "string_chars width v = take n (ss_data ?s)" "n \<le> length (ss_data ?s)" "n < 2 ^ 30"
      "if width = 4 then ends_at (ss_data ?s) (ss_limit ?s) n else ss_limit ?s = Some n \<or> (ss_limit ?s = None \<and> count_chars (ss_data ?s) 0 = Some n)"
    by blast
  have w: "width \<in> {1, 2, 4}" using assms(1) by (auto simp: string_ok_def)
  show "measure_string_content width ?s = Some (length b)" "copy_string_content width ?s (length b) = Some b"
    using utf32_measured_copied [of ?s n] chars_measured_copied [of width n ?s] n w by (auto simp: b_def split: if_splits)
  show "length b < 2 ^ 32" using length_chars_content [OF w, of "string_chars width v"] n(1-3) by (simp add: b_def)
qed

end
