(* ===== verification/Qlog_Record_Writer.thy ===== *)
theory Qlog_Record_Writer
  imports Qlog_Record Qlog_Config
begin

unbundle bit_operations_syntax

text \<open>
  The header of a record and its accessors, the writer of records and the check of records that were recovered from a file.
  A record is the list of its bytes; the chunk it is written to is what the buffer of the log hands out, with whatever
  bytes are there.
\<close>

section \<open>The header\<close>

record record_header =
  timestamp_epoch :: u64
  ext_info_offset :: u32
  category_idx :: u32
  log_thread_id :: u64
  format_hash :: u64
  log_format_str_type :: u8
  level :: u8
  log_format_data_len :: u32

definition record_head_size :: nat where "record_head_size = 40"

definition get_log_head :: "bytes \<Rightarrow> record_header" where
  "get_log_head m =
     \<lparr>timestamp_epoch = le_word (mem_read m 0 8), ext_info_offset = load_u32 m 8, category_idx = load_u32 m 12,
      log_thread_id = le_word (mem_read m 16 8), format_hash = le_word (mem_read m 24 8),
      log_format_str_type = m ! 32, level = m ! 33, log_format_data_len = load_u32 m 36\<rparr>"

text \<open>The assignments to the fields; the padding keeps what is there.\<close>

definition put_head :: "record_header \<Rightarrow> bytes \<Rightarrow> bytes" where
  "put_head h m =
     (let m = mem_write m 0 (le_bytes 8 (timestamp_epoch h));
          m = store_u32 m 8 (ext_info_offset h);
          m = store_u32 m 12 (category_idx h);
          m = mem_write m 16 (le_bytes 8 (log_thread_id h));
          m = mem_write m 24 (le_bytes 8 (format_hash h));
          m = m[32 := log_format_str_type h];
          m = m[33 := level h]
      in store_u32 m 36 (log_format_data_len h))"

definition round4 :: "nat \<Rightarrow> nat" where
  "round4 n = (n + 3) - (n + 3) mod 4"

definition get_log_args_offset :: "bytes \<Rightarrow> nat" where
  "get_log_args_offset m = record_head_size + round4 (unat (log_format_data_len (get_log_head m)))"

definition get_log_args_data :: "bytes \<Rightarrow> bytes" where
  "get_log_args_data m = drop (get_log_args_offset m) m"

definition get_log_args_data_size :: "bytes \<Rightarrow> u32" where
  "get_log_args_data_size m = ext_info_offset (get_log_head m) - of_nat (get_log_args_offset m)"

definition get_format_string_data :: "bytes \<Rightarrow> bytes" where
  "get_format_string_data m = drop record_head_size m"

section \<open>Checking a record\<close>

text \<open>The bytes an argument at \<open>cursor\<close> takes; \<open>None\<close> when the check refuses it.\<close>

fun fixed_step :: "argument_tag \<Rightarrow> nat option" where
  "fixed_step tag_null = Some 4" | "fixed_step tag_bool = Some 4" | "fixed_step tag_char = Some 4" | "fixed_step tag_char16 = Some 4"
| "fixed_step tag_int8 = Some 4" | "fixed_step tag_uint8 = Some 4" | "fixed_step tag_int16 = Some 4" | "fixed_step tag_uint16 = Some 4"
| "fixed_step tag_char32 = Some 8" | "fixed_step tag_int32 = Some 8" | "fixed_step tag_uint32 = Some 8" | "fixed_step tag_float = Some 8"
| "fixed_step tag_pointer = Some 12" | "fixed_step tag_int64 = Some 12" | "fixed_step tag_uint64 = Some 12" | "fixed_step tag_double = Some 12"
| "fixed_step _ = None"

definition arg_step :: "bytes \<Rightarrow> nat \<Rightarrow> nat \<Rightarrow> nat option" where
  "arg_step m cursor remaining =
     (case tag_of (m ! cursor) of
        None \<Rightarrow> None
      | Some tag \<Rightarrow>
          if tag = tag_string_utf8 \<or> tag = tag_string_utf16
          then if remaining < 8 then None else Some (8 + round4 (unat (load_u32 m (cursor + 4))))
          else fixed_step tag)"

lemma fixed_step_pos: "fixed_step tag = Some step \<Longrightarrow> 4 \<le> step"
  by (cases tag) simp_all

lemma arg_step_pos: "arg_step m cursor remaining = Some step \<Longrightarrow> 0 < step"
  using fixed_step_pos by (fastforce simp: arg_step_def split: option.splits if_splits)

function validate_args :: "bytes \<Rightarrow> nat \<Rightarrow> nat \<Rightarrow> bool" where
  "validate_args m cursor ext =
     (if cursor < ext
      then
        (let remaining = ext - cursor
         in if remaining < 4 then False
            else case arg_step m cursor remaining of
                None \<Rightarrow> False
              | Some step \<Rightarrow> if step > remaining then False else validate_args m (cursor + step) ext)
      else cursor = ext)"
  by pat_completeness auto
termination by (relation "measure (\<lambda>(m, cursor, ext). ext - cursor)") (auto dest: arg_step_pos)

declare validate_args.simps [simp del]

definition validate :: "bytes \<Rightarrow> bool" where
  "validate m =
     (if length m < record_head_size + 1 then False
      else
        let header = get_log_head m
        in if tag_of (log_format_str_type header) \<notin> {Some tag_string_utf8, Some tag_string_utf16, Some tag_string_utf32} then False
           else
             let args_begin = record_head_size + round4 (unat (log_format_data_len header));
                 ext = unat (ext_info_offset header)
             in if args_begin > length m \<or> ext < args_begin \<or> ext + 1 > length m then False
                else if ext + 1 + unat (m ! ext) > length m then False
                else validate_args m args_begin ext)"

section \<open>Writing a record\<close>

text \<open>What the writer keeps for each thread: its number and its name, cut to 16 bytes.\<close>

record thread_info =
  thread_id :: u64
  thread_name :: bytes

definition thread_info_of :: "u64 \<Rightarrow> bytes \<Rightarrow> thread_info" where
  "thread_info_of tid name = \<lparr>thread_id = tid, thread_name = take 16 name\<rparr>"

definition length_without_ext_info :: "u32 \<Rightarrow> u32 \<Rightarrow> u32" where
  "length_without_ext_info format_len args_len = ucast (40 + align_4 (ucast format_len) + ucast args_len :: u64)"

text \<open>
  \<open>log_write_begin\<close>. \<open>alloc\<close> stands for the lookup of the log, its synchronous buffer and the allocation from its buffer with
  the retry loop: the chunk of the size asked for, or \<open>None\<close> where the result is not \<open>success\<close>. The result is \<open>Some None\<close> for such
  a handle, the chunk with the header (and the format text, where the caller gives one) for a handle with the result \<open>success\<close>,
  and \<open>None\<close> for an access outside the chunk or the source.
\<close>

definition log_write_begin :: "crc_ops option \<Rightarrow> (u32 \<Rightarrow> bytes option) \<Rightarrow> thread_info \<Rightarrow> u64 \<Rightarrow> u8 \<Rightarrow> u32 \<Rightarrow> u8 \<Rightarrow> u32 \<Rightarrow> bytes option \<Rightarrow> u32
    \<Rightarrow> bytes option option" where
  "log_write_begin hw alloc thread epoch_ms log_level category_index format_string_type format_len format_data args_len =
     (let ext_offset = length_without_ext_info format_len args_len;
          total_length = ext_offset + (1 + of_nat (length (thread_name thread)))
      in case alloc total_length of
          None \<Rightarrow> Some None
        | Some m \<Rightarrow>
            let h = \<lparr>timestamp_epoch = epoch_ms, ext_info_offset = ext_offset, category_idx = category_index,
                     log_thread_id = thread_id thread, format_hash = 0, log_format_str_type = format_string_type,
                     level = log_level, log_format_data_len = format_len\<rparr>
            in if length m < record_head_size then None
               else case format_data of
                   None \<Rightarrow> Some (Some (put_head h m))
                 | Some src \<Rightarrow>
                     if length src < unat format_len \<or> length m < record_head_size + unat format_len then None
                     else
                       let (hash, copy) = qlog_memcpy_with_hash hw (mem_read m record_head_size (unat format_len)) (take (unat format_len) src) (unat format_len)
                       in Some (Some (mem_write (put_head (h\<lparr>format_hash := hash\<rparr>) m) record_head_size copy)))"

definition log_write_finish :: "thread_info \<Rightarrow> bytes \<Rightarrow> bytes option" where
  "log_write_finish thread m =
     (let ext = unat (ext_info_offset (get_log_head m))
      in do {
        m \<leftarrow> mem_put m ext [of_nat (length (thread_name thread))];
        mem_put m (ext + 1) (thread_name thread)
      })"

text \<open>The members of \<open>log_imp\<close> that decide whether a call is logged, and with a stack trace.\<close>

record log_filter =
  merged_log_level_bitmap :: level_bitmap
  categories_mask_array :: "u8 list"
  print_stack_level_bitmap :: level_bitmap

definition is_enable_for :: "log_filter \<Rightarrow> u32 \<Rightarrow> log_level \<Rightarrow> bool option" where
  "is_enable_for log category_index lv = do {
     enabled \<leftarrow> have_level lv (merged_log_level_bitmap log);
     if \<not> enabled then Some False
     else if unat category_index < length (categories_mask_array log)
     then Some (categories_mask_array log ! unat category_index \<noteq> 0)
     else None
   }"

definition is_stack_trace_enable_for :: "log_filter \<Rightarrow> log_level \<Rightarrow> bool option" where
  "is_stack_trace_enable_for log lv = have_level lv (print_stack_level_bitmap log)"

text \<open>\<open>log::is_enable_for\<close>: \<open>impl\<close> is the pointer to the log, \<open>None\<close> when it is null.\<close>

definition log_is_enable_for :: "log_filter option \<Rightarrow> u32 \<Rightarrow> log_level \<Rightarrow> bool option" where
  "log_is_enable_for impl category_index lv =
     (case impl of None \<Rightarrow> Some False | Some log \<Rightarrow> is_enable_for log category_index lv)"

text \<open>
  \<open>do_log\<close>. The result \<open>None\<close> is an access outside memory or a failed assertion, \<open>Some None\<close> is \<open>return false\<close> with nothing
  written, and \<open>Some (Some m)\<close> is \<open>return true\<close> with the committed record \<open>m\<close>. \<open>trace\<close> is what the platform gives as the stack trace.
\<close>

definition do_log :: "nat \<Rightarrow> crc_ops option \<Rightarrow> log_filter option \<Rightarrow> (u32 \<Rightarrow> bytes option) \<Rightarrow> thread_info \<Rightarrow> u64 \<Rightarrow> bytes \<Rightarrow> u32 \<Rightarrow> log_level
    \<Rightarrow> arg \<Rightarrow> arg list \<Rightarrow> bytes option option" where
  "do_log w hw impl alloc thread epoch_ms trace category_index lv fmt args =
     (let tag = get_log_param_type_enum w (fst fmt)
      in if tag \<notin> {tag_string_utf8, tag_string_utf16} then None
         else do {
           enabled \<leftarrow> log_is_enable_for impl category_index lv;
           if \<not> enabled then Some None
           else case impl of
               None \<Rightarrow> None
             | Some log \<Rightarrow> do {
                 should_print_stack \<leftarrow> is_stack_trace_enable_for log lv;
                 let stack = (if should_print_stack then Some trace else None);
                 let stack_data = (case stack of None \<Rightarrow> [] | Some s \<Rightarrow> s);
                 format_size \<leftarrow> string_data_size w fmt;
                 let total_format_size = format_size + length stack_data;
                 sizes \<leftarrow> make_size_seq w True args;
                 let format_data =
                   (if get_serialize_kind w (fst fmt) \<in> {kind_utf8_string, kind_utf16_string} \<and> stack = None
                    then case snd fmt of
                        String_value s \<Rightarrow> Some (char_bytes (chars_width w (fst fmt)) (ss_data (get_string_source (chars_width w (fst fmt)) s)))
                      | _ \<Rightarrow> None
                    else None);
                 total_args \<leftarrow> get_total sizes;
                 handle \<leftarrow> log_write_begin hw alloc thread epoch_ms (of_nat (level_code lv)) category_index (tag_code tag)
                   (of_nat total_format_size) format_data (of_nat total_args);
                 case handle of
                     None \<Rightarrow> Some None
                   | Some m \<Rightarrow> do {
                       m \<leftarrow> (if format_data = None
                             then do {
                               m \<leftarrow> type_copy w False fmt m (record_head_size - 4) (format_size + 4);
                               m \<leftarrow> mem_put m (record_head_size + format_size) stack_data;
                               Some (store_u32 m (record_head_size - 4) (of_nat total_format_size))
                             }
                             else Some m);
                       m \<leftarrow> fill_arguments w True m (record_head_size + round4 total_format_size) sizes args;
                       m \<leftarrow> log_write_finish thread m;
                       Some (Some m)
                     }
               }
         })"

end
