(* ===== verification/Qlog_Record_Correct.thy ===== *)
theory Qlog_Record_Correct
  imports Qlog_Record_Strings Qlog_Record_Writer Qlog_Hash_Correct
begin

text \<open>
  A record that was written holds its header, its format text and its arguments where its readers look for them, and the
  check of records accepts it.
\<close>

section \<open>Arguments\<close>

text \<open>
  A value fits its type: objects have the size of their type, strings lie in memory that ends them, and a callback
  fills the bytes it is given. The sizes of the built-in types are those of every supported platform.
\<close>

definition builtin_ok :: "nat \<Rightarrow> cpp_type \<Rightarrow> bool" where
  "builtin_ok w t \<longleftrightarrow> size_of t \<in> {1, 2, 4, 8} \<and> w \<in> {2, 4} \<and>
     (case builtin t of
        builtin_bool \<Rightarrow> size_of t = 1
      | builtin_char k \<Rightarrow> size_of t = char_width w k
      | builtin_float \<Rightarrow> size_of t = 4
      | builtin_double \<Rightarrow> size_of t = 8
      | builtin_other \<Rightarrow> True)"

definition arg_ok :: "nat \<Rightarrow> arg \<Rightarrow> bool" where
  "arg_ok w a \<longleftrightarrow>
     (case (get_serialize_kind w (fst a), snd a) of
        (kind_null_pointer, Nullptr_value) \<Rightarrow> True
      | (kind_pointer, Pointer_value _) \<Rightarrow> True
      | (kind_pod, Pod_value bs) \<Rightarrow> length bs = size_of (fst a) \<and> builtin_ok w (fst a)
      | (kind_custom, Custom_value n f) \<Rightarrow> char_width w (the (custom_chars (fst a))) \<le> 2 \<and> n < 2 ^ 30 \<and> (\<forall>k. length (f k) = k)
      | (kind_utf8_string, String_value s) \<Rightarrow> string_ok 1 s
      | (kind_utf16_string, String_value s) \<Rightarrow> string_ok 2 s
      | (kind_utf32_string, String_value s) \<Rightarrow> string_ok 4 s
      | _ \<Rightarrow> False)"

definition is_text :: "nat \<Rightarrow> arg \<Rightarrow> bool" where
  "is_text w a \<longleftrightarrow> get_serialize_kind w (fst a) \<in> {kind_custom, kind_utf8_string, kind_utf16_string, kind_utf32_string}"

definition text_content :: "nat \<Rightarrow> arg \<Rightarrow> bytes" where
  "text_content w a = (case snd a of
     Custom_value n f \<Rightarrow> if n * chars_width w (fst a) = 0 then [] else f (n * chars_width w (fst a))
   | String_value s \<Rightarrow> chars_content (chars_width w (fst a)) (string_chars (chars_width w (fst a)) s)
   | _ \<Rightarrow> [])"

lemma text_arg:
  assumes "arg_ok w a" "is_text w a"
  shows "string_data_size w a = Some (length (text_content w a))" "string_content w a (length (text_content w a)) = Some (text_content w a)"
    "length (text_content w a) < 2 ^ 32"
proof -
  obtain t v where a: "a = (t, v)" by force
  have "string_data_size w a = Some (length (text_content w a)) \<and> string_content w a (length (text_content w a)) = Some (text_content w a)
    \<and> length (text_content w a) < 2 ^ 32"
  proof (cases v)
    case (Custom_value n f)
    then have k: "get_serialize_kind w t = kind_custom" "char_width w (the (custom_chars t)) \<le> 2" "n < 2 ^ 30" "\<forall>k. length (f k) = k"
      using assms a by (auto simp: arg_ok_def is_text_def split: serialize_kind.splits)
    have b: "n * char_width w (the (custom_chars t)) < 2 ^ 32" using k(2,3)
      by (rule_tac le_less_trans [of _ "n * 2"]) simp_all
    then show ?thesis using Custom_value a k by (auto simp: text_content_def size_mul_def chars_width_def)
  next
    case (String_value s)
    then have "string_ok (chars_width w t) s" using assms a
      by (auto simp: arg_ok_def is_text_def chars_width_def split: serialize_kind.splits)
    then show ?thesis using String_value a string_measured_copied [of "chars_width w t" s] by (simp add: text_content_def)
  qed (use assms a in \<open>auto simp: arg_ok_def is_text_def split: serialize_kind.splits\<close>)
  then show "string_data_size w a = Some (length (text_content w a))" "string_content w a (length (text_content w a)) = Some (text_content w a)"
    "length (text_content w a) < 2 ^ 32" by simp_all
qed

text \<open>What is stored behind the tag, and where.\<close>

definition payload :: "nat \<Rightarrow> arg \<Rightarrow> bytes" where
  "payload w a = (if is_text w a then le_bytes 4 (of_nat (length (text_content w a)) :: u32) @ text_content w a
     else case snd a of Pod_value bs \<Rightarrow> bs | Pointer_value x \<Rightarrow> le_bytes 8 x | _ \<Rightarrow> [])"

definition payload_pos :: "nat \<Rightarrow> arg \<Rightarrow> nat" where
  "payload_pos w a = (if get_serialize_kind w (fst a) = kind_pod \<and> size_of (fst a) \<le> 2 then 2 else 4)"

definition arg_size :: "nat \<Rightarrow> arg \<Rightarrow> nat" where
  "arg_size w a = payload_pos w a + length (payload w a)"

lemma arg_cases:
  assumes "arg_ok w a"
  obtains "is_text w a" | t where "a = (t, Nullptr_value)" "get_serialize_kind w t = kind_null_pointer"
  | t x where "a = (t, Pointer_value x)" "get_serialize_kind w t = kind_pointer"
  | t bs where "a = (t, Pod_value bs)" "get_serialize_kind w t = kind_pod" "length bs = size_of t" "builtin_ok w t"
proof (cases a)
  case (Pair t v)
  then show ?thesis using assms that
    by (cases "get_serialize_kind w t"; cases v) (auto simp: arg_ok_def is_text_def)
qed

lemma arg_size_stored:
  assumes "arg_ok w a"
  shows "get_storage_data_size w True a = Some (arg_size w a)" "arg_size w a < 2 ^ 33"
proof -
  have "get_storage_data_size w True a = Some (arg_size w a) \<and> arg_size w a < 2 ^ 33"
  proof (cases rule: arg_cases [OF assms])
    case 1
    then have "\<not> is_type_constexpr_size w (fst a)" "get_serialize_kind w (fst a) \<noteq> kind_pod" by (auto simp: is_text_def is_type_constexpr_size_def)
    then show ?thesis using text_arg [OF assms 1] 1
      by (simp add: get_storage_data_size_def arg_size_def payload_def payload_pos_def size_add_def)
  next
    case (2 t)
    then show ?thesis
      by (simp add: get_storage_data_size_def is_type_constexpr_size_def get_storage_data_size_constexpr_def arg_size_def payload_def payload_pos_def is_text_def)
  next
    case (3 t x)
    then show ?thesis
      by (simp add: get_storage_data_size_def is_type_constexpr_size_def get_storage_data_size_constexpr_def arg_size_def payload_def payload_pos_def is_text_def)
  next
    case (4 t bs)
    then show ?thesis
      by (auto simp: get_storage_data_size_def is_type_constexpr_size_def get_storage_data_size_constexpr_def arg_size_def payload_def payload_pos_def
          is_text_def builtin_ok_def)
  qed
  then show "get_storage_data_size w True a = Some (arg_size w a)" "arg_size w a < 2 ^ 33" by simp_all
qed

definition tag_byte :: "nat \<Rightarrow> arg \<Rightarrow> u8" where
  "tag_byte w a = tag_code (get_log_param_type_enum w (fst a))"

definition put_arg :: "nat \<Rightarrow> arg \<Rightarrow> nat \<Rightarrow> bytes \<Rightarrow> bytes" where
  "put_arg w a p m = mem_write (m[p := tag_byte w a]) (p + payload_pos w a) (payload w a)"

lemma mem_put_ok: "p + length bs \<le> length m \<Longrightarrow> mem_put m p bs = Some (mem_write m p bs)"
  by (simp add: mem_put_def)

lemma mem_write_Nil: "mem_write m p [] = m"
  by (simp add: mem_write_def)

lemma mem_write_one: "p < length m \<Longrightarrow> mem_write m p [b] = m[p := b]"
  by (simp add: mem_write_def upd_conv_take_nth_drop)

lemma mem_write_append:
  assumes "p + length xs + length ys \<le> length m"
  shows "mem_write (mem_write m p xs) (p + length xs) ys = mem_write m p (xs @ ys)"
proof -
  have p: "p \<le> length m" using assms by simp
  have "take (p + length xs) (mem_write m p xs) = take p m @ xs" "drop (p + length xs + length ys) (mem_write m p xs) = drop (p + length xs + length ys) m"
    using p assms by (simp_all add: mem_write_def ac_simps)
  then show ?thesis by (simp add: mem_write_def add.assoc)
qed

lemma type_copy_run:
  assumes "arg_ok w a" "p + arg_size w a \<le> length m"
  shows "type_copy w True a m p (arg_size w a) = Some (put_arg w a p m)"
proof -
  have pl: "p < length m" using assms(2) by (auto simp: arg_size_def payload_pos_def split: if_splits)
  then have tag: "mem_put m p [tag_code (get_log_param_type_enum w (fst a))] = Some (m[p := tag_byte w a])"
    by (simp add: mem_put_ok mem_write_one tag_byte_def)
  show ?thesis
  proof (cases rule: arg_cases [OF assms(1)])
    case 1
    note s = text_arg [OF assms(1) 1]
    have pos: "payload_pos w a = 4" "arg_size w a = 8 + length (text_content w a)"
      using 1 by (auto simp: payload_pos_def arg_size_def payload_def is_text_def)
    have k: "get_serialize_kind w (fst a) \<in> {kind_custom, kind_utf8_string, kind_utf16_string, kind_utf32_string}" using 1 by (simp add: is_text_def)
    have "string_type_copy w a (m[p := tag_byte w a]) (p + 4) (4 + length (text_content w a)) = Some (put_arg w a p m)"
      using s assms(2) pos 1 mem_write_append [of "p + 4" "le_bytes 4 (of_nat (length (text_content w a)) :: u32)" "text_content w a" "m[p := tag_byte w a]"]
      by (simp add: string_type_copy_def mem_put_ok put_arg_def payload_def)
    moreover have "type_copy w True a m p raw = (if raw < 8 then None else string_type_copy w a (m[p := tag_byte w a]) (p + 4) (raw - 4))" for raw
      using k tag by (cases "get_serialize_kind w (fst a)") (simp_all add: type_copy_def Let_def)
    ultimately show ?thesis using pos by simp
  next
    case (2 t)
    then show ?thesis using tag assms(2)
      by (simp add: type_copy_def arg_size_def payload_pos_def payload_def is_text_def get_storage_data_size_constexpr_def put_arg_def mem_write_Nil)
  next
    case (3 t x)
    then show ?thesis using tag assms(2)
      by (simp add: type_copy_def arg_size_def payload_pos_def payload_def is_text_def get_storage_data_size_constexpr_def put_arg_def mem_put_ok)
  next
    case (4 t bs)
    then show ?thesis using tag assms(2)
      by (auto simp: type_copy_def arg_size_def payload_pos_def payload_def is_text_def get_storage_data_size_constexpr_def put_arg_def mem_put_ok)
  qed
qed

section \<open>Arguments in memory\<close>

definition arg_at :: "nat \<Rightarrow> bytes \<Rightarrow> nat \<Rightarrow> arg \<Rightarrow> bool" where
  "arg_at w m p a \<longleftrightarrow> p + arg_size w a \<le> length m \<and> m ! p = tag_byte w a
     \<and> mem_read m (p + payload_pos w a) (length (payload w a)) = payload w a"

fun args_at :: "nat \<Rightarrow> bytes \<Rightarrow> nat \<Rightarrow> arg list \<Rightarrow> bool" where
  "args_at w m p [] \<longleftrightarrow> True"
| "args_at w m p (a # as) \<longleftrightarrow> arg_at w m p a \<and> args_at w m (p + round4 (arg_size w a)) as"

definition args_size :: "nat \<Rightarrow> arg list \<Rightarrow> nat" where
  "args_size w as = sum_list (map (\<lambda>a. round4 (arg_size w a)) as)"

lemma round4_bounds: "n \<le> round4 n" "round4 n < n + 4" "4 dvd round4 n"
proof -
  have m: "(n + 3) mod 4 < 4" by simp
  then show "n \<le> round4 n" unfolding round4_def by linarith
  show "round4 n < n + 4" unfolding round4_def by linarith
  show "4 dvd round4 n" by (simp add: round4_def minus_mod_eq_mult_div)
qed

lemma round4_add_8: "round4 (8 + n) = 8 + round4 n"
proof -
  have "8 + n + 3 = (n + 3) + 2 * 4" by simp
  then have "(8 + n + 3) mod 4 = (n + 3) mod 4" by (metis mod_mult_self1)
  moreover have "(n + 3) mod 4 \<le> n + 3" by (rule mod_less_eq_dividend)
  ultimately show ?thesis unfolding round4_def by linarith
qed

lemma align4_round4: "n < 2 ^ 63 \<Longrightarrow> align4 n = Some (round4 n)"
  by (simp add: align4_def size_add_def round4_def)

lemma put_arg_other: "length (put_arg w a p m) = length m" "i < length m \<Longrightarrow> i < p \<or> p + arg_size w a \<le> i \<Longrightarrow> put_arg w a p m ! i = m ! i"
  if "p + arg_size w a \<le> length m"
proof -
  have pos: "0 < payload_pos w a" by (simp add: payload_pos_def)
  show "length (put_arg w a p m) = length m" using that by (simp add: put_arg_def arg_size_def)
  show "put_arg w a p m ! i = m ! i" if i: "i < length m" "i < p \<or> p + arg_size w a \<le> i"
    using \<open>p + arg_size w a \<le> length m\<close> i pos by (auto simp: put_arg_def arg_size_def nth_mem_write)
qed

lemma put_arg_at: "p + arg_size w a \<le> length m \<Longrightarrow> arg_at w (put_arg w a p m) p a"
proof -
  assume l: "p + arg_size w a \<le> length m"
  have pos: "0 < payload_pos w a" by (simp add: payload_pos_def)
  have "put_arg w a p m ! p = tag_byte w a" using l pos by (simp add: put_arg_def arg_size_def nth_mem_write)
  moreover have "mem_read (put_arg w a p m) (p + payload_pos w a) (length (payload w a)) = payload w a"
    using l by (simp add: put_arg_def arg_size_def mem_read_write_same)
  ultimately show ?thesis using l put_arg_other(1) [OF l] by (simp add: arg_at_def)
qed

text \<open>An argument stays where it is while other bytes change.\<close>

lemma arg_at_cong:
  assumes "arg_at w m p a" "length m' = length m" "\<And>i. p \<le> i \<Longrightarrow> i < p + arg_size w a \<Longrightarrow> m' ! i = m ! i"
  shows "arg_at w m' p a"
proof -
  have pos: "0 < payload_pos w a" by (simp add: payload_pos_def)
  have "mem_read m' (p + payload_pos w a) (length (payload w a)) = mem_read m (p + payload_pos w a) (length (payload w a))"
    using assms by (intro mem_read_cong) (auto simp: arg_at_def arg_size_def)
  then show ?thesis using assms pos by (auto simp: arg_at_def arg_size_def)
qed

lemma args_at_cong:
  assumes "args_at w m p as" "length m' = length m" "\<And>i. p \<le> i \<Longrightarrow> i < p + args_size w as \<Longrightarrow> m' ! i = m ! i"
  shows "args_at w m' p as"
  using assms
proof (induction as arbitrary: p)
  case (Cons a as)
  have "arg_at w m' p a" using Cons.prems round4_bounds(1) [of "arg_size w a"]
    by (intro arg_at_cong [of w m p a m']) (auto simp: args_size_def)
  moreover have "args_at w m' (p + round4 (arg_size w a)) as" using Cons.prems by (intro Cons.IH) (auto simp: args_size_def)
  ultimately show ?case by simp
qed simp

lemma size_seq_run:
  assumes "list_all (arg_ok w) as" "args_size w as < 2 ^ 62"
  shows "make_size_seq w True as = Some (map (arg_size w) as)" "get_total (map (arg_size w) as) = Some (args_size w as)"
proof -
  show "make_size_seq w True as = Some (map (arg_size w) as)" using assms(1) by (induction as) (auto simp: arg_size_stored(1))
  show "get_total (map (arg_size w) as) = Some (args_size w as)" using assms
  proof (induction as)
    case (Cons a as)
    have "arg_size w a < 2 ^ 63" using arg_size_stored(2) [of w a] Cons.prems(1) by simp
    then show ?case using Cons align4_round4 [of "arg_size w a"] by (simp add: args_size_def size_add_def)
  qed (simp add: args_size_def)
qed

lemma fill_arguments_run:
  assumes "list_all (arg_ok w) as" "p + args_size w as \<le> length m"
  shows "\<exists>m'. fill_arguments w True m p (map (arg_size w) as) as = Some m' \<and> length m' = length m \<and> args_at w m' p as
    \<and> (\<forall>i < length m. i < p \<or> p + args_size w as \<le> i \<longrightarrow> m' ! i = m ! i)"
  using assms
proof (induction as arbitrary: p m)
  case (Cons a as)
  let ?r = "round4 (arg_size w a)"
  have ok: "arg_ok w a" and s: "args_size w (a # as) = ?r + args_size w as" using Cons.prems(1) by (simp_all add: args_size_def)
  have l: "p + arg_size w a \<le> length m" using Cons.prems(2) s round4_bounds(1) [of "arg_size w a"] by simp
  note put = put_arg_other [OF l]
  obtain m' where m': "fill_arguments w True (put_arg w a p m) (p + ?r) (map (arg_size w) as) as = Some m'" "length m' = length m"
      "args_at w m' (p + ?r) as" "\<forall>i < length m. i < p + ?r \<or> p + ?r + args_size w as \<le> i \<longrightarrow> m' ! i = put_arg w a p m ! i"
    using Cons.IH [of "p + ?r" "put_arg w a p m"] Cons.prems s put(1) by auto
  have "arg_at w m' p a"
  proof (rule arg_at_cong [OF put_arg_at [OF l]])
    show "length m' = length (put_arg w a p m)" using m'(2) put(1) by simp
    show "m' ! i = put_arg w a p m ! i" if "p \<le> i" "i < p + arg_size w a" for i
      using m'(4) that l round4_bounds(1) [of "arg_size w a"] by simp
  qed
  moreover have "\<forall>i < length m. i < p \<or> p + args_size w (a # as) \<le> i \<longrightarrow> m' ! i = m ! i"
    using m'(4) put(2) s round4_bounds(1) [of "arg_size w a"] by auto
  moreover have "align4 (arg_size w a) = Some ?r" using align4_round4 arg_size_stored(2) [OF ok] by simp
  ultimately show ?case using m' type_copy_run [OF ok l] by auto
qed (simp add: args_size_def)

section \<open>The check accepts what was written\<close>

lemma tag_of_code: "tag_of (tag_code t) = Some t"
proof -
  have "unat (tag_code t) < length argument_tags \<and> argument_tags ! unat (tag_code t) = t"
    by (cases t) (simp_all add: argument_tags_def)
  then show ?thesis by (simp add: tag_of_def)
qed

lemma text_tag: "is_text w a \<Longrightarrow> get_log_param_type_enum w (fst a) \<in> {tag_string_utf8, tag_string_utf16}"
  by (cases "get_serialize_kind w (fst a)") (simp_all add: is_text_def get_log_param_type_enum_def)

text \<open>The tag of an object tells its size.\<close>

lemma pod_tag:
  assumes "get_serialize_kind w t = kind_pod" "builtin_ok w t"
  shows "fixed_step (get_log_param_type_enum w t) = Some (if size_of t \<le> 2 then 4 else if size_of t = 4 then 8 else 12)"
    "get_log_param_type_enum w t \<noteq> tag_string_utf8" "get_log_param_type_enum w t \<noteq> tag_string_utf16"
proof -
  have s: "size_of t \<in> {1, 2, 4, 8}" "w \<in> {2, 4}" using assms(2) by (simp_all add: builtin_ok_def)
  have "fixed_step (get_log_param_type_enum w t) = Some (if size_of t \<le> 2 then 4 else if size_of t = 4 then 8 else 12)
    \<and> get_log_param_type_enum w t \<noteq> tag_string_utf8 \<and> get_log_param_type_enum w t \<noteq> tag_string_utf16"
  proof (cases "builtin t")
    case (builtin_char k)
    then show ?thesis using assms s(2) by (cases k) (auto simp: get_log_param_type_enum_def builtin_ok_def)
  qed (use assms s in \<open>auto simp: get_log_param_type_enum_def builtin_ok_def\<close>)
  then show "fixed_step (get_log_param_type_enum w t) = Some (if size_of t \<le> 2 then 4 else if size_of t = 4 then 8 else 12)"
    "get_log_param_type_enum w t \<noteq> tag_string_utf8" "get_log_param_type_enum w t \<noteq> tag_string_utf16" by blast+
qed

lemma arg_step_at:
  assumes "arg_ok w a" "arg_at w m p a" "round4 (arg_size w a) \<le> remaining"
  shows "arg_step m p remaining = Some (round4 (arg_size w a))"
proof -
  have tag: "tag_of (m ! p) = Some (get_log_param_type_enum w (fst a))" using assms(2) by (simp add: arg_at_def tag_byte_def tag_of_code)
  show ?thesis
  proof (cases rule: arg_cases [OF assms(1)])
    case 1
    note s = text_arg [OF assms(1) 1]
    have pos: "payload_pos w a = 4" "arg_size w a = 8 + length (text_content w a)"
      using 1 by (auto simp: payload_pos_def arg_size_def payload_def is_text_def)
    have "mem_read m (p + 4) (4 + length (text_content w a)) = le_bytes 4 (of_nat (length (text_content w a)) :: u32) @ text_content w a"
      using assms(2) 1 pos by (simp add: arg_at_def payload_def)
    then have "take 4 (mem_read m (p + 4) (4 + length (text_content w a))) = le_bytes 4 (of_nat (length (text_content w a)) :: u32)" by simp
    then have "mem_read m (p + 4) 4 = le_bytes 4 (of_nat (length (text_content w a)) :: u32)" by (simp add: mem_read_def min_def)
    then have "load_u32 m (p + 4) = of_nat (length (text_content w a))" by (simp add: load_u32_def le_word_bytes)
    then have "unat (load_u32 m (p + 4)) = length (text_content w a)" using s(3) by (simp add: unat_of_nat)
    moreover have "8 \<le> remaining" using assms(3) pos(2) round4_bounds(1) [of "arg_size w a"] by simp
    ultimately show ?thesis using text_tag [OF 1] tag pos round4_add_8 by (auto simp: arg_step_def)
  next
    case (2 t)
    then show ?thesis using tag
      by (simp add: arg_step_def get_log_param_type_enum_def arg_size_def payload_pos_def payload_def is_text_def round4_def)
  next
    case (3 t x)
    then show ?thesis using tag
      by (simp add: arg_step_def get_log_param_type_enum_def arg_size_def payload_pos_def payload_def is_text_def round4_def)
  next
    case (4 t bs)
    then have n: "arg_size w a = (if size_of t \<le> 2 then 2 else 4) + size_of t" by (simp add: arg_size_def payload_pos_def payload_def is_text_def)
    then have "round4 (arg_size w a) = (if size_of t \<le> 2 then 4 else if size_of t = 4 then 8 else 12)"
      using 4(4) by (auto simp: builtin_ok_def round4_def)
    then show ?thesis using tag pod_tag [OF 4(2,4)] 4(1) by (simp add: arg_step_def)
  qed
qed

lemma arg_size_pos: "4 \<le> round4 (arg_size w a)"
proof -
  have "1 \<le> arg_size w a" by (simp add: arg_size_def payload_pos_def)
  then show ?thesis using round4_bounds(1,3) [of "arg_size w a"] by (auto simp: dvd_def)
qed

lemma validate_args_at:
  assumes "list_all (arg_ok w) as" "args_at w m p as"
  shows "validate_args m p (p + args_size w as)"
  using assms
proof (induction as arbitrary: p)
  case (Cons a as)
  let ?r = "round4 (arg_size w a)"
  have s: "args_size w (a # as) = ?r + args_size w as" by (simp add: args_size_def)
  have st: "arg_step m p (?r + args_size w as) = Some ?r" using Cons.prems by (intro arg_step_at) simp_all
  have ih: "validate_args m (p + ?r) (p + ?r + args_size w as)" using Cons by simp
  show ?case using st ih arg_size_pos [of w a] by (subst validate_args.simps) (simp add: s Let_def add.assoc)
qed (simp add: args_size_def validate_args.simps)

end
