(* ===== verification/Qlog_Record_Props.thy ===== *)
theory Qlog_Record_Props
  imports Qlog_Record_Correct
begin

text \<open>
  What a record holds once it is written, from the header to the name of the thread, and that the check of records
  accepts it.
\<close>

section \<open>The header\<close>

lemma length_put_head: "40 \<le> length m \<Longrightarrow> length (put_head h m) = length m"
  by (simp add: put_head_def Let_def)

lemma put_head_other: "40 \<le> length m \<Longrightarrow> 40 \<le> i \<Longrightarrow> i < length m \<Longrightarrow> put_head h m ! i = m ! i"
  by (simp add: put_head_def Let_def nth_mem_write store_u32_def)

lemma get_put_head: "40 \<le> length m \<Longrightarrow> get_log_head (put_head h m) = h"
proof -
  assume l: "40 \<le> length m"
  define m1 where "m1 = mem_write m 0 (le_bytes 8 (timestamp_epoch h))"
  define m2 where "m2 = store_u32 m1 8 (ext_info_offset h)"
  define m3 where "m3 = store_u32 m2 12 (category_idx h)"
  define m4 where "m4 = mem_write m3 16 (le_bytes 8 (log_thread_id h))"
  define m5 where "m5 = mem_write m4 24 (le_bytes 8 (format_hash h))"
  define m6 where "m6 = m5[32 := log_format_str_type h, 33 := level h]"
  have len: "length m1 = length m" "length m2 = length m" "length m3 = length m" "length m4 = length m" "length m5 = length m" "length m6 = length m"
    using l by (simp_all add: m1_def m2_def m3_def m4_def m5_def m6_def)
  have p: "put_head h m = store_u32 m6 36 (log_format_data_len h)"
    by (simp add: put_head_def Let_def m1_def m2_def m3_def m4_def m5_def m6_def)
  have same: "mem_read (store_u32 m6 36 v) p n = mem_read m5 p n" if "p + n \<le> 32" for p n v
    using that l len by (intro mem_read_cong) (auto simp: store_u32_def nth_mem_write m6_def nth_list_update)
  have r0: "mem_read m5 0 8 = le_bytes 8 (timestamp_epoch h)" using l len
    by (simp add: m5_def m4_def m3_def m2_def m1_def store_u32_def mem_read_write_disjoint mem_read_write_same)
  have r8: "mem_read m5 8 4 = le_bytes 4 (ext_info_offset h)" using l len
    by (simp add: m5_def m4_def m3_def m2_def store_u32_def mem_read_write_disjoint mem_read_write_same)
  have r12: "mem_read m5 12 4 = le_bytes 4 (category_idx h)" using l len
    by (simp add: m5_def m4_def m3_def store_u32_def mem_read_write_disjoint mem_read_write_same)
  have r16: "mem_read m5 16 8 = le_bytes 8 (log_thread_id h)" using l len
    by (simp add: m5_def m4_def mem_read_write_disjoint mem_read_write_same)
  have r24: "mem_read m5 24 8 = le_bytes 8 (format_hash h)" using l len by (simp add: m5_def mem_read_write_same)
  have b: "put_head h m ! 32 = log_format_str_type h" "put_head h m ! 33 = level h" using l len
    unfolding p by (simp_all add: store_u32_def nth_mem_write m6_def)
  have f: "load_u32 (put_head h m) 36 = log_format_data_len h" using l len unfolding p by (simp add: load_store_u32_same)
  show ?thesis unfolding get_log_head_def load_u32_def using b f [unfolded load_u32_def]
    by (simp add: p same r0 r8 r12 r16 r24 le_word_bytes)
qed

lemma get_log_head_cong:
  assumes "length m' = length m" "40 \<le> length m" "\<And>i. i < 40 \<Longrightarrow> m' ! i = m ! i"
  shows "get_log_head m' = get_log_head m"
proof -
  have "mem_read m' p n = mem_read m p n" if "p + n \<le> 40" for p n using assms that by (intro mem_read_cong) auto
  then show ?thesis using assms(3) by (simp add: get_log_head_def load_u32_def)
qed

section \<open>Lengths\<close>

lemma unat_and_not_3:
  assumes "unat n + 3 < 2 ^ LENGTH('a)" "2 < LENGTH('a)"
  shows "unat ((n + 3) AND NOT 3 :: 'a::len word) = round4 (unat n)"
proof -
  let ?x = "n + 3"
  have "unat (3 :: 'a word) = 3"
  proof -
    have "(3 :: nat) < 2 ^ LENGTH('a)" using assms by linarith
    then have "unat (of_nat 3 :: 'a word) = 3" unfolding unat_of_nat by simp
    then show ?thesis by simp
  qed
  then have x: "unat ?x = unat n + 3" using assms by (simp add: unat_word_ariths)
  have "(?x AND 3) + (?x AND NOT 3) = ?x" by (subst disjunctive_add) (auto simp: bit_simps intro: bit_word_eqI)
  then have "?x AND NOT 3 = ?x - (?x AND 3)" by (simp add: algebra_simps)
  moreover have m: "unat (?x AND 3) = unat ?x mod 4"
  proof -
    have "unat (2 ^ 2 :: 'a word) = 2 ^ 2" using assms(2) by (intro unat_pow2) simp
    then show ?thesis using mask_AND_mod [of "4 :: 'a word" 2 ?x] assms(2) by simp
  qed
  moreover have "unat (?x - (?x AND 3)) = unat ?x - unat (?x AND 3)"
  proof (rule unat_sub)
    show "?x AND 3 \<le> ?x" using m mod_less_eq_dividend [of "unat ?x" 4] by (simp add: word_le_nat_alt)
  qed
  ultimately show ?thesis using x by (simp add: round4_def)
qed

lemma unat_align_4: "unat n < 2 ^ 63 \<Longrightarrow> unat (align_4 n) = round4 (unat n)"
  using unat_and_not_3 [of n] by (simp add: align_4_def)

lemma length_without_ext:
  assumes "40 + round4 (unat f) + unat a < 2 ^ 32"
  shows "unat (length_without_ext_info f a) = 40 + round4 (unat f) + unat a"
proof -
  have "unat (align_4 (ucast f)) = round4 (unat f)" using unat_align_4 [of "ucast f"] u32_less [of f] by simp
  then have "unat (40 + align_4 (ucast f) + ucast a :: u64) = 40 + round4 (unat f) + unat a" using assms by (simp add: unat_word_ariths)
  then show ?thesis using assms by (simp add: length_without_ext_info_def unsigned_ucast_eq take_bit_nat_eq_self)
qed

section \<open>The format text\<close>

text \<open>The part of a record that was written when the arguments follow.\<close>

definition format_stored :: "record_header \<Rightarrow> bytes \<Rightarrow> nat \<Rightarrow> bytes \<Rightarrow> bool" where
  "format_stored h text n m \<longleftrightarrow> length m = n \<and> get_log_head m = h \<and> mem_read m 40 (length text) = text \<and> 40 + length text \<le> n"

lemma format_stored_cong:
  assumes "format_stored h text n m" "length m' = n" "\<And>i. i < 40 + length text \<Longrightarrow> m' ! i = m ! i"
  shows "format_stored h text n m'"
proof -
  have "get_log_head m' = h" using assms get_log_head_cong [of m' m] by (simp add: format_stored_def)
  moreover have "mem_read m' 40 (length text) = mem_read m 40 (length text)" using assms by (intro mem_read_cong) (auto simp: format_stored_def)
  ultimately show ?thesis using assms by (simp add: format_stored_def)
qed

lemma format_copied:
  assumes "40 + length t \<le> length m" "take (length t) src = t"
  shows "\<exists>hash. (let (hash, copy) = qlog_memcpy_with_hash hw (mem_read m 40 (length t)) (take (length t) src) (length t)
      in Some (mem_write (put_head (h\<lparr>format_hash := hash\<rparr>) m) 40 copy)) = Some (mem_write (put_head (h\<lparr>format_hash := hash\<rparr>) m) 40 t)
    \<and> format_stored (h\<lparr>format_hash := hash\<rparr>) t (length m) (mem_write (put_head (h\<lparr>format_hash := hash\<rparr>) m) 40 t)"
proof -
  have c: "qlog_memcpy_with_hash hw (mem_read m 40 (length t)) t (length t) = (get_hash_64 hw t, t)"
    using hash_copy [of t "mem_read m 40 (length t)" hw] assms(1) by simp
  let ?h = "h\<lparr>format_hash := get_hash_64 hw t\<rparr>"
  have l: "length (mem_write (put_head ?h m) 40 t) = length m" using assms(1) by (simp add: length_put_head)
  have "get_log_head (mem_write (put_head ?h m) 40 t) = get_log_head (put_head ?h m)"
    using assms(1) by (intro get_log_head_cong) (auto simp: nth_mem_write length_put_head)
  then have "format_stored ?h t (length m) (mem_write (put_head ?h m) 40 t)"
    using assms(1) l by (simp add: format_stored_def get_put_head mem_read_write_same length_put_head)
  then show ?thesis using c assms by (intro exI [of _ "get_hash_64 hw t"]) simp
qed

lemma text_type_copy_plain:
  assumes "arg_ok w a" "is_text w a" "p + 4 + length (text_content w a) \<le> length m"
  shows "type_copy w False a m p (length (text_content w a) + 4)
    = Some (mem_write m p (le_bytes 4 (of_nat (length (text_content w a)) :: u32) @ text_content w a))"
proof -
  have k: "get_serialize_kind w (fst a) \<in> {kind_custom, kind_utf8_string, kind_utf16_string, kind_utf32_string}" using assms(2) by (simp add: is_text_def)
  have "type_copy w False a m p raw = (if raw < 4 then None else string_type_copy w a m p raw)" for raw
    using k by (cases "get_serialize_kind w (fst a)") (simp_all add: type_copy_def Let_def)
  then show ?thesis
    using text_arg [OF assms(1,2)] assms(3) mem_write_append [of p "le_bytes 4 (of_nat (length (text_content w a)) :: u32)" "text_content w a" m]
    by (simp add: string_type_copy_def mem_put_ok)
qed

text \<open>Without a pointer to the text, the text is copied behind its length, the stack trace follows, and the length is corrected.\<close>

lemma format_inserted:
  assumes "arg_ok w a" "is_text w a" "40 + length (text_content w a) + length stack \<le> length m"
    and "get_log_head m = h" "log_format_data_len h = of_nat (length (text_content w a) + length stack)"
  shows "\<exists>m'. do { m \<leftarrow> type_copy w False a m 36 (length (text_content w a) + 4); m \<leftarrow> mem_put m (40 + length (text_content w a)) stack;
      Some (store_u32 m 36 (of_nat (length (text_content w a) + length stack))) } = Some m'
    \<and> format_stored h (text_content w a @ stack) (length m) m'"
proof -
  let ?c = "text_content w a"
  let ?m1 = "mem_write m 36 (le_bytes 4 (of_nat (length ?c) :: u32) @ ?c)"
  let ?m2 = "mem_write ?m1 (40 + length ?c) stack"
  let ?m3 = "store_u32 ?m2 36 (of_nat (length ?c + length stack))"
  have t: "type_copy w False a m 36 (length ?c + 4) = Some ?m1" using text_type_copy_plain [OF assms(1,2), of 36 m] assms(3) by simp
  have l: "length ?m1 = length m" "length ?m2 = length m" "length ?m3 = length m" using assms(3) by simp_all
  have head: "get_log_head ?m3 = h"
  proof -
    have "mem_read ?m3 p n = mem_read m p n" if "p + n \<le> 36" for p n
      using that assms(3) l by (intro mem_read_cong) (auto simp: store_u32_def nth_mem_write)
    moreover have "?m3 ! i = m ! i" if "i < 36" for i using that assms(3) l by (simp add: store_u32_def nth_mem_write)
    moreover have "load_u32 ?m3 36 = log_format_data_len h" using assms(3,5) l by (simp add: load_store_u32_same)
    moreover have "load_u32 m 36 = log_format_data_len h" using assms(4) by (auto simp: get_log_head_def)
    ultimately show ?thesis unfolding assms(4) [symmetric] by (simp add: get_log_head_def load_u32_def)
  qed
  have "mem_read ?m3 40 (length ?c) = ?c"
  proof -
    have "mem_read ?m3 40 (length ?c) = mem_read ?m1 40 (length ?c)" using assms(3) l
      by (intro mem_read_cong) (auto simp: store_u32_def nth_mem_write)
    then show ?thesis using assms(3) by (simp add: mem_read_def mem_write_def min_def)
  qed
  moreover have "mem_read ?m3 (40 + length ?c) (length stack) = stack"
  proof -
    have "mem_read ?m3 (40 + length ?c) (length stack) = mem_read ?m2 (40 + length ?c) (length stack)" using assms(3) l
      by (intro mem_read_cong) (auto simp: store_u32_def nth_mem_write)
    then show ?thesis using assms(3) l by (simp add: mem_read_write_same)
  qed
  moreover have "mem_read x p (i + j) = mem_read x p i @ mem_read x (p + i) j" for x p i j
    by (simp add: mem_read_def take_add add.commute)
  ultimately have "mem_read ?m3 40 (length (?c @ stack)) = ?c @ stack" by simp
  then have "format_stored h (?c @ stack) (length m) ?m3" using head l assms(3) by (simp add: format_stored_def)
  then show ?thesis using t assms(3) l by (simp add: mem_put_ok)
qed

section \<open>The whole record\<close>

definition record_text :: "nat \<Rightarrow> bytes option \<Rightarrow> arg \<Rightarrow> bytes" where
  "record_text w stack fmt = text_content w fmt @ (case stack of None \<Rightarrow> [] | Some s \<Rightarrow> s)"

definition record_size :: "nat \<Rightarrow> thread_info \<Rightarrow> bytes option \<Rightarrow> arg \<Rightarrow> arg list \<Rightarrow> nat" where
  "record_size w thread stack fmt args = 40 + round4 (length (record_text w stack fmt)) + args_size w args + 1 + length (thread_name thread)"

text \<open>The record holds what was logged.\<close>

definition holds_record :: "nat \<Rightarrow> thread_info \<Rightarrow> u64 \<Rightarrow> u32 \<Rightarrow> u8 \<Rightarrow> bytes option \<Rightarrow> arg \<Rightarrow> arg list \<Rightarrow> bytes \<Rightarrow> bool" where
  "holds_record w thread epoch_ms category_index log_level stack fmt args m \<longleftrightarrow>
     (let h = get_log_head m; t = record_text w stack fmt; args_pos = 40 + round4 (length t); ext = args_pos + args_size w args
      in length m = record_size w thread stack fmt args
         \<and> timestamp_epoch h = epoch_ms \<and> unat (ext_info_offset h) = ext \<and> category_idx h = category_index
         \<and> log_thread_id h = thread_id thread \<and> log_format_str_type h = tag_code (get_log_param_type_enum w (fst fmt))
         \<and> level h = log_level \<and> unat (log_format_data_len h) = length t
         \<and> mem_read m 40 (length t) = t \<and> args_at w m args_pos args
         \<and> m ! ext = of_nat (length (thread_name thread)) \<and> drop (ext + 1) m = thread_name thread)"

lemma source_text:
  assumes "arg_ok w (t, String_value s)" "get_serialize_kind w t \<in> {kind_utf8_string, kind_utf16_string}"
  shows "take (length (text_content w (t, String_value s))) (char_bytes (chars_width w t) (ss_data (get_string_source (chars_width w t) s)))
      = text_content w (t, String_value s)"
    "length (text_content w (t, String_value s)) \<le> length (char_bytes (chars_width w t) (ss_data (get_string_source (chars_width w t) s)))"
proof -
  let ?c = "text_content w (t, String_value s)"
  have x: "is_text w (t, String_value s)" using assms(2) by (auto simp: is_text_def)
  have w: "chars_width w t \<noteq> 4" using assms(2) by (auto simp: chars_width_def)
  have "copy_string_content (chars_width w t) (get_string_source (chars_width w t) s) (length ?c) = Some ?c" using text_arg(2) [OF assms(1) x] by simp
  then show "take (length ?c) (char_bytes (chars_width w t) (ss_data (get_string_source (chars_width w t) s))) = ?c"
    "length ?c \<le> length (char_bytes (chars_width w t) (ss_data (get_string_source (chars_width w t) s)))"
    using w by (auto simp: copy_string_content_def split: if_splits)
qed

lemma finish_run:
  assumes "unat (ext_info_offset (get_log_head m)) = E" "length m = E + 1 + length (thread_name thread)"
  shows "\<exists>m'. log_write_finish thread m = Some m' \<and> length m' = length m \<and> (\<forall>i < E. m' ! i = m ! i)
    \<and> m' ! E = of_nat (length (thread_name thread)) \<and> drop (E + 1) m' = thread_name thread"
proof -
  let ?m = "mem_write (mem_write m E [of_nat (length (thread_name thread))]) (E + 1) (thread_name thread)"
  have "log_write_finish thread m = Some ?m" using assms by (simp add: log_write_finish_def Let_def mem_put_ok)
  moreover have "length ?m = length m" "\<forall>i < E. ?m ! i = m ! i" "?m ! E = of_nat (length (thread_name thread))" "drop (E + 1) ?m = thread_name thread"
    using assms(2) by (simp_all add: nth_mem_write) (simp add: mem_write_def)
  ultimately show ?thesis by blast
qed

lemma record_valid:
  assumes "arg_ok w fmt" "is_text w fmt" "list_all (arg_ok w) args" "length (thread_name thread) \<le> 16"
    and "holds_record w thread epoch_ms category_index log_level stack fmt args m"
  shows "validate m"
proof -
  let ?p = "40 + round4 (length (record_text w stack fmt))"
  let ?E = "?p + args_size w args"
  have m: "length m = ?E + 1 + length (thread_name thread)" "unat (ext_info_offset (get_log_head m)) = ?E"
      "unat (log_format_data_len (get_log_head m)) = length (record_text w stack fmt)" "args_at w m ?p args"
      "log_format_str_type (get_log_head m) = tag_code (get_log_param_type_enum w (fst fmt))" "m ! ?E = of_nat (length (thread_name thread))"
    using assms(5) by (simp_all add: holds_record_def Let_def record_size_def)
  have "unat (m ! ?E) = length (thread_name thread)" using m(6) assms(4) by (simp add: unat_of_nat)
  moreover have "tag_of (log_format_str_type (get_log_head m)) \<in> {Some tag_string_utf8, Some tag_string_utf16, Some tag_string_utf32}"
    using m(5) text_tag [OF assms(2)] by (auto simp: tag_of_code)
  ultimately show ?thesis using m(1-3) validate_args_at [OF assms(3) m(4)]
    by (simp add: validate_def Let_def record_head_size_def)
qed

definition format_source :: "nat \<Rightarrow> bytes option \<Rightarrow> arg \<Rightarrow> bytes option" where
  "format_source w stack fmt =
     (if get_serialize_kind w (fst fmt) \<in> {kind_utf8_string, kind_utf16_string} \<and> stack = None
      then case snd fmt of String_value s \<Rightarrow> Some (char_bytes (chars_width w (fst fmt)) (ss_data (get_string_source (chars_width w (fst fmt)) s)))
        | _ \<Rightarrow> None else None)"

lemma format_written:
  fixes stack h fmt w m0
  defines "c \<equiv> text_content w fmt" and "t \<equiv> record_text w stack fmt" and "fd \<equiv> format_source w stack fmt"
  assumes ok: "arg_ok w fmt" "is_text w fmt" and m0: "40 + length t \<le> length m0"
    and h: "log_format_data_len h = of_nat (length t)" "format_hash h = 0"
  shows "\<exists>hash m1. do {
      m \<leftarrow> (case fd of None \<Rightarrow> Some (put_head h m0)
           | Some src \<Rightarrow> if length src < length t then None
               else let (hash, copy) = qlog_memcpy_with_hash hw (mem_read m0 40 (length t)) (take (length t) src) (length t)
                 in Some (mem_write (put_head (h\<lparr>format_hash := hash\<rparr>) m0) 40 copy));
      if fd = None then do { m \<leftarrow> type_copy w False fmt m 36 (length c + 4);
        m \<leftarrow> mem_put m (40 + length c) (case stack of None \<Rightarrow> [] | Some s \<Rightarrow> s); Some (store_u32 m 36 (of_nat (length t))) }
      else Some m } = Some m1 \<and> format_stored (h\<lparr>format_hash := hash\<rparr>) t (length m0) m1"
proof (cases fd)
  case None
  have "get_log_head (put_head h m0) = h" "length (put_head h m0) = length m0" using get_put_head [of m0 h] length_put_head [of m0 h] m0 by simp_all
  then have "\<exists>m1. do { m \<leftarrow> type_copy w False fmt (put_head h m0) 36 (length c + 4); m \<leftarrow> mem_put m (40 + length c) (case stack of None \<Rightarrow> [] | Some s \<Rightarrow> s);
      Some (store_u32 m 36 (of_nat (length t))) } = Some m1 \<and> format_stored h t (length m0) m1"
    using format_inserted [OF ok, of "case stack of None \<Rightarrow> [] | Some s \<Rightarrow> s" "put_head h m0" h] m0 h(1) by (simp add: c_def t_def record_text_def)
  moreover have "h\<lparr>format_hash := 0\<rparr> = h" using h(2) by (cases h) simp
  ultimately show ?thesis using None by (intro exI [of _ 0]) simp
next
  case (Some src)
  then obtain s where f: "snd fmt = String_value s" "get_serialize_kind w (fst fmt) \<in> {kind_utf8_string, kind_utf16_string}" "stack = None"
      "src = char_bytes (chars_width w (fst fmt)) (ss_data (get_string_source (chars_width w (fst fmt)) s))"
    by (auto simp: fd_def format_source_def split: if_splits arg_value.splits)
  have fm: "fmt = (fst fmt, String_value s)" using f(1) by (metis prod.collapse)
  have src: "take (length t) src = t" "length t \<le> length src"
    using source_text [of w "fst fmt" s] fm ok(1) f(2-4) by (auto simp: t_def record_text_def)
  show ?thesis using format_copied [OF m0 src(1), of hw h] Some src by auto
qed

text \<open>The stack trace a call prints.\<close>

definition printed_stack :: "log_filter option \<Rightarrow> log_level \<Rightarrow> bytes \<Rightarrow> bytes option" where
  "printed_stack impl lv trace =
     (case impl of None \<Rightarrow> None | Some log \<Rightarrow> if is_stack_trace_enable_for log lv = Some True then Some trace else None)"

lemma stack_decided: "valid_level lv \<Longrightarrow> \<exists>b. is_stack_trace_enable_for log lv = Some b"
  by (simp add: is_stack_trace_enable_for_def have_level_def valid_level_def Let_def)

lemma enable_decided:
  "valid_level lv \<Longrightarrow> \<forall>log. impl = Some log \<longrightarrow> unat category_index < length (categories_mask_array log)
    \<Longrightarrow> \<exists>b. log_is_enable_for impl category_index lv = Some b"
  by (auto simp: log_is_enable_for_def is_enable_for_def have_level_def valid_level_def Let_def split: option.splits)

lemma do_log_enabled:
  assumes ok: "arg_ok w fmt" "is_text w fmt" "list_all (arg_ok w) args" and A: "args_size w args < 2 ^ 32"
    and enabled: "log_is_enable_for impl category_index lv = Some True" and lv: "valid_level lv"
    and defs: "stack = printed_stack impl lv trace" "t = record_text w stack fmt" "c = text_content w fmt"
  shows "do_log w hw impl alloc thread epoch_ms trace category_index lv fmt args = do {
    handle \<leftarrow> log_write_begin hw alloc thread epoch_ms (of_nat (level_code lv)) category_index (tag_code (get_log_param_type_enum w (fst fmt)))
      (of_nat (length t)) (format_source w stack fmt) (of_nat (args_size w args));
    case handle of None \<Rightarrow> Some None
    | Some m \<Rightarrow> do {
        m \<leftarrow> (if format_source w stack fmt = None
              then do { m \<leftarrow> type_copy w False fmt m (40 - 4) (length c + 4); m \<leftarrow> mem_put m (40 + length c) (case stack of None \<Rightarrow> [] | Some s \<Rightarrow> s);
                Some (store_u32 m (40 - 4) (of_nat (length t))) }
              else Some m);
        m \<leftarrow> fill_arguments w True m (40 + round4 (length t)) (map (arg_size w) args) args;
        m \<leftarrow> log_write_finish thread m;
        Some (Some m) } }"
proof -
  have seq: "make_size_seq w True args = Some (map (arg_size w) args)" "get_total (map (arg_size w) args) = Some (args_size w args)"
    using size_seq_run [OF ok(3)] A by simp_all
  have sz: "string_data_size w fmt = Some (length c)" using text_arg(1) [OF ok(1,2)] by (simp add: defs)
  have lt: "length c + length (case stack of None \<Rightarrow> [] | Some s \<Rightarrow> s) = length t" by (simp add: defs(2,3) record_text_def)
  obtain log b where log: "impl = Some log" "is_stack_trace_enable_for log lv = Some b" "stack = (if b then Some trace else None)"
    using enabled stack_decided [OF lv] by (auto simp: log_is_enable_for_def defs(1) printed_stack_def split: option.splits)
  show ?thesis
    using text_tag [OF ok(2)] unfolding do_log_def Let_def enabled [unfolded log(1)] log(1) bind.bind_lunit option.case not_True_eq_False if_False
      log(2) log(3) [symmetric] record_head_size_def format_source_def [symmetric] sz seq lt by (simp only: if_False not_not if_True simp_thms)
qed

lemma do_log_run:
  assumes ok: "arg_ok w fmt" "is_text w fmt" "list_all (arg_ok w) args"
    and alloc: "\<And>n m. alloc n = Some m \<Longrightarrow> length m = unat n" and name: "length (thread_name thread) \<le> 16"
    and size: "record_size w thread (printed_stack impl lv trace) fmt args < 2 ^ 32"
    and enabled: "log_is_enable_for impl category_index lv = Some True" and lv: "valid_level lv"
  shows "case alloc (of_nat (record_size w thread (printed_stack impl lv trace) fmt args)) of
      None \<Rightarrow> do_log w hw impl alloc thread epoch_ms trace category_index lv fmt args = Some None
    | Some _ \<Rightarrow> \<exists>m. do_log w hw impl alloc thread epoch_ms trace category_index lv fmt args = Some (Some m)
        \<and> holds_record w thread epoch_ms category_index (of_nat (level_code lv)) (printed_stack impl lv trace) fmt args m"
proof -
  define stack where "stack = printed_stack impl lv trace"
  define log_level :: u8 where "log_level = of_nat (level_code lv)"
  note size = size [folded stack_def]
  define st where "st = (case stack of None \<Rightarrow> [] | Some s \<Rightarrow> s)"
  define c where "c = text_content w fmt"
  define t where "t = record_text w stack fmt"
  define tag where "tag = get_log_param_type_enum w (fst fmt)"
  define A where "A = args_size w args"
  define E where "E = 40 + round4 (length t) + A"
  define n where "n = length (thread_name thread)"
  have E: "E + 1 + n < 2 ^ 32" "record_size w thread stack fmt args = E + 1 + n"
    using size by (simp_all add: record_size_def t_def E_def A_def n_def)
  have r: "length t \<le> round4 (length t)" by (rule round4_bounds)
  have T: "unat (of_nat (length t) :: u32) = length t" "unat (of_nat A :: u32) = A" using E r by (simp_all add: unat_of_nat E_def)
  have ext: "unat (length_without_ext_info (of_nat (length t)) (of_nat A)) = E" using length_without_ext [of "of_nat (length t)" "of_nat A"] T E by (simp add: E_def)
  define total where "total = length_without_ext_info (of_nat (length t)) (of_nat A) + (1 + of_nat n)"
  have total: "unat total = E + 1 + n" unfolding total_def using ext E name by (simp add: unat_word_ariths unat_of_nat n_def)
  have total_size: "total = of_nat (record_size w thread stack fmt args)" using total E by (metis of_nat_unat ucast_id)
  define h where "h = \<lparr>timestamp_epoch = epoch_ms, ext_info_offset = length_without_ext_info (of_nat (length t)) (of_nat A),
    category_idx = category_index, log_thread_id = thread_id thread, format_hash = 0, log_format_str_type = tag_code tag,
    level = log_level, log_format_data_len = of_nat (length t)\<rparr>"
  define H where "H = log_write_begin hw alloc thread epoch_ms log_level category_index (tag_code tag) (of_nat (length t)) (format_source w stack fmt) (of_nat A)"
  have run: "do_log w hw impl alloc thread epoch_ms trace category_index lv fmt args = do { handle \<leftarrow> H;
    case handle of None \<Rightarrow> Some None
    | Some m \<Rightarrow> do {
        m \<leftarrow> (if format_source w stack fmt = None then do { m \<leftarrow> type_copy w False fmt m (40 - 4) (length c + 4); m \<leftarrow> mem_put m (40 + length c) st; Some (store_u32 m (40 - 4) (of_nat (length t))) }
          else Some m);
        m \<leftarrow> fill_arguments w True m (40 + round4 (length t)) (map (arg_size w) args) args;
        m \<leftarrow> log_write_finish thread m;
        Some (Some m) } }"
    unfolding H_def log_level_def tag_def A_def st_def
    using do_log_enabled [OF ok _ enabled lv stack_def t_def c_def, of hw alloc thread epoch_ms] E by (simp only: E_def A_def)
  show ?thesis
  proof (cases "alloc total")
    case None
    then have "H = Some None" by (simp add: H_def log_write_begin_def Let_def total_def n_def)
    then show ?thesis using run None by (simp add: stack_def [symmetric] total_size [symmetric])
  next
    case (Some m0)
    have m0: "length m0 = E + 1 + n" using alloc [OF Some] total by simp
    define B where "B = (case format_source w stack fmt of None \<Rightarrow> Some (put_head h m0)
         | Some src \<Rightarrow> if length src < length t then None
             else let (hash, copy) = qlog_memcpy_with_hash hw (mem_read m0 40 (length t)) (take (length t) src) (length t)
               in Some (mem_write (put_head (h\<lparr>format_hash := hash\<rparr>) m0) 40 copy))"
    have beg: "H = map_option Some B"
      using m0 E r T Some by (simp add: H_def B_def log_write_begin_def Let_def record_head_size_def h_def total_def n_def E_def split: option.splits prod.splits)
    have lm: "40 + length t \<le> length m0" using m0 r by (simp add: E_def)
    have hh: "log_format_data_len h = of_nat (length (record_text w stack fmt))" "format_hash h = 0" by (simp_all add: h_def t_def)
    obtain hash m1 where m1: "do { m \<leftarrow> B;
        if format_source w stack fmt = None then do { m \<leftarrow> type_copy w False fmt m 36 (length c + 4); m \<leftarrow> mem_put m (40 + length c) st; Some (store_u32 m 36 (of_nat (length t))) }
        else Some m } = Some m1" "format_stored (h\<lparr>format_hash := hash\<rparr>) t (length m0) m1"
      using format_written [OF ok(1,2) lm [unfolded t_def] hh, of hw] unfolding B_def c_def st_def t_def by blast
    define p where "p = 40 + round4 (length t)"
    have p: "p + A = E" "40 + length t \<le> p" using r by (simp_all add: p_def E_def)
    have l1: "length m1 = length m0" using m1(2) by (simp add: format_stored_def)
    obtain m2 where m2: "fill_arguments w True m1 p (map (arg_size w) args) args = Some m2" "length m2 = length m1" "args_at w m2 p args"
        "\<forall>i < length m1. i < p \<or> E \<le> i \<longrightarrow> m2 ! i = m1 ! i"
      using fill_arguments_run [OF ok(3), of p m1] l1 m0 p(1) by (auto simp: A_def)
    have f2: "format_stored (h\<lparr>format_hash := hash\<rparr>) t (length m0) m2"
      using m2(2,4) l1 m0 p by (intro format_stored_cong [OF m1(2)]) auto
    obtain m3 where m3: "log_write_finish thread m2 = Some m3" "length m3 = length m2" "\<And>i. i < E \<Longrightarrow> m3 ! i = m2 ! i"
        "m3 ! E = of_nat n" "drop (E + 1) m3 = thread_name thread"
      using finish_run [of m2 E thread] f2 ext m2(2) l1 m0 by (auto simp: format_stored_def h_def n_def)
    have f3: "format_stored (h\<lparr>format_hash := hash\<rparr>) t (length m0) m3" using m3(2,3) m2(2) l1 p by (intro format_stored_cong [OF f2]) auto
    have a3: "args_at w m3 p args" using m3(2,3) m2(2) l1 p by (intro args_at_cong [OF m2(3)]) (auto simp: A_def)
    have "do_log w hw impl alloc thread epoch_ms trace category_index lv fmt args = Some (Some m3)"
      using m1(1) m2(1) m3(1) unfolding run beg p_def by (auto simp: bind_eq_Some_conv)
    moreover have "holds_record w thread epoch_ms category_index log_level stack fmt args m3"
      unfolding holds_record_def Let_def t_def [symmetric] using f3 a3 m3 m2(2) l1 m0 E(2) ext T
      by (simp add: format_stored_def h_def p_def E_def A_def tag_def n_def)
    ultimately show ?thesis using Some by (simp add: stack_def [symmetric] total_size [symmetric] log_level_def)
  qed
qed

text \<open>
  Property C10. Every call ends without an access outside memory (a format text and any number of arguments of any supported
  types, any level and category, with or without a stack trace). It returns false exactly when its level or category is not
  enabled or the buffer refuses a chunk of the size of its record. Otherwise the record holds the header fields, the text, the
  arguments and the thread name at the places the readers look at, and the check of recovered records accepts it.
\<close>

theorem record_written_valid:
  assumes "arg_ok w fmt" "is_text w fmt" "list_all (arg_ok w) args" "\<forall>n m. alloc n = Some m \<longrightarrow> length m = unat n"
    and "length (thread_name thread) \<le> 16" "record_size w thread (printed_stack impl lv trace) fmt args < 2 ^ 32"
    and "valid_level lv" "\<forall>log. impl = Some log \<longrightarrow> unat category_index < length (categories_mask_array log)"
  shows "\<exists>r. do_log w hw impl alloc thread epoch_ms trace category_index lv fmt args = Some r
    \<and> (r = None \<longleftrightarrow> log_is_enable_for impl category_index lv = Some False
          \<or> alloc (of_nat (record_size w thread (printed_stack impl lv trace) fmt args)) = None)
    \<and> (\<forall>m. r = Some m \<longrightarrow>
          holds_record w thread epoch_ms category_index (of_nat (level_code lv)) (printed_stack impl lv trace) fmt args m \<and> validate m)"
proof -
  obtain b where b: "log_is_enable_for impl category_index lv = Some b" using enable_decided assms(7,8) by blast
  show ?thesis
  proof (cases b)
    case True
    note run = do_log_run [OF assms(1-3) _ assms(5,6) b [unfolded eqTrueI [OF True]] assms(7), of alloc hw epoch_ms, OF assms(4) [rule_format]]
    show ?thesis
    proof (cases "alloc (of_nat (record_size w thread (printed_stack impl lv trace) fmt args))")
      case None
      then show ?thesis using run by simp
    next
      case (Some m0)
      then obtain m where "do_log w hw impl alloc thread epoch_ms trace category_index lv fmt args = Some (Some m)"
          "holds_record w thread epoch_ms category_index (of_nat (level_code lv)) (printed_stack impl lv trace) fmt args m"
        using run by auto
      then show ?thesis using Some b True record_valid [OF assms(1-3,5)] by auto
    qed
  next
    case False
    have "do_log w hw impl alloc thread epoch_ms trace category_index lv fmt args = Some None"
      using text_tag [OF assms(2)] False unfolding do_log_def Let_def b bind.bind_lunit by (simp only: not_not if_False if_True simp_thms)
    then show ?thesis using b False by simp
  qed
qed

text \<open>The types \<open>int\<close> and \<open>std::string\<close>, and a call that logs a number and a name.\<close>

definition int_type :: cpp_type where
  "int_type = \<lparr>custom_chars = None, char_pointer = None, string_width = None, is_null_pointer = False, is_pointer = False, is_pod = True,
     builtin = builtin_other, size_of = 4, is_unsigned = False\<rparr>"

definition string_type :: cpp_type where
  "string_type = \<lparr>custom_chars = None, char_pointer = None, string_width = Some 1, is_null_pointer = False, is_pointer = False, is_pod = False,
     builtin = builtin_other, size_of = 32, is_unsigned = False\<rparr>"

definition text_arg_of :: "string \<Rightarrow> arg" where
  "text_arg_of s = (string_type, String_value (Char_object (map of_char s)))"

definition int_arg_of :: "32 word \<Rightarrow> arg" where
  "int_arg_of n = (int_type, Pod_value (le_bytes 4 n))"

lemma sample_args:
  "length s < 2 ^ 30 \<Longrightarrow> arg_ok 4 (text_arg_of s)" "is_text 4 (text_arg_of s)" "arg_ok 4 (int_arg_of n)"
  by (simp_all add: text_arg_of_def int_arg_of_def arg_ok_def is_text_def get_serialize_kind_def string_type_def int_type_def string_ok_def builtin_ok_def)

lemma sample_sizes:
  "length (text_content 4 (text_arg_of s)) = length s" "arg_size 4 (text_arg_of s) = 8 + length s" "arg_size 4 (int_arg_of n) = 8"
  by (simp_all add: text_content_def text_arg_of_def int_arg_of_def chars_width_def get_serialize_kind_def string_type_def int_type_def string_chars_def
      chars_content_def length_char_bytes arg_size_def payload_pos_def payload_def is_text_def)

definition sample_log :: log_filter where
  "sample_log = \<lparr>merged_log_level_bitmap = 4, categories_mask_array = [1], print_stack_level_bitmap = 0\<rparr>"

lemma sample_log_run: "log_is_enable_for (Some sample_log) 0 info_level = Some True" "printed_stack (Some sample_log) info_level trace = None"
  by (simp_all add: log_is_enable_for_def is_enable_for_def sample_log_def printed_stack_def is_stack_trace_enable_for_def have_level_def Let_def)

theorem record_written_valid_witness:
  "\<exists>m. do_log 4 None (Some sample_log) (\<lambda>n. Some (replicate (unat n) 0)) \<lparr>thread_id = 7, thread_name = [109]\<rparr> 1000 [] 0 info_level
      (text_arg_of ''{} is {}'') [int_arg_of 5, text_arg_of ''five''] = Some (Some m)
    \<and> holds_record 4 \<lparr>thread_id = 7, thread_name = [109]\<rparr> 1000 0 2 None (text_arg_of ''{} is {}'') [int_arg_of 5, text_arg_of ''five''] m
    \<and> validate m"
proof -
  define r where "r = do_log 4 None (Some sample_log) (\<lambda>n. Some (replicate (unat n) 0)) \<lparr>thread_id = 7, thread_name = [109]\<rparr> 1000 [] 0 info_level
      (text_arg_of ''{} is {}'') [int_arg_of 5, text_arg_of ''five'']"
  have size: "record_size 4 \<lparr>thread_id = 7, thread_name = [109]\<rparr> (printed_stack (Some sample_log) info_level []) (text_arg_of ''{} is {}'')
      [int_arg_of 5, text_arg_of ''five''] < 2 ^ 32"
    by (simp add: sample_log_run record_size_def record_text_def args_size_def sample_sizes round4_def)
  have "list_all (arg_ok 4) [int_arg_of 5, text_arg_of ''five'']" "arg_ok 4 (text_arg_of ''{} is {}'')" using sample_args by simp_all
  then have "\<exists>m. r = Some (Some m)
    \<and> holds_record 4 \<lparr>thread_id = 7, thread_name = [109]\<rparr> 1000 0 (of_nat (level_code info_level)) None (text_arg_of ''{} is {}'') [int_arg_of 5, text_arg_of ''five''] m
    \<and> validate m"
    using record_written_valid [of 4 "text_arg_of ''{} is {}''" "[int_arg_of 5, text_arg_of ''five'']" "\<lambda>n. Some (replicate (unat n) 0)"
        "\<lparr>thread_id = 7, thread_name = [109]\<rparr>" "Some sample_log" info_level "[]" 0 None 1000, OF _ sample_args(2) _ _ _ size, folded r_def]
    unfolding sample_log_run by (auto simp: valid_level_def sample_log_def)
  then show ?thesis by (simp add: r_def)
qed

end
