(* ===== verification/Qlog_Layout.thy ===== *)
theory Qlog_Layout
  imports Qlog_Record_Writer Qlog_Utf Qlog_Numbers
begin

unbundle bit_operations_syntax

text \<open>
  The layout of a record as text (\<open>src/src/layout/layout.cpp\<close>): the output buffer, the format specifications, and the
  insertion of texts, integers, pointers and floating-point numbers. Characters are bytes. \<open>None\<close> is a failed assertion, an access
  outside the output buffer, or a floating-point value that the cast to an integer does not define.
\<close>

section \<open>State\<close>

abbreviation ch :: "char \<Rightarrow> u8" where "ch c \<equiv> of_char c"

record format_info =
  used :: bool
  upper :: bool
  fill :: u8
  align :: u8
  sign :: u8
  prefix_char :: u8
  spec_offset :: u32
  spec_width :: u32
  precision :: u32
  type_char :: u8

definition format_info_new :: format_info where
  "format_info_new = \<lparr>used = False, upper = True, fill = ch CHR '' '', align = ch CHR ''>'', sign = ch CHR ''-'',
     prefix_char = ch CHR '' '', spec_offset = 0, spec_width = 0, precision = 0xFFFFFFFF, type_char = ch CHR '' ''\<rparr>"

definition format_info_reset :: format_info where
  "format_info_reset = \<lparr>used = False, upper = True, fill = ch CHR '' '', align = ch CHR ''<'', sign = ch CHR ''-'',
     prefix_char = ch CHR '' '', spec_offset = 0, spec_width = 0, precision = 0xFFFFFFFF, type_char = ch CHR '' ''\<rparr>"

record layout =
  format_content :: bytes
  cursor :: u32
  info :: format_info

definition put_at :: "nat \<Rightarrow> u8 \<Rightarrow> layout \<Rightarrow> layout option" where
  "put_at i c s = (if i < length (format_content s) then Some (s\<lparr>format_content := (format_content s)[i := c]\<rparr>) else None)"

definition get_at :: "nat \<Rightarrow> layout \<Rightarrow> u8 option" where
  "get_at i s = (if i < length (format_content s) then Some (format_content s ! i) else None)"

text \<open>\<open>format_content_[format_content_cursor_++] = c\<close>, and a \<open>memcpy\<close> to the cursor that moves it.\<close>

definition put :: "u8 \<Rightarrow> layout \<Rightarrow> layout option" where
  "put c s = map_option (\<lambda>s. s\<lparr>cursor := cursor s + 1\<rparr>) (put_at (unat (cursor s)) c s)"

definition copy_in :: "bytes \<Rightarrow> layout \<Rightarrow> layout option" where
  "copy_in bs s = map_option (\<lambda>m. s\<lparr>format_content := m, cursor := cursor s + of_nat (length bs)\<rparr>)
     (mem_put (format_content s) (unat (cursor s)) bs)"

definition resize :: "nat \<Rightarrow> bytes \<Rightarrow> bytes" where
  "resize n xs = take n xs @ replicate (n - length xs) 0"

definition expand_format_content_buff_size :: "u32 \<Rightarrow> layout \<Rightarrow> layout" where
  "expand_format_content_buff_size new_size s =
     (let new_size = (if spec_offset (info s) \<noteq> 0 then new_size + (spec_width (info s) + precision (info s) + 2) else new_size)
      in if unat new_size \<le> length (format_content s) then s
         else s\<lparr>format_content := resize (unat (round_pow_of_two new_size)) (format_content s)\<rparr>)"

definition tidy_memory :: "layout \<Rightarrow> layout" where
  "tidy_memory s = (if length (format_content s) > 1024 then s\<lparr>format_content := [], cursor := 0\<rparr> else s\<lparr>cursor := 0\<rparr>)"

text \<open>The loop of \<open>reverse\<close> swaps from the ends inwards.\<close>

function reverse_range :: "nat \<Rightarrow> nat \<Rightarrow> layout \<Rightarrow> layout option" where
  "reverse_range b e s =
     (if b < e
      then do {
        saved \<leftarrow> get_at b s;
        c \<leftarrow> get_at e s;
        s \<leftarrow> put_at b c s;
        s \<leftarrow> put_at e saved s;
        reverse_range (b + 1) (e - 1) s
      }
      else Some s)"
  by pat_completeness auto
termination by (relation "measure (\<lambda>(b, e, s). e - b)") auto

declare reverse_range.simps [simp del]

section \<open>Format specifications\<close>

text \<open>The variables of the loop of \<open>c20_format\<close>; \<open>digit0\<close> and \<open>digit1\<close> are the text given to \<open>atoi\<close>.\<close>

record spec_state =
  sp_info :: format_info
  reading_precision :: bool
  align_seen :: bool
  fill_seen :: bool
  digit0 :: u8
  digit1 :: u8

definition spec_atoi :: "spec_state \<Rightarrow> u32" where
  "spec_atoi st = (if digit1 st = 0 then ucast (digit0 st - 48) else 10 * ucast (digit0 st - 48) + ucast (digit1 st - 48))"

definition is_digit_byte :: "u8 \<Rightarrow> bool" where
  "is_digit_byte c \<longleftrightarrow> 48 \<le> c \<and> c \<le> 57"

definition spec_char :: "u8 \<Rightarrow> spec_state \<Rightarrow> spec_state" where
  "spec_char c st =
     (let i = sp_info st
      in if c = ch CHR ''#'' then st\<lparr>sp_info := i\<lparr>prefix_char := c\<rparr>\<rparr>
         else if c \<in> {ch CHR ''>'', ch CHR ''<'', ch CHR ''^''} then
           (if \<not> align_seen st then st\<lparr>sp_info := i\<lparr>align := c\<rparr>, align_seen := True\<rparr>
            else st\<lparr>sp_info := i\<lparr>fill := (if align i = ch CHR ''^'' \<or> align i = ch CHR ''<'' then ch CHR '' '' else c)\<rparr>\<rparr>)
         else if c \<in> {ch CHR ''+'', ch CHR ''-''} then st\<lparr>sp_info := i\<lparr>sign := c\<rparr>\<rparr>
         else if c \<in> {ch CHR ''b'', ch CHR ''B'', ch CHR ''e'', ch CHR ''E'', ch CHR ''f'', ch CHR ''F'', ch CHR ''x'', ch CHR ''X'',
                      ch CHR ''o'', ch CHR ''d''} then
           (let i = (if type_char i = ch CHR '' ''
                     then if c = ch CHR ''E'' then i\<lparr>type_char := ch CHR ''e'', upper := True\<rparr>
                       else if c = ch CHR ''X'' then i\<lparr>type_char := ch CHR ''x'', upper := True\<rparr>
                       else if c = ch CHR ''B'' then i\<lparr>type_char := ch CHR ''b'', upper := True\<rparr>
                       else i\<lparr>type_char := c, upper := False\<rparr>
                     else i);
                i = (if c \<in> {ch CHR ''x'', ch CHR ''X''} \<and> align i \<noteq> ch CHR ''>'' then i\<lparr>fill := ch CHR '' ''\<rparr> else i)
            in st\<lparr>sp_info := i\<rparr>)
         else if c = ch CHR ''.'' then
           st\<lparr>sp_info := i\<lparr>spec_width := spec_atoi st\<rparr>, reading_precision := True, digit0 := ch CHR ''0'', digit1 := 0\<rparr>
         else if \<not> fill_seen st \<and> (c < ch CHR ''1'' \<or> c > ch CHR ''9'') then
           st\<lparr>sp_info := i\<lparr>fill := (if align i = ch CHR ''^'' \<or> align i = ch CHR ''<'' then ch CHR '' '' else c)\<rparr>\<rparr>
         else if is_digit_byte c then
           (if digit0 st = ch CHR ''0'' then st\<lparr>fill_seen := True, digit0 := c\<rparr>
            else if digit1 st = 0 then st\<lparr>fill_seen := True, digit1 := c\<rparr>
            else st\<lparr>fill_seen := True\<rparr>)
         else st)"

function c20_loop :: "'a::len word list \<Rightarrow> nat \<Rightarrow> nat \<Rightarrow> spec_state \<Rightarrow> spec_state" where
  "c20_loop style len index st =
     (let index = index + 1
      in if index \<ge> len \<or> index > 10 then st\<lparr>sp_info := (sp_info st)\<lparr>spec_offset := 0, spec_width := 0\<rparr>\<rparr>
         else
           let c = ucast (style ! index)
           in if c = ch CHR ''{'' then st\<lparr>sp_info := (sp_info st)\<lparr>spec_offset := 0, spec_width := 0\<rparr>\<rparr>
              else if c = ch CHR ''}'' then st\<lparr>sp_info := (sp_info st)\<lparr>spec_offset := of_nat index\<rparr>\<rparr>
              else c20_loop style len index (spec_char c st))"
  by pat_completeness auto
termination by (relation "measure (\<lambda>(style, len, index, st). 12 - index)") auto

declare c20_loop.simps [simp del]

definition c20_format :: "'a::len word list \<Rightarrow> nat \<Rightarrow> format_info" where
  "c20_format style len =
     (if style ! 0 \<noteq> of_char CHR '':'' then format_info_new\<lparr>used := True\<rparr>
      else
        let st = c20_loop style len 0 \<lparr>sp_info = format_info_new\<lparr>used := True\<rparr>, reading_precision = False, align_seen = False,
                   fill_seen = False, digit0 = ch CHR ''0'', digit1 = 0\<rparr>;
            i = (if reading_precision st then (sp_info st)\<lparr>precision := spec_atoi st\<rparr> else (sp_info st)\<lparr>spec_width := spec_atoi st\<rparr>)
        in if type_char i = ch CHR '' '' then i\<lparr>type_char := ch CHR ''d''\<rparr> else i)"

section \<open>Texts\<close>

definition insert_str_utf8 :: "bytes \<Rightarrow> layout \<Rightarrow> layout option" where
  "insert_str_utf8 str s =
     (if str = [] then Some s
      else copy_in str (expand_format_content_buff_size (cursor s + of_nat (length str)) s))"

definition insert_str_utf16 :: "bytes \<Rightarrow> layout \<Rightarrow> layout option" where
  "insert_str_utf16 str s =
     (let max_bytes_len = of_nat (length str) * 3 div 2 + 1
      in copy_in (utf16_to_utf8_sw (utf16_units str)) (expand_format_content_buff_size (cursor s + max_bytes_len) s))"

definition insert_bool :: "bool \<Rightarrow> layout \<Rightarrow> layout option" where
  "insert_bool v s = insert_str_utf8 (map of_char (if v then ''TRUE'' else ''FALSE'')) s"

definition insert_char :: "u8 \<Rightarrow> layout \<Rightarrow> layout option" where
  "insert_char v s = put v (expand_format_content_buff_size (cursor s + 1) s)"

definition insert_char16 :: "u16 \<Rightarrow> layout \<Rightarrow> layout option" where
  "insert_char16 v s = insert_str_utf16 (le_bytes 2 v) s"

definition insert_char32 :: "u32 \<Rightarrow> layout \<Rightarrow> layout option" where
  "insert_char32 v s =
     (if v \<le> 0xFFFF then insert_str_utf16 (le_bytes 2 (ucast v :: u16)) s
      else insert_str_utf16 (le_bytes 2 (fst (surrogates v)) @ le_bytes 2 (snd (surrogates v))) s)"

section \<open>Integers\<close>

definition digit_pairs :: bytes where
  "digit_pairs = map of_char (''00010203040506070809'' @ ''10111213141516171819'' @ ''20212223242526272829'' @ ''30313233343536373839''
     @ ''40414243444546474849'' @ ''50515253545556575859'' @ ''60616263646566676869'' @ ''70717273747576777879''
     @ ''80818283848586878889'' @ ''90919293949596979899'')"

text \<open>The number of decimal digits: \<open>limit\<close> would wrap only behind the 20th.\<close>

function count_digits :: "u64 \<Rightarrow> nat \<Rightarrow> u64 \<Rightarrow> nat" where
  "count_digits v count limit = (if count < 20 \<and> v \<ge> limit then count_digits v (count + 1) (limit * 10) else count)"
  by pat_completeness auto
termination by (relation "measure (\<lambda>(v, count, limit). 20 - count)") auto

declare count_digits.simps [simp del]

text \<open>Pairs of digits are written from the right.\<close>

function write_pairs :: "u64 \<Rightarrow> nat \<Rightarrow> bytes \<Rightarrow> bytes option" where
  "write_pairs v p m =
     (if v \<ge> 100
      then (if p < 2 then None
            else Option.bind (mem_put m (p - 2) (mem_read digit_pairs (2 * unat (v mod 100)) 2)) (write_pairs (v div 100) (p - 2)))
      else if v \<ge> 10 then (if p < 2 then None else mem_put m (p - 2) (mem_read digit_pairs (2 * unat v) 2))
      else (if p < 1 then None else mem_put m (p - 1) [48 + ucast v]))"
  by pat_completeness auto
termination
proof (relation "measure (\<lambda>(v, p, m). unat v)")
  fix v :: u64 and p :: nat and m x :: bytes
  assume "100 \<le> v"
  then have "100 \<le> unat v" by (simp add: word_le_nat_alt)
  then show "((v div 100, p - 2, x), v, p, m) \<in> measure (\<lambda>(v, p, m). unat v)" by (simp add: unat_div)
qed simp

declare write_pairs.simps [simp del]

definition write_decimal_digits :: "u64 \<Rightarrow> layout \<Rightarrow> layout option" where
  "write_decimal_digits v s =
     (let count = count_digits v 1 10
      in map_option (\<lambda>m. s\<lparr>format_content := m, cursor := cursor s + of_nat count\<rparr>)
           (write_pairs v (unat (cursor s) + count) (format_content s)))"

definition digit_code :: "bool \<Rightarrow> nat \<Rightarrow> u8" where
  "digit_code up d = (if d < 10 then of_nat (48 + d) else if up then of_nat (65 + d - 10) else of_nat (97 + d - 10))"

definition effective_base :: "format_info \<Rightarrow> nat \<Rightarrow> nat" where
  "effective_base i base = (if type_char i = ch CHR ''b'' then 2 else if type_char i = ch CHR ''x'' then 16
     else if type_char i = ch CHR ''o'' then 8 else base)"

definition integral_room :: "nat \<Rightarrow> u32" where
  "integral_room base = (if base \<ge> 16 then 16 else if base \<ge> 10 then 20 else 64)"

definition insert_prefix :: "layout \<Rightarrow> layout option" where
  "insert_prefix s =
     (let i = info s
      in if prefix_char i \<noteq> ch CHR ''#'' then Some s
         else if type_char i = ch CHR ''b'' then Option.bind (put (ch CHR ''0'') s) (put (if upper i then ch CHR ''B'' else ch CHR ''b''))
         else if type_char i = ch CHR ''x'' then Option.bind (put (ch CHR ''0'') s) (put (if upper i then ch CHR ''X'' else ch CHR ''x''))
         else Some s)"

text \<open>The digits of a magnitude, least significant first, and how often the rest was above the base.\<close>

function put_digits :: "nat \<Rightarrow> nat \<Rightarrow> bool \<Rightarrow> u32 \<Rightarrow> layout \<Rightarrow> (u32 \<times> layout) option" where
  "put_digits v base counts e_count s =
     (if base < 2 then None
      else do {
        s \<leftarrow> put (digit_code (upper (info s)) (v mod base)) s;
        let v = v div base;
        let e_count = (if counts \<and> v > base then e_count + 1 else e_count);
        if v = 0 then Some (e_count, s) else put_digits v base counts e_count s
      })"
  by pat_completeness auto
termination by (relation "measure (\<lambda>(v, base, counts, e_count, s). v)") (auto simp: div_greater_zero_iff)

declare put_digits.simps [simp del]

function exponent_digits :: "nat \<Rightarrow> layout \<Rightarrow> layout option" where
  "exponent_digits v s = do {
     s \<leftarrow> put (of_nat (48 + v mod 10)) s;
     if v div 10 = 0 then Some s else exponent_digits (v div 10) s
   }"
  by pat_completeness auto
termination by (relation "measure fst") auto

function bit_count :: "nat \<Rightarrow> nat" where
  "bit_count v = (if v div 10 = 0 then 1 else 1 + bit_count (v div 10))"
  by pat_completeness auto
termination by (relation "measure id") auto

declare exponent_digits.simps [simp del] bit_count.simps [simp del]

definition fill_e_style :: "u32 \<Rightarrow> u32 \<Rightarrow> layout \<Rightarrow> layout option" where
  "fill_e_style e_count begin_cursor s =
     (let bitcount = of_nat (bit_count (unat e_count)) :: u32;
          s = expand_format_content_buff_size (cursor s + bitcount + 3) s;
          jump = sint (cursor s) - (sint (begin_cursor + spec_width (info s) - bitcount) - 2);
          s = (if jump > 0
               then let c = cursor s - of_int jump in s\<lparr>cursor := (if c = begin_cursor then c + 1 else c)\<rparr>
               else s)
      in do {
        s \<leftarrow> put (if upper (info s) then ch CHR ''E'' else ch CHR ''e'') s;
        s \<leftarrow> put (ch CHR ''+'') s;
        let b = cursor s;
        s \<leftarrow> exponent_digits (unat e_count) s;
        s \<leftarrow> (if e_count \<le> 9 then put (ch CHR ''0'') s else Some s);
        reverse_range (unat b) (unat (cursor s - 1)) s
      })"

text \<open>The part \<open>insert_integral_unsigned\<close> and \<open>insert_integral_signed\<close> share behind the loop over the digits.\<close>

definition finish_digits :: "u32 \<Rightarrow> u32 \<Rightarrow> layout \<Rightarrow> layout option" where
  "finish_digits e_count begin_cursor s =
     (if type_char (info s) = ch CHR ''e''
      then do {
        c \<leftarrow> get_at (unat (cursor s - 1)) s;
        s \<leftarrow> put_at (unat (cursor s)) c s;
        s \<leftarrow> put_at (unat (cursor s - 1)) (ch CHR ''.'') s;
        let s = s\<lparr>cursor := cursor s + 1\<rparr>;
        s \<leftarrow> reverse_range (unat begin_cursor) (unat (cursor s - 1)) s;
        fill_e_style e_count begin_cursor s
      }
      else reverse_range (unat begin_cursor) (unat (cursor s - 1)) s)"

definition insert_digits :: "nat \<Rightarrow> nat \<Rightarrow> bool \<Rightarrow> layout \<Rightarrow> layout option" where
  "insert_digits v base counts s =
     (if base = 10 \<and> type_char (info s) \<noteq> ch CHR ''e'' then write_decimal_digits (of_nat v) s
      else do {
        let begin_cursor = cursor s;
        (e_count, s) \<leftarrow> put_digits v base counts 0 s;
        finish_digits e_count begin_cursor s
      })"

definition insert_integral_unsigned :: "u64 \<Rightarrow> nat \<Rightarrow> layout \<Rightarrow> (u32 \<times> layout) option" where
  "insert_integral_unsigned v base s =
     (if base > 32 then None
      else do {
        let w = cursor s;
        let base = effective_base (info s) base;
        let s = expand_format_content_buff_size (cursor s + integral_room base) s;
        s \<leftarrow> (if v > 0 \<and> sign (info s) = ch CHR ''+'' then put (ch CHR ''+'') s else Some s);
        s \<leftarrow> insert_prefix s;
        s \<leftarrow> insert_digits (unat v) base True s;
        Some (cursor s - w, s)
      })"

definition insert_integral_signed :: "64 word \<Rightarrow> nat \<Rightarrow> layout \<Rightarrow> (u32 \<times> layout) option" where
  "insert_integral_signed v base s =
     (if base > 32 then None
      else do {
        let w = cursor s;
        let base = effective_base (info s) base;
        let s = expand_format_content_buff_size (cursor s + integral_room base) s;
        s \<leftarrow> (if sint v < 0 then put (ch CHR ''-'') s
              else if sign (info s) = ch CHR ''+'' then put (ch CHR ''+'') s else Some s);
        s \<leftarrow> insert_prefix s;
        s \<leftarrow> insert_digits (nat \<bar>sint v\<bar>) base (sint v \<ge> 0) s;
        Some (cursor s - w, s)
      })"

definition insert_pointer :: "u64 \<Rightarrow> layout \<Rightarrow> layout option" where
  "insert_pointer ptr s =
     (if ptr \<noteq> 0
      then do {
        s \<leftarrow> copy_in (map of_char ''0x'') (expand_format_content_buff_size (cursor s + 2) s);
        (_, s) \<leftarrow> insert_integral_unsigned ptr 16 s;
        Some s
      }
      else copy_in (map of_char ''null'') (expand_format_content_buff_size (cursor s + 4) s))"

end
