(* ===== verification/Qlog_Time_Zone.thy ===== *)
theory Qlog_Time_Zone
  imports Qlog_Numbers Qlog_Property_Value
begin

text \<open>
  Time zones (\<open>src/src/layout/time_zone.cpp\<close>): parsing of a zone, and the date at the front of every line with its cache. Of the
  standard library, \<open>gmtime_r\<close> is the proleptic Gregorian calendar in UTC; the local time is a parameter (\<open>local_tm\<close> for
  \<open>localtime_r\<close>, \<open>local_name\<close> and \<open>local_diff\<close> for the name and the offset of the zone of the machine).
\<close>

section \<open>The calendar\<close>

record tm =
  tm_year :: int
  tm_mon :: int
  tm_mday :: int
  tm_hour :: int
  tm_min :: int
  tm_sec :: int

definition tm_zero :: tm where
  "tm_zero = \<lparr>tm_year = 0, tm_mon = 0, tm_mday = 0, tm_hour = 0, tm_min = 0, tm_sec = 0\<rparr>"

text \<open>Days since 1970-01-01 to year, month (1 to 12) and day, counting years from March in eras of 400 years.\<close>

definition civil_from_days :: "int \<Rightarrow> int \<times> int \<times> int" where
  "civil_from_days z =
     (let z = z + 719468; era = z div 146097; doe = z mod 146097;
          yoe = (doe - doe div 1460 + doe div 36524 - doe div 146096) div 365;
          doy = doe - (365 * yoe + yoe div 4 - yoe div 100);
          mp = (5 * doy + 2) div 153;
          d = doy - (153 * mp + 2) div 5 + 1;
          m = (if mp < 10 then mp + 3 else mp - 9)
      in (yoe + era * 400 + (if m \<le> 2 then 1 else 0), m, d))"

definition gmtime :: "int \<Rightarrow> tm" where
  "gmtime t =
     (let days = t div 86400; r = t mod 86400; (y, m, d) = civil_from_days days
      in \<lparr>tm_year = y - 1900, tm_mon = m - 1, tm_mday = d, tm_hour = r div 3600, tm_min = r mod 3600 div 60, tm_sec = r mod 60\<rparr>)"

section \<open>Parsing a zone\<close>

record time_zone =
  use_local_time :: bool
  gmt_offset_hours :: int
  gmt_offset_minutes :: int
  time_zone_diff_to_gmt_ms :: int
  time_zone_str :: string
  time_cache :: string
  last_time_epoch_cache :: u64

definition time_zone_reset :: time_zone where
  "time_zone_reset = \<lparr>use_local_time = True, gmt_offset_hours = 0, gmt_offset_minutes = 0, time_zone_diff_to_gmt_ms = 0,
     time_zone_str = [], time_cache = [], last_time_epoch_cache = 0\<rparr>"

text \<open>\<open>strtol\<close>: the value (\<open>None\<close> is \<open>ERANGE\<close>) and the rest, which is the whole text when there is no number.\<close>

definition strtol :: "string \<Rightarrow> int option \<times> string" where
  "strtol s =
     (let r = dropWhile isspace s;
          (neg, r) = (case r of c # r' \<Rightarrow> if c = CHR ''-'' then (True, r') else if c = CHR ''+'' then (False, r') else (False, r) | [] \<Rightarrow> (False, r));
          ds = takeWhile is_digit r;
          v = (if neg then - int (digits_val ds) else int (digits_val ds))
      in if ds = [] then (Some 0, s) else (if v < - (2 ^ 63) \<or> v \<ge> 2 ^ 63 then None else Some v, drop (length ds) r))"

definition upper_char :: "char \<Rightarrow> char" where
  "upper_char c = char_of (toupper c)"

text \<open>The offset a text names, as hours and minutes; \<open>Inl\<close> of the minutes already stored when the text is refused.\<close>

definition parse_offset :: "string \<Rightarrow> int + int \<times> int" where
  "parse_offset zone =
     (let start = c_str (if take 3 zone = ''UTC'' then drop 3 zone else zone)
      in case strtol start of
           (None, _) \<Rightarrow> Inl 0
         | (Some hour, rest) \<Rightarrow>
             if rest = start \<or> hour < - 12 \<or> hour > 14 then Inl 0
             else case rest of
                 [] \<Rightarrow> Inr (hour, 0)
               | c # start \<Rightarrow>
                   if c \<noteq> CHR '':'' then Inl 0
                   else case strtol start of
                       (None, _) \<Rightarrow> Inl 0
                     | (Some minute, rest) \<Rightarrow>
                         if rest = start \<or> minute < 0 \<or> minute \<ge> 60 then Inl 0
                         else if rest \<noteq> [] then Inl minute
                         else Inr (hour, if hour < 0 then - minute else minute))"

definition signed_text :: "int \<Rightarrow> string" where
  "signed_text i = (if i < 0 then ''-'' else ''+'') @ nat_text (nat \<bar>i\<bar>)"

definition two_digits :: "int \<Rightarrow> string" where
  "two_digits i = (if i < 0 then ''-'' @ pad_zeros 1 (nat_text (nat (- i))) else pad_zeros 2 (nat_text (nat i)))"

definition zone_text :: "int \<Rightarrow> int \<Rightarrow> string" where
  "zone_text hours minutes =
     (if hours = 0 \<and> minutes = 0 then ''UTC0''
      else if minutes = 0 then ''UTC'' @ signed_text hours
      else ''UTC'' @ signed_text hours @ '':'' @ two_digits \<bar>minutes\<bar>)"

definition set_offset :: "int \<Rightarrow> int \<Rightarrow> time_zone \<Rightarrow> time_zone" where
  "set_offset hours minutes tz = tz\<lparr>use_local_time := False, gmt_offset_hours := hours, gmt_offset_minutes := minutes,
     time_zone_str := zone_text hours minutes, time_zone_diff_to_gmt_ms := (hours * 3600 + minutes * 60) * 1000\<rparr>"

definition set_local :: "string \<Rightarrow> int \<Rightarrow> int \<Rightarrow> time_zone \<Rightarrow> time_zone" where
  "set_local local_name local_diff minutes tz =
     tz\<lparr>gmt_offset_minutes := minutes, time_zone_str := local_name, time_zone_diff_to_gmt_ms := local_diff\<rparr>"

definition parse_by_string :: "string \<Rightarrow> int \<Rightarrow> string \<Rightarrow> time_zone" where
  "parse_by_string local_name local_diff str =
     (let zone = map upper_char (trim str)
      in if zone = [] \<or> zone \<in> {''LOCAL'', ''LOCALTIME'', ''LOCAL_TIME''} then set_local local_name local_diff 0 time_zone_reset
         else if zone \<in> {''GMT'', ''Z'', ''UTC''} then set_offset 0 0 time_zone_reset
         else case parse_offset zone of
             Inl minutes \<Rightarrow> set_local local_name local_diff minutes time_zone_reset
           | Inr (hours, minutes) \<Rightarrow> set_offset hours minutes time_zone_reset)"

definition restore_by_config :: "bool \<Rightarrow> int \<Rightarrow> int \<Rightarrow> int \<Rightarrow> string \<Rightarrow> time_zone \<Rightarrow> time_zone" where
  "restore_by_config local hours minutes diff str tz = tz\<lparr>use_local_time := local, gmt_offset_hours := hours,
     gmt_offset_minutes := minutes, time_zone_diff_to_gmt_ms := diff, time_zone_str := str\<rparr>"

definition get_gmt_offset_to_epoch_ms :: "time_zone \<Rightarrow> int" where
  "get_gmt_offset_to_epoch_ms tz = (gmt_offset_hours tz * 3600 + gmt_offset_minutes tz * 60) * 1000"

section \<open>Dates\<close>

text \<open>A 64-bit number of milliseconds always gives seconds in the range of \<open>time_t\<close>.\<close>

definition get_tm_by_epoch :: "(int \<Rightarrow> tm option) \<Rightarrow> u64 \<Rightarrow> time_zone \<Rightarrow> tm option" where
  "get_tm_by_epoch local_tm epoch_ms tz =
     (let s = int (unat epoch_ms div 1000)
      in if use_local_time tz then local_tm s
         else Some (gmtime (s + (gmt_offset_hours tz * 3600 + gmt_offset_minutes tz * 60))))"

definition tm_or_zero :: "tm option \<Rightarrow> tm" where
  "tm_or_zero t = (case t of Some t \<Rightarrow> t | None \<Rightarrow> tm_zero)"

definition date_text :: "tm \<Rightarrow> string" where
  "date_text t = two_digits (tm_mon t + 1) @ ''-'' @ two_digits (tm_mday t) @ '' '' @ two_digits (tm_hour t) @ '':''
     @ two_digits (tm_min t) @ '':'' @ two_digits (tm_sec t)"

definition inner_refresh_time_string_cache :: "(int \<Rightarrow> tm option) \<Rightarrow> u64 \<Rightarrow> time_zone \<Rightarrow> time_zone" where
  "inner_refresh_time_string_cache local_tm epoch_ms tz =
     (let t = tm_or_zero (get_tm_by_epoch local_tm epoch_ms tz)
      in tz\<lparr>time_cache := snprintf 129 (time_zone_str tz @ '' '' @ print_int (tm_year t + 1900) @ ''-'' @ date_text t @ ''.''),
            last_time_epoch_cache := epoch_ms\<rparr>)"

definition refresh_time_string_cache :: "(int \<Rightarrow> tm option) \<Rightarrow> u64 \<Rightarrow> time_zone \<Rightarrow> time_zone" where
  "refresh_time_string_cache local_tm epoch_ms tz =
     (if epoch_ms = last_time_epoch_cache tz then tz else inner_refresh_time_string_cache local_tm epoch_ms tz)"

definition four_digits :: "int \<Rightarrow> string" where
  "four_digits i = (if i < 0 then ''-'' @ pad_zeros 3 (nat_text (nat (- i))) else pad_zeros 4 (nat_text (nat i)))"

definition get_time_str_by_epoch :: "(int \<Rightarrow> tm option) \<Rightarrow> u64 \<Rightarrow> time_zone \<Rightarrow> string" where
  "get_time_str_by_epoch local_tm epoch_ms tz =
     (let t = tm_or_zero (get_tm_by_epoch local_tm epoch_ms tz)
      in snprintf 128 (four_digits (tm_year t + 1900) @ ''-'' @ date_text t))"

end
