(* ===== verification/Qlog_Layout_Format.thy ===== *)
theory Qlog_Layout_Format
  imports Qlog_Layout Qlog_Time_Zone Qlog_Hash_Map_Props
begin

unbundle bit_operations_syntax

text \<open>
  The rest of \<open>src/src/layout/layout.cpp\<close>: floating-point numbers, alignment, the two loops over a format string with
  its arguments, and the layout of a whole record. A finite \<open>float\<close> or \<open>double\<close> is a pair \<open>(m, e)\<close> for \<open>m * 2^e\<close>; sums and products
  are rounded as the type is.
\<close>

section \<open>Floating-point numbers\<close>

record float_type =
  mantissa_bits :: nat
  min_exponent :: int
  default_precision :: u32
  clamps :: bool

definition float_single :: float_type where
  "float_single = \<lparr>mantissa_bits = 24, min_exponent = - 149, default_precision = 7, clamps = False\<rparr>"

definition float_double :: float_type where
  "float_double = \<lparr>mantissa_bits = 53, min_exponent = - 1074, default_precision = 15, clamps = True\<rparr>"

definition fl_round :: "float_type \<Rightarrow> int \<times> int \<Rightarrow> int \<times> int" where
  "fl_round t x =
     (let (m, e) = x; a = nat \<bar>m\<bar>; ex = max (e + int (bit_length a) - int (mantissa_bits t)) (min_exponent t)
      in if m = 0 then (0, 0)
         else if ex \<le> e then (m, e)
         else (sgn m * int (round_half_even a (2 ^ nat (ex - e))), ex))"

definition fl_sub :: "float_type \<Rightarrow> int \<times> int \<Rightarrow> int \<times> int \<Rightarrow> int \<times> int" where
  "fl_sub t x y =
     (let (m, e) = x; (n, f) = y; k = min e f in fl_round t (m * 2 ^ nat (e - k) - n * 2 ^ nat (f - k), k))"

definition fl_mul_10 :: "float_type \<Rightarrow> int \<times> int \<Rightarrow> int \<times> int" where
  "fl_mul_10 t x = fl_round t (10 * fst x, snd x)"

text \<open>The cast to an integer cuts towards zero.\<close>

definition fl_trunc :: "int \<times> int \<Rightarrow> int" where
  "fl_trunc x = (let (m, e) = x in if e \<ge> 0 then m * 2 ^ nat e else sgn m * (\<bar>m\<bar> div 2 ^ nat (- e)))"

text \<open>The value of a bit pattern; \<open>None\<close> is an infinity or not a number.\<close>

definition fl_decode :: "nat \<Rightarrow> nat \<Rightarrow> nat \<Rightarrow> (int \<times> int) option" where
  "fl_decode mbits ebits bits =
     (let frac = bits mod 2 ^ mbits; ex = (bits div 2 ^ mbits) mod 2 ^ ebits; neg = (bits div 2 ^ (mbits + ebits) \<noteq> 0);
          bias = 2 ^ (ebits - 1) - 1 + int mbits
      in if ex = 2 ^ ebits - 1 then None
         else
           let m = (if ex = 0 then frac else frac + 2 ^ mbits); e = (if ex = 0 then 1 else int ex) - bias
           in Some (if neg then - int m else int m, e))"

function fraction_digits :: "float_type \<Rightarrow> nat \<Rightarrow> int \<times> int \<Rightarrow> layout \<Rightarrow> layout option" where
  "fraction_digits t n v s =
     (if n = 0 then Some s
      else
        let v = fl_mul_10 t v; digit = fl_trunc v; v = fl_sub t v (digit, 0)
        in Option.bind (put (of_int (48 + digit)) s) (fraction_digits t (n - 1) v))"
  by pat_completeness auto
termination by (relation "measure (\<lambda>(t, n, v, s). n)") auto

text \<open>The point moves to the left over the digits of the integral part.\<close>

fun move_point :: "nat \<Rightarrow> nat \<Rightarrow> layout \<Rightarrow> (nat \<times> layout) option" where
  "move_point 0 p s = Some (p, s)"
| "move_point (Suc moves) p s = do {
     temp \<leftarrow> get_at p s;
     c \<leftarrow> (if p = 0 then None else get_at (p - 1) s);
     s \<leftarrow> put_at p c s;
     s \<leftarrow> put_at (p - 1) temp s;
     move_point moves (p - 1) s
   }"

declare fraction_digits.simps [simp del]

definition digits_wanted :: "float_type \<Rightarrow> u32 \<Rightarrow> layout \<Rightarrow> int" where
  "digits_wanted t int_width s =
     (let p = (if precision (info s) \<noteq> 0xFFFFFFFF then precision (info s) else default_precision t); w = spec_width (info s)
      in if w > 0 \<and> w < p + 1 + int_width
         then if clamps t then max 0 (sint w - sint int_width - 1) else sint (w - int_width - 1)
         else sint p)"

definition insert_decimal :: "float_type \<Rightarrow> int \<times> int \<Rightarrow> layout \<Rightarrow> layout option" where
  "insert_decimal t v s =
     (let s = (if type_char (info s) = ch CHR ''e'' then s\<lparr>info := (info s)\<lparr>type_char := ch CHR ''Z''\<rparr>\<rparr> else s);
          begin_cursor = cursor s; i_part = fl_trunc v
      in do {
        (int_width, s) \<leftarrow>
          (if fst v \<ge> 0 then if i_part \<ge> 2 ^ 64 then None else insert_integral_unsigned (of_int i_part) 10 s
           else if i_part < - (2 ^ 63) then None else insert_integral_signed (of_int i_part) 10 s);
        let v = fl_sub t v (fl_round t (i_part, 0));
        let n = digits_wanted t int_width s;
        let v = (\<bar>fst v\<bar>, snd v);
        let s = expand_format_content_buff_size (cursor s + of_int n + 5) s;
        let exp = (type_char (info s) = ch CHR ''Z'');
        (point, s) \<leftarrow>
          (if n > 0 \<or> (exp \<and> int_width > 1) then map_option (Pair (unat (cursor s))) (put (ch CHR ''.'') s) else Some (0, s));
        s \<leftarrow> fraction_digits t (nat n) v s;
        if exp
        then do {
          let s = s\<lparr>info := (info s)\<lparr>type_char := ch CHR ''e''\<rparr>\<rparr>;
          let moves = int_width - 1;
          (point, s) \<leftarrow> (if point \<noteq> 0 then move_point (unat moves) point s else Some (point, s));
          let s = (if precision (info s) > 0 \<and> precision (info s) < cursor s - begin_cursor
                   then s\<lparr>cursor := of_nat point + precision (info s) + 1\<rparr> else s);
          fill_e_style moves begin_cursor s
        }
        else Some s
      })"

section \<open>Alignment\<close>

text \<open>The text moves to the right; signs and radix prefixes are overwritten by the fill character and put back by the gap.\<close>

function move_right :: "nat \<Rightarrow> nat \<Rightarrow> nat \<Rightarrow> nat \<Rightarrow> nat \<Rightarrow> layout \<Rightarrow> (nat \<times> layout) option" where
  "move_right pos dis i ignore ignore_index s =
     (if i > dis then Some (ignore, s)
      else
        let f = info s; opt_index = pos + unat (spec_width f) - i; move_index = pos + dis - i
        in do {
          c \<leftarrow> get_at move_index s;
          if (c = ch CHR ''+'' \<or> c = ch CHR ''-'') \<and> fill f \<noteq> ch CHR '' ''
          then Option.bind (put_at opt_index (fill f) s) (move_right pos dis (i + 1) 1 ignore_index)
          else if fill f = ch CHR ''0'' \<and> prefix_char f = ch CHR ''#'' \<and> (type_char f = ch CHR ''b'' \<or> type_char f = ch CHR ''x'')
              \<and> c \<in> {ch CHR ''b'', ch CHR ''B'', ch CHR ''x'', ch CHR ''X''}
          then Option.bind (put_at opt_index (fill f) s) (move_right pos dis (i + 1) 2 (move_index - 1))
          else if ignore = 2 \<and> ignore_index = move_index
          then Option.bind (put_at opt_index (fill f) s) (move_right pos dis (i + 1) ignore ignore_index)
          else Option.bind (put_at opt_index c s) (move_right pos dis (i + 1) ignore ignore_index)
        })"
  by pat_completeness auto
termination by (relation "measure (\<lambda>(pos, dis, i, ignore, ignore_index, s). dis + 1 - i)") auto

declare move_right.simps [simp del]

fun fill_range :: "nat list \<Rightarrow> u8 \<Rightarrow> layout \<Rightarrow> layout option" where
  "fill_range [] c s = Some s"
| "fill_range (i # is) c s = Option.bind (put_at i c s) (fill_range is c)"

fun move_up :: "nat list \<Rightarrow> nat \<Rightarrow> layout \<Rightarrow> layout option" where
  "move_up [] d s = Some s"
| "move_up (i # is) d s = do { c \<leftarrow> get_at i s; s \<leftarrow> put_at (i + d) c s; move_up is d s }"

definition fill_and_alignment :: "u32 \<Rightarrow> layout \<Rightarrow> layout option" where
  "fill_and_alignment write_begin_pos s =
     (let dis = cursor s - write_begin_pos; f = info s; pos = unat write_begin_pos; d = unat dis
      in if dis < spec_width f
         then
           let fill_count = unat (spec_width f) - d
           in do {
             s \<leftarrow>
               (if align f = ch CHR ''>'' then do {
                  (ignore, s) \<leftarrow> move_right pos d 1 0 0 s;
                  fill_range (map ((+) pos) [ignore..<fill_count]) (fill f) s
                }
                else if align f = ch CHR ''<'' then fill_range (map ((+) (unat (cursor s))) [0..<fill_count]) (fill f) s
                else if align f = ch CHR ''^'' then do {
                  let behind = fill_count div 2;
                  let front = fill_count - behind;
                  s \<leftarrow> move_up (map (\<lambda>i. pos + d - i) [1..<d + 1]) front s;
                  s \<leftarrow> fill_range (map ((+) pos) [0..<front]) (fill f) s;
                  fill_range (map ((+) (front + pos + d)) [0..<behind]) (fill f) s
                }
                else Some s);
             Some (s\<lparr>cursor := cursor s + of_nat fill_count,
               info := \<lparr>used = False, upper = False, fill = 0, align = 0, sign = 0, prefix_char = 0, spec_offset = 0, spec_width = 0,
                 precision = 0, type_char = 0\<rparr>\<rparr>)
           }
         else Some s)"

section \<open>Arguments\<close>

text \<open>\<open>read_argument_value\<close>: the bytes at an offset of an argument; \<open>None\<close> is a read behind the record.\<close>

definition read_arg :: "bytes \<Rightarrow> nat \<Rightarrow> nat \<Rightarrow> bytes option" where
  "read_arg arg off n = (if off + n \<le> length arg then Some (mem_read arg off n) else None)"

definition ignore_width :: "(u32 \<times> layout) option \<Rightarrow> layout option" where
  "ignore_width r = map_option snd r"

text \<open>The \<open>switch\<close> over the tag: the bytes the argument takes and the state behind its insertion.\<close>

definition insert_argument :: "bytes \<Rightarrow> layout \<Rightarrow> (u32 \<times> layout) option" where
  "insert_argument arg s = do {
     tag \<leftarrow> read_arg arg 0 1;
     (case tag_of (hd tag) of
        Some tag_null \<Rightarrow> map_option (Pair 4) (insert_str_utf8 (map of_char ''null'') s)
      | Some tag_pointer \<Rightarrow> do { v \<leftarrow> read_arg arg 4 8; map_option (Pair 12) (insert_pointer (le_word v) s) }
      | Some tag_bool \<Rightarrow> do { v \<leftarrow> read_arg arg 2 1; map_option (Pair 4) (insert_bool (hd v \<noteq> 0) s) }
      | Some tag_char \<Rightarrow> do { v \<leftarrow> read_arg arg 2 1; map_option (Pair 4) (insert_char (hd v) s) }
      | Some tag_char16 \<Rightarrow> do { v \<leftarrow> read_arg arg 2 2; map_option (Pair 4) (insert_char16 (le_word v) s) }
      | Some tag_char32 \<Rightarrow> do { v \<leftarrow> read_arg arg 4 4; map_option (Pair 8) (insert_char32 (le_word v) s) }
      | Some tag_int8 \<Rightarrow> do { v \<leftarrow> read_arg arg 2 1; map_option (Pair 4) (ignore_width (insert_integral_signed (scast (le_word v :: 8 word)) 10 s)) }
      | Some tag_uint8 \<Rightarrow> do { v \<leftarrow> read_arg arg 2 1; map_option (Pair 4) (ignore_width (insert_integral_unsigned (ucast (le_word v :: 8 word)) 10 s)) }
      | Some tag_int16 \<Rightarrow> do { v \<leftarrow> read_arg arg 2 2; map_option (Pair 4) (ignore_width (insert_integral_signed (scast (le_word v :: 16 word)) 10 s)) }
      | Some tag_uint16 \<Rightarrow> do { v \<leftarrow> read_arg arg 2 2; map_option (Pair 4) (ignore_width (insert_integral_unsigned (ucast (le_word v :: 16 word)) 10 s)) }
      | Some tag_int32 \<Rightarrow> do { v \<leftarrow> read_arg arg 4 4; map_option (Pair 8) (ignore_width (insert_integral_signed (scast (le_word v :: 32 word)) 10 s)) }
      | Some tag_uint32 \<Rightarrow> do { v \<leftarrow> read_arg arg 4 4; map_option (Pair 8) (ignore_width (insert_integral_unsigned (ucast (le_word v :: 32 word)) 10 s)) }
      | Some tag_int64 \<Rightarrow> do { v \<leftarrow> read_arg arg 4 8; map_option (Pair 12) (ignore_width (insert_integral_signed (le_word v) 10 s)) }
      | Some tag_uint64 \<Rightarrow> do { v \<leftarrow> read_arg arg 4 8; map_option (Pair 12) (ignore_width (insert_integral_unsigned (le_word v) 10 s)) }
      | Some tag_float \<Rightarrow> do {
          v \<leftarrow> read_arg arg 4 4; x \<leftarrow> fl_decode 23 8 (unat (le_word v :: u32)); map_option (Pair 8) (insert_decimal float_single x s) }
      | Some tag_double \<Rightarrow> do {
          v \<leftarrow> read_arg arg 4 8; x \<leftarrow> fl_decode 52 11 (unat (le_word v :: u64)); map_option (Pair 12) (insert_decimal float_double x s) }
      | Some tag_string_utf8 \<Rightarrow> do {
          n \<leftarrow> read_arg arg 4 4;
          str \<leftarrow> read_arg arg 8 (unat (le_word n :: u32));
          map_option (Pair (8 + ((le_word n + 3) AND NOT 3))) (insert_str_utf8 str s) }
      | Some tag_string_utf16 \<Rightarrow> do {
          n \<leftarrow> read_arg arg 4 4;
          str \<leftarrow> read_arg arg 8 (unat (le_word n :: u32));
          map_option (Pair (8 + ((le_word n + 3) AND NOT 3))) (insert_str_utf16 str s) }
      | _ \<Rightarrow> Some (0, s))
   }"

section \<open>The format string\<close>

definition insert_brace :: "u8 \<Rightarrow> layout \<Rightarrow> layout option" where
  "insert_brace c s = put c (expand_format_content_buff_size (cursor s + 1) s)"

text \<open>
  A closed placeholder: the specification is read, the argument inserted and aligned, and room made for \<open>left\<close> more bytes.
  The result has the length of the placeholder and the new position in the arguments.
\<close>

definition insert_placeholder :: "'a::len word list \<Rightarrow> nat \<Rightarrow> bytes \<Rightarrow> u32 \<Rightarrow> u32 \<Rightarrow> (nat \<Rightarrow> u32) \<Rightarrow> layout \<Rightarrow> (nat \<times> u32 \<times> layout) option" where
  "insert_placeholder style spec_len args args_len args_cursor left s =
     (let i = c20_format style (spec_len + 1);
          step = (if spec_offset i \<noteq> 0 then unat (spec_offset i) + 1 else spec_len + 1);
          s = s\<lparr>info := i\<rparr>;
          write_begin_pos = cursor s
      in do {
        (n, s) \<leftarrow> insert_argument (drop (unat args_cursor) args) s;
        let args_cursor = args_cursor + n;
        if args_cursor > args_len then None
        else do {
          s \<leftarrow> fill_and_alignment write_begin_pos s;
          Some (step, args_cursor, expand_format_content_buff_size (cursor s + left step) s)
        }
      })"

definition is_brace :: "'a::len word \<Rightarrow> bool" where
  "is_brace c \<longleftrightarrow> c = of_char CHR ''{'' \<or> c = of_char CHR ''}''"

text \<open>The scan for the end of a placeholder, at most 20 characters far: its length, if it is closed.\<close>

fun scan_spec :: "nat \<Rightarrow> u8 list \<Rightarrow> nat option" where
  "scan_spec k [] = None"
| "scan_spec k (c # cs) =
     (if k \<ge> 20 then None
      else if c = ch CHR ''}'' then Some k
      else if c = ch CHR ''{'' then None
      else scan_spec (k + 1) cs)"

function format_utf8_loop :: "bytes \<Rightarrow> bytes \<Rightarrow> u32 \<Rightarrow> nat \<Rightarrow> u32 \<Rightarrow> layout \<Rightarrow> layout option" where
  "format_utf8_loop fmt args args_len i args_cursor s =
     (if i < length fmt
      then do {
        let copied = length (takeWhile (\<lambda>c. \<not> is_brace c) (drop i fmt));
        s \<leftarrow> copy_in (take copied (drop i fmt)) s;
        let i = i + copied;
        if i \<ge> length fmt then Some s
        else
          let c = fmt ! i; i = i + 1
          in if c = ch CHR ''}''
             then do {
               s \<leftarrow> insert_brace (ch CHR ''}'') s;
               format_utf8_loop fmt args args_len (if i < length fmt \<and> fmt ! i = ch CHR ''}'' then i + 1 else i) args_cursor s
             }
             else
               let s = (if used (info s) then s\<lparr>info := format_info_reset\<rparr> else s)
               in case (if args_cursor < args_len then scan_spec 0 (drop i fmt) else None) of
                    Some spec_len \<Rightarrow> do {
                      (step, args_cursor, s) \<leftarrow> insert_placeholder (drop i fmt) spec_len args args_len args_cursor
                        (\<lambda>step. of_nat (length fmt) - of_nat (i + step)) s;
                      format_utf8_loop fmt args args_len (i + step) args_cursor s
                    }
                  | None \<Rightarrow> do {
                      s \<leftarrow> insert_brace (ch CHR ''{'') s;
                      format_utf8_loop fmt args args_len i args_cursor s
                    }
      }
      else Some s)"
  by pat_completeness auto
termination by (relation "measure (\<lambda>(fmt, args, args_len, i, args_cursor, s). length fmt - i)") auto

declare format_utf8_loop.simps [simp del]

definition python_style_format_content_utf8 :: "bytes \<Rightarrow> layout \<Rightarrow> layout option" where
  "python_style_format_content_utf8 m s =
     (let args_len = get_log_args_data_size m; n = unat (log_format_data_len (get_log_head m)); fmt = take n (get_format_string_data m)
      in if length fmt < n then None
         else if args_len = 0 then insert_str_utf8 fmt s
         else format_utf8_loop fmt (get_log_args_data m) args_len 0 0
                (expand_format_content_buff_size (cursor s + log_format_data_len (get_log_head m)) s))"

section \<open>UTF-16 format strings\<close>

definition insert_bytes :: "bytes \<Rightarrow> layout \<Rightarrow> layout option" where
  "insert_bytes bs s = copy_in bs (expand_format_content_buff_size (cursor s + of_nat (length bs)) s)"

text \<open>The character \<open>c\<close> above ASCII and what follows it: the number of units used, and the state.\<close>

definition insert_unit :: "u16 \<Rightarrow> u16 list \<Rightarrow> layout \<Rightarrow> (nat \<times> layout) option" where
  "insert_unit x rest s =
     (let c = ucast x :: u32
      in if c < 0x800 then map_option (Pair 1) (insert_bytes [ucast (0xC0 OR drop_bit 6 c), ucast (0x80 OR (c AND 0x3F))] s)
         else if c \<ge> 0xD800 \<and> c \<le> 0xDBFF then
           (case rest of
              [] \<Rightarrow> Some (1, s)
            | y # _ \<Rightarrow>
                let c2 = ucast y :: u32
                in if c2 \<ge> 0xDC00 \<and> c2 \<le> 0xDFFF
                   then
                     let cp = 0x10000 + (c - 0xD800) * 0x400 + (c2 - 0xDC00)
                     in map_option (Pair 2) (insert_bytes [ucast (0xF0 OR drop_bit 18 cp), ucast (0x80 OR (drop_bit 12 cp AND 0x3F)),
                          ucast (0x80 OR (drop_bit 6 cp AND 0x3F)), ucast (0x80 OR (cp AND 0x3F))] s)
                   else Some (1, s))
         else if c \<ge> 0xDC00 \<and> c \<le> 0xDFFF then Some (1, s)
         else map_option (Pair 1) (insert_bytes [ucast (0xE0 OR drop_bit 12 c), ucast (0x80 OR (drop_bit 6 c AND 0x3F)), ucast (0x80 OR (c AND 0x3F))] s))"

fun scan_spec16 :: "nat \<Rightarrow> u16 list \<Rightarrow> nat option" where
  "scan_spec16 k [] = None"
| "scan_spec16 k (c # cs) =
     (if k \<ge> 20 then None
      else if c = of_char CHR ''}'' then Some k
      else if c = of_char CHR ''{'' then (case cs of d # ds \<Rightarrow> if d = of_char CHR ''{'' then scan_spec16 (k + 2) ds else None | [] \<Rightarrow> None)
      else scan_spec16 (k + 1) cs)"

lemma insert_unit_pos: "insert_unit x rest s = Some (n, s') \<Longrightarrow> 0 < n"
  by (auto simp: insert_unit_def Let_def split: if_splits list.splits)

function format_utf16_loop :: "u16 list \<Rightarrow> bytes \<Rightarrow> u32 \<Rightarrow> nat \<Rightarrow> u32 \<Rightarrow> layout \<Rightarrow> layout option" where
  "format_utf16_loop fmt args args_len i args_cursor s =
     (if i < length fmt
      then do {
        let ascii = takeWhile (\<lambda>c. c < 0x80 \<and> \<not> is_brace c) (drop i fmt);
        s \<leftarrow> copy_in (map ucast ascii) s;
        let i = i + length ascii;
        if i \<ge> length fmt then Some s
        else
          let c = fmt ! i; i' = i + 1
          in if c \<ge> 0x80
             then (case insert_unit c (drop i' fmt) s of
                     None \<Rightarrow> None
                   | Some (n, s) \<Rightarrow> format_utf16_loop fmt args args_len (i + n) args_cursor s)
             else if c = of_char CHR ''}''
             then do {
               s \<leftarrow> insert_brace (ch CHR ''}'') s;
               format_utf16_loop fmt args args_len (if i' < length fmt \<and> fmt ! i' = of_char CHR ''}'' then i' + 1 else i') args_cursor s
             }
             else
               let s = (if used (info s) then s\<lparr>info := format_info_reset\<rparr> else s)
               in case (if args_cursor < args_len then scan_spec16 0 (drop i' fmt) else None) of
                    Some spec_len \<Rightarrow> do {
                      (step, args_cursor, s) \<leftarrow> insert_placeholder (drop i' fmt) spec_len args args_len args_cursor
                        (\<lambda>step. (of_nat (length fmt) - of_nat (i' + step)) * 3 div 2) s;
                      format_utf16_loop fmt args args_len (i' + step) args_cursor s
                    }
                  | None \<Rightarrow> do {
                      s \<leftarrow> insert_brace (ch CHR ''{'') s;
                      format_utf16_loop fmt args args_len i' args_cursor s
                    }
      }
      else Some s)"
  by pat_completeness auto
termination by (relation "measure (\<lambda>(fmt, args, args_len, i, args_cursor, s). length fmt - i)") (auto dest: insert_unit_pos)

declare format_utf16_loop.simps [simp del]

definition python_style_format_content_utf16 :: "bytes \<Rightarrow> layout \<Rightarrow> layout option" where
  "python_style_format_content_utf16 m s =
     (let n = unat (log_format_data_len (get_log_head m)); fmt = take n (get_format_string_data m)
      in if length fmt < n then None
         else format_utf16_loop (utf16_units fmt) (get_log_args_data m) (get_log_args_data_size m) 0 0
                (expand_format_content_buff_size (cursor s + of_nat (n * 3 div 2)) s))"

definition python_style_format_content :: "bytes \<Rightarrow> layout \<Rightarrow> layout option" where
  "python_style_format_content m s = do {
     s \<leftarrow> (if log_format_str_type (get_log_head m) = tag_code tag_string_utf8 then python_style_format_content_utf8 m s
           else python_style_format_content_utf16 m s);
     put_at (unat (cursor s)) 0 (expand_format_content_buff_size (cursor s + 1) s)
   }"

section \<open>The whole line\<close>

datatype layout_result = layout_finished | layout_to_be_continue | layout_parse_error

definition kLevelText :: "string list" where
  "kLevelText = [''[V]'', ''[D]'', ''[I]'', ''[W]'', ''[E]'', ''[F]'']"

definition kDigits3 :: bytes where
  "kDigits3 = concat (map (\<lambda>v. [of_nat (48 + v div 100), of_nat (48 + v div 10 mod 10), of_nat (48 + v mod 10)]) [0..<1000])"

definition insert_time :: "(int \<Rightarrow> tm option) \<Rightarrow> bytes \<Rightarrow> time_zone \<Rightarrow> layout \<Rightarrow> (time_zone \<times> layout) option" where
  "insert_time local_tm m tz s =
     (let s = expand_format_content_buff_size (cursor s + 128 + 3) s;
          epoch_ms = timestamp_epoch (get_log_head m);
          tz = refresh_time_string_cache local_tm epoch_ms tz
      in do {
        s \<leftarrow> copy_in (map of_char (time_cache tz)) s;
        s \<leftarrow> copy_in (mem_read kDigits3 (3 * (unat epoch_ms mod 1000)) 3) s;
        Some (tz, s)
      })"

text \<open>The cached text of a thread, made from the name behind the record when the thread is new.\<close>

definition thread_text :: "u64 \<Rightarrow> bytes \<Rightarrow> bytes option" where
  "thread_text tid name =
     (let t = map of_char (''[tid-'' @ nat_text (unat tid) @ '' '') @ name @ map of_char ('']'' @ [CHR 0x09])
      in if length t < 256 then Some (takeWhile (\<lambda>c. c \<noteq> 0) t) else None)"

definition insert_thread_info :: "bytes \<Rightarrow> (u64, bytes) hash_map \<Rightarrow> layout \<Rightarrow> ((u64, bytes) hash_map \<times> layout) option" where
  "insert_thread_info m cache s =
     (let tid = log_thread_id (get_log_head m); ext = unat (ext_info_offset (get_log_head m))
      in do {
        it \<leftarrow> hm_find integer_hash_code tid cache;
        (it, cache) \<leftarrow>
          (if iterator_eq it (end_iterator cache)
           then do {
             n \<leftarrow> read_arg m ext 1;
             name \<leftarrow> read_arg m (ext + 1) (unat (hd n));
             t \<leftarrow> thread_text tid name;
             hm_add integer_hash_code tid t cache
           }
           else Some (it, cache));
        e \<leftarrow> iterator_entry cache it;
        s \<leftarrow> (if snd e = [] then Some s else insert_bytes (snd e) s);
        Some (cache, s)
      })"

definition layout_prefix :: "(int \<Rightarrow> tm option) \<Rightarrow> bytes list \<Rightarrow> bytes \<Rightarrow> time_zone \<Rightarrow> (u64, bytes) hash_map \<Rightarrow> layout
    \<Rightarrow> (layout_result \<times> time_zone \<times> (u64, bytes) hash_map \<times> layout) option" where
  "layout_prefix local_tm categories m tz cache s = do {
     (tz, s) \<leftarrow> insert_time local_tm m tz s;
     (cache, s) \<leftarrow> insert_thread_info m cache s;
     let level = unat (level (get_log_head m));
     if level > 5 then Some (layout_parse_error, tz, cache, s)
     else do {
       s \<leftarrow> insert_str_utf8 (map of_char (kLevelText ! level)) s;
       s \<leftarrow> insert_char 9 s;
       let category = unat (category_idx (get_log_head m));
       if category \<ge> length categories then Some (layout_parse_error, tz, cache, s)
       else if categories ! category = [] then Some (layout_finished, tz, cache, s)
       else do {
         s \<leftarrow> insert_char (ch CHR ''['') s;
         s \<leftarrow> insert_str_utf8 (categories ! category) s;
         s \<leftarrow> insert_str_utf8 [ch CHR '']'', 9] s;
         Some (layout_finished, tz, cache, s)
       }
     }
   }"

definition do_layout :: "(int \<Rightarrow> tm option) \<Rightarrow> bytes list \<Rightarrow> bytes \<Rightarrow> time_zone \<Rightarrow> (u64, bytes) hash_map \<Rightarrow> layout
    \<Rightarrow> (layout_result \<times> time_zone \<times> (u64, bytes) hash_map \<times> layout) option" where
  "do_layout local_tm categories m tz cache s = do {
     let s = expand_format_content_buff_size 1024 (s\<lparr>cursor := 0\<rparr>);
     (r, tz, cache, s) \<leftarrow> layout_prefix local_tm categories m tz cache s;
     if r \<noteq> layout_finished then Some (r, tz, cache, s)
     else do {
       s \<leftarrow> python_style_format_content m s;
       Some (layout_finished, tz, cache, s)
     }
   }"

end
