(* ===== verification/Qlog_Layout_Output.thy ===== *)
theory Qlog_Layout_Output
  imports Qlog_Layout_Format Qlog_Record_Props Qlog_Config_Leaves Qlog_Utf_Correct
begin

unbundle bit_operations_syntax

text \<open>
  What the insertions of the layout write: the output so far, the room behind it, and for texts and numbers the bytes
  that are appended.
\<close>

section \<open>The output so far\<close>

definition out :: "layout \<Rightarrow> bytes \<Rightarrow> bool" where
  "out s t \<longleftrightarrow> unat (cursor s) = length t \<and> length t \<le> length (format_content s) \<and> take (length t) (format_content s) = t"

definition room :: "layout \<Rightarrow> nat \<Rightarrow> bool" where
  "room s n \<longleftrightarrow> unat (cursor s) + n \<le> length (format_content s)"

text \<open>The numbers in a format specification are small, so that the extra room they ask for is, too.\<close>

definition info_ok :: "format_info \<Rightarrow> bool" where
  "info_ok i \<longleftrightarrow> spec_width i \<le> 99 \<and> (precision i \<le> 99 \<or> precision i = 0xFFFFFFFF)"

definition extra_room :: "format_info \<Rightarrow> nat" where
  "extra_room i = (if spec_offset i \<noteq> 0 then unat (spec_width i + precision i + 2) else 0)"

lemma extra_room_small: "info_ok i \<Longrightarrow> extra_room i \<le> 200"
proof -
  assume ok: "info_ok i"
  then have w: "unat (spec_width i) \<le> 99" by (simp add: info_ok_def word_le_nat_alt)
  consider "unat (precision i) \<le> 99" | "precision i = - 1" using ok by (auto simp: info_ok_def word_le_nat_alt)
  then show ?thesis
  proof cases
    case 1
    then show ?thesis using w by (simp add: extra_room_def unat_word_ariths)
  next
    case 2
    then have "spec_width i + precision i + 2 = spec_width i + 1" by (simp add: algebra_simps)
    moreover have "extra_room i \<le> unat (spec_width i + precision i + 2)" by (simp add: extra_room_def)
    ultimately have "extra_room i \<le> unat (spec_width i + 1)" by (simp only:)
    also have "\<dots> \<le> 200" using w by (simp add: unat_word_ariths)
    finally show ?thesis .
  qed
qed

lemma expand_run:
  assumes "out s t" "info_ok (info s)" "length t + n < 2 ^ 30"
  defines "s' \<equiv> expand_format_content_buff_size (cursor s + of_nat n) s"
  shows "out s' t" "room s' (n + extra_room (info s))" "info s' = info s" "cursor s' = cursor s" "length (format_content s) \<le> length (format_content s')"
proof -
  define k where "k = (if spec_offset (info s) \<noteq> 0 then cursor s + of_nat n + (spec_width (info s) + precision (info s) + 2) else cursor s + of_nat n)"
  have c: "unat (cursor s) = length t" using assms(1) by (simp add: out_def)
  have x: "extra_room (info s) \<le> 200" using extra_room_small [OF assms(2)] .
  have n: "unat (of_nat n :: u32) = n" using assms(3) by (simp add: unat_of_nat)
  have k: "unat k = length t + n + extra_room (info s)"
    using c n x assms(3) by (auto simp: k_def extra_room_def unat_word_ariths)
  have s': "s' = (if unat k \<le> length (format_content s) then s else s\<lparr>format_content := resize (unat (round_pow_of_two k)) (format_content s)\<rparr>)"
    by (simp add: s'_def expand_format_content_buff_size_def k_def Let_def)
  have all: "out s' t \<and> room s' (n + extra_room (info s)) \<and> info s' = info s \<and> cursor s' = cursor s
    \<and> length (format_content s) \<le> length (format_content s')"
  proof (cases "unat k \<le> length (format_content s)")
    case True
    then show ?thesis using assms(1) c k by (simp add: s' room_def)
  next
    case False
    then have "1 \<le> k" by (simp add: word_le_nat_alt)
    moreover have "unat k \<le> 2 ^ 31" using k x assms(3) by simp
    ultimately obtain j where j: "unat (round_pow_of_two k) = 2 ^ j" "unat k \<le> 2 ^ j" using round_pow_of_two_least [of k] by blast
    then have "out (s\<lparr>format_content := resize (2 ^ j) (format_content s)\<rparr>) t"
      using assms(1) False by (auto simp: out_def resize_def min_def)
    then show ?thesis using False j c k by (simp add: s' room_def resize_def)
  qed
  then show "out s' t" "room s' (n + extra_room (info s))" "info s' = info s" "cursor s' = cursor s" "length (format_content s) \<le> length (format_content s')"
    by blast+
qed

lemma copy_in_run:
  assumes "out s t" "room s (length bs)" "length t + length bs < 2 ^ 32"
  shows "\<exists>s'. copy_in bs s = Some s' \<and> out s' (t @ bs) \<and> info s' = info s \<and> length (format_content s') = length (format_content s)"
proof -
  have c: "unat (cursor s) = length t" using assms(1) by (simp add: out_def)
  have l: "length t + length bs \<le> length (format_content s)" using assms(2) c by (simp add: room_def)
  have t: "take (length t) (format_content s) = t" using assms(1) by (simp add: out_def)
  have "unat (cursor s + of_nat (length bs)) = length t + length bs" using c assms(3) by (simp add: unat_word_ariths unat_of_nat)
  moreover have "take (length t + length bs) (mem_write (format_content s) (length t) bs) = t @ bs" using l t by (simp add: mem_write_def)
  moreover have "length (mem_write (format_content s) (length t) bs) = length (format_content s)" using l by simp
  ultimately show ?thesis using c l by (simp add: copy_in_def mem_put_ok out_def)
qed

lemma put_copy_in: "put c s = copy_in [c] s"
  by (auto simp: put_def copy_in_def put_at_def mem_put_def mem_write_one)

lemma room_mono: "room s n \<Longrightarrow> k \<le> n \<Longrightarrow> room s k"
  by (simp add: room_def)

lemma room_after: "room s (n + k) \<Longrightarrow> out s t \<Longrightarrow> out s' t' \<Longrightarrow> length t' \<le> length t + n \<Longrightarrow> length (format_content s) \<le> length (format_content s') \<Longrightarrow> room s' k"
  by (auto simp: room_def out_def)

text \<open>What an insertion does: it appends \<open>bs\<close> and keeps the specification; the buffer does not shrink.\<close>

definition appends :: "layout \<Rightarrow> bytes \<Rightarrow> bytes \<Rightarrow> layout option \<Rightarrow> bool" where
  "appends s t bs r \<longleftrightarrow> (\<exists>s'. r = Some s' \<and> out s' (t @ bs) \<and> info s' = info s \<and> length (format_content s) \<le> length (format_content s'))"

lemma appendsI: "r = Some s' \<Longrightarrow> out s' (t @ bs) \<Longrightarrow> info s' = info s \<Longrightarrow> length (format_content s) \<le> length (format_content s') \<Longrightarrow> appends s t bs r"
  by (auto simp: appends_def)

lemma appends_copy_in: "out s t \<Longrightarrow> room s (length bs) \<Longrightarrow> length t + length bs < 2 ^ 32 \<Longrightarrow> appends s t bs (copy_in bs s)"
  using copy_in_run [of s t bs] by (auto simp: appends_def)

lemma appends_expand:
  assumes "out s t" "info_ok (info s)" "length t + n < 2 ^ 30" "length bs \<le> n + extra_room (info s)"
  shows "appends s t bs (copy_in bs (expand_format_content_buff_size (cursor s + of_nat n) s))"
proof -
  note e = expand_run [OF assms(1-3)]
  have "room (expand_format_content_buff_size (cursor s + of_nat n) s) (length bs)" using e(2) assms(4) by (rule room_mono)
  moreover have "length t + length bs < 2 ^ 32" using assms(3,4) extra_room_small [OF assms(2)] by simp
  ultimately obtain s' where "copy_in bs (expand_format_content_buff_size (cursor s + of_nat n) s) = Some s'" "out s' (t @ bs)"
      "info s' = info s" "length (format_content s') = length (format_content (expand_format_content_buff_size (cursor s + of_nat n) s))"
    using copy_in_run [OF e(1)] e(3) by fastforce
  then show ?thesis using e(5) by (auto simp: appends_def)
qed

text \<open>One insertion after the other.\<close>

lemma appends_bind:
  assumes "appends s t bs r" "\<And>s'. out s' (t @ bs) \<Longrightarrow> info s' = info s \<Longrightarrow> length (format_content s) \<le> length (format_content s') \<Longrightarrow> appends s' (t @ bs) cs (f s')"
  shows "appends s t (bs @ cs) (Option.bind r f)"
proof -
  obtain s' where s': "r = Some s'" "out s' (t @ bs)" "info s' = info s" "length (format_content s) \<le> length (format_content s')"
    using assms(1) by (auto simp: appends_def)
  then show ?thesis using assms(2) [of s'] by (auto simp: appends_def)
qed

section \<open>Texts\<close>

lemma insert_str_utf8_run:
  assumes "out s t" "info_ok (info s)" "length t + length str < 2 ^ 30"
  shows "appends s t str (insert_str_utf8 str s)"
  using appends_expand [OF assms, of str] assms(1) by (auto simp: insert_str_utf8_def appends_def)

lemma insert_char_run:
  assumes "out s t" "info_ok (info s)" "length t + 1 < 2 ^ 30"
  shows "appends s t [c] (insert_char c s)" "appends s t [c] (insert_brace c s)"
  using appends_expand [OF assms, of "[c]"] by (simp_all add: insert_char_def insert_brace_def put_copy_in)

lemma insert_bool_run:
  assumes "out s t" "info_ok (info s)" "length t + 5 < 2 ^ 30"
  shows "appends s t (map of_char (if v then ''TRUE'' else ''FALSE'')) (insert_bool v s)"
  using insert_str_utf8_run [OF assms(1,2), of "map of_char (if v then ''TRUE'' else ''FALSE'')"] assms(3) by (simp add: insert_bool_def)

lemma length_utf16_units: "length (utf16_units bs) = length bs div 2"
  by (induction bs rule: utf16_units.induct) simp_all

lemma insert_str_utf16_run:
  assumes "out s t" "info_ok (info s)" "length t + (3 * length str div 2 + 1) < 2 ^ 30"
  shows "appends s t (utf16_to_utf8_sw (utf16_units str)) (insert_str_utf16 str s)"
proof -
  have "length (utf16_to_utf8_sw (utf16_units str)) \<le> 3 * (length str div 2)"
    using utf16_to_utf8_bound [of "utf16_units str"] by (simp add: length_utf16_units)
  then have "length (utf16_to_utf8_sw (utf16_units str)) \<le> 3 * length str div 2 + 1 + extra_room (info s)" by linarith
  moreover have "of_nat (length str) * 3 div 2 + 1 = (of_nat (3 * length str div 2 + 1) :: u32)"
  proof (rule word_unat_eq_iff [THEN iffD2])
    have l: "3 * length str < 2 ^ 32" using assms(3) by simp
    then have u: "unat (of_nat (length str) * 3 :: u32) = 3 * length str" by (simp add: unat_word_ariths unat_of_nat)
    show "unat (of_nat (length str) * 3 div 2 + 1 :: u32) = unat (of_nat (3 * length str div 2 + 1) :: u32)"
      using u l by (simp add: unat_word_ariths unat_div unat_of_nat)
  qed
  ultimately show ?thesis using appends_expand [OF assms] by (simp only: insert_str_utf16_def Let_def)
qed

end
