(* ===== verification/Qlog_Layout_Digits.thy ===== *)
theory Qlog_Layout_Digits
  imports Qlog_Layout_Output
begin

unbundle bit_operations_syntax

text \<open>
  What the insertion of integers and pointers writes: the sign, the prefix and the digits of the number in its base.
\<close>

section \<open>Decimal digits\<close>

definition decimal :: "nat \<Rightarrow> bytes" where
  "decimal n = map of_char (nat_text n)"

lemma byte_of_digit: "d < 10 \<Longrightarrow> of_char (digit_char d) = (of_nat (48 + d) :: u8)"
proof -
  assume "d < 10"
  then have "of_char (digit_char d) = 48 + d" by (rule digit_char_code)
  then have "(of_nat (of_char (digit_char d)) :: u8) = of_nat (48 + d)" by (rule arg_cong)
  then show ?thesis by (simp only: of_nat_of_char)
qed

lemma decimal_small: "n < 10 \<Longrightarrow> decimal n = [of_nat (48 + n)]"
  using byte_of_digit [of n] by (simp add: decimal_def nat_text.simps [of n])

lemma decimal_step: "10 \<le> n \<Longrightarrow> decimal n = decimal (n div 10) @ [of_nat (48 + n mod 10)]"
  using byte_of_digit [of "n mod 10"] by (simp add: decimal_def nat_text.simps [of n])

lemma decimal_pair: "10 \<le> n \<Longrightarrow> n < 100 \<Longrightarrow> decimal n = [of_nat (48 + n div 10), of_nat (48 + n mod 10)]"
  using decimal_step [of n] decimal_small [of "n div 10"] by simp

lemma decimal_two_steps:
  assumes "100 \<le> n"
  shows "decimal n = decimal (n div 100) @ [of_nat (48 + n mod 100 div 10), of_nat (48 + n mod 100 mod 10)]"
proof -
  have d: "n div 10 div 10 = n div 100" "n div 10 mod 10 = n mod 100 div 10" "n mod 100 mod 10 = n mod 10"
    using div_mult2_eq [of n 10 10] mod_mult2_eq [of n 10 10] mod_mod_cancel [of 10 100 n] by simp_all
  show ?thesis using assms decimal_step [of n] decimal_step [of "n div 10"] by (simp only: d) simp
qed

lemma length_decimal: "n < 10 ^ k \<Longrightarrow> 0 < k \<Longrightarrow> length (decimal n) \<le> k"
  by (simp add: decimal_def nat_text_length)

lemma length_decimal_ge: "10 ^ k \<le> n \<Longrightarrow> k < length (decimal n)"
proof (induction k arbitrary: n)
  case 0
  then show ?case using nat_text_digits(2) by (simp add: decimal_def)
next
  case (Suc k)
  then have "10 ^ k \<le> n div 10" by (simp add: less_eq_div_iff_mult_less_eq ac_simps)
  moreover have "10 \<le> n" using Suc.prems by (metis One_nat_def Suc_le_eq le_trans less_one not_le one_le_numeral power_Suc0_right power_increasing zero_less_Suc)
  ultimately show ?case using Suc.IH [of "n div 10"] decimal_step [of n] by simp
qed

lemma unat_power_10: "(10 :: nat) ^ c \<le> 10 ^ 19 \<Longrightarrow> unat (10 ^ c :: u64) = 10 ^ c"
proof -
  assume "(10 :: nat) ^ c \<le> 10 ^ 19"
  then have "unat (of_nat (10 ^ c) :: u64) = 10 ^ c" by (subst unat_of_nat) (simp add: mod_less)
  then show ?thesis by simp
qed

lemma count_digits_run:
  assumes "0 < c" "c \<le> 20" "l = 10 ^ c" "c < length (decimal (unat v)) + 1"
  shows "count_digits v c l = length (decimal (unat v))"
  using assms
proof (induction v c l rule: count_digits.induct)
  case (1 v c l)
  have v: "unat v < 10 ^ 20" using unsigned_less [of v, where ?'a = nat] by simp
  then have le: "length (decimal (unat v)) \<le> 20" by (rule length_decimal) simp
  show ?case
  proof (cases "c < 20 \<and> l \<le> v")
    case True
    then have "(10 :: nat) ^ c \<le> 10 ^ 19" by (intro power_increasing) auto
    then have "unat l = 10 ^ c" using 1(4) unat_power_10 by simp
    then have "c < length (decimal (unat v))" using True length_decimal_ge [of c "unat v"] by (simp add: word_le_nat_alt)
    then show ?thesis using True 1 by (subst count_digits.simps) simp
  next
    case False
    have "length (decimal (unat v)) \<le> c"
    proof (cases "c < 20")
      case True
      then have "(10 :: nat) ^ c \<le> 10 ^ 19" by (intro power_increasing) auto
      then have "unat l = 10 ^ c" using 1(4) unat_power_10 by simp
      then show ?thesis using False True 1(2) by (intro length_decimal) (auto simp: word_le_nat_alt)
    qed (use le in simp)
    then show ?thesis using False 1(5) by (subst count_digits.simps) auto
  qed
qed

lemma digit_pairs_nth: "k < 100 \<Longrightarrow> mem_read digit_pairs (2 * k) 2 = [of_nat (48 + k div 10), of_nat (48 + k mod 10)]"
proof -
  have "list_all (\<lambda>k. mem_read digit_pairs (2 * k) 2 = [of_nat (48 + k div 10), of_nat (48 + k mod 10)]) [0..<100]" by code_simp
  then show "k < 100 \<Longrightarrow> ?thesis" by (auto simp only: list_all_iff set_upt atLeastLessThan_iff)
qed

lemma mem_write_before:
  assumes "p + length xs + length ys \<le> length m"
  shows "mem_write (mem_write m (p + length xs) ys) p xs = mem_write m p (xs @ ys)"
proof -
  have "take p (mem_write m (p + length xs) ys) = take p m" using assms by (simp add: mem_write_def)
  moreover have "drop (p + length xs) (mem_write m (p + length xs) ys) = ys @ drop (p + length xs + length ys) m" using assms by (simp add: mem_write_def)
  ultimately show ?thesis by (simp add: mem_write_def add.assoc)
qed

lemma write_pairs_run:
  assumes "length (decimal (unat v)) \<le> p" "p \<le> length m"
  shows "write_pairs v p m = Some (mem_write m (p - length (decimal (unat v))) (decimal (unat v)))"
  using assms
proof (induction v p m rule: write_pairs.induct)
  case (1 v p m)
  consider "100 \<le> v" | "v < 100" "10 \<le> v" | "v < 10" by fastforce
  then show ?case
  proof cases
    case 1
    then have v: "100 \<le> unat v" by (simp add: word_le_nat_alt)
    let ?k = "unat v mod 100" and ?ds = "decimal (unat v div 100)"
    let ?pair = "[of_nat (48 + ?k div 10), of_nat (48 + ?k mod 10)] :: bytes"
    have d: "decimal (unat v) = ?ds @ ?pair" using v by (rule decimal_two_steps)
    have u: "unat (v mod 100) = ?k" "unat (v div 100) = unat v div 100" by (simp_all add: unat_mod unat_div)
    have p: "length ?ds \<le> p - 2" "2 \<le> p" using "1.prems"(1) unfolding d by simp_all
    let ?m = "mem_write m (p - 2) ?pair"
    have m: "mem_put m (p - 2) (mem_read digit_pairs (2 * unat (v mod 100)) 2) = Some ?m"
      using p(2) "1.prems"(2) digit_pairs_nth [of ?k] by (simp add: u mem_put_ok)
    have "write_pairs (v div 100) (p - 2) ?m = Some (mem_write ?m (p - 2 - length ?ds) ?ds)"
    proof -
      have "\<not> p < 2" "length (decimal (unat (v div 100))) \<le> p - 2" "p - 2 \<le> length ?m" using p "1.prems"(2) by (simp_all add: u)
      from "1.IH" [OF 1 this(1) m this(2,3)] show ?thesis by (simp only: u)
    qed
    also have "mem_write ?m (p - 2 - length ?ds) ?ds = mem_write m (p - length (decimal (unat v))) (decimal (unat v))"
      using mem_write_before [of "p - 2 - length ?ds" ?ds ?pair m] p "1.prems"(2) unfolding d by simp
    finally show ?thesis using 1 p(2) m by (subst write_pairs.simps) simp
  next
    case 2
    then have v: "10 \<le> unat v" "unat v < 100" by (simp_all add: word_le_nat_alt word_less_nat_alt)
    have d: "decimal (unat v) = [of_nat (48 + unat v div 10), of_nat (48 + unat v mod 10)]" using v by (rule decimal_pair)
    have "2 \<le> p" using "1.prems"(1) unfolding d by simp
    moreover have "\<not> 100 \<le> v" using 2 by simp
    ultimately show ?thesis using 2 "1.prems"(2) digit_pairs_nth [OF v(2)] unfolding d
      by (subst write_pairs.simps) (simp add: mem_put_ok numeral_2_eq_2)
  next
    case 3
    then have v: "unat v < 10" by (simp add: word_less_nat_alt)
    have d: "decimal (unat v) = [of_nat (48 + unat v)]" using v by (rule decimal_small)
    have "1 \<le> p" using "1.prems"(1) unfolding d by simp
    moreover have "(48 + ucast v :: u8) = of_nat (48 + unat v)" by simp
    moreover have "\<not> 100 \<le> v" "\<not> 10 \<le> v" using v by (simp_all add: word_le_nat_alt)
    ultimately show ?thesis using "1.prems"(2) unfolding d by (subst write_pairs.simps) (simp add: mem_put_ok)
  qed
qed

lemma write_decimal_digits_run:
  assumes "out s t" "room s (length (decimal (unat v)))" "length t + 20 < 2 ^ 32"
  shows "appends s t (decimal (unat v)) (write_decimal_digits v s)"
proof -
  let ?d = "decimal (unat v)"
  have c: "count_digits v 1 10 = length ?d" using nat_text_digits(2) [of "unat v"] by (intro count_digits_run) (simp_all add: decimal_def)
  have w: "unat (cursor s) + length ?d \<le> length (format_content s)" using assms(2) by (simp add: room_def)
  have "write_pairs v (unat (cursor s) + length ?d) (format_content s) = Some (mem_write (format_content s) (unat (cursor s)) ?d)"
    using write_pairs_run [of v "unat (cursor s) + length ?d" "format_content s"] w by simp
  then have "write_decimal_digits v s = copy_in ?d s" using w by (simp add: write_decimal_digits_def c [unfolded One_nat_def] copy_in_def mem_put_ok Let_def)
  moreover have "unat v < 10 ^ 20" using unsigned_less [of v, where ?'a = nat] by simp
  then have "length ?d \<le> 20" by (rule length_decimal) simp
  ultimately show ?thesis using appends_copy_in [OF assms(1,2)] assms(3) by simp
qed

section \<open>Digits in other bases\<close>

function base_digits :: "nat \<Rightarrow> nat \<Rightarrow> nat list" where
  "base_digits b n = (if b < 2 \<or> n < b then [n] else base_digits b (n div b) @ [n mod b])"
  by pat_completeness auto
termination by (relation "measure snd") auto

declare base_digits.simps [simp del]

definition in_base :: "bool \<Rightarrow> nat \<Rightarrow> nat \<Rightarrow> bytes" where
  "in_base up b n = map (digit_code up) (base_digits b n)"

lemma length_in_base: "2 \<le> b \<Longrightarrow> n < b ^ k \<Longrightarrow> 0 < k \<Longrightarrow> length (in_base up b n) \<le> k"
proof (induction k arbitrary: n)
  case (Suc k)
  show ?case
  proof (cases "n < b")
    case False
    then have "0 < k" using Suc.prems(2) by (cases k) simp_all
    moreover have "n div b < b ^ k" using Suc.prems by (simp add: less_mult_imp_div_less ac_simps)
    ultimately have "length (base_digits b (n div b)) \<le> k" using Suc.IH [of "n div b"] Suc.prems(1) by (simp add: in_base_def)
    then show ?thesis using False Suc.prems(1) by (simp add: in_base_def base_digits.simps [of b n])
  qed (simp add: in_base_def base_digits.simps [of b n])
qed simp

lemma put_run:
  assumes "out s t" "room s (Suc n)" "length t + n + 1 < 2 ^ 32"
  shows "\<exists>s'. put c s = Some s' \<and> out s' (t @ [c]) \<and> room s' n \<and> info s' = info s \<and> length (format_content s') = length (format_content s)"
proof -
  obtain s' where s': "put c s = Some s'" "out s' (t @ [c])" "info s' = info s" "length (format_content s') = length (format_content s)"
    using copy_in_run [OF assms(1) room_mono [OF assms(2)], of "[c]"] assms(3) by (auto simp: put_copy_in)
  moreover have "room s' n" using s' assms(1,2) by (simp add: room_def out_def)
  ultimately show ?thesis by blast
qed

lemma put_digits_run:
  assumes "2 \<le> b" "out s t" "room s (length (in_base (upper (info s)) b v))" "length t + length (in_base (upper (info s)) b v) < 2 ^ 32"
  shows "\<exists>e s'. put_digits v b counts e0 s = Some (e, s') \<and> out s' (t @ rev (in_base (upper (info s)) b v)) \<and> info s' = info s
    \<and> length (format_content s') = length (format_content s)"
  using assms
proof (induction v arbitrary: s t e0 rule: less_induct)
  case (less v)
  let ?ds = "in_base (upper (info s)) b v" and ?c = "digit_code (upper (info s)) (v mod b)"
  have b: "\<not> b < 2" "0 < b" using less.prems(1) by simp_all
  have n: "Suc (length ?ds - 1) = length ?ds" by (simp add: in_base_def base_digits.simps [of b v])
  have l: "length t + (length ?ds - 1) + 1 < 2 ^ 32" using n less.prems(4) by linarith
  obtain s1 where s1: "put ?c s = Some s1" "out s1 (t @ [?c])" "room s1 (length ?ds - 1)" "info s1 = info s" "length (format_content s1) = length (format_content s)"
    using put_run [OF less.prems(2) _ l, of ?c] less.prems(3) n by auto
  show ?case
  proof (cases "v < b")
    case True
    then have "?ds = [?c]" using b by (simp add: in_base_def base_digits.simps [of b v])
    then show ?thesis using True b s1 by (subst put_digits.simps) (simp add: Let_def)
  next
    case False
    let ?e = "if counts \<and> v div b > b then e0 + 1 else e0" and ?qs = "in_base (upper (info s)) b (v div b)"
    have q: "v div b \<noteq> 0" "v div b < v" using False b by (auto simp: div_eq_0_iff intro!: div_less_dividend)
    have d: "?ds = ?qs @ [?c]" using False b by (simp add: in_base_def base_digits.simps [of b v])
    obtain e s' where "put_digits (v div b) b counts ?e s1 = Some (e, s')" "out s' ((t @ [?c]) @ rev ?qs)" "info s' = info s1" "length (format_content s') = length (format_content s1)"
      using less.IH [OF q(2) less.prems(1) s1(2), of ?e] s1(3,4) less.prems(4) by (auto simp: d)
    then show ?thesis using q b s1 by (subst put_digits.simps) (simp add: Let_def d)
  qed
qed

lemma reverse_range_run:
  assumes "format_content s = pre @ mid @ post" "length pre = b" "b + length mid = e + 1"
  shows "reverse_range b e s = Some (s\<lparr>format_content := pre @ rev mid @ post\<rparr>)"
  using assms
proof (induction b e s arbitrary: pre mid post rule: reverse_range.induct)
  case (1 b e s)
  show ?case
  proof (cases "b < e")
    case False
    then have "length mid \<le> 1" using "1.prems" by simp
    then have "rev mid = mid" by (cases mid) simp_all
    then show ?thesis using False "1.prems"(1) by (subst reverse_range.simps) (simp add: eq_commute)
  next
    case True
    then obtain x ys y where mid: "mid = x # ys @ [y]" using "1.prems"(2,3)
      by (cases mid; cases "tl mid" rule: rev_cases) auto
    have e: "e = b + 1 + length ys" using "1.prems"(3) mid by simp
    have g: "get_at b s = Some x" "get_at e s = Some y"
      using "1.prems"(1,2) e mid by (simp_all add: get_at_def nth_append)
    let ?s1 = "s\<lparr>format_content := pre @ y # ys @ y # post\<rparr>" and ?s2 = "s\<lparr>format_content := pre @ y # ys @ x # post\<rparr>"
    have p1: "put_at b y s = Some ?s1" using "1.prems"(1,2) mid by (simp add: put_at_def list_update_append)
    have p2: "put_at e x ?s1 = Some ?s2" using "1.prems"(1,2) mid e by (simp add: put_at_def list_update_append)
    have "reverse_range (b + 1) (e - 1) ?s2 = Some (?s2\<lparr>format_content := (pre @ [y]) @ rev ys @ x # post\<rparr>)"
      using "1.IH" [OF True g p1 p2, of "pre @ [y]" ys "x # post"] "1.prems"(2) e by simp
    then show ?thesis using True g p1 p2 mid by (subst reverse_range.simps) simp
  qed
qed

lemma reverse_out:
  assumes "out s (t @ xs)" "xs \<noteq> []"
  shows "appends s t (rev xs) (reverse_range (length t) (unat (cursor s - 1)) s)"
proof -
  let ?post = "drop (length t + length xs) (format_content s)"
  have c: "format_content s = t @ xs @ ?post" using assms(1) append_take_drop_id [of "length t + length xs" "format_content s"] by (simp add: out_def)
  have "unat (cursor s) = length t + length xs" using assms(1) by (simp add: out_def)
  moreover from this assms(2) have "cursor s \<noteq> 0" by (cases xs) (simp_all add: unat_gt_0 [symmetric])
  then have "unat (cursor s - 1) = unat (cursor s) - 1" by (rule unat_minus_one)
  ultimately have u: "unat (cursor s - 1) + 1 = length t + length xs" using assms(2) by (cases xs) simp_all
  have "reverse_range (length t) (unat (cursor s - 1)) s = Some (s\<lparr>format_content := t @ rev xs @ ?post\<rparr>)"
    using reverse_range_run [OF c refl] u by simp
  moreover have "out (s\<lparr>format_content := t @ rev xs @ ?post\<rparr>) (t @ rev xs)" using assms(1) by (simp add: out_def)
  moreover have "length (t @ rev xs @ ?post) = length (format_content s)" using c by (metis length_append length_rev)
  ultimately show ?thesis by (simp add: appends_def)
qed

lemma decimal_in_base: "decimal n = in_base up 10 n"
proof (induction n rule: less_induct)
  case (less n)
  show ?case
  proof (cases "n < 10")
    case True
    then show ?thesis by (simp add: decimal_small in_base_def base_digits.simps [of 10 n] digit_code_def)
  next
    case False
    then show ?thesis using less [of "n div 10"] by (simp add: decimal_step in_base_def base_digits.simps [of 10 n] digit_code_def)
  qed
qed

lemma in_base_not_Nil: "in_base up b n \<noteq> []"
  by (simp add: in_base_def base_digits.simps [of b n])

lemma insert_digits_run:
  assumes "out s t" "room s (length (in_base (upper (info s)) b v))" "length t + length (in_base (upper (info s)) b v) + 20 < 2 ^ 32"
    "type_char (info s) \<noteq> ch CHR ''e''" "2 \<le> b" "v < 2 ^ 64"
  shows "appends s t (in_base (upper (info s)) b v) (insert_digits v b counts s)"
proof (cases "b = 10")
  case True
  have "unat (of_nat v :: u64) = v" using assms(6) by (simp add: unat_of_nat)
  then show ?thesis using write_decimal_digits_run [of s t "of_nat v"] assms True decimal_in_base [of v "upper (info s)"]
    by (simp add: insert_digits_def)
next
  case False
  let ?ds = "in_base (upper (info s)) b v"
  obtain e s1 where s1: "put_digits v b counts 0 s = Some (e, s1)" "out s1 (t @ rev ?ds)" "info s1 = info s" "length (format_content s1) = length (format_content s)"
    using put_digits_run [OF assms(5,1,2), of counts 0] assms(3) by auto
  have c: "unat (cursor s) = length t" using assms(1) by (simp add: out_def)
  show ?thesis using reverse_out [OF s1(2)] s1 False assms(4) in_base_not_Nil [of "upper (info s)" b v]
    by (simp add: insert_digits_def Let_def finish_digits_def c appends_def)
qed

section \<open>Integers\<close>

definition prefix_text :: "format_info \<Rightarrow> bytes" where
  "prefix_text i =
     (if prefix_char i \<noteq> ch CHR ''#'' then []
      else if type_char i = ch CHR ''b'' then [ch CHR ''0'', if upper i then ch CHR ''B'' else ch CHR ''b'']
      else if type_char i = ch CHR ''x'' then [ch CHR ''0'', if upper i then ch CHR ''X'' else ch CHR ''x'']
      else [])"

definition integral_text :: "format_info \<Rightarrow> nat \<Rightarrow> int \<Rightarrow> bool \<Rightarrow> bytes" where
  "integral_text i base v shows_plus =
     (if v < 0 then [ch CHR ''-''] else if shows_plus \<and> sign i = ch CHR ''+'' then [ch CHR ''+''] else [])
     @ prefix_text i @ in_base (upper i) (effective_base i base) (nat \<bar>v\<bar>)"

lemma put_appends: "out s t \<Longrightarrow> room s 1 \<Longrightarrow> length t + 1 < 2 ^ 32 \<Longrightarrow> appends s t [c] (put c s)"
  using appends_copy_in [of s t "[c]"] by (simp add: put_copy_in)

lemma appends_room:
  assumes "out s t" "out s' (t @ bs)" "length (format_content s) \<le> length (format_content s')" "room s (length bs + n)"
  shows "room s' n"
  using assms by (simp add: room_def out_def)

lemma appends_Nil: "out s t \<Longrightarrow> appends s t [] (Some s)"
  by (simp add: appends_def)

lemma insert_prefix_run:
  assumes "out s t" "room s (length (prefix_text (info s)))" "length t + 2 < 2 ^ 32"
  shows "appends s t (prefix_text (info s)) (insert_prefix s)"
proof -
  have two: "appends s t [c, d] (Option.bind (put c s) (put d))" if "room s 2" for c d
  proof -
    have "appends s t ([c] @ [d]) (Option.bind (put c s) (put d))"
    proof (rule appends_bind [OF put_appends])
      fix s' assume s': "out s' (t @ [c])" "length (format_content s) \<le> length (format_content s')"
      have "room s' 1" using appends_room [OF assms(1) s', of 1] that by (simp add: numeral_2_eq_2)
      then show "appends s' (t @ [c]) [d] (put d s')" using s'(1) assms(3) by (intro put_appends) simp_all
    qed (use that assms in \<open>simp_all add: room_def\<close>)
    then show ?thesis by simp
  qed
  show ?thesis using two assms(1,2) unfolding insert_prefix_def prefix_text_def Let_def by (simp add: numeral_2_eq_2 appends_Nil split: if_splits)
qed

text \<open>What an insertion with a width does: it appends \<open>bs\<close> and reports its length.\<close>

definition writes :: "layout \<Rightarrow> bytes \<Rightarrow> bytes \<Rightarrow> (u32 \<times> layout) option \<Rightarrow> bool" where
  "writes s t bs r \<longleftrightarrow> (\<exists>s'. r = Some (of_nat (length bs), s') \<and> out s' (t @ bs) \<and> info s' = info s
     \<and> length (format_content s) \<le> length (format_content s'))"

lemma writes_appends: "writes s t bs r \<Longrightarrow> appends s t bs (ignore_width r)"
  by (auto simp: writes_def appends_def ignore_width_def)

lemma out_cursor: "out s t \<Longrightarrow> cursor s = of_nat (length t)"
  by (auto simp: out_def dest: sym [of _ "length t"])

lemma appends_writes:
  assumes "out s t" "appends s t bs r"
  shows "writes s t bs (Option.bind r (\<lambda>s'. Some (cursor s' - cursor s, s')))"
proof -
  obtain s' where s': "r = Some s'" "out s' (t @ bs)" "info s' = info s" "length (format_content s) \<le> length (format_content s')"
    using assms(2) by (auto simp: appends_def)
  have "cursor s = of_nat (length t)" "cursor s' = of_nat (length t + length bs)"
    using out_cursor [OF assms(1)] out_cursor [OF s'(2)] by simp_all
  then show ?thesis using s' by (simp add: writes_def)
qed

lemma effective_base_bound: "2 \<le> base \<Longrightarrow> 2 \<le> effective_base i base"
  by (simp add: effective_base_def)

lemma integral_steps:
  assumes "out s t" "appends s t sg r" "room s (length (sg @ prefix_text (info s) @ in_base (upper (info s)) b n))"
    "length t + length (sg @ prefix_text (info s) @ in_base (upper (info s)) b n) + 22 < 2 ^ 32" "type_char (info s) \<noteq> ch CHR ''e''" "2 \<le> b" "n < 2 ^ 64"
  shows "appends s t (sg @ prefix_text (info s) @ in_base (upper (info s)) b n)
    (do { s \<leftarrow> r; s \<leftarrow> insert_prefix s; insert_digits n b counts s })"
proof (rule appends_bind [OF assms(2)])
  fix s1 assume s1: "out s1 (t @ sg)" "info s1 = info s" "length (format_content s) \<le> length (format_content s1)"
  have r1: "room s1 (length (prefix_text (info s)) + length (in_base (upper (info s)) b n))"
    using appends_room [OF assms(1) s1(1,3)] assms(3) by simp
  show "appends s1 (t @ sg) (prefix_text (info s) @ in_base (upper (info s)) b n) (do { s \<leftarrow> insert_prefix s1; insert_digits n b counts s })"
  proof (rule appends_bind)
    show "appends s1 (t @ sg) (prefix_text (info s)) (insert_prefix s1)"
      using insert_prefix_run [OF s1(1)] room_mono [OF r1] assms(4) s1(2) by simp
    fix s2 assume s2: "out s2 ((t @ sg) @ prefix_text (info s))" "info s2 = info s1" "length (format_content s1) \<le> length (format_content s2)"
    have "room s2 (length (in_base (upper (info s)) b n))" using appends_room [OF s1(1) s2(1,3) r1] .
    then show "appends s2 ((t @ sg) @ prefix_text (info s)) (in_base (upper (info s)) b n) (insert_digits n b counts s2)"
      using insert_digits_run [OF s2(1), of b n counts] assms(4-7) s1(2) s2(2) by simp
  qed
qed

lemma appends_from:
  assumes "appends s' t bs r" "info s' = info s" "length (format_content s) \<le> length (format_content s')"
  shows "appends s t bs r"
  using assms by (auto simp: appends_def)

lemma unat_integral_room: "unat (integral_room b) \<le> 64" "of_nat (unat (integral_room b)) = integral_room b"
  by (simp_all add: integral_room_def)

lemma insert_integral_unsigned_run:
  assumes "out s t" "info_ok (info s)" "length t + 64 < 2 ^ 30" "type_char (info s) \<noteq> ch CHR ''e''" "2 \<le> base" "base \<le> 32"
    "length (integral_text (info s) base (uint v) (v > 0)) \<le> unat (integral_room (effective_base (info s) base)) + extra_room (info s)"
  shows "writes s t (integral_text (info s) base (uint v) (v > 0)) (insert_integral_unsigned v base s)"
proof -
  let ?b = "effective_base (info s) base" and ?t = "integral_text (info s) base (uint v) (v > 0)"
  define sg where "sg = (if v > 0 \<and> sign (info s) = ch CHR ''+'' then [ch CHR ''+''] else [])"
  define s0 where "s0 = expand_format_content_buff_size (cursor s + integral_room ?b) s"
  have "length t + unat (integral_room ?b) < 2 ^ 30" using assms(3) unat_integral_room(1) [of ?b] by simp
  note e = expand_run [OF assms(1,2) this, unfolded unat_integral_room(2), folded s0_def]
  have tx: "?t = sg @ prefix_text (info s) @ in_base (upper (info s)) ?b (unat v)" by (simp add: integral_text_def sg_def)
  have len: "length ?t \<le> 264" using assms(7) unat_integral_room(1) [of ?b] extra_room_small [OF assms(2)] by linarith
  have r: "room s0 (length ?t)" using room_mono [OF e(2) assms(7)] .
  have "appends s0 t sg (if v > 0 \<and> sign (info s0) = ch CHR ''+'' then put (ch CHR ''+'') s0 else Some s0)"
    using put_appends [OF e(1)] room_mono [OF r, of 1] appends_Nil [OF e(1)] assms(3) e(3) tx by (auto simp: sg_def)
  from integral_steps [OF e(1) this, of ?b "unat v" True] have "appends s0 t ?t
      (do { s \<leftarrow> (if v > 0 \<and> sign (info s0) = ch CHR ''+'' then put (ch CHR ''+'') s0 else Some s0); s \<leftarrow> insert_prefix s; insert_digits (unat v) ?b True s })"
    using r len assms(3-5) e(3) tx effective_base_bound [OF assms(5), of "info s"] unsigned_less [of v, where ?'a = nat] by simp
  from appends_writes [OF assms(1) appends_from [OF this e(3,5)]] show ?thesis
    by (simp only: insert_integral_unsigned_def Let_def s0_def bind_assoc not_less [THEN iffD2, OF assms(6)] if_False)
qed

lemma insert_integral_signed_run:
  assumes "out s t" "info_ok (info s)" "length t + 64 < 2 ^ 30" "type_char (info s) \<noteq> ch CHR ''e''" "2 \<le> base" "base \<le> 32"
    "length (integral_text (info s) base (sint v) True) \<le> unat (integral_room (effective_base (info s) base)) + extra_room (info s)"
  shows "writes s t (integral_text (info s) base (sint v) True) (insert_integral_signed v base s)"
proof -
  let ?b = "effective_base (info s) base" and ?t = "integral_text (info s) base (sint v) True"
  define sg where "sg = (if sint v < 0 then [ch CHR ''-''] else if sign (info s) = ch CHR ''+'' then [ch CHR ''+''] else [])"
  define s0 where "s0 = expand_format_content_buff_size (cursor s + integral_room ?b) s"
  let ?f = "\<lambda>s. if sint v < 0 then put (ch CHR ''-'') s else if sign (info s) = ch CHR ''+'' then put (ch CHR ''+'') s else Some s"
  have "length t + unat (integral_room ?b) < 2 ^ 30" using assms(3) unat_integral_room(1) [of ?b] by simp
  note e = expand_run [OF assms(1,2) this, unfolded unat_integral_room(2), folded s0_def]
  have tx: "?t = sg @ prefix_text (info s) @ in_base (upper (info s)) ?b (nat \<bar>sint v\<bar>)" by (simp add: integral_text_def sg_def)
  have len: "length ?t \<le> 264" using assms(7) unat_integral_room(1) [of ?b] extra_room_small [OF assms(2)] by linarith
  have r: "room s0 (length ?t)" using room_mono [OF e(2) assms(7)] .
  have v: "nat \<bar>sint v\<bar> < 2 ^ 64" using sint_range_size [of v] by (simp add: word_size) linarith
  have "appends s0 t sg (?f s0)"
    using put_appends [OF e(1)] room_mono [OF r, of 1] appends_Nil [OF e(1)] assms(3) e(3) tx by (auto simp: sg_def)
  from integral_steps [OF e(1) this, of ?b "nat \<bar>sint v\<bar>" "sint v \<ge> 0"]
  have "appends s0 t ?t (do { s \<leftarrow> ?f s0; s \<leftarrow> insert_prefix s; insert_digits (nat \<bar>sint v\<bar>) ?b (sint v \<ge> 0) s })"
    using r len assms(3-5) e(3) tx effective_base_bound [OF assms(5), of "info s"] v by simp
  from appends_writes [OF assms(1) appends_from [OF this e(3,5)]] show ?thesis
    by (simp only: insert_integral_signed_def Let_def s0_def bind_assoc not_less [THEN iffD2, OF assms(6)] if_False)
qed

end
