(* ===== verification/Qlog_Layout_Values.thy ===== *)
theory Qlog_Layout_Values
  imports Qlog_Layout_Digits
begin

unbundle bit_operations_syntax

text \<open>
  The text of an argument under the empty specification \<open>{}\<close>, as a function of its tag and its bytes, and that
  \<open>insert_argument\<close> appends it for every argument a record was written with.
\<close>

section \<open>The text of a value\<close>

definition plain_info :: format_info where
  "plain_info = format_info_new\<lparr>used := True\<rparr>"

definition int_text :: "int \<Rightarrow> bytes" where
  "int_text i = map of_char (print_int i)"

fun fraction_text :: "float_type \<Rightarrow> nat \<Rightarrow> int \<times> int \<Rightarrow> bytes" where
  "fraction_text t 0 v = []"
| "fraction_text t (Suc n) v =
     (let v = fl_mul_10 t v; digit = fl_trunc v in of_int (48 + digit) # fraction_text t n (fl_sub t v (digit, 0)))"

definition decimal_text :: "float_type \<Rightarrow> int \<times> int \<Rightarrow> bytes" where
  "decimal_text t v =
     (let r = fl_sub t v (fl_round t (fl_trunc v, 0))
      in int_text (fl_trunc v) @ [ch CHR ''.''] @ fraction_text t (unat (default_precision t)) (\<bar>fst r\<bar>, snd r))"

text \<open>The integral part fits the type that it is cast to.\<close>

definition decimal_fits :: "int \<times> int \<Rightarrow> bool" where
  "decimal_fits v \<longleftrightarrow> - (2 ^ 63) \<le> fl_trunc v \<and> fl_trunc v < (if fst v \<ge> 0 then 2 ^ 64 else 1)"

definition decimal_value :: "float_type \<Rightarrow> (int \<times> int) option \<Rightarrow> bytes option" where
  "decimal_value t r = (case r of None \<Rightarrow> None | Some v \<Rightarrow> if decimal_fits v then Some (decimal_text t v) else None)"

definition pointer_text :: "u64 \<Rightarrow> bytes" where
  "pointer_text p = (if p = 0 then map of_char ''null'' else map of_char ''0x'' @ in_base True 16 (unat p))"

fun value_text :: "argument_tag \<Rightarrow> bytes \<Rightarrow> bytes option" where
  "value_text tag_null bs = Some (map of_char ''null'')"
| "value_text tag_pointer bs = Some (pointer_text (le_word bs))"
| "value_text tag_bool bs = Some (map of_char (if hd bs \<noteq> 0 then ''TRUE'' else ''FALSE''))"
| "value_text tag_char bs = Some [hd bs]"
| "value_text tag_char16 bs = Some (utf16_to_utf8_sw [le_word bs])"
| "value_text tag_char32 bs = Some (utf16_to_utf8_sw (utf16_of (le_word bs)))"
| "value_text tag_int8 bs = Some (int_text (sint (le_word bs :: 8 word)))"
| "value_text tag_uint8 bs = Some (int_text (uint (le_word bs :: 8 word)))"
| "value_text tag_int16 bs = Some (int_text (sint (le_word bs :: 16 word)))"
| "value_text tag_uint16 bs = Some (int_text (uint (le_word bs :: 16 word)))"
| "value_text tag_int32 bs = Some (int_text (sint (le_word bs :: 32 word)))"
| "value_text tag_uint32 bs = Some (int_text (uint (le_word bs :: 32 word)))"
| "value_text tag_int64 bs = Some (int_text (sint (le_word bs :: 64 word)))"
| "value_text tag_uint64 bs = Some (int_text (uint (le_word bs :: 64 word)))"
| "value_text tag_float bs = decimal_value float_single (fl_decode 23 8 (unat (le_word bs :: u32)))"
| "value_text tag_double bs = decimal_value float_double (fl_decode 52 11 (unat (le_word bs :: u64)))"
| "value_text tag_string_utf8 bs = Some bs"
| "value_text tag_string_utf16 bs = Some (utf16_to_utf8_sw (utf16_units bs))"
| "value_text _ bs = None"

definition shown :: "nat \<Rightarrow> arg \<Rightarrow> bytes option" where
  "shown w a = value_text (get_log_param_type_enum w (fst a)) (if is_text w a then text_content w a else payload w a)"

section \<open>Integers\<close>

lemma plain_info_ok: "info_ok plain_info" "extra_room plain_info = 0" "type_char plain_info \<noteq> ch CHR ''e''" "upper plain_info"
  by (simp_all add: plain_info_def format_info_new_def info_ok_def extra_room_def)

lemma plain_integral: "integral_text plain_info 10 v pl = int_text v" "effective_base plain_info b = b"
  "integral_text plain_info 16 (uint (p :: u64)) pl = in_base True 16 (unat p)"
  by (simp_all add: integral_text_def plain_info_def format_info_new_def prefix_text_def effective_base_def int_text_def print_int_def
      decimal_in_base [symmetric] decimal_def)

lemma length_int_text:
  "length (int_text (uint (v :: u64))) \<le> 20" "length (int_text (sint (v :: u64))) \<le> 20"
proof -
  have "unat v < 10 ^ 20" using unsigned_less [of v, where ?'a = nat] by simp
  from nat_text_length [OF this] show "length (int_text (uint v)) \<le> 20" by (simp add: int_text_def print_int_def)
  have "nat \<bar>sint v\<bar> < 10 ^ 19" using sint_range_size [of v] by (simp add: word_size) linarith
  from nat_text_length [OF this] show "length (int_text (sint v)) \<le> 20"
    by (auto simp: int_text_def print_int_def abs_if split: if_splits)
qed

lemma plain_unsigned:
  assumes "out s t" "info s = plain_info" "length t + 64 < 2 ^ 30"
  shows "writes s t (int_text (uint v)) (insert_integral_unsigned v 10 s)"
  using insert_integral_unsigned_run [OF assms(1), of 10 v] assms(2,3) plain_info_ok plain_integral length_int_text(1) [of v]
  by (simp add: integral_room_def)

lemma plain_signed:
  assumes "out s t" "info s = plain_info" "length t + 64 < 2 ^ 30"
  shows "writes s t (int_text (sint v)) (insert_integral_signed v 10 s)"
  using insert_integral_signed_run [OF assms(1), of 10 v] assms(2,3) plain_info_ok plain_integral length_int_text(2) [of v]
  by (simp add: integral_room_def)

lemma plain_hex:
  assumes "out s t" "info s = plain_info" "length t + 64 < 2 ^ 30"
  shows "writes s t (in_base True 16 (unat v)) (insert_integral_unsigned v 16 s)"
proof -
  have "unat v < 16 ^ 16" using unsigned_less [of v, where ?'a = nat] by simp
  then have "length (in_base True 16 (unat v)) \<le> 16" by (intro length_in_base) simp_all
  then show ?thesis using insert_integral_unsigned_run [OF assms(1), of 16 v] assms(2,3) plain_info_ok plain_integral by (simp add: integral_room_def)
qed

lemma insert_pointer_run:
  assumes "out s t" "info s = plain_info" "length t + 66 < 2 ^ 30"
  shows "appends s t (pointer_text p) (insert_pointer p s)"
proof (cases "p = 0")
  case True
  then show ?thesis using appends_expand [OF assms(1), of 4 "map of_char ''null''"] assms(2,3) plain_info_ok by (simp add: insert_pointer_def pointer_text_def)
next
  case False
  have "appends s t (map of_char ''0x'' @ in_base True 16 (unat p))
    (Option.bind (copy_in (map of_char ''0x'') (expand_format_content_buff_size (cursor s + 2) s)) (\<lambda>s. ignore_width (insert_integral_unsigned p 16 s)))"
  proof (rule appends_bind)
    show "appends s t (map of_char ''0x'') (copy_in (map of_char ''0x'') (expand_format_content_buff_size (cursor s + 2) s))"
      using appends_expand [OF assms(1), of 2 "map of_char ''0x''"] assms(2,3) plain_info_ok by simp
    show "appends s' (t @ map of_char ''0x'') (in_base True 16 (unat p)) (ignore_width (insert_integral_unsigned p 16 s'))"
      if "out s' (t @ map of_char ''0x'')" "info s' = info s" for s'
      using plain_hex [OF that(1)] that(2) assms(2,3) by (intro writes_appends) simp
  qed
  moreover have "(\<lambda>s. ignore_width (insert_integral_unsigned p 16 s)) = (\<lambda>s. Option.bind (insert_integral_unsigned p 16 s) (\<lambda>(_, s). Some s))"
    by (auto simp: ignore_width_def fun_eq_iff map_option_case split: option.splits)
  ultimately show ?thesis using False by (simp add: insert_pointer_def pointer_text_def)
qed

section \<open>Decimals\<close>

lemma fraction_digits_run:
  assumes "out s t" "room s n" "length t + n < 2 ^ 32"
  shows "appends s t (fraction_text ft n v) (fraction_digits ft n v s)"
  using assms
proof (induction n arbitrary: s t v)
  case 0
  then show ?case by (simp add: fraction_digits.simps appends_Nil)
next
  case (Suc n)
  let ?v = "fl_mul_10 ft v"
  obtain s1 where s1: "put (of_int (48 + fl_trunc ?v)) s = Some s1" "out s1 (t @ [of_int (48 + fl_trunc ?v)])" "room s1 n" "info s1 = info s"
      "length (format_content s1) = length (format_content s)"
    using put_run [OF Suc.prems(1,2), of "of_int (48 + fl_trunc ?v)"] Suc.prems(3) by auto
  have "appends s1 (t @ [of_int (48 + fl_trunc ?v)]) (fraction_text ft n (fl_sub ft ?v (fl_trunc ?v, 0)))
      (fraction_digits ft n (fl_sub ft ?v (fl_trunc ?v, 0)) s1)"
    using Suc.IH [OF s1(2,3)] Suc.prems(3) by simp
  then show ?case using s1(1,4,5) by (subst fraction_digits.simps) (auto simp: Let_def appends_def)
qed

lemma digits_wanted_plain:
  assumes "info s = plain_info" "ft \<in> {float_single, float_double}"
  shows "digits_wanted ft n s = int (unat (default_precision ft))" "0 < unat (default_precision ft)" "unat (default_precision ft) \<le> 15"
  using assms by (auto simp: digits_wanted_def plain_info_def format_info_new_def float_single_def float_double_def)

lemma decimal_words:
  assumes "decimal_fits v"
  shows "fst v \<ge> 0 \<Longrightarrow> uint (of_int (fl_trunc v) :: u64) = fl_trunc v" "\<not> fst v \<ge> 0 \<Longrightarrow> sint (of_int (fl_trunc v) :: u64) = fl_trunc v"
    "length (int_text (fl_trunc v)) \<le> 20"
proof -
  have "0 \<le> fl_trunc v" if "fst v \<ge> 0" using that by (cases v) (auto simp: fl_trunc_def sgn_if pos_imp_zdiv_nonneg_iff)
  then show u: "uint (of_int (fl_trunc v) :: u64) = fl_trunc v" if "fst v \<ge> 0" using assms that by (simp add: decimal_fits_def uint_word_of_int)
  show i: "sint (of_int (fl_trunc v) :: u64) = fl_trunc v" if "\<not> fst v \<ge> 0" using assms that by (simp add: decimal_fits_def signed_of_int signed_take_bit_int_eq_self)
  show "length (int_text (fl_trunc v)) \<le> 20"
    using length_int_text(1) [of "of_int (fl_trunc v)"] length_int_text(2) [of "of_int (fl_trunc v)"] u i by (cases "fst v \<ge> 0") simp_all
qed

lemma decimal_integral:
  assumes "decimal_fits v" "out s t" "info s = plain_info" "length t + 64 < 2 ^ 30"
  shows "writes s t (int_text (fl_trunc v))
    (if fst v \<ge> 0 then if fl_trunc v \<ge> 2 ^ 64 then None else insert_integral_unsigned (of_int (fl_trunc v)) 10 s
     else if fl_trunc v < - (2 ^ 63) then None else insert_integral_signed (of_int (fl_trunc v)) 10 s)"
proof (cases "fst v \<ge> 0")
  case True
  then show ?thesis using plain_unsigned [OF assms(2-4), of "of_int (fl_trunc v)"] assms(1) True decimal_words(1) [OF assms(1) True] by (simp add: decimal_fits_def)
next
  case False
  then show ?thesis using plain_signed [OF assms(2-4), of "of_int (fl_trunc v)"] assms(1) False decimal_words(2) [OF assms(1) False] by (simp add: decimal_fits_def)
qed

lemma insert_decimal_run:
  assumes "decimal_fits v" "out s t" "info s = plain_info" "length t + 128 < 2 ^ 30" "ft \<in> {float_single, float_double}"
  shows "appends s t (decimal_text ft v) (insert_decimal ft v s)"
proof -
  let ?i = "int_text (fl_trunc v)" and ?n = "unat (default_precision ft)"
  define r where "r = fl_sub ft v (fl_round ft (fl_trunc v, 0))"
  obtain s1 where s1: "(if fst v \<ge> 0 then if fl_trunc v \<ge> 2 ^ 64 then None else insert_integral_unsigned (of_int (fl_trunc v)) 10 s
        else if fl_trunc v < - (2 ^ 63) then None else insert_integral_signed (of_int (fl_trunc v)) 10 s) = Some (of_nat (length ?i), s1)"
      "out s1 (t @ ?i)" "info s1 = plain_info" "length (format_content s) \<le> length (format_content s1)"
    using decimal_integral [OF assms(1-3)] assms(3,4) by (auto simp: writes_def)
  have i: "length ?i \<le> 20" using decimal_words(3) [OF assms(1)] .
  note d = digits_wanted_plain [OF s1(3) assms(5)]
  define s2 where "s2 = expand_format_content_buff_size (cursor s1 + of_int (int ?n) + 5) s1"
  have "length (t @ ?i) + (?n + 5) < 2 ^ 30" using assms(4) i d(3) by simp
  note e = expand_run [OF s1(2) _ this]
  have s2: "out s2 (t @ ?i)" "room s2 (?n + 5)" "info s2 = plain_info" "length (format_content s1) \<le> length (format_content s2)"
    using e plain_info_ok(1,2) s1(3) by (simp_all add: s2_def add.assoc)
  have nz: "type_char plain_info \<noteq> ch CHR ''e''" "type_char plain_info \<noteq> ch CHR ''Z''" by (simp_all add: plain_info_def format_info_new_def)
  have a: "appends s2 (t @ ?i) ([ch CHR ''.''] @ fraction_text ft ?n (\<bar>fst r\<bar>, snd r))
      (Option.bind (put (ch CHR ''.'') s2) (fraction_digits ft ?n (\<bar>fst r\<bar>, snd r)))"
  proof (rule appends_bind)
    show "appends s2 (t @ ?i) [ch CHR ''.''] (put (ch CHR ''.'') s2)" using s2(1) room_mono [OF s2(2), of 1] assms(4) i by (intro put_appends) simp_all
    fix s3 assume "out s3 ((t @ ?i) @ [ch CHR ''.''])" "length (format_content s2) \<le> length (format_content s3)"
    moreover from this have "room s3 ?n" using appends_room [OF s2(1), of s3 "[ch CHR ''.'']" ?n] room_mono [OF s2(2), of "?n + 1"] by simp
    ultimately show "appends s3 ((t @ ?i) @ [ch CHR ''.'']) (fraction_text ft ?n (\<bar>fst r\<bar>, snd r)) (fraction_digits ft ?n (\<bar>fst r\<bar>, snd r) s3)"
      using assms(4) i d(3) by (intro fraction_digits_run) simp_all
  qed
  obtain s3 s4 where s3: "put (ch CHR ''.'') s2 = Some s3" "fraction_digits ft ?n (\<bar>fst r\<bar>, snd r) s3 = Some s4"
      and s4: "out s4 ((t @ ?i) @ [ch CHR ''.''] @ fraction_text ft ?n (\<bar>fst r\<bar>, snd r))" "info s4 = info s2" "length (format_content s2) \<le> length (format_content s4)"
    using a by (auto simp: appends_def bind_eq_Some_conv)
  have n: "(int ?n > 0 \<or> (False \<and> of_nat (length ?i) > (1 :: u32))) = True" using d(2) by (simp only: of_nat_0_less_iff simp_thms)
  have "insert_decimal ft v s = Some s4" unfolding insert_decimal_def Let_def
    by (simp only: assms(3) nz if_False s1(1) Option.bind.bind_lunit prod.case s1(3) d(1) s2_def [symmetric] s2(3) n if_True s3(1) option.map nat_int
        r_def [symmetric] s3(2))
  then show ?thesis using s4 s1(4) s2(3,4) assms(3) by (simp add: appends_def decimal_text_def Let_def r_def)
qed

section \<open>Arguments\<close>

lemma arg_tag_read:
  assumes "arg_at w m p a"
  shows "read_arg (drop p m) 0 1 = Some [tag_byte w a]"
proof -
  have "p < length m" using assms by (auto simp: arg_at_def arg_size_def payload_pos_def split: if_splits)
  then have "take 1 (drop p m) = [m ! p]" by (simp add: take_Suc_conv_app_nth)
  then show ?thesis using assms \<open>p < length m\<close> by (simp add: read_arg_def mem_read_def arg_at_def Suc_le_eq)
qed

lemma arg_payload_read:
  assumes "arg_at w m p a"
  shows "read_arg (drop p m) (payload_pos w a) (length (payload w a)) = Some (payload w a)"
  using assms by (auto simp: read_arg_def arg_at_def arg_size_def mem_read_def ac_simps)

lemma read_arg_split:
  assumes "read_arg m off (length xs + length ys) = Some (xs @ ys)"
  shows "read_arg m off (length xs) = Some xs" "read_arg m (off + length xs) (length ys) = Some ys"
proof -
  have "take (length xs + length ys) (drop off m) = xs @ ys" "off + length xs + length ys \<le> length m"
    using assms by (simp_all add: read_arg_def mem_read_def split: if_splits)
  moreover from this(1) have "take (length xs) (drop off m) = xs" by (metis append_eq_conv_conj min.absorb1 le_add1 take_take)
  moreover have "take (length ys) (drop (off + length xs) m) = ys"
    using calculation(1) by (metis add.commute append_eq_conv_conj drop_drop drop_take add_diff_cancel_left')
  ultimately show "read_arg m off (length xs) = Some xs" "read_arg m (off + length xs) (length ys) = Some ys"
    by (simp_all add: read_arg_def mem_read_def)
qed

lemma text_read:
  assumes "arg_ok w a" "is_text w a" "arg_at w m p a"
  shows "read_arg (drop p m) 4 4 = Some (le_bytes 4 (of_nat (length (text_content w a)) :: u32))"
    "read_arg (drop p m) 8 (length (text_content w a)) = Some (text_content w a)"
proof -
  have "payload_pos w a = 4" "payload w a = le_bytes 4 (of_nat (length (text_content w a)) :: u32) @ text_content w a"
    using assms(2) by (auto simp: payload_pos_def payload_def is_text_def)
  then show "read_arg (drop p m) 4 4 = Some (le_bytes 4 (of_nat (length (text_content w a)) :: u32))"
    "read_arg (drop p m) 8 (length (text_content w a)) = Some (text_content w a)"
    using arg_payload_read [OF assms(3)] read_arg_split [of "drop p m" 4 "le_bytes 4 (of_nat (length (text_content w a)) :: u32)" "text_content w a"] by simp_all
qed

fun tag_width :: "argument_tag \<Rightarrow> nat" where
  "tag_width tag_bool = 1" | "tag_width tag_char = 1" | "tag_width tag_int8 = 1" | "tag_width tag_uint8 = 1"
| "tag_width tag_char16 = 2" | "tag_width tag_int16 = 2" | "tag_width tag_uint16 = 2"
| "tag_width tag_char32 = 4" | "tag_width tag_int32 = 4" | "tag_width tag_uint32 = 4" | "tag_width tag_float = 4"
| "tag_width tag_int64 = 8" | "tag_width tag_uint64 = 8" | "tag_width tag_double = 8"
| "tag_width _ = 0"

lemma pod_width:
  assumes "get_serialize_kind w t = kind_pod" "builtin_ok w t"
  shows "tag_width (get_log_param_type_enum w t) = size_of t"
proof -
  have s: "size_of t \<in> {1, 2, 4, 8}" "w \<in> {2, 4}" using assms(2) by (simp_all add: builtin_ok_def)
  show ?thesis
  proof (cases "builtin t")
    case (builtin_char k)
    then show ?thesis using assms s(2) by (cases k) (auto simp: get_log_param_type_enum_def builtin_ok_def)
  qed (use assms s in \<open>auto simp: get_log_param_type_enum_def builtin_ok_def\<close>)
qed

lemma sint_scast_64: "LENGTH('a) \<le> 64 \<Longrightarrow> sint (scast (x :: 'a::len word) :: u64) = sint x"
proof -
  assume l: "LENGTH('a) \<le> 64"
  have "(2 :: int) ^ (LENGTH('a) - 1) \<le> 2 ^ 63" using l by (intro power_increasing) simp_all
  then have "- (2 ^ 63) \<le> sint x" "sint x < 2 ^ 63" using sint_greater_eq [of x] sint_less [of x] by simp_all
  then show ?thesis by (simp add: signed_scast_eq signed_take_bit_int_eq_self)
qed

lemma uint_ucast_64: "LENGTH('a) \<le> 64 \<Longrightarrow> uint (ucast (x :: 'a::len word) :: u64) = uint x"
proof -
  assume "LENGTH('a) \<le> 64"
  then have "(2 :: int) ^ LENGTH('a) \<le> 2 ^ 64" by (intro power_increasing) simp_all
  then have "uint x < 2 ^ 64" by (rule less_le_trans [OF unsigned_less])
  then show ?thesis by (simp add: unsigned_ucast_eq take_bit_int_eq_self)
qed

lemma insert_chars_run:
  assumes "out s t" "info_ok (info s)" "length t + 16 < 2 ^ 30"
  shows "appends s t (utf16_to_utf8_sw [c]) (insert_char16 c s)" "appends s t (utf16_to_utf8_sw (utf16_of d)) (insert_char32 d s)"
proof -
  have c: "insert_char16 c s = insert_str_utf16 (utf16_bytes [c]) s" for c by (simp add: insert_char16_def utf16_bytes_def)
  have d: "insert_char32 d s = insert_str_utf16 (utf16_bytes (utf16_of d)) s" by (simp add: insert_char32_def utf16_bytes_def utf16_of_def)
  have l: "length (utf16_bytes (utf16_of d)) \<le> 4" by (simp add: length_utf16_bytes length_utf16_of)
  show "appends s t (utf16_to_utf8_sw [c]) (insert_char16 c s)"
    using insert_str_utf16_run [OF assms(1,2), of "utf16_bytes [c]"] assms(3) by (simp add: c utf16_units_bytes length_utf16_bytes)
  show "appends s t (utf16_to_utf8_sw (utf16_of d)) (insert_char32 d s)"
    using insert_str_utf16_run [OF assms(1,2), of "utf16_bytes (utf16_of d)"] assms(3) l by (simp add: d utf16_units_bytes)
qed

definition inserts :: "layout \<Rightarrow> bytes \<Rightarrow> bytes \<Rightarrow> u32 \<Rightarrow> (u32 \<times> layout) option \<Rightarrow> bool" where
  "inserts s t bs n r \<longleftrightarrow> (\<exists>s'. r = Some (n, s') \<and> out s' (t @ bs) \<and> info s' = info s \<and> length (format_content s) \<le> length (format_content s'))"

lemma appends_inserts: "appends s t bs r \<Longrightarrow> inserts s t bs n (map_option (Pair n) r)"
  by (auto simp: inserts_def appends_def)

lemma writes_inserts: "writes s t bs r \<Longrightarrow> inserts s t bs n (map_option (Pair n) (ignore_width r))"
  by (simp add: appends_inserts writes_appends)

lemma word_of_unat: "unat x = n \<Longrightarrow> x = of_nat n"
  by auto

lemma plain_casts:
  fixes x :: "'a::len word"
  assumes "LENGTH('a) \<le> 64" "out s t" "info s = plain_info" "length t + 64 < 2 ^ 30"
  shows "inserts s t (int_text (sint x)) n (map_option (Pair n) (ignore_width (insert_integral_signed (scast x) 10 s)))"
    "inserts s t (int_text (uint x)) n (map_option (Pair n) (ignore_width (insert_integral_unsigned (ucast x) 10 s)))"
  using writes_inserts [OF plain_signed [OF assms(2-4), of "scast x"]] writes_inserts [OF plain_unsigned [OF assms(2-4), of "ucast x"]]
  by (simp_all add: sint_scast_64 uint_ucast_64 assms(1))

lemma insert_text_argument_run:
  assumes "arg_ok w a" "is_text w a" "arg_at w m p a" "shown w a = Some tx" "out s t" "info s = plain_info"
    "length t + 128 + 2 * arg_size w a < 2 ^ 30"
  shows "inserts s t tx (of_nat (round4 (arg_size w a))) (insert_argument (drop p m) s)"
proof -
  let ?c = "text_content w a" and ?tag = "get_log_param_type_enum w (fst a)"
  have sz: "arg_size w a = 8 + length ?c" using assms(2) by (auto simp: arg_size_def payload_pos_def payload_def is_text_def)
  have tag: "read_arg (drop p m) 0 1 = Some [tag_byte w a]" "tag_of (tag_byte w a) = Some ?tag"
    using arg_tag_read [OF assms(3)] by (simp_all add: tag_byte_def tag_of_code)
  note r = text_read [OF assms(1-3)]
  have len: "unat (of_nat (length ?c) :: u32) = length ?c" using assms(7) sz by (simp add: unat_of_nat)
  have "unat ((of_nat (length ?c) + 3 :: u32) AND NOT 3) = round4 (length ?c)"
    using unat_and_not_3 [of "of_nat (length ?c) :: u32"] len assms(7) sz by simp
  then have "(of_nat (length ?c) + 3 :: u32) AND NOT 3 = of_nat (round4 (length ?c))" by (rule word_of_unat)
  then have n: "8 + ((of_nat (length ?c) + 3 :: u32) AND NOT 3) = of_nat (round4 (arg_size w a))" by (simp add: sz round4_add_8)
  have ok: "info_ok (info s)" using plain_info_ok(1) assms(6) by simp
  consider "?tag = tag_string_utf8" "tx = ?c" | "?tag = tag_string_utf16" "tx = utf16_to_utf8_sw (utf16_units ?c)"
    using text_tag [OF assms(2)] assms(2,4) by (auto simp: shown_def)
  then show ?thesis
  proof cases
    case 1
    have "appends s t ?c (insert_str_utf8 ?c s)" using insert_str_utf8_run [OF assms(5) ok] assms(7) sz by simp
    from appends_inserts [OF this, of "of_nat (round4 (arg_size w a))"] show ?thesis using 1 tag r len n
      by (simp add: insert_argument_def le_word_bytes)
  next
    case 2
    have "appends s t tx (insert_str_utf16 ?c s)" using insert_str_utf16_run [OF assms(5) ok, of ?c] assms(7) sz 2 by simp
    from appends_inserts [OF this, of "of_nat (round4 (arg_size w a))"] show ?thesis using 2 tag r len n
      by (simp add: insert_argument_def le_word_bytes)
  qed
qed

lemma decimal_value_run:
  assumes "decimal_value ft d = Some tx" "out s t" "info s = plain_info" "length t + 128 < 2 ^ 30" "ft \<in> {float_single, float_double}"
  shows "inserts s t tx n (do { x \<leftarrow> d; map_option (Pair n) (insert_decimal ft x s) })"
proof -
  obtain v where v: "d = Some v" "decimal_fits v" "tx = decimal_text ft v" using assms(1) by (auto simp: decimal_value_def split: option.splits if_splits)
  show ?thesis using appends_inserts [OF insert_decimal_run [OF v(2) assms(2-5)], of n] v by simp
qed

lemma insert_pod_argument_run:
  assumes "get_serialize_kind w ty = kind_pod" "length bs = size_of ty" "builtin_ok w ty" "arg_at w m p (ty, Pod_value bs)"
    "shown w (ty, Pod_value bs) = Some tx" "out s t" "info s = plain_info" "length t + 128 < 2 ^ 30"
  shows "inserts s t tx (of_nat (round4 (arg_size w (ty, Pod_value bs)))) (insert_argument (drop p m) s)"
proof -
  let ?a = "(ty, Pod_value bs)" and ?tag = "get_log_param_type_enum w ty"
  have nt: "\<not> is_text w ?a" "payload w ?a = bs" "payload_pos w ?a = (if size_of ty \<le> 2 then 2 else 4)" using assms(1) by (auto simp: is_text_def payload_def payload_pos_def)
  have wd: "length bs = tag_width ?tag" "tag_width ?tag \<in> {1, 2, 4, 8}" using pod_width [OF assms(1,3)] assms(2,3) by (auto simp: builtin_ok_def)
  have tag: "read_arg (drop p m) 0 1 = Some [tag_byte w ?a]" "tag_of (tag_byte w ?a) = Some ?tag"
    using arg_tag_read [OF assms(4)] by (simp_all add: tag_byte_def tag_of_code)
  have rd: "read_arg (drop p m) (if tag_width ?tag \<le> 2 then 2 else 4) (tag_width ?tag) = Some bs"
    using arg_payload_read [OF assms(4)] nt wd assms(2) by simp
  have n: "round4 (arg_size w ?a) = (if tag_width ?tag \<le> 2 then 4 else if tag_width ?tag = 4 then 8 else 12)"
    using nt wd assms(2) by (auto simp: arg_size_def round4_def)
  have v: "value_text ?tag bs = Some tx" using assms(5) nt by (simp add: shown_def)
  have ok: "info_ok (info s)" and t: "length t + 64 < 2 ^ 30" "length t + 16 < 2 ^ 30" "length t + 1 < 2 ^ 30" "length t + 5 < 2 ^ 30"
    using plain_info_ok(1) assms(7,8) by simp_all
  note ins = appends_inserts [OF insert_bool_run [OF assms(6) ok t(4)]] appends_inserts [OF insert_char_run(1) [OF assms(6) ok t(3)]]
    appends_inserts [OF insert_chars_run(1) [OF assms(6) ok t(2)]] appends_inserts [OF insert_chars_run(2) [OF assms(6) ok t(2)]]
    writes_inserts [OF plain_signed [OF assms(6,7) t(1)]] writes_inserts [OF plain_unsigned [OF assms(6,7) t(1)]]
    plain_casts [OF _ assms(6,7) t(1)] decimal_value_run [OF _ assms(6-8)]
  show ?thesis using v rd wd(2) tag n by (cases ?tag) (auto simp: insert_argument_def intro!: ins)
qed

lemma insert_argument_run:
  assumes "arg_ok w a" "arg_at w m p a" "shown w a = Some tx" "out s t" "info s = plain_info" "length t + 128 + 2 * arg_size w a < 2 ^ 30"
  shows "inserts s t tx (of_nat (round4 (arg_size w a))) (insert_argument (drop p m) s)"
proof (cases rule: arg_cases [OF assms(1)])
  case 1
  then show ?thesis using insert_text_argument_run assms by blast
next
  case (2 ty)
  have tag: "get_log_param_type_enum w (fst a) = tag_null" "tag_of (tag_byte w a) = Some tag_null"
    using 2 tag_of_code [of tag_null] by (simp_all add: tag_byte_def get_log_param_type_enum_def)
  have "appends s t (map of_char ''null'') (insert_str_utf8 (map of_char ''null'') s)"
    using insert_str_utf8_run [OF assms(4)] assms(5,6) plain_info_ok(1) by simp
  from appends_inserts [OF this, of 4] show ?thesis using 2 tag arg_tag_read [OF assms(2)] assms(3)
    by (simp add: insert_argument_def shown_def arg_size_def payload_def payload_pos_def is_text_def round4_def)
next
  case (3 ty x)
  have tag: "get_log_param_type_enum w (fst a) = tag_pointer" "tag_of (tag_byte w a) = Some tag_pointer"
    using 3 tag_of_code [of tag_pointer] by (simp_all add: tag_byte_def get_log_param_type_enum_def)
  have nt: "payload_pos w a = 4" "payload w a = le_bytes 8 x" "\<not> is_text w a" using 3 by (auto simp: payload_pos_def payload_def is_text_def)
  have "appends s t (pointer_text x) (insert_pointer x s)" using insert_pointer_run [OF assms(4,5)] assms(6) by simp
  from appends_inserts [OF this, of 12] show ?thesis using nt tag arg_tag_read [OF assms(2)] arg_payload_read [OF assms(2)] assms(3)
    by (simp add: insert_argument_def shown_def arg_size_def round4_def le_word_bytes)
next
  case (4 ty bs)
  then show ?thesis using insert_pod_argument_run [of w ty bs m p tx s t] assms by simp
qed

end
