(* ===== verification/Qlog_Layout_Correct.thy ===== *)
theory Qlog_Layout_Correct
  imports Qlog_Layout_Values
begin

unbundle bit_operations_syntax

text \<open>
  The loop over a UTF-8 format string puts the texts of the arguments in the places of the placeholders: a reference on the
  characters of the format, and that the code computes it for every record that was written.
\<close>

section \<open>The reference\<close>

text \<open>A placeholder that was opened is closed when the next brace is a closing one and near enough.\<close>

definition hole :: "bytes \<Rightarrow> nat option" where
  "hole cs = (let n = length (takeWhile (\<lambda>c. \<not> is_brace c) cs) in if n < 20 \<and> n < length cs \<and> cs ! n = ch CHR ''}'' then Some n else None)"

text \<open>
  Placeholders take the texts in turn; what is no placeholder, or finds no text left, stays, and two closing braces are one.
\<close>

fun expand_format :: "bytes \<Rightarrow> bytes list \<Rightarrow> bytes" where
  "expand_format [] ts = []"
| "expand_format (c # cs) ts =
     (if c = ch CHR ''}'' then c # expand_format (if cs \<noteq> [] \<and> hd cs = ch CHR ''}'' then tl cs else cs) ts
      else if c = ch CHR ''{''
      then (case (ts, hole cs) of
              (tx # ts', Some n) \<Rightarrow> tx @ expand_format (drop (n + 1) cs) ts'
            | _ \<Rightarrow> c # expand_format cs ts)
      else c # expand_format cs ts)"

text \<open>No placeholder has a format specification.\<close>

definition no_specs :: "bytes \<Rightarrow> bool" where
  "no_specs fmt \<longleftrightarrow> (\<forall>i < length fmt. fmt ! i = ch CHR ''{'' \<longrightarrow> Suc i < length fmt \<longrightarrow> fmt ! Suc i \<noteq> ch CHR '':'')"

lemma scan_spec_hole: "scan_spec k cs = (case hole cs of Some n \<Rightarrow> if k + n < 20 then Some (k + n) else None | None \<Rightarrow> None)" if "k \<le> 20"
  using that
proof (induction cs arbitrary: k)
  case (Cons c cs)
  show ?case
  proof (cases "is_brace c")
    case True
    then show ?thesis using Cons.prems by (auto simp: hole_def is_brace_def Let_def)
  next
    case False
    then have h: "hole (c # cs) = (case hole cs of Some n \<Rightarrow> if Suc n < 20 then Some (Suc n) else None | None \<Rightarrow> None)"
      by (auto simp: hole_def Let_def)
    show ?thesis
    proof (cases "k = 20")
      case False
      have "scan_spec k (c # cs) = scan_spec (k + 1) cs" using False \<open>\<not> is_brace c\<close> Cons.prems by (auto simp: is_brace_def)
      then show ?thesis using Cons.IH [of "k + 1"] False Cons.prems by (auto simp: h split: option.splits)
    qed (auto simp: h split: option.splits)
  qed
qed (simp add: hole_def)

lemma scan_spec_0: "scan_spec 0 cs = hole cs"
  using scan_spec_hole [of 0 cs] by (auto simp: hole_def Let_def)

lemma expand_format_literal: "\<forall>c \<in> set xs. \<not> is_brace c \<Longrightarrow> expand_format (xs @ cs) ts = xs @ expand_format cs ts"
  by (induction xs) (auto simp: is_brace_def)

section \<open>One step\<close>

definition format_state :: "nat \<Rightarrow> bytes \<Rightarrow> nat \<Rightarrow> bytes \<Rightarrow> u32 \<Rightarrow> nat \<Rightarrow> u32 \<Rightarrow> arg list \<Rightarrow> bytes list \<Rightarrow> layout \<Rightarrow> bytes \<Rightarrow> bool" where
  "format_state w m off fmt args_len i c as ts s t \<longleftrightarrow>
     list_all (arg_ok w) as \<and> args_at w m (off + unat c) as \<and> unat args_len = unat c + args_size w as \<and> map (shown w) as = map Some ts
     \<and> out s t \<and> room s (length fmt - i) \<and> info_ok (info s)
     \<and> length t + (length fmt - i) + length (concat ts) + 128 + 2 * args_size w as < 2 ^ 30"

lemma fill_nothing: "spec_width (info s) = 0 \<Longrightarrow> fill_and_alignment p s = Some s"
  by (simp add: fill_and_alignment_def Let_def)

lemma c20_format_plain: "style ! 0 \<noteq> ch CHR '':'' \<Longrightarrow> c20_format style n = plain_info"
  by (simp add: c20_format_def plain_info_def)

lemma hole_step:
  assumes "format_state w m off fmt args_len i c (a # as) (tx # ts) s t" "hole (drop i fmt) = Some n" "fmt ! i \<noteq> ch CHR '':''" "i < length fmt"
    "left (n + 1) = of_nat (length fmt - (i + n + 1))"
  shows "\<exists>c' s'. insert_placeholder (drop i fmt) n (drop off m) args_len c left s = Some (n + 1, c', s')
    \<and> format_state w m off fmt args_len (i + n + 1) c' as ts s' (t @ tx)"
proof -
  let ?r = "round4 (arg_size w a)" and ?s = "s\<lparr>info := plain_info\<rparr>"
  have st: "arg_ok w a" "list_all (arg_ok w) as" "arg_at w m (off + unat c) a" "args_at w m (off + unat c + ?r) as" "unat args_len = unat c + ?r + args_size w as"
      "shown w a = Some tx" "map (shown w) as = map Some ts" "out s t" and b: "length t + (length fmt - i) + length tx + length (concat ts) + 128 + 2 * (?r + args_size w as) < 2 ^ 30"
    using assms(1) by (auto simp: format_state_def args_size_def)
  have u: "unat (c + of_nat ?r) = unat c + ?r" using st(5) unsigned_less [of args_len, where ?'a = nat] by (simp add: unat_word_ariths unat_of_nat)
  have fmt: "i + n + 1 \<le> length fmt" using assms(2) by (auto simp: hole_def Let_def split: if_splits)
  have "out ?s t" using st(8) by (simp add: out_def)
  then have "inserts ?s t tx (of_nat ?r) (insert_argument (drop (off + unat c) m) ?s)"
    using insert_argument_run [OF st(1,3,6), of ?s t] b round4_bounds(1) [of "arg_size w a"] by simp
  then obtain s1 where s1: "insert_argument (drop (off + unat c) m) ?s = Some (of_nat ?r, s1)" "out s1 (t @ tx)" "info s1 = plain_info"
    by (auto simp: inserts_def)
  have w: "spec_width (info s1) = 0" using s1(3) by (simp add: plain_info_def format_info_new_def)
  define s2 where "s2 = expand_format_content_buff_size (cursor s1 + of_nat (length fmt - (i + n + 1))) s1"
  have "length (t @ tx) + (length fmt - (i + n + 1)) < 2 ^ 30" using b fmt by simp
  note e = expand_run [OF s1(2) _ this, folded s2_def]
  have s2: "out s2 (t @ tx)" "room s2 (length fmt - (i + n + 1))" "info_ok (info s2)" using e s1(3) plain_info_ok(1,2) by simp_all
  have "spec_offset plain_info = 0" by (simp add: plain_info_def format_info_new_def)
  moreover have "\<not> args_len < c + of_nat ?r" using u st(5) by (simp add: word_less_nat_alt)
  moreover have "c20_format (drop i fmt) (n + 1) = plain_info" using assms(3,4) by (intro c20_format_plain) simp
  ultimately have "insert_placeholder (drop i fmt) n (drop off m) args_len c left s = Some (n + 1, c + of_nat ?r, s2)"
    using s1(1) w assms(5) by (simp add: insert_placeholder_def Let_def fill_nothing s2_def add.commute)
  moreover have "format_state w m off fmt args_len (i + n + 1) (c + of_nat ?r) as ts s2 (t @ tx)"
    using st u s2 b fmt by (simp add: format_state_def add.assoc)
  ultimately show ?thesis by blast
qed

lemma brace_step:
  assumes "format_state w m off fmt args_len i c as ts s t" "i < length fmt" "i < j"
  shows "\<exists>s'. insert_brace b s = Some s' \<and> format_state w m off fmt args_len j c as ts s' (t @ [b])"
proof -
  have st: "out s t" "room s (length fmt - i)" "info_ok (info s)" "length t + 1 < 2 ^ 30" using assms(1) by (simp_all add: format_state_def)
  obtain s' where s': "insert_brace b s = Some s'" "out s' (t @ [b])" "info s' = info s" "length (format_content s) \<le> length (format_content s')"
    using insert_char_run(2) [OF st(1,3,4), of b] by (auto simp: appends_def)
  have "room s' (length fmt - j)" using appends_room [OF st(1) s'(2,4), of "length fmt - j"] room_mono [OF st(2)] assms(2,3) by simp
  then show ?thesis using assms s' by (auto simp: format_state_def)
qed

lemma literal_step:
  assumes "format_state w m off fmt args_len i c as ts s t" "length xs \<le> length fmt - i"
  shows "\<exists>s'. copy_in xs s = Some s' \<and> format_state w m off fmt args_len (i + length xs) c as ts s' (t @ xs)"
proof -
  have st: "out s t" "room s (length fmt - i)" "length t + (length fmt - i) < 2 ^ 30" using assms(1) by (simp_all add: format_state_def)
  obtain s' where s': "copy_in xs s = Some s'" "out s' (t @ xs)" "info s' = info s" "length (format_content s') = length (format_content s)"
    using copy_in_run [OF st(1) room_mono [OF st(2) assms(2)]] st(3) assms(2) by auto
  have "room s' (length fmt - (i + length xs))"
    using appends_room [OF st(1) s'(2), of "length fmt - (i + length xs)"] room_mono [OF st(2)] s'(4) assms(2) by simp
  then show ?thesis using assms s' by (auto simp: format_state_def)
qed

lemma reset_step:
  assumes "format_state w m off fmt args_len i c as ts s t"
  shows "format_state w m off fmt args_len i c as ts (if used (info s) then s\<lparr>info := format_info_reset\<rparr> else s) t"
  using assms by (auto simp: format_state_def out_def room_def info_ok_def format_info_reset_def)

lemma later_step:
  assumes "format_state w m off fmt args_len i c as ts s t" "i \<le> i'"
  shows "format_state w m off fmt args_len i' c as ts s t"
  using assms by (auto simp: format_state_def intro: room_mono)

lemma args_left:
  assumes "format_state w m off fmt args_len i c as ts s t"
  shows "c < args_len \<longleftrightarrow> as \<noteq> []"
proof (cases as)
  case (Cons a as')
  then have "unat c + round4 (arg_size w a) \<le> unat args_len" using assms by (simp add: format_state_def args_size_def)
  then show ?thesis using arg_size_pos [of w a] Cons by (simp add: word_less_nat_alt)
qed (use assms in \<open>simp add: format_state_def args_size_def word_less_nat_alt\<close>)

section \<open>The loop\<close>

text \<open>The part of a round behind the literal text, at the brace \<open>j\<close>.\<close>

definition loop_brace :: "bytes \<Rightarrow> bytes \<Rightarrow> u32 \<Rightarrow> nat \<Rightarrow> u32 \<Rightarrow> layout \<Rightarrow> layout option" where
  "loop_brace fmt args args_len j c s =
     (if fmt ! j = ch CHR ''}'' then do {
        s \<leftarrow> insert_brace (ch CHR ''}'') s;
        format_utf8_loop fmt args args_len (if j + 1 < length fmt \<and> fmt ! (j + 1) = ch CHR ''}'' then j + 1 + 1 else j + 1) c s
      }
      else
        let s = (if used (info s) then s\<lparr>info := format_info_reset\<rparr> else s)
        in case (if c < args_len then scan_spec 0 (drop (j + 1) fmt) else None) of
             Some spec_len \<Rightarrow> do {
               (step, args_cursor, s) \<leftarrow> insert_placeholder (drop (j + 1) fmt) spec_len args args_len c
                 (\<lambda>step. of_nat (length fmt) - of_nat (j + 1 + step)) s;
               format_utf8_loop fmt args args_len (j + 1 + step) args_cursor s
             }
           | None \<Rightarrow> do { s \<leftarrow> insert_brace (ch CHR ''{'') s; format_utf8_loop fmt args args_len (j + 1) c s })"

definition loop_ok :: "nat \<Rightarrow> bytes \<Rightarrow> nat \<Rightarrow> bytes \<Rightarrow> u32 \<Rightarrow> nat \<Rightarrow> bool" where
  "loop_ok w m off fmt args_len i \<longleftrightarrow> (\<forall>c as ts s t. format_state w m off fmt args_len i c as ts s t \<longrightarrow>
     (\<exists>s'. format_utf8_loop fmt (drop off m) args_len i c s = Some s' \<and> out s' (t @ expand_format (drop i fmt) ts) \<and> info_ok (info s')))"

lemma loop_okD:
  assumes "loop_ok w m off fmt args_len i" "format_state w m off fmt args_len i c as ts s t"
  shows "\<exists>s'. format_utf8_loop fmt (drop off m) args_len i c s = Some s' \<and> out s' (t @ expand_format (drop i fmt) ts) \<and> info_ok (info s')"
  using assms unfolding loop_ok_def by blast

lemma format_utf8_loop_unfold:
  "i < length fmt \<Longrightarrow> format_utf8_loop fmt args args_len i c s =
     (let n = length (takeWhile (\<lambda>c. \<not> is_brace c) (drop i fmt))
      in Option.bind (copy_in (take n (drop i fmt)) s) (\<lambda>s. if i + n \<ge> length fmt then Some s else loop_brace fmt args args_len (i + n) c s))"
  by (subst format_utf8_loop.simps) (simp only: loop_brace_def Let_def if_True)

lemma loop_brace_run:
  assumes "\<And>i. j < i \<Longrightarrow> i \<le> length fmt \<Longrightarrow> loop_ok w m off fmt args_len i" "no_specs fmt" "j < length fmt" "is_brace (fmt ! j)"
    and st: "format_state w m off fmt args_len j c as ts s t"
  shows "\<exists>s'. loop_brace fmt (drop off m) args_len j c s = Some s' \<and> out s' (t @ expand_format (drop j fmt) ts) \<and> info_ok (info s')"
proof -
  let ?cs = "drop (Suc j) fmt"
  have d: "drop j fmt = fmt ! j # ?cs" using assms(3) by (simp add: Cons_nth_drop_Suc)
  consider "fmt ! j = ch CHR ''}''" | "fmt ! j = ch CHR ''{''" "as \<noteq> []" "hole ?cs \<noteq> None" | "fmt ! j = ch CHR ''{''" "as = [] \<or> hole ?cs = None"
    using assms(4) by (auto simp: is_brace_def)
  then show ?thesis
  proof cases
    case 1
    define j' where "j' = (if j + 1 < length fmt \<and> fmt ! (j + 1) = ch CHR ''}'' then j + 1 + 1 else j + 1)"
    have j': "j < j'" "j' \<le> length fmt" using assms(3) by (auto simp: j'_def)
    obtain s1 where s1: "insert_brace (ch CHR ''}'') s = Some s1" "format_state w m off fmt args_len j' c as ts s1 (t @ [ch CHR ''}''])"
      using brace_step [OF st assms(3) j'(1)] by blast
    have "expand_format (drop j fmt) ts = ch CHR ''}'' # expand_format (drop j' fmt) ts"
      unfolding d using 1 by (auto simp: j'_def hd_drop_conv_nth tl_drop drop_Suc [symmetric])
    then show ?thesis using loop_okD [OF assms(1) [OF j'] s1(2)] s1(1) 1 by (simp add: loop_brace_def j'_def [symmetric, simplified])
  next
    case 2
    obtain a as' tx ts' n where a: "as = a # as'" "ts = tx # ts'" "hole ?cs = Some n" using 2 st by (cases as; cases ts) (auto simp: format_state_def)
    let ?s = "if used (info s) then s\<lparr>info := format_info_reset\<rparr> else s"
    have n: "j + 1 < length fmt" "j + 1 + n + 1 \<le> length fmt" using a(3) by (auto simp: hole_def Let_def split: if_splits)
    note st' = later_step [OF reset_step [OF st], of "Suc j", unfolded a(1,2)]
    have col: "fmt ! Suc j \<noteq> ch CHR '':''" using assms(2,3) 2(1) n(1) by (simp add: no_specs_def)
    have left: "of_nat (length fmt) - of_nat (j + 1 + (n + 1)) = (of_nat (length fmt - (Suc j + n + 1)) :: u32)" using n(2) by (simp add: of_nat_diff)
    obtain c' s1 where s1: "insert_placeholder ?cs n (drop off m) args_len c (\<lambda>step. of_nat (length fmt) - of_nat (j + 1 + step)) ?s = Some (n + 1, c', s1)"
        "format_state w m off fmt args_len (Suc j + n + 1) c' as' ts' s1 (t @ tx)"
      using hole_step [OF st' a(3) col, of "\<lambda>step. of_nat (length fmt) - of_nat (j + 1 + step)"] n(1) left by auto
    have "expand_format (drop j fmt) ts = tx @ expand_format (drop (Suc j + n + 1) fmt) ts'"
      unfolding d using 2(1) a by (simp add: add.commute)
    moreover have "loop_brace fmt (drop off m) args_len j c s = format_utf8_loop fmt (drop off m) args_len (Suc j + n + 1) c' s1"
      using 2(1) s1(1) a args_left [OF st] by (simp add: loop_brace_def Let_def scan_spec_0)
    ultimately show ?thesis using loop_okD [OF assms(1) s1(2)] n(2) by simp
  next
    case 3
    let ?s = "if used (info s) then s\<lparr>info := format_info_reset\<rparr> else s"
    obtain s1 where s1: "insert_brace (ch CHR ''{'') ?s = Some s1" "format_state w m off fmt args_len (Suc j) c as ts s1 (t @ [ch CHR ''{''])"
      using brace_step [OF reset_step [OF st] assms(3), of "Suc j"] by blast
    have "ts = [] \<or> hole ?cs = None" using 3(2) st by (auto simp: format_state_def)
    then have "expand_format (drop j fmt) ts = ch CHR ''{'' # expand_format ?cs ts"
      unfolding d using 3(1) by (auto split: list.splits option.splits)
    moreover have "loop_brace fmt (drop off m) args_len j c s = format_utf8_loop fmt (drop off m) args_len (Suc j) c s1"
      using 3 s1(1) args_left [OF st] by (auto simp: loop_brace_def Let_def scan_spec_0)
    ultimately show ?thesis using loop_okD [OF assms(1) s1(2)] assms(3) by simp
  qed
qed

lemma format_utf8_loop_ok:
  assumes "no_specs fmt" "i \<le> length fmt"
  shows "loop_ok w m off fmt args_len i"
  using assms(2)
proof (induction "length fmt - i" arbitrary: i rule: less_induct)
  case less
  define xs where "xs = takeWhile (\<lambda>c. \<not> is_brace c) (drop i fmt)"
  define j where "j = i + length xs"
  have xs: "take (length xs) (drop i fmt) = xs" "\<forall>c \<in> set xs. \<not> is_brace c" "length xs \<le> length fmt - i"
    using takeWhile_eq_take [of "\<lambda>c. \<not> is_brace c" "drop i fmt"] length_takeWhile_le [of "\<lambda>c. \<not> is_brace c" "drop i fmt"]
    by (auto simp: xs_def dest: set_takeWhileD)
  have d: "drop i fmt = xs @ drop j fmt" using append_take_drop_id [of "length xs" "drop i fmt"] xs(1) by (simp add: j_def add.commute)
  have e: "expand_format (drop i fmt) ts = xs @ expand_format (drop j fmt) ts" for ts unfolding d by (rule expand_format_literal [OF xs(2)])
  have "\<exists>s'. format_utf8_loop fmt (drop off m) args_len i c s = Some s' \<and> out s' (t @ expand_format (drop i fmt) ts) \<and> info_ok (info s')"
    if st: "format_state w m off fmt args_len i c as ts s t" for c as ts s t
  proof (cases "i < length fmt")
    case False
    then show ?thesis using st by (subst format_utf8_loop.simps) (simp add: format_state_def)
  next
    case True
    obtain s1 where s1: "copy_in xs s = Some s1" "format_state w m off fmt args_len j c as ts s1 (t @ xs)"
      using literal_step [OF st xs(3)] by (auto simp: j_def)
    have l: "format_utf8_loop fmt (drop off m) args_len i c s = (if j < length fmt then loop_brace fmt (drop off m) args_len j c s1 else Some s1)"
      using s1(1) xs(1) by (simp add: format_utf8_loop_unfold [OF True] Let_def xs_def [symmetric] j_def [symmetric])
    show ?thesis
    proof (cases "j < length fmt")
      case False
      then show ?thesis using l s1(2) by (simp add: e format_state_def)
    next
      case True
      have "is_brace (fmt ! j)" using nth_length_takeWhile [of "\<lambda>c. \<not> is_brace c" "drop i fmt"] True by (simp add: xs_def j_def)
      moreover have "loop_ok w m off fmt args_len k" if "j < k" "k \<le> length fmt" for k using less(1) [of k] that by (simp add: j_def)
      ultimately show ?thesis using loop_brace_run [OF _ assms(1) True _ s1(2)] True l by (simp add: e)
    qed
  qed
  then show ?case unfolding loop_ok_def by blast
qed

section \<open>Whole records\<close>

text \<open>Without arguments the text is taken as it is.\<close>

definition formatted :: "bytes \<Rightarrow> bytes list \<Rightarrow> bytes" where
  "formatted fmt ts = (if ts = [] then fmt else expand_format fmt ts)"

lemma args_size_0: "args_size w as = 0 \<longleftrightarrow> as = []"
  using arg_size_pos [of w "hd as"] by (cases as) (auto simp: args_size_def)

lemma record_parts:
  assumes "holds_record w thread epoch_ms cat lvl stack fmt args m" "record_size w thread stack fmt args < 2 ^ 32"
  defines "t \<equiv> record_text w stack fmt"
  shows "take (length t) (get_format_string_data m) = t" "unat (log_format_data_len (get_log_head m)) = length t"
    "unat (get_log_args_data_size m) = args_size w args" "get_log_args_data m = drop (40 + round4 (length t)) m"
    "args_at w m (40 + round4 (length t)) args"
proof -
  let ?p = "40 + round4 (length t)"
  have h: "unat (ext_info_offset (get_log_head m)) = ?p + args_size w args" "mem_read m 40 (length t) = t" "length m = record_size w thread stack fmt args"
    and l: "unat (log_format_data_len (get_log_head m)) = length t" and a: "args_at w m ?p args"
    using assms(1) by (simp_all add: holds_record_def Let_def t_def)
  show "take (length t) (get_format_string_data m) = t" using h(2) by (simp add: get_format_string_data_def record_head_size_def mem_read_def)
  have o: "get_log_args_offset m = ?p" using l by (simp add: get_log_args_offset_def record_head_size_def)
  have "?p < 2 ^ 32" using assms(2) by (simp add: record_size_def t_def)
  then have "unat (of_nat ?p :: u32) = ?p" by (subst unat_of_nat) simp
  moreover from this have "(of_nat ?p :: u32) \<le> ext_info_offset (get_log_head m)" using h(1) by (simp add: word_le_nat_alt)
  ultimately show "unat (get_log_args_data_size m) = args_size w args"
    using h(1) by (simp only: get_log_args_data_size_def o unat_sub)
  show "get_log_args_data m = drop ?p m" by (simp only: get_log_args_data_def o)
  show "unat (log_format_data_len (get_log_head m)) = length t" "args_at w m ?p args" using l a by blast+
qed

lemma format_content_run:
  assumes "list_all (arg_ok w) args" "holds_record w thread epoch_ms cat lvl stack fmt args m" "record_size w thread stack fmt args < 2 ^ 32"
    "get_log_param_type_enum w (fst fmt) = tag_string_utf8" "no_specs (record_text w stack fmt)" "map (shown w) args = map Some ts"
    "out s t" "info_ok (info s)" "length t + length (record_text w stack fmt) + length (concat ts) + 128 + 2 * args_size w args < 2 ^ 30"
  shows "\<exists>s'. python_style_format_content_utf8 m s = Some s' \<and> out s' (t @ formatted (record_text w stack fmt) ts) \<and> info_ok (info s')"
proof -
  let ?f = "record_text w stack fmt"
  note r = record_parts [OF assms(2,3)]
  have len: "\<not> length (take (length ?f) (get_format_string_data m)) < length ?f" using r(1) by simp
  show ?thesis
  proof (cases "args = []")
    case True
    then have "ts = []" "unat (get_log_args_data_size m) = 0" using assms(6) r(3) by (simp_all add: args_size_def)
    moreover from this(2) have "get_log_args_data_size m = of_nat 0" by (rule word_of_unat)
    ultimately show ?thesis using insert_str_utf8_run [OF assms(7,8), of ?f] assms(8,9) r(1,2) len
      by (auto simp: python_style_format_content_utf8_def Let_def formatted_def appends_def)
  next
    case False
    then have ts: "ts \<noteq> []" using assms(6) by auto
    have z: "get_log_args_data_size m \<noteq> 0" using False r(3) args_size_0 [of w args] by (metis unsigned_0)
    define s0 where "s0 = expand_format_content_buff_size (cursor s + of_nat (length ?f)) s"
    have ld: "log_format_data_len (get_log_head m) = of_nat (length ?f)" using r(2) by (rule word_of_unat)
    have "length t + length ?f < 2 ^ 30" using assms(9) by simp
    note e = expand_run [OF assms(7,8) this, folded s0_def]
    have "format_state w m (40 + round4 (length ?f)) ?f (get_log_args_data_size m) 0 0 args ts s0 t"
      using assms r e room_mono [OF e(2), of "length ?f"] by (simp add: format_state_def)
    from loop_okD [OF format_utf8_loop_ok this, OF assms(5)] show ?thesis
      using len r ts z by (simp add: python_style_format_content_utf8_def Let_def formatted_def s0_def ld del: length_take)
  qed
qed

lemma terminated_run:
  assumes "out s t" "info_ok (info s)" "length t + 1 < 2 ^ 30"
  shows "\<exists>s'. put_at (unat (cursor s)) 0 (expand_format_content_buff_size (cursor s + 1) s) = Some s' \<and> out s' t \<and> info s' = info s
    \<and> format_content s' ! length t = 0 \<and> length t < length (format_content s')"
proof -
  note e = expand_run [OF assms]
  let ?s = "expand_format_content_buff_size (cursor s + of_nat 1) s"
  have c: "unat (cursor s) = length t" using assms(1) by (simp add: out_def)
  then have "length t < length (format_content ?s)" using e(2,4) by (simp add: room_def)
  then show ?thesis using e(1,3,4) c by (auto simp: put_at_def out_def)
qed

lemma length_expand_format: "length (expand_format fmt ts) \<le> length fmt + length (concat ts)"
proof (induction fmt ts rule: expand_format.induct)
  case (2 c cs ts)
  then show ?case by (fastforce simp: hole_def Let_def split: list.splits option.splits if_splits)
qed simp

lemma layout_record_run:
  assumes "list_all (arg_ok w) args" "holds_record w thread epoch_ms cat lvl stack fmt args m" "record_size w thread stack fmt args < 2 ^ 32"
    "get_log_param_type_enum w (fst fmt) = tag_string_utf8" "no_specs (record_text w stack fmt)" "map (shown w) args = map Some ts"
    "out s t" "info_ok (info s)" "length t + length (record_text w stack fmt) + length (concat ts) + 128 + 2 * args_size w args < 2 ^ 30"
  shows "\<exists>s'. python_style_format_content m s = Some s' \<and> out s' (t @ formatted (record_text w stack fmt) ts) \<and> info_ok (info s')
    \<and> format_content s' ! unat (cursor s') = 0"
proof -
  let ?t = "t @ formatted (record_text w stack fmt) ts"
  obtain s1 where s1: "python_style_format_content_utf8 m s = Some s1" "out s1 ?t" "info_ok (info s1)"
    using format_content_run [OF assms] by blast
  have "length (formatted (record_text w stack fmt) ts) \<le> length (record_text w stack fmt) + length (concat ts)"
    using length_expand_format by (simp add: formatted_def)
  then have "length ?t + 1 < 2 ^ 30" using assms(9) by simp
  from terminated_run [OF s1(2,3) this] obtain s' where s': "put_at (unat (cursor s1)) 0 (expand_format_content_buff_size (cursor s1 + 1) s1) = Some s'"
      "out s' ?t" "info s' = info s1" "format_content s' ! length ?t = 0" by blast
  moreover have "log_format_str_type (get_log_head m) = tag_code tag_string_utf8" using assms(2,4) by (simp add: holds_record_def Let_def)
  ultimately show ?thesis using s1 by (auto simp: python_style_format_content_def out_def)
qed

text \<open>
  Property C11. What is logged comes out as text. A call that is enabled and gets its chunk, with a UTF-8 format in which no
  placeholder has a format specification (nothing of the form \<open>{:\<close>) and with any number of arguments, the floating-point ones
  being finite with an integral part that fits 64 bits (\<open>shown\<close> has a text for each argument), is serialized, and laying out the
  record appends the format with the decimal, hexadecimal, boolean or character texts of the arguments in place of the placeholders
  (in order, spare placeholders left, spare arguments dropped), ends it with a zero byte, and stays inside the output buffer.
\<close>

theorem logged_then_formatted:
  assumes "arg_ok w fmt" "is_text w fmt" "list_all (arg_ok w) args" "\<forall>n m. alloc n = Some m \<longrightarrow> length m = unat n" "length (thread_name thread) \<le> 16"
    and "get_log_param_type_enum w (fst fmt) = tag_string_utf8" "no_specs (record_text w stack fmt)" "map (shown w) args = map Some ts"
    and "out s t" "info_ok (info s)" "length t + record_size w thread stack fmt args + length (concat ts) + args_size w args < 2 ^ 30 - 128"
    and "stack = printed_stack impl lv trace" "log_is_enable_for impl category_index lv = Some True" "valid_level lv"
    and "alloc (of_nat (record_size w thread stack fmt args)) \<noteq> None"
  shows "\<exists>m s'. do_log w hw impl alloc thread epoch_ms trace category_index lv fmt args = Some (Some m)
    \<and> python_style_format_content m s = Some s' \<and> out s' (t @ formatted (record_text w stack fmt) ts) \<and> info_ok (info s')
    \<and> format_content s' ! unat (cursor s') = 0"
proof -
  have size: "record_size w thread stack fmt args < 2 ^ 32"
    and b: "length t + length (record_text w stack fmt) + length (concat ts) + 128 + 2 * args_size w args < 2 ^ 30"
    using assms(11) round4_bounds(1) [of "length (record_text w stack fmt)"] by (simp_all add: record_size_def)
  obtain m where m: "do_log w hw impl alloc thread epoch_ms trace category_index lv fmt args = Some (Some m)"
      "holds_record w thread epoch_ms category_index (of_nat (level_code lv)) stack fmt args m"
    using do_log_run [where alloc = alloc and hw = hw and epoch_ms = epoch_ms, OF assms(1-3) assms(4) [THEN spec, THEN spec, THEN mp] assms(5) size [unfolded assms(12)] assms(13,14)] assms(12,15) by auto
  show ?thesis using layout_record_run [OF assms(3) m(2) size assms(6-10) b] m(1) by blast
qed

definition blank_layout :: layout where
  "blank_layout = \<lparr>format_content = [], cursor = 0, info = format_info_new\<rparr>"

lemma ucast_char: "ucast (of_char c :: u32) = (of_char c :: u8)"
proof -
  have "of_char c < (256 :: nat)" by (metis of_char_mod_256 mod_less_divisor zero_less_numeral)
  then have "of_char c < (2 :: nat) ^ 32" by (rule less_trans) simp
  then have "take_bit 32 (of_char c :: nat) = of_char c" by (rule take_bit_nat_eq_self)
  moreover have "ucast (of_nat (of_char c) :: u32) = (of_nat (take_bit 32 (of_char c)) :: u8)" by (simp only: unsigned_of_nat) simp
  ultimately show ?thesis by (simp only: of_nat_of_char)
qed

lemma sample_texts: "shown 4 (int_arg_of n) = Some (int_text (sint n))" "text_content 4 (text_arg_of s) = map of_char s" "shown 4 (text_arg_of s) = Some (map of_char s)"
proof -
  show "shown 4 (int_arg_of n) = Some (int_text (sint n))"
    by (simp add: shown_def int_arg_of_def int_type_def is_text_def get_serialize_kind_def get_log_param_type_enum_def payload_def le_word_bytes)
  show t: "text_content 4 (text_arg_of s) = map of_char s" for s
    by (induction s) (simp_all add: text_content_def text_arg_of_def string_type_def chars_width_def get_serialize_kind_def string_chars_def chars_content_def
        char_bytes_def le_bytes_def ucast_char)
  show "shown 4 (text_arg_of s) = Some (map of_char s)" unfolding shown_def t
    by (simp add: text_arg_of_def string_type_def is_text_def get_serialize_kind_def get_log_param_type_enum_def)
qed

theorem logged_then_formatted_witness:
  "\<exists>m s'. do_log 4 None (Some sample_log) (\<lambda>n. Some (replicate (unat n) 0)) \<lparr>thread_id = 7, thread_name = [109]\<rparr> 1000 [] 0 info_level (text_arg_of ''{} is {}!'')
      [int_arg_of (- 5), text_arg_of ''low''] = Some (Some m)
    \<and> python_style_format_content m blank_layout = Some s' \<and> out s' (map of_char ''-5 is low!'')"
proof -
  have f: "formatted (record_text 4 None (text_arg_of ''{} is {}!'')) [map of_char ''-5'', map of_char ''low''] = map of_char ''-5 is low!''"
    by (simp add: formatted_def record_text_def sample_texts hole_def Let_def is_brace_def)
  have "\<exists>m s'. do_log 4 None (Some sample_log) (\<lambda>n. Some (replicate (unat n) 0)) \<lparr>thread_id = 7, thread_name = [109]\<rparr> 1000 [] 0 info_level (text_arg_of ''{} is {}!'')
      [int_arg_of (- 5), text_arg_of ''low''] = Some (Some m)
    \<and> python_style_format_content m blank_layout = Some s'
    \<and> out s' ([] @ formatted (record_text 4 None (text_arg_of ''{} is {}!'')) [map of_char ''-5'', map of_char ''low'']) \<and> info_ok (info s')
    \<and> format_content s' ! unat (cursor s') = 0"
  proof (rule logged_then_formatted)
    show "length [] + record_size 4 \<lparr>thread_id = 7, thread_name = [109]\<rparr> None (text_arg_of ''{} is {}!'') [int_arg_of (- 5), text_arg_of ''low'']
        + length (concat [map of_char ''-5'', map of_char ''low''] :: bytes) + args_size 4 [int_arg_of (- 5), text_arg_of ''low''] < 2 ^ 30 - 128"
      by (simp add: record_size_def record_text_def args_size_def sample_sizes round4_def)
    show "get_log_param_type_enum 4 (fst (text_arg_of ''{} is {}!'')) = tag_string_utf8"
      by (simp add: text_arg_of_def string_type_def get_log_param_type_enum_def get_serialize_kind_def)
    show "no_specs (record_text 4 None (text_arg_of ''{} is {}!''))" by (simp add: record_text_def sample_texts no_specs_def All_less_Suc)
    show "map (shown 4) [int_arg_of (- 5), text_arg_of ''low''] = map Some [map of_char ''-5'', map of_char ''low'']"
    proof -
      have "sint (- 5 :: 32 word) = - 5" by simp
      moreover have "int_text (- 5) = map of_char ''-5''" by code_simp
      ultimately show ?thesis by (simp only: sample_texts list.map)
    qed
  qed (use sample_args in \<open>simp_all add: sample_log_run valid_level_def blank_layout_def out_def info_ok_def format_info_new_def\<close>)
  then show ?thesis unfolding f by auto
qed

end
