(* ===== verification/Qlog_Layout_Spec.thy ===== *)
theory Qlog_Layout_Spec
  imports Qlog_Layout_Digits
begin

unbundle bit_operations_syntax

text \<open>
  Bounds of the format specifications, and the room that an integer with a radix prefix lacks.
\<close>

section \<open>Specifications are small\<close>

definition spec_ok :: "spec_state \<Rightarrow> bool" where
  "spec_ok st \<longleftrightarrow> is_digit_byte (digit0 st) \<and> (digit1 st = 0 \<or> is_digit_byte (digit1 st)) \<and> spec_width (sp_info st) \<le> 99
     \<and> precision (sp_info st) = 0xFFFFFFFF \<and> unat (spec_offset (sp_info st)) \<le> 10"

lemma digit_byte_value: "is_digit_byte c \<Longrightarrow> unat (ucast (c - 48) :: u32) \<le> 9"
proof -
  assume "is_digit_byte c"
  then have "48 \<le> unat c" "unat c \<le> 57" by (simp_all add: is_digit_byte_def word_le_nat_alt)
  moreover have "unat (c - 48) = unat c - 48" using \<open>is_digit_byte c\<close> by (subst unat_sub) (simp_all add: is_digit_byte_def)
  moreover have "unat (ucast (c - 48) :: u32) = unat (c - 48)"
    using unsigned_less [of "c - 48", where ?'a = nat] by (simp add: unsigned_ucast_eq take_bit_nat_eq_self)
  ultimately show ?thesis by simp
qed

lemma spec_atoi_bound:
  assumes "spec_ok st"
  shows "spec_atoi st \<le> 99"
proof -
  let ?a = "ucast (digit0 st - 48) :: u32" and ?b = "ucast (digit1 st - 48) :: u32"
  have a: "unat ?a \<le> 9" using assms by (intro digit_byte_value) (simp add: spec_ok_def)
  have b: "unat ?b \<le> 9" if "digit1 st \<noteq> 0" using assms that by (intro digit_byte_value) (simp add: spec_ok_def)
  have "unat (10 * ?a + ?b) = 10 * unat ?a + unat ?b" if "digit1 st \<noteq> 0" using a b [OF that] by (simp add: unat_word_ariths)
  then show ?thesis using a b by (auto simp: spec_atoi_def word_le_nat_alt)
qed

lemma spec_char_ok:
  assumes "spec_ok st"
  shows "spec_ok (spec_char c st)"
  using assms spec_atoi_bound [OF assms] by (auto simp: spec_char_def spec_ok_def Let_def is_digit_byte_def)

lemma c20_loop_ok:
  assumes "spec_ok st" "index \<le> 10"
  shows "spec_ok (c20_loop style len index st)"
  using assms
proof (induction style len index st rule: c20_loop.induct)
  case (1 style len index st)
  have "unat (1 + of_nat index :: u32) \<le> 10" if "index \<le> 9" using that by (simp add: unat_word_ariths unat_of_nat)
  then show ?case using 1 spec_char_ok by (subst c20_loop.simps) (auto simp: Let_def spec_ok_def)
qed

text \<open>
  Property C32. Whatever stands in a placeholder, for UTF-8 and for UTF-16 formats, the specification that is read from it has
  a width of at most 99, a precision of at most 99 (or none), and ends within the first ten characters.
\<close>

theorem c20_format_bounds: "info_ok (c20_format style len) \<and> unat (spec_offset (c20_format style len)) \<le> 10"
proof -
  define st where "st = c20_loop style len 0 \<lparr>sp_info = format_info_new\<lparr>used := True\<rparr>, reading_precision = False, align_seen = False,
                   fill_seen = False, digit0 = ch CHR ''0'', digit1 = 0\<rparr>"
  have "spec_ok \<lparr>sp_info = format_info_new\<lparr>used := True\<rparr>, reading_precision = False, align_seen = False, fill_seen = False, digit0 = ch CHR ''0'', digit1 = 0\<rparr>"
    by (simp add: spec_ok_def is_digit_byte_def format_info_new_def)
  from c20_loop_ok [OF this, of 0 style len] have st: "spec_ok st" by (simp add: st_def)
  from spec_atoi_bound [OF st]
  show ?thesis using st unfolding c20_format_def st_def [symmetric] Let_def
    by (simp add: info_ok_def format_info_new_def spec_ok_def)
qed

section \<open>Prefixes need room\<close>

lemma put_fails: "unat (cursor s) = length (format_content s) \<Longrightarrow> put c s = None"
  by (simp add: put_def put_at_def)

lemma put_digits_fails:
  assumes "2 \<le> b" "out s t" "length (format_content s) < length t + length (in_base (upper (info s)) b v)" "length (format_content s) < 2 ^ 32"
  shows "put_digits v b counts e0 s = None"
  using assms
proof (induction v arbitrary: s t e0 rule: less_induct)
  case (less v)
  let ?ds = "in_base (upper (info s)) b v" and ?c = "digit_code (upper (info s)) (v mod b)"
  have b: "\<not> b < 2" "0 < b" using less.prems(1) by simp_all
  have l: "length t \<le> length (format_content s)" "unat (cursor s) = length t" using less.prems(2) by (simp_all add: out_def)
  show ?case
  proof (cases "length t = length (format_content s)")
    case True
    then show ?thesis using b l put_fails [of s ?c] by (subst put_digits.simps) simp
  next
    case False
    then have r: "room s (Suc 0)" using l by (simp add: room_def)
    obtain s1 where s1: "put ?c s = Some s1" "out s1 (t @ [?c])" "info s1 = info s" "length (format_content s1) = length (format_content s)"
      using put_run [OF less.prems(2) r, of ?c] l False less.prems(4) by auto
    have nv: "\<not> v < b"
    proof
      assume "v < b"
      then have "length ?ds = 1" by (simp add: in_base_def base_digits.simps [of b v])
      then show False using less.prems(3) l False by simp
    qed
    have q: "v div b \<noteq> 0" "v div b < v" using nv b by (auto simp: div_eq_0_iff intro!: div_less_dividend)
    have "?ds = in_base (upper (info s)) b (v div b) @ [?c]" using nv b by (simp add: in_base_def base_digits.simps [of b v])
    then have "put_digits (v div b) b counts e s1 = None" for e
      using less.IH [OF q(2) less.prems(1) s1(2), of e] s1(3,4) less.prems(3,4) by simp
    then show ?thesis using q b s1 by (subst put_digits.simps) (simp add: Let_def)
  qed
qed

lemma length_in_base_ge: "2 \<le> b \<Longrightarrow> b ^ k \<le> n \<Longrightarrow> k < length (in_base up b n)"
proof (induction k arbitrary: n)
  case 0
  then show ?case using in_base_not_Nil by simp
next
  case (Suc k)
  have "b * b ^ k \<le> n" using Suc.prems(2) by simp
  then have k: "b ^ k \<le> n div b" using Suc.prems(1) by (simp add: less_eq_div_iff_mult_less_eq mult.commute)
  moreover have "b \<le> b * b ^ k" using Suc.prems(1) by simp
  then have "\<not> n < b" using \<open>b * b ^ k \<le> n\<close> by linarith
  ultimately show ?case using Suc.IH [OF Suc.prems(1) k] Suc.prems(1) by (simp add: in_base_def base_digits.simps [of b n])
qed

lemma prefixed_spec:
  "c20_format (map of_char '':#x}'' :: bytes) 4 = \<lparr>used = True, upper = False, fill = 32, align = 62, sign = 45, prefix_char = 35, spec_offset = 3,
     spec_width = 0, precision = 0xFFFFFFFF, type_char = 120\<rparr>"
  by code_simp

text \<open>
  Property C33. The room that is made for an integer ignores its radix prefix: when 17 bytes are left in the buffer, a number of
  16 hexadecimal digits that is shown under \<open>{:#x}\<close> is written behind its end.
\<close>

theorem hex_prefix_overruns:
  assumes "out s t" "info s = c20_format (map of_char '':#x}'' :: bytes) 4" "length (format_content s) = length t + 17" "length t < 2 ^ 30" "2 ^ 60 \<le> unat v"
  shows "insert_integral_unsigned v 10 s = None"
proof -
  note f = assms(2) [unfolded prefixed_spec]
  have i: "effective_base (info s) 10 = 16" "extra_room (info s) = 1" "prefix_text (info s) = [48, 120]" "sign (info s) \<noteq> ch CHR ''+''"
      "type_char (info s) \<noteq> ch CHR ''e''" "\<not> upper (info s)"
    using f by (simp_all add: effective_base_def extra_room_def prefix_text_def)
  have c: "unat (cursor s) = length t" using assms(1) by (simp add: out_def)
  have "unat (cursor s + 16 + 1) = length t + 17" using c assms(4) by (simp add: unat_word_ariths)
  moreover have "spec_offset (info s) \<noteq> 0" "spec_width (info s) + precision (info s) + 2 = 1" using f by simp_all
  ultimately have e: "expand_format_content_buff_size (cursor s + 16) s = s"
    using assms(3) by (simp only: expand_format_content_buff_size_def Let_def if_True not_False_eq_True order_refl)
  obtain s1 where s1: "insert_prefix s = Some s1" "out s1 (t @ [48, 120])" "info s1 = info s"
    using insert_prefix_run [OF assms(1)] i(3) assms(3,4) c by (auto simp: appends_def room_def)
  have l: "length (format_content s1) = length (format_content s)"
    using s1(1) i(3) by (auto simp: insert_prefix_def put_def put_at_def Let_def prefix_text_def bind_eq_Some_conv split: if_splits)
  have "length (in_base (upper (info s1)) 16 (unat v)) > 15" using assms(5) by (intro length_in_base_ge) simp_all
  then have "put_digits (unat v) 16 True 0 s1 = None"
    using put_digits_fails [OF _ s1(2), of 16 "unat v" True 0] assms(3,4) l by simp
  then show ?thesis using e i s1(1) by (simp add: insert_integral_unsigned_def integral_room_def insert_digits_def Let_def)
qed

theorem hex_prefix_overruns_witness:
  "insert_integral_unsigned 0xFFFFFFFFFFFFFFFF 10
     \<lparr>format_content = replicate 17 0, cursor = 0, info = c20_format (map of_char '':#x}'' :: bytes) 4\<rparr> = None"
  using hex_prefix_overruns [of "\<lparr>format_content = replicate 17 0, cursor = 0, info = c20_format (map of_char '':#x}'' :: bytes) 4\<rparr>" "[]" "0xFFFFFFFFFFFFFFFF"]
  by (simp add: out_def)

end
