(* ===== verification/Qlog_Time_Zone_Correct.thy ===== *)
theory Qlog_Time_Zone_Correct
  imports Qlog_Time_Zone Qlog_Config_Leaves
begin

text \<open>
  The name that a zone with an offset gives itself is read back as the same zone.
\<close>

lemma strtol_number:
  assumes "set ds \<subseteq> {c. is_digit c}" "ds \<noteq> []" "rest = [] \<or> \<not> is_digit (hd rest)" "digits_val ds < 2 ^ 63"
  shows "strtol (ds @ rest) = (Some (int (digits_val ds)), rest)" "strtol (CHR ''+'' # ds @ rest) = (Some (int (digits_val ds)), rest)"
    "strtol (CHR ''-'' # ds @ rest) = (Some (- int (digits_val ds)), rest)"
proof -
  obtain d ds' where d: "ds = d # ds'" "is_digit d" using assms(1,2) by (cases ds) auto
  have plus: "\<not> is_digit CHR ''+''" by (simp add: is_digit_def)
  have s: "\<not> isspace d" "d \<noteq> CHR ''-''" "d \<noteq> CHR ''+''" using d(2) not_digits(3,13) plus by blast+
  have p: "\<not> isspace CHR ''+''" "\<not> isspace CHR ''-''" by (simp_all add: isspace_def)
  have t: "takeWhile is_digit (ds @ rest) = ds" using assms(1,3) by (subst takeWhile_append2) (auto, cases rest, auto)
  have u: "takeWhile is_digit (d # ds' @ rest) = d # ds'" using t unfolding d by simp
  show "strtol (ds @ rest) = (Some (int (digits_val ds)), rest)" "strtol (CHR ''+'' # ds @ rest) = (Some (int (digits_val ds)), rest)"
    "strtol (CHR ''-'' # ds @ rest) = (Some (- int (digits_val ds)), rest)"
    using s p u assms(4) unfolding strtol_def d Let_def by (simp_all del: takeWhile.simps)
qed

lemma pad_zeros_val: "digits_val (pad_zeros k s) = digits_val s"
proof -
  have "digits_val (replicate n (CHR ''0'') @ s) = digits_val s" for n by (induction n) (simp_all add: digits_val_def)
  then show ?thesis by (simp add: pad_zeros_def)
qed

lemma two_digits_text:
  assumes "0 \<le> i" "i < 2 ^ 63"
  shows "set (two_digits i) \<subseteq> {c. is_digit c}" "two_digits i \<noteq> []" "digits_val (two_digits i) = nat i" "strtol (two_digits i) = (Some i, [])"
proof -
  show d: "set (two_digits i) \<subseteq> {c. is_digit c}" "two_digits i \<noteq> []" "digits_val (two_digits i) = nat i"
    using assms nat_text_digits [of "nat i"] by (auto simp: two_digits_def pad_zeros_val nat_text_val) (auto simp: pad_zeros_def is_digit_def)
  show "strtol (two_digits i) = (Some i, [])" using strtol_number(1) [OF d(1,2), of "[]"] d(3) assms by simp
qed

text \<open>The offsets that a zone may have: minutes go in the direction of the hours.\<close>

definition offset_ok :: "int \<Rightarrow> int \<Rightarrow> bool" where
  "offset_ok h m \<longleftrightarrow> - 12 \<le> h \<and> h \<le> 14 \<and> \<bar>m\<bar> < 60 \<and> (if h < 0 then m \<le> 0 else 0 \<le> m)"

lemma strtol_signed:
  assumes "\<bar>h\<bar> < 2 ^ 63" "rest = [] \<or> \<not> is_digit (hd rest)"
  shows "strtol (signed_text h @ rest) = (Some h, rest)"
proof (cases "h < 0")
  case True
  then show ?thesis using strtol_number(3) [OF nat_text_digits assms(2), of "nat (- h)"] assms(1) by (simp add: signed_text_def nat_text_val)
next
  case False
  then show ?thesis using strtol_number(2) [OF nat_text_digits assms(2), of "nat h"] assms(1) by (simp add: signed_text_def nat_text_val)
qed

lemma signed_text_neq: "signed_text h @ rest \<noteq> rest"
  by (simp add: signed_text_def)

lemma zone_chars:
  assumes "\<bar>m\<bar> < 60"
  shows "set (zone_text h m) \<subseteq> {c. is_digit c} \<union> set ''UTC+-:''"
  using two_digits_text(1) [of "\<bar>m\<bar>"] assms nat_text_digits(1) by (auto simp: zone_text_def signed_text_def is_digit_def split: if_splits)

lemma c_str_zone: "\<bar>m\<bar> < 60 \<Longrightarrow> c_str (drop 3 (zone_text h m)) = drop 3 (zone_text h m)"
  using zone_chars [of m h] set_drop_subset [of 3 "zone_text h m"] by (intro c_str_same) (auto simp: is_digit_def)

lemma parse_offset_text:
  assumes "offset_ok h m" "\<not> (h = 0 \<and> m = 0)"
  shows "parse_offset (zone_text h m) = Inr (h, m)"
proof (cases "m = 0")
  case True
  have h: "\<bar>h\<bar> < 2 ^ 63" using assms(1) by (auto simp: offset_ok_def)
  have "c_str (signed_text h) = signed_text h" using c_str_zone [of 0 h] True assms(2) by (simp add: zone_text_def)
  then show ?thesis using True assms strtol_signed [OF h, of "[]"] signed_text_neq [of h "[]"] by (simp add: parse_offset_def zone_text_def offset_ok_def)
next
  case False
  have h: "\<bar>h\<bar> < 2 ^ 63" using assms(1) by (auto simp: offset_ok_def)
  have c: "c_str (signed_text h @ CHR '':'' # two_digits \<bar>m\<bar>) = signed_text h @ CHR '':'' # two_digits \<bar>m\<bar>"
    using c_str_zone [of m h] False assms by (simp add: zone_text_def offset_ok_def)
  have a: "strtol (signed_text h @ CHR '':'' # two_digits \<bar>m\<bar>) = (Some h, CHR '':'' # two_digits \<bar>m\<bar>)"
    using strtol_signed [OF h, of "CHR '':'' # two_digits \<bar>m\<bar>"] by simp
  have b: "strtol (two_digits \<bar>m\<bar>) = (Some \<bar>m\<bar>, [])" using two_digits_text(4) [of "\<bar>m\<bar>"] assms(1) by (simp add: offset_ok_def)
  show ?thesis using False assms a b c two_digits_text(2) [of "\<bar>m\<bar>"] signed_text_neq [of h "CHR '':'' # two_digits \<bar>m\<bar>"]
    by (auto simp: parse_offset_def zone_text_def offset_ok_def split: if_splits)
qed

lemma trim_zone:
  assumes "\<bar>m\<bar> < 60"
  shows "trim (zone_text h m) = zone_text h m" "map upper_char (zone_text h m) = zone_text h m"
proof -
  have sp: "\<not> isspace c" and up: "upper_char c = c" if "c \<in> set (zone_text h m)" for c
  proof -
    have c: "is_digit c \<or> c \<in> set ''UTC+-:''" using zone_chars [OF assms, of h] that by blast
    then show "\<not> isspace c" using not_digits(13) by (auto simp: isspace_def)
    show "upper_char c = c" using c by (auto simp: upper_char_def toupper_def is_digit_def Let_def)
  qed
  have ne: "zone_text h m \<noteq> []" by (simp add: zone_text_def)
  show "trim (zone_text h m) = zone_text h m" using sp ne by (intro trim_trimmed) (auto simp: trimmed_def)
  show "map upper_char (zone_text h m) = zone_text h m" using up by (rule map_idI)
qed

text \<open>
  Property C34. A zone with an offset (hours from -12 to 14, minutes in the same direction) prints itself as \<open>UTC+h:mm\<close>, and
  parsing this text gives the same zone, with its offset to GMT in milliseconds, whatever the local zone of the machine is.
\<close>

theorem time_zone_roundtrip:
  assumes "offset_ok h m"
  shows "parse_by_string local_name local_diff (time_zone_str (set_offset h m time_zone_reset)) = set_offset h m time_zone_reset"
proof -
  have m: "\<bar>m\<bar> < 60" using assms by (simp add: offset_ok_def)
  have z: "time_zone_str (set_offset h m time_zone_reset) = zone_text h m" by (simp add: set_offset_def)
  have n: "zone_text h m \<noteq> []" "zone_text h m \<notin> {''LOCAL'', ''LOCALTIME'', ''LOCAL_TIME''}" "zone_text h m \<notin> {''GMT'', ''Z'', ''UTC''}"
    by (simp_all add: zone_text_def signed_text_def)
  show ?thesis
  proof (cases "h = 0 \<and> m = 0")
    case True
    moreover have "parse_offset ''UTC0'' = Inr (0, 0)" by code_simp
    ultimately show ?thesis using n trim_zone [OF m, of h] unfolding z by (simp add: parse_by_string_def Let_def zone_text_def)
  next
    case False
    then show ?thesis using n trim_zone [OF m, of h] parse_offset_text [OF assms False] unfolding z by (simp add: parse_by_string_def Let_def)
  qed
qed

theorem time_zone_roundtrip_witness:
  "offset_ok (- 9) (- 30) \<and> parse_by_string ''CET'' 3600000 (time_zone_str (set_offset (- 9) (- 30) time_zone_reset)) = set_offset (- 9) (- 30) time_zone_reset"
proof -
  have "offset_ok (- 9) (- 30)" by (simp add: offset_ok_def)
  then show ?thesis using time_zone_roundtrip [of "- 9" "- 30" "''CET''" 3600000] by blast
qed

end
