(* ===== verification/Qlog_Bounded_Cache.thy ===== *)
theory Qlog_Bounded_Cache
  imports Qlog_Buffer_Defs "HOL-Library.Monad_Syntax"
begin

unbundle bit_operations_syntax

text \<open>
  The bounded cache of the compressed appender (\<open>src/include/qlog/utility/bounded_hash_cache.hpp\<close>): open addressing with linear
  probing, sampled admission and backward-shift deletion. Empty lists stand for the null pointers of a cache without
  table; the keys of empty slots are never read. \<open>alloc\<close> tells whether the allocations of a call succeed. \<open>None\<close> is an access outside
  the table or a loop that does not return.
\<close>

section \<open>State\<close>

record bounded_hash_cache =
  cache_keys :: "u64 list"
  cache_values :: "u32 list"
  cache_size :: u32
  cache_capacity :: u32
  victim :: u32
  admission :: u32
  cache_max_size :: u32
  table_revision :: u32

record insert_token =
  token_slot :: u32
  token_revision :: u32

definition insert_token_new :: insert_token where
  "insert_token_new = \<lparr>token_slot = - 1, token_revision = 0\<rparr>"

definition invalid_value :: u32 where "invalid_value = - 1"

definition cache_min_capacity :: u32 where "cache_min_capacity = 8"

definition admission_divisor :: u32 where "admission_divisor = 64"

definition normalize_max_size :: "u32 \<Rightarrow> u32 \<Rightarrow> u32" where
  "normalize_max_size limit n = (if n < cache_min_capacity then cache_min_capacity else if n > limit then limit else n)"

definition bounded_hash_cache_new :: "u32 \<Rightarrow> u32 \<Rightarrow> bounded_hash_cache" where
  "bounded_hash_cache_new limit n = \<lparr>cache_keys = [], cache_values = [], cache_size = 0, cache_capacity = 0, victim = 0, admission = 0,
     cache_max_size = normalize_max_size limit n, table_revision = 0\<rparr>"

definition set_max_size :: "u32 \<Rightarrow> u32 \<Rightarrow> bounded_hash_cache \<Rightarrow> bool \<times> bounded_hash_cache" where
  "set_max_size limit n c =
     (let normalized = normalize_max_size limit n
      in if normalized = cache_max_size c then (True, c)
         else if cache_size c \<noteq> 0 \<and> normalized < cache_max_size c then (False, c)
         else (True, c\<lparr>cache_max_size := normalized\<rparr>))"

definition cache_clear :: "bounded_hash_cache \<Rightarrow> bounded_hash_cache" where
  "cache_clear c = c\<lparr>cache_keys := [], cache_values := [], cache_size := 0, cache_capacity := 0, victim := 0, admission := 0,
     table_revision := table_revision c + 1\<rparr>"

section \<open>Probing\<close>

definition fmix64 :: "u64 \<Rightarrow> u64" where
  "fmix64 key =
     (let key = key XOR drop_bit 33 key; key = key * 0xff51afd7ed558ccd; key = key XOR drop_bit 33 key;
          key = key * 0xc4ceb9fe1a85ec53
      in key XOR drop_bit 33 key)"

definition get_table_hash :: "u64 \<Rightarrow> u32" where
  "get_table_hash key = ucast (drop_bit 32 (fmix64 key))"

partial_function (option) probe_slot :: "u64 list \<Rightarrow> u32 list \<Rightarrow> u32 \<Rightarrow> u64 \<Rightarrow> u32 \<Rightarrow> (u32 \<times> bool) option" where
  "probe_slot ks vs capacity key slot =
     (if unat slot \<ge> length vs \<or> unat slot \<ge> length ks then None
      else if vs ! unat slot = invalid_value then Some (slot, False)
      else if ks ! unat slot = key then Some (slot, True)
      else probe_slot ks vs capacity key ((slot + 1) AND (capacity - 1)))"

definition find_slot_or_empty :: "u64 \<Rightarrow> bounded_hash_cache \<Rightarrow> (u32 \<times> bool) option" where
  "find_slot_or_empty key c =
     (if cache_values c = [] then Some (invalid_value, False)
      else probe_slot (cache_keys c) (cache_values c) (cache_capacity c) key (get_table_hash key AND (cache_capacity c - 1)))"

text \<open>The value of a key, or the place where it may be inserted.\<close>

definition cache_find :: "u64 \<Rightarrow> bounded_hash_cache \<Rightarrow> (insert_token + u32) option" where
  "cache_find key c =
     map_option (\<lambda>(slot, found). if found then Inr (cache_values c ! unat slot)
       else Inl \<lparr>token_slot = slot, token_revision = table_revision c\<rparr>) (find_slot_or_empty key c)"

section \<open>Growing\<close>

partial_function (option) free_slot :: "u32 list \<Rightarrow> u32 \<Rightarrow> u32 \<Rightarrow> u32 option" where
  "free_slot vs capacity slot =
     (if unat slot \<ge> length vs then None
      else if vs ! unat slot = invalid_value then Some slot
      else free_slot vs capacity ((slot + 1) AND (capacity - 1)))"

fun cache_move_entries :: "(u64 \<times> u32) list \<Rightarrow> u32 \<Rightarrow> u64 list \<Rightarrow> u32 list \<Rightarrow> (u64 list \<times> u32 list) option" where
  "cache_move_entries [] capacity ks vs = Some (ks, vs)"
| "cache_move_entries ((k, v) # es) capacity ks vs =
     (if v = invalid_value then cache_move_entries es capacity ks vs
      else do {
        slot \<leftarrow> free_slot vs capacity (get_table_hash k AND (capacity - 1));
        cache_move_entries es capacity (ks[unat slot := k]) (vs[unat slot := v])
      })"

definition resize_table :: "bool \<Rightarrow> u32 \<Rightarrow> bounded_hash_cache \<Rightarrow> (bool \<times> bounded_hash_cache) option" where
  "resize_table alloc new_capacity c =
     (if \<not> alloc then Some (False, c)
      else do {
        (ks, vs) \<leftarrow> cache_move_entries (zip (cache_keys c) (cache_values c)) new_capacity (replicate (unat new_capacity) 0)
          (replicate (unat new_capacity) invalid_value);
        Some (True, c\<lparr>cache_keys := ks, cache_values := vs, cache_capacity := new_capacity, victim := 0, table_revision := table_revision c + 1\<rparr>)
      })"

section \<open>Eviction\<close>

partial_function (option) erase_loop :: "u32 \<Rightarrow> u32 \<Rightarrow> u64 list \<Rightarrow> u32 list \<Rightarrow> u32 \<Rightarrow> (u64 list \<times> u32 list) option" where
  "erase_loop gap current ks vs capacity =
     (if unat current \<ge> length vs \<or> unat current \<ge> length ks \<or> unat gap \<ge> length vs then None
      else if vs ! unat current = invalid_value then Some (ks, vs[unat gap := invalid_value])
      else
        let home = get_table_hash (ks ! unat current) AND (capacity - 1); next = (current + 1) AND (capacity - 1)
        in if ((current - home) AND (capacity - 1)) > ((gap - home) AND (capacity - 1))
           then erase_loop current next (ks[unat gap := ks ! unat current]) (vs[unat gap := vs ! unat current]) capacity
           else erase_loop gap next ks vs capacity)"

definition cache_erase :: "u32 \<Rightarrow> bounded_hash_cache \<Rightarrow> bounded_hash_cache option" where
  "cache_erase slot c = do {
     (ks, vs) \<leftarrow> erase_loop slot ((slot + 1) AND (cache_capacity c - 1)) (cache_keys c) (cache_values c) (cache_capacity c);
     Some (c\<lparr>cache_keys := ks, cache_values := vs, cache_size := cache_size c - 1, table_revision := table_revision c + 1\<rparr>)
   }"

partial_function (option) next_victim :: "u32 list \<Rightarrow> u32 \<Rightarrow> u32 \<Rightarrow> u32 option" where
  "next_victim vs capacity slot =
     (if unat slot \<ge> length vs then None
      else if vs ! unat slot \<noteq> invalid_value then Some slot
      else next_victim vs capacity ((slot + 1) AND (capacity - 1)))"

section \<open>Insertion\<close>

text \<open>Room for one more entry; \<open>False\<close> when the entry is not admitted.\<close>

definition make_room :: "bool \<Rightarrow> bounded_hash_cache \<Rightarrow> (bool \<times> bounded_hash_cache) option" where
  "make_room alloc c =
     (if cache_values c = [] then resize_table alloc cache_min_capacity c
      else if cache_size c < cache_max_size c \<and> cache_size c \<ge> cache_capacity c div 2 then resize_table alloc (cache_capacity c * 2) c
      else if cache_size c \<ge> cache_max_size c
      then
        let c = c\<lparr>admission := admission c + 1\<rparr>
        in if admission c AND (admission_divisor - 1) \<noteq> 0 then Some (False, c)
           else do {
             old_victim \<leftarrow> next_victim (cache_values c) (cache_capacity c) (victim c);
             c \<leftarrow> cache_erase old_victim (c\<lparr>victim := (old_victim + 1) AND (cache_capacity c - 1)\<rparr>);
             Some (True, c)
           }
      else Some (True, c))"

definition insert_new :: "bool \<Rightarrow> u64 \<Rightarrow> u32 \<Rightarrow> insert_token \<Rightarrow> bounded_hash_cache \<Rightarrow> bounded_hash_cache option" where
  "insert_new alloc key v token c = do {
     (admitted, c) \<leftarrow> make_room alloc c;
     if \<not> admitted then Some c
     else do {
       let at_token = (token_revision token = table_revision c \<and> token_slot token < cache_capacity c);
       (if at_token \<and> unat (token_slot token) \<ge> length (cache_values c) then None else Some ());
       (slot, found) \<leftarrow> (if at_token \<and> cache_values c ! unat (token_slot token) = invalid_value then Some (token_slot token, False)
                          else find_slot_or_empty key c);
       if unat slot \<ge> length (cache_values c) \<or> unat slot \<ge> length (cache_keys c) then None
       else if found then Some (c\<lparr>cache_values := (cache_values c)[unat slot := v]\<rparr>)
       else Some (c\<lparr>cache_keys := (cache_keys c)[unat slot := key], cache_values := (cache_values c)[unat slot := v],
              cache_size := cache_size c + 1, table_revision := table_revision c + 1\<rparr>)
     }
   }"

definition cache_insert :: "bool \<Rightarrow> u64 \<Rightarrow> u32 \<Rightarrow> bounded_hash_cache \<Rightarrow> bounded_hash_cache option" where
  "cache_insert alloc key v c = do {
     (slot, found) \<leftarrow> find_slot_or_empty key c;
     if found then if unat slot \<ge> length (cache_values c) then None else Some (c\<lparr>cache_values := (cache_values c)[unat slot := v]\<rparr>)
     else insert_new alloc key v insert_token_new c
   }"

end
