(* ===== verification/Qlog_Probing.thy ===== *)
theory Qlog_Probing
  imports Qlog_Prelude
begin

text \<open>
  Linear probing in a ring of \<open>N\<close> slots, apart from how a table stores it: a table is a function from slots to optional
  keys. Every entry can be reached from the home slot of its key over occupied slots; insertion at the end of a probe
  keeps this, and so does deletion that moves later entries back into the gap.
\<close>

section \<open>The ring of slots\<close>

definition slot_next :: "nat \<Rightarrow> nat \<Rightarrow> nat" where
  "slot_next N i = (if Suc i = N then 0 else Suc i)"

definition slot_back :: "nat \<Rightarrow> nat \<Rightarrow> nat \<Rightarrow> nat" where
  "slot_back N i d = (if d \<le> i then i - d else i + N - d)"

definition slot_forth :: "nat \<Rightarrow> nat \<Rightarrow> nat \<Rightarrow> nat" where
  "slot_forth N i d = (if i + d < N then i + d else i + d - N)"

definition slot_dist :: "nat \<Rightarrow> nat \<Rightarrow> nat \<Rightarrow> nat" where
  "slot_dist N h i = (if h \<le> i then i - h else i + N - h)"

lemmas slot_defs = slot_next_def slot_back_def slot_forth_def slot_dist_def

lemma slot_ranges:
  "i < N \<Longrightarrow> slot_next N i < N" "i < N \<Longrightarrow> 0 < d \<Longrightarrow> d \<le> N \<Longrightarrow> slot_back N i d < N" "i < N \<Longrightarrow> d \<le> N \<Longrightarrow> slot_forth N i d < N"
  "i < N \<Longrightarrow> h < N \<Longrightarrow> slot_dist N h i < N"
  by (auto simp: slot_defs)

lemma slot_mods:
  "i < N \<Longrightarrow> slot_next N i = (i + 1) mod N" "i < N \<Longrightarrow> h < N \<Longrightarrow> slot_dist N h i = (i + N - h) mod N"
  by (auto simp: slot_defs mod_if)

lemma slot_forth_back: "e < N \<Longrightarrow> d < N \<Longrightarrow> slot_back N (slot_forth N e d) d = e"
  by (auto simp: slot_defs)

lemma slot_back_forth: "i < N \<Longrightarrow> 0 < d \<Longrightarrow> d < N \<Longrightarrow> slot_forth N (slot_back N i d) d = i"
  by (auto simp: slot_defs)

lemma slot_back_back: "i < N \<Longrightarrow> 0 < b \<Longrightarrow> a + b < N \<Longrightarrow> slot_back N (slot_back N i a) b = slot_back N i (a + b)"
  by (auto simp: slot_defs)

lemma slot_forth_next: "e < N \<Longrightarrow> m < N \<Longrightarrow> slot_next N (slot_forth N e m) = slot_forth N e (Suc m)"
  by (auto simp: slot_defs)

lemma slot_back_neq: "i < N \<Longrightarrow> 0 < d \<Longrightarrow> d < N \<Longrightarrow> slot_back N i d \<noteq> i"
  by (auto simp: slot_defs)

lemma slot_forth_neq: "i < N \<Longrightarrow> 0 < d \<Longrightarrow> d < N \<Longrightarrow> slot_forth N i d \<noteq> i"
  by (auto simp: slot_defs)

lemma slot_dist_home: "h < N \<Longrightarrow> i < N \<Longrightarrow> slot_forth N h (slot_dist N h i) = i"
  by (auto simp: slot_defs)

lemma slot_dist_forth: "h < N \<Longrightarrow> d < N \<Longrightarrow> slot_dist N h (slot_forth N h d) = d"
  by (auto simp: slot_defs)

lemma slot_dist_back:
  "h < N \<Longrightarrow> i < N \<Longrightarrow> m \<le> slot_dist N h i \<Longrightarrow> slot_dist N h (slot_back N i m) = slot_dist N h i - m"
  by (auto simp: slot_defs)

lemma slot_forth_path:
  "h < N \<Longrightarrow> i < N \<Longrightarrow> d < slot_dist N h i \<Longrightarrow> slot_forth N h d = slot_back N i (slot_dist N h i - d)"
  by (auto simp: slot_defs split: if_splits)

lemma slot_dist_gap:
  assumes "h < N" "e < N" "0 < m" "m < N"
  shows "slot_dist N h (slot_forth N e m) > slot_dist N h e \<longleftrightarrow> m \<le> slot_dist N h (slot_forth N e m)"
  using assms by (auto simp: slot_defs)

section \<open>Chains\<close>

locale linear_probing =
  fixes N :: nat and home :: "'k \<Rightarrow> nat"
  assumes home_less: "home k < N"
begin

definition chained :: "(nat \<Rightarrow> 'k option) \<Rightarrow> bool" where
  "chained t \<longleftrightarrow> (\<forall>i < N. \<forall>k. t i = Some k \<longrightarrow> (\<forall>d. 0 < d \<longrightarrow> d \<le> slot_dist N (home k) i \<longrightarrow> t (slot_back N i d) \<noteq> None))"

text \<open>Chained but for the gap \<open>e\<close>; no entry between the gap and the slot \<open>m\<close> steps behind it needs the gap.\<close>

definition gapped :: "(nat \<Rightarrow> 'k option) \<Rightarrow> nat \<Rightarrow> nat \<Rightarrow> bool" where
  "gapped t e m \<longleftrightarrow> t e = None \<and> e < N \<and> 0 < m \<and> m < N
     \<and> (\<forall>i < N. \<forall>k. t i = Some k \<longrightarrow> (\<forall>d. 0 < d \<longrightarrow> d \<le> slot_dist N (home k) i \<longrightarrow> t (slot_back N i d) \<noteq> None \<or> slot_back N i d = e))
     \<and> (\<forall>j. 0 < j \<longrightarrow> j < m \<longrightarrow> (\<exists>k. t (slot_forth N e j) = Some k \<and> slot_dist N (home k) (slot_forth N e j) < j))"

lemma gapped_path:
  "gapped t e m \<Longrightarrow> i < N \<Longrightarrow> t i = Some k \<Longrightarrow> 0 < d \<Longrightarrow> d \<le> slot_dist N (home k) i \<Longrightarrow> t (slot_back N i d) \<noteq> None \<or> slot_back N i d = e"
  unfolding gapped_def by blast

lemma gapped_scanned: "gapped t e m \<Longrightarrow> 0 < j \<Longrightarrow> j < m \<Longrightarrow> \<exists>k. t (slot_forth N e j) = Some k \<and> slot_dist N (home k) (slot_forth N e j) < j"
  unfolding gapped_def by blast

lemma chained_empty: "chained (\<lambda>i. None)"
  by (simp add: chained_def)

lemma chained_insert:
  assumes "chained t" "e < N" "\<And>d. d < slot_dist N (home k) e \<Longrightarrow> t (slot_forth N (home k) d) \<noteq> None"
  shows "chained (t(e \<mapsto> k))"
proof -
  have "t (slot_back N e d) \<noteq> None" if "0 < d" "d \<le> slot_dist N (home k) e" for d
    using assms(3) [of "slot_dist N (home k) e - d"] that slot_forth_path [OF home_less assms(2), of "slot_dist N (home k) e - d" k] by simp
  then show ?thesis using assms(1) unfolding chained_def by auto
qed

lemma gap_opens: "chained t \<Longrightarrow> e < N \<Longrightarrow> 1 < N \<Longrightarrow> gapped (t(e := None)) e 1"
  by (auto simp: chained_def gapped_def)

lemma gap_stays:
  assumes "gapped t e m" "t (slot_forth N e m) = Some k" "slot_dist N (home k) (slot_forth N e m) < m" "Suc m < N"
  shows "gapped t e (Suc m)"
  using assms unfolding gapped_def by (auto simp: less_Suc_eq)

lemma gap_moves:
  assumes "gapped t e m" "t (slot_forth N e m) = Some k" "m \<le> slot_dist N (home k) (slot_forth N e m)" "1 < N"
  shows "gapped (t(e \<mapsto> k, slot_forth N e m := None)) (slot_forth N e m) 1"
proof -
  let ?c = "slot_forth N e m" and ?t = "t(e \<mapsto> k, slot_forth N e m := None)"
  have e: "e < N" "0 < m" "m < N" and c: "?c < N" using assms(1) slot_ranges(3) by (auto simp: gapped_def)
  have ce: "?c \<noteq> e" and be: "slot_back N ?c m = e" using slot_forth_neq slot_forth_back e by auto
  have path: "t (slot_back N i d) \<noteq> None \<or> slot_back N i d = e" if "i < N" "t i = Some k'" "0 < d" "d \<le> slot_dist N (home k') i" for i k' d
    using gapped_path [OF assms(1) that] .
  have k: "?t (slot_back N e d) \<noteq> None" if d: "0 < d" "d \<le> slot_dist N (home k) e" for d
  proof -
    have "slot_dist N (home k) e = slot_dist N (home k) ?c - m" using slot_dist_back [OF home_less c assms(3)] be by simp
    then have md: "m + d \<le> slot_dist N (home k) ?c" using d assms(3) by simp
    have l: "m + d < N" using md slot_ranges(4) [OF c home_less, of k] by simp
    have b: "slot_back N e d = slot_back N ?c (m + d)" using slot_back_back [OF c d(1) l] be by simp
    have "slot_back N e d \<noteq> e" using slot_back_neq [OF e(1) d(1)] l by simp
    moreover have "slot_back N ?c (m + d) \<noteq> ?c" using slot_back_neq [OF c _ l] e by simp
    ultimately show ?thesis using path [OF c assms(2), of "m + d"] md b e by auto
  qed
  have "?t (slot_back N i d) \<noteq> None \<or> slot_back N i d = ?c" if "i < N" "?t i = Some k'" "0 < d" "d \<le> slot_dist N (home k') i" for i k' d
  proof (cases "i = e")
    case True
    then show ?thesis using k [of d] that ce by (auto split: if_splits)
  next
    case False
    then have "t i = Some k'" using that(2) by (simp split: if_splits)
    then show ?thesis using path [OF that(1) _ that(3,4)] by auto
  qed
  then show ?thesis using ce c assms(4) unfolding gapped_def by simp
qed

lemma gap_closes:
  assumes "gapped t e m" "t (slot_forth N e m) = None"
  shows "chained t"
  unfolding chained_def
proof (intro allI impI)
  fix i k d assume i: "i < N" "t i = Some k" and d: "0 < d" "d \<le> slot_dist N (home k) i"
  have e: "e < N" "0 < m" "m < N" "t e = None" using assms(1) by (auto simp: gapped_def)
  have path: "t (slot_back N i d) \<noteq> None \<or> slot_back N i d = e" if "0 < d" "d \<le> slot_dist N (home k) i" for d
    using gapped_path [OF assms(1) i that] .
  have dN: "d < N" using d slot_ranges(4) [OF i(1) home_less, of k] by simp
  show "t (slot_back N i d) \<noteq> None"
  proof (rule ccontr)
    assume "\<not> t (slot_back N i d) \<noteq> None"
    then have b: "slot_back N i d = e" using path [OF d] by blast
    have ie: "i = slot_forth N e d" using slot_back_forth [OF i(1) d(1) dN] b by simp
    consider "d < m" | "d = m" | "m < d" by linarith
    then show False
    proof cases
      case 1
      then obtain k' where "t i = Some k'" "slot_dist N (home k') i < d" using gapped_scanned [OF assms(1) d(1)] ie by auto
      then show False using i(2) d(2) by simp
    next
      case 2
      then show False using assms(2) ie i(2) by simp
    next
      case 3
      have "slot_back N i (d - m) = slot_forth N e m" using 3 e dN ie by (auto simp: slot_defs)
      moreover have "d - m \<le> slot_dist N (home k) i" "0 < d - m" using 3 d(2) by simp_all
      ultimately show False using path [of "d - m"] assms(2) slot_forth_neq [OF e(1-3)] by auto
    qed
  qed
qed

end

end
