(* ===== verification/Qlog_Log_Utils.thy ===== *)
theory Qlog_Log_Utils
  imports Qlog_Prelude
begin

unbundle bit_operations_syntax

text \<open>
  Variable-length numbers and zigzag codes of the compressed log files (\<open>src/include/qlog/utility/log_utils.hpp\<close>). The number of
  leading zero bits of the first byte tells the length of a number.
\<close>

section \<open>Zigzag\<close>

definition zigzag_encode :: "'a::len word \<Rightarrow> 'a word" where
  "zigzag_encode v = push_bit 1 v XOR signed_drop_bit (LENGTH('a) - 1) v"

definition zigzag_decode :: "'a::len word \<Rightarrow> 'a word" where
  "zigzag_decode v = drop_bit 1 v XOR (0 - (v AND 1))"

lemma zigzag_roundtrip: "zigzag_decode (zigzag_encode v) = v"
proof (rule bit_word_eqI)
  fix n assume n: "n < LENGTH('a)"
  have m: "bit (0 - (x AND 1) :: 'a word) n = bit x 0" for x :: "'a word"
    using n by (cases "bit x 0") (simp_all add: and_one_eq mod_2_eq_odd bit_0)
  have e: "bit (zigzag_encode v) i = (if i = 0 then bit v (LENGTH('a) - 1) else bit v (i - 1) \<noteq> bit v (LENGTH('a) - 1))" if "i < LENGTH('a)" for i
  proof -
    have p: "bit (push_bit 1 v) i = (i \<noteq> 0 \<and> bit v (i - 1))" using that by (auto simp only: bit_push_bit_iff possible_bit_word)
    have "bit (signed_drop_bit (LENGTH('a) - 1) v) i = bit v (LENGTH('a) - 1)" using that by (cases i) (simp_all add: bit_signed_drop_bit_iff)
    then show ?thesis using p unfolding zigzag_encode_def bit_xor_iff by auto
  qed
  show "bit (zigzag_decode (zigzag_encode v)) n = bit v n"
  proof (cases "Suc n < LENGTH('a)")
    case True
    then show ?thesis using n m [of "zigzag_encode v"] e [of 0] e [of "Suc n"] by (auto simp: zigzag_decode_def bit_simps)
  next
    case False
    then have "n = LENGTH('a) - 1" using n by simp
    moreover have "\<not> bit (drop_bit 1 (zigzag_encode v)) n" using False by (simp add: bit_simps) (metis False bit_imp_le_length not_le)
    ultimately show ?thesis using n m [of "zigzag_encode v"] e [of 0] by (auto simp: zigzag_decode_def bit_xor_iff)
  qed
qed

section \<open>Variable-length numbers\<close>

fun min_value_of_length :: "nat \<Rightarrow> u64" where
  "min_value_of_length n = (if n \<le> 1 then 0 else min_value_of_length (n - 1) + push_bit ((n - 1) * 7) 1)"

declare min_value_of_length.simps [simp del]

definition vlq_prefix :: "nat \<Rightarrow> u8" where
  "vlq_prefix n = (if n = 9 then 0 else push_bit (8 - n) 1)"

definition get_vlq_encode_length :: "u64 \<Rightarrow> nat" where
  "get_vlq_encode_length v =
     (if v < min_value_of_length 2 then 1 else if v < min_value_of_length 3 then 2 else if v < min_value_of_length 4 then 3
      else if v < min_value_of_length 5 then 4 else if v < min_value_of_length 6 then 5 else if v < min_value_of_length 7 then 6
      else if v < min_value_of_length 8 then 7 else if v < min_value_of_length 9 then 8 else 9)"

definition get_vlq_data_min_size_by_encode_length :: "nat \<Rightarrow> u64 option" where
  "get_vlq_data_min_size_by_encode_length n = (if n = 0 \<or> n > 9 then None else Some (min_value_of_length n))"

definition get_vlq_data_max_size_by_encode_length :: "nat \<Rightarrow> u64 option" where
  "get_vlq_data_max_size_by_encode_length n = (if n = 0 \<or> n > 9 then None else Some (if n = 9 then - 1 else min_value_of_length (n + 1) - 1))"

definition vlq_length_lut :: "nat list" where
  "vlq_length_lut = [9, 8, 7, 7] @ replicate 4 6 @ replicate 8 5 @ replicate 16 4 @ replicate 32 3 @ replicate 64 2 @ replicate 128 1"

definition get_vlq_decode_length :: "u8 \<Rightarrow> nat" where
  "get_vlq_decode_length b = vlq_length_lut ! unat b"

definition vlq_max_bytes_count :: "nat \<Rightarrow> nat" where
  "vlq_max_bytes_count sz = sz + 1"

text \<open>The first byte has the prefix and, except for nine bytes, the most significant byte; the others follow in order.\<close>

definition vlq_bytes :: "u64 \<Rightarrow> bytes" where
  "vlq_bytes v =
     (let n = get_vlq_encode_length v; e = v - min_value_of_length n
      in if n = 9 then vlq_prefix 9 # le_bytes 8 e else (vlq_prefix n + ucast (drop_bit (8 * (n - 1)) e)) # le_bytes (n - 1) e)"

text \<open>The bytes written to a target of \<open>data_len\<close> bytes; \<open>None\<close> is the failed assertion on its size.\<close>

definition vlq_encode :: "u64 \<Rightarrow> nat \<Rightarrow> bytes option" where
  "vlq_encode v data_len = (if get_vlq_encode_length v \<le> data_len then Some (vlq_bytes v) else None)"

text \<open>
  Decoding to a type of \<open>sz\<close> bytes: \<open>None\<close> reads behind the end of the data, \<open>Inl ()\<close> is \<open>invalid_decode_length\<close>, and
  \<open>Inr\<close> has the value and the number of bytes.
\<close>

definition vlq_decode :: "nat \<Rightarrow> bytes \<Rightarrow> (unit + u64 \<times> nat) option" where
  "vlq_decode sz src =
     (case src of
        [] \<Rightarrow> None
      | b # bs \<Rightarrow>
          let n = get_vlq_decode_length b
          in if n > vlq_max_bytes_count sz then Some (Inl ())
             else if length bs < n - 1 then None
             else
               let target = (if n = 9 then le_word (take 8 bs) else le_word (take (n - 1) bs @ [b - vlq_prefix n])) + min_value_of_length n
               in Some (Inr (take_bit (8 * sz) target, n)))"

section \<open>Round trip\<close>

lemma min_values:
  "min_value_of_length 1 = 0" "min_value_of_length 2 = 128" "min_value_of_length 3 = 16512" "min_value_of_length 4 = 2113664"
  "min_value_of_length 5 = 270549120" "min_value_of_length 6 = 34630287488" "min_value_of_length 7 = 4432676798592"
  "min_value_of_length 8 = 567382630219904" "min_value_of_length 9 = 72624976668147840"
  by (simp_all add: min_value_of_length.simps)

lemma length_vlq_bytes: "length (vlq_bytes v) = get_vlq_encode_length v"
proof -
  have "get_vlq_encode_length v \<noteq> 0" by (simp add: get_vlq_encode_length_def)
  then show ?thesis by (simp add: vlq_bytes_def Let_def)
qed

lemma encode_length_range: "1 \<le> get_vlq_encode_length v" "get_vlq_encode_length v \<le> 9"
  by (simp_all add: get_vlq_encode_length_def)

text \<open>Every number lies between the least values of its length and of the next.\<close>

lemma encode_length_bounds:
  assumes "get_vlq_encode_length v = n" "n \<noteq> 9"
  shows "min_value_of_length n \<le> v" "unat (v - min_value_of_length n) < 2 ^ (7 * n)"
proof -
  have n: "n \<in> {1, 2, 3, 4, 5, 6, 7, 8}" using assms encode_length_range [of v] by auto
  have b: "unat (min_value_of_length n) \<le> unat v \<and> unat v < unat (min_value_of_length n) + 2 ^ (7 * n)"
    using n assms(1) unfolding get_vlq_encode_length_def min_values
    by (auto simp: min_values min_values(1) [unfolded One_nat_def] word_less_nat_alt not_less split: if_splits)
  then show m: "min_value_of_length n \<le> v" by (simp add: word_le_nat_alt)
  show "unat (v - min_value_of_length n) < 2 ^ (7 * n)" using b by (auto simp: unat_sub [OF m])
qed

lemma encode_length_9: "get_vlq_encode_length v = 9 \<Longrightarrow> min_value_of_length 9 \<le> v"
  unfolding get_vlq_encode_length_def min_values by (auto simp: not_less split: if_splits)

lemma decode_length_spec:
  assumes "1 \<le> n" "n \<le> 8" "2 ^ (8 - n) \<le> unat b" "unat b < 2 ^ (9 - n)"
  shows "get_vlq_decode_length b = n"
proof -
  have "list_all (\<lambda>n. list_all (\<lambda>b. vlq_length_lut ! b = n) [2 ^ (8 - n)..<2 ^ (9 - n)]) [1..<9]" by code_simp
  then have "\<forall>n\<in>{1..<9}. \<forall>b\<in>{2 ^ (8 - n)..<2 ^ (9 - n)}. vlq_length_lut ! b = n" by (simp only: list_all_iff set_upt)
  moreover have "n \<in> {1..<9}" using assms(1,2) by simp
  ultimately have "\<forall>b\<in>{2 ^ (8 - n)..<2 ^ (9 - n)}. vlq_length_lut ! b = n" by (rule bspec)
  moreover have "unat b \<in> {2 ^ (8 - n)..<2 ^ (9 - n)}" using assms(3,4) by simp
  ultimately show ?thesis unfolding get_vlq_decode_length_def by (rule bspec)
qed

lemma encode_length_fits:
  assumes "unat v < 2 ^ (8 * sz)" "sz \<in> {1, 2, 4, 8}"
  shows "get_vlq_encode_length v \<le> vlq_max_bytes_count sz"
  using assms encode_length_range(2) [of v]
  by (auto simp: vlq_max_bytes_count_def get_vlq_encode_length_def min_values word_less_nat_alt)

lemma le_bytes_snoc: "0 < n \<Longrightarrow> le_bytes (n - 1) w @ [ucast (drop_bit (8 * (n - 1)) w)] = le_bytes n w"
  by (cases n) (simp_all add: le_bytes_def)

lemma take_bit_small: "unat v < 2 ^ n \<Longrightarrow> take_bit n v = v"
  by (rule word_unat_eq_iff [THEN iffD2]) (simp add: unsigned_take_bit_eq take_bit_nat_eq_self)

lemma le_word_short:
  fixes e :: u64
  assumes "unat e < 2 ^ (8 * n)" "n \<le> 8"
  shows "le_word (le_bytes n e) = e"
proof -
  have "take_bit (8 * n) e = e" using assms(1) by (rule take_bit_small)
  then show ?thesis using le_word_le_bytes [of n e] by simp
qed

lemma vlq_first_byte:
  fixes e :: u64
  assumes "1 \<le> n" "n \<le> 8" "unat e < 2 ^ (7 * n)"
  shows "unat (vlq_prefix n + ucast (drop_bit (8 * (n - 1)) e)) = 2 ^ (8 - n) + unat e div 2 ^ (8 * (n - 1))"
    "unat e div 2 ^ (8 * (n - 1)) < 2 ^ (8 - n)"
proof -
  have "8 - n + 8 * (n - 1) = 7 * n" using assms(1,2) by simp
  then have "unat e < 2 ^ (8 - n) * 2 ^ (8 * (n - 1))" using assms(3) by (metis power_add)
  then show d: "unat e div 2 ^ (8 * (n - 1)) < 2 ^ (8 - n)" by (rule less_mult_imp_div_less)
  have n: "n \<in> {1, 2, 3, 4, 5, 6, 7, 8}" using assms(1,2) by auto
  then have p: "unat (vlq_prefix n) = 2 ^ (8 - n)" "2 ^ (8 - n) \<le> (128 :: nat)" by (auto simp: vlq_prefix_def)
  have "unat (ucast (drop_bit (8 * (n - 1)) e) :: u8) = unat e div 2 ^ (8 * (n - 1)) mod 256"
  proof -
    have "unat (ucast (drop_bit (8 * (n - 1)) e) :: u8) = take_bit 8 (drop_bit (8 * (n - 1)) (unat e))"
      by (simp only: unsigned_ucast_eq unat_drop_bit_eq) (simp add: unat_drop_bit_eq)
    then show ?thesis by (simp only: take_bit_eq_mod drop_bit_eq_div) simp
  qed
  also have "\<dots> = unat e div 2 ^ (8 * (n - 1))" using d p(2) by simp
  finally show "unat (vlq_prefix n + ucast (drop_bit (8 * (n - 1)) e)) = 2 ^ (8 - n) + unat e div 2 ^ (8 * (n - 1))"
    using d p by (simp add: unat_word_ariths)
qed

lemma vlq_bytes_roundtrip:
  assumes "unat v < 2 ^ (8 * sz)" "sz \<in> {1, 2, 4, 8}"
  shows "vlq_decode sz (vlq_bytes v @ rest) = Some (Inr (v, get_vlq_encode_length v))"
proof -
  define n where "n = get_vlq_encode_length v"
  define e where "e = v - min_value_of_length n"
  have r: "1 \<le> n" "n \<le> 9" "n \<le> vlq_max_bytes_count sz" using encode_length_range encode_length_fits [OF assms] by (simp_all add: n_def)
  have v: "e + min_value_of_length n = v" by (simp add: e_def)
  have t: "take_bit (8 * sz) v = v" using assms(1) by (rule take_bit_small)
  show ?thesis
  proof (cases "n = 9")
    case True
    have "get_vlq_decode_length 0 = 9" by code_simp
    then show ?thesis using True r v t
      by (simp add: vlq_decode_def vlq_bytes_def Let_def n_def [symmetric] e_def [symmetric] vlq_prefix_def le_word_bytes)
  next
    case False
    define b where "b = vlq_prefix n + ucast (drop_bit (8 * (n - 1)) e)"
    have l: "unat e < 2 ^ (7 * n)" using encode_length_bounds(2) [of v n] False by (simp add: n_def e_def)
    have n8: "n \<le> 8" using r False by simp
    note f = vlq_first_byte [OF r(1) n8 l, folded b_def]
    have "2 * 2 ^ (8 - n) = (2 :: nat) ^ (9 - n)" using n8 by (simp add: Suc_diff_le flip: power_Suc)
    then have dl: "get_vlq_decode_length b = n" using f by (intro decode_length_spec [OF r(1) n8]) simp_all
    have e8: "unat e < 2 ^ (8 * n)" by (rule less_le_trans [OF l]) simp
    have "le_bytes (n - 1) e @ [b - vlq_prefix n] = le_bytes n e" using le_bytes_snoc [of n e] r(1) by (simp add: b_def)
    then have w: "le_word (le_bytes (n - 1) e @ [b - vlq_prefix n]) = e" using le_word_short [OF e8 n8] by simp
    have enc: "vlq_bytes v = b # le_bytes (n - 1) e" using False by (simp add: vlq_bytes_def Let_def n_def [symmetric] e_def [symmetric] b_def)
    show ?thesis using False r(3) v t dl w unfolding enc by (simp add: vlq_decode_def Let_def n_def [symmetric])
  qed
qed

text \<open>
  Property C39. Variable-length numbers: every value of an unsigned type of 1, 2, 4 or 8 bytes is encoded into at most
  \<open>vlq_max_bytes_count\<close> bytes, and decoding these bytes, whatever follows them, gives the value back and consumes exactly them. Zigzag
  decoding inverts zigzag encoding for signed values of every width.
\<close>

theorem vlq_zigzag_roundtrip:
  assumes "unat v < 2 ^ (8 * sz)" "sz \<in> {1, 2, 4, 8}" "vlq_max_bytes_count sz \<le> data_len"
  shows "(\<exists>bs. vlq_encode v data_len = Some bs \<and> length bs \<le> vlq_max_bytes_count sz
      \<and> vlq_decode sz (bs @ rest) = Some (Inr (v, length bs))) \<and> zigzag_decode (zigzag_encode w) = w"
  using vlq_bytes_roundtrip [OF assms(1,2), of rest] encode_length_fits [OF assms(1,2)] assms(3) zigzag_roundtrip [of w]
  by (simp add: vlq_encode_def length_vlq_bytes)

theorem vlq_zigzag_roundtrip_witness:
  "vlq_encode 20000 5 = Some [32, 160, 13] \<and> vlq_decode 4 ([32, 160, 13] @ [7]) = Some (Inr (20000, 3))
    \<and> zigzag_decode (zigzag_encode (- 3 :: u32)) = - 3"
proof -
  have e: "vlq_encode 20000 5 = Some [32, 160, 13]" by code_simp
  then show ?thesis using vlq_zigzag_roundtrip [of 20000 4 5 "[7]" "- 3 :: u32"] by (simp add: vlq_max_bytes_count_def)
qed

end
