(* ===== verification/Spec2Isabelle.thy ===== *)
theory Spec2Isabelle
  imports Qlog_Siso_Queue Qlog_Aes_Correct Qlog_Vernam Qlog_Miso_Props Qlog_Utf_Correct Qlog_Rsa_Keys Qlog_Hash_Map_Props Qlog_Block_Threads
    Qlog_Group_Correct Qlog_Config_Tree Qlog_Config Qlog_Record_Props
    Qlog_Layout_Correct Qlog_Layout_Spec Qlog_Time_Zone_Correct Qlog_Bounded_Cache_Correct Qlog_Log_Utils
begin

text \<open>
  Verification of QLog, a logging library: producer threads serialize log records into lock-free buffers, a worker thread
  reads the records, lays them out as text and hands them to appenders, which may compress and encrypt them.

  \<^bold>\<open>The parts and how they interact.\<close> A producer asks the log buffer for a chunk of memory. Records of most threads go
  through one ring with many producers (MISO); a thread that logs often gets a block of its own, which holds a ring with one
  producer (SISO). Blocks come in groups: a group is one piece of memory, possibly a memory-mapped file, with three
  lists of blocks (free, stage, used) that threads share without locks. After a crash the rings and the lists are recovered
  from the mapped file. The configuration text decides sizes, levels and categories.
  A record is a header, the format text, the arguments with their tags and the name of the thread; the layout puts the
  texts of the arguments into the format behind the time, thread, level and category. Encrypted logs carry a key that RSA
  protects; the contents are enciphered with AES or with a key stream. Format strings are hashed while they are copied.

  \<^bold>\<open>Conventions.\<close> Machine integers are words (\<open>u8\<close> to \<open>u64\<close>), so sums wrap as in the code. Memory is a list of bytes and a
  pointer an offset into it; structures laid over memory are read and written there, little endian. Every operation of the
  source is a function from the state (a record) to a result and the new state. Errors of the code are values: an
  error code, or \<open>Inl\<close> of an error type. \<open>None\<close> stands for a failed assertion, an access outside the memory, or a loop
  that does not return: loops without an evident bound are \<open>partial_function (option)\<close>, and what the theorems say of them
  includes that they return. No fuel is used. Theorems with side conditions have a witness, a concrete instance.

  \<^bold>\<open>Shared theories.\<close> \<open>Qlog_Prelude\<close> has the machine integers, byte memory and mask arithmetic; \<open>Qlog_Limbs\<close> numbers as
  lists of words. \<open>Qlog_Queue_Spec\<close> states the contract of a log ring (locales \<open>byte_queue\<close> and \<open>byte_queue_st\<close>: any run of
  pushes and pops delivers the accepted payloads in order), which both rings are shown to keep. \<open>Qlog_Probing\<close> is linear probing apart from how a table stores it (\<open>linear_probing\<close>). \<open>Qlog_Map_Spec\<close> states
  the contract of an associative container (\<open>bounded_map\<close>), which the hash map is shown to keep. \<open>Qlog_Aes_Correct\<close> has the
  contract of a block cipher (\<open>block_cipher\<close>), and \<open>Qlog_Vernam\<close> that of the inner loop of a key-stream variant
  (\<open>vernam_inner\<close>), interpreted for each variant.

  \<^bold>\<open>Buffers.\<close>
  \<^item> \<open>Qlog_Buffer_Defs\<close>: \<open>utility.hpp\<close>, \<open>alignment.hpp\<close>, \<open>checked_size.hpp\<close>, \<open>log_buffer_defs.hpp\<close>, \<open>log_buffer_config\<close>.
  \<^item> \<open>Qlog_Siso\<close>, \<open>_Correct\<close>, \<open>_Recovery\<close>, \<open>_Queue\<close>: \<open>siso_ring_buffer\<close>. Chunks in a ring of 8-byte blocks with 32-bit
    cursors; the ring is a first-in first-out queue, also when the two threads interleave and each loads an older value of the other side's cursor; batch reading;
    recovery restores exactly the unread payloads.
  \<^item> \<open>Qlog_Miso\<close>, \<open>_Correct\<close>, \<open>_Reader\<close>, \<open>_Recovery\<close>, \<open>_Queue\<close>, \<open>_Threads\<close>, \<open>_Props\<close>: \<open>miso_ring_buffer\<close>. Any number of producers
    that reserve with \<open>fetch_add\<close> and commit in any order, an allocation being one step; the same contract, and nothing is consumed before its commit; what recovery restores and which valid rings
    it rejects.
  \<^item> \<open>Qlog_Block_List\<close>, \<open>_Chains\<close>, \<open>_Threads\<close>: \<open>block_list\<close>. The linked lists with a 16-bit index and a 16-bit mark in one
    word. Every load and every compare-and-swap is a step; in every interleaving a block is owned by one thread or in one
    list, and each push and pop takes effect as on a stack.
  \<^item> \<open>Qlog_Group\<close>, \<open>_Correct\<close>: the constructor \<open>group_data_head\<close> of \<open>group_list.cpp\<close>, with its two hash maps. For fewer than 65535 blocks and every
    content of the memory it returns and each block is in exactly one list; over the memory of an earlier run it takes over
    the lists and the unread data.

  \<^bold>\<open>Containers and text.\<close>
  \<^item> \<open>Qlog_Hash_Map\<close>, \<open>_Inv\<close>, \<open>_Nodes\<close>, \<open>_Grow\<close>, \<open>_Ops\<close>, \<open>_Remove\<close>, \<open>_Props\<close>: \<open>hash_map_impl.hpp\<close>, the nodes in an array with links, a
    free list and bucket heads. All operations refine the finite map; iteration visits each binding once; a stale
    iterator is not recognised.
  \<^item> \<open>Qlog_Utf\<close>, \<open>_Correct\<close>: \<open>utf_conversion.cpp\<close>, \<open>utf_mixed.cpp\<close>. Decoding inverts encoding; the mixed
    encoding carries text and hash, and how much room its conversion to UTF-8 needs.
  \<^item> \<open>Qlog_Bounded_Cache\<close>, \<open>_Correct\<close>: \<open>bounded_hash_cache.hpp\<close>, open addressing with backward-shift deletion and sampled admission. It is
    a map with a limit that gives up one key for each key it admits when full; all its loops return.
  \<^item> \<open>Qlog_Log_Utils\<close>: \<open>log_utils.hpp\<close>, variable-length numbers and zigzag codes, read back.
  \<^item> \<open>Qlog_Strings\<close>, \<open>Qlog_Numbers\<close>, \<open>Qlog_Property\<close>, \<open>Qlog_Property_Correct\<close>: \<open>string_utils.cpp\<close>, the number syntax the
    configuration uses (\<open>strtod\<close> with exact rounding, \<open>%lf\<close>), \<open>property.cpp\<close> over the hash map. A property text that
    was written is read back.
  \<^item> \<open>Qlog_Property_Value\<close>, \<open>Qlog_Config_Leaves\<close>, \<open>Qlog_Config_Tree\<close>: \<open>property_value.cpp\<close>. A tree that was written is read back
    with the same leaves; the conditions (plain keys, non-empty objects, non-negative integers below \<open>2^53\<close>, texts that
    do not look like another type) are where the code loses data, listed as findings.
  \<^item> \<open>Qlog_Config\<close>: \<open>filter_config.cpp\<close>, \<open>buffer_config.cpp\<close>, \<open>log_level_bitmap.cpp\<close>.

  \<^bold>\<open>Encryption and hashing.\<close>
  \<^item> \<open>Qlog_Aes\<close>, \<open>_Correct\<close>: \<open>aes.cpp\<close>. Block decryption inverts encryption for every key; CBC; a key and an IV of one
    millisecond share their bytes. A failed assertion of the constructor is \<open>None\<close>, the errors of encryption are values.
  \<^item> \<open>Qlog_Vernam\<close>: \<open>vernam.cpp\<close>, scalar and vector variants, equal to the XOR with the repeated key. A misaligned vector
    access is an error value, a call that does not return is \<open>None\<close>; when the SSE variant does not return without the alignment.
  \<^item> \<open>Qlog_Rsa\<close>, \<open>_Arith\<close>, \<open>_Correct\<close>, \<open>_Keys\<close>: \<open>rsa.cpp\<close>. Multi-limb arithmetic, RSA from Fermat's little theorem, key
    formats read back what the standard encoders write.
  \<^item> \<open>Qlog_Hash\<close>, \<open>_Correct\<close>, \<open>Qlog_Random\<close>: \<open>hash_core.hpp\<close>, \<open>hash_software.cpp\<close>, \<open>random.cpp\<close>.

  \<^bold>\<open>Records and layout.\<close>
  \<^item> \<open>src/include/qlog/record/\<close>, \<open>log.hpp\<close>, \<open>record_writer.cpp\<close> (\<open>Qlog_Record\<close>, \<open>Qlog_Record_Writer\<close>): what the templates ask
    about a C++ type is a record of facts, an argument a type with its value. \<open>Qlog_Record_Strings\<close>, \<open>Qlog_Record_Correct\<close> and
    \<open>Qlog_Record_Props\<close> show that what is measured is what is copied, and that every call returns false (its level or category is not
    enabled, or it gets no chunk) or writes a record inside its chunk that holds what was logged and that the check of recovered records
    accepts. The allocation is a parameter, a function from sizes to optional chunks.
  \<^item> \<open>layout.cpp\<close> (\<open>Qlog_Layout\<close>, \<open>Qlog_Layout_Format\<close>): the output buffer, format specifications, the texts of values and the
    loops over UTF-8 and UTF-16 formats, with \<open>float\<close> and \<open>double\<close> rounded as their types are. \<open>Qlog_Layout_Output\<close> has what an
    insertion appends, \<open>Qlog_Layout_Digits\<close> integers in every base, \<open>Qlog_Layout_Values\<close> the text of every kind of argument,
    \<open>Qlog_Layout_Correct\<close> a reference on the characters of a format and that logging followed by the layout computes it;
    \<open>Qlog_Layout_Spec\<close> bounds the specifications and shows where a radix prefix lacks room.
  \<^item> \<open>time_zone.cpp\<close> (\<open>Qlog_Time_Zone\<close>): zones and dates; \<open>Qlog_Time_Zone_Correct\<close> reads the name of a zone back.

  \<^bold>\<open>Assumptions of the model.\<close> Atomic operations of the block lists take effect in one order (the code uses sequentially
  consistent or acquire and release operations on one word); the 16-bit mark of a list head does not wrap around
  while a thread is between its load and its compare-and-swap. For the SISO ring, either thread may load an older value of the other side's
  cursor. For the MISO ring, the calls of different threads interleave as wholes: between the \<open>fetch_add\<close> of an allocation, its check and its
  roll-back no other thread runs; a producer allocates only while its cached read cursor is at most \<open>2^31\<close> blocks old. Sizes of
  hash maps stay below the bound at which 32-bit bucket counts overflow. The order in which objects of a configuration list
  their keys is a parameter.

  \<^bold>\<open>Not modelled.\<close> The log buffer that composes the rings, the rest of the group list (its locks and memory pool),
  the appenders, the file manager and the runtime are not modelled. Platform code (atomics of the compiler, threads, memory maps, files, clocks) calls the operating system
  and has no logic of its own beyond it; diagnostics only print; tests, benchmarks and tools are no part of the library.
\<close>

end
